(* ===== verification/Prelude.thy ===== *)
theory Prelude
  imports Main "HOL-Library.Word"
begin

unbundle bit_operations_syntax

text \<open>
  Shared vocabulary of the development: the C integer types at their widths, \<open>size_t\<close>
  arithmetic with its wrap-around, byte strings, block moves, and the shape of a C function
  that reports success and advances a cursor.  The lemmas here are about lists, words and
  big-endian byte strings in general; nothing in this theory is specific to one component.
\<close>

section \<open>C integer types\<close>

type_synonym u8 = "8 word"
type_synonym u16 = "16 word"
type_synonym u32 = "32 word"
type_synonym u64 = "64 word"
type_synonym bytes = "u8 list"

text \<open>\<open>size_t\<close> is 64 bits wide on the targets of the pod; lengths are naturals and the
  additions and multiplications that the code checks for overflow wrap modulo \<open>2 ^ 64\<close>.\<close>

definition SIZE_MAX :: nat where
  "SIZE_MAX = 18446744073709551615"

definition size_add :: "nat \<Rightarrow> nat \<Rightarrow> nat" where
  "size_add a b = (a + b) mod 18446744073709551616"

definition size_mul :: "nat \<Rightarrow> nat \<Rightarrow> nat" where
  "size_mul a b = (a * b) mod 18446744073709551616"

text \<open>Evaluation goes through binary integers.\<close>

lemma size_arith_code [code]:
  "size_add a b = nat ((int a + int b) mod 18446744073709551616)"
  "size_mul a b = nat ((int a * int b) mod 18446744073709551616)"
  by (simp_all add: size_add_def size_mul_def nat_mod_distrib nat_add_distrib nat_mult_distrib)

definition INT_MAX :: nat where
  "INT_MAX = 2147483647"

text \<open>Conversions to a 32-bit \<open>int\<close> and to \<open>size_t\<close>, on the values.\<close>

definition c_int :: "int \<Rightarrow> int" where
  "c_int x = (x + 2147483648) mod 4294967296 - 2147483648"

definition c_size :: "int \<Rightarrow> nat" where
  "c_size x = nat (x mod 18446744073709551616)"

lemma c_int_small: "- 2147483648 \<le> x \<Longrightarrow> x < 2147483648 \<Longrightarrow> c_int x = x"
  by (simp add: c_int_def)

lemma c_size_small: "n \<le> SIZE_MAX \<Longrightarrow> c_size (int n) = n"
  by (simp add: c_size_def SIZE_MAX_def)

text \<open>A length that does not fit the \<open>int\<close> it is returned as.\<close>

definition exceeds_int :: "nat \<Rightarrow> bool" where
  [simp]: "exceeds_int n \<longleftrightarrow> n > INT_MAX"

lemma exceeds_int_code [code]: "exceeds_int n \<longleftrightarrow> int n > 2147483647"
  by (auto simp: INT_MAX_def)

text \<open>An allocator is the predicate that says which request sizes \<open>OPENSSL_malloc\<close> serves.\<close>

type_synonym allocator = "nat \<Rightarrow> bool"

abbreviation unlimited :: allocator where
  "unlimited \<equiv> \<lambda>_. True"

text \<open>
  A reader is a C function of the form \<open>int get(CBS *cbs, T *out)\<close>: it returns the value on
  success (\<open>None\<close> for the return value 0) and the cursor as the call leaves it, on failure too.
\<close>

type_synonym 'a reader = "bytes \<Rightarrow> 'a option \<times> bytes"

text \<open>
  Collections: \<open>size_simps\<close> unfolds the \<open>size_t\<close> arithmetic, \<open>byte_simps\<close> rewrites the
  shift-and-or idioms on words into arithmetic.
\<close>

named_theorems size_simps
named_theorems byte_simps

declare SIZE_MAX_def [size_simps] size_add_def [size_simps] size_mul_def [size_simps]
  INT_MAX_def [size_simps]

lemma size_add_no_wrap [simp]: "a + b \<le> SIZE_MAX \<Longrightarrow> size_add a b = a + b"
  by (simp add: size_simps)

lemma size_add_wrap_iff:
  "a \<le> SIZE_MAX \<Longrightarrow> b \<le> SIZE_MAX \<Longrightarrow> size_add a b < a \<longleftrightarrow> SIZE_MAX < a + b"
  by (auto simp: size_simps mod_if split: if_splits)

text \<open>The C idiom that checks the size of an array of 8-byte cells for overflow.\<close>

lemma size_mul_commute: "size_mul a b = size_mul b a"
  by (simp add: size_mul_def mult.commute)

lemma ptr_array_fits:
  assumes "m \<le> SIZE_MAX"
  shows "size_mul m 8 div 8 = m \<longleftrightarrow> m * 8 \<le> SIZE_MAX"
proof -
  have "m * 8 mod 18446744073709551616 = 8 * (m mod 2305843009213693952)"
    using mult_mod_right [of 8 m 2305843009213693952] by (simp add: mult.commute)
  then have "size_mul m 8 div 8 = m mod 2305843009213693952"
    by (simp add: size_mul_def)
  moreover have "m mod 2305843009213693952 = m \<longleftrightarrow> m * 8 \<le> SIZE_MAX"
  proof -
    have "m mod 2305843009213693952 = m \<longleftrightarrow> m < 2305843009213693952"
      by (metis mod_less mod_less_divisor zero_less_numeral)
    then show ?thesis by (auto simp: SIZE_MAX_def)
  qed
  ultimately show ?thesis by simp
qed

section \<open>Block moves\<close>

text \<open>\<open>memmove(&xs[dst], &xs[src], n)\<close> inside one array, and \<open>memcpy\<close> into it.\<close>

definition mem_move :: "nat \<Rightarrow> nat \<Rightarrow> nat \<Rightarrow> 'a list \<Rightarrow> 'a list" where
  "mem_move dst src n xs = take dst xs @ take n (drop src xs) @ drop (dst + n) xs"

definition mem_copy :: "nat \<Rightarrow> 'a list \<Rightarrow> 'a list \<Rightarrow> 'a list" where
  "mem_copy dst ys xs = take dst xs @ ys @ drop (dst + length ys) xs"

lemma length_mem_move [simp]:
  "dst + n \<le> length xs \<Longrightarrow> src + n \<le> length xs \<Longrightarrow> length (mem_move dst src n xs) = length xs"
  by (simp add: mem_move_def)

lemma length_mem_copy [simp]:
  "dst + length ys \<le> length xs \<Longrightarrow> length (mem_copy dst ys xs) = length xs"
  by (simp add: mem_copy_def)

lemma mem_copy_Nil [simp]: "mem_copy dst [] xs = xs"
  by (simp add: mem_copy_def)

section \<open>Big-endian byte strings\<close>

definition be_val :: "bytes \<Rightarrow> nat" where
  "be_val bs = foldl (\<lambda>v b. v * 256 + unat b) 0 bs"

fun be_bytes :: "nat \<Rightarrow> nat \<Rightarrow> bytes" where
  "be_bytes 0 v = []"
| "be_bytes (Suc n) v = be_bytes n (v div 256) @ [of_nat (v mod 256)]"

lemma be_val_Nil [simp]: "be_val [] = 0"
  by (simp add: be_val_def)

lemma be_val_snoc [simp]: "be_val (bs @ [b]) = be_val bs * 256 + unat b"
  by (simp add: be_val_def)

lemma be_val_singleton [simp]: "be_val [b] = unat b"
  by (simp add: be_val_def)

lemma length_be_bytes [simp]: "length (be_bytes n v) = n"
  by (induction n arbitrary: v) auto

lemma unat_u8_less [simp]: "unat (b :: u8) < 256"
  using unsigned_less [of b] by simp

lemma mod_128_high: "128 \<le> x \<Longrightarrow> x < 256 \<Longrightarrow> x mod 128 = x - 128" for x :: nat
  by (simp add: le_mod_geq)

lemma unat_of_nat_mod256 [simp]: "unat (of_nat (v mod 256) :: u8) = v mod 256"
  by (simp add: unat_of_nat)

lemma be_val_be_bytes: "v < 256 ^ n \<Longrightarrow> be_val (be_bytes n v) = v"
proof (induction n arbitrary: v)
  case 0
  then show ?case by simp
next
  case (Suc n)
  have "v div 256 < 256 ^ n"
    using Suc.prems by (simp add: less_mult_imp_div_less mult.commute)
  then show ?case by (simp add: Suc.IH)
qed

lemma be_val_less: "be_val bs < 256 ^ length bs"
proof (induction bs rule: rev_induct)
  case Nil
  then show ?case by simp
next
  case (snoc b bs)
  have "be_val bs * 256 + unat b < (be_val bs + 1) * 256"
    by simp
  also have "\<dots> \<le> 256 ^ length bs * 256"
    using snoc.IH by (intro mult_le_mono1) simp
  finally show ?case by (simp add: mult.commute)
qed

lemma be_bytes_be_val: "be_bytes (length bs) (be_val bs) = bs"
proof (induction bs rule: rev_induct)
  case Nil
  then show ?case by simp
next
  case (snoc b bs)
  have "of_nat (unat b) = b" by simp
  then show ?case by (simp add: snoc.IH)
qed

lemma be_bytes_be_val': "length bs = n \<Longrightarrow> be_bytes n (be_val bs) = bs"
  using be_bytes_be_val by blast

lemma be_val_append: "be_val (xs @ ys) = be_val xs * 256 ^ length ys + be_val ys"
proof (induction ys rule: rev_induct)
  case Nil
  then show ?case by simp
next
  case (snoc y ys)
  have "be_val (xs @ ys @ [y]) = be_val ((xs @ ys) @ [y])"
    by simp
  also have "\<dots> = be_val (xs @ ys) * 256 + unat y"
    by (simp only: be_val_snoc)
  also have "\<dots> = be_val xs * 256 ^ length (ys @ [y]) + be_val (ys @ [y])"
    by (simp add: snoc.IH algebra_simps)
  finally show ?case .
qed

lemma be_val_Cons: "be_val (x # xs) = unat x * 256 ^ length xs + be_val xs"
  using be_val_append [of "[x]" xs] by simp

lemma be_val_inject: "length xs = length ys \<Longrightarrow> be_val xs = be_val ys \<Longrightarrow> xs = ys"
  by (metis be_bytes_be_val)

section \<open>Words\<close>

lemma word_of_nat_eqI: "unat w = n \<Longrightarrow> w = of_nat n"
  by auto

lemma unat_ucast_up:
  "LENGTH('a) \<le> LENGTH('b) \<Longrightarrow> unat (ucast (w :: 'a::len word) :: 'b::len word) = unat w"
  by (simp add: unsigned_ucast_eq take_bit_nat_eq_self order_less_le_trans [OF unsigned_less])

lemma unat_ucast_u8 [simp]:
  "unat (ucast (b :: u8) :: u16) = unat b"
  "unat (ucast (b :: u8) :: u32) = unat b"
  "unat (ucast (b :: u8) :: u64) = unat b"
  by (simp_all add: unat_ucast_up)

lemma unat_ucast_u16 [simp]:
  "unat (ucast (w :: u16) :: u32) = unat w"
  "unat (ucast (w :: u16) :: u64) = unat w"
  by (simp_all add: unat_ucast_up)

lemma unat_ucast_u32 [simp]: "unat (ucast (w :: u32) :: u64) = unat w"
  by (simp add: unat_ucast_up)

lemma unat_ucast_down:
  "unat (ucast (w :: 'a::len word) :: 'b::len word) = unat w mod 2 ^ LENGTH('b)"
  by (simp add: unsigned_ucast_eq take_bit_eq_mod)

lemma unat_drop_bit_div [byte_simps]: "unat (drop_bit n w) = unat w div 2 ^ n"
  by (simp only: unat_drop_bit_eq) (simp add: drop_bit_eq_div)

lemma unat_push_bit_small:
  "unat w * 2 ^ n < 2 ^ LENGTH('a) \<Longrightarrow> unat (push_bit n (w :: 'a::len word)) = unat w * 2 ^ n"
  by (simp only: unsigned_push_bit_eq) (simp add: push_bit_eq_mult take_bit_nat_eq_self)

lemma unat_plus_small:
  "unat v + unat w < 2 ^ LENGTH('a) \<Longrightarrow> unat (v + w :: 'a::len word) = unat v + unat w"
  by (simp add: unat_word_ariths)

text \<open>A disjunction whose left operand has been shifted clear of the right one is a sum.\<close>

lemma push_bit_or_plus:
  "unat w < 2 ^ n \<Longrightarrow> push_bit n v OR w = push_bit n v + (w :: 'a::len word)"
proof -
  assume "unat w < 2 ^ n"
  then have "take_bit n (unat w) = unat w" by (simp add: take_bit_nat_eq_self)
  then have w: "take_bit n w = w" by (simp add: word_unat_eq_iff unsigned_take_bit_eq)
  have "push_bit n v AND take_bit n w = 0"
    by (rule bit_word_eqI) (auto simp: bit_simps)
  then have "push_bit n v AND w = 0"
    by (simp only: w)
  then show ?thesis by (simp only: disjunctive_add_eq_or)
qed

lemma unat_push_bit_or:
  assumes "unat w < 2 ^ n" and "unat v * 2 ^ n + unat w < 2 ^ LENGTH('a)"
  shows "unat (push_bit n v OR w :: 'a::len word) = unat v * 2 ^ n + unat w"
proof -
  have v: "unat (push_bit n v) = unat v * 2 ^ n"
    using assms(2) by (intro unat_push_bit_small) simp
  show ?thesis
    unfolding push_bit_or_plus [OF assms(1)]
    using assms(2) v by (simp add: unat_plus_small)
qed

lemma shift8_or:
  "push_bit 8 v OR (ucast (b :: u8)) = v * 256 + (ucast b :: u64)" for v :: u64
  using push_bit_or_plus [of "ucast b" 8 v] by (simp add: push_bit_eq_mult)

lemma drop_bit_8_eq_0_iff: "drop_bit (8 * n) v = 0 \<longleftrightarrow> unat v < 256 ^ n"
proof -
  have "drop_bit (8 * n) v = 0 \<longleftrightarrow> unat v div 2 ^ (8 * n) = 0"
    by (simp only: unat_eq_0 [symmetric] unat_drop_bit_div)
  then show ?thesis
    by (simp add: div_eq_0_iff power_mult)
qed

section \<open>Masks on bytes\<close>

lemma unat_and_0x7f [byte_simps]: "unat (b AND 0x7f) = unat b mod 128" for b :: u8
proof -
  have "b AND 0x7f = take_bit 7 b"
    by (simp add: take_bit_eq_mask mask_eq_exp_minus_1)
  then show ?thesis
    by (simp add: unsigned_take_bit_eq take_bit_eq_mod unat_mod_distrib)
qed

lemma unat_and_0x1f [byte_simps]: "unat (b AND 0x1f) = unat b mod 32" for b :: u8
proof -
  have "b AND 0x1f = take_bit 5 b"
    by (simp add: take_bit_eq_mask mask_eq_exp_minus_1)
  then show ?thesis
    by (simp add: unsigned_take_bit_eq take_bit_eq_mod unat_mod_distrib)
qed

lemma and_0x80_iff [byte_simps]: "b AND 0x80 = 0 \<longleftrightarrow> unat b < 128" for b :: u8
proof -
  have "(0x80 :: u8) = push_bit 7 1" by simp
  then have "b AND 0x80 \<noteq> 0 \<longleftrightarrow> bit b 7"
    by (simp only: bit_iff_and_push_bit_not_eq_0)
  also have "\<dots> \<longleftrightarrow> bit (unat b) 7"
    by (simp add: bit_unsigned_iff)
  also have "\<dots> \<longleftrightarrow> odd (unat b div 2 ^ 7)"
    by (rule bit_iff_odd)
  also have "\<dots> \<longleftrightarrow> 128 \<le> unat b"
  proof -
    have "unat b div 128 < 2"
      using unat_u8_less [of b] by (simp add: less_mult_imp_div_less)
    then show ?thesis
      by (auto simp: less_2_cases_iff div_eq_0_iff not_less)
  qed
  finally show ?thesis by auto
qed

lemma or_0x80 [byte_simps]: "d < 128 \<Longrightarrow> (of_nat d OR 0x80 :: u8) = of_nat (d + 128)"
proof -
  assume "d < 128"
  then have "(of_nat d :: u8) AND 0x80 = 0"
    by (simp add: and_0x80_iff unat_of_nat)
  then show ?thesis by (simp flip: disjunctive_add_eq_or)
qed

lemma unat_and_0xe0 [byte_simps]:
  "unat ((ucast b :: u32) AND 0xe0) = unat b div 32 * 32" for b :: u8
proof -
  have "(ucast b :: u32) AND 0xe0 = push_bit 5 (drop_bit 5 (ucast b))"
  proof (rule bit_word_eqI)
    fix n
    assume "n < LENGTH(32)"
    show "bit ((ucast b :: u32) AND 0xe0) n = bit (push_bit 5 (drop_bit 5 (ucast b :: u32))) n"
    proof (cases "n < 8")
      case True
      then have "n \<in> {0, 1, 2, 3, 4, 5, 6, 7}" by auto
      then show ?thesis by (auto simp: bit_simps)
    next
      case False
      then show ?thesis by (auto simp: bit_simps dest: bit_imp_le_length)
    qed
  qed
  moreover have "unat (drop_bit 5 (ucast b :: u32)) = unat b div 32"
    by (simp only: unat_drop_bit_div) simp
  moreover have "unat b div 32 * 32 < 2 ^ 32"
    using unat_u8_less [of b] by (rule order_le_less_trans [rotated, OF less_trans]) simp_all
  ultimately show ?thesis
    using unat_push_bit_small [of "drop_bit 5 (ucast b :: u32)" 5] by simp
qed

end
