(* ===== verification/Codec.thy ===== *)
theory Codec
  imports Prelude "HOL-Library.Sublist"
begin

text \<open>
  The interface between the parsers and the serialisers of the development: a reader and an
  encoding that determine each other.  Every wire format of the byte-string layer (fixed-width
  integers, base-128 integers, DER tags, DER elements, UTF-8 code points, \<dots>) is an
  interpretation of \<open>codec\<close> on the functions of the model, in the theory of its component.
\<close>

section \<open>One value\<close>

text \<open>
  \<open>dec_enc\<close> is the round trip; \<open>enc_dec\<close> is canonicity: the only input the reader accepts as
  \<open>x\<close> is the encoding of \<open>x\<close>.
\<close>

locale codec =
  fixes enc :: "'a \<Rightarrow> 'b list"
    and dec :: "'b list \<Rightarrow> 'a option \<times> 'b list"
    and valid :: "'a \<Rightarrow> bool"
  assumes dec_enc: "valid x \<Longrightarrow> dec (enc x @ r) = (Some x, r)"
    and enc_dec: "dec s = (Some x, r) \<Longrightarrow> valid x \<and> s = enc x @ r"
begin

lemma dec_iff: "dec s = (Some x, r) \<longleftrightarrow> valid x \<and> s = enc x @ r"
  using dec_enc enc_dec by blast

lemma dec_enc_exact: "valid x \<Longrightarrow> dec (enc x) = (Some x, [])"
  using dec_enc [of x "[]"] by simp

lemma unique_split:
  "valid x \<Longrightarrow> valid y \<Longrightarrow> enc x @ r = enc y @ r' \<Longrightarrow> x = y \<and> r = r'"
  by (metis dec_enc option.inject prod.inject)

lemma enc_inject: "valid x \<Longrightarrow> valid y \<Longrightarrow> enc x = enc y \<longleftrightarrow> x = y"
  using unique_split [of x y "[]" "[]"] by auto

lemma prefix_free: "valid x \<Longrightarrow> valid y \<Longrightarrow> prefix (enc x) (enc y) \<Longrightarrow> x = y"
  using unique_split [of x y _ "[]"] by (auto simp: prefix_def)

lemma dec_suffix: "dec s = (Some x, r) \<Longrightarrow> suffix r s"
  using enc_dec by (auto simp: suffix_def)

lemma dec_extend: "dec s = (Some x, r) \<Longrightarrow> dec (s @ t) = (Some x, r @ t)"
  by (simp add: dec_iff)

lemma dec_accepts_iff: "(\<exists>x r. dec s = (Some x, r)) \<longleftrightarrow> (\<exists>x. valid x \<and> prefix (enc x) s)"
  by (auto simp: dec_iff prefix_def)

end

section \<open>Sequences of values\<close>

text \<open>When no encoding is empty, a concatenation of encodings parses into one list only.\<close>

locale codec_seq = codec +
  assumes enc_nonempty: "valid x \<Longrightarrow> enc x \<noteq> []"
begin

lemma dec_Nil: "dec [] \<noteq> (Some x, r)"
  using enc_dec [of "[]" x r] enc_nonempty [of x] by auto

lemma dec_shorter: "dec s = (Some x, r) \<Longrightarrow> length r < length s"
  using enc_dec [of s x r] enc_nonempty [of x] by auto

lemma concat_enc_inject:
  assumes "\<forall>x \<in> set xs. valid x" and "\<forall>y \<in> set ys. valid y"
    and "concat (map enc xs) = concat (map enc ys)"
  shows "xs = ys"
  using assms
proof (induction xs arbitrary: ys)
  case Nil
  then show ?case using enc_nonempty by (cases ys) auto
next
  case (Cons x xs)
  have x: "valid x" "enc x \<noteq> []"
    using Cons.prems(1) enc_nonempty by auto
  obtain y zs where ys: "ys = y # zs"
    using Cons.prems(3) x(2) by (cases ys) simp_all
  have "enc x @ concat (map enc xs) = enc y @ concat (map enc zs)"
    using Cons.prems(3) ys by simp
  with x(1) have "x = y \<and> concat (map enc xs) = concat (map enc zs)"
    using Cons.prems(2) ys by (intro unique_split) simp_all
  with Cons.IH [of zs] Cons.prems(1,2) ys show ?case by simp
qed

end

section \<open>Changing the representation\<close>

text \<open>A codec for \<open>'a\<close> and a bijection between valid values give a codec for the image.\<close>

locale codec_map = codec enc dec valid
  for enc :: "'a \<Rightarrow> 'b list" and dec and valid +
  fixes f :: "'c \<Rightarrow> 'a" and g :: "'a \<Rightarrow> 'c" and ok :: "'c \<Rightarrow> bool"
  assumes f_valid: "ok y \<Longrightarrow> valid (f y) \<and> g (f y) = y"
    and g_ok: "valid x \<Longrightarrow> ok (g x) \<and> f (g x) = x"
begin

lemma dec_map_enc: "ok y \<Longrightarrow> map_prod (map_option g) id (dec (enc (f y) @ r)) = (Some y, r)"
  using f_valid dec_enc by simp

lemma enc_map_dec:
  "map_prod (map_option g) id (dec s) = (Some y, r) \<Longrightarrow> ok y \<and> s = enc (f y) @ r"
  using g_ok enc_dec by (auto simp: map_prod_def split: prod.splits)

end

sublocale codec_map \<subseteq> mapped: codec "\<lambda>y. enc (f y)" "\<lambda>s. map_prod (map_option g) id (dec s)" ok
  using dec_map_enc enc_map_dec by unfold_locales blast+

end
