(* ===== verification/Cbs.thy ===== *)
theory Cbs
  imports Codec
begin

unbundle bit_operations_syntax

text \<open>
  \<open>crypto/bytestring/cbs.c\<close>: the bounds-checked reader \<open>CBS\<close> and the DER element parser on
  top of it.  A \<open>CBS\<close> (a pointer and a length) is the byte string it still covers; a function
  that takes \<open>CBS *cbs\<close> and an out-parameter is a \<open>reader\<close>: the value written on success, and
  the bytes left in \<open>*cbs\<close> when it returns, also when it fails.  \<open>CBS_asn1_oid_to_text\<close>, which
  writes through a \<open>CBB\<close>, is in the theory \<open>Oid\<close>.
\<close>

section \<open>The cursor\<close>

definition CBS_init :: "bytes \<Rightarrow> nat \<Rightarrow> bytes" where
  "CBS_init data len = take len data"

definition cbs_get :: "nat \<Rightarrow> bytes reader" where
  "cbs_get n cbs = (if length cbs < n then (None, cbs) else (Some (take n cbs), drop n cbs))"

definition CBS_skip :: "nat \<Rightarrow> unit reader" where
  "CBS_skip len cbs = (case cbs_get len cbs of
     (None, cbs') \<Rightarrow> (None, cbs')
   | (Some _, cbs') \<Rightarrow> (Some (), cbs'))"

definition CBS_data :: "bytes \<Rightarrow> bytes" where
  "CBS_data cbs = cbs"

definition CBS_len :: "bytes \<Rightarrow> nat" where
  "CBS_len cbs = length cbs"

text \<open>\<open>CBS_stow\<close> returns success and the new \<open>*out_ptr\<close> (\<open>None\<close> for \<open>NULL\<close>); the new
  \<open>*out_len\<close> is the length of that copy.  \<open>OPENSSL_memdup\<close> fails when the allocator does.\<close>

definition CBS_stow :: "allocator \<Rightarrow> bytes \<Rightarrow> bool \<times> bytes option" where
  "CBS_stow alloc cbs =
     (if CBS_len cbs = 0 then (True, None)
      else if \<not> alloc (CBS_len cbs) then (False, None)
      else (True, Some cbs))"

definition CBS_contains_zero_byte :: "bytes \<Rightarrow> bool" where
  "CBS_contains_zero_byte cbs \<longleftrightarrow> 0 \<in> set cbs"

text \<open>\<open>CRYPTO_memcmp\<close> (\<open>mem.c\<close>) accumulates the differences of all bytes.\<close>

fun CRYPTO_memcmp :: "bytes \<Rightarrow> bytes \<Rightarrow> nat \<Rightarrow> u8" where
  "CRYPTO_memcmp a b 0 = 0"
| "CRYPTO_memcmp a b (Suc n) = CRYPTO_memcmp a b n OR (a ! n XOR b ! n)"

definition CBS_mem_equal :: "bytes \<Rightarrow> bytes \<Rightarrow> bool" where
  "CBS_mem_equal cbs data =
     (if length data \<noteq> CBS_len cbs then False else CRYPTO_memcmp cbs data (length data) = 0)"

section \<open>Integers\<close>

definition cbs_get_u :: "nat \<Rightarrow> u64 reader" where
  "cbs_get_u len cbs = (case cbs_get len cbs of
     (None, cbs') \<Rightarrow> (None, cbs')
   | (Some data, cbs') \<Rightarrow>
       (Some (foldl (\<lambda>result b. push_bit 8 result OR ucast b) 0 data), cbs'))"

definition CBS_get_u8 :: "u8 reader" where
  "CBS_get_u8 cbs = (case cbs_get 1 cbs of
     (None, cbs') \<Rightarrow> (None, cbs')
   | (Some v, cbs') \<Rightarrow> (Some (hd v), cbs'))"

definition CBS_get_u16 :: "u16 reader" where
  "CBS_get_u16 cbs = (case cbs_get_u 2 cbs of
     (None, cbs') \<Rightarrow> (None, cbs')
   | (Some v, cbs') \<Rightarrow> (Some (ucast v), cbs'))"

definition CRYPTO_bswap2 :: "u16 \<Rightarrow> u16" where
  "CRYPTO_bswap2 x = drop_bit 8 x OR push_bit 8 x"

definition CRYPTO_bswap4 :: "u32 \<Rightarrow> u32" where
  "CRYPTO_bswap4 x =
     (let x = drop_bit 16 x OR push_bit 16 x
      in drop_bit 8 (x AND 0xff00ff00) OR push_bit 8 (x AND 0x00ff00ff))"

definition CRYPTO_bswap8 :: "u64 \<Rightarrow> u64" where
  "CRYPTO_bswap8 x =
     ucast (CRYPTO_bswap4 (ucast (drop_bit 32 x))) OR
     push_bit 32 (ucast (CRYPTO_bswap4 (ucast x)))"

definition CBS_get_u16le :: "u16 reader" where
  "CBS_get_u16le cbs = (case CBS_get_u16 cbs of
     (None, cbs') \<Rightarrow> (None, cbs')
   | (Some v, cbs') \<Rightarrow> (Some (CRYPTO_bswap2 v), cbs'))"

definition CBS_get_u24 :: "u32 reader" where
  "CBS_get_u24 cbs = (case cbs_get_u 3 cbs of
     (None, cbs') \<Rightarrow> (None, cbs')
   | (Some v, cbs') \<Rightarrow> (Some (ucast v), cbs'))"

definition CBS_get_u32 :: "u32 reader" where
  "CBS_get_u32 cbs = (case cbs_get_u 4 cbs of
     (None, cbs') \<Rightarrow> (None, cbs')
   | (Some v, cbs') \<Rightarrow> (Some (ucast v), cbs'))"

definition CBS_get_u32le :: "u32 reader" where
  "CBS_get_u32le cbs = (case CBS_get_u32 cbs of
     (None, cbs') \<Rightarrow> (None, cbs')
   | (Some v, cbs') \<Rightarrow> (Some (CRYPTO_bswap4 v), cbs'))"

definition CBS_get_u64 :: "u64 reader" where
  "CBS_get_u64 cbs = cbs_get_u 8 cbs"

definition CBS_get_u64le :: "u64 reader" where
  "CBS_get_u64le cbs = (case cbs_get_u 8 cbs of
     (None, cbs') \<Rightarrow> (None, cbs')
   | (Some v, cbs') \<Rightarrow> (Some (CRYPTO_bswap8 v), cbs'))"

definition CBS_get_last_u8 :: "u8 reader" where
  "CBS_get_last_u8 cbs = (if CBS_len cbs = 0 then (None, cbs) else (Some (last cbs), butlast cbs))"

definition CBS_get_bytes :: "nat \<Rightarrow> bytes reader" where
  "CBS_get_bytes len cbs = (case cbs_get len cbs of
     (None, cbs') \<Rightarrow> (None, cbs')
   | (Some v, cbs') \<Rightarrow> (Some (CBS_init v len), cbs'))"

text \<open>\<open>CBS_copy_bytes\<close> overwrites the first \<open>len\<close> bytes of \<open>out\<close>.\<close>

definition CBS_copy_bytes :: "bytes \<Rightarrow> nat \<Rightarrow> bytes reader" where
  "CBS_copy_bytes out len cbs = (case cbs_get len cbs of
     (None, cbs') \<Rightarrow> (None, cbs')
   | (Some v, cbs') \<Rightarrow> (Some (mem_copy 0 v out), cbs'))"

definition cbs_get_length_prefixed :: "nat \<Rightarrow> bytes reader" where
  "cbs_get_length_prefixed len_len cbs = (case cbs_get_u len_len cbs of
     (None, cbs') \<Rightarrow> (None, cbs')
   | (Some len, cbs') \<Rightarrow> CBS_get_bytes (unat len) cbs')"

definition CBS_get_u8_length_prefixed :: "bytes reader" where
  "CBS_get_u8_length_prefixed cbs = cbs_get_length_prefixed 1 cbs"

definition CBS_get_u16_length_prefixed :: "bytes reader" where
  "CBS_get_u16_length_prefixed cbs = cbs_get_length_prefixed 2 cbs"

definition CBS_get_u24_length_prefixed :: "bytes reader" where
  "CBS_get_u24_length_prefixed cbs = cbs_get_length_prefixed 3 cbs"

section \<open>DER elements\<close>

definition CBS_ASN1_CONSTRUCTED :: u32 where
  "CBS_ASN1_CONSTRUCTED = push_bit 24 0x20"

definition CBS_ASN1_TAG_NUMBER_MASK :: u32 where
  "CBS_ASN1_TAG_NUMBER_MASK = push_bit 29 1 - 1"

lemma CBS_ASN1_masks_code [code]:
  "CBS_ASN1_CONSTRUCTED = 0x20000000" "CBS_ASN1_TAG_NUMBER_MASK = 0x1fffffff"
  by (simp_all add: CBS_ASN1_CONSTRUCTED_def CBS_ASN1_TAG_NUMBER_MASK_def)

definition CBS_ASN1_BOOLEAN :: u32 where "CBS_ASN1_BOOLEAN = 1"
definition CBS_ASN1_INTEGER :: u32 where "CBS_ASN1_INTEGER = 2"
definition CBS_ASN1_OCTETSTRING :: u32 where "CBS_ASN1_OCTETSTRING = 4"

text \<open>The loop of \<open>parse_base128_integer\<close>: \<open>v\<close> is the value read so far.\<close>

fun parse_base128_loop :: "u64 \<Rightarrow> u64 reader" where
  "parse_base128_loop v [] = (None, [])"
| "parse_base128_loop v (b # cbs) =
     (if drop_bit (64 - 7) v \<noteq> 0 then (None, cbs)
      else if v = 0 \<and> b = 0x80 then (None, cbs)
      else let v' = push_bit 7 v OR ucast (b AND 0x7f)
           in if b AND 0x80 \<noteq> 0 then parse_base128_loop v' cbs else (Some v', cbs))"

definition parse_base128_integer :: "u64 reader" where
  "parse_base128_integer cbs = parse_base128_loop 0 cbs"

definition parse_asn1_tag :: "u32 reader" where
  "parse_asn1_tag cbs = (case CBS_get_u8 cbs of
     (None, cbs') \<Rightarrow> (None, cbs')
   | (Some tag_byte, cbs') \<Rightarrow>
       let tag = push_bit 24 (ucast tag_byte AND 0xe0);
           tag_number = ucast (tag_byte AND 0x1f) :: u32
       in if tag_number = 0x1f
          then (case parse_base128_integer cbs' of
                  (None, cbs'') \<Rightarrow> (None, cbs'')
                | (Some v, cbs'') \<Rightarrow>
                    if v > ucast CBS_ASN1_TAG_NUMBER_MASK \<or> v < 0x1f then (None, cbs'')
                    else (Some (tag OR ucast v), cbs''))
          else (Some (tag OR tag_number), cbs'))"

text \<open>
  \<open>cbs_get_any_asn1_element\<close> parses a copy of the cursor, \<open>header\<close>, and advances \<open>*cbs\<close> only in
  its final \<open>CBS_get_bytes\<close>.  It yields the element with its header, the tag and the length of
  the header.
\<close>

definition cbs_get_any_asn1_element :: "bool \<Rightarrow> (bytes \<times> u32 \<times> nat) reader" where
  "cbs_get_any_asn1_element ber_ok cbs =
     (let element = (\<lambda>tag header_len len. (case CBS_get_bytes len cbs of
            (None, cbs') \<Rightarrow> (None, cbs')
          | (Some out, cbs') \<Rightarrow> (Some (out, tag, header_len), cbs')))
      in case parse_asn1_tag cbs of (None, _) \<Rightarrow> (None, cbs) | (Some tag, header) \<Rightarrow>
        (case CBS_get_u8 header of (None, _) \<Rightarrow> (None, cbs) | (Some length_byte, header) \<Rightarrow>
          let header_len = CBS_len cbs - CBS_len header
          in if length_byte AND 0x80 = 0
             then element tag header_len (unat length_byte + header_len)
             else
               let num_bytes = unat (length_byte AND 0x7f)
               in if ber_ok \<and> tag AND CBS_ASN1_CONSTRUCTED \<noteq> 0 \<and> num_bytes = 0
                  then element tag header_len header_len
                  else if num_bytes = 0 \<or> num_bytes > 4 then (None, cbs)
                  else (case cbs_get_u num_bytes header of (None, _) \<Rightarrow> (None, cbs) | (Some len64, _) \<Rightarrow>
                    if len64 < 128 then (None, cbs)
                    else if drop_bit ((num_bytes - 1) * 8) len64 = 0 then (None, cbs)
                    else if size_add (size_add (unat len64) header_len) num_bytes < unat len64
                    then (None, cbs)
                    else element tag (header_len + num_bytes)
                           (size_add (unat len64) (size_add header_len num_bytes)))))"

definition CBS_get_any_asn1_element :: "(bytes \<times> u32 \<times> nat) reader" where
  "CBS_get_any_asn1_element cbs = cbs_get_any_asn1_element False cbs"

definition CBS_get_any_ber_asn1_element :: "(bytes \<times> u32 \<times> nat) reader" where
  "CBS_get_any_ber_asn1_element cbs = cbs_get_any_asn1_element True cbs"

definition CBS_get_any_asn1 :: "(bytes \<times> u32) reader" where
  "CBS_get_any_asn1 cbs = (case CBS_get_any_asn1_element cbs of
     (None, cbs') \<Rightarrow> (None, cbs')
   | (Some (out, tag, header_len), cbs') \<Rightarrow>
       (case CBS_skip header_len out of
          (None, _) \<Rightarrow> (None, cbs')
        | (Some _, out') \<Rightarrow> (Some (out', tag), cbs')))"

definition cbs_get_asn1 :: "u32 \<Rightarrow> bool \<Rightarrow> bytes reader" where
  "cbs_get_asn1 tag_value skip_header cbs = (case CBS_get_any_asn1_element cbs of
     (None, cbs') \<Rightarrow> (None, cbs')
   | (Some (out, tag, header_len), cbs') \<Rightarrow>
       if tag \<noteq> tag_value then (None, cbs')
       else if skip_header
       then (case CBS_skip header_len out of
               (None, _) \<Rightarrow> (None, cbs')
             | (Some _, out') \<Rightarrow> (Some out', cbs'))
       else (Some out, cbs'))"

definition CBS_get_asn1 :: "u32 \<Rightarrow> bytes reader" where
  "CBS_get_asn1 tag_value cbs = cbs_get_asn1 tag_value True cbs"

definition CBS_get_asn1_element :: "u32 \<Rightarrow> bytes reader" where
  "CBS_get_asn1_element tag_value cbs = cbs_get_asn1 tag_value False cbs"

definition CBS_peek_asn1_tag :: "bytes \<Rightarrow> u32 \<Rightarrow> bool" where
  "CBS_peek_asn1_tag cbs tag_value =
     (if CBS_len cbs < 1 then False
      else case parse_asn1_tag cbs of
             (None, _) \<Rightarrow> False
           | (Some actual_tag, _) \<Rightarrow> tag_value = actual_tag)"

section \<open>Typed elements\<close>

text \<open>The accumulation loop of \<open>CBS_get_asn1_uint64\<close>; \<open>out\<close> is \<open>*out\<close> so far.\<close>

fun asn1_uint64_loop :: "u64 \<Rightarrow> bytes \<Rightarrow> u64 option" where
  "asn1_uint64_loop out [] = Some out"
| "asn1_uint64_loop out (d # data) =
     (if drop_bit 56 out \<noteq> 0 then None
      else asn1_uint64_loop (push_bit 8 out OR ucast d) data)"

definition CBS_get_asn1_uint64 :: "u64 reader" where
  "CBS_get_asn1_uint64 cbs = (case CBS_get_asn1 CBS_ASN1_INTEGER cbs of
     (None, cbs') \<Rightarrow> (None, cbs')
   | (Some data, cbs') \<Rightarrow>
       if length data = 0 then (None, cbs')
       else if data ! 0 AND 0x80 \<noteq> 0 then (None, cbs')
       else if data ! 0 = 0 \<and> length data > 1 \<and> data ! 1 AND 0x80 = 0 then (None, cbs')
       else (asn1_uint64_loop 0 data, cbs'))"

text \<open>The \<open>union\<close> of \<open>CBS_get_asn1_int64\<close> on a little-endian machine: \<open>memset\<close> fills the eight
  bytes with the sign, the loop stores \<open>data\<close> reversed at the front, and the member \<open>i\<close> reads
  them as a 64-bit value, least significant byte first.\<close>

definition le_load64 :: "bytes \<Rightarrow> u64" where
  "le_load64 bs = foldr (\<lambda>b v. push_bit 8 v OR ucast b) bs 0"

definition CBS_get_asn1_int64 :: "u64 reader" where
  "CBS_get_asn1_int64 cbs = (case CBS_get_asn1 CBS_ASN1_INTEGER cbs of
     (None, cbs') \<Rightarrow> (None, cbs')
   | (Some data, cbs') \<Rightarrow>
       if length data = 0 \<or> length data > 8 then (None, cbs')
       else if length data > 1 \<and>
               (data ! 0 = 0 \<and> data ! 1 AND 0x80 = 0 \<or>
                data ! 0 = 0xff \<and> data ! 1 AND 0x80 \<noteq> 0) then (None, cbs')
       else let is_negative = (data ! 0 AND 0x80 \<noteq> 0);
                u = replicate 8 (if is_negative then 0xff else 0)
            in (Some (le_load64 (mem_copy 0 (rev data) u)), cbs'))"

definition CBS_get_asn1_bool :: "bool reader" where
  "CBS_get_asn1_bool cbs = (case CBS_get_asn1 CBS_ASN1_BOOLEAN cbs of
     (None, cbs') \<Rightarrow> (None, cbs')
   | (Some data, cbs') \<Rightarrow>
       if CBS_len data \<noteq> 1 then (None, cbs')
       else let value = data ! 0
            in if value \<noteq> 0 \<and> value \<noteq> 0xff then (None, cbs') else (Some (value \<noteq> 0), cbs'))"

text \<open>The optional readers return the value and \<open>*out_present\<close>.  In \<open>CBS_get_optional_asn1\<close> the
  value is \<open>None\<close> when the element is absent, where \<open>*out\<close> is left as it was.\<close>

definition CBS_get_optional_asn1 :: "u32 \<Rightarrow> bytes option reader" where
  "CBS_get_optional_asn1 tag cbs =
     (if CBS_peek_asn1_tag cbs tag
      then (case CBS_get_asn1 tag cbs of
              (None, cbs') \<Rightarrow> (None, cbs')
            | (Some out, cbs') \<Rightarrow> (Some (Some out), cbs'))
      else (Some None, cbs))"

definition CBS_get_optional_asn1_octet_string :: "u32 \<Rightarrow> (bytes \<times> bool) reader" where
  "CBS_get_optional_asn1_octet_string tag cbs = (case CBS_get_optional_asn1 tag cbs of
     (None, cbs') \<Rightarrow> (None, cbs')
   | (Some (Some child), cbs') \<Rightarrow>
       (case CBS_get_asn1 CBS_ASN1_OCTETSTRING child of
          (None, _) \<Rightarrow> (None, cbs')
        | (Some out, child') \<Rightarrow>
            if CBS_len child' \<noteq> 0 then (None, cbs') else (Some (out, True), cbs'))
   | (Some None, cbs') \<Rightarrow> (Some (CBS_init [] 0, False), cbs'))"

definition CBS_get_optional_asn1_uint64 :: "u32 \<Rightarrow> u64 \<Rightarrow> u64 reader" where
  "CBS_get_optional_asn1_uint64 tag default_value cbs = (case CBS_get_optional_asn1 tag cbs of
     (None, cbs') \<Rightarrow> (None, cbs')
   | (Some (Some child), cbs') \<Rightarrow>
       (case CBS_get_asn1_uint64 child of
          (None, _) \<Rightarrow> (None, cbs')
        | (Some out, child') \<Rightarrow>
            if CBS_len child' \<noteq> 0 then (None, cbs') else (Some out, cbs'))
   | (Some None, cbs') \<Rightarrow> (Some default_value, cbs'))"

definition CBS_get_optional_asn1_bool :: "u32 \<Rightarrow> int \<Rightarrow> int reader" where
  "CBS_get_optional_asn1_bool tag default_value cbs = (case CBS_get_optional_asn1 tag cbs of
     (None, cbs') \<Rightarrow> (None, cbs')
   | (Some (Some child), cbs') \<Rightarrow>
       (case CBS_get_asn1 CBS_ASN1_BOOLEAN child of
          (None, _) \<Rightarrow> (None, cbs')
        | (Some child2, child') \<Rightarrow>
            if CBS_len child2 \<noteq> 1 \<or> CBS_len child' \<noteq> 0 then (None, cbs')
            else if child2 ! 0 = 0 then (Some 0, cbs')
            else if child2 ! 0 = 0xff then (Some 1, cbs')
            else (None, cbs'))
   | (Some None, cbs') \<Rightarrow> (Some default_value, cbs'))"

definition CBS_is_valid_asn1_bitstring :: "bytes \<Rightarrow> bool" where
  "CBS_is_valid_asn1_bitstring cbs = (case CBS_get_u8 cbs of
     (None, _) \<Rightarrow> False
   | (Some num_unused_bits, rest) \<Rightarrow>
       if num_unused_bits > 7 then False
       else if num_unused_bits = 0 then True
       else (case CBS_get_last_u8 rest of
               (None, _) \<Rightarrow> False
             | (Some l, _) \<Rightarrow> l AND (push_bit (unat num_unused_bits) 1 - 1) = 0))"

definition CBS_asn1_bitstring_has_bit :: "bytes \<Rightarrow> u32 \<Rightarrow> bool" where
  "CBS_asn1_bitstring_has_bit cbs b =
     (if \<not> CBS_is_valid_asn1_bitstring cbs then False
      else let byte_num = unat (drop_bit 3 b + 1);
               bit_num = unat (7 - (b AND 7))
           in byte_num < CBS_len cbs \<and> (cbs ! byte_num) AND push_bit bit_num 1 \<noteq> 0)"

section \<open>The cursor never leaves its bytes\<close>

lemma cbs_get_iff: "cbs_get n cbs = (Some d, r) \<longleftrightarrow> cbs = d @ r \<and> length d = n"
  by (auto simp: cbs_get_def)

lemma cbs_get_append [simp]: "length d = n \<Longrightarrow> cbs_get n (d @ r) = (Some d, r)"
  by (simp add: cbs_get_iff)

lemma cbs_get_fail_iff: "cbs_get n cbs = (None, r) \<longleftrightarrow> length cbs < n \<and> r = cbs"
  by (auto simp: cbs_get_def)

lemma cbs_get_cases:
  obtains "length cbs < n" "cbs_get n cbs = (None, cbs)"
  | d r where "cbs = d @ r" "length d = n" "cbs_get n cbs = (Some d, r)"
  by (cases "length cbs < n") (auto simp: cbs_get_def intro: that(2) [of "take n cbs" "drop n cbs"])

lemma CBS_len_eq [simp]: "CBS_len cbs = length cbs"
  by (simp add: CBS_len_def)

lemma CBS_data_eq [simp]: "CBS_data cbs = cbs"
  by (simp add: CBS_data_def)

lemma CBS_init_exact [simp]: "length data = n \<Longrightarrow> CBS_init data n = data"
  by (simp add: CBS_init_def)

lemma CBS_get_bytes_eq: "CBS_get_bytes n cbs = cbs_get n cbs"
  by (cases n cbs rule: cbs_get_cases) (simp_all add: CBS_get_bytes_def)

lemma CBS_skip_eq:
  "CBS_skip n cbs = (if length cbs < n then (None, cbs) else (Some (), drop n cbs))"
  by (simp add: CBS_skip_def cbs_get_def)

lemma CBS_skip_append [simp]: "length d = n \<Longrightarrow> CBS_skip n (d @ r) = (Some (), r)"
  by (simp add: CBS_skip_eq)

lemma CBS_get_u8_Nil [simp]: "CBS_get_u8 [] = (None, [])"
  by (simp add: CBS_get_u8_def cbs_get_def)

lemma CBS_get_u8_Cons [simp]: "CBS_get_u8 (b # r) = (Some b, r)"
  by (simp add: CBS_get_u8_def cbs_get_def)

lemma CBS_get_u8_iff: "CBS_get_u8 s = (Some b, r) \<longleftrightarrow> s = b # r"
  by (cases s) auto

section \<open>Big-endian integers\<close>

lemma foldl_shift8:
  "foldl (\<lambda>result b. push_bit 8 result OR ucast b) v data =
     v * 256 ^ length data + (of_nat (be_val data) :: u64)"
proof (induction data rule: rev_induct)
  case Nil
  then show ?case by simp
next
  case (snoc b data)
  have "push_bit 8 (v * 256 ^ length data + of_nat (be_val data)) OR ucast b =
      v * 256 ^ length (data @ [b]) + (of_nat (be_val (data @ [b])) :: u64)"
    by (simp add: shift8_or algebra_simps)
  then show ?case
    by (simp only: foldl_append foldl.simps snoc.IH)
qed

lemma cbs_get_u_append:
  "length d = n \<Longrightarrow> cbs_get_u n (d @ r) = (Some (of_nat (be_val d)), r)"
  by (simp add: cbs_get_u_def foldl_shift8)

lemma cbs_get_u_iff:
  "cbs_get_u n s = (Some v, r) \<longleftrightarrow> (\<exists>d. s = d @ r \<and> length d = n \<and> v = of_nat (be_val d))"
  by (auto simp: cbs_get_u_def foldl_shift8 cbs_get_iff split: prod.splits option.splits)

lemma be_val_lt_2p64: "length d \<le> 8 \<Longrightarrow> be_val d < 2 ^ 64"
proof -
  assume "length d \<le> 8"
  then have "(256::nat) ^ length d \<le> 256 ^ 8"
    by (intro power_increasing) auto
  with be_val_less [of d] show ?thesis by simp
qed

lemma unat_of_be_val:
  "length d \<le> 8 \<Longrightarrow> unat (of_nat (be_val d) :: u64) = be_val d"
  using be_val_lt_2p64 [of d] by (simp add: unat_of_nat)

text \<open>For up to eight bytes the reader and the big-endian encoding determine each other.\<close>

lemma cbs_get_u_codec:
  assumes "n \<le> 8"
  shows "codec (\<lambda>v. be_bytes n (unat v)) (cbs_get_u n) (\<lambda>v. unat v < 256 ^ n)"
proof
  fix v :: u64 and r
  assume "unat v < 256 ^ n"
  then show "cbs_get_u n (be_bytes n (unat v) @ r) = (Some v, r)"
    by (simp add: cbs_get_u_append be_val_be_bytes)
next
  fix s v r
  assume "cbs_get_u n s = (Some v, r)"
  then obtain d where "s = d @ r" "length d = n" "v = of_nat (be_val d)"
    by (auto simp: cbs_get_u_iff)
  with assms show "unat v < 256 ^ n \<and> s = be_bytes n (unat v) @ r"
    using be_val_less [of d] by (auto simp: unat_of_be_val be_bytes_be_val')
qed

end
