(* ===== verification/Der.thy ===== *)
theory Der
  imports Cbs
begin

unbundle bit_operations_syntax

text \<open>
  The DER encoding as a specification, independent of the code (base-128 integers, identifier
  octets, length octets, elements), and the proof that the readers of \<open>Cbs\<close> accept exactly this
  encoding: each reader is interpreted as a \<open>codec\<close>.  The builders of \<open>Cbb\<close> are proved against
  the same specification.
\<close>

section \<open>Base-128 integers\<close>

text \<open>All digits but the last carry the continuation bit; no leading zero digit.\<close>

fun base128_hi :: "nat \<Rightarrow> bytes" where
  "base128_hi n = (if n = 0 then [] else base128_hi (n div 128) @ [of_nat (n mod 128 + 128)])"

declare base128_hi.simps [simp del]

definition base128 :: "nat \<Rightarrow> bytes" where
  "base128 n = base128_hi (n div 128) @ [of_nat (n mod 128)]"

lemma base128_hi_0 [simp]: "base128_hi 0 = []"
  by (simp add: base128_hi.simps)

lemma base128_hi_snoc:
  "d < 128 \<Longrightarrow> 0 < v * 128 + d \<Longrightarrow> base128_hi (v * 128 + d) = base128_hi v @ [of_nat (d + 128)]"
  by (subst base128_hi.simps) simp

lemma base128_nonempty [simp]: "base128 n \<noteq> []"
  by (simp add: base128_def)

lemma length_base128_hi: "n < 128 ^ k \<Longrightarrow> length (base128_hi n) \<le> k"
proof (induction k arbitrary: n)
  case 0
  then show ?case by simp
next
  case (Suc k)
  have "n div 128 < 128 ^ k"
    using Suc.prems by (simp add: less_mult_imp_div_less mult.commute)
  then have "length (base128_hi (n div 128)) \<le> k" by (rule Suc.IH)
  then show ?case by (subst base128_hi.simps) simp
qed

lemma length_base128: "n < 128 ^ Suc k \<Longrightarrow> length (base128 n) \<le> Suc k"
  using length_base128_hi [of "n div 128" k]
  by (simp add: base128_def less_mult_imp_div_less mult.commute)

text \<open>One round of the loop, on naturals.\<close>

lemma parse_base128_step:
  assumes "v < 2 ^ 57"
  shows "push_bit 7 (of_nat v :: u64) OR ucast (b AND 0x7f :: u8) = of_nat (v * 128 + unat b mod 128)"
proof (rule word_of_nat_eqI)
  have v: "unat (of_nat v :: u64) = v"
    using assms by (simp add: unat_of_nat)
  have "v * 2 ^ 7 + unat b mod 128 < 2 ^ 64"
  proof -
    have "v * 2 ^ 7 \<le> (2 ^ 57 - 1) * 2 ^ 7"
      using assms by (intro mult_le_mono1) simp
    moreover have "unat b mod 128 < 128" by simp
    ultimately show ?thesis by simp
  qed
  then show "unat (push_bit 7 (of_nat v :: u64) OR ucast (b AND 0x7f)) = v * 128 + unat b mod 128"
    using unat_push_bit_or [of "ucast (b AND 0x7f) :: u64" 7 "of_nat v"] v
    by (simp add: byte_simps)
qed

declare parse_base128_loop.simps(2) [simp del]

lemma parse_base128_loop_Cons:
  assumes "v < 2 ^ 64"
  shows "parse_base128_loop (of_nat v) (b # s) =
    (if v \<ge> 2 ^ 57 \<or> v = 0 \<and> unat b = 128 then (None, s)
     else if unat b < 128 then (Some (of_nat (v * 128 + unat b)), s)
     else parse_base128_loop (of_nat (v * 128 + unat b mod 128)) s)"
proof -
  have v: "unat (of_nat v :: u64) = v"
    using assms by (simp add: unat_of_nat)
  have "unat (drop_bit (64 - 7) (of_nat v :: u64)) = v div 2 ^ 57"
    by (simp only: unat_drop_bit_div v) simp
  then have drop: "(drop_bit (64 - 7) (of_nat v :: u64) \<noteq> 0) = (v \<ge> 2 ^ 57)"
    by (simp only: unat_eq_0 [symmetric]) (simp add: div_eq_0_iff not_less)
  have zero: "((of_nat v :: u64) = 0) = (v = 0)"
    by (simp only: unat_eq_0 [symmetric] v)
  have byte: "(b = 0x80) = (unat b = 128)"
    by (simp add: word_unat_eq_iff)
  show ?thesis
  proof (cases "v \<ge> 2 ^ 57")
    case True
    then show ?thesis
      by (simp only: parse_base128_loop.simps drop if_True simp_thms)
  next
    case False
    then have "push_bit 7 (of_nat v :: u64) OR ucast (b AND 0x7f) = of_nat (v * 128 + unat b mod 128)"
      by (intro parse_base128_step) simp
    with False show ?thesis
      unfolding parse_base128_loop.simps drop zero byte and_0x80_iff Let_def by simp
  qed
qed

lemma parse_base128_loop_hi:
  "n < 2 ^ 57 \<Longrightarrow> parse_base128_loop 0 (base128_hi n @ s) = parse_base128_loop (of_nat n) s"
proof (induction n arbitrary: s rule: base128_hi.induct)
  case (1 n)
  show ?case
  proof (cases "n = 0")
    case False
    define v d where "v = n div 128" and "d = n mod 128"
    have n: "n = v * 128 + d" "d < 128" "v < 2 ^ 57"
      using "1.prems" by (auto simp: v_def d_def)
    have u: "unat (of_nat (d + 128) :: u8) = d + 128"
      using n(2) by (simp only: unat_of_nat) simp
    have "base128_hi n = base128_hi v @ [of_nat (d + 128)]"
      using False by (subst base128_hi.simps) (simp add: v_def d_def)
    then have "parse_base128_loop 0 (base128_hi n @ s) =
        parse_base128_loop (of_nat v) (of_nat (d + 128) # s)"
      using "1.IH" [OF False, of "of_nat (d + 128) # s"] n(3) by (simp add: v_def)
    also have "\<dots> = parse_base128_loop (of_nat n) s"
      using n False by (subst parse_base128_loop_Cons) (auto simp: u simp del: of_nat_add)
    finally show ?thesis .
  qed simp
qed

lemma parse_base128_integer_base128:
  assumes "n < 2 ^ 64"
  shows "parse_base128_integer (base128 n @ s) = (Some (of_nat n), s)"
proof -
  define v d where "v = n div 128" and "d = n mod 128"
  have n: "n = v * 128 + d" "d < 128" "v < 2 ^ 57"
    using assms by (auto simp: v_def d_def)
  have "unat (of_nat d :: u8) = d"
    using n(2) by (simp only: unat_of_nat) simp
  then have "parse_base128_loop (of_nat v) (of_nat d # s) = (Some (of_nat n), s)"
    using n by (subst parse_base128_loop_Cons) (simp_all del: of_nat_add of_nat_mult)
  then show ?thesis
    using n(3) by (simp add: parse_base128_integer_def base128_def parse_base128_loop_hi v_def d_def)
qed

lemma parse_base128_loop_sound:
  "parse_base128_loop (of_nat v) s = (Some w, r) \<Longrightarrow> v < 2 ^ 64 \<Longrightarrow>
    base128_hi v @ s = base128 (unat w) @ r"
proof (induction s arbitrary: v)
  case Nil
  then show ?case by simp
next
  case (Cons b s)
  define d where "d = unat b mod 128"
  note step = Cons.prems(1) [unfolded parse_base128_loop_Cons [OF Cons.prems(2)], folded d_def]
  have v: "v < 2 ^ 57" "\<not> (v = 0 \<and> unat b = 128)"
    using step by (auto split: if_splits)
  have d: "d < 128" "v * 128 + d < 2 ^ 64"
    using v(1) by (auto simp: d_def)
  show ?case
  proof (cases "unat b < 128")
    case True
    then have "d = unat b" by (simp add: d_def)
    with True step v have w: "w = of_nat (v * 128 + d)" "r = s"
      by auto
    then have "unat w = v * 128 + d"
      using d(2) by (simp only: unat_of_nat) simp
    with d(1) w(2) \<open>d = unat b\<close> show ?thesis
      by (simp add: base128_def)
  next
    case False
    with step v have "parse_base128_loop (of_nat (v * 128 + d)) s = (Some w, r)"
      by auto
    then have IH: "base128_hi (v * 128 + d) @ s = base128 (unat w) @ r"
      using d(2) by (rule Cons.IH)
    have b: "unat b = d + 128"
      using False mod_128_high [OF _ unat_u8_less, of b] by (simp add: d_def)
    then have "0 < v * 128 + d"
      using v(2) by auto
    moreover have "(of_nat (d + 128) :: u8) = b"
      unfolding b [symmetric] by simp
    ultimately have "base128_hi (v * 128 + d) = base128_hi v @ [b]"
      using base128_hi_snoc [OF d(1), of v] by (simp only:)
    with IH show ?thesis by simp
  qed
qed

interpretation base128: codec_seq "\<lambda>v :: u64. base128 (unat v)" parse_base128_integer "\<lambda>_. True"
proof
  show "parse_base128_integer (base128 (unat v) @ r) = (Some v, r)" for v :: u64 and r
    using parse_base128_integer_base128 [of "unat v" r] unsigned_less [of v] by simp
  show "True \<and> s = base128 (unat v) @ r" if "parse_base128_integer s = (Some v, r)" for s v r
    using parse_base128_loop_sound [of 0 s v r] that by (simp add: parse_base128_integer_def)
qed simp

section \<open>Identifier octets\<close>

definition asn1_tag_bytes :: "u32 \<Rightarrow> bytes" where
  "asn1_tag_bytes t =
     (let c = unat t div 2 ^ 29; n = unat t mod 2 ^ 29
      in if n < 31 then [of_nat (c * 32 + n)] else of_nat (c * 32 + 31) # base128 n)"

lemma unat_tag_word:
  assumes "unat w < 2 ^ 29"
  shows "unat (push_bit 24 (ucast (b :: u8) AND 0xe0) OR w :: u32) = unat b div 32 * 2 ^ 29 + unat w"
proof -
  have c: "unat b div 32 < 8"
    using unat_u8_less [of b] by (simp add: less_mult_imp_div_less)
  then have u: "unat (of_nat (unat b div 32) :: u32) = unat b div 32"
    by (simp only: unat_of_nat) simp
  have small: "unat b div 32 * 2 ^ 29 + unat w < 2 ^ 32"
    using c assms by simp
  have "unat (push_bit 24 (ucast b AND 0xe0) :: u32) = unat b div 32 * 32 * 2 ^ 24"
    using c by (subst unat_push_bit_small) (simp_all add: unat_and_0xe0)
  moreover have "unat (push_bit 29 (of_nat (unat b div 32)) :: u32) = unat b div 32 * 2 ^ 29"
    using c by (subst unat_push_bit_small) (simp_all only: u, simp_all)
  ultimately have "push_bit 24 (ucast b AND 0xe0) = (push_bit 29 (of_nat (unat b div 32)) :: u32)"
    by (simp add: word_unat_eq_iff)
  then show ?thesis
    using unat_push_bit_or [of w 29 "of_nat (unat b div 32)"] assms small by (simp only: u) simp
qed

lemma unat_TAG_NUMBER_MASK: "unat (ucast CBS_ASN1_TAG_NUMBER_MASK :: u64) = 2 ^ 29 - 1"
  by (simp add: CBS_ASN1_TAG_NUMBER_MASK_def)

lemma parse_asn1_tag_Nil: "parse_asn1_tag [] = (None, [])"
  by (simp add: parse_asn1_tag_def)

lemma parse_asn1_tag_Cons:
  "parse_asn1_tag (b # s) =
    (if unat b mod 32 = 31
     then (case parse_base128_integer s of
             (None, s') \<Rightarrow> (None, s')
           | (Some v, s') \<Rightarrow>
               if unat v \<ge> 2 ^ 29 \<or> unat v < 31 then (None, s')
               else (Some (of_nat (unat b div 32 * 2 ^ 29 + unat v)), s'))
     else (Some (of_nat (unat b div 32 * 2 ^ 29 + unat b mod 32)), s))"
proof -
  have num: "unat (ucast (b AND 0x1f) :: u32) = unat b mod 32"
    by (simp add: byte_simps)
  then have high: "(ucast (b AND 0x1f) = (0x1f :: u32)) = (unat b mod 32 = 31)"
    by (simp add: word_unat_eq_iff)
  have low: "push_bit 24 (ucast b AND 0xe0) OR ucast (b AND 0x1f) =
      (of_nat (unat b div 32 * 2 ^ 29 + unat b mod 32) :: u32)"
    by (rule word_of_nat_eqI, subst unat_tag_word)
      (simp_all only: num, simp add: less_le_trans [OF mod_less_divisor])
  have bad: "(v > ucast CBS_ASN1_TAG_NUMBER_MASK \<or> v < 0x1f) = (unat v \<ge> 2 ^ 29 \<or> unat v < 31)"
    for v :: u64
    by (simp only: word_less_nat_alt unat_TAG_NUMBER_MASK) auto
  have tag: "push_bit 24 (ucast b AND 0xe0) OR ucast v = (of_nat (unat b div 32 * 2 ^ 29 + unat v) :: u32)"
    if "unat v < 2 ^ 29" for v :: u64
  proof -
    have v: "unat (ucast v :: u32) = unat v"
      using that by (simp add: unat_ucast_down)
    show ?thesis
      by (rule word_of_nat_eqI, subst unat_tag_word) (use that v in simp_all)
  qed
  define T where "T = push_bit 24 (ucast b AND 0xe0 :: u32)"
  have "parse_asn1_tag (b # s) =
    (if unat b mod 32 = 31
     then (case parse_base128_integer s of
             (None, s') \<Rightarrow> (None, s')
           | (Some v, s') \<Rightarrow>
               if unat v \<ge> 2 ^ 29 \<or> unat v < 31 then (None, s') else (Some (T OR ucast v), s'))
     else (Some (T OR ucast (b AND 0x1f)), s))"
    by (simp only: parse_asn1_tag_def CBS_get_u8_Cons prod.case option.case Let_def high bad
        flip: T_def)
  then show ?thesis
    using tag [folded T_def] by (simp add: low [folded T_def] not_le split: prod.split option.split
        del: of_nat_add of_nat_mult)
qed

lemma asn1_tag_bytes_split:
  obtains c n where "unat t = c * 2 ^ 29 + n" "c < 8" "n < 2 ^ 29"
    "asn1_tag_bytes t =
       (if n < 31 then [of_nat (c * 32 + n)] else of_nat (c * 32 + 31) # base128 n)"
proof
  show "unat t = unat t div 2 ^ 29 * 2 ^ 29 + unat t mod 2 ^ 29"
    by (simp only: div_mult_mod_eq)
  show "unat t div 2 ^ 29 < 8"
    using unsigned_less [of t, where ?'a = nat] by (simp add: less_mult_imp_div_less)
qed (simp_all add: asn1_tag_bytes_def Let_def)

lemma parse_asn1_tag_bytes: "parse_asn1_tag (asn1_tag_bytes t @ s) = (Some t, s)"
proof -
  obtain c n where cn: "unat t = c * 2 ^ 29 + n" "c < 8" "n < 2 ^ 29"
    and bytes: "asn1_tag_bytes t =
      (if n < 31 then [of_nat (c * 32 + n)] else of_nat (c * 32 + 31) # base128 n)"
    by (rule asn1_tag_bytes_split)
  have t: "t = of_nat (c * 2 ^ 29 + n)"
    using cn(1) by (rule word_of_nat_eqI)
  have u: "unat (of_nat (c * 32 + k) :: u8) = c * 32 + k" if "k < 32" for k
    using cn(2) that by (simp only: unat_of_nat) simp
  show ?thesis
  proof (cases "n < 31")
    case True
    then show ?thesis
      using u [of n] by (simp only: bytes if_True append_Cons append_Nil parse_asn1_tag_Cons) (simp add: t)
  next
    case False
    have "parse_base128_integer (base128 n @ s) = (Some (of_nat n), s)"
      using cn(3) by (intro parse_base128_integer_base128) simp
    moreover have "unat (of_nat n :: u64) = n"
      using cn(3) by (simp only: unat_of_nat) simp
    ultimately show ?thesis
      using u [of 31] False cn(3)
      by (simp only: bytes if_False append_Cons parse_asn1_tag_Cons) (simp add: t)
  qed
qed

lemma parse_asn1_tag_sound:
  assumes "parse_asn1_tag s = (Some t, r)"
  shows "s = asn1_tag_bytes t @ r"
proof (cases s)
  case Nil
  with assms show ?thesis by (simp add: parse_asn1_tag_Nil)
next
  case (Cons b s')
  define c where "c = unat b div 32"
  have c: "c < 8"
    using unat_u8_less [of b] by (simp add: c_def less_mult_imp_div_less)
  have bytes: "asn1_tag_bytes t = (if n < 31 then [of_nat (c * 32 + n)] else of_nat (c * 32 + 31) # base128 n)"
    if "t = of_nat (c * 2 ^ 29 + n)" "n < 2 ^ 29" for n
  proof -
    have "unat t = c * 2 ^ 29 + n"
      unfolding that(1) using c that(2) by (simp only: unat_of_nat) simp
    with that(2) show ?thesis
      by (simp add: asn1_tag_bytes_def)
  qed
  show ?thesis
  proof (cases "unat b mod 32 = 31")
    case True
    with assms obtain v where v: "parse_base128_integer s' = (Some v, r)"
      "unat v < 2 ^ 29" "31 \<le> unat v" "t = of_nat (c * 2 ^ 29 + unat v)"
      by (auto simp: Cons parse_asn1_tag_Cons c_def not_le split: prod.splits option.splits if_splits)
    have "unat b = c * 32 + 31"
      using True div_mult_mod_eq [of "unat b" 32] by (simp add: c_def)
    then have "b = of_nat (c * 32 + 31)"
      by (rule word_of_nat_eqI)
    with v base128.enc_dec [OF v(1)] bytes [OF v(4,2)] show ?thesis
      by (simp add: Cons)
  next
    case False
    with assms have t: "t = of_nat (c * 2 ^ 29 + unat b mod 32)" "r = s'"
      by (auto simp: Cons parse_asn1_tag_Cons c_def)
    have n: "unat b mod 32 < 31"
      using False mod_less_divisor [of 32 "unat b"] by linarith
    have "b = of_nat (c * 32 + unat b mod 32)"
      by (rule word_of_nat_eqI) (simp add: c_def)
    with bytes [OF t(1)] n t(2) show ?thesis
      by (simp add: Cons)
  qed
qed

interpretation tag: codec_seq asn1_tag_bytes parse_asn1_tag "\<lambda>_. True"
proof
  show "asn1_tag_bytes t \<noteq> []" for t
    by (simp add: asn1_tag_bytes_def Let_def)
qed (simp_all add: parse_asn1_tag_bytes parse_asn1_tag_sound)

lemma length_asn1_tag_bytes: "length (asn1_tag_bytes t) \<le> 6"
proof -
  have "unat t mod 2 ^ 29 < 128 ^ Suc 4"
    by (rule less_trans [OF mod_less_divisor]) simp_all
  then have "length (base128 (unat t mod 2 ^ 29)) \<le> 5"
    by (rule order_trans [OF length_base128]) simp
  then show ?thesis by (simp add: asn1_tag_bytes_def Let_def)
qed

section \<open>Length octets and elements\<close>

definition der_len_len :: "nat \<Rightarrow> nat" where
  "der_len_len n = (if n < 256 then 1 else if n < 65536 then 2 else if n < 16777216 then 3 else 4)"

definition der_len :: "nat \<Rightarrow> bytes" where
  "der_len n = (if n < 128 then [of_nat n] else of_nat (128 + der_len_len n) # be_bytes (der_len_len n) n)"

definition der_header :: "u32 \<Rightarrow> nat \<Rightarrow> bytes" where
  "der_header t n = asn1_tag_bytes t @ der_len n"

definition der_element :: "u32 \<Rightarrow> bytes \<Rightarrow> bytes" where
  "der_element t c = der_header t (length c) @ c"

text \<open>The identifier and length octets of an indefinite-length element.\<close>

definition ber_indefinite :: "u32 \<Rightarrow> bytes" where
  "ber_indefinite t = asn1_tag_bytes t @ [128]"

lemma der_len_len_bounds: "1 \<le> der_len_len n" "der_len_len n \<le> 4"
  by (simp_all add: der_len_len_def)

lemma der_len_len_fits: "n < 4294967296 \<Longrightarrow> n < 256 ^ der_len_len n"
  by (simp add: der_len_len_def)

lemma der_len_len_minimal: "128 \<le> n \<Longrightarrow> 256 ^ (der_len_len n - 1) \<le> n"
  by (simp add: der_len_len_def)

lemma der_len_len_unique:
  assumes "n < 256 ^ k" and "256 ^ (k - 1) \<le> n" and "1 \<le> k" and "k \<le> 4"
  shows "der_len_len n = k"
proof -
  have "k = 1 \<or> k = 2 \<or> k = 3 \<or> k = 4"
    using assms(3,4) by linarith
  with assms(1,2) show ?thesis
    by (auto simp: der_len_len_def)
qed

lemma length_der_len: "length (der_len n) = (if n < 128 then 1 else Suc (der_len_len n))"
  by (simp add: der_len_def)

lemma der_len_nonempty [simp]: "der_len n \<noteq> []"
  by (simp add: der_len_def)

text \<open>The body of the element reader once the identifier octets are known, in terms of naturals.\<close>

definition asn1_take :: "bytes \<Rightarrow> u32 \<Rightarrow> nat \<Rightarrow> nat \<Rightarrow> (bytes \<times> u32 \<times> nat) option \<times> bytes" where
  "asn1_take s t hl len =
     (if length s < len then (None, s) else (Some (take len s, t, hl), drop len s))"

lemma element_at_length_octet:
  assumes s: "s = asn1_tag_bytes t @ lb # rest"
    and H: "H = Suc (length (asn1_tag_bytes t))"
    and k: "k = unat lb mod 128"
  shows "cbs_get_any_asn1_element ber_ok s =
    (if unat lb < 128 then asn1_take s t H (unat lb + H)
     else if ber_ok \<and> t AND CBS_ASN1_CONSTRUCTED \<noteq> 0 \<and> k = 0 then asn1_take s t H H
     else if k = 0 \<or> k > 4 \<or> length rest < k then (None, s)
     else let n = be_val (take k rest)
          in if n < 128 \<or> n < 256 ^ (k - 1) then (None, s) else asn1_take s t (H + k) (n + H + k))"
proof -
  have H7: "H \<le> 7"
    using length_asn1_tag_bytes [of t] by (simp add: H)
  have hl: "length s - length rest = H"
    by (simp add: s H)
  have tag: "parse_asn1_tag s = (Some t, lb # rest)"
    by (simp add: s parse_asn1_tag_bytes)
  have take_eq: "(case CBS_get_bytes len s of (None, c) \<Rightarrow> (None, c) | (Some out, c) \<Rightarrow> (Some (out, t, h), c))
      = asn1_take s t h len" for h len
    by (simp add: CBS_get_bytes_eq cbs_get_def asn1_take_def)
  have long: "(case cbs_get_u k rest of (None, _) \<Rightarrow> (None, s) | (Some len64, _) \<Rightarrow>
        if len64 < 128 then (None, s)
        else if drop_bit ((k - 1) * 8) len64 = 0 then (None, s)
        else if size_add (size_add (unat len64) H) k < unat len64 then (None, s)
        else asn1_take s t (H + k) (size_add (unat len64) (size_add H k))) =
      (if length rest < k then (None, s)
       else let n = be_val (take k rest)
            in if n < 128 \<or> n < 256 ^ (k - 1) then (None, s) else asn1_take s t (H + k) (n + H + k))"
    if k4: "k \<noteq> 0" "k \<le> 4"
  proof (cases "length rest < k")
    case True
    then show ?thesis by (simp add: cbs_get_u_def cbs_get_def)
  next
    case False
    define n where "n = be_val (take k rest)"
    have "n < 256 ^ k"
      using be_val_less [of "take k rest"] False by (simp add: n_def)
    also have "(256::nat) ^ k \<le> 256 ^ 4"
      using k4(2) by (intro power_increasing) simp_all
    finally have n: "n < 4294967296" by simp
    have u: "unat (of_nat n :: u64) = n"
      using n by (simp only: unat_of_nat) simp
    have get: "cbs_get_u k rest = (Some (of_nat n), drop k rest)"
      using False cbs_get_u_append [of "take k rest" k "drop k rest"] by (simp add: n_def)
    have small: "(of_nat n :: u64) < 128 \<longleftrightarrow> n < 128"
      by (simp add: word_less_nat_alt u)
    have "drop_bit ((k - 1) * 8) (of_nat n :: u64) = 0 \<longleftrightarrow> n div 2 ^ ((k - 1) * 8) = 0"
      by (simp only: unat_eq_0 [symmetric] unat_drop_bit_div u)
    also have "\<dots> \<longleftrightarrow> n < 256 ^ (k - 1)"
      by (simp add: div_eq_0_iff power_mult mult.commute [of _ 8])
    finally have minimal: "drop_bit ((k - 1) * 8) (of_nat n :: u64) = 0 \<longleftrightarrow> n < 256 ^ (k - 1)" .
    have "n + (H + k) \<le> SIZE_MAX" "H + k \<le> SIZE_MAX" "n + H \<le> SIZE_MAX" "n + H + k \<le> SIZE_MAX"
      using n H7 k4 by (simp_all add: SIZE_MAX_def)
    then show ?thesis
      using False by (simp add: get small minimal [unfolded One_nat_def] u Let_def add.assoc flip: n_def)
  qed
  have "cbs_get_any_asn1_element ber_ok s =
    (if unat lb < 128 then asn1_take s t H (unat lb + H)
     else if ber_ok \<and> t AND CBS_ASN1_CONSTRUCTED \<noteq> 0 \<and> k = 0 then asn1_take s t H H
     else if k = 0 \<or> k > 4 then (None, s)
     else case cbs_get_u k rest of (None, _) \<Rightarrow> (None, s) | (Some len64, _) \<Rightarrow>
        if len64 < 128 then (None, s)
        else if drop_bit ((k - 1) * 8) len64 = 0 then (None, s)
        else if size_add (size_add (unat len64) H) k < unat len64 then (None, s)
        else asn1_take s t (H + k) (size_add (unat len64) (size_add H k)))"
    unfolding cbs_get_any_asn1_element_def Let_def tag prod.case option.case CBS_get_u8_Cons
      CBS_len_eq hl take_eq and_0x80_iff unat_and_0x7f k [symmetric] ..
  with long show ?thesis by simp
qed

lemma element_complete:
  assumes "length c < 4294967296"
  shows "cbs_get_any_asn1_element ber_ok (der_element t c @ r) =
    (Some (der_element t c, t, length (der_header t (length c))), r)"
proof -
  define n H where "n = length c" and "H = Suc (length (asn1_tag_bytes t))"
  let ?s = "der_element t c @ r"
  show ?thesis
  proof (cases "n < 128")
    case True
    have s: "?s = asn1_tag_bytes t @ of_nat n # c @ r"
      using True by (simp add: der_element_def der_header_def der_len_def n_def)
    have u: "unat (of_nat n :: u8) = n"
      using True by (simp only: unat_of_nat) simp
    have "cbs_get_any_asn1_element ber_ok ?s = asn1_take ?s t H (n + H)"
      using True by (simp add: element_at_length_octet [OF s H_def refl] u)
    then show ?thesis
      using True by (simp add: asn1_take_def der_element_def der_header_def der_len_def n_def H_def)
  next
    case False
    define k where "k = der_len_len n"
    have k: "1 \<le> k" "k \<le> 4" "n < 256 ^ k" "256 ^ (k - 1) \<le> n"
      using False assms der_len_len_fits [of n] der_len_len_minimal [of n] der_len_len_bounds [of n]
      by (auto simp: k_def n_def)
    have s: "?s = asn1_tag_bytes t @ of_nat (128 + k) # be_bytes k n @ c @ r"
      using False by (simp add: der_element_def der_header_def der_len_def k_def n_def)
    have u: "unat (of_nat (128 + k) :: u8) = 128 + k"
      using k(2) by (simp only: unat_of_nat) simp
    then have km: "k = unat (of_nat (128 + k) :: u8) mod 128"
      using k(2) by (simp only: u) simp
    have "cbs_get_any_asn1_element ber_ok ?s = asn1_take ?s t (H + k) (n + H + k)"
      using k False
      by (simp add: element_at_length_octet [OF s H_def km] u be_val_be_bytes not_less
          del: of_nat_add)
    then show ?thesis
      using False
      by (simp add: asn1_take_def der_element_def der_header_def der_len_def n_def H_def k_def)
  qed
qed

lemma element_sound:
  assumes "cbs_get_any_asn1_element ber_ok s = (Some (out, t, hl), r)"
  shows "s = out @ r \<and>
    ((\<exists>c. length c < 4294967296 \<and> out = der_element t c \<and> hl = length (der_header t (length c))) \<or>
     ber_ok \<and> t AND CBS_ASN1_CONSTRUCTED \<noteq> 0 \<and> out = ber_indefinite t \<and> hl = length out)"
proof -
  obtain h where "parse_asn1_tag s = (Some t, h)"
    using assms
    by (auto simp: cbs_get_any_asn1_element_def Let_def split: prod.splits option.splits if_splits)
  then have "s = asn1_tag_bytes t @ h"
    by (rule parse_asn1_tag_sound)
  moreover have "h \<noteq> []"
    using assms \<open>parse_asn1_tag s = (Some t, h)\<close>
    by (auto simp: cbs_get_any_asn1_element_def)
  ultimately obtain lb rest where s: "s = asn1_tag_bytes t @ lb # rest"
    by (cases h) auto
  define H k where "H = Suc (length (asn1_tag_bytes t))" and "k = unat lb mod 128"
  note body = assms [unfolded element_at_length_octet [OF s H_def k_def]]
  have taken: "s = out @ r \<and> hl = hl' \<and> length out = len"
    and prefix: "out = take len s"
    if "asn1_take s t hl' len = (Some (out, t, hl), r)" for hl' len
    using that by (auto simp: asn1_take_def split: if_splits)
  show ?thesis
  proof (cases "unat lb < 128")
    case True
    with body have "asn1_take s t H (unat lb + H) = (Some (out, t, hl), r)" by simp
    note t = taken [OF this] and p = prefix [OF this]
    define c where "c = take (unat lb) rest"
    have "out = take (unat lb + H) (asn1_tag_bytes t @ lb # rest)"
      using p s by (simp only:)
    then have "out = asn1_tag_bytes t @ lb # c"
      by (simp add: H_def c_def)
    moreover have "length c = unat lb"
      using t \<open>out = asn1_tag_bytes t @ lb # c\<close> by (simp add: H_def)
    ultimately show ?thesis
      using True t by (auto intro!: exI [of _ c] simp: der_element_def der_header_def der_len_def H_def)
  next
    case False
    show ?thesis
    proof (cases "ber_ok \<and> t AND CBS_ASN1_CONSTRUCTED \<noteq> 0 \<and> k = 0")
      case True
      with body False have "asn1_take s t H H = (Some (out, t, hl), r)" by simp
      note t = taken [OF this] and p = prefix [OF this]
      have "unat lb = 128"
        using False True mod_128_high [OF _ unat_u8_less, of lb] by (simp add: k_def)
      then have "lb = 128"
        by (simp add: word_unat_eq_iff)
      have "out = take H (asn1_tag_bytes t @ lb # rest)"
        using p s by (simp only:)
      then have "out = ber_indefinite t"
        by (simp add: H_def ber_indefinite_def \<open>lb = 128\<close>)
      with t True show ?thesis by simp
    next
      case definite: False
      define n where "n = be_val (take k rest)"
      have k: "k \<noteq> 0" "k \<le> 4" "k \<le> length rest" "128 \<le> n" "256 ^ (k - 1) \<le> n"
        using body False definite by (auto simp: Let_def n_def split: if_splits)
      with body False definite have "asn1_take s t (H + k) (n + H + k) = (Some (out, t, hl), r)"
        by (simp add: n_def Let_def split: if_splits)
      note t = taken [OF this] and p = prefix [OF this]
      define c where "c = take n (drop k rest)"
      have len: "length (take k rest) = k" using k(3) by simp
      have "n + H + k = length (asn1_tag_bytes t) + Suc (k + n)"
        by (simp add: H_def)
      moreover have "out = take (n + H + k) (asn1_tag_bytes t @ lb # rest)"
        using p s by (simp only:)
      ultimately have out: "out = asn1_tag_bytes t @ lb # take k rest @ c"
        by (simp add: c_def take_add add.commute [of n k])
      then have "length c = n"
        using t len by (simp add: H_def)
      have "n < 256 ^ k"
        using be_val_less [of "take k rest"] len by (simp add: n_def)
      then have lenlen: "der_len_len n = k"
        using k by (intro der_len_len_unique) simp_all
      have "(256::nat) ^ k \<le> 256 ^ 4"
        using k(2) by (intro power_increasing) simp_all
      with \<open>n < 256 ^ k\<close> have n: "n < 4294967296" by simp
      have "unat lb = 128 + k"
        using False mod_128_high [OF _ unat_u8_less, of lb] by (simp add: k_def)
      then have "lb = of_nat (128 + k)"
        by (rule word_of_nat_eqI)
      moreover have "take k rest = be_bytes k n"
        using be_bytes_be_val' [OF len] by (simp add: n_def)
      ultimately have "der_len n = lb # take k rest"
        using k(4) lenlen by (simp add: der_len_def)
      with t out \<open>length c = n\<close> n len show ?thesis
        by (auto intro!: exI [of _ c] simp: der_element_def der_header_def H_def)
    qed
  qed
qed

text \<open>The DER reader as an equivalence, with the tag and the header length it reports.\<close>

lemma CBS_get_any_asn1_element_iff:
  "CBS_get_any_asn1_element s = (Some (out, t, hl), r) \<longleftrightarrow>
    s = out @ r \<and> (\<exists>c. length c < 4294967296 \<and> out = der_element t c \<and> hl = length (der_header t (length c)))"
  unfolding CBS_get_any_asn1_element_def
  using element_sound [of False s out t hl r] element_complete [of _ False t r] by auto

lemma CBS_get_any_asn1_element_fail:
  "CBS_get_any_asn1_element s = (None, r) \<Longrightarrow> r = s"
  by (auto simp: CBS_get_any_asn1_element_def cbs_get_any_asn1_element_def Let_def CBS_get_bytes_eq
      cbs_get_def split: prod.splits option.splits if_splits)

lemma CBS_get_any_asn1_iff:
  "CBS_get_any_asn1 s = (Some (c, t), r) \<longleftrightarrow> length c < 4294967296 \<and> s = der_element t c @ r"
proof
  assume "CBS_get_any_asn1 s = (Some (c, t), r)"
  then show "length c < 4294967296 \<and> s = der_element t c @ r"
    by (auto simp: CBS_get_any_asn1_def CBS_get_any_asn1_element_iff CBS_skip_eq der_element_def
        split: prod.splits option.splits if_splits)
next
  assume "length c < 4294967296 \<and> s = der_element t c @ r"
  then have "CBS_get_any_asn1_element s = (Some (der_element t c, t, length (der_header t (length c))), r)"
    by (auto simp: CBS_get_any_asn1_element_iff)
  then show "CBS_get_any_asn1 s = (Some (c, t), r)"
    by (simp add: CBS_get_any_asn1_def CBS_skip_eq der_element_def)
qed

interpretation element: codec_seq "\<lambda>(c, t). der_element t c" CBS_get_any_asn1 "\<lambda>(c, t). length c < 4294967296"
proof
  show "(case x of (c, t) \<Rightarrow> der_element t c) \<noteq> []" for x
    by (cases x) (simp add: der_element_def der_header_def)
qed (auto simp: CBS_get_any_asn1_iff)

text \<open>
  With a fixed tag.  On a tag mismatch the call fails after \<open>*cbs\<close> has moved over the element.
\<close>

lemma cbs_get_asn1_element_eq:
  assumes "length c < 4294967296"
  shows "cbs_get_asn1 t skip (der_element t' c @ r) =
    (if t' \<noteq> t then (None, r) else (Some (if skip then c else der_element t c), r))"
proof -
  have "CBS_get_any_asn1_element (der_element t' c @ r) =
      (Some (der_element t' c, t', length (der_header t' (length c))), r)"
    using assms by (auto simp: CBS_get_any_asn1_element_iff)
  then show ?thesis
    by (simp add: cbs_get_asn1_def CBS_skip_eq der_element_def)
qed

lemma cbs_get_asn1_iff:
  "cbs_get_asn1 t skip s = (Some x, r) \<longleftrightarrow>
    (\<exists>c. length c < 4294967296 \<and> s = der_element t c @ r \<and> x = (if skip then c else der_element t c))"
proof
  assume l: "cbs_get_asn1 t skip s = (Some x, r)"
  then obtain out t' hl r' where "CBS_get_any_asn1_element s = (Some (out, t', hl), r')"
    by (auto simp: cbs_get_asn1_def split: prod.splits option.splits)
  then obtain c where "length c < 4294967296" "s = der_element t' c @ r'"
    by (auto simp: CBS_get_any_asn1_element_iff)
  with l show "\<exists>c. length c < 4294967296 \<and> s = der_element t c @ r \<and> x = (if skip then c else der_element t c)"
    by (auto simp: cbs_get_asn1_element_eq split: if_splits)
qed (auto simp: cbs_get_asn1_element_eq)

lemma cbs_get_asn1_fail_iff:
  "cbs_get_asn1 t skip s = (None, r) \<longleftrightarrow>
    r = s \<and> CBS_get_any_asn1_element s = (None, s) \<or>
    (\<exists>c t'. length c < 4294967296 \<and> t' \<noteq> t \<and> s = der_element t' c @ r)"
    (is "?L \<longleftrightarrow> ?R")
proof
  assume l: ?L
  show ?R
  proof (cases "CBS_get_any_asn1_element s")
    case (Pair res r')
    show ?thesis
    proof (cases res)
      case None
      with Pair l show ?thesis
        using CBS_get_any_asn1_element_fail [of s r'] by (simp add: cbs_get_asn1_def)
    next
      case (Some a)
      obtain out t' hl where "a = (out, t', hl)"
        by (cases a)
      with Pair Some obtain c where "length c < 4294967296" "s = der_element t' c @ r'"
        by (auto simp: CBS_get_any_asn1_element_iff)
      with l show ?thesis
        by (auto simp: cbs_get_asn1_element_eq split: if_splits)
    qed
  qed
next
  assume ?R
  then show ?L
    by (auto simp: cbs_get_asn1_element_eq) (simp add: cbs_get_asn1_def)
qed

lemma CBS_get_asn1_iff:
  "CBS_get_asn1 t s = (Some c, r) \<longleftrightarrow> length c < 4294967296 \<and> s = der_element t c @ r"
  by (auto simp: CBS_get_asn1_def cbs_get_asn1_iff)

lemma CBS_get_asn1_der_element [simp]:
  "length c < 4294967296 \<Longrightarrow> CBS_get_asn1 t (der_element t c @ r) = (Some c, r)"
  by (simp add: CBS_get_asn1_iff)

lemma CBS_get_asn1_element_iff:
  "CBS_get_asn1_element t s = (Some x, r) \<longleftrightarrow>
    (\<exists>c. length c < 4294967296 \<and> s = x @ r \<and> x = der_element t c)"
  by (auto simp: CBS_get_asn1_element_def cbs_get_asn1_iff)

lemma CBS_peek_asn1_tag_iff:
  "CBS_peek_asn1_tag s t \<longleftrightarrow> prefix (asn1_tag_bytes t) s"
proof -
  obtain res r where res: "parse_asn1_tag s = (res, r)"
    by (cases "parse_asn1_tag s")
  show ?thesis
  proof (cases res)
    case None
    then have "\<not> prefix (asn1_tag_bytes t) s"
      using res by (auto simp: prefix_def parse_asn1_tag_bytes)
    with None res show ?thesis
      by (simp add: CBS_peek_asn1_tag_def)
  next
    case (Some t')
    then have s: "s = asn1_tag_bytes t' @ r"
      using res parse_asn1_tag_sound by simp
    then have "length s \<noteq> 0"
      using tag.enc_nonempty by simp
    moreover have "prefix (asn1_tag_bytes t) s \<longleftrightarrow> t = t'"
      using s tag.unique_split [where x = t' and y = t and r = r] by (auto simp: prefix_def)
    ultimately show ?thesis
      using res Some by (simp add: CBS_peek_asn1_tag_def Suc_le_eq)
  qed
qed

interpretation asn1: codec_seq "der_element t" "CBS_get_asn1 t" "\<lambda>c. length c < 4294967296" for t
  by unfold_locales (auto simp: CBS_get_asn1_iff der_element_def der_header_def)

section \<open>The readers as a whole\<close>

lemma CBS_get_any_ber_asn1_element_iff:
  "CBS_get_any_ber_asn1_element s = (Some (out, t, hl), r) \<longleftrightarrow> s = out @ r \<and>
    ((\<exists>c. length c < 4294967296 \<and> out = der_element t c \<and> hl = length (der_header t (length c))) \<or>
     t AND CBS_ASN1_CONSTRUCTED \<noteq> 0 \<and> out = ber_indefinite t \<and> hl = length out)"
    (is "?L \<longleftrightarrow> ?R")
proof
  assume ?L
  then show ?R
    unfolding CBS_get_any_ber_asn1_element_def by (auto dest!: element_sound)
next
  assume r: ?R
  then consider (definite) c where "s = der_element t c @ r" "length c < 4294967296" "out = der_element t c"
      "hl = length (der_header t (length c))"
    | (indefinite) "t AND CBS_ASN1_CONSTRUCTED \<noteq> 0" "s = ber_indefinite t @ r" "out = ber_indefinite t"
      "hl = length out"
    by auto
  then show ?L
  proof cases
    case definite
    then show ?thesis
      by (simp add: CBS_get_any_ber_asn1_element_def element_complete)
  next
    case indefinite
    then have "s = asn1_tag_bytes t @ 128 # r"
      by (simp add: ber_indefinite_def)
    from element_at_length_octet [OF this refl refl, of True] indefinite show ?thesis
      by (simp add: CBS_get_any_ber_asn1_element_def asn1_take_def ber_indefinite_def)
  qed
qed

text \<open>
  C1: the DER element reader accepts exactly the DER encodings.  It returns contents \<open>c\<close> and tag \<open>t\<close>
  precisely when the input starts with the minimal identifier octets of \<open>t\<close>, the minimal length
  octets of \<open>length c\<close> and \<open>c\<close>, below 4 GB; the variant that keeps the header reports its length;
  and a failing call leaves the input where it was.
\<close>
theorem der_element_reader_exact:
  "(CBS_get_any_asn1 s = (Some (c, t), r) \<longleftrightarrow> length c < 4294967296 \<and> s = der_element t c @ r) \<and>
   (CBS_get_any_asn1_element s = (Some (out, t, hl), r) \<longleftrightarrow>
      s = out @ r \<and> (\<exists>c. length c < 4294967296 \<and> out = der_element t c \<and> hl = length (der_header t (length c)))) \<and>
   (CBS_get_any_asn1_element s = (None, r) \<longleftrightarrow>
      r = s \<and> (\<nexists>t c r'. length c < 4294967296 \<and> s = der_element t c @ r'))"
proof (intro conjI CBS_get_any_asn1_iff CBS_get_any_asn1_element_iff)
  have "CBS_get_any_asn1_element s = (None, s)"
    if "\<nexists>t c r'. length c < 4294967296 \<and> s = der_element t c @ r'"
  proof (cases "CBS_get_any_asn1_element s")
    case (Pair x r')
    moreover have "x \<noteq> Some (out, t, hl)" for out t hl
      using that Pair CBS_get_any_asn1_element_iff [of s out t hl r'] by auto
    ultimately show ?thesis
      using CBS_get_any_asn1_element_fail [of s r'] by (cases x) auto
  qed
  moreover have "\<nexists>t c r'. length c < 4294967296 \<and> s = der_element t c @ r'"
    if "CBS_get_any_asn1_element s = (None, r)"
    using that element_complete [of _ False] by (auto simp: CBS_get_any_asn1_element_def)
  ultimately show "CBS_get_any_asn1_element s = (None, r) \<longleftrightarrow>
      r = s \<and> (\<nexists>t c r'. length c < 4294967296 \<and> s = der_element t c @ r')"
    using CBS_get_any_asn1_element_fail by blast
qed

text \<open>
  the BER element reader accepts the DER encodings and, in addition, exactly the headers of
  constructed indefinite-length elements, for which it returns the header alone.  (BER's other
  freedom, a length in more octets than needed, it rejects.)
\<close>
theorem ber_element_reader_exact:
  "CBS_get_any_ber_asn1_element s = (Some (out, t, hl), r) \<longleftrightarrow> s = out @ r \<and>
    ((\<exists>c. length c < 4294967296 \<and> out = der_element t c \<and> hl = length (der_header t (length c))) \<or>
     t AND CBS_ASN1_CONSTRUCTED \<noteq> 0 \<and> out = ber_indefinite t \<and> hl = length out)"
  by (rule CBS_get_any_ber_asn1_element_iff)

text \<open>
  reading an element with a required tag.  It succeeds exactly on a DER element of that tag; it
  fails without consuming anything when there is no element, and after consuming the whole
  element when the tag is a different one.
\<close>
theorem get_asn1_outcome:
  "(CBS_get_asn1 t s = (Some c, r) \<longleftrightarrow> length c < 4294967296 \<and> s = der_element t c @ r) \<and>
   (CBS_get_asn1_element t s = (Some x, r) \<longleftrightarrow>
      (\<exists>c. length c < 4294967296 \<and> s = x @ r \<and> x = der_element t c)) \<and>
   (CBS_get_asn1 t s = (None, r) \<longleftrightarrow>
      r = s \<and> CBS_get_any_asn1_element s = (None, s) \<or>
      (\<exists>c t'. length c < 4294967296 \<and> t' \<noteq> t \<and> s = der_element t' c @ r))"
  unfolding CBS_get_asn1_def by (simp add: cbs_get_asn1_iff CBS_get_asn1_element_iff cbs_get_asn1_fail_iff)

text \<open>
  Identifier octets and base-128 integers.  Every 32-bit tag value has exactly one encoding that
  the tag reader accepts (low-tag form below 31, minimal base 128 from 31 on), so the encodings are
  prefix-free, and peeking at a tag decides whether the input starts with that encoding.  The base-128
  reader returns \<open>v\<close> exactly on the minimal digits of \<open>v\<close>, all but the last marked.
\<close>
theorem tag_reader_exact:
  "(parse_asn1_tag s = (Some t, r) \<longleftrightarrow> s = asn1_tag_bytes t @ r) \<and>
   (CBS_peek_asn1_tag s t \<longleftrightarrow> prefix (asn1_tag_bytes t) s) \<and>
   (prefix (asn1_tag_bytes t) (asn1_tag_bytes t') \<longleftrightarrow> t = t') \<and>
   (parse_base128_integer s = (Some v, r) \<longleftrightarrow> s = base128 (unat v) @ r)"
  using tag.dec_iff [of s t r] CBS_peek_asn1_tag_iff [of s t] tag.prefix_free [of t t'] base128.dec_iff [of s v r]
  by auto

end
