(* ===== verification/Cbb.thy ===== *)
theory Cbb
  imports Der
begin

unbundle bit_operations_syntax

text \<open>
  \<open>crypto/bytestring/cbb.c\<close>: the growing byte builder.  All \<open>CBB\<close>s of one builder share a
  \<open>cbb_buffer_st\<close> and form a chain through their \<open>child\<close> pointers; the model keeps the buffer and
  the chain, and an operation on a \<open>CBB\<close> takes its position in the chain (0 is the top-level
  \<open>CBB\<close>, \<open>d + 1\<close> the child of \<open>d\<close>).  A position past the end of the chain is a child whose
  \<open>base\<close> has been reset to \<open>NULL\<close> by the flush that closed it.  Every operation returns the
  success flag and the builder as it leaves it, on failure too.
\<close>

section \<open>State\<close>

text \<open>\<open>buf\<close> holds the first \<open>len\<close> bytes of the C array (\<open>base->len\<close> is its length), \<open>cap\<close> the
  size of the array; \<open>alloc\<close> is the allocator behind \<open>OPENSSL_realloc\<close>.\<close>

record cbb_buffer =
  buf :: bytes
  cap :: nat
  can_resize :: bool
  error :: bool
  alloc :: allocator

record cbb_frame =
  offset :: nat
  pending_len_len :: nat
  pending_is_asn1 :: bool

text \<open>\<open>children\<close> lists the open child \<open>CBB\<close>s, outermost first; the top-level \<open>CBB\<close> has offset 0
  and no pending prefix.\<close>

record cbb =
  base :: "cbb_buffer option"
  children :: "cbb_frame list"

definition CBB_zero :: cbb where
  "CBB_zero = \<lparr>base = None, children = []\<rparr>"

text \<open>\<open>sizeof(struct cbb_buffer_st)\<close>.\<close>

definition sizeof_cbb_buffer :: nat where
  "sizeof_cbb_buffer = 32"

definition cbb_init :: "allocator \<Rightarrow> nat \<Rightarrow> cbb \<Rightarrow> bool \<times> cbb" where
  "cbb_init al c s =
     (if \<not> al sizeof_cbb_buffer then (False, s)
      else (True, s\<lparr>base := Some \<lparr>buf = [], cap = c, can_resize = True, error = False, alloc = al\<rparr>\<rparr>))"

definition CBB_init :: "allocator \<Rightarrow> nat \<Rightarrow> bool \<times> cbb" where
  "CBB_init al initial_capacity =
     (if initial_capacity > 0 \<and> \<not> al initial_capacity then (False, CBB_zero)
      else cbb_init al initial_capacity CBB_zero)"

definition CBB_init_fixed :: "allocator \<Rightarrow> nat \<Rightarrow> bool \<times> cbb" where
  "CBB_init_fixed al len = (case cbb_init al len CBB_zero of
     (False, s) \<Rightarrow> (False, s)
   | (True, s) \<Rightarrow> (True, s\<lparr>base := map_option (\<lambda>b. b\<lparr>can_resize := False\<rparr>) (base s)\<rparr>))"

definition CBB_cleanup :: "cbb \<Rightarrow> cbb" where
  "CBB_cleanup s = s\<lparr>base := None\<rparr>"

section \<open>The buffer\<close>

definition cbb_buffer_reserve :: "nat \<Rightarrow> cbb_buffer \<Rightarrow> bool \<times> cbb_buffer" where
  "cbb_buffer_reserve len b =
     (let newlen = size_add (length (buf b)) len
      in if newlen < length (buf b) then (False, b\<lparr>error := True\<rparr>)
         else if newlen > cap b
         then (if \<not> can_resize b then (False, b\<lparr>error := True\<rparr>)
               else let newcap = size_mul (cap b) 2;
                        newcap = (if newcap < cap b \<or> newcap < newlen then newlen else newcap)
                    in if \<not> alloc b newcap then (False, b\<lparr>error := True\<rparr>)
                       else (True, b\<lparr>cap := newcap\<rparr>))
         else (True, b))"

text \<open>\<open>cbb_buffer_add\<close> hands out a pointer to \<open>len\<close> fresh bytes; \<open>data\<close> is what the caller stores
  there.\<close>

definition cbb_buffer_add :: "bytes \<Rightarrow> cbb_buffer \<Rightarrow> bool \<times> cbb_buffer" where
  "cbb_buffer_add data b = (case cbb_buffer_reserve (length data) b of
     (False, b') \<Rightarrow> (False, b')
   | (True, b') \<Rightarrow> (True, b'\<lparr>buf := buf b' @ data\<rparr>))"

text \<open>The loop \<open>for (i = n - 1; i < n; i--) { buf[pos + i] = v; v >>= 8; }\<close>; it returns the
  array and what is left of \<open>v\<close>.\<close>

fun store_be :: "bytes \<Rightarrow> nat \<Rightarrow> nat \<Rightarrow> u64 \<Rightarrow> bytes \<times> u64" where
  "store_be bs pos 0 v = (bs, v)"
| "store_be bs pos (Suc i) v = store_be (bs[pos + i := ucast v]) pos i (drop_bit 8 v)"

definition cbb_buffer_add_u :: "u64 \<Rightarrow> nat \<Rightarrow> cbb_buffer \<Rightarrow> bool \<times> cbb_buffer" where
  "cbb_buffer_add_u v len_len b =
     (if len_len = 0 then (True, b)
      else case cbb_buffer_add (replicate len_len 0) b of
             (False, b') \<Rightarrow> (False, b')
           | (True, b') \<Rightarrow>
               let (bs, rest) = store_be (buf b') (length (buf b)) len_len v;
                   b'' = b'\<lparr>buf := bs\<rparr>
               in if rest \<noteq> 0 then (False, b''\<lparr>error := True\<rparr>) else (True, b''))"

section \<open>Flushing length prefixes\<close>

text \<open>The choice of the length form: the number of length octets, the first one, and the length
  that is still to be written after it.\<close>

definition cbb_asn1_len :: "nat \<Rightarrow> nat \<times> u8 \<times> nat" where
  "cbb_asn1_len len =
     (if len > 0xffffff then (5, 0x80 OR 4, len)
      else if len > 0xffff then (4, 0x80 OR 3, len)
      else if len > 0xff then (3, 0x80 OR 2, len)
      else if len > 0x7f then (2, 0x80 OR 1, len)
      else (1, of_nat len, 0))"

lemma cbb_asn1_len_code [code]:
  "cbb_asn1_len len = (let n = int len in
     if n > 0xffffff then (5, 0x80 OR 4, len)
     else if n > 0xffff then (4, 0x80 OR 3, len)
     else if n > 0xff then (3, 0x80 OR 2, len)
     else if n > 0x7f then (2, 0x80 OR 1, len)
     else (1, of_nat len, 0))"
  by (simp add: cbb_asn1_len_def Let_def)

text \<open>The largest length of a DER element.\<close>

definition cbb_too_long :: "nat \<Rightarrow> bool" where
  [simp]: "cbb_too_long len \<longleftrightarrow> len > 0xfffffffe"

lemma cbb_too_long_code [code]: "cbb_too_long len \<longleftrightarrow> int len > 0xfffffffe"
  by simp

text \<open>The end of \<open>CBB_flush\<close>: the prefix loop over \<open>buf[offset..]\<close>, the check that the length
  fitted, and the release of the child \<open>c\<close>.\<close>

definition cbb_write_prefix ::
  "cbb_frame \<Rightarrow> cbb_frame list \<Rightarrow> nat \<Rightarrow> cbb_buffer \<Rightarrow> bool \<times> cbb_frame list \<times> cbb_buffer" where
  "cbb_write_prefix c cs len b =
     (let (bs, rest) = store_be (buf b) (offset c) (pending_len_len c) (of_nat len);
          b' = b\<lparr>buf := bs\<rparr>
      in if rest \<noteq> 0 then (False, c # cs, b'\<lparr>error := True\<rparr>) else (True, [], b'))"

text \<open>\<open>cbb_flush\<close> is \<open>CBB_flush\<close> on a \<open>CBB\<close> whose chain of children is the list; it returns the
  chain that is left.\<close>

fun cbb_flush :: "cbb_frame list \<Rightarrow> cbb_buffer \<Rightarrow> bool \<times> cbb_frame list \<times> cbb_buffer" where
  "cbb_flush [] b = (\<not> error b, [], b)"
| "cbb_flush (c # cs) b =
     (if error b then (False, c # cs, b)
      else if pending_len_len c = 0 then (True, c # cs, b)
      else
        let child_start = size_add (offset c) (pending_len_len c);
            (ok, cs', b1) = cbb_flush cs b
        in if \<not> ok \<or> child_start < offset c \<or> length (buf b1) < child_start
           then (False, c # cs', b1\<lparr>error := True\<rparr>)
           else
             let len = length (buf b1) - child_start
             in if pending_is_asn1 c
                then
                  if cbb_too_long len then (False, c # cs', b1\<lparr>error := True\<rparr>)
                  else
                    let (len_len, initial_length_byte, len') = cbb_asn1_len len;
                        extra_bytes = len_len - 1;
                        (ok, b2) =
                          (if len_len \<noteq> 1
                           then (case cbb_buffer_add (replicate extra_bytes 0) b1 of
                                   (False, b2) \<Rightarrow> (False, b2)
                                 | (True, b2) \<Rightarrow>
                                     (True, b2\<lparr>buf := mem_move (child_start + extra_bytes) child_start len' (buf b2)\<rparr>))
                           else (True, b1))
                    in if \<not> ok then (False, c # cs', b2\<lparr>error := True\<rparr>)
                       else cbb_write_prefix
                              (c\<lparr>offset := offset c + 1, pending_len_len := len_len - 1\<rparr>) cs' len'
                              (b2\<lparr>buf := (buf b2)[offset c := initial_length_byte]\<rparr>)
                else cbb_write_prefix c cs' len b1)"

definition CBB_flush :: "nat \<Rightarrow> cbb \<Rightarrow> bool \<times> cbb" where
  "CBB_flush d s = (case base s of
     None \<Rightarrow> (False, s)
   | Some b \<Rightarrow>
       if d > length (children s) then (False, s)
       else let (ok, cs', b') = cbb_flush (drop d (children s)) b
            in (ok, s\<lparr>base := Some b', children := take d (children s) @ cs'\<rparr>))"

text \<open>Most operations flush, then work on the buffer.\<close>

definition cbb_then :: "nat \<Rightarrow> (cbb_buffer \<Rightarrow> bool \<times> cbb_buffer) \<Rightarrow> cbb \<Rightarrow> bool \<times> cbb" where
  "cbb_then d f s = (case CBB_flush d s of
     (False, s1) \<Rightarrow> (False, s1)
   | (True, s1) \<Rightarrow> (case base s1 of
       None \<Rightarrow> (False, s1)
     | Some b \<Rightarrow> let (ok, b') = f b in (ok, s1\<lparr>base := Some b'\<rparr>)))"

text \<open>\<open>CBB_finish\<close> yields the finished bytes; \<open>want_out\<close> says that both out-pointers are given.\<close>

definition CBB_finish :: "nat \<Rightarrow> bool \<Rightarrow> cbb \<Rightarrow> bytes option \<times> cbb" where
  "CBB_finish d want_out s =
     (if d \<noteq> 0 then (None, s)
      else case CBB_flush d s of
        (False, s1) \<Rightarrow> (None, s1)
      | (True, s1) \<Rightarrow> (case base s1 of
          None \<Rightarrow> (None, s1)
        | Some b \<Rightarrow>
            if can_resize b \<and> \<not> want_out then (None, s1)
            else (Some (buf b), CBB_cleanup s1)))"

section \<open>Adding data\<close>

definition CBB_add_bytes :: "nat \<Rightarrow> bytes \<Rightarrow> cbb \<Rightarrow> bool \<times> cbb" where
  "CBB_add_bytes d data s = cbb_then d (cbb_buffer_add data) s"

text \<open>\<open>CBB_add_space\<close>: \<open>filled\<close> are the bytes the caller puts into the space.\<close>

definition CBB_add_space :: "nat \<Rightarrow> bytes \<Rightarrow> cbb \<Rightarrow> bool \<times> cbb" where
  "CBB_add_space d filled s = cbb_then d (cbb_buffer_add filled) s"

definition CBB_reserve :: "nat \<Rightarrow> nat \<Rightarrow> cbb \<Rightarrow> bool \<times> cbb" where
  "CBB_reserve d len s = cbb_then d (cbb_buffer_reserve len) s"

text \<open>\<open>CBB_did_write\<close>: \<open>written\<close> are the bytes stored in the reserved space.  (C dereferences \<open>base\<close>
  unchecked here; the model fails where it is \<open>NULL\<close>.)\<close>

definition CBB_did_write :: "nat \<Rightarrow> bytes \<Rightarrow> cbb \<Rightarrow> bool \<times> cbb" where
  "CBB_did_write d written s = (case base s of
     None \<Rightarrow> (False, s)
   | Some b \<Rightarrow>
       let newlen = size_add (length (buf b)) (length written)
       in if d \<noteq> length (children s) \<or> newlen < length (buf b) \<or> newlen > cap b then (False, s)
          else (True, s\<lparr>base := Some (b\<lparr>buf := buf b @ written\<rparr>)\<rparr>))"

definition CBB_add_u8 :: "nat \<Rightarrow> u8 \<Rightarrow> cbb \<Rightarrow> bool \<times> cbb" where
  "CBB_add_u8 d value s = cbb_then d (cbb_buffer_add_u (ucast value) 1) s"

definition CBB_add_u16 :: "nat \<Rightarrow> u16 \<Rightarrow> cbb \<Rightarrow> bool \<times> cbb" where
  "CBB_add_u16 d value s = cbb_then d (cbb_buffer_add_u (ucast value) 2) s"

definition CBB_add_u16le :: "nat \<Rightarrow> u16 \<Rightarrow> cbb \<Rightarrow> bool \<times> cbb" where
  "CBB_add_u16le d value s = CBB_add_u16 d (CRYPTO_bswap2 value) s"

definition CBB_add_u24 :: "nat \<Rightarrow> u32 \<Rightarrow> cbb \<Rightarrow> bool \<times> cbb" where
  "CBB_add_u24 d value s = cbb_then d (cbb_buffer_add_u (ucast value) 3) s"

definition CBB_add_u32 :: "nat \<Rightarrow> u32 \<Rightarrow> cbb \<Rightarrow> bool \<times> cbb" where
  "CBB_add_u32 d value s = cbb_then d (cbb_buffer_add_u (ucast value) 4) s"

definition CBB_add_u32le :: "nat \<Rightarrow> u32 \<Rightarrow> cbb \<Rightarrow> bool \<times> cbb" where
  "CBB_add_u32le d value s = CBB_add_u32 d (CRYPTO_bswap4 value) s"

definition CBB_add_u64 :: "nat \<Rightarrow> u64 \<Rightarrow> cbb \<Rightarrow> bool \<times> cbb" where
  "CBB_add_u64 d value s = cbb_then d (cbb_buffer_add_u value 8) s"

definition CBB_add_u64le :: "nat \<Rightarrow> u64 \<Rightarrow> cbb \<Rightarrow> bool \<times> cbb" where
  "CBB_add_u64le d value s = CBB_add_u64 d (CRYPTO_bswap8 value) s"

section \<open>Children\<close>

text \<open>Where the contents of a \<open>CBB\<close> start in the buffer.\<close>

definition cbb_start :: "nat \<Rightarrow> cbb \<Rightarrow> nat" where
  "cbb_start d s =
     (if d = 0 then 0 else offset (children s ! (d - 1)) + pending_len_len (children s ! (d - 1)))"

definition CBB_data :: "nat \<Rightarrow> cbb \<Rightarrow> bytes" where
  "CBB_data d s = (case base s of None \<Rightarrow> [] | Some b \<Rightarrow> drop (cbb_start d s) (buf b))"

definition CBB_len :: "nat \<Rightarrow> cbb \<Rightarrow> nat" where
  "CBB_len d s = (case base s of None \<Rightarrow> 0 | Some b \<Rightarrow> length (buf b) - cbb_start d s)"

text \<open>\<open>cbb->child = out_contents\<close>, with the new child's fields.\<close>

definition cbb_push_child :: "nat \<Rightarrow> cbb_frame \<Rightarrow> cbb \<Rightarrow> cbb" where
  "cbb_push_child d c s = s\<lparr>children := take d (children s) @ [c]\<rparr>"

definition cbb_add_length_prefixed :: "nat \<Rightarrow> nat \<Rightarrow> cbb \<Rightarrow> bool \<times> cbb" where
  "cbb_add_length_prefixed d len_len s = (case CBB_flush d s of
     (False, s1) \<Rightarrow> (False, s1)
   | (True, s1) \<Rightarrow> (case base s1 of
       None \<Rightarrow> (False, s1)
     | Some b \<Rightarrow>
         let off = length (buf b)
         in case cbb_buffer_add (replicate len_len 0) b of
              (False, b') \<Rightarrow> (False, s1\<lparr>base := Some b'\<rparr>)
            | (True, b') \<Rightarrow>
                (True, cbb_push_child d
                   \<lparr>offset = off, pending_len_len = len_len, pending_is_asn1 = False\<rparr>
                   (s1\<lparr>base := Some b'\<rparr>))))"

definition CBB_add_u8_length_prefixed :: "nat \<Rightarrow> cbb \<Rightarrow> bool \<times> cbb" where
  "CBB_add_u8_length_prefixed d s = cbb_add_length_prefixed d 1 s"

definition CBB_add_u16_length_prefixed :: "nat \<Rightarrow> cbb \<Rightarrow> bool \<times> cbb" where
  "CBB_add_u16_length_prefixed d s = cbb_add_length_prefixed d 2 s"

definition CBB_add_u24_length_prefixed :: "nat \<Rightarrow> cbb \<Rightarrow> bool \<times> cbb" where
  "CBB_add_u24_length_prefixed d s = cbb_add_length_prefixed d 3 s"

text \<open>\<open>CBB_discard_child\<close> rewinds the buffer to the child's prefix and drops the child.\<close>

definition CBB_discard_child :: "nat \<Rightarrow> cbb \<Rightarrow> cbb" where
  "CBB_discard_child d s = (case drop d (children s) of
     [] \<Rightarrow> s
   | c # _ \<Rightarrow>
       s\<lparr>base := map_option (\<lambda>b. b\<lparr>buf := take (offset c) (buf b)\<rparr>) (base s),
         children := take d (children s)\<rparr>)"

section \<open>DER elements\<close>

text \<open>The first loop of \<open>add_base128_integer\<close> counts the digits; the second writes digit \<open>i\<close>
  down to digit 0.\<close>

function base128_len_len :: "u64 \<Rightarrow> nat \<Rightarrow> nat" where
  "base128_len_len copy len_len =
     (if copy > 0 then base128_len_len (drop_bit 7 copy) (len_len + 1) else len_len)"
  by pat_completeness auto
termination
proof (relation "measure (\<lambda>(copy, _). unat copy)")
  show "((drop_bit 7 copy, len_len + 1), copy, len_len) \<in> measure (\<lambda>(copy, _). unat copy)"
    if "copy > 0" for copy :: u64 and len_len :: nat
  proof -
    have "unat copy > 0"
      using that by (simp add: word_less_nat_alt)
    then show ?thesis
      by (simp only: in_measure prod.case unat_drop_bit_div) simp
  qed
qed simp

declare base128_len_len.simps [simp del]

fun add_base128_loop :: "nat \<Rightarrow> nat \<Rightarrow> u64 \<Rightarrow> cbb \<Rightarrow> bool \<times> cbb" where
  "add_base128_loop d 0 v s = (True, s)"
| "add_base128_loop d (Suc i) v s =
     (let byte = ucast (drop_bit (7 * i) v AND 0x7f) :: u8;
          byte = (if i \<noteq> 0 then byte OR 0x80 else byte)
      in case CBB_add_u8 d byte s of
           (False, s') \<Rightarrow> (False, s')
         | (True, s') \<Rightarrow> add_base128_loop d i v s')"

definition add_base128_integer :: "nat \<Rightarrow> u64 \<Rightarrow> cbb \<Rightarrow> bool \<times> cbb" where
  "add_base128_integer d v s =
     (let len_len = base128_len_len v 0;
          len_len = (if len_len = 0 then 1 else len_len)
      in add_base128_loop d len_len v s)"

definition CBB_add_asn1 :: "nat \<Rightarrow> u32 \<Rightarrow> cbb \<Rightarrow> bool \<times> cbb" where
  "CBB_add_asn1 d tag s = (case CBB_flush d s of
     (False, s1) \<Rightarrow> (False, s1)
   | (True, s1) \<Rightarrow>
       let tag_bits = ucast (drop_bit 24 tag AND 0xe0) :: u8;
           tag_number = tag AND CBS_ASN1_TAG_NUMBER_MASK;
           (ok, s2) =
             (if tag_number \<ge> 0x1f
              then (case CBB_add_u8 d (tag_bits OR 0x1f) s1 of
                      (False, s2) \<Rightarrow> (False, s2)
                    | (True, s2) \<Rightarrow> add_base128_integer d (ucast tag_number) s2)
              else CBB_add_u8 d (tag_bits OR ucast tag_number) s1)
       in if \<not> ok then (False, s2)
          else
            let off = (case base s2 of None \<Rightarrow> 0 | Some b \<Rightarrow> length (buf b))
            in case CBB_add_u8 d 0 s2 of
                 (False, s3) \<Rightarrow> (False, s3)
               | (True, s3) \<Rightarrow>
                   (True, cbb_push_child d
                      \<lparr>offset = off, pending_len_len = 1, pending_is_asn1 = True\<rparr> s3))"

text \<open>The loop of \<open>CBB_add_asn1_uint64\<close> over the byte indices; it also returns \<open>started\<close>.  The
  child is at position \<open>Suc d\<close>.\<close>

fun asn1_uint64_bytes :: "nat \<Rightarrow> u64 \<Rightarrow> nat list \<Rightarrow> bool \<Rightarrow> cbb \<Rightarrow> bool \<times> bool \<times> cbb" where
  "asn1_uint64_bytes d value [] started s = (True, started, s)"
| "asn1_uint64_bytes d value (i # is) started s =
     (let byte = ucast (drop_bit (8 * (7 - i)) value AND 0xff) :: u8
      in if \<not> started \<and> byte = 0 then asn1_uint64_bytes d value is False s
         else
           case (if \<not> started \<and> byte AND 0x80 \<noteq> 0 then CBB_add_u8 d 0 s else (True, s)) of
             (False, s1) \<Rightarrow> (False, started, s1)
           | (True, s1) \<Rightarrow> (case CBB_add_u8 d byte s1 of
               (False, s2) \<Rightarrow> (False, True, s2)
             | (True, s2) \<Rightarrow> asn1_uint64_bytes d value is True s2))"

definition CBB_add_asn1_uint64 :: "nat \<Rightarrow> u64 \<Rightarrow> cbb \<Rightarrow> bool \<times> cbb" where
  "CBB_add_asn1_uint64 d value s = (case CBB_add_asn1 d CBS_ASN1_INTEGER s of
     (False, s1) \<Rightarrow> (False, s1)
   | (True, s1) \<Rightarrow> (case asn1_uint64_bytes (Suc d) value [0..<8] False s1 of
       (False, _, s2) \<Rightarrow> (False, s2)
     | (True, started, s2) \<Rightarrow>
         (case (if \<not> started then CBB_add_u8 (Suc d) 0 s2 else (True, s2)) of
            (False, s3) \<Rightarrow> (False, s3)
          | (True, s3) \<Rightarrow> CBB_flush d s3)))"

text \<open>\<open>u.bytes[k]\<close> of a little-endian 64-bit value, the scan for the first significant byte, and
  the loop that writes bytes \<open>n - 1\<close> down to 0.\<close>

definition le_byte :: "u64 \<Rightarrow> nat \<Rightarrow> u8" where
  "le_byte v k = ucast (drop_bit (8 * k) v)"

fun asn1_int64_start :: "u64 \<Rightarrow> nat \<Rightarrow> nat" where
  "asn1_int64_start v 0 = 0"
| "asn1_int64_start v (Suc k) =
     (if le_byte v (Suc k) = 0xff \<and> le_byte v k AND 0x80 \<noteq> 0 then asn1_int64_start v k else Suc k)"

fun asn1_int64_bytes :: "nat \<Rightarrow> u64 \<Rightarrow> nat \<Rightarrow> cbb \<Rightarrow> bool \<times> cbb" where
  "asn1_int64_bytes d v 0 s = (True, s)"
| "asn1_int64_bytes d v (Suc i) s = (case CBB_add_u8 d (le_byte v i) s of
     (False, s') \<Rightarrow> (False, s')
   | (True, s') \<Rightarrow> asn1_int64_bytes d v i s')"

definition CBB_add_asn1_int64 :: "nat \<Rightarrow> u64 \<Rightarrow> cbb \<Rightarrow> bool \<times> cbb" where
  "CBB_add_asn1_int64 d value s =
     (if sint value \<ge> 0 then CBB_add_asn1_uint64 d value s
      else
        let start = asn1_int64_start value 7
        in case CBB_add_asn1 d CBS_ASN1_INTEGER s of
             (False, s1) \<Rightarrow> (False, s1)
           | (True, s1) \<Rightarrow> (case asn1_int64_bytes (Suc d) value (Suc start) s1 of
               (False, s2) \<Rightarrow> (False, s2)
             | (True, s2) \<Rightarrow> CBB_flush d s2))"

definition CBB_add_asn1_octet_string :: "nat \<Rightarrow> bytes \<Rightarrow> cbb \<Rightarrow> bool \<times> cbb" where
  "CBB_add_asn1_octet_string d data s = (case CBB_add_asn1 d CBS_ASN1_OCTETSTRING s of
     (False, s1) \<Rightarrow> (False, s1)
   | (True, s1) \<Rightarrow> (case CBB_add_bytes (Suc d) data s1 of
       (False, s2) \<Rightarrow> (False, s2)
     | (True, s2) \<Rightarrow> CBB_flush d s2))"

definition CBB_add_asn1_bool :: "nat \<Rightarrow> int \<Rightarrow> cbb \<Rightarrow> bool \<times> cbb" where
  "CBB_add_asn1_bool d value s = (case CBB_add_asn1 d CBS_ASN1_BOOLEAN s of
     (False, s1) \<Rightarrow> (False, s1)
   | (True, s1) \<Rightarrow> (case CBB_add_u8 (Suc d) (if value \<noteq> 0 then 0xff else 0) s1 of
       (False, s2) \<Rightarrow> (False, s2)
     | (True, s2) \<Rightarrow> CBB_flush d s2))"

end
