(* ===== verification/Cbb_Spec.thy ===== *)
theory Cbb_Spec
  imports Cbb
begin

unbundle bit_operations_syntax

text \<open>
  What the builder of \<open>Cbb\<close> guarantees: the buffer only ever grows at its end, a flush writes
  exactly the pending length prefixes (DER length octets for ASN.1 children), and both succeed
  exactly when the allocator, \<open>size_t\<close> and the prefixes allow it.
\<close>

section \<open>Stores\<close>

lemma ucast_of_nat_mod256: "(of_nat (unat v mod 256) :: u8) = ucast (v :: 'a::len word)"
  by (rule word_of_nat_eqI [symmetric]) (simp add: unat_ucast_down)

lemma mem_copy_update:
  "pos + length ys < length xs \<Longrightarrow> mem_copy pos ys (xs[pos + length ys := y]) = mem_copy pos (ys @ [y]) xs"
  by (simp add: mem_copy_def upd_conv_take_nth_drop)

lemma store_be_eq:
  "pos + n \<le> length bs \<Longrightarrow>
    store_be bs pos n v = (mem_copy pos (be_bytes n (unat v)) bs, drop_bit (8 * n) v)"
proof (induction n arbitrary: bs v)
  case 0
  then show ?case by simp
next
  case (Suc n)
  have v: "unat (drop_bit 8 v) = unat v div 256"
    by (simp only: unat_drop_bit_div) simp
  have "store_be bs pos (Suc n) v =
      (mem_copy pos (be_bytes n (unat v div 256)) (bs[pos + n := ucast v]), drop_bit (8 * n) (drop_bit 8 v))"
    using Suc.prems by (simp add: Suc.IH v)
  moreover have "mem_copy pos (be_bytes n (unat v div 256)) (bs[pos + n := ucast v]) =
      mem_copy pos (be_bytes (Suc n) (unat v)) bs"
    using mem_copy_update [of pos "be_bytes n (unat v div 256)" bs "ucast v"] Suc.prems
    by (simp add: ucast_of_nat_mod256)
  ultimately show ?case by (simp add: drop_bit_drop_bit add.commute)
qed

section \<open>The buffer\<close>

definition buffer_ok :: "cbb_buffer \<Rightarrow> bool" where
  "buffer_ok b \<longleftrightarrow> length (buf b) \<le> cap b \<and> cap b \<le> SIZE_MAX"

text \<open>\<open>b'\<close> is \<open>b\<close> with \<open>data\<close> appended.\<close>

definition buffer_wrote :: "bytes \<Rightarrow> cbb_buffer \<Rightarrow> cbb_buffer \<Rightarrow> bool" where
  "buffer_wrote data b b' \<longleftrightarrow> buf b' = buf b @ data \<and> error b' = error b \<and>
     can_resize b' = can_resize b \<and> alloc b' = alloc b \<and> buffer_ok b'"

text \<open>A builder that can grow by \<open>n\<close> bytes: resizable, with an allocator that does not fail.\<close>

definition buffer_roomy :: "nat \<Rightarrow> cbb_buffer \<Rightarrow> bool" where
  "buffer_roomy n b \<longleftrightarrow> can_resize b \<and> alloc b = unlimited \<and> length (buf b) + n \<le> SIZE_MAX"

lemma size_bounds [simp]: "size_add a b \<le> SIZE_MAX" "size_mul a b \<le> SIZE_MAX"
proof -
  have "n mod 18446744073709551616 \<le> 18446744073709551615" for n :: nat
    using mod_less_divisor [of 18446744073709551616 n] by linarith
  then show "size_add a b \<le> SIZE_MAX" "size_mul a b \<le> SIZE_MAX"
    by (simp_all add: size_simps)
qed

lemma size_add_checked:
  assumes "a \<le> SIZE_MAX" and "b \<le> SIZE_MAX" and "\<not> size_add a b < a"
  shows "size_add a b = a + b"
  using assms size_add_wrap_iff [of a b] by simp

lemma cbb_buffer_reserve_ok:
  assumes "cbb_buffer_reserve n b = (True, b')" and "buffer_ok b" and "n \<le> SIZE_MAX"
  shows "buffer_wrote [] b b' \<and> length (buf b) + n \<le> cap b'"
proof -
  have "length (buf b) \<le> SIZE_MAX"
    using assms(2) by (simp add: buffer_ok_def)
  with assms show ?thesis
    using size_add_checked [of "length (buf b)" n] size_bounds(1) [of "length (buf b)" n]
      size_bounds(2) [of "cap b" 2]
    by (auto simp del: size_bounds simp: cbb_buffer_reserve_def Let_def buffer_wrote_def buffer_ok_def split: if_splits)
qed

lemma cbb_buffer_reserve_fail:
  "cbb_buffer_reserve n b = (False, b') \<Longrightarrow> b' = b\<lparr>error := True\<rparr>"
  by (auto simp: cbb_buffer_reserve_def Let_def split: if_splits)

lemma cbb_buffer_reserve_roomy:
  "buffer_roomy n b \<Longrightarrow> \<exists>b'. cbb_buffer_reserve n b = (True, b')"
  by (auto simp: cbb_buffer_reserve_def Let_def buffer_roomy_def)

lemma cbb_buffer_add_ok:
  assumes "cbb_buffer_add data b = (True, b')" and "buffer_ok b" and "length data \<le> SIZE_MAX"
  shows "buffer_wrote data b b'"
proof -
  obtain b1 where "cbb_buffer_reserve (length data) b = (True, b1)" "b' = b1\<lparr>buf := buf b1 @ data\<rparr>"
    using assms(1) by (auto simp: cbb_buffer_add_def split: prod.splits bool.splits)
  with cbb_buffer_reserve_ok [OF _ assms(2,3)] show ?thesis
    by (auto simp: buffer_wrote_def buffer_ok_def)
qed

lemma cbb_buffer_add_fail:
  "cbb_buffer_add data b = (False, b') \<Longrightarrow> b' = b\<lparr>error := True\<rparr>"
  by (auto simp: cbb_buffer_add_def dest: cbb_buffer_reserve_fail split: prod.splits bool.splits)

lemma cbb_buffer_add_roomy:
  "buffer_roomy (length data) b \<Longrightarrow> \<exists>b'. cbb_buffer_add data b = (True, b')"
  using cbb_buffer_reserve_roomy [of "length data" b] by (auto simp: cbb_buffer_add_def)

lemma cbb_buffer_add_u_eq:
  "cbb_buffer_add_u v n b = (case cbb_buffer_add (replicate n 0) b of
     (False, b') \<Rightarrow> (if n = 0 then (True, b) else (False, b'))
   | (True, b') \<Rightarrow>
       if n = 0 then (True, b)
       else let b'' = b'\<lparr>buf := buf b @ be_bytes n (unat v)\<rparr>
            in if unat v < 256 ^ n then (True, b'') else (False, b''\<lparr>error := True\<rparr>))"
proof (cases "cbb_buffer_add (replicate n 0) b")
  case (Pair ok b')
  show ?thesis
  proof (cases "ok \<and> n \<noteq> 0")
    case True
    with Pair have buf: "buf b' = buf b @ replicate n 0"
      by (auto simp: cbb_buffer_add_def cbb_buffer_reserve_def Let_def split: if_splits)
    then have "store_be (buf b') (length (buf b)) n v = (buf b @ be_bytes n (unat v), drop_bit (8 * n) v)"
      by (simp add: store_be_eq mem_copy_def)
    with True Pair show ?thesis
      by (auto simp: cbb_buffer_add_u_def drop_bit_8_eq_0_iff Let_def)
  next
    case False
    with Pair show ?thesis
      by (auto simp: cbb_buffer_add_u_def split: bool.splits)
  qed
qed

lemma cbb_buffer_add_u_ok:
  assumes "cbb_buffer_add_u v n b = (True, b')" and "buffer_ok b" and "0 < n" and "n \<le> 8"
  shows "buffer_wrote (be_bytes n (unat v)) b b' \<and> unat v < 256 ^ n"
proof -
  obtain b1 where b1: "cbb_buffer_add (replicate n 0) b = (True, b1)"
    "b' = b1\<lparr>buf := buf b @ be_bytes n (unat v)\<rparr>" "unat v < 256 ^ n"
    using assms(1,3)
    by (auto simp: cbb_buffer_add_u_eq Let_def split: prod.splits bool.splits if_splits)
  moreover have "buffer_wrote (replicate n 0) b b1"
    using b1(1) assms(2) by (rule cbb_buffer_add_ok) (use assms(4) in \<open>simp add: SIZE_MAX_def\<close>)
  ultimately show ?thesis
    by (auto simp: buffer_wrote_def buffer_ok_def)
qed

lemma cbb_buffer_add_u_roomy:
  assumes "buffer_roomy n b" and "unat v < 256 ^ n"
  shows "\<exists>b'. cbb_buffer_add_u v n b = (True, b')"
  using cbb_buffer_add_roomy [of "replicate n 0" b] assms by (auto simp: cbb_buffer_add_u_eq Let_def)

section \<open>Flushing\<close>

text \<open>What a flush of the chain \<open>cs\<close> makes of the buffer: innermost first, each child's prefix is
  replaced by the encoding of the length of its contents.\<close>

definition prefix_bytes :: "cbb_frame \<Rightarrow> nat \<Rightarrow> bytes" where
  "prefix_bytes c n = (if pending_is_asn1 c then der_len n else be_bytes (pending_len_len c) n)"

fun flush_buf :: "cbb_frame list \<Rightarrow> bytes \<Rightarrow> bytes" where
  "flush_buf [] bs = bs"
| "flush_buf (c # cs) bs =
     (let inner = flush_buf cs bs; contents = drop (offset c + pending_len_len c) inner
      in take (offset c) inner @ prefix_bytes c (length contents) @ contents)"

text \<open>Every pending length can be written: below 0xffffffff for ASN.1, in the octets reserved
  otherwise.\<close>

definition prefix_fits :: "cbb_frame \<Rightarrow> nat \<Rightarrow> bool" where
  "prefix_fits c n \<longleftrightarrow>
     (if pending_is_asn1 c then n \<le> 0xfffffffe else n < 256 ^ pending_len_len c)"

fun flush_fits :: "cbb_frame list \<Rightarrow> bytes \<Rightarrow> bool" where
  "flush_fits [] bs \<longleftrightarrow> True"
| "flush_fits (c # cs) bs \<longleftrightarrow>
     flush_fits cs bs \<and>
     prefix_fits c (length (flush_buf cs bs) - (offset c + pending_len_len c))"

text \<open>The shape of a chain over a buffer of length \<open>n\<close>: the frames do not overlap and reserve one
  to three octets, one for ASN.1.\<close>

fun frames_ok :: "nat \<Rightarrow> cbb_frame list \<Rightarrow> nat \<Rightarrow> bool" where
  "frames_ok start [] n \<longleftrightarrow> start \<le> n"
| "frames_ok start (c # cs) n \<longleftrightarrow>
     start \<le> offset c \<and> 1 \<le> pending_len_len c \<and> pending_len_len c \<le> 3 \<and>
     (pending_is_asn1 c \<longrightarrow> pending_len_len c = 1) \<and>
     frames_ok (offset c + pending_len_len c) cs n"

lemma frames_ok_le: "frames_ok start cs n \<Longrightarrow> start \<le> n"
proof (induction cs arbitrary: start)
  case (Cons c cs)
  then have "offset c + pending_len_len c \<le> n" "start \<le> offset c"
    by auto
  then show ?case by simp
qed simp

lemma frames_ok_mono: "frames_ok start cs n \<Longrightarrow> n \<le> m \<Longrightarrow> frames_ok start cs m"
  by (induction cs arbitrary: start) auto

lemma frames_ok_weaken: "frames_ok start cs n \<Longrightarrow> start' \<le> start \<Longrightarrow> frames_ok start' cs n"
  by (cases cs) auto

lemma flush_buf_keeps:
  "frames_ok start cs (length bs) \<Longrightarrow>
    take start (flush_buf cs bs) = take start bs \<and> start \<le> length (flush_buf cs bs)"
proof (induction cs arbitrary: start)
  case Nil
  then show ?case by simp
next
  case (Cons c cs)
  let ?start = "offset c + pending_len_len c"
  have ok: "frames_ok ?start cs (length bs)" "start \<le> offset c"
    using Cons.prems by auto
  then have "take ?start (flush_buf cs bs) = take ?start bs" "?start \<le> length (flush_buf cs bs)"
    using Cons.IH by auto
  then have "take (min start ?start) (flush_buf cs bs) = take (min start ?start) bs"
    by (metis take_take)
  then have "take start (flush_buf cs bs) = take start bs"
    using ok(2) by simp
  with ok(2) \<open>?start \<le> length (flush_buf cs bs)\<close> show ?case
    by (simp add: Let_def)
qed

lemma cbb_asn1_len_eq:
  assumes "len \<le> 0xfffffffe"
  shows "cbb_asn1_len len =
    (if len < 128 then (1, of_nat len, 0) else (Suc (der_len_len len), of_nat (128 + der_len_len len), len))"
  using assms by (auto simp: cbb_asn1_len_def der_len_len_def)

text \<open>Writing the prefix in place of the reserved octets, with and without a move.\<close>

lemma write_prefix_fixed:
  assumes "off + n \<le> length bs" and "n \<le> 8" and "length bs \<le> SIZE_MAX"
    and "bs' = drop (off + n) bs"
  shows "store_be bs off n (of_nat (length bs')) =
    (take off bs @ be_bytes n (length bs') @ bs', drop_bit (8 * n) (of_nat (length bs')))"
proof -
  have "length bs' \<le> SIZE_MAX"
    using assms(3,4) by simp
  then have "unat (of_nat (length bs') :: u64) = length bs'"
    by (simp only: unat_of_nat) (simp add: SIZE_MAX_def)
  with assms(1,4) show ?thesis
    by (simp add: store_be_eq mem_copy_def)
qed

lemma write_prefix_moved:
  assumes k: "k = der_len_len n" and n: "n = length contents" "128 \<le> n" "n \<le> 0xfffffffe"
    and bs: "bs = pre @ [x] @ contents @ replicate k 0" and off: "off = length pre"
  shows "store_be ((mem_move (Suc off + k) (Suc off) n bs)[off := of_nat (128 + k)]) (Suc off) k (of_nat n)
    = (pre @ der_len n @ contents, 0)"
proof -
  have u: "unat (of_nat n :: u64) = n"
    using n(3) by (simp only: unat_of_nat) simp
  define mid where "mid = take k (contents @ replicate k (0::u8))"
  have mid: "length mid = k"
    by (simp add: mid_def)
  have "mem_move (Suc off + k) (Suc off) n bs = pre @ [x] @ mid @ contents"
    using n(1) off by (simp add: mem_move_def bs mid_def)
  then have "(mem_move (Suc off + k) (Suc off) n bs)[off := of_nat (128 + k)] =
      pre @ [of_nat (128 + k)] @ mid @ contents"
    by (simp add: off list_update_append)
  then have "store_be ((mem_move (Suc off + k) (Suc off) n bs)[off := of_nat (128 + k)]) (Suc off) k (of_nat n)
      = (pre @ [of_nat (128 + k)] @ be_bytes k n @ contents, drop_bit (8 * k) (of_nat n))"
    using mid by (simp add: store_be_eq mem_copy_def u off)
  moreover have "drop_bit (8 * k) (of_nat n :: u64) = 0"
    using n(3) der_len_len_fits [of n] by (simp add: drop_bit_8_eq_0_iff u k)
  ultimately show ?thesis
    using n(2) by (simp add: der_len_def k)
qed

text \<open>One level of the flush, once the inner chain has been flushed into \<open>b1\<close>.\<close>

lemma cbb_flush_level:
  assumes inner: "cbb_flush cs b = (True, [], b1)"
    and err: "\<not> error b" "\<not> error b1" and ok: "buffer_ok b1"
    and c: "1 \<le> pending_len_len c" "pending_len_len c \<le> 3" "pending_is_asn1 c \<longrightarrow> pending_len_len c = 1"
    and start: "offset c + pending_len_len c \<le> length (buf b1)"
    and contents: "contents = drop (offset c + pending_len_len c) (buf b1)"
  shows "case cbb_flush (c # cs) b of
      (True, cs', b') \<Rightarrow> cs' = [] \<and> prefix_fits c (length contents) \<and>
        buf b' = take (offset c) (buf b1) @ prefix_bytes c (length contents) @ contents \<and>
        error b' = error b1 \<and> can_resize b' = can_resize b1 \<and> alloc b' = alloc b1 \<and> buffer_ok b'
    | (False, cs', b') \<Rightarrow> error b' \<and> (buffer_roomy 4 b1 \<longrightarrow> \<not> prefix_fits c (length contents))"
proof -
  let ?pll = "pending_len_len c" and ?n = "length contents"
  have n: "length (buf b1) - (offset c + ?pll) = ?n"
    by (simp add: contents)
  have total: "offset c + ?pll + ?n = length (buf b1)"
    using start n by linarith
  have max: "length (buf b1) \<le> SIZE_MAX" "?n \<le> SIZE_MAX"
    using ok n unfolding buffer_ok_def by linarith+
  have sum: "size_add (offset c) ?pll = offset c + ?pll"
    using start max(1) by (intro size_add_no_wrap) simp
  have u: "unat (of_nat ?n :: u64) = ?n"
    using max(2) by (simp only: unat_of_nat) (simp add: SIZE_MAX_def)
  have split: "buf b1 = take (offset c + ?pll) (buf b1) @ contents"
    by (simp add: contents)
  show ?thesis
  proof (cases "pending_is_asn1 c")
    case False
    have "store_be (buf b1) (offset c) ?pll (of_nat ?n) =
        (take (offset c) (buf b1) @ be_bytes ?pll ?n @ contents, drop_bit (8 * ?pll) (of_nat ?n))"
      using start max(1) contents c(2) by (intro write_prefix_fixed) simp_all
    then have eq: "cbb_flush (c # cs) b =
       (let b' = b1\<lparr>buf := take (offset c) (buf b1) @ be_bytes ?pll ?n @ contents\<rparr>
        in if ?n < 256 ^ ?pll then (True, [], b') else (False, [c], b'\<lparr>error := True\<rparr>))"
      using False c(1) start err inner n
      by (simp add: sum cbb_write_prefix_def drop_bit_8_eq_0_iff u Let_def)
    show ?thesis
      unfolding eq
      using False ok total start by (simp add: Let_def prefix_fits_def prefix_bytes_def buffer_ok_def)
  next
    case True
    with c(3) have pll: "?pll = 1" by simp
    with sum have sum1: "size_add (offset c) (Suc 0) = Suc (offset c)" by simp
    show ?thesis
    proof (cases "?n > 0xfffffffe")
      case big: True
      with True pll err inner n start show ?thesis
        by (simp add: sum1 Let_def prefix_fits_def)
    next
      case fits: False
      show ?thesis
      proof (cases "?n < 128")
        case short: True
        have "(buf b1)[offset c := of_nat ?n] = take (offset c) (buf b1) @ of_nat ?n # contents"
          using start pll contents by (simp add: upd_conv_take_nth_drop)
        with short True fits pll err inner n start show ?thesis
          using ok total by (simp add: sum1 Let_def prefix_fits_def cbb_asn1_len_eq cbb_write_prefix_def
              prefix_bytes_def der_len_def buffer_ok_def)
      next
        case long: False
        define k where "k = der_len_len ?n"
        have k: "1 \<le> k" "k \<le> 4"
          by (simp_all only: k_def der_len_len_bounds)
        obtain ok2 b2 where add: "cbb_buffer_add (replicate k 0) b1 = (ok2, b2)"
          by (cases "cbb_buffer_add (replicate k 0) b1")
        have eq: "cbb_flush (c # cs) b =
          (if \<not> ok2 then (False, [c], b2\<lparr>error := True\<rparr>)
           else cbb_write_prefix (c\<lparr>offset := Suc (offset c), pending_len_len := k\<rparr>) [] ?n
             (b2\<lparr>buf := (mem_move (Suc (offset c) + k) (Suc (offset c)) ?n (buf b2))
                [offset c := of_nat (128 + k)]\<rparr>))"
          using True fits long pll err inner n start k(1) add
          by (simp add: sum1 Let_def cbb_asn1_len_eq split: bool.splits flip: k_def)
        show ?thesis
        proof (cases ok2)
          case False
          have "\<not> buffer_roomy 4 b1"
          proof
            assume "buffer_roomy 4 b1"
            then have "buffer_roomy (length (replicate k 0)) b1"
              using k(2) by (simp add: buffer_roomy_def)
            then show False
              using cbb_buffer_add_roomy [of "replicate k 0" b1] add False by simp
          qed
          with False eq show ?thesis by simp
        next
          case ok2: True
          have b2: "buffer_wrote (replicate k 0) b1 b2"
            using add ok2 ok k(2) by (intro cbb_buffer_add_ok) (simp_all add: SIZE_MAX_def)
          obtain x where x: "take (Suc (offset c)) (buf b1) = take (offset c) (buf b1) @ [x]"
            using start pll by (metis Suc_le_eq Suc_eq_plus1 take_Suc_conv_app_nth)
          have "store_be ((mem_move (Suc (offset c) + k) (Suc (offset c)) ?n (buf b2))
                [offset c := of_nat (128 + k)]) (Suc (offset c)) k (of_nat ?n)
              = (take (offset c) (buf b1) @ der_len ?n @ contents, 0)"
          proof (rule write_prefix_moved [OF k_def refl])
            show "buf b2 = take (offset c) (buf b1) @ [x] @ contents @ replicate k 0"
              using b2 split x pll by (simp add: buffer_wrote_def)
          qed (use long fits start pll in simp_all)
          with eq ok2 have "cbb_flush (c # cs) b =
              (True, [], b2\<lparr>buf := take (offset c) (buf b1) @ der_len ?n @ contents\<rparr>)"
            by (simp add: cbb_write_prefix_def)
          moreover have "length (buf b2) = length (take (offset c) (buf b1) @ der_len ?n @ contents)"
            using b2 split x pll long start
            by (simp add: buffer_wrote_def length_der_len flip: k_def) (simp add: contents)
          ultimately show ?thesis
            using b2 True fits by (simp add: buffer_wrote_def prefix_fits_def prefix_bytes_def buffer_ok_def)
        qed
      qed
    qed
  qed
qed

lemma cbb_flush_error: "error b \<Longrightarrow> cbb_flush cs b = (False, cs, b)"
  by (cases cs) auto

text \<open>The whole chain: on success the buffer is \<open>flush_buf\<close> of what it was and no child is left.\<close>

lemma cbb_flush_sound:
  assumes "cbb_flush cs b = (True, cs', b')" and "frames_ok start cs (length (buf b))" and "buffer_ok b"
  shows "cs' = [] \<and> buf b' = flush_buf cs (buf b) \<and> flush_fits cs (buf b) \<and> \<not> error b \<and> \<not> error b' \<and>
    can_resize b' = can_resize b \<and> alloc b' = alloc b \<and> buffer_ok b'"
  using assms
proof (induction cs arbitrary: start cs' b')
  case Nil
  then show ?case by auto
next
  case (Cons c cs)
  have err: "\<not> error b"
    using Cons.prems(1) by (auto split: if_splits)
  have c: "1 \<le> pending_len_len c" "pending_len_len c \<le> 3" "pending_is_asn1 c \<longrightarrow> pending_len_len c = 1"
    and fr: "frames_ok (offset c + pending_len_len c) cs (length (buf b))"
    using Cons.prems(2) by auto
  obtain cs1 b1 where inner: "cbb_flush cs b = (True, cs1, b1)"
    using Cons.prems(1) err c(1) by (auto simp: Let_def split: prod.splits if_splits)
  note IH = Cons.IH [OF inner fr Cons.prems(3)]
  have start: "offset c + pending_len_len c \<le> length (buf b1)"
    using flush_buf_keeps [OF fr] IH by simp
  show ?case
    using cbb_flush_level [OF _ err _ _ c start refl, of cs] inner IH Cons.prems(1)
    by (auto simp: Let_def)
qed

text \<open>Failure of a builder that can grow means that a length does not fit.\<close>

lemma cbb_flush_complete:
  assumes "flush_fits cs (buf b)" and "\<not> error b" and "frames_ok start cs (length (buf b))"
    and "buffer_ok b" and "buffer_roomy (4 * length cs) b"
  shows "\<exists>b'. cbb_flush cs b = (True, [], b') \<and> length (buf b') \<le> length (buf b) + 4 * length cs"
  using assms
proof (induction cs arbitrary: start)
  case Nil
  then show ?case by simp
next
  case (Cons c cs)
  have c: "1 \<le> pending_len_len c" "pending_len_len c \<le> 3" "pending_is_asn1 c \<longrightarrow> pending_len_len c = 1"
    and fr: "frames_ok (offset c + pending_len_len c) cs (length (buf b))"
    using Cons.prems(3) by auto
  have room: "buffer_roomy (4 * length cs) b"
    using Cons.prems(5) by (simp add: buffer_roomy_def)
  obtain b1 where inner: "cbb_flush cs b = (True, [], b1)" "length (buf b1) \<le> length (buf b) + 4 * length cs"
    using Cons.IH [OF _ Cons.prems(2) fr Cons.prems(4) room] Cons.prems(1) by auto
  note s = cbb_flush_sound [OF inner(1) fr Cons.prems(4)]
  have start: "offset c + pending_len_len c \<le> length (buf b1)"
    using flush_buf_keeps [OF fr] s by simp
  let ?contents = "drop (offset c + pending_len_len c) (buf b1)"
  have fits: "prefix_fits c (length ?contents)"
    using Cons.prems(1) s by simp
  have roomy: "buffer_roomy 4 b1"
    using Cons.prems(5) s inner(2) by (simp add: buffer_roomy_def)
  obtain b' where b': "cbb_flush (c # cs) b = (True, [], b')"
    and buf': "buf b' = take (offset c) (buf b1) @ prefix_bytes c (length ?contents) @ ?contents"
    using cbb_flush_level [OF inner(1) Cons.prems(2) _ _ c start refl] s fits roomy
    by (cases "cbb_flush (c # cs) b") (auto split: bool.splits)
  have "length (prefix_bytes c (length ?contents)) \<le> pending_len_len c + 4"
    using c(1,3) der_len_len_bounds(2) [of "length ?contents"]
    by (auto simp: prefix_bytes_def length_der_len)
  then have "length (buf b') \<le> length (buf b1) + 4"
    using start by (simp add: buf')
  with b' inner(2) show ?case by simp
qed

section \<open>Builders\<close>

text \<open>\<open>cbb_at d s\<close>: the builder is usable, the \<open>CBB\<close> at position \<open>d\<close> is the innermost one.\<close>

definition cbb_buf :: "cbb \<Rightarrow> bytes" where
  "cbb_buf s = (case base s of None \<Rightarrow> [] | Some b \<Rightarrow> buf b)"

definition cbb_ok :: "cbb \<Rightarrow> bool" where
  "cbb_ok s \<longleftrightarrow> (\<exists>b. base s = Some b \<and> \<not> error b \<and> buffer_ok b \<and> frames_ok 0 (children s) (length (buf b)))"

definition cbb_at :: "nat \<Rightarrow> cbb \<Rightarrow> bool" where
  "cbb_at d s \<longleftrightarrow> cbb_ok s \<and> length (children s) = d"

text \<open>What a builder keeps over its life: whether it may grow, and the allocator.\<close>

definition cbb_env :: "cbb \<Rightarrow> (bool \<times> allocator) option" where
  "cbb_env s = map_option (\<lambda>b. (can_resize b, alloc b)) (base s)"

definition cbb_roomy :: "nat \<Rightarrow> cbb \<Rightarrow> bool" where
  "cbb_roomy n s \<longleftrightarrow> cbb_env s = Some (True, unlimited) \<and> length (cbb_buf s) + n \<le> SIZE_MAX"

text \<open>\<open>s'\<close> is \<open>s\<close> with \<open>data\<close> appended to the innermost \<open>CBB\<close>.\<close>

definition cbb_wrote :: "nat \<Rightarrow> bytes \<Rightarrow> cbb \<Rightarrow> cbb \<Rightarrow> bool" where
  "cbb_wrote d data s s' \<longleftrightarrow> cbb_at d s \<and> cbb_at d s' \<and> children s' = children s \<and>
     cbb_buf s' = cbb_buf s @ data \<and> cbb_env s' = cbb_env s"

lemma cbb_wrote_refl: "cbb_at d s \<Longrightarrow> cbb_wrote d [] s s"
  by (simp add: cbb_wrote_def)

lemma cbb_wrote_trans:
  "cbb_wrote d xs s1 s2 \<Longrightarrow> cbb_wrote d ys s2 s3 \<Longrightarrow> cbb_wrote d (xs @ ys) s1 s3"
  by (simp add: cbb_wrote_def)

lemma cbb_roomy_wrote:
  "cbb_wrote d xs s s' \<Longrightarrow> cbb_roomy (length xs + n) s \<Longrightarrow> cbb_roomy n s'"
  by (simp add: cbb_wrote_def cbb_roomy_def)

lemma CBB_flush_innermost:
  assumes "cbb_at d s"
  shows "CBB_flush d s = (True, s)"
proof -
  obtain b where "base s = Some b" "\<not> error b" "length (children s) = d"
    using assms by (auto simp: cbb_at_def cbb_ok_def)
  then show ?thesis
    by (simp add: CBB_flush_def)
qed

lemma cbb_then_innermost:
  assumes "cbb_at d s" and "base s = Some b"
  shows "cbb_then d f s = (let (ok, b') = f b in (ok, s\<lparr>base := Some b'\<rparr>))"
  using CBB_flush_innermost [OF assms(1)] assms(2) by (simp add: cbb_then_def)

lemma cbb_then_wrote:
  assumes "cbb_then d f s = (True, s')" and "cbb_at d s"
    and "\<And>b b'. f b = (True, b') \<Longrightarrow> buffer_ok b \<Longrightarrow> buffer_wrote data b b'"
  shows "cbb_wrote d data s s'"
proof -
  obtain b where b: "base s = Some b" "\<not> error b" "buffer_ok b"
    "frames_ok 0 (children s) (length (buf b))" "length (children s) = d"
    using assms(2) by (auto simp: cbb_at_def cbb_ok_def)
  obtain b' where "f b = (True, b')" "s' = s\<lparr>base := Some b'\<rparr>"
    using assms(1) cbb_then_innermost [OF assms(2) b(1), of f] by (auto split: prod.splits)
  moreover from this(1) have "buffer_wrote data b b'"
    using assms(3) b(3) by blast
  ultimately show ?thesis
    using b frames_ok_mono [OF b(4), of "length (buf b')"]
    by (auto simp: cbb_wrote_def cbb_at_def cbb_ok_def buffer_wrote_def cbb_buf_def cbb_env_def)
qed

lemma cbb_then_roomy:
  assumes "cbb_at d s" and "cbb_roomy n s"
    and "\<And>b. buffer_roomy n b \<Longrightarrow> \<exists>b'. f b = (True, b')"
  shows "\<exists>s'. cbb_then d f s = (True, s')"
proof -
  obtain b where b: "base s = Some b"
    using assms(1) by (auto simp: cbb_at_def cbb_ok_def)
  then have "buffer_roomy n b"
    using assms(2) by (simp add: cbb_roomy_def buffer_roomy_def cbb_env_def cbb_buf_def)
  then obtain b' where "f b = (True, b')"
    using assms(3) by blast
  then show ?thesis
    using cbb_then_innermost [OF assms(1) b, of f] by simp
qed

end
