(* ===== verification/Sink.thy ===== *)
theory Sink
  imports Prelude
begin

text \<open>
  The interface of an append-only byte writer, as its clients use it: a call that adds one byte
  and may fail, the relation ``this string was appended'', and the room that guarantees success.
  The loops of the encoders are proved against it once; \<open>Cbb_Write\<close> and \<open>Buf\<close> interpret it.
\<close>

text \<open>Writing a string byte by byte, stopping at the first failure, as the encoders' loops do.\<close>

fun put_all :: "(u8 \<Rightarrow> 's \<Rightarrow> bool \<times> 's) \<Rightarrow> bytes \<Rightarrow> 's \<Rightarrow> bool \<times> 's" where
  "put_all put [] s = (True, s)"
| "put_all put (b # bs) s = (case put b s of
     (False, s') \<Rightarrow> (False, s')
   | (True, s') \<Rightarrow> put_all put bs s')"

lemma put_all_append:
  "put_all put (xs @ ys) s = (case put_all put xs s of
     (False, s') \<Rightarrow> (False, s')
   | (True, s') \<Rightarrow> put_all put ys s')"
  by (induction xs arbitrary: s) (auto split: prod.splits bool.splits)

locale byte_sink =
  fixes put :: "u8 \<Rightarrow> 's \<Rightarrow> bool \<times> 's"
    and ready :: "'s \<Rightarrow> bool"
    and wrote :: "bytes \<Rightarrow> 's \<Rightarrow> 's \<Rightarrow> bool"
    and room :: "nat \<Rightarrow> 's \<Rightarrow> bool"
  assumes wrote_nothing: "ready s \<Longrightarrow> wrote [] s s"
    and wrote_more: "wrote xs s1 s2 \<Longrightarrow> wrote ys s2 s3 \<Longrightarrow> wrote (xs @ ys) s1 s3"
    and wrote_ready: "wrote xs s s' \<Longrightarrow> ready s'"
    and put_wrote: "ready s \<Longrightarrow> put b s = (True, s') \<Longrightarrow> wrote [b] s s'"
    and put_room: "ready s \<Longrightarrow> room 1 s \<Longrightarrow> \<exists>s'. put b s = (True, s')"
    and wrote_room: "wrote xs s s' \<Longrightarrow> room (length xs + n) s \<Longrightarrow> room n s'"
    and room_mono: "room n s \<Longrightarrow> m \<le> n \<Longrightarrow> room m s"
begin

lemma put_all_wrote: "ready s \<Longrightarrow> put_all put bs s = (True, s') \<Longrightarrow> wrote bs s s'"
proof (induction bs arbitrary: s)
  case Nil
  then show ?case by (simp add: wrote_nothing)
next
  case (Cons b bs)
  then obtain s1 where s1: "put b s = (True, s1)" "put_all put bs s1 = (True, s')"
    by (auto split: prod.splits bool.splits)
  then have "wrote [b] s s1"
    using Cons.prems(1) by (intro put_wrote)
  moreover from this have "wrote bs s1 s'"
    using s1(2) by (intro Cons.IH) (rule wrote_ready)
  ultimately show ?case
    using wrote_more [of "[b]" s s1 bs s'] by simp
qed

lemma put_all_succeeds:
  "ready s \<Longrightarrow> room (length bs) s \<Longrightarrow> \<exists>s'. put_all put bs s = (True, s')"
proof (induction bs arbitrary: s)
  case Nil
  then show ?case by simp
next
  case (Cons b bs)
  then obtain s1 where s1: "put b s = (True, s1)"
    using put_room [of s b] room_mono [of "length (b # bs)" s 1] by auto
  then have w: "wrote [b] s s1"
    using Cons.prems(1) by (intro put_wrote)
  have "\<exists>s'. put_all put bs s1 = (True, s')"
    using wrote_room [OF w, of "length bs"] Cons.prems(2)
    by (intro Cons.IH wrote_ready [OF w]) simp
  with s1 show ?case by simp
qed

end

end
