(* ===== verification/Cbb_Write.thy ===== *)
theory Cbb_Write
  imports Cbb_Spec Sink
begin

unbundle bit_operations_syntax

text \<open>
  The writing operations of \<open>Cbb\<close>, one contract each: which bytes they append to the innermost
  \<open>CBB\<close> when they succeed, and that they succeed on a builder with room.  \<open>CBB_add_u8\<close>
  interprets \<open>byte_sink\<close>, so the encoders' loops reduce to the strings they write.
\<close>

section \<open>Plain data\<close>

lemma be_bytes_1: "be_bytes 1 (unat (ucast (v :: u8) :: u64)) = [v]"
  by simp

lemma CBB_add_bytes_wrote:
  "CBB_add_bytes d data s = (True, s') \<Longrightarrow> cbb_at d s \<Longrightarrow> length data \<le> SIZE_MAX \<Longrightarrow>
    cbb_wrote d data s s'"
  unfolding CBB_add_bytes_def by (erule cbb_then_wrote) (auto dest: cbb_buffer_add_ok)

lemma CBB_add_bytes_roomy:
  "cbb_at d s \<Longrightarrow> cbb_roomy (length data) s \<Longrightarrow> \<exists>s'. CBB_add_bytes d data s = (True, s')"
  unfolding CBB_add_bytes_def by (rule cbb_then_roomy [OF _ _ cbb_buffer_add_roomy])

lemma cbb_then_add_u_wrote:
  assumes "cbb_then d (cbb_buffer_add_u v n) s = (True, s')" and "cbb_at d s" and "0 < n" and "n \<le> 8"
  shows "cbb_wrote d (be_bytes n (unat v)) s s'"
  using assms(1,2) by (rule cbb_then_wrote) (use assms(3,4) cbb_buffer_add_u_ok in blast)

lemma cbb_then_add_u_roomy:
  assumes "cbb_at d s" and "cbb_roomy n s" and "unat v < 256 ^ n"
  shows "\<exists>s'. cbb_then d (cbb_buffer_add_u v n) s = (True, s')"
  by (rule cbb_then_roomy [OF assms(1,2)]) (rule cbb_buffer_add_u_roomy [OF _ assms(3)])

lemma CBB_add_u8_wrote:
  "CBB_add_u8 d v s = (True, s') \<Longrightarrow> cbb_at d s \<Longrightarrow> cbb_wrote d [v] s s'"
  using cbb_then_add_u_wrote [of d "ucast v" 1 s s'] by (simp only: CBB_add_u8_def be_bytes_1)

lemma CBB_add_u8_roomy:
  "cbb_at d s \<Longrightarrow> cbb_roomy 1 s \<Longrightarrow> \<exists>s'. CBB_add_u8 d v s = (True, s')"
  using cbb_then_add_u_roomy [of d s 1 "ucast v"] by (simp add: CBB_add_u8_def)

lemma CBB_add_u16_wrote:
  "CBB_add_u16 d v s = (True, s') \<Longrightarrow> cbb_at d s \<Longrightarrow> cbb_wrote d (be_bytes 2 (unat v)) s s'"
  using cbb_then_add_u_wrote [of d "ucast v" 2 s s'] by (simp add: CBB_add_u16_def)

lemma CBB_add_u24_wrote:
  "CBB_add_u24 d v s = (True, s') \<Longrightarrow> cbb_at d s \<Longrightarrow>
    cbb_wrote d (be_bytes 3 (unat v)) s s' \<and> unat v < 256 ^ 3"
proof -
  assume a: "CBB_add_u24 d v s = (True, s')" "cbb_at d s"
  obtain b where b: "base s = Some b" "buffer_ok b"
    using a(2) by (auto simp: cbb_at_def cbb_ok_def)
  then obtain b' where "cbb_buffer_add_u (ucast v) 3 b = (True, b')"
    using a by (auto simp: CBB_add_u24_def cbb_then_innermost [OF a(2) b(1)] split: prod.splits)
  from cbb_buffer_add_u_ok [OF this b(2)] show ?thesis
    using a cbb_then_add_u_wrote [of d "ucast v" 3 s s'] by (simp add: CBB_add_u24_def)
qed

lemma CBB_add_u32_wrote:
  "CBB_add_u32 d v s = (True, s') \<Longrightarrow> cbb_at d s \<Longrightarrow> cbb_wrote d (be_bytes 4 (unat v)) s s'"
  using cbb_then_add_u_wrote [of d "ucast v" 4 s s'] by (simp add: CBB_add_u32_def)

lemma CBB_add_u64_wrote:
  "CBB_add_u64 d v s = (True, s') \<Longrightarrow> cbb_at d s \<Longrightarrow> cbb_wrote d (be_bytes 8 (unat v)) s s'"
  using cbb_then_add_u_wrote [of d v 8 s s'] by (simp add: CBB_add_u64_def)

interpretation cbb_sink: byte_sink "CBB_add_u8 d" "cbb_at d" "cbb_wrote d" cbb_roomy for d
proof
  show "cbb_roomy m s" if "cbb_roomy n s" "m \<le> n" for n m s
    using that by (simp add: cbb_roomy_def)
  show "cbb_at d s'" if "cbb_wrote d xs s s'" for xs s s'
    using that by (simp add: cbb_wrote_def)
qed (blast intro: cbb_wrote_refl cbb_wrote_trans CBB_add_u8_wrote CBB_add_u8_roomy cbb_roomy_wrote)+

section \<open>Base-128 digits\<close>

lemma base128_len_len_eq: "base128_len_len v k = length (base128_hi (unat v)) + k"
proof (induction v k rule: base128_len_len.induct)
  case (1 v k)
  have d: "unat (drop_bit 7 v) = unat v div 128"
    by (simp only: unat_drop_bit_div) simp
  show ?case
  proof (cases "v > 0")
    case True
    then have "unat v \<noteq> 0"
      by (simp add: word_less_nat_alt)
    then have "length (base128_hi (unat v)) = Suc (length (base128_hi (unat v div 128)))"
      by (subst base128_hi.simps) simp
    with True "1.IH" d show ?thesis
      by (simp add: base128_len_len.simps [of v])
  next
    case False
    then have "v = 0"
      by (metis word_gt_0)
    then show ?thesis
      by (simp add: base128_len_len.simps)
  qed
qed

text \<open>Digit \<open>i\<close> as the loop computes it, and the whole string.\<close>

definition base128_digit :: "u64 \<Rightarrow> nat \<Rightarrow> u8" where
  "base128_digit v i =
     (let byte = ucast (drop_bit (7 * i) v AND 0x7f) :: u8 in if i \<noteq> 0 then byte OR 0x80 else byte)"

lemma base128_digit_eq:
  "base128_digit v i = of_nat (unat v div 128 ^ i mod 128 + (if i \<noteq> 0 then 128 else 0))"
proof -
  let ?d = "unat v div 128 ^ i mod 128"
  have "drop_bit (7 * i) v AND 0x7f = take_bit 7 (drop_bit (7 * i) v)"
    by (simp add: take_bit_eq_mask mask_eq_exp_minus_1)
  then have "unat (drop_bit (7 * i) v AND 0x7f) = ?d"
    by (simp only: unsigned_take_bit_eq unat_drop_bit_div power_mult) (simp add: take_bit_eq_mod)
  moreover have "?d mod 2 ^ LENGTH(8) = ?d"
    by (rule mod_less) (rule order_less_trans [of _ 128], simp_all)
  ultimately have "unat (ucast (drop_bit (7 * i) v AND 0x7f) :: u8) = ?d"
    by (simp only: unat_ucast_down)
  then have "(ucast (drop_bit (7 * i) v AND 0x7f) :: u8) = of_nat ?d"
    by (rule word_of_nat_eqI)
  then show ?thesis
    using or_0x80 [of ?d] by (simp add: base128_digit_def)
qed

lemma base128_hi_digits:
  "base128_hi n = map (\<lambda>i. of_nat (n div 128 ^ i mod 128 + 128)) (rev [0..<length (base128_hi n)])"
proof (induction n rule: base128_hi.induct)
  case (1 n)
  show ?case
  proof (cases "n = 0")
    case False
    define m where "m = length (base128_hi (n div 128))"
    have hi: "base128_hi n = base128_hi (n div 128) @ [of_nat (n mod 128 + 128)]"
      using False by (subst base128_hi.simps) simp
    have "rev [0..<Suc m] = map Suc (rev [0..<m]) @ [0]"
      by (simp add: upt_conv_Cons map_Suc_upt flip: rev_map)
    moreover have "base128_hi (n div 128) =
        map ((\<lambda>i. of_nat (n div 128 ^ i mod 128 + 128)) \<circ> Suc) (rev [0..<m])"
      by (subst "1.IH" [OF False]) (simp add: m_def o_def div_mult2_eq del: of_nat_add)
    ultimately have "map (\<lambda>i. of_nat (n div 128 ^ i mod 128 + 128)) (rev [0..<Suc m]) = base128_hi n"
      by (simp add: hi del: of_nat_add upt_Suc)
    moreover have "length (base128_hi n) = Suc m"
      by (simp add: hi m_def)
    ultimately show ?thesis by simp
  qed simp
qed

lemma base128_digits:
  assumes "n = Suc (length (base128_hi (unat v div 128)))"
  shows "map (base128_digit v) (rev [0..<n]) = base128 (unat v)"
proof -
  define m where "m = length (base128_hi (unat v div 128))"
  have "rev [0..<Suc m] = map Suc (rev [0..<m]) @ [0]"
    by (simp add: upt_conv_Cons map_Suc_upt flip: rev_map)
  moreover have "map (base128_digit v \<circ> Suc) (rev [0..<m]) = base128_hi (unat v div 128)"
    by (subst base128_hi_digits) (simp add: m_def o_def base128_digit_eq div_mult2_eq del: of_nat_add)
  ultimately show ?thesis
    unfolding assms m_def [symmetric]
    by (simp add: base128_def base128_digit_eq del: of_nat_add upt_Suc)
qed

lemma add_base128_loop_put_all:
  "add_base128_loop d n v s = put_all (CBB_add_u8 d) (map (base128_digit v) (rev [0..<n])) s"
  by (induction n arbitrary: s) (auto simp: base128_digit_def Let_def split: bool.splits prod.splits)

lemma add_base128_integer_eq:
  "add_base128_integer d v s = put_all (CBB_add_u8 d) (base128 (unat v)) s"
proof -
  have "(if base128_len_len v 0 = 0 then 1 else base128_len_len v 0) =
      Suc (length (base128_hi (unat v div 128)))"
    using base128_hi.simps [of "unat v"] by (cases "unat v = 0") (simp_all add: base128_len_len_eq)
  then show ?thesis
    unfolding add_base128_integer_def Let_def
    by (simp only: add_base128_loop_put_all base128_digits [OF refl])
qed

section \<open>Opening and closing an element\<close>

lemma or_low5: "c < 8 \<Longrightarrow> n < 32 \<Longrightarrow> (of_nat (c * 32) OR of_nat n :: u8) = of_nat (c * 32 + n)"
proof -
  assume cn: "c < 8" "n < 32"
  then have u: "unat (of_nat n :: u8) = n"
    by (simp only: unat_of_nat) simp
  have "(of_nat (c * 32) :: u8) = push_bit 5 (of_nat c)"
    by (simp add: push_bit_eq_mult)
  then show ?thesis
    using push_bit_or_plus [of "of_nat n :: u8" 5 "of_nat c"] cn(2) by (simp add: u push_bit_eq_mult)
qed

lemma tag_bits_eq: "(ucast (drop_bit 24 t AND 0xe0) :: u8) = of_nat (unat t div 2 ^ 29 * 32)" for t :: u32
proof (rule word_of_nat_eqI)
  have d: "unat (drop_bit 24 t) = unat t div 2 ^ 24"
    by (rule unat_drop_bit_div)
  have t: "unat t < 2 ^ 32"
    using unsigned_less [of t, where ?'a = nat] by simp
  then have "unat t div 2 ^ 24 < 256"
    by (simp add: less_mult_imp_div_less)
  then have "(ucast (ucast (drop_bit 24 t) :: u8) :: u32) = drop_bit 24 t"
    by (simp add: word_unat_eq_iff unat_ucast_down d del: unat_drop_bit_div)
  then have "unat (drop_bit 24 t AND 0xe0) = unat (ucast (drop_bit 24 t) :: u8) div 32 * 32"
    using unat_and_0xe0 [of "ucast (drop_bit 24 t)"] by simp
  also have "\<dots> = unat t div 2 ^ 29 * 32"
    using \<open>unat t div 2 ^ 24 < 256\<close> by (simp add: unat_ucast_down d div_mult2_eq [symmetric])
  finally have eq: "unat (drop_bit 24 t AND 0xe0) = unat t div 2 ^ 29 * 32" .
  have "unat t div 2 ^ 29 < 8"
    using t by (simp add: less_mult_imp_div_less)
  then show "unat (ucast (drop_bit 24 t AND 0xe0) :: u8) = unat t div 2 ^ 29 * 32"
    by (simp only: unat_ucast_down eq) simp
qed

lemma tag_number_eq: "unat (t AND CBS_ASN1_TAG_NUMBER_MASK) = unat t mod 2 ^ 29"
proof -
  have "CBS_ASN1_TAG_NUMBER_MASK = mask 29"
    by (simp add: CBS_ASN1_TAG_NUMBER_MASK_def mask_eq_exp_minus_1)
  then have "t AND CBS_ASN1_TAG_NUMBER_MASK = take_bit 29 t"
    by (simp only: take_bit_eq_mask)
  then show ?thesis
    by (simp only: unsigned_take_bit_eq) (simp add: take_bit_eq_mod)
qed

text \<open>\<open>CBB_add_asn1\<close> writes the identifier octets and a reserved length octet.\<close>

lemma CBB_add_asn1_eq:
  assumes "cbb_at d s"
  shows "CBB_add_asn1 d tag s = (case put_all (CBB_add_u8 d) (asn1_tag_bytes tag) s of
     (False, s2) \<Rightarrow> (False, s2)
   | (True, s2) \<Rightarrow> (case CBB_add_u8 d 0 s2 of
       (False, s3) \<Rightarrow> (False, s3)
     | (True, s3) \<Rightarrow> (True, cbb_push_child d
         \<lparr>offset = length (cbb_buf s2), pending_len_len = 1, pending_is_asn1 = True\<rparr> s3)))"
proof -
  let ?c = "unat tag div 2 ^ 29" and ?n = "unat tag mod 2 ^ 29"
  have c: "?c < 8"
    using unsigned_less [of tag, where ?'a = nat] by (simp add: less_mult_imp_div_less)
  have low: "(of_nat (?c * 32) OR ucast (tag AND CBS_ASN1_TAG_NUMBER_MASK) :: u8) = of_nat (?c * 32 + ?n)"
    if "?n < 31"
  proof -
    have "(ucast (tag AND CBS_ASN1_TAG_NUMBER_MASK) :: u8) = of_nat ?n"
      using that by (intro word_of_nat_eqI) (simp only: unat_ucast_down tag_number_eq, simp)
    then show ?thesis
      using or_low5 [OF c, of ?n] that by (simp del: of_nat_add of_nat_mult)
  qed
  have high: "(of_nat (?c * 32) OR 0x1f :: u8) = of_nat (?c * 32 + 31)"
    using or_low5 [OF c, of 31] by (simp del: of_nat_add of_nat_mult)
  have big: "tag AND CBS_ASN1_TAG_NUMBER_MASK \<ge> 0x1f \<longleftrightarrow> \<not> ?n < 31"
    by (simp only: word_le_nat_alt tag_number_eq) auto
  have "(if tag AND CBS_ASN1_TAG_NUMBER_MASK \<ge> 0x1f
         then (case CBB_add_u8 d (of_nat (?c * 32) OR 0x1f) s of
                 (False, s2) \<Rightarrow> (False, s2)
               | (True, s2) \<Rightarrow> add_base128_integer d (ucast (tag AND CBS_ASN1_TAG_NUMBER_MASK)) s2)
         else CBB_add_u8 d (of_nat (?c * 32) OR ucast (tag AND CBS_ASN1_TAG_NUMBER_MASK)) s) =
      put_all (CBB_add_u8 d) (asn1_tag_bytes tag) s"
  proof (cases "?n < 31")
    case True
    then show ?thesis
      by (simp only: big low [OF True] asn1_tag_bytes_def Let_def) (simp split: prod.splits bool.splits)
  next
    case False
    have "unat (ucast (tag AND CBS_ASN1_TAG_NUMBER_MASK) :: u64) = ?n"
      by (simp only: unat_ucast_u32 tag_number_eq)
    with False show ?thesis
      by (simp only: big high asn1_tag_bytes_def Let_def add_base128_integer_eq) (simp split: prod.splits bool.splits)
  qed
  moreover have "(case base s2 of None \<Rightarrow> 0 | Some b \<Rightarrow> length (buf b)) = length (cbb_buf s2)" for s2
    by (simp add: cbb_buf_def split: option.splits)
  ultimately show ?thesis
    unfolding CBB_add_asn1_def Let_def tag_bits_eq CBB_flush_innermost [OF assms]
    by (simp split: prod.splits bool.splits del: of_nat_mult)
qed

text \<open>\<open>s'\<close> is \<open>s\<close> with an element of the given tag open, and nothing in it yet.\<close>

definition cbb_opened :: "nat \<Rightarrow> u32 \<Rightarrow> cbb \<Rightarrow> cbb \<Rightarrow> bool" where
  "cbb_opened d tag s s' \<longleftrightarrow> cbb_at d s \<and> cbb_at (Suc d) s' \<and> cbb_env s' = cbb_env s \<and>
     cbb_buf s' = cbb_buf s @ asn1_tag_bytes tag @ [0] \<and>
     children s' = children s @
       [\<lparr>offset = length (cbb_buf s @ asn1_tag_bytes tag), pending_len_len = 1, pending_is_asn1 = True\<rparr>]"

lemma frames_ok_snoc:
  "frames_ok start (cs @ [c]) n \<longleftrightarrow>
    frames_ok start cs (offset c) \<and> 1 \<le> pending_len_len c \<and> pending_len_len c \<le> 3 \<and>
    (pending_is_asn1 c \<longrightarrow> pending_len_len c = 1) \<and> offset c + pending_len_len c \<le> n"
  by (induction cs arbitrary: start) auto

lemma cbb_at_length:
  "cbb_at d s \<longleftrightarrow> length (children s) = d \<and>
    (\<exists>b. base s = Some b \<and> \<not> error b \<and> buffer_ok b \<and> frames_ok 0 (children s) (length (cbb_buf s)))"
  by (auto simp: cbb_at_def cbb_ok_def cbb_buf_def)

lemma CBB_add_asn1_opened:
  assumes "CBB_add_asn1 d tag s = (True, s')" and "cbb_at d s"
  shows "cbb_opened d tag s s'"
proof -
  obtain s2 s3 where s2: "put_all (CBB_add_u8 d) (asn1_tag_bytes tag) s = (True, s2)"
    and s3: "CBB_add_u8 d 0 s2 = (True, s3)"
    and s': "s' = cbb_push_child d
       \<lparr>offset = length (cbb_buf s2), pending_len_len = 1, pending_is_asn1 = True\<rparr> s3"
    using assms(1) by (auto simp: CBB_add_asn1_eq [OF assms(2)] split: prod.splits bool.splits)
  have w2: "cbb_wrote d (asn1_tag_bytes tag) s s2"
    by (rule cbb_sink.put_all_wrote [OF assms(2) s2])
  have w3: "cbb_wrote d [0] s2 s3"
    using s3 w2 by (intro CBB_add_u8_wrote) (auto simp: cbb_wrote_def)
  have "frames_ok 0 (children s2) (length (cbb_buf s2))"
    using w2 by (auto simp: cbb_wrote_def cbb_at_length)
  then have "cbb_at (Suc d) s'"
    using w2 w3 by (auto simp: s' cbb_push_child_def cbb_wrote_def cbb_at_length frames_ok_snoc cbb_buf_def)
  then show ?thesis
    using w2 w3 by (auto simp: s' cbb_opened_def cbb_push_child_def cbb_wrote_def cbb_at_length cbb_buf_def cbb_env_def)
qed

lemma CBB_add_asn1_roomy:
  assumes "cbb_at d s" and "cbb_roomy (length (asn1_tag_bytes tag) + 1) s"
  shows "\<exists>s'. CBB_add_asn1 d tag s = (True, s')"
proof -
  obtain s2 where s2: "put_all (CBB_add_u8 d) (asn1_tag_bytes tag) s = (True, s2)"
    using cbb_sink.put_all_succeeds [OF assms(1), of "asn1_tag_bytes tag"] assms(2)
    by (auto simp: cbb_roomy_def)
  have w2: "cbb_wrote d (asn1_tag_bytes tag) s s2"
    by (rule cbb_sink.put_all_wrote [OF assms(1) s2])
  then obtain s3 where "CBB_add_u8 d 0 s2 = (True, s3)"
    using CBB_add_u8_roomy [of d s2] cbb_roomy_wrote [OF w2 assms(2)] by (auto simp: cbb_wrote_def)
  with s2 show ?thesis
    by (simp add: CBB_add_asn1_eq [OF assms(1)])
qed

text \<open>Flushing the parent after contents \<open>c\<close> leaves the DER element.\<close>

lemma cbb_close:
  assumes o: "cbb_opened d tag s s1" and w: "cbb_wrote (Suc d) c s1 s2" and f: "CBB_flush d s2 = (True, s3)"
  shows "cbb_wrote d (der_element tag c) s s3 \<and> length c \<le> 0xfffffffe"
proof -
  define fr where "fr = \<lparr>offset = length (cbb_buf s @ asn1_tag_bytes tag),
    pending_len_len = 1, pending_is_asn1 = True\<rparr>"
  obtain b2 where b2: "base s2 = Some b2" "buffer_ok b2" "\<not> error b2"
    and buf2: "buf b2 = cbb_buf s @ asn1_tag_bytes tag @ [0] @ c"
    and ch: "children s2 = children s @ [fr]" "length (children s) = d"
    using o w by (auto simp: cbb_opened_def cbb_wrote_def cbb_at_length cbb_buf_def fr_def)
  obtain cs' b3 where f3: "cbb_flush [fr] b2 = (True, cs', b3)"
    and s3: "s3 = s2\<lparr>base := Some b3, children := children s @ cs'\<rparr>"
    using f b2 ch by (auto simp: CBB_flush_def split: prod.splits)
  have "frames_ok 0 [fr] (length (buf b2))"
    by (simp add: fr_def buf2)
  note r = cbb_flush_sound [OF f3 this b2(2)]
  then have buf3: "buf b3 = cbb_buf s @ der_element tag c" and len: "length c \<le> 0xfffffffe"
    by (simp_all add: buf2 fr_def Let_def prefix_bytes_def prefix_fits_def der_element_def der_header_def)
  have "frames_ok 0 (children s) (length (cbb_buf s))"
    using o by (auto simp: cbb_opened_def cbb_at_length)
  then have "frames_ok 0 (children s) (length (buf b3))"
    unfolding buf3 by (rule frames_ok_mono) simp
  then have "cbb_at d s3"
    using conjunct1 [OF r] conjunct2 [OF r] ch(2) by (simp add: s3 cbb_at_def cbb_ok_def)
  then show ?thesis
    using r o w buf3 len b2 by (simp add: cbb_wrote_def cbb_opened_def s3 cbb_buf_def cbb_env_def)
qed

lemma cbb_close_roomy:
  assumes o: "cbb_opened d tag s s1" and w: "cbb_wrote (Suc d) c s1 s2"
    and room: "cbb_roomy 4 s2" and len: "length c \<le> 0xfffffffe"
  shows "\<exists>s3. CBB_flush d s2 = (True, s3)"
proof -
  define fr where "fr = \<lparr>offset = length (cbb_buf s @ asn1_tag_bytes tag),
    pending_len_len = 1, pending_is_asn1 = True\<rparr>"
  obtain b2 where b2: "base s2 = Some b2" "buffer_ok b2" "\<not> error b2"
    and buf2: "buf b2 = cbb_buf s @ asn1_tag_bytes tag @ [0] @ c"
    and ch: "children s2 = children s @ [fr]" "length (children s) = d"
    using o w by (auto simp: cbb_opened_def cbb_wrote_def cbb_at_length cbb_buf_def fr_def)
  have "frames_ok 0 [fr] (length (buf b2))" "flush_fits [fr] (buf b2)" "buffer_roomy (4 * length [fr]) b2"
    using len room b2(1)
    by (simp_all add: fr_def buf2 prefix_fits_def cbb_roomy_def cbb_env_def cbb_buf_def buffer_roomy_def)
  then obtain b3 where "cbb_flush [fr] b2 = (True, [], b3)"
    using cbb_flush_complete [of "[fr]" b2 0] b2 by blast
  then show ?thesis
    using b2(1) ch by (simp add: CBB_flush_def)
qed

end
