(* ===== verification/Der_Int.thy ===== *)
theory Der_Int
  imports Der
begin

unbundle bit_operations_syntax

text \<open>
  DER INTEGER, BOOLEAN and OCTET STRING contents.  \<open>der_int\<close> is the minimal two's complement
  string of an integer; \<open>CBS_get_asn1_uint64\<close>, \<open>CBS_get_asn1_int64\<close> and \<open>CBS_get_asn1_bool\<close> of
  \<open>Cbs\<close> accept exactly the elements with these contents.
\<close>

section \<open>Two's complement strings\<close>

function der_int :: "int \<Rightarrow> bytes" where
  "der_int i = (if -128 \<le> i \<and> i < 128 then [of_int i] else der_int (i div 256) @ [of_int (i mod 256)])"
  by pat_completeness auto
termination
  by (relation "measure (\<lambda>i. nat \<bar>i\<bar>)") (auto simp: abs_if)

declare der_int.simps [simp del]

text \<open>The value of a string, and the strings that have no redundant leading octet.\<close>

definition twos_val :: "bytes \<Rightarrow> int" where
  "twos_val bs = (if bs \<noteq> [] \<and> 128 \<le> uint (hd bs) then int (be_val bs) - 256 ^ length bs else int (be_val bs))"

definition der_minimal :: "bytes \<Rightarrow> bool" where
  "der_minimal bs \<longleftrightarrow> bs \<noteq> [] \<and>
     (length bs > 1 \<longrightarrow> \<not> (uint (bs ! 0) = 0 \<and> uint (bs ! 1) < 128) \<and>
        \<not> (uint (bs ! 0) = 255 \<and> 128 \<le> uint (bs ! 1)))"

lemma uint_u8_bounds: "- 1 < uint (x :: u8)" "uint (x :: u8) < 256"
  using unsigned_less [of x, where ?'a = int] unsigned_greater_eq [of x, where ?'a = int]
  by (simp_all only: word_size) simp_all
lemma twos_val_snoc: "xs \<noteq> [] \<Longrightarrow> twos_val (xs @ [x]) = twos_val xs * 256 + uint x"
  by (simp add: twos_val_def)

lemma twos_val_singleton: "twos_val [x] = (if 128 \<le> uint x then uint x - 256 else uint x)"
  by (simp add: twos_val_def)

lemma der_int_singleton: "der_int (twos_val [x]) = [x]"
proof -
  have "- 128 \<le> twos_val [x] \<and> twos_val [x] < 128"
    unfolding twos_val_singleton using uint_u8_bounds [of x] by (simp only: split: if_split) linarith
  moreover have "(of_int (twos_val [x]) :: u8) = x"
    by (simp add: twos_val_singleton)
  ultimately show ?thesis by (subst der_int.simps) simp
qed

lemma der_int_snoc:
  "\<not> (- 128 \<le> v * 256 + uint x \<and> v * 256 + uint x < 128) \<Longrightarrow>
    der_int (v * 256 + uint x) = der_int v @ [x]"
proof -
  assume a: "\<not> (- 128 \<le> v * 256 + uint x \<and> v * 256 + uint x < 128)"
  have "(v * 256 + uint x) div 256 = v" "(v * 256 + uint x) mod 256 = uint x"
    using uint_u8_bounds [of x] by simp_all
  then show ?thesis
    by (subst der_int.simps) (simp only: if_not_P [OF a] word_of_int_uint)
qed

lemma der_minimal_snoc: "length xs \<ge> 2 \<Longrightarrow> der_minimal (xs @ [x]) \<longleftrightarrow> der_minimal xs"
  by (auto simp: der_minimal_def nth_append)

lemma der_int_small: "der_int 0 = [0]" "der_int (- 1) = [255]"
  by (simp_all add: der_int.simps)

lemma der_int_twos_val: "der_minimal bs \<Longrightarrow> der_int (twos_val bs) = bs"
proof (induction bs rule: rev_induct)
  case Nil
  then show ?case by (simp add: der_minimal_def)
next
  case (snoc x xs)
  show ?case
  proof (cases "length xs \<ge> 2")
    case True
    then have m: "der_minimal xs"
      using snoc.prems by (simp add: der_minimal_snoc)
    have "twos_val xs \<noteq> 0 \<and> twos_val xs \<noteq> - 1"
    proof (rule ccontr)
      assume "\<not> ?thesis"
      then have "length (der_int (twos_val xs)) = 1"
        using der_int_small by auto
      with snoc.IH [OF m] True show False by simp
    qed
    then have "twos_val xs \<ge> 1 \<or> twos_val xs \<le> - 2"
      by linarith
    then have "\<not> (- 128 \<le> twos_val xs * 256 + uint x \<and> twos_val xs * 256 + uint x < 128)"
      using uint_u8_bounds [of x] by safe linarith+
    then have "der_int (twos_val xs * 256 + uint x) = xs @ [x]"
      using der_int_snoc [of "twos_val xs" x] snoc.IH [OF m] by simp
    moreover have "xs \<noteq> []"
      using True by auto
    ultimately show ?thesis by (simp add: twos_val_snoc)
  next
    case False
    show ?thesis
    proof (cases xs)
      case Nil
      then show ?thesis by (simp add: der_int_singleton)
    next
      case (Cons y ys)
      with False have xs: "xs = [y]" by (cases ys) auto
      have "\<not> (- 128 \<le> twos_val [y] * 256 + uint x \<and> twos_val [y] * 256 + uint x < 128)"
        using snoc.prems uint_u8_bounds [of x] uint_u8_bounds [of y]
        by (auto simp: der_minimal_def xs twos_val_singleton split: if_splits)
      then have "der_int (twos_val [y] * 256 + uint x) = xs @ [x]"
        using der_int_snoc [of "twos_val [y]" x] der_int_singleton [of y] xs by simp
      then show ?thesis by (simp add: xs twos_val_snoc [of "[y]", simplified])
    qed
  qed
qed

lemma der_int_correct: "der_minimal (der_int i) \<and> twos_val (der_int i) = i"
proof (induction i rule: der_int.induct)
  case (1 i)
  show ?case
  proof (cases "- 128 \<le> i \<and> i < 128")
    case True
    then have "i mod 256 = (if i < 0 then i + 256 else i)"
      using mod_pos_pos_trivial [of i 256] mod_pos_pos_trivial [of "i + 256" 256] by auto
    then have u: "uint (of_int i :: u8) = (if i < 0 then i + 256 else i)"
      by (simp only: uint_word_of_int) simp
    have eq: "der_int i = [of_int i]"
      by (subst der_int.simps) (simp only: if_P [OF True])
    have "twos_val [of_int i] = i"
      unfolding twos_val_singleton u using True by simp
    then show ?thesis
      by (simp add: eq der_minimal_def)
  next
    case False
    let ?d = "der_int (i div 256)" and ?x = "of_int (i mod 256) :: u8"
    have IH: "der_minimal ?d" "twos_val ?d = i div 256"
      using "1.IH" False by auto
    have eq: "der_int i = ?d @ [?x]"
      by (subst der_int.simps) (simp only: if_not_P [OF False])
    have x: "uint ?x = i mod 256"
      by (simp add: uint_word_of_int)
    have "?d \<noteq> []"
      using IH by (simp add: der_minimal_def)
    then have v: "twos_val (der_int i) = i"
      unfolding eq by (simp only: twos_val_snoc IH(2) x not_False_eq_True div_mult_mod_eq)
    have "der_minimal (der_int i)"
    proof (cases "length ?d \<ge> 2")
      case True
      then show ?thesis
        using IH by (simp add: eq der_minimal_snoc)
    next
      case short: False
      with \<open>?d \<noteq> []\<close> obtain y where y: "?d = [y]"
        by (metis One_nat_def length_0_conv length_Suc_conv less_2_cases not_le)
      define x where "x = ?x"
      have i: "i = twos_val [y] * 256 + uint x"
        using IH(2) y unfolding x_def by (simp add: uint_word_of_int)
      have "\<not> (- 128 \<le> twos_val [y] * 256 + uint x \<and> twos_val [y] * 256 + uint x < 128)"
        using False unfolding i [symmetric] .
      then have "\<not> (uint y = 0 \<and> uint x < 128)" "\<not> (uint y = 255 \<and> 128 \<le> uint x)"
        using uint_u8_bounds [of x] by (auto simp: twos_val_singleton)
      then have "der_minimal [y, x]"
        by (simp add: der_minimal_def)
      then show ?thesis
        by (simp add: eq y x_def)
    qed
    with v show ?thesis by simp
  qed
qed

lemma der_int_iff: "der_minimal bs \<and> twos_val bs = i \<longleftrightarrow> bs = der_int i"
  using der_int_twos_val [of bs] der_int_correct [of i] by (intro iffI) simp_all

lemma der_int_minimal [simp]: "der_minimal (der_int i)"
  and twos_val_der_int [simp]: "twos_val (der_int i) = i"
  using der_int_correct by simp_all

lemma der_int_nonempty [simp]: "der_int i \<noteq> []"
  using der_int_correct [of i] by (auto simp: der_minimal_def)

text \<open>The range of a string of \<open>n\<close> octets, and the number of octets of a value.\<close>

lemma twos_val_range:
  assumes "bs \<noteq> []"
  shows "- (256 ^ length bs) \<le> 2 * twos_val bs \<and> 2 * twos_val bs < 256 ^ length bs"
  using assms
proof (induction bs rule: rev_induct)
  case Nil
  then show ?case by simp
next
  case (snoc x xs)
  note x = uint_u8_bounds [of x]
  show ?case
  proof (cases "xs = []")
    case True
    then show ?thesis
      using x by (simp add: twos_val_singleton)
  next
    case False
    define v where "v = twos_val xs"
    have "even ((256::int) ^ length xs)"
      using False by simp
    then obtain m where m: "(256::int) ^ length xs = 2 * m"
      by (rule evenE)
    have "- (2 * m) \<le> 2 * v" "2 * v < 2 * m"
      using snoc.IH [OF False] by (simp_all only: m v_def)
    then have "- m \<le> v" "v + 1 \<le> m"
      by linarith+
    moreover have "- (512 * m) \<le> 2 * (v * 256 + b) \<and> 2 * (v * 256 + b) < 512 * m"
      if "- m \<le> v" "v + 1 \<le> m" "- 1 < b" "b < 256" for b
      using that by auto
    ultimately have "- (512 * m) \<le> 2 * (v * 256 + uint x) \<and> 2 * (v * 256 + uint x) < 512 * m"
      using x by blast
    then show ?thesis
      by (simp add: twos_val_snoc [OF False] m flip: v_def)
  qed
qed

lemma length_der_int:
  assumes "1 \<le> n"
  shows "length (der_int i) \<le> n \<longleftrightarrow> - (256 ^ n) \<le> 2 * i \<and> 2 * i < 256 ^ n"
proof
  assume le: "length (der_int i) \<le> n"
  have "(256::int) ^ length (der_int i) \<le> 256 ^ n"
    by (rule power_increasing [OF le]) simp
  moreover have "- (256 ^ length (der_int i)) \<le> 2 * i \<and> 2 * i < 256 ^ length (der_int i)"
    using twos_val_range [of "der_int i"] by simp
  ultimately show "- (256 ^ n) \<le> 2 * i \<and> 2 * i < 256 ^ n"
    by linarith
next
  show "length (der_int i) \<le> n" if "- (256 ^ n) \<le> 2 * i \<and> 2 * i < 256 ^ n"
    using assms that
  proof (induction n arbitrary: i)
    case 0
    then show ?case by simp
  next
    case (Suc n)
    show ?case
    proof (cases "- 128 \<le> i \<and> i < 128")
      case True
      then show ?thesis by (subst der_int.simps) simp
    next
      case False
      then have n: "n \<noteq> 0"
        using Suc.prems by (cases n) auto
      then have "even ((256::int) ^ n)"
        by simp
      then obtain m where m: "(256::int) ^ n = 2 * m"
        by (rule evenE)
      have "- (256 * m) \<le> i" "i < 256 * m"
        using Suc.prems(2) by (simp_all add: m)
      then have "- m \<le> i div 256" "i div 256 < m"
        by linarith+
      then have "- (256 ^ n) \<le> 2 * (i div 256) \<and> 2 * (i div 256) < 256 ^ n"
        unfolding m by linarith
      then have "length (der_int (i div 256)) \<le> n"
        using n by (intro Suc.IH) simp_all
      then show ?thesis
        by (subst der_int.simps) (simp only: if_not_P [OF False], simp)
    qed
  qed
qed

section \<open>CBS_get_asn1_uint64\<close>

lemma and_0x80_uint: "b AND 0x80 = 0 \<longleftrightarrow> uint b < 128" for b :: u8
proof -
  have "uint b = int (unat b)"
    by simp
  then show ?thesis
    unfolding and_0x80_iff by linarith
qed

lemma der_minimal_code:
  "der_minimal bs \<longleftrightarrow> bs \<noteq> [] \<and>
    \<not> (length bs > 1 \<and> (bs ! 0 = 0 \<and> bs ! 1 AND 0x80 = 0 \<or> bs ! 0 = 0xff \<and> bs ! 1 AND 0x80 \<noteq> 0))"
proof -
  have "bs ! 0 = 0xff \<longleftrightarrow> uint (bs ! 0) = 255" "bs ! 0 = 0 \<longleftrightarrow> uint (bs ! 0) = 0"
    by (simp_all add: word_uint_eq_iff)
  then show ?thesis
    unfolding der_minimal_def and_0x80_uint by auto
qed

lemma asn1_uint64_loop_eq:
  "n < 2 ^ 64 \<Longrightarrow> asn1_uint64_loop (of_nat n) data =
    (if n * 256 ^ length data + be_val data < 2 ^ 64
     then Some (of_nat (n * 256 ^ length data + be_val data)) else None)"
proof (induction data arbitrary: n)
  case Nil
  then show ?case by simp
next
  case (Cons d data)
  have u: "unat (of_nat n :: u64) = n"
    using Cons.prems by (simp only: unat_of_nat) simp
  have high: "drop_bit 56 (of_nat n :: u64) = 0 \<longleftrightarrow> n < 2 ^ 56"
    using drop_bit_8_eq_0_iff [of 7 "of_nat n :: u64", unfolded u] by simp
  let ?n = "n * 256 + unat d"
  have sum: "?n * 256 ^ length data + be_val data = n * 256 ^ length (d # data) + be_val (d # data)"
    by (simp add: be_val_Cons algebra_simps)
  show ?case
  proof (cases "n < 2 ^ 56")
    case True
    have n: "?n < 2 ^ 64"
    proof -
      have "n \<le> 72057594037927935"
        using True by simp
      then have "n * 256 + unat d < 18446744073709551616"
        using unat_u8_less [of d] by linarith
      then show ?thesis by simp
    qed
    have "push_bit 8 (of_nat n) OR ucast d = (of_nat ?n :: u64)"
      by (simp add: shift8_or)
    then show ?thesis
      using Cons.IH [OF n] True high sum by (simp del: of_nat_add of_nat_mult)
  next
    case False
    then have "2 ^ 56 * 256 ^ 1 \<le> n * 256 ^ length (d # data)"
      by (intro mult_le_mono power_increasing) simp_all
    with False high show ?thesis by simp
  qed
qed

lemma twos_val_nonneg: "bs \<noteq> [] \<Longrightarrow> uint (hd bs) < 128 \<Longrightarrow> twos_val bs = int (be_val bs)"
  by (simp add: twos_val_def)

lemma twos_val_neg_iff: "bs \<noteq> [] \<Longrightarrow> twos_val bs < 0 \<longleftrightarrow> 128 \<le> uint (hd bs)"
proof -
  assume "bs \<noteq> []"
  have "int (be_val bs) < int (256 ^ length bs)"
    using be_val_less by (simp only: of_nat_less_iff)
  then have "int (be_val bs) < 256 ^ length bs"
    by simp
  moreover have "0 \<le> int (be_val bs)"
    by simp
  ultimately show ?thesis
    unfolding twos_val_def using \<open>bs \<noteq> []\<close> by auto
qed

lemma CBS_get_asn1_uint64_contents:
  assumes "length c < 4294967296" and "s = der_element CBS_ASN1_INTEGER c @ r'"
  shows "CBS_get_asn1_uint64 s = (Some v, r) \<longleftrightarrow> r = r' \<and> c = der_int (int (unat v))"
proof -
  have eq: "CBS_get_asn1_uint64 s =
      (if c = [] \<or> c ! 0 AND 0x80 \<noteq> 0 \<or> c ! 0 = 0 \<and> length c > 1 \<and> c ! 1 AND 0x80 = 0
       then (None, r') else (asn1_uint64_loop 0 c, r'))"
    unfolding CBS_get_asn1_uint64_def assms(2) by (simp add: assms(1))
  have loop: "asn1_uint64_loop 0 c = (if be_val c < 2 ^ 64 then Some (of_nat (be_val c)) else None)"
    using asn1_uint64_loop_eq [of 0 c] by simp
  show ?thesis
  proof
    assume l: "CBS_get_asn1_uint64 s = (Some v, r)"
    then have c: "c \<noteq> []" "c ! 0 AND 0x80 = 0" "\<not> (c ! 0 = 0 \<and> length c > 1 \<and> c ! 1 AND 0x80 = 0)"
      and v: "be_val c < 2 ^ 64" "v = of_nat (be_val c)" "r = r'"
      unfolding eq loop by (auto split: if_splits)
    have "unat v = be_val c"
      using v(1) unfolding v(2) by (simp only: unat_of_nat) simp
    moreover have "twos_val c = int (be_val c)"
      using c(1,2) by (intro twos_val_nonneg) (simp_all add: and_0x80_uint hd_conv_nth)
    moreover have "der_minimal c"
      using c by (auto simp: der_minimal_code)
    ultimately show "r = r' \<and> c = der_int (int (unat v))"
      using v(3) der_int_twos_val [of c] by simp
  next
    assume "r = r' \<and> c = der_int (int (unat v))"
    then have r: "r = r'" and m: "der_minimal c" and tv: "twos_val c = int (unat v)"
      by auto
    have ne: "c \<noteq> []"
      using m by (simp add: der_minimal_def)
    have "\<not> twos_val c < 0"
      by (simp add: tv)
    then have hd: "uint (hd c) < 128"
      using twos_val_neg_iff [OF ne] by simp
    then have "int (be_val c) = int (unat v)"
      using twos_val_nonneg [OF ne] tv by (simp only:)
    then have "be_val c = unat v"
      by (simp only: of_nat_eq_iff)
    moreover have "unat v < 2 ^ 64"
      using unsigned_less [of v, where ?'a = nat] by simp
    ultimately have "asn1_uint64_loop 0 c = Some v"
      by (simp add: loop)
    moreover have "c ! 0 AND 0x80 = 0"
      using hd ne by (simp add: and_0x80_uint hd_conv_nth)
    moreover have "\<not> (c ! 0 = 0 \<and> length c > 1 \<and> c ! 1 AND 0x80 = 0)"
      using m unfolding der_minimal_code by blast
    ultimately show "CBS_get_asn1_uint64 s = (Some v, r)"
      unfolding eq using ne r by simp
  qed
qed

lemma CBS_get_asn1_uint64_iff:
  "CBS_get_asn1_uint64 s = (Some v, r) \<longleftrightarrow>
    s = der_element CBS_ASN1_INTEGER (der_int (int (unat v))) @ r"
proof
  assume l: "CBS_get_asn1_uint64 s = (Some v, r)"
  then obtain c r' where "CBS_get_asn1 CBS_ASN1_INTEGER s = (Some c, r')"
    by (auto simp: CBS_get_asn1_uint64_def split: prod.splits option.splits)
  then have "length c < 4294967296" "s = der_element CBS_ASN1_INTEGER c @ r'"
    by (simp_all add: CBS_get_asn1_iff)
  with l show "s = der_element CBS_ASN1_INTEGER (der_int (int (unat v))) @ r"
    using CBS_get_asn1_uint64_contents [of c s r' v r] by simp
next
  assume s: "s = der_element CBS_ASN1_INTEGER (der_int (int (unat v))) @ r"
  have "- (256 ^ 9) \<le> 2 * i \<and> 2 * i < 256 ^ 9" if "0 \<le> i" "i < 2 ^ 64" for i :: int
    using that by simp
  moreover have "0 \<le> int (unat v)" "int (unat v) < 2 ^ 64"
    using unsigned_less [of v, where ?'a = int] by simp_all
  ultimately have "length (der_int (int (unat v))) \<le> 9"
    by (simp only: length_der_int)
  then have "length (der_int (int (unat v))) < 4294967296"
    by simp
  from CBS_get_asn1_uint64_contents [OF this s] show "CBS_get_asn1_uint64 s = (Some v, r)"
    by simp
qed

interpretation asn1_uint64: codec_seq
    "\<lambda>v. der_element CBS_ASN1_INTEGER (der_int (int (unat v)))" CBS_get_asn1_uint64 "\<lambda>_. True"
  by unfold_locales (auto simp: CBS_get_asn1_uint64_iff der_element_def der_header_def)

section \<open>CBS_get_asn1_int64\<close>

text \<open>The little-endian load of the \<open>union\<close> reads the sign-extended contents.\<close>

lemma unat_le_load64_aux:
  "length bs \<le> 8 \<Longrightarrow> unat (foldr (\<lambda>b v. push_bit 8 v OR ucast b) bs (0 :: u64)) = be_val (rev bs)"
proof (induction bs)
  case Nil
  then show ?case by simp
next
  case (Cons b bs)
  let ?v = "foldr (\<lambda>b v. push_bit 8 v OR ucast b) bs (0 :: u64)"
  have v: "unat ?v = be_val (rev bs)"
    using Cons by simp
  have "be_val (rev bs) < 256 ^ length (rev bs)"
    by (rule be_val_less)
  also have "(256::nat) ^ length (rev bs) \<le> 256 ^ 7"
    using Cons.prems by (intro power_increasing) simp_all
  finally have small: "be_val (rev bs) \<le> 72057594037927935"
    by simp
  have "be_val (rev bs) * 256 + unat b < 18446744073709551616"
    using small unat_u8_less [of b] by linarith
  then have "unat (push_bit 8 ?v OR ucast b) = unat ?v * 2 ^ 8 + unat (ucast b :: u64)"
    by (intro unat_push_bit_or) (simp_all add: v)
  then show ?case
    by (simp add: v)
qed

lemma le_load64_eq: "length bs \<le> 8 \<Longrightarrow> le_load64 (rev bs) = of_nat (be_val bs)"
  using unat_le_load64_aux [of "rev bs"] by (intro word_of_nat_eqI) (simp add: le_load64_def)

text \<open>Sign extension keeps the value.\<close>

lemma twos_val_Cons_sign:
  assumes "bs \<noteq> []"
  shows "twos_val ((if uint (hd bs) < 128 then 0 else 255) # bs) = twos_val bs"
proof -
  have "uint (255 :: u8) = 255" "unat (255 :: u8) = 255"
    by simp_all
  with assms show ?thesis
    unfolding twos_val_def be_val_Cons by (auto simp: algebra_simps simp del: unsigned_numeral)
qed

lemma twos_val_extend:
  assumes "bs \<noteq> []"
  shows "twos_val (replicate n (if uint (hd bs) < 128 then 0 else 255) @ bs) = twos_val bs"
proof (induction n)
  case (Suc n)
  let ?x = "if uint (hd bs) < 128 then 0 else 255 :: u8"
  let ?ext = "replicate n ?x @ bs"
  have "(if uint (hd ?ext) < 128 then 0 else 255) = ?x"
    by (cases n) auto
  then show ?case
    using twos_val_Cons_sign [of ?ext] Suc assms by simp
qed simp

lemma sint_of_be_val:
  assumes "length bs = 8"
  shows "sint (of_nat (be_val bs) :: u64) = twos_val bs"
proof -
  have u: "uint (of_nat (be_val bs) :: u64) = int (be_val bs)"
    using unat_of_be_val [of bs] assms by (metis order_refl uint_nat)
  have r: "- (256 ^ 8) \<le> 2 * twos_val bs \<and> 2 * twos_val bs < 256 ^ 8"
    using twos_val_range [of bs] assms by (cases bs) auto
  have "(of_nat (be_val bs) :: u64) = of_int (twos_val bs)"
    using assms by (simp add: twos_val_def)
  then have "sint (of_nat (be_val bs) :: u64) = signed_take_bit 63 (twos_val bs)"
    by (simp add: signed_of_int)
  also have "\<dots> = twos_val bs"
    using r by (intro signed_take_bit_int_eq_self) simp_all
  finally show ?thesis .
qed

lemma CBS_get_asn1_int64_contents:
  assumes "length c < 4294967296" and "s = der_element CBS_ASN1_INTEGER c @ r'"
  shows "CBS_get_asn1_int64 s = (Some v, r) \<longleftrightarrow> r = r' \<and> c = der_int (sint v)"
proof -
  have sval: "sint (le_load64 (mem_copy 0 (rev c) (replicate 8 (if c ! 0 AND 0x80 \<noteq> 0 then 0xff else 0)))) = twos_val c"
    if "c \<noteq> []" "length c \<le> 8"
  proof -
    let ?x = "if uint (hd c) < 128 then 0 else 255 :: u8"
    have "mem_copy 0 (rev c) (replicate 8 (if c ! 0 AND 0x80 \<noteq> 0 then 0xff else 0)) =
        rev (replicate (8 - length c) ?x @ c)"
      using that by (simp add: mem_copy_def and_0x80_uint hd_conv_nth)
    moreover have "length (replicate (8 - length c) ?x @ c) = 8"
      using that by simp
    ultimately show ?thesis
      using twos_val_extend [OF that(1), of "8 - length c"] by (simp only: le_load64_eq sint_of_be_val order_refl)
  qed
  have eq: "CBS_get_asn1_int64 s =
      (if der_minimal c \<and> length c \<le> 8
       then (Some (le_load64 (mem_copy 0 (rev c) (replicate 8 (if c ! 0 AND 0x80 \<noteq> 0 then 0xff else 0)))), r')
       else (None, r'))"
    unfolding CBS_get_asn1_int64_def assms(2) der_minimal_code by (simp add: assms(1) Let_def not_le)
  have ne: "c \<noteq> []" if "der_minimal c"
    using that by (simp add: der_minimal_def)
  show ?thesis
  proof
    assume "CBS_get_asn1_int64 s = (Some v, r)"
    then have "der_minimal c" "length c \<le> 8" "r = r'" "sint v = twos_val c"
      using sval ne unfolding eq by (auto split: if_splits)
    then show "r = r' \<and> c = der_int (sint v)"
      using der_int_twos_val [of c] by simp
  next
    assume rc: "r = r' \<and> c = der_int (sint v)"
    then have m: "der_minimal c" and tv: "twos_val c = sint v"
      by auto
    have "- (256 ^ 8) \<le> 2 * i \<and> 2 * i < 256 ^ 8" if "- (2 ^ 63) \<le> i" "i < 2 ^ 63" for i :: int
      using that by simp
    moreover have "- (2 ^ 63) \<le> sint v" "sint v < 2 ^ 63"
      using sint_greater_eq [of v] sint_less [of v] by simp_all
    ultimately have "length (der_int (sint v)) \<le> 8"
      by (simp only: length_der_int)
    with rc have len: "length c \<le> 8" by simp
    then have "sint (le_load64 (mem_copy 0 (rev c) (replicate 8 (if c ! 0 AND 0x80 \<noteq> 0 then 0xff else 0)))) = sint v"
      using sval [OF ne [OF m]] tv by simp
    then have "le_load64 (mem_copy 0 (rev c) (replicate 8 (if c ! 0 AND 0x80 \<noteq> 0 then 0xff else 0))) = v"
      by (rule signed_word_eqI)
    then show "CBS_get_asn1_int64 s = (Some v, r)"
      unfolding eq using m len rc by simp
  qed
qed

lemma CBS_get_asn1_int64_iff:
  "CBS_get_asn1_int64 s = (Some v, r) \<longleftrightarrow>
    s = der_element CBS_ASN1_INTEGER (der_int (sint v)) @ r"
proof
  assume l: "CBS_get_asn1_int64 s = (Some v, r)"
  then obtain c r' where "CBS_get_asn1 CBS_ASN1_INTEGER s = (Some c, r')"
    by (auto simp: CBS_get_asn1_int64_def split: prod.splits option.splits)
  then have "length c < 4294967296" "s = der_element CBS_ASN1_INTEGER c @ r'"
    by (simp_all add: CBS_get_asn1_iff)
  with l show "s = der_element CBS_ASN1_INTEGER (der_int (sint v)) @ r"
    using CBS_get_asn1_int64_contents [of c s r' v r] by simp
next
  assume s: "s = der_element CBS_ASN1_INTEGER (der_int (sint v)) @ r"
  have "- (256 ^ 9) \<le> 2 * i \<and> 2 * i < 256 ^ 9" if "- (2 ^ 63) \<le> i" "i < 2 ^ 63" for i :: int
    using that by simp
  moreover have "- (2 ^ 63) \<le> sint v" "sint v < 2 ^ 63"
    using sint_greater_eq [of v] sint_less [of v] by simp_all
  ultimately have "length (der_int (sint v)) \<le> 9"
    by (simp only: length_der_int)
  then have "length (der_int (sint v)) < 4294967296"
    by simp
  from CBS_get_asn1_int64_contents [OF this s] show "CBS_get_asn1_int64 s = (Some v, r)"
    by simp
qed

interpretation asn1_int64: codec_seq
    "\<lambda>v. der_element CBS_ASN1_INTEGER (der_int (sint v))" CBS_get_asn1_int64 "\<lambda>_. True"
  by unfold_locales (auto simp: CBS_get_asn1_int64_iff der_element_def der_header_def)

section \<open>CBS_get_asn1_bool\<close>

definition der_bool :: "bool \<Rightarrow> bytes" where
  "der_bool b = [if b then 0xff else 0]"

lemma CBS_get_asn1_bool_iff:
  "CBS_get_asn1_bool s = (Some b, r) \<longleftrightarrow> s = der_element CBS_ASN1_BOOLEAN (der_bool b) @ r"
proof
  assume l: "CBS_get_asn1_bool s = (Some b, r)"
  then obtain c where "CBS_get_asn1 CBS_ASN1_BOOLEAN s = (Some c, r)" and len: "length c = 1"
    and c: "c ! 0 = 0 \<or> c ! 0 = 0xff" "b \<longleftrightarrow> c ! 0 \<noteq> 0"
    by (auto simp: CBS_get_asn1_bool_def Let_def split: prod.splits option.splits if_splits)
  moreover from len obtain x where "c = [x]"
    by (cases c) auto
  ultimately show "s = der_element CBS_ASN1_BOOLEAN (der_bool b) @ r"
    by (auto simp: CBS_get_asn1_iff der_bool_def)
qed (auto simp: CBS_get_asn1_bool_def der_bool_def)

interpretation asn1_bool: codec_seq
    "\<lambda>b. der_element CBS_ASN1_BOOLEAN (der_bool b)" CBS_get_asn1_bool "\<lambda>_. True"
  by unfold_locales (auto simp: CBS_get_asn1_bool_iff der_element_def der_header_def)

section \<open>Optional elements\<close>

lemma der_element_prefix: "prefix (asn1_tag_bytes t) (der_element t c @ r)"
  by (simp add: der_element_def der_header_def)

lemma length_der_u64: "length (der_int (int (unat v))) \<le> 9" for v :: u64
proof -
  have "- (256 ^ 9) \<le> 2 * i \<and> 2 * i < 256 ^ 9" if "0 \<le> i" "i < 2 ^ 64" for i :: int
    using that by simp
  moreover have "int (unat v) < 2 ^ 64" "0 \<le> int (unat v)"
    using uint_bounded [of v] by simp_all
  ultimately show "length (der_int (int (unat v))) \<le> 9"
    by (simp only: length_der_int)
qed

lemma length_der_element_int:
  "length (der_element t (der_int (int (unat v)))) < 4294967296" for v :: u64
  using length_asn1_tag_bytes [of t] length_der_u64 [of v]
  by (simp add: der_element_def der_header_def length_der_len)

lemma optional_cases:
  obtains (absent) "\<not> prefix (asn1_tag_bytes tag) s" "CBS_get_optional_asn1 tag s = (Some None, s)"
      "\<And>c r. s \<noteq> der_element tag c @ r"
  | (malformed) r' where "prefix (asn1_tag_bytes tag) s" "CBS_get_optional_asn1 tag s = (None, r')"
      "\<And>c r. length c < 4294967296 \<Longrightarrow> s \<noteq> der_element tag c @ r"
  | (present) c r' where "prefix (asn1_tag_bytes tag) s" "CBS_get_optional_asn1 tag s = (Some (Some c), r')"
      "s = der_element tag c @ r'" "length c < 4294967296"
      "\<And>d r. length d < 4294967296 \<Longrightarrow> s = der_element tag d @ r \<longleftrightarrow> d = c \<and> r = r'"
proof (cases "prefix (asn1_tag_bytes tag) s")
  case False
  then show thesis
    using absent der_element_prefix [of tag]
    by (auto simp: CBS_get_optional_asn1_def CBS_peek_asn1_tag_iff)
next
  case True
  show thesis
  proof (cases "CBS_get_asn1 tag s")
    case (Pair x r')
    show thesis
    proof (cases x)
      case None
      with Pair True show thesis
        by (intro malformed [of r']) (auto simp: CBS_get_optional_asn1_def CBS_peek_asn1_tag_iff)
    next
      case (Some c)
      with Pair have "CBS_get_asn1 tag s = (Some c, r')" by simp
      moreover from this have "s = der_element tag c @ r'" "length c < 4294967296"
        by (simp_all add: CBS_get_asn1_iff)
      moreover have "s = der_element tag d @ r \<longleftrightarrow> d = c \<and> r = r'" if "length d < 4294967296" for d r
        using CBS_get_asn1_iff [of tag s d r] that calculation(1) by auto
      ultimately show thesis
        using True Pair Some
        by (intro present [of c r']) (simp_all add: CBS_get_optional_asn1_def CBS_peek_asn1_tag_iff)
    qed
  qed
qed

lemma optional_uint64_iff:
  "CBS_get_optional_asn1_uint64 tag dflt s = (Some v, r) \<longleftrightarrow>
      \<not> prefix (asn1_tag_bytes tag) s \<and> r = s \<and> v = dflt \<or>
      s = der_element tag (der_element CBS_ASN1_INTEGER (der_int (int (unat v)))) @ r"
    (is "?L \<longleftrightarrow> ?R")
proof (cases rule: optional_cases [of tag s])
  case (present c r')
  have "?L \<longleftrightarrow> r = r' \<and> CBS_get_asn1_uint64 c = (Some v, [])"
    by (auto simp: CBS_get_optional_asn1_uint64_def present(2) split: prod.splits option.splits)
  then have L: "?L \<longleftrightarrow> r = r' \<and> c = der_element CBS_ASN1_INTEGER (der_int (int (unat v)))"
    by (simp add: CBS_get_asn1_uint64_iff)
  have R: "s = der_element tag (der_element CBS_ASN1_INTEGER (der_int (int (unat v)))) @ r \<longleftrightarrow>
      der_element CBS_ASN1_INTEGER (der_int (int (unat v))) = c \<and> r = r'"
    by (rule present(5)) (rule length_der_element_int)
  show ?thesis
    unfolding L R using present(1) by auto
next
  case (malformed r')
  then show ?thesis
    using length_der_element_int [of CBS_ASN1_INTEGER v] by (auto simp: CBS_get_optional_asn1_uint64_def)
qed (auto simp: CBS_get_optional_asn1_uint64_def)

lemma length_der_element_bool: "length (der_element t (der_bool b)) < 4294967296"
  using length_asn1_tag_bytes [of t] by (simp add: der_element_def der_header_def length_der_len der_bool_def)

lemma optional_bool_iff:
  "CBS_get_optional_asn1_bool tag dflt s = (Some i, r) \<longleftrightarrow>
      \<not> prefix (asn1_tag_bytes tag) s \<and> r = s \<and> i = dflt \<or>
      (\<exists>b. i = (if b then 1 else 0) \<and> s = der_element tag (der_element CBS_ASN1_BOOLEAN (der_bool b)) @ r)"
    (is "?L \<longleftrightarrow> ?R")
proof (cases rule: optional_cases [of tag s])
  case (present c r')
  have "?L \<longleftrightarrow> r = r' \<and> (\<exists>b. i = (if b then 1 else 0) \<and> CBS_get_asn1_bool c = (Some b, []))"
    by (auto simp: CBS_get_optional_asn1_bool_def CBS_get_asn1_bool_def Let_def present(2)
        split: prod.splits option.splits if_splits)
  then have L: "?L \<longleftrightarrow>
      r = r' \<and> (\<exists>b. i = (if b then 1 else 0) \<and> c = der_element CBS_ASN1_BOOLEAN (der_bool b))"
    by (simp add: CBS_get_asn1_bool_iff)
  have R: "s = der_element tag (der_element CBS_ASN1_BOOLEAN (der_bool b)) @ r \<longleftrightarrow>
      der_element CBS_ASN1_BOOLEAN (der_bool b) = c \<and> r = r'" for b
    by (rule present(5)) (rule length_der_element_bool)
  show ?thesis
    unfolding L R using present(1) by auto
next
  case (malformed r')
  then show ?thesis
    using length_der_element_bool by (auto simp: CBS_get_optional_asn1_bool_def)
qed (auto simp: CBS_get_optional_asn1_bool_def)

lemma optional_octet_string_iff:
  "CBS_get_optional_asn1_octet_string tag s = (Some (x, p), r) \<longleftrightarrow>
      \<not> prefix (asn1_tag_bytes tag) s \<and> r = s \<and> x = [] \<and> \<not> p \<or>
      p \<and> length (der_element CBS_ASN1_OCTETSTRING x) < 4294967296 \<and>
      s = der_element tag (der_element CBS_ASN1_OCTETSTRING x) @ r"
    (is "?L \<longleftrightarrow> ?R")
proof (cases rule: optional_cases [of tag s])
  case (present c r')
  have "?L \<longleftrightarrow> r = r' \<and> p \<and> CBS_get_asn1 CBS_ASN1_OCTETSTRING c = (Some x, [])"
    by (auto simp: CBS_get_optional_asn1_octet_string_def present(2) split: prod.splits option.splits)
  moreover have "length x \<le> length (der_element CBS_ASN1_OCTETSTRING x)"
    by (simp add: der_element_def)
  ultimately have L: "?L \<longleftrightarrow> r = r' \<and> p \<and> c = der_element CBS_ASN1_OCTETSTRING x"
    using present(4) by (auto simp: CBS_get_asn1_iff)
  have R: "length (der_element CBS_ASN1_OCTETSTRING x) < 4294967296 \<and>
      s = der_element tag (der_element CBS_ASN1_OCTETSTRING x) @ r \<longleftrightarrow>
      der_element CBS_ASN1_OCTETSTRING x = c \<and> r = r'"
    using present(4,5) by blast
  show ?thesis
    unfolding L R using present(1) by auto
qed (auto simp: CBS_get_optional_asn1_octet_string_def CBS_init_def)

section \<open>The integer readers as a whole\<close>

text \<open>
  C17: the INTEGER and BOOLEAN readers.  \<open>CBS_get_asn1_uint64\<close> returns \<open>v\<close> exactly on the DER INTEGER of
  the natural number \<open>v\<close>, \<open>CBS_get_asn1_int64\<close> exactly on that of \<open>v\<close> read as a signed number, negative
  ones included; \<open>der_int\<close> is the shortest two's complement form of every integer.  A BOOLEAN is read
  exactly from the contents 0 and 255.
\<close>
theorem integer_readers_exact:
  "(CBS_get_asn1_uint64 s = (Some u, r) \<longleftrightarrow> s = der_element CBS_ASN1_INTEGER (der_int (int (unat u))) @ r) \<and>
   (CBS_get_asn1_int64 s = (Some v, r) \<longleftrightarrow> s = der_element CBS_ASN1_INTEGER (der_int (sint v)) @ r) \<and>
   (der_minimal bs \<and> twos_val bs = i \<longleftrightarrow> bs = der_int i) \<and>
   (CBS_get_asn1_bool s = (Some b, r) \<longleftrightarrow> s = der_element CBS_ASN1_BOOLEAN (der_bool b) @ r)"
  by (intro conjI CBS_get_asn1_uint64_iff CBS_get_asn1_int64_iff der_int_iff CBS_get_asn1_bool_iff)

text \<open>
  The optional readers.  An explicitly tagged INTEGER with a default is the default, with
  nothing consumed, exactly when the input does not start with the tag; otherwise it is the
  INTEGER that fills the tagged element.  For BOOLEAN and OCTET STRING alike.
\<close>
theorem optional_readers_exact:
  "(CBS_get_optional_asn1_uint64 tag dflt s = (Some v, r) \<longleftrightarrow>
      \<not> prefix (asn1_tag_bytes tag) s \<and> r = s \<and> v = dflt \<or>
      s = der_element tag (der_element CBS_ASN1_INTEGER (der_int (int (unat v)))) @ r) \<and>
   (CBS_get_optional_asn1_bool tag dflt' s = (Some i, r) \<longleftrightarrow>
      \<not> prefix (asn1_tag_bytes tag) s \<and> r = s \<and> i = dflt' \<or>
      (\<exists>b. i = (if b then 1 else 0) \<and> s = der_element tag (der_element CBS_ASN1_BOOLEAN (der_bool b)) @ r)) \<and>
   (CBS_get_optional_asn1_octet_string tag s = (Some (x, p), r) \<longleftrightarrow>
      \<not> prefix (asn1_tag_bytes tag) s \<and> r = s \<and> x = [] \<and> \<not> p \<or>
      p \<and> length (der_element CBS_ASN1_OCTETSTRING x) < 4294967296 \<and>
      s = der_element tag (der_element CBS_ASN1_OCTETSTRING x) @ r)"
  by (intro conjI optional_uint64_iff optional_bool_iff optional_octet_string_iff)

end
