(* ===== verification/Cbb_Der.thy ===== *)
theory Cbb_Der
  imports Cbb_Write Der_Int
begin

unbundle bit_operations_syntax

text \<open>
  The DER builders of \<open>cbb.c\<close>: \<open>CBB_add_asn1\<close> around any contents, OCTET STRING, BOOLEAN and the
  two INTEGER builders.  On success each appends exactly the element that its reader in \<open>Cbs\<close>
  accepts; on a builder with room each succeeds.
\<close>

section \<open>An element around contents\<close>

text \<open>The common shape: open a child, write into it, flush the parent.\<close>

definition cbb_element :: "nat \<Rightarrow> u32 \<Rightarrow> (cbb \<Rightarrow> bool \<times> cbb) \<Rightarrow> cbb \<Rightarrow> bool \<times> cbb" where
  "cbb_element d tag w s = (case CBB_add_asn1 d tag s of
     (False, s1) \<Rightarrow> (False, s1)
   | (True, s1) \<Rightarrow> (case w s1 of
       (False, s2) \<Rightarrow> (False, s2)
     | (True, s2) \<Rightarrow> CBB_flush d s2))"

lemma cbb_element_wrote:
  assumes run: "cbb_element d tag w s = (True, s')" and at: "cbb_at d s"
    and w: "\<And>s1 s2. w s1 = (True, s2) \<Longrightarrow> cbb_at (Suc d) s1 \<Longrightarrow> cbb_wrote (Suc d) c s1 s2"
  shows "cbb_wrote d (der_element tag c) s s' \<and> length c \<le> 0xfffffffe"
proof -
  obtain s1 s2 where s1: "CBB_add_asn1 d tag s = (True, s1)" and s2: "w s1 = (True, s2)"
    and s': "CBB_flush d s2 = (True, s')"
    using run by (auto simp: cbb_element_def split: prod.splits bool.splits)
  have o: "cbb_opened d tag s s1"
    using s1 at by (rule CBB_add_asn1_opened)
  then have "cbb_wrote (Suc d) c s1 s2"
    using s2 by (intro w) (simp_all add: cbb_opened_def)
  then show ?thesis
    using cbb_close [OF o _ s'] by blast
qed

lemma cbb_element_roomy:
  assumes at: "cbb_at d s" and room: "cbb_roomy (length (der_element tag c) + 4) s"
    and len: "length c \<le> 0xfffffffe"
    and w: "\<And>s1 s2. w s1 = (True, s2) \<Longrightarrow> cbb_at (Suc d) s1 \<Longrightarrow> cbb_wrote (Suc d) c s1 s2"
    and wr: "\<And>s1. cbb_at (Suc d) s1 \<Longrightarrow> cbb_roomy (length c) s1 \<Longrightarrow> \<exists>s2. w s1 = (True, s2)"
  shows "\<exists>s'. cbb_element d tag w s = (True, s')"
proof -
  have room': "cbb_roomy (length (asn1_tag_bytes tag) + 1 + length c + 4) s"
    using room by (auto simp: cbb_roomy_def der_element_def der_header_def length_der_len split: if_splits)
  then obtain s1 where s1: "CBB_add_asn1 d tag s = (True, s1)"
    using CBB_add_asn1_roomy [OF at, of tag] by (auto simp: cbb_roomy_def)
  then have o: "cbb_opened d tag s s1"
    using at by (rule CBB_add_asn1_opened)
  have at1: "cbb_at (Suc d) s1" and room1: "cbb_roomy (length c + 4) s1"
    using o room' by (auto simp: cbb_opened_def cbb_roomy_def)
  then obtain s2 where s2: "w s1 = (True, s2)"
    using wr [OF at1] by (auto simp: cbb_roomy_def)
  then have w12: "cbb_wrote (Suc d) c s1 s2"
    using at1 by (rule w)
  obtain s3 where "CBB_flush d s2 = (True, s3)"
    using cbb_close_roomy [OF o w12 cbb_roomy_wrote [OF w12 room1] len] by blast
  with s1 s2 show ?thesis
    by (simp add: cbb_element_def)
qed

section \<open>OCTET STRING and BOOLEAN\<close>

lemma CBB_add_asn1_octet_string_eq:
  "CBB_add_asn1_octet_string d data = cbb_element d CBS_ASN1_OCTETSTRING (CBB_add_bytes (Suc d) data)"
  by (rule ext) (simp add: CBB_add_asn1_octet_string_def cbb_element_def)

lemma CBB_add_asn1_octet_string_wrote:
  assumes "CBB_add_asn1_octet_string d data s = (True, s')" and "cbb_at d s" and "length data \<le> SIZE_MAX"
  shows "cbb_wrote d (der_element CBS_ASN1_OCTETSTRING data) s s' \<and> length data \<le> 0xfffffffe"
  using assms cbb_element_wrote [of d CBS_ASN1_OCTETSTRING "CBB_add_bytes (Suc d) data" s s' data]
  by (simp add: CBB_add_asn1_octet_string_eq CBB_add_bytes_wrote)

lemma CBB_add_asn1_octet_string_roomy:
  assumes "cbb_at d s" and "cbb_roomy (length (der_element CBS_ASN1_OCTETSTRING data) + 4) s"
    and "length data \<le> 0xfffffffe"
  shows "\<exists>s'. CBB_add_asn1_octet_string d data s = (True, s')"
  unfolding CBB_add_asn1_octet_string_eq using assms
  by (rule cbb_element_roomy)
    (use assms(3) in \<open>auto intro: CBB_add_bytes_wrote CBB_add_bytes_roomy simp: SIZE_MAX_def\<close>)

lemma CBB_add_asn1_bool_eq:
  "CBB_add_asn1_bool d v = cbb_element d CBS_ASN1_BOOLEAN (CBB_add_u8 (Suc d) (if v \<noteq> 0 then 0xff else 0))"
  by (rule ext) (simp add: CBB_add_asn1_bool_def cbb_element_def)

lemma CBB_add_asn1_bool_wrote:
  assumes "CBB_add_asn1_bool d v s = (True, s')" and "cbb_at d s"
  shows "cbb_wrote d (der_element CBS_ASN1_BOOLEAN (der_bool (v \<noteq> 0))) s s'"
  using cbb_element_wrote [OF assms(1) [unfolded CBB_add_asn1_bool_eq] assms(2), of "der_bool (v \<noteq> 0)"]
  by (simp add: CBB_add_u8_wrote der_bool_def)

lemma CBB_add_asn1_bool_roomy:
  assumes "cbb_at d s" and "cbb_roomy (length (der_element CBS_ASN1_BOOLEAN (der_bool (v \<noteq> 0))) + 4) s"
  shows "\<exists>s'. CBB_add_asn1_bool d v s = (True, s')"
  unfolding CBB_add_asn1_bool_eq using assms
  by (rule cbb_element_roomy) (auto intro: CBB_add_u8_wrote CBB_add_u8_roomy simp: der_bool_def)

section \<open>INTEGER\<close>

text \<open>What \<open>CBB_add_asn1_uint64\<close> makes of the eight big-endian bytes of the value.\<close>

definition strip_zeros :: "bytes \<Rightarrow> bytes" where
  "strip_zeros bs =
     (let ys = dropWhile (\<lambda>b. b = 0) bs
      in if ys = [] then [0] else if hd ys AND 0x80 \<noteq> 0 then 0 # ys else ys)"

definition uint64_byte :: "u64 \<Rightarrow> nat \<Rightarrow> u8" where
  "uint64_byte value i = ucast (drop_bit (8 * (7 - i)) value AND 0xff)"

lemma uint64_byte_eq: "uint64_byte v i = of_nat (unat v div 256 ^ (7 - i) mod 256)"
proof (rule word_of_nat_eqI)
  have "drop_bit (8 * (7 - i)) v AND 0xff = take_bit 8 (drop_bit (8 * (7 - i)) v)"
    by (simp add: take_bit_eq_mask mask_eq_exp_minus_1)
  then have "unat (drop_bit (8 * (7 - i)) v AND 0xff) = unat v div 256 ^ (7 - i) mod 256"
    by (simp only: unsigned_take_bit_eq unat_drop_bit_div power_mult) (simp add: take_bit_eq_mod)
  then show "unat (uint64_byte v i) = unat v div 256 ^ (7 - i) mod 256"
    by (simp only: uint64_byte_def unat_ucast_down) simp
qed

lemma be_bytes_nth_digits: "be_bytes n v = map (\<lambda>i. of_nat (v div 256 ^ (n - 1 - i) mod 256)) [0..<n]"
proof (induction n arbitrary: v)
  case 0
  then show ?case by simp
next
  case (Suc n)
  have "v div 256 div 256 ^ (n - 1 - i) = v div 256 ^ (Suc n - 1 - i)" if "i < n" for i
  proof -
    have "Suc n - 1 - i = Suc (n - 1 - i)"
      using that by simp
    then show ?thesis
      by (simp only: power_Suc div_mult2_eq)
  qed
  then show ?case
    using Suc.IH [of "v div 256"] by simp
qed

lemma uint64_bytes: "map (uint64_byte v) [0..<8] = be_bytes 8 (unat v)"
  by (simp only: be_bytes_nth_digits) (simp add: uint64_byte_eq)

lemma asn1_uint64_bytes_started:
  "asn1_uint64_bytes d v is True s =
    (case put_all (CBB_add_u8 d) (map (uint64_byte v) is) s of (ok, s') \<Rightarrow> (ok, True, s'))"
  by (induction "is" arbitrary: s) (auto simp: uint64_byte_def Let_def split: prod.splits bool.splits)

lemma asn1_uint64_bytes_eq:
  "(case asn1_uint64_bytes d v is False s of
      (False, _, s2) \<Rightarrow> (False, s2)
    | (True, started, s2) \<Rightarrow> (if \<not> started then CBB_add_u8 d 0 s2 else (True, s2))) =
    put_all (CBB_add_u8 d) (strip_zeros (map (uint64_byte v) is)) s"
proof (induction "is" arbitrary: s)
  case Nil
  then show ?case
    by (simp add: strip_zeros_def split: prod.splits bool.splits)
next
  case (Cons i "is")
  have b: "ucast (drop_bit (8 * (7 - i)) v AND 0xff) = uint64_byte v i"
    by (simp add: uint64_byte_def)
  show ?case
  proof (cases "uint64_byte v i = 0")
    case True
    then show ?thesis
      using Cons.IH [of s] by (simp add: b strip_zeros_def)
  next
    case False
    then show ?thesis
      by (simp add: b strip_zeros_def asn1_uint64_bytes_started Let_def split: prod.splits bool.splits)
  qed
qed

lemma CBB_add_asn1_uint64_eq:
  "CBB_add_asn1_uint64 d v =
    cbb_element d CBS_ASN1_INTEGER (put_all (CBB_add_u8 (Suc d)) (strip_zeros (be_bytes 8 (unat v))))"
proof (rule ext)
  fix s
  show "CBB_add_asn1_uint64 d v s =
    cbb_element d CBS_ASN1_INTEGER (put_all (CBB_add_u8 (Suc d)) (strip_zeros (be_bytes 8 (unat v)))) s"
    unfolding CBB_add_asn1_uint64_def cbb_element_def uint64_bytes [symmetric] asn1_uint64_bytes_eq [symmetric]
    by (simp split: prod.splits bool.splits)
qed

lemma be_val_dropWhile: "be_val (dropWhile (\<lambda>b. b = 0) bs) = be_val bs"
  by (induction bs) (simp_all add: be_val_Cons)

lemma strip_zeros_eq: "strip_zeros bs = der_int (int (be_val bs))"
proof -
  define ys where "ys = dropWhile (\<lambda>b. b = 0) bs"
  have v: "be_val ys = be_val bs"
    by (simp add: ys_def be_val_dropWhile)
  have hd: "hd ys \<noteq> 0" if "ys \<noteq> []"
    using that hd_dropWhile [of "\<lambda>b. b = 0" bs] by (simp add: ys_def)
  show ?thesis
  proof (cases "ys = []")
    case True
    then show ?thesis
      using v by (simp add: strip_zeros_def der_int_small flip: ys_def)
  next
    case False
    show ?thesis
    proof (cases "hd ys AND 0x80 = 0")
      case True
      have "bs' \<noteq> []" "bs' ! 0 = hd ys" if "bs' = ys" for bs'
        using that False by (simp_all add: hd_conv_nth)
      then have "der_minimal ys"
        using True hd [OF False] by (auto simp: der_minimal_code)
      moreover have "twos_val ys = int (be_val bs)"
        using twos_val_nonneg [of ys] True False v by (simp add: and_0x80_uint)
      ultimately have "ys = der_int (int (be_val bs))"
        by (simp flip: der_int_iff)
      then show ?thesis
        using True False by (simp add: strip_zeros_def flip: ys_def)
    next
      case neg: False
      then have "der_minimal (0 # ys)"
        using False by (auto simp: der_minimal_code hd_conv_nth)
      moreover have "twos_val (0 # ys) = int (be_val bs)"
        using v by (simp add: twos_val_def be_val_Cons)
      ultimately have "0 # ys = der_int (int (be_val bs))"
        by (simp flip: der_int_iff)
      then show ?thesis
        using neg False by (simp add: strip_zeros_def flip: ys_def)
    qed
  qed
qed

lemma strip_zeros_u64: "strip_zeros (be_bytes 8 (unat v)) = der_int (int (unat v))" for v :: u64
proof -
  have "be_val (be_bytes 8 (unat v)) = unat v"
    using unsigned_less [of v, where ?'a = nat] by (intro be_val_be_bytes) simp
  then show ?thesis
    by (simp only: strip_zeros_eq)
qed

lemma CBB_add_asn1_uint64_wrote:
  assumes "CBB_add_asn1_uint64 d v s = (True, s')" and "cbb_at d s"
  shows "cbb_wrote d (der_element CBS_ASN1_INTEGER (der_int (int (unat v)))) s s'"
  using cbb_element_wrote [OF assms(1) [unfolded CBB_add_asn1_uint64_eq strip_zeros_u64] assms(2)]
    cbb_sink.put_all_wrote by blast

text \<open>The negative case of \<open>CBB_add_asn1_int64\<close>: bytes \<open>k\<close> down to 0 of the value.\<close>

definition top_bytes :: "u64 \<Rightarrow> nat \<Rightarrow> bytes" where
  "top_bytes v n = map (le_byte v) (rev [0..<n])"

lemma asn1_int64_bytes_eq: "asn1_int64_bytes d v n s = put_all (CBB_add_u8 d) (top_bytes v n) s"
  by (induction n arbitrary: s) (auto simp: top_bytes_def split: prod.splits bool.splits)

lemma top_bytes_Suc: "top_bytes v (Suc n) = le_byte v n # top_bytes v n"
  by (simp add: top_bytes_def)

lemma length_top_bytes [simp]: "length (top_bytes v n) = n"
  by (simp add: top_bytes_def)

lemma le_byte_eq: "le_byte v k = of_nat (unat v div 256 ^ k mod 256)"
  by (rule word_of_nat_eqI) (simp only: le_byte_def unat_ucast_down unat_drop_bit_div power_mult, simp)

lemma top_bytes_8: "top_bytes v 8 = be_bytes 8 (unat v)"
proof -
  have "rev [0..<8] = map (\<lambda>i. 7 - i) [0..<(8::nat)]"
    by (simp add: upt_rec)
  then show ?thesis
    by (simp add: top_bytes_def be_bytes_nth_digits le_byte_eq comp_def)
qed

lemma int64_start_le: "asn1_int64_start v k \<le> k"
  by (induction k) auto

text \<open>Skipping a redundant 0xff octet keeps the value; where the scan stops, no octet is redundant.\<close>

lemma int64_start_val:
  "twos_val (top_bytes v (Suc (asn1_int64_start v k))) = twos_val (top_bytes v (Suc k))"
proof (induction k)
  case (Suc k)
  show ?case
  proof (cases "le_byte v (Suc k) = 0xff \<and> le_byte v k AND 0x80 \<noteq> 0")
    case True
    then have "\<not> uint (hd (top_bytes v (Suc k))) < 128"
      by (simp add: top_bytes_Suc and_0x80_uint)
    then have "twos_val (255 # top_bytes v (Suc k)) = twos_val (top_bytes v (Suc k))"
      using twos_val_Cons_sign [of "top_bytes v (Suc k)"] by (simp add: top_bytes_Suc)
    then show ?thesis
      using Suc True by (simp add: top_bytes_Suc)
  next
    case False
    then show ?thesis
      by (simp only: asn1_int64_start.simps if_False)
  qed
qed simp

lemma int64_start_minimal:
  assumes "le_byte v k AND 0x80 \<noteq> 0"
  shows "der_minimal (top_bytes v (Suc (asn1_int64_start v k)))"
  using assms
proof (induction k)
  case 0
  then show ?case by (simp add: top_bytes_def der_minimal_def)
next
  case (Suc k)
  show ?case
  proof (cases "le_byte v (Suc k) = 0xff \<and> le_byte v k AND 0x80 \<noteq> 0")
    case True
    then show ?thesis
      using Suc.IH by simp
  next
    case False
    have "le_byte v (Suc k) \<noteq> 0"
      using Suc.prems by auto
    then have "der_minimal (le_byte v (Suc k) # le_byte v k # top_bytes v k)"
      using False by (simp add: der_minimal_code)
    then show ?thesis
      using False by (simp only: asn1_int64_start.simps if_False top_bytes_Suc)
  qed
qed

lemma int64_negative_bytes:
  assumes "sint v < 0"
  shows "top_bytes v (Suc (asn1_int64_start v 7)) = der_int (sint v)"
proof -
  have eight: "top_bytes v (Suc 7) = be_bytes 8 (unat v)"
    using top_bytes_8 by simp
  have "unat v < 256 ^ 8"
    using unsigned_less [of v, where ?'a = nat] by simp
  then have "(of_nat (be_val (be_bytes 8 (unat v))) :: u64) = v"
    by (simp only: be_val_be_bytes) simp
  then have val: "twos_val (top_bytes v (Suc 7)) = sint v"
    using sint_of_be_val [of "be_bytes 8 (unat v)"] by (simp only: eight length_be_bytes)
  then have "twos_val (le_byte v 7 # top_bytes v 7) < 0"
    using assms by (simp only: top_bytes_Suc)
  then have "le_byte v 7 AND 0x80 \<noteq> 0"
    using twos_val_neg_iff [of "le_byte v 7 # top_bytes v 7"] by (simp add: and_0x80_uint)
  from int64_start_minimal [OF this] show ?thesis
    using int64_start_val [of v 7] val by (simp flip: der_int_iff)
qed

lemma int64_nonneg_bytes:
  fixes v :: u64
  shows "0 \<le> sint v \<Longrightarrow> int (unat v) = sint v"
proof -
  assume "0 \<le> sint v"
  moreover have "sint v < 2 ^ 63"
    using sint_less [of v] by simp
  ultimately have "take_bit LENGTH(64) (sint v) = sint v"
    by (intro take_bit_int_eq_self) simp_all
  then show ?thesis
    using uint_sint [of v] by simp
qed

lemma CBB_add_asn1_int64_eq:
  "CBB_add_asn1_int64 d v = cbb_element d CBS_ASN1_INTEGER (put_all (CBB_add_u8 (Suc d)) (der_int (sint v)))"
proof (cases "sint v \<ge> 0")
  case True
  then have "int (unat v) = sint v"
    by (rule int64_nonneg_bytes)
  then show ?thesis
    unfolding CBB_add_asn1_int64_def CBB_add_asn1_uint64_eq strip_zeros_u64
    by (intro ext) (simp only: if_P [OF True])
next
  case False
  then have b: "top_bytes v (Suc (asn1_int64_start v 7)) = der_int (sint v)"
    by (intro int64_negative_bytes) simp
  show ?thesis
    using False unfolding CBB_add_asn1_int64_def cbb_element_def Let_def asn1_int64_bytes_eq b by (intro ext) simp
qed

lemma CBB_add_asn1_int64_wrote:
  assumes "CBB_add_asn1_int64 d v s = (True, s')" and "cbb_at d s"
  shows "cbb_wrote d (der_element CBS_ASN1_INTEGER (der_int (sint v))) s s'"
  using cbb_element_wrote [OF assms(1) [unfolded CBB_add_asn1_int64_eq] assms(2)]
    cbb_sink.put_all_wrote by blast

lemma put_all_element_roomy:
  assumes "cbb_at d s" and "cbb_roomy (length (der_element tag c) + 4) s" and "length c \<le> 0xfffffffe"
  shows "\<exists>s'. cbb_element d tag (put_all (CBB_add_u8 (Suc d)) c) s = (True, s')"
  using assms by (rule cbb_element_roomy) (auto intro: cbb_sink.put_all_wrote cbb_sink.put_all_succeeds)

text \<open>The complete builder around an element: what \<open>CBB_finish\<close> returns.\<close>

lemma CBB_finish_innermost:
  assumes "cbb_at 0 s"
  shows "CBB_finish 0 True s = (Some (cbb_buf s), CBB_cleanup s)"
proof -
  obtain b where "base s = Some b" "children s = []"
    using assms by (auto simp: cbb_at_def cbb_ok_def)
  then show ?thesis
    using CBB_flush_innermost [OF assms] by (simp add: CBB_finish_def cbb_buf_def)
qed

lemma CBB_init_at:
  assumes "CBB_init al n = (True, s)" and "n \<le> SIZE_MAX"
  shows "cbb_at 0 s \<and> cbb_buf s = [] \<and> cbb_env s = Some (True, al)"
  using assms
  by (auto simp: CBB_init_def cbb_init_def CBB_zero_def cbb_at_def cbb_ok_def buffer_ok_def cbb_buf_def
      cbb_env_def split: if_splits)

end
