(* ===== verification/Cbb_Codec.thy ===== *)
theory Cbb_Codec
  imports Cbb_Der
begin

unbundle bit_operations_syntax

text \<open>
  The interface between a reader of \<open>Cbs\<close> and the builder operation of \<open>Cbb\<close> for the same
  value: what the operation appends is what the reader accepts.  The integers of both
  byte orders and the typed DER elements are interpretations; \<open>Unicode\<close> adds the character
  encodings.
\<close>

locale cbb_codec = codec enc dec valid
  for enc :: "'a \<Rightarrow> bytes" and dec and valid +
  fixes add :: "nat \<Rightarrow> 'a \<Rightarrow> cbb \<Rightarrow> bool \<times> cbb"
  assumes add_wrote: "add d x s = (True, s') \<Longrightarrow> cbb_at d s \<Longrightarrow> valid x \<and> cbb_wrote d (enc x) s s'"
begin

text \<open>The bytes that the operation appended read back as the value, whatever follows them.\<close>

lemma add_get:
  assumes "add d x s = (True, s')" and "cbb_at d s"
  shows "dec (drop (length (cbb_buf s)) (cbb_buf s') @ r) = (Some x, r)"
  using add_wrote [OF assms] dec_enc by (simp add: cbb_wrote_def)

lemma add_finish:
  assumes "add 0 x s = (True, s')" and "cbb_at 0 s" and "cbb_buf s = []"
  shows "CBB_finish 0 True s' = (Some (enc x), CBB_cleanup s')"
proof -
  have "cbb_wrote 0 (enc x) s s'"
    using add_wrote [OF assms(1,2)] by simp
  then show ?thesis
    using CBB_finish_innermost [of s'] assms(3) by (simp add: cbb_wrote_def)
qed

text \<open>Two values in a row.\<close>

lemma add_add_get:
  assumes "add d x s = (True, s1)" and "add d y s1 = (True, s2)" and "cbb_at d s"
  shows "\<exists>r. dec (drop (length (cbb_buf s)) (cbb_buf s2)) = (Some x, r) \<and> dec r = (Some y, [])"
proof -
  have x: "valid x" "cbb_wrote d (enc x) s s1"
    using add_wrote [OF assms(1,3)] by auto
  then have y: "valid y" "cbb_wrote d (enc y) s1 s2"
    using add_wrote [OF assms(2)] by (auto simp: cbb_wrote_def)
  have "drop (length (cbb_buf s)) (cbb_buf s2) = enc x @ enc y"
    using x(2) y(2) by (simp add: cbb_wrote_def)
  then show ?thesis
    using x(1) y(1) dec_enc dec_enc_exact by auto
qed

end

section \<open>Fixed-width integers\<close>

interpretation get_u8: codec "\<lambda>b. [b]" CBS_get_u8 "\<lambda>_. True"
  by unfold_locales (simp_all add: CBS_get_u8_iff)

interpretation cbb_u8: cbb_codec "\<lambda>b. [b]" CBS_get_u8 "\<lambda>_. True" CBB_add_u8
  by unfold_locales (simp add: CBB_add_u8_wrote)

text \<open>The wider readers are casts of \<open>cbs_get_u\<close>.\<close>

lemma narrow_codec_map:
  assumes n: "n \<le> 8" "8 * n \<le> LENGTH('a::len)" "LENGTH('a) \<le> 64"
  shows "codec_map (\<lambda>v. be_bytes n (unat v)) (cbs_get_u n) (\<lambda>v. unat v < 256 ^ n)
    (ucast :: 'a word \<Rightarrow> u64) ucast (\<lambda>v. unat v < 256 ^ n)"
proof (rule codec_map.intro)
  show "codec (\<lambda>v. be_bytes n (unat v)) (cbs_get_u n) (\<lambda>v :: u64. unat v < 256 ^ n)"
    by (rule cbs_get_u_codec [OF n(1)])
  show "codec_map_axioms (\<lambda>v :: u64. unat v < 256 ^ n) (ucast :: 'a word \<Rightarrow> u64) ucast (\<lambda>v. unat v < 256 ^ n)"
  proof
    fix v :: "'a word"
    have u: "unat (ucast v :: u64) = unat v"
      using n(3) by (simp add: unat_ucast_up)
    moreover have "unat v < 2 ^ LENGTH('a)"
      by (rule unsigned_less)
    ultimately show "unat v < 256 ^ n \<Longrightarrow> unat (ucast v :: u64) < 256 ^ n \<and> ucast (ucast v :: u64) = v"
      by (simp add: word_unat_eq_iff unat_ucast_down)
  next
    fix v :: u64
    assume v: "unat v < 256 ^ n"
    also have "(256::nat) ^ n = 2 ^ (8 * n)"
      by (simp add: power_mult)
    also have "(2::nat) ^ (8 * n) \<le> 2 ^ LENGTH('a)"
      using n(2) by (intro power_increasing) simp_all
    finally have "unat (ucast v :: 'a word) = unat v"
      by (simp add: unat_ucast_down)
    with v n(3) show "unat (ucast v :: 'a word) < 256 ^ n \<and> ucast (ucast v :: 'a word) = v"
      by (simp add: word_unat_eq_iff unat_ucast_up)
  qed
qed

interpretation narrow_u16: codec_map "\<lambda>v. be_bytes 2 (unat v)" "cbs_get_u 2" "\<lambda>v. unat v < 256 ^ 2"
    "ucast :: u16 \<Rightarrow> u64" ucast "\<lambda>v. unat v < 256 ^ 2"
  by (rule narrow_codec_map) simp_all

interpretation narrow_u24: codec_map "\<lambda>v. be_bytes 3 (unat v)" "cbs_get_u 3" "\<lambda>v. unat v < 256 ^ 3"
    "ucast :: u32 \<Rightarrow> u64" ucast "\<lambda>v. unat v < 256 ^ 3"
  by (rule narrow_codec_map) simp_all

interpretation narrow_u32: codec_map "\<lambda>v. be_bytes 4 (unat v)" "cbs_get_u 4" "\<lambda>v. unat v < 256 ^ 4"
    "ucast :: u32 \<Rightarrow> u64" ucast "\<lambda>v. unat v < 256 ^ 4"
  by (rule narrow_codec_map) simp_all

lemma CBS_get_u16_cast: "map_prod (map_option ucast) id (cbs_get_u 2 s) = CBS_get_u16 s"
  and CBS_get_u24_cast: "map_prod (map_option ucast) id (cbs_get_u 3 s) = CBS_get_u24 s"
  and CBS_get_u32_cast: "map_prod (map_option ucast) id (cbs_get_u 4 s) = CBS_get_u32 s"
  by (simp_all add: CBS_get_u16_def CBS_get_u24_def CBS_get_u32_def map_prod_def split: prod.splits option.splits)

lemma unat_u16_less: "unat (v :: u16) < 256 ^ 2"
  using unsigned_less [of v, where ?'a = nat] by simp

lemma unat_u32_less: "unat (v :: u32) < 256 ^ 4"
  using unsigned_less [of v, where ?'a = nat] by simp

lemma unat_u64_less: "unat (v :: u64) < 256 ^ 8"
  using unsigned_less [of v, where ?'a = nat] by simp

interpretation get_u16: codec "\<lambda>v. be_bytes 2 (unat v)" CBS_get_u16 "\<lambda>_. True"
  using narrow_u16.mapped.dec_enc narrow_u16.mapped.enc_dec unat_u16_less
  by unfold_locales (simp_all only: CBS_get_u16_cast unat_ucast_u16 simp_thms)

interpretation get_u24: codec "\<lambda>v. be_bytes 3 (unat v)" CBS_get_u24 "\<lambda>v. unat v < 256 ^ 3"
  using narrow_u24.mapped.dec_enc narrow_u24.mapped.enc_dec
  by unfold_locales (simp_all only: CBS_get_u24_cast unat_ucast_u32)

interpretation get_u32: codec "\<lambda>v. be_bytes 4 (unat v)" CBS_get_u32 "\<lambda>_. True"
  using narrow_u32.mapped.dec_enc narrow_u32.mapped.enc_dec unat_u32_less
  by unfold_locales (simp_all only: CBS_get_u32_cast unat_ucast_u32 simp_thms)

lemma get_u64_codec: "codec (\<lambda>v. be_bytes 8 (unat v)) (cbs_get_u 8) (\<lambda>v. unat v < 256 ^ 8)"
  by (rule cbs_get_u_codec) simp

interpretation get_u64: codec "\<lambda>v. be_bytes 8 (unat v)" CBS_get_u64 "\<lambda>_. True"
  using codec.dec_enc [OF get_u64_codec] codec.enc_dec [OF get_u64_codec] unat_u64_less
  by unfold_locales (simp_all only: CBS_get_u64_def simp_thms)

interpretation cbb_u16: cbb_codec "\<lambda>v. be_bytes 2 (unat v)" CBS_get_u16 "\<lambda>_. True" CBB_add_u16
  by unfold_locales (simp add: CBB_add_u16_wrote)

interpretation cbb_u24: cbb_codec "\<lambda>v. be_bytes 3 (unat v)" CBS_get_u24 "\<lambda>v. unat v < 256 ^ 3" CBB_add_u24
  by unfold_locales (use CBB_add_u24_wrote in blast)

interpretation cbb_u32: cbb_codec "\<lambda>v. be_bytes 4 (unat v)" CBS_get_u32 "\<lambda>_. True" CBB_add_u32
  by unfold_locales (simp add: CBB_add_u32_wrote)

interpretation cbb_u64: cbb_codec "\<lambda>v. be_bytes 8 (unat v)" CBS_get_u64 "\<lambda>_. True" CBB_add_u64
  by unfold_locales (simp add: CBB_add_u64_wrote)

section \<open>Little-endian integers\<close>

lemma be_bytes_words: "be_bytes n (unat v) = map (\<lambda>i. ucast (drop_bit (8 * (n - 1 - i)) v)) [0..<n]"
proof -
  have "(of_nat (unat v div 256 ^ k mod 256) :: u8) = ucast (drop_bit (8 * k) v)" for k
    by (rule word_of_nat_eqI [symmetric]) (simp only: unat_ucast_down unat_drop_bit_div power_mult, simp)
  then show ?thesis
    by (simp add: be_bytes_nth_digits)
qed

text \<open>Bit \<open>j\<close> of byte \<open>k\<close> comes from byte \<open>n - 1 - k\<close>.\<close>

lemma no_high_bit: "LENGTH('a) \<le> n \<Longrightarrow> \<not> bit (x :: 'a::len word) n"
  using bit_imp_le_length [of x n] by auto

lemma bit_bswap2: "j < 8 \<Longrightarrow> k < 2 \<Longrightarrow> bit (CRYPTO_bswap2 x) (8 * k + j) = bit x (8 * (1 - k) + j)"
  by (auto simp: CRYPTO_bswap2_def bit_simps no_high_bit less_2_cases_iff add.commute)

lemma bit_swap_halves:
  "m < 32 \<Longrightarrow> bit (drop_bit 16 x OR push_bit 16 x) m = bit x (if m < 16 then m + 16 else m - 16)" for x :: u32
  by (auto simp: bit_simps no_high_bit add.commute)

lemma bit_masks:
  assumes "j < 8"
  shows "bit (0xff00ff00 :: u32) (8 * k + j) \<longleftrightarrow> k = 1 \<or> k = 3"
    and "bit (0x00ff00ff :: u32) (8 * k + j) \<longleftrightarrow> k = 0 \<or> k = 2"
proof -
  have m: "(0xff00ff00 :: u32) = push_bit 24 (mask 8) OR push_bit 8 (mask 8)"
    "(0x00ff00ff :: u32) = push_bit 16 (mask 8) OR mask 8"
    by (simp_all add: mask_eq_exp_minus_1)
  show "bit (0xff00ff00 :: u32) (8 * k + j) \<longleftrightarrow> k = 1 \<or> k = 3"
    unfolding m using assms by (auto simp: bit_or_iff bit_push_bit_iff bit_mask_iff)
  show "bit (0x00ff00ff :: u32) (8 * k + j) \<longleftrightarrow> k = 0 \<or> k = 2"
    unfolding m using assms by (auto simp: bit_or_iff bit_push_bit_iff bit_mask_iff)
qed

lemma bit_swap_bytes:
  fixes y :: u32
  assumes j: "j < 8" and k: "k < 4"
  shows "bit (drop_bit 8 (y AND 0xff00ff00) OR push_bit 8 (y AND 0x00ff00ff)) (8 * k + j) =
    bit y (if even k then 8 * (k + 1) + j else 8 * (k - 1) + j)"
proof -
  have d: "bit (drop_bit 8 (y AND 0xff00ff00)) (8 * k + j) \<longleftrightarrow> even k \<and> bit y (8 * (k + 1) + j)"
  proof -
    have "8 + (8 * k + j) = 8 * (k + 1) + j" by simp
    then have "bit (drop_bit 8 (y AND 0xff00ff00)) (8 * k + j) \<longleftrightarrow>
        bit y (8 * (k + 1) + j) \<and> (k + 1 = 1 \<or> k + 1 = 3)"
      by (simp only: bit_drop_bit_eq o_def bit_and_iff bit_masks [OF j])
    then show ?thesis
      using k by (auto elim!: evenE)
  qed
  have p: "bit (push_bit 8 (y AND 0x00ff00ff)) (8 * k + j) \<longleftrightarrow> odd k \<and> bit y (8 * (k - 1) + j)"
  proof (cases k)
    case 0
    with j show ?thesis by (simp only: bit_push_bit_iff) simp
  next
    case (Suc i)
    have "8 * k + j - 8 = 8 * i + j" "8 \<le> 8 * k + j" "8 * k + j < LENGTH(32)"
      using Suc j k by simp_all
    then have "bit (push_bit 8 (y AND 0x00ff00ff)) (8 * k + j) \<longleftrightarrow> bit y (8 * i + j) \<and> (i = 0 \<or> i = 2)"
      by (simp only: bit_push_bit_iff bit_and_iff bit_masks [OF j] possible_bit_word simp_thms)
    then show ?thesis
      using k Suc by (auto elim!: evenE)
  qed
  show ?thesis
    by (simp only: bit_or_iff d p) simp
qed

lemma bit_bswap4:
  assumes j: "j < 8" and k: "k < 4"
  shows "bit (CRYPTO_bswap4 x) (8 * k + j) = bit x (8 * (3 - k) + j)"
proof -
  define m where "m = (if even k then 8 * (k + 1) + j else 8 * (k - 1) + j)"
  have c: "k = 0 \<or> k = 1 \<or> k = 2 \<or> k = 3"
    using k by linarith
  then have m: "m < 32" "(if m < 16 then m + 16 else m - 16) = 8 * (3 - k) + j"
    using j by (auto simp: m_def)
  have "bit (CRYPTO_bswap4 x) (8 * k + j) = bit (drop_bit 16 x OR push_bit 16 x) m"
    unfolding CRYPTO_bswap4_def Let_def bit_swap_bytes [OF j k] m_def ..
  also have "\<dots> = bit x (8 * (3 - k) + j)"
    by (simp only: bit_swap_halves [OF m(1)] m(2))
  finally show ?thesis .
qed

lemma bit_bswap8:
  assumes "j < 8" and "k < 8"
  shows "bit (CRYPTO_bswap8 x) (8 * k + j) = bit x (8 * (7 - k) + j)"
proof (cases "k < 4")
  case True
  then have "bit (CRYPTO_bswap8 x) (8 * k + j) = bit (CRYPTO_bswap4 (ucast (drop_bit 32 x))) (8 * k + j)"
    using assms(1) by (auto simp: CRYPTO_bswap8_def bit_simps)
  also have "\<dots> = bit (ucast (drop_bit 32 x) :: u32) (8 * (3 - k) + j)"
    using assms(1) True by (rule bit_bswap4)
  also have "\<dots> = bit x (8 * (7 - k) + j)"
    using assms(1) True by (auto simp: bit_simps) (auto simp: algebra_simps)
  finally show ?thesis .
next
  case False
  define i where "i = k - 4"
  have i: "i < 4" "k = i + 4"
    using False assms(2) by (auto simp: i_def)
  have "bit (CRYPTO_bswap8 x) (8 * k + j) = bit (CRYPTO_bswap4 (ucast x)) (8 * i + j)"
    using assms(1) i by (auto simp: CRYPTO_bswap8_def bit_simps no_high_bit algebra_simps)
  also have "\<dots> = bit (ucast x :: u32) (8 * (3 - i) + j)"
    using assms(1) i(1) by (rule bit_bswap4)
  also have "\<dots> = bit x (8 * (7 - k) + j)"
    using assms(1) i by (auto simp: bit_simps)
  finally show ?thesis .
qed

text \<open>So the bytes of a swapped word are the bytes in reverse.\<close>

lemma be_bytes_swapped:
  fixes v w :: "'a::len word"
  assumes "\<And>j k. j < 8 \<Longrightarrow> k < n \<Longrightarrow> bit w (8 * k + j) = bit v (8 * (n - 1 - k) + j)"
  shows "be_bytes n (unat w) = rev (be_bytes n (unat v))"
proof (rule nth_equalityI)
  fix i
  assume i: "i < length (be_bytes n (unat w))"
  have "(ucast (drop_bit (8 * (n - 1 - i)) w) :: u8) = ucast (drop_bit (8 * i) v)"
  proof (rule bit_word_eqI)
    fix j
    assume j: "j < LENGTH(8)"
    have "n - 1 - (n - 1 - i) = i"
      using i by simp
    then show "bit (ucast (drop_bit (8 * (n - 1 - i)) w) :: u8) j = bit (ucast (drop_bit (8 * i) v) :: u8) j"
      using assms [of j "n - 1 - i"] i j by (simp add: bit_simps)
  qed
  then show "be_bytes n (unat w) ! i = rev (be_bytes n (unat v)) ! i"
    using i by (simp add: be_bytes_words rev_nth)
qed simp

lemma be_bytes_bswap2: "be_bytes 2 (unat (CRYPTO_bswap2 v)) = rev (be_bytes 2 (unat v))"
  by (rule be_bytes_swapped) (simp add: bit_bswap2)

lemma be_bytes_bswap4: "be_bytes 4 (unat (CRYPTO_bswap4 v)) = rev (be_bytes 4 (unat v))"
  by (rule be_bytes_swapped) (simp add: bit_bswap4)

lemma be_bytes_bswap8: "be_bytes 8 (unat (CRYPTO_bswap8 v)) = rev (be_bytes 8 (unat v))"
  by (rule be_bytes_swapped) (simp add: bit_bswap8)

lemma be_bytes_word_inject: "8 * n = LENGTH('a) \<Longrightarrow>
    be_bytes n (unat (v :: 'a::len word)) = be_bytes n (unat w) \<Longrightarrow> v = w"
proof -
  assume n: "8 * n = LENGTH('a)" and eq: "be_bytes n (unat v) = be_bytes n (unat w)"
  have "unat u < 256 ^ n" for u :: "'a word"
    using unsigned_less [of u, where ?'a = nat] by (simp add: power_mult flip: n)
  then have "unat v = unat w"
    by (metis eq be_val_be_bytes)
  then show ?thesis
    by (simp add: word_unat_eq_iff)
qed

lemma bswap2_bswap2 [simp]: "CRYPTO_bswap2 (CRYPTO_bswap2 v) = v"
  by (rule be_bytes_word_inject [of 2]) (simp_all only: be_bytes_bswap2 rev_rev_ident, simp)

lemma bswap4_bswap4 [simp]: "CRYPTO_bswap4 (CRYPTO_bswap4 v) = v"
  by (rule be_bytes_word_inject [of 4]) (simp_all only: be_bytes_bswap4 rev_rev_ident, simp)

lemma bswap8_bswap8 [simp]: "CRYPTO_bswap8 (CRYPTO_bswap8 v) = v"
  by (rule be_bytes_word_inject [of 8]) (simp_all only: be_bytes_bswap8 rev_rev_ident, simp)

text \<open>The little-endian readers, with the bytes of the value least significant first.\<close>

definition le_enc :: "nat \<Rightarrow> 'a::len word \<Rightarrow> bytes" where
  "le_enc n v = rev (be_bytes n (unat v))"

lemma CBS_get_u16le_iff: "CBS_get_u16le s = (Some v, r) \<longleftrightarrow> s = le_enc 2 v @ r"
proof -
  have "CBS_get_u16le s = (Some v, r) \<longleftrightarrow> CBS_get_u16 s = (Some (CRYPTO_bswap2 v), r)"
    by (auto simp: CBS_get_u16le_def split: prod.splits option.splits)
  then show ?thesis
    by (simp only: get_u16.dec_iff be_bytes_bswap2 le_enc_def simp_thms)
qed

lemma CBS_get_u32le_iff: "CBS_get_u32le s = (Some v, r) \<longleftrightarrow> s = le_enc 4 v @ r"
proof -
  have "CBS_get_u32le s = (Some v, r) \<longleftrightarrow> CBS_get_u32 s = (Some (CRYPTO_bswap4 v), r)"
    by (auto simp: CBS_get_u32le_def split: prod.splits option.splits)
  then show ?thesis
    by (simp only: get_u32.dec_iff be_bytes_bswap4 le_enc_def simp_thms)
qed

lemma CBS_get_u64le_iff: "CBS_get_u64le s = (Some v, r) \<longleftrightarrow> s = le_enc 8 v @ r"
proof -
  have "CBS_get_u64le s = (Some v, r) \<longleftrightarrow> CBS_get_u64 s = (Some (CRYPTO_bswap8 v), r)"
    by (auto simp: CBS_get_u64le_def CBS_get_u64_def split: prod.splits option.splits)
  then show ?thesis
    by (simp only: get_u64.dec_iff be_bytes_bswap8 le_enc_def simp_thms)
qed

interpretation cbb_u16le: cbb_codec "le_enc 2" CBS_get_u16le "\<lambda>_. True" CBB_add_u16le
  using CBB_add_u16_wrote
  by unfold_locales (auto simp: CBS_get_u16le_iff CBB_add_u16le_def le_enc_def simp flip: be_bytes_bswap2)

interpretation cbb_u32le: cbb_codec "le_enc 4" CBS_get_u32le "\<lambda>_. True" CBB_add_u32le
  using CBB_add_u32_wrote
  by unfold_locales (auto simp: CBS_get_u32le_iff CBB_add_u32le_def le_enc_def simp flip: be_bytes_bswap4)

interpretation cbb_u64le: cbb_codec "le_enc 8" CBS_get_u64le "\<lambda>_. True" CBB_add_u64le
  using CBB_add_u64_wrote
  by unfold_locales (auto simp: CBS_get_u64le_iff CBB_add_u64le_def le_enc_def simp flip: be_bytes_bswap8)

section \<open>DER elements\<close>

interpretation cbb_uint64: cbb_codec "\<lambda>v. der_element CBS_ASN1_INTEGER (der_int (int (unat v)))"
    CBS_get_asn1_uint64 "\<lambda>_. True" CBB_add_asn1_uint64
  using CBB_add_asn1_uint64_wrote by unfold_locales blast

interpretation cbb_int64: cbb_codec "\<lambda>v. der_element CBS_ASN1_INTEGER (der_int (sint v))"
    CBS_get_asn1_int64 "\<lambda>_. True" CBB_add_asn1_int64
  using CBB_add_asn1_int64_wrote by unfold_locales blast

interpretation cbb_bool: cbb_codec "\<lambda>b. der_element CBS_ASN1_BOOLEAN (der_bool b)"
    CBS_get_asn1_bool "\<lambda>_. True" "\<lambda>d b. CBB_add_asn1_bool d (if b then 1 else 0)"
proof
  fix d b s s'
  assume "CBB_add_asn1_bool d (if b then 1 else 0) s = (True, s')" "cbb_at d s"
  from CBB_add_asn1_bool_wrote [OF this]
  show "True \<and> cbb_wrote d (der_element CBS_ASN1_BOOLEAN (der_bool b)) s s'"
    by (cases b) simp_all
qed

end
