(* ===== verification/Oid.thy ===== *)
theory Oid
  imports Cbb_Der
begin

unbundle bit_operations_syntax

text \<open>
  OBJECT IDENTIFIER contents and their dotted-decimal text: \<open>CBS_asn1_oid_to_text\<close> of \<open>cbs.c\<close> and
  \<open>CBB_add_asn1_oid_from_text\<close> of \<open>cbb.c\<close>, with the abstract OID (a list of components) between
  them.
\<close>

section \<open>Operations\<close>

definition UINT64_MAX :: u64 where
  "UINT64_MAX = 0xffffffffffffffff"

text \<open>\<open>add_decimal\<close> prints with \<open>"%" PRIu64\<close>: the decimal digits, most significant first.\<close>

fun decimal :: "nat \<Rightarrow> bytes" where
  "decimal n = (if n < 10 then [of_nat (48 + n)] else decimal (n div 10) @ [of_nat (48 + n mod 10)])"

declare decimal.simps [simp del]

definition add_decimal :: "nat \<Rightarrow> u64 \<Rightarrow> cbb \<Rightarrow> bool \<times> cbb" where
  "add_decimal d v s = CBB_add_bytes d (decimal (unat v)) s"

text \<open>The components after the first two.\<close>

function oid_text_loop :: "bytes \<Rightarrow> cbb \<Rightarrow> bool \<times> cbb" where
  "oid_text_loop copy s =
     (if CBS_len copy \<noteq> 0
      then (case parse_base128_integer copy of
              (None, _) \<Rightarrow> (False, s)
            | (Some v, copy') \<Rightarrow> (case CBB_add_u8 0 46 s of
                (False, s1) \<Rightarrow> (False, s1)
              | (True, s1) \<Rightarrow> (case add_decimal 0 v s1 of
                  (False, s2) \<Rightarrow> (False, s2)
                | (True, s2) \<Rightarrow> oid_text_loop copy' s2)))
      else (True, s))"
  by pat_completeness auto
termination
  by (relation "measure (\<lambda>(copy, _). length copy)") (auto dest: base128.dec_shorter [OF sym])

declare oid_text_loop.simps [simp del]

text \<open>\<open>CBS_asn1_oid_to_text\<close> returns the text with its terminating NUL, \<open>None\<close> for \<open>NULL\<close>.\<close>

definition CBS_asn1_oid_to_text :: "allocator \<Rightarrow> bytes \<Rightarrow> bytes option" where
  "CBS_asn1_oid_to_text al cbs = (case CBB_init al 32 of
     (False, _) \<Rightarrow> None
   | (True, s) \<Rightarrow> (case parse_base128_integer cbs of
       (None, _) \<Rightarrow> None
     | (Some v, copy) \<Rightarrow>
         (case (if v \<ge> 80
                then (case CBB_add_bytes 0 [50, 46] s of
                        (False, s1) \<Rightarrow> (False, s1)
                      | (True, s1) \<Rightarrow> add_decimal 0 (v - 80) s1)
                else (case add_decimal 0 (v div 40) s of
                        (False, s1) \<Rightarrow> (False, s1)
                      | (True, s1) \<Rightarrow> (case CBB_add_u8 0 46 s1 of
                          (False, s2) \<Rightarrow> (False, s2)
                        | (True, s2) \<Rightarrow> add_decimal 0 (v mod 40) s2))) of
            (False, _) \<Rightarrow> None
          | (True, s3) \<Rightarrow> (case oid_text_loop copy s3 of
              (False, _) \<Rightarrow> None
            | (True, s4) \<Rightarrow> (case CBB_add_u8 0 0 s4 of
                (False, _) \<Rightarrow> None
              | (True, s5) \<Rightarrow> fst (CBB_finish 0 True s5))))))"

text \<open>The loop of \<open>parse_dotted_decimal\<close>; \<open>out\<close> and \<open>seen_digit\<close> are its variables.\<close>

fun dotted_decimal_loop :: "u64 \<Rightarrow> bool \<Rightarrow> u64 reader" where
  "dotted_decimal_loop out seen_digit [] = (if seen_digit then Some out else None, [])"
| "dotted_decimal_loop out seen_digit (u # cbs) =
     (if u = 46 \<and> CBS_len cbs > 0 then (if seen_digit then Some out else None, cbs)
      else if u < 48 \<or> u > 57 \<or> (seen_digit \<and> out = 0) \<or> out > UINT64_MAX div 10 \<or>
        out * 10 > UINT64_MAX - ucast (u - 48) then (None, cbs)
      else dotted_decimal_loop (out * 10 + ucast (u - 48)) True cbs)"

definition parse_dotted_decimal :: "u64 reader" where
  "parse_dotted_decimal cbs = dotted_decimal_loop 0 False cbs"

text \<open>Every call of \<open>parse_dotted_decimal\<close> on a nonempty string consumes a byte.\<close>

lemma dotted_decimal_loop_length: "dotted_decimal_loop out seen s = (x, r) \<Longrightarrow> length r \<le> length s"
  by (induction out seen s rule: dotted_decimal_loop.induct) (auto split: if_splits)

lemma parse_dotted_decimal_shorter:
  "parse_dotted_decimal s = (x, r) \<Longrightarrow> s \<noteq> [] \<Longrightarrow> length r < length s"
  by (cases s) (auto simp: parse_dotted_decimal_def split: if_splits dest: dotted_decimal_loop_length)

function oid_from_text_loop :: "nat \<Rightarrow> bytes \<Rightarrow> cbb \<Rightarrow> bool \<times> cbb" where
  "oid_from_text_loop d cbs s =
     (if CBS_len cbs > 0
      then (case parse_dotted_decimal cbs of
              (None, _) \<Rightarrow> (False, s)
            | (Some a, cbs') \<Rightarrow> (case add_base128_integer d a s of
                (False, s1) \<Rightarrow> (False, s1)
              | (True, s1) \<Rightarrow> oid_from_text_loop d cbs' s1))
      else (True, s))"
  by pat_completeness auto
termination
  by (relation "measure (\<lambda>(_, cbs, _). length cbs)") (auto dest: parse_dotted_decimal_shorter [OF sym])

declare oid_from_text_loop.simps [simp del]

definition CBB_add_asn1_oid_from_text :: "nat \<Rightarrow> bytes \<Rightarrow> cbb \<Rightarrow> bool \<times> cbb" where
  "CBB_add_asn1_oid_from_text d text s = (case CBB_flush d s of
     (False, s1) \<Rightarrow> (False, s1)
   | (True, s1) \<Rightarrow> (case parse_dotted_decimal text of
       (None, _) \<Rightarrow> (False, s1)
     | (Some a, cbs) \<Rightarrow> (case parse_dotted_decimal cbs of
         (None, _) \<Rightarrow> (False, s1)
       | (Some b, cbs') \<Rightarrow>
           if a > 2 \<or> (a < 2 \<and> b > 39) \<or> b > UINT64_MAX - 80 then (False, s1)
           else (case add_base128_integer d (40 * a + b) s1 of
                   (False, s2) \<Rightarrow> (False, s2)
                 | (True, s2) \<Rightarrow> oid_from_text_loop d cbs' s2))))"

section \<open>Decimal components\<close>

lemma decimal_nonempty [simp]: "decimal n \<noteq> []"
  by (subst decimal.simps) simp

lemma decimal_digit: "n < 10 \<Longrightarrow> decimal n = [of_nat (48 + n)]"
  by (subst decimal.simps) simp

lemma decimal_snoc: "0 < n \<Longrightarrow> k < 10 \<Longrightarrow> decimal (n * 10 + k) = decimal n @ [of_nat (48 + k)]"
  by (subst decimal.simps) simp

lemma digit_word: "k < 10 \<Longrightarrow> unat (of_nat (48 + k) :: u8) = 48 + k"
  by (simp only: unat_of_nat) simp

text \<open>One digit of the loop, in terms of naturals.\<close>

lemma unat_UINT64_MAX: "unat UINT64_MAX = 18446744073709551615"
  by (simp add: UINT64_MAX_def)

lemma dotted_decimal_step:
  assumes n: "n \<le> 18446744073709551615"
  shows "dotted_decimal_loop (of_nat n) seen (u # cbs) =
     (if u = 46 \<and> cbs \<noteq> [] then (if seen then Some (of_nat n) else None, cbs)
      else if unat u < 48 \<or> 57 < unat u \<or> (seen \<and> n = 0) \<or> 18446744073709551615 < n * 10 + (unat u - 48)
      then (None, cbs)
      else dotted_decimal_loop (of_nat (n * 10 + (unat u - 48))) True cbs)"
proof (cases "unat u < 48 \<or> 57 < unat u")
  case True
  then have "u < 48 \<or> u > 57"
    by (auto simp: word_less_nat_alt)
  with True show ?thesis by auto
next
  case False
  have un: "unat (of_nat n :: u64) = n"
    using n by (simp only: unat_of_nat) simp
  have range: "\<not> u < 48" "\<not> u > 57"
    using False by (auto simp: word_less_nat_alt)
  define k where "k = unat u - 48"
  have k: "k < 10"
    using False unfolding k_def by linarith
  have u48: "unat (u - 48) = k"
    using False by (simp add: k_def unat_sub_if')
  then have uk: "unat (ucast (u - 48) :: u64) = k"
    by simp
  then have wk: "(ucast (u - 48) :: u64) = of_nat k"
    by (rule word_of_nat_eqI)
  have zero: "(of_nat n :: u64) = 0 \<longleftrightarrow> n = 0"
    using un by (metis unat_0 word_unat_eq_iff of_nat_0)
  have div: "of_nat n > UINT64_MAX div 10 \<longleftrightarrow> 1844674407370955161 < n"
    by (simp only: word_less_nat_alt un unat_div unat_UINT64_MAX) simp
  have sum: "of_nat n * 10 + ucast (u - 48) = (of_nat (n * 10 + k) :: u64)"
    by (simp add: wk)
  have mul: "of_nat n * 10 > UINT64_MAX - ucast (u - 48) \<longleftrightarrow> 18446744073709551615 - k < n * 10"
    if "n \<le> 1844674407370955161"
  proof -
    have "n * 10 < 2 ^ 64"
      using that by simp
    then have "unat (of_nat n * 10 :: u64) = n * 10"
      using un by (subst unat_mult_lem [THEN iffD1]) simp_all
    moreover have "unat (UINT64_MAX - ucast (u - 48)) = 18446744073709551615 - k"
      using k by (subst unat_sub) (simp_all add: word_le_nat_alt unat_UINT64_MAX u48)
    ultimately show ?thesis
      by (simp only: word_less_nat_alt)
  qed
  have cond: "of_nat n > UINT64_MAX div 10 \<or> of_nat n * 10 > UINT64_MAX - ucast (u - 48) \<longleftrightarrow>
      18446744073709551615 < n * 10 + k"
    using div mul k by (cases "n \<le> 1844674407370955161") auto
  show ?thesis
    using range False cond by (simp add: zero sum flip: k_def)
qed

declare dotted_decimal_loop.simps(2) [simp del]

lemma dotted_decimal_digits:
  "n \<le> 18446744073709551615 \<Longrightarrow>
    dotted_decimal_loop 0 False (decimal n @ s) = dotted_decimal_loop (of_nat n) True s"
proof (induction n arbitrary: s rule: less_induct)
  case (less n)
  define k where "k = n mod 10"
  have k: "k < 10" and u: "unat (of_nat (48 + k) :: u8) = 48 + k"
    using digit_word [of k] by (simp_all add: k_def)
  have dot: "of_nat (48 + k) \<noteq> (46 :: u8)"
  proof
    assume "of_nat (48 + k) = (46 :: u8)"
    with u have "48 + k = unat (46 :: u8)"
      by metis
    then show False by simp
  qed
  show ?case
  proof (cases "n < 10")
    case True
    then have "n = k"
      by (simp add: k_def)
    then have "decimal n = [of_nat (48 + k)]"
      using k by (simp add: decimal_digit)
    then show ?thesis
      using dotted_decimal_step [of 0 False "of_nat (48 + k)" s] dot k \<open>n = k\<close>
      by (simp add: u del: of_nat_add)
  next
    case False
    have n: "n = n div 10 * 10 + k" and pos: "0 < n div 10"
      using False by (simp_all add: k_def)
    have "decimal n = decimal (n div 10) @ [of_nat (48 + k)]"
      using decimal_snoc [OF pos k] n by simp
    then have "dotted_decimal_loop 0 False (decimal n @ s) =
        dotted_decimal_loop (of_nat (n div 10)) True (of_nat (48 + k) # s)"
      using less.IH [of "n div 10"] less.prems pos by (simp del: of_nat_add)
    also have "\<dots> = dotted_decimal_loop (of_nat n) True s"
    proof -
      have "n div 10 \<le> 18446744073709551615"
        using less.prems by linarith
      then show ?thesis
        using dotted_decimal_step [of "n div 10" True "of_nat (48 + k)" s] dot k pos n less.prems
        by (simp add: u del: of_nat_add of_nat_mult)
    qed
    finally show ?thesis .
  qed
qed

lemma dotted_decimal_rest:
  assumes "n \<le> 18446744073709551615" and "dotted_decimal_loop (of_nat n) True s = (Some v, r)"
  shows "\<exists>t. decimal n @ t = decimal (unat v) \<and> (r = [] \<and> s = t \<or> r \<noteq> [] \<and> s = t @ 46 # r)"
  using assms
proof (induction s arbitrary: n)
  case Nil
  then have "unat v = n"
    by (simp only: dotted_decimal_loop.simps prod.inject if_True option.inject)
      (auto simp: unat_of_nat)
  with Nil show ?case by simp
next
  case (Cons u s)
  note step = dotted_decimal_step [OF Cons.prems(1), of True u s]
  show ?case
  proof (cases "u = 46 \<and> s \<noteq> []")
    case True
    then have "v = of_nat n" "r = s"
      using Cons.prems(2) step by auto
    moreover have "unat (of_nat n :: u64) = n"
      using Cons.prems(1) by (simp only: unat_of_nat) simp
    ultimately show ?thesis
      using True by (intro exI [of _ "[]"]) simp
  next
    case False
    define k where "k = unat u - 48"
    have ok: "48 \<le> unat u" "unat u \<le> 57" "n \<noteq> 0" "n * 10 + k \<le> 18446744073709551615"
      and run: "dotted_decimal_loop (of_nat (n * 10 + k)) True s = (Some v, r)"
      using Cons.prems(2) False unfolding step k_def by (auto split: if_splits simp del: of_nat_add of_nat_mult)
    obtain t where t: "decimal (n * 10 + k) @ t = decimal (unat v)"
      "r = [] \<and> s = t \<or> r \<noteq> [] \<and> s = t @ 46 # r"
      using Cons.IH [OF ok(4) run] by blast
    have "u = of_nat (48 + k)"
      using ok(1) by (simp add: k_def)
    moreover have "k < 10"
      using ok(1,2) unfolding k_def by linarith
    ultimately have "decimal (n * 10 + k) = decimal n @ [u]"
      using decimal_snoc [of n k] ok(3) by simp
    with t show ?thesis
      by (intro exI [of _ "u # t"]) auto
  qed
qed

lemma parse_dotted_decimal_sound:
  assumes "parse_dotted_decimal s = (Some v, r)"
  shows "r = [] \<and> s = decimal (unat v) \<or> r \<noteq> [] \<and> s = decimal (unat v) @ 46 # r"
proof (cases s)
  case Nil
  with assms show ?thesis by (simp add: parse_dotted_decimal_def)
next
  case (Cons u cbs)
  define k where "k = unat u - 48"
  have ok: "48 \<le> unat u" "unat u \<le> 57" and run: "dotted_decimal_loop (of_nat k) True cbs = (Some v, r)"
    using assms dotted_decimal_step [of 0 False u cbs]
    unfolding Cons parse_dotted_decimal_def k_def by (auto split: if_splits)
  have k: "k < 10"
    using ok unfolding k_def by linarith
  have "u = of_nat (48 + k)"
    using ok(1) by (simp add: k_def)
  then have "decimal k = [u]"
    using k by (simp add: decimal_digit)
  with dotted_decimal_rest [OF _ run] k Cons show ?thesis by auto
qed

section \<open>OIDs\<close>

text \<open>An OID is the list of its components; \<open>dotted\<close> is its text.\<close>

fun dotted :: "nat list \<Rightarrow> bytes" where
  "dotted [] = []"
| "dotted [n] = decimal n"
| "dotted (n # m # ns) = decimal n @ 46 # dotted (m # ns)"

definition oid_ok :: "nat list \<Rightarrow> bool" where
  "oid_ok ns \<longleftrightarrow> (case ns of
     a # b # rest \<Rightarrow> a \<le> 2 \<and> (a < 2 \<longrightarrow> b \<le> 39) \<and> 40 * a + b < 2 ^ 64 \<and> (\<forall>n \<in> set rest. n < 2 ^ 64)
   | _ \<Rightarrow> False)"

definition oid_der :: "nat list \<Rightarrow> bytes" where
  "oid_der ns = (case ns of a # b # rest \<Rightarrow> base128 (40 * a + b) @ concat (map base128 rest) | _ \<Rightarrow> [])"

lemma dotted_eq: "dotted (n # ns) = decimal n @ concat (map (\<lambda>m. 46 # decimal m) ns)"
  by (induction ns arbitrary: n) auto

lemma dotted_Nil_iff [simp]: "dotted ns = [] \<longleftrightarrow> ns = []"
  by (cases ns) (simp_all add: dotted_eq)

lemma parse_dotted_decimal_dotted:
  assumes "n < 2 ^ 64"
  shows "parse_dotted_decimal (dotted (n # ns)) = (Some (of_nat n), dotted ns)"
proof -
  have n: "n \<le> 18446744073709551615"
    using assms by simp
  show ?thesis
  proof (cases ns)
    case Nil
    then show ?thesis
      using dotted_decimal_digits [OF n, of "[]"] by (simp add: parse_dotted_decimal_def)
  next
    case (Cons m ms)
    then have "dotted (m # ms) \<noteq> []"
      by simp
    then show ?thesis
      using dotted_decimal_digits [OF n, of "46 # dotted (m # ms)"]
        dotted_decimal_step [OF n, of True 46 "dotted (m # ms)"] Cons
      by (simp add: parse_dotted_decimal_def)
  qed
qed

text \<open>A nonempty text whose first component parses is a dotted text if the rest is.\<close>

lemma dotted_Cons_sound:
  assumes "parse_dotted_decimal s = (Some v, r)" and "r = dotted ns"
  shows "s = dotted (unat v # ns)"
  using parse_dotted_decimal_sound [OF assms(1)] assms(2) by (cases ns) auto

lemma oid_from_text_loop_complete:
  "\<forall>n \<in> set ns. n < 2 ^ 64 \<Longrightarrow>
    oid_from_text_loop d (dotted ns) s = put_all (CBB_add_u8 d) (concat (map base128 ns)) s"
proof (induction ns arbitrary: s)
  case Nil
  then show ?case by (simp add: oid_from_text_loop.simps)
next
  case (Cons n ns)
  have n: "n < 2 ^ 64" "unat (of_nat n :: u64) = n"
    using Cons.prems by (simp_all only: unat_of_nat list.set_intros) simp_all
  have "0 < length (dotted (n # ns))"
    by (simp add: dotted_eq)
  then have "oid_from_text_loop d (dotted (n # ns)) s =
      (case put_all (CBB_add_u8 d) (base128 n) s of
         (False, s1) \<Rightarrow> (False, s1)
       | (True, s1) \<Rightarrow> oid_from_text_loop d (dotted ns) s1)"
    by (subst oid_from_text_loop.simps)
      (simp add: parse_dotted_decimal_dotted [OF n(1)] add_base128_integer_eq n(2))
  then show ?case
    using Cons by (simp add: put_all_append split: prod.splits bool.splits)
qed

lemma oid_from_text_loop_sound:
  "oid_from_text_loop d cbs s = (True, s') \<Longrightarrow>
    \<exists>ns. cbs = dotted ns \<and> (\<forall>n \<in> set ns. n < 2 ^ 64)"
proof (induction "length cbs" arbitrary: cbs s rule: less_induct)
  case less
  show ?case
  proof (cases "cbs = []")
    case True
    then show ?thesis by (intro exI [of _ "[]"]) simp
  next
    case False
    then obtain v r s1 where v: "parse_dotted_decimal cbs = (Some v, r)"
      and run: "oid_from_text_loop d r s1 = (True, s')"
      using less.prems
      by (subst (asm) oid_from_text_loop.simps) (auto split: prod.splits option.splits bool.splits)
    obtain ns where ns: "r = dotted ns" "\<forall>n \<in> set ns. n < 2 ^ 64"
      using less.hyps [OF _ run] parse_dotted_decimal_shorter [OF v False] by blast
    have "unat v < 2 ^ 64"
      using unsigned_less [of v, where ?'a = nat] by simp
    with ns(2) have "\<forall>n \<in> set (unat v # ns). n < 2 ^ 64"
      by simp
    with dotted_Cons_sound [OF v ns(1)] show ?thesis
      by blast
  qed
qed

section \<open>CBB_add_asn1_oid_from_text\<close>

lemma oid_from_text_checks:
  fixes a b :: u64
  shows "\<not> (a > 2 \<or> (a < 2 \<and> b > 39) \<or> b > UINT64_MAX - 80) \<longleftrightarrow>
    unat a \<le> 2 \<and> (unat a < 2 \<longrightarrow> unat b \<le> 39) \<and> 40 * unat a + unat b < 2 ^ 64" (is "\<not> ?bad \<longleftrightarrow> ?ok")
    and "\<not> (a > 2 \<or> (a < 2 \<and> b > 39) \<or> b > UINT64_MAX - 80) \<Longrightarrow> unat (40 * a + b) = 40 * unat a + unat b"
proof -
  have m: "unat (UINT64_MAX - 80) = 18446744073709551535"
    by (subst unat_sub) (simp_all add: word_le_nat_alt unat_UINT64_MAX)
  have bad: "?bad \<longleftrightarrow> 2 < unat a \<or> (unat a < 2 \<and> 39 < unat b) \<or> 18446744073709551535 < unat b"
    by (simp only: word_less_nat_alt m) simp
  show eq: "\<not> ?bad \<longleftrightarrow> ?ok"
    unfolding bad by auto
  assume "\<not> ?bad"
  then have ok: "unat a \<le> 2" "40 * unat a + unat b < 2 ^ 64"
    unfolding eq by auto
  then have "unat (40 * a) = 40 * unat a"
    by (subst unat_mult_lem [THEN iffD1]) simp_all
  then show "unat (40 * a + b) = 40 * unat a + unat b"
    using ok(2) by (subst unat_plus_small) simp_all
qed

lemma CBB_add_asn1_oid_from_text_complete:
  assumes "oid_ok ns" and "cbb_at d s"
  shows "CBB_add_asn1_oid_from_text d (dotted ns) s = put_all (CBB_add_u8 d) (oid_der ns) s"
proof -
  obtain a b rest where ns: "ns = a # b # rest" and a: "a \<le> 2" "a < 2 \<longrightarrow> b \<le> 39" "40 * a + b < 2 ^ 64"
    and rest: "\<forall>n \<in> set rest. n < 2 ^ 64"
    using assms(1) by (auto simp: oid_ok_def split: list.splits)
  have ab: "a < 2 ^ 64" "b < 2 ^ 64"
    using a by simp_all
  then have u: "unat (of_nat a :: u64) = a" "unat (of_nat b :: u64) = b"
    by (simp_all only: unat_of_nat) simp_all
  have ok: "\<not> ((of_nat a :: u64) > 2 \<or> ((of_nat a :: u64) < 2 \<and> (of_nat b :: u64) > 39) \<or> of_nat b > UINT64_MAX - 80)"
    unfolding oid_from_text_checks(1) u using a by simp
  then have sum: "unat (40 * of_nat a + of_nat b :: u64) = 40 * a + b"
    using oid_from_text_checks(2) u by metis
  show ?thesis
    unfolding CBB_add_asn1_oid_from_text_def CBB_flush_innermost [OF assms(2)] ns
      parse_dotted_decimal_dotted [OF ab(1)] parse_dotted_decimal_dotted [OF ab(2)]
      prod.case bool.case option.case if_not_P [OF ok] add_base128_integer_eq sum
      oid_from_text_loop_complete [OF rest]
    by (simp add: oid_der_def put_all_append split: prod.splits bool.splits)
qed

lemma CBB_add_asn1_oid_from_text_sound:
  assumes "CBB_add_asn1_oid_from_text d text s = (True, s')"
  shows "\<exists>ns. oid_ok ns \<and> text = dotted ns"
proof -
  obtain s1 a cbs b cbs' s2 where a: "parse_dotted_decimal text = (Some a, cbs)"
    and b: "parse_dotted_decimal cbs = (Some b, cbs')"
    and ok: "\<not> (a > 2 \<or> (a < 2 \<and> b > 39) \<or> b > UINT64_MAX - 80)"
    and run: "oid_from_text_loop d cbs' s2 = (True, s')"
    using assms unfolding CBB_add_asn1_oid_from_text_def
    by (auto split: prod.splits bool.splits option.splits if_splits)
  obtain ns where ns: "cbs' = dotted ns" "\<forall>n \<in> set ns. n < 2 ^ 64"
    using oid_from_text_loop_sound [OF run] by blast
  have "text = dotted (unat a # unat b # ns)"
    by (rule dotted_Cons_sound [OF a dotted_Cons_sound [OF b ns(1)]])
  moreover have "oid_ok (unat a # unat b # ns)"
    using ok [unfolded oid_from_text_checks(1)] ns(2) by (simp add: oid_ok_def)
  ultimately show ?thesis by blast
qed

lemma CBB_add_asn1_oid_from_text_wrote:
  assumes "CBB_add_asn1_oid_from_text d text s = (True, s')" and "cbb_at d s"
  shows "\<exists>ns. oid_ok ns \<and> text = dotted ns \<and> cbb_wrote d (oid_der ns) s s'"
proof -
  obtain ns where ns: "oid_ok ns" "text = dotted ns"
    using CBB_add_asn1_oid_from_text_sound [OF assms(1)] by blast
  then have "put_all (CBB_add_u8 d) (oid_der ns) s = (True, s')"
    using CBB_add_asn1_oid_from_text_complete [OF ns(1) assms(2)] assms(1) by simp
  with ns assms(2) show ?thesis
    using cbb_sink.put_all_wrote by blast
qed

section \<open>CBS_asn1_oid_to_text\<close>

lemma length_decimal: "n < 10 ^ Suc k \<Longrightarrow> length (decimal n) \<le> Suc k"
proof (induction k arbitrary: n)
  case 0
  then show ?case by (subst decimal.simps) simp
next
  case (Suc k)
  have "n div 10 < 10 ^ Suc k"
    using Suc.prems by (simp add: less_mult_imp_div_less mult.commute)
  then have "length (decimal (n div 10)) \<le> Suc k" by (rule Suc.IH)
  then show ?case by (subst decimal.simps) simp
qed

lemma length_decimal_u64: "length (decimal (unat v)) \<le> 20" for v :: u64
proof -
  have "unat v < 2 ^ 64"
    using unsigned_less [of v, where ?'a = nat] by simp
  also have "(2::nat) ^ 64 < 10 ^ Suc 19" by simp
  finally show ?thesis
    using length_decimal [of "unat v" 19] by simp
qed

lemma add_decimal_wrote:
  "add_decimal d v s = (True, s') \<Longrightarrow> cbb_at d s \<Longrightarrow> cbb_wrote d (decimal (unat v)) s s'"
  using length_decimal_u64 [of v] by (auto simp: add_decimal_def SIZE_MAX_def intro: CBB_add_bytes_wrote)

lemma add_decimal_roomy:
  "cbb_at d s \<Longrightarrow> cbb_roomy (length (decimal (unat v))) s \<Longrightarrow> \<exists>s'. add_decimal d v s = (True, s')"
  by (simp add: add_decimal_def CBB_add_bytes_roomy)

text \<open>The text of the components after the first, each behind a dot.\<close>

definition dotted_rest :: "nat list \<Rightarrow> bytes" where
  "dotted_rest ns = concat (map (\<lambda>m. 46 # decimal m) ns)"

lemma oid_text_loop_wrote:
  "oid_text_loop copy s = (True, s') \<Longrightarrow> cbb_at 0 s \<Longrightarrow>
    \<exists>ns. copy = concat (map base128 ns) \<and> (\<forall>n \<in> set ns. n < 2 ^ 64) \<and> cbb_wrote 0 (dotted_rest ns) s s'"
proof (induction "length copy" arbitrary: copy s rule: less_induct)
  case less
  show ?case
  proof (cases "copy = []")
    case True
    then have "s' = s"
      using less.prems(1) by (simp add: oid_text_loop.simps)
    then show ?thesis
      using True less.prems(2) by (intro exI [of _ "[]"]) (simp add: dotted_rest_def cbb_wrote_refl)
  next
    case False
    then obtain v r s1 s2 where v: "parse_base128_integer copy = (Some v, r)"
      and s1: "CBB_add_u8 0 46 s = (True, s1)" and s2: "add_decimal 0 v s1 = (True, s2)"
      and run: "oid_text_loop r s2 = (True, s')"
      using less.prems(1)
      by (subst (asm) oid_text_loop.simps) (auto split: prod.splits option.splits bool.splits)
    have w1: "cbb_wrote 0 [46] s s1"
      using s1 less.prems(2) by (rule CBB_add_u8_wrote)
    then have w2: "cbb_wrote 0 (decimal (unat v)) s1 s2"
      using s2 by (intro add_decimal_wrote cbb_sink.wrote_ready)
    obtain ns where ns: "r = concat (map base128 ns)" "\<forall>n \<in> set ns. n < 2 ^ 64"
      and w: "cbb_wrote 0 (dotted_rest ns) s2 s'"
      using less.hyps [OF base128.dec_shorter [OF v] run cbb_sink.wrote_ready [OF w2]] by blast
    have "cbb_wrote 0 (dotted_rest (unat v # ns)) s s'"
      using cbb_wrote_trans [OF cbb_wrote_trans [OF w1 w2] w] by (simp add: dotted_rest_def)
    moreover have "copy = concat (map base128 (unat v # ns))"
      using base128.enc_dec [OF v] ns(1) by simp
    moreover have "\<forall>n \<in> set (unat v # ns). n < 2 ^ 64"
      using ns(2) unsigned_less [of v, where ?'a = nat] by simp
    ultimately show ?thesis by blast
  qed
qed

lemma oid_text_loop_roomy:
  "\<forall>n \<in> set ns. n < 2 ^ 64 \<Longrightarrow> cbb_at 0 s \<Longrightarrow> cbb_roomy (length (dotted_rest ns)) s \<Longrightarrow>
    \<exists>s'. oid_text_loop (concat (map base128 ns)) s = (True, s')"
proof (induction ns arbitrary: s)
  case Nil
  then show ?case by (simp add: oid_text_loop.simps)
next
  case (Cons n ns)
  have n: "unat (of_nat n :: u64) = n"
    using Cons.prems(1) by (simp only: unat_of_nat list.set_intros) simp
  have parse: "parse_base128_integer (base128 n @ t) = (Some (of_nat n), t)" for t
    using base128.dec_enc [of "of_nat n" t] n by simp
  have room: "cbb_roomy (length [46 :: u8] + (length (decimal n) + length (dotted_rest ns))) s"
    using Cons.prems(3) by (simp add: dotted_rest_def)
  then obtain s1 where s1: "CBB_add_u8 0 46 s = (True, s1)"
    using CBB_add_u8_roomy [OF Cons.prems(2)] cbb_sink.room_mono [OF room, of 1] by auto
  have w1: "cbb_wrote 0 [46] s s1"
    using s1 Cons.prems(2) by (rule CBB_add_u8_wrote)
  note at1 = cbb_sink.wrote_ready [OF w1] and room1 = cbb_roomy_wrote [OF w1 room]
  then obtain s2 where s2: "add_decimal 0 (of_nat n) s1 = (True, s2)"
    using add_decimal_roomy [OF at1, of "of_nat n"] cbb_sink.room_mono [OF room1, of "length (decimal n)"]
    by (auto simp: n)
  have w2: "cbb_wrote 0 (decimal n) s1 s2"
    using add_decimal_wrote [OF s2 at1] by (simp add: n)
  obtain s' where "oid_text_loop (concat (map base128 ns)) s2 = (True, s')"
    using Cons.IH [OF _ cbb_sink.wrote_ready [OF w2] cbb_roomy_wrote [OF w2 room1]] Cons.prems(1) by auto
  then show ?case
    using s1 s2 by (subst oid_text_loop.simps) (simp add: parse)
qed

text \<open>The first two components.\<close>

definition oid_text_first :: "u64 \<Rightarrow> cbb \<Rightarrow> bool \<times> cbb" where
  "oid_text_first v s =
     (if v \<ge> 80
      then (case CBB_add_bytes 0 [50, 46] s of
              (False, s1) \<Rightarrow> (False, s1)
            | (True, s1) \<Rightarrow> add_decimal 0 (v - 80) s1)
      else (case add_decimal 0 (v div 40) s of
              (False, s1) \<Rightarrow> (False, s1)
            | (True, s1) \<Rightarrow> (case CBB_add_u8 0 46 s1 of
                (False, s2) \<Rightarrow> (False, s2)
              | (True, s2) \<Rightarrow> add_decimal 0 (v mod 40) s2)))"

definition oid_first :: "nat \<Rightarrow> nat list" where
  "oid_first n = (if n \<ge> 80 then [2, n - 80] else [n div 40, n mod 40])"

lemma CBS_asn1_oid_to_text_eq:
  "CBS_asn1_oid_to_text al cbs = (case CBB_init al 32 of
     (False, _) \<Rightarrow> None
   | (True, s) \<Rightarrow> (case parse_base128_integer cbs of
       (None, _) \<Rightarrow> None
     | (Some v, copy) \<Rightarrow>
         (case oid_text_first v s of
            (False, _) \<Rightarrow> None
          | (True, s3) \<Rightarrow> (case oid_text_loop copy s3 of
              (False, _) \<Rightarrow> None
            | (True, s4) \<Rightarrow> (case CBB_add_u8 0 0 s4 of
                (False, _) \<Rightarrow> None
              | (True, s5) \<Rightarrow> fst (CBB_finish 0 True s5))))))"
  unfolding CBS_asn1_oid_to_text_def oid_text_first_def ..

lemma unat_first:
  fixes v :: u64
  shows "v \<ge> 80 \<longleftrightarrow> 80 \<le> unat v" and "80 \<le> unat v \<Longrightarrow> unat (v - 80) = unat v - 80"
    and "unat (v div 40) = unat v div 40" and "unat (v mod 40) = unat v mod 40"
proof -
  show "v \<ge> 80 \<longleftrightarrow> 80 \<le> unat v"
    by (simp add: word_le_nat_alt)
  show "unat (v - 80) = unat v - 80" if "80 \<le> unat v"
    using that by (subst unat_sub) (simp_all add: word_le_nat_alt)
qed (simp_all add: unat_div unat_mod)

lemma decimal_2: "decimal 2 = [50]"
  by (simp add: decimal_digit)

lemma oid_text_first_wrote:
  assumes "oid_text_first v s = (True, s')" and at: "cbb_at 0 s"
  shows "cbb_wrote 0 (dotted (oid_first (unat v))) s s'"
proof (cases "80 \<le> unat v")
  case True
  then obtain s1 where s1: "CBB_add_bytes 0 [50, 46] s = (True, s1)" "add_decimal 0 (v - 80) s1 = (True, s')"
    using assms(1) by (auto simp: oid_text_first_def unat_first(1) split: prod.splits bool.splits)
  have w1: "cbb_wrote 0 [50, 46] s s1"
    using s1(1) at by (rule CBB_add_bytes_wrote) (simp add: SIZE_MAX_def)
  have "cbb_wrote 0 (decimal (unat v - 80)) s1 s'"
    using add_decimal_wrote [OF s1(2) cbb_sink.wrote_ready [OF w1]] True by (simp add: unat_first(2))
  from cbb_wrote_trans [OF w1 this] show ?thesis
    using True by (simp add: oid_first_def decimal_2)
next
  case False
  then obtain s1 s2 where s1: "add_decimal 0 (v div 40) s = (True, s1)" "CBB_add_u8 0 46 s1 = (True, s2)"
    "add_decimal 0 (v mod 40) s2 = (True, s')"
    using assms(1) by (auto simp: oid_text_first_def unat_first(1) split: prod.splits bool.splits)
  have w1: "cbb_wrote 0 (decimal (unat v div 40)) s s1"
    using add_decimal_wrote [OF s1(1) at] by (simp only: unat_first(3))
  have w2: "cbb_wrote 0 [46] s1 s2"
    using s1(2) cbb_sink.wrote_ready [OF w1] by (rule CBB_add_u8_wrote)
  have "cbb_wrote 0 (decimal (unat v mod 40)) s2 s'"
    using add_decimal_wrote [OF s1(3) cbb_sink.wrote_ready [OF w2]] by (simp only: unat_first(4))
  from cbb_wrote_trans [OF cbb_wrote_trans [OF w1 w2] this] show ?thesis
    using False by (simp add: oid_first_def)
qed

lemma oid_text_first_roomy:
  assumes at: "cbb_at 0 s" and room: "cbb_roomy (length (dotted (oid_first (unat v)))) s"
  shows "\<exists>s'. oid_text_first v s = (True, s')"
proof (cases "80 \<le> unat v")
  case True
  have room: "cbb_roomy (length [50 :: u8, 46] + length (decimal (unat v - 80))) s"
    using room True by (simp add: oid_first_def decimal_2)
  then obtain s1 where s1: "CBB_add_bytes 0 [50, 46] s = (True, s1)"
    using CBB_add_bytes_roomy [OF at cbb_sink.room_mono [OF room, of "length [50 :: u8, 46]"]] by auto
  have w1: "cbb_wrote 0 [50, 46] s s1"
    using s1 at by (rule CBB_add_bytes_wrote) (simp add: SIZE_MAX_def)
  obtain s2 where "add_decimal 0 (v - 80) s1 = (True, s2)"
    using add_decimal_roomy [OF cbb_sink.wrote_ready [OF w1], of "v - 80"] cbb_roomy_wrote [OF w1 room] True
    by (auto simp: unat_first(2))
  with True s1 show ?thesis
    by (simp add: oid_text_first_def unat_first(1))
next
  case False
  have room: "cbb_roomy (length (decimal (unat v div 40)) + (length [46 :: u8] + length (decimal (unat v mod 40)))) s"
    using room False by (simp add: oid_first_def)
  then obtain s1 where s1: "add_decimal 0 (v div 40) s = (True, s1)"
    using add_decimal_roomy [OF at, of "v div 40"] cbb_sink.room_mono [OF room, of "length (decimal (unat v div 40))"]
    by (auto simp: unat_first(3))
  have w1: "cbb_wrote 0 (decimal (unat v div 40)) s s1"
    using add_decimal_wrote [OF s1 at] by (simp only: unat_first(3))
  note at1 = cbb_sink.wrote_ready [OF w1] and room1 = cbb_roomy_wrote [OF w1 room]
  obtain s2 where s2: "CBB_add_u8 0 46 s1 = (True, s2)"
    using CBB_add_u8_roomy [OF at1 cbb_sink.room_mono [OF room1]] by auto
  have w2: "cbb_wrote 0 [46] s1 s2"
    using s2 at1 by (rule CBB_add_u8_wrote)
  obtain s3 where "add_decimal 0 (v mod 40) s2 = (True, s3)"
    using add_decimal_roomy [OF cbb_sink.wrote_ready [OF w2], of "v mod 40"] cbb_roomy_wrote [OF w2 room1]
    by (auto simp: unat_first(4))
  with False s1 s2 show ?thesis
    by (simp add: oid_text_first_def unat_first(1))
qed

text \<open>\<open>oid_first\<close> undoes the packing of the first two components.\<close>

lemma oid_first_packed:
  assumes "a \<le> 2" and "a < 2 \<longrightarrow> b \<le> 39"
  shows "oid_first (40 * a + b) = [a, b]"
proof -
  consider "a = 0" | "a = 1" | "a = 2"
    using assms(1) by linarith
  then show ?thesis
  proof cases
    case 2
    have "(40 + b) div 40 = Suc (b div 40)" "(40 + b) mod 40 = b mod 40"
      by simp_all
    with 2 assms(2) show ?thesis
      by (simp add: oid_first_def)
  qed (use assms(2) in \<open>simp_all add: oid_first_def\<close>)
qed

lemma oid_first_ok:
  obtains a b where "oid_first n = [a, b]" "n = 40 * a + b" "a \<le> 2" "a < 2 \<longrightarrow> b \<le> 39"
proof (cases "80 \<le> n")
  case True
  show ?thesis
    by (rule that [of 2 "n - 80"]) (use True in \<open>simp_all add: oid_first_def\<close>)
next
  case False
  then have "n div 40 < 2" by (simp add: less_mult_imp_div_less)
  then show ?thesis
    by (intro that [of "n div 40" "n mod 40"])
      (use False mod_less_divisor [of 40 n] in \<open>auto simp: oid_first_def simp del: mod_less_divisor\<close>)
qed

lemma dotted_append: "ns \<noteq> [] \<Longrightarrow> dotted (ns @ ms) = dotted ns @ dotted_rest ms"
  by (cases ns) (simp_all add: dotted_eq dotted_rest_def)

lemma oid_to_text_sound:
  assumes "CBS_asn1_oid_to_text al bs = Some txt"
  shows "\<exists>ns. oid_ok ns \<and> bs = oid_der ns \<and> txt = dotted ns @ [0]"
proof -
  obtain s v copy s3 s4 s5 where ini: "CBB_init al 32 = (True, s)"
    and v: "parse_base128_integer bs = (Some v, copy)"
    and s3: "oid_text_first v s = (True, s3)" and s4: "oid_text_loop copy s3 = (True, s4)"
    and s5: "CBB_add_u8 0 0 s4 = (True, s5)" and fin: "fst (CBB_finish 0 True s5) = Some txt"
    using assms unfolding CBS_asn1_oid_to_text_eq by (auto split: prod.splits bool.splits option.splits)
  have at: "cbb_at 0 s" "cbb_buf s = []"
    using CBB_init_at [OF ini] by (simp_all add: SIZE_MAX_def)
  note w3 = oid_text_first_wrote [OF s3 at(1)]
  obtain ns where ns: "copy = concat (map base128 ns)" "\<forall>n \<in> set ns. n < 2 ^ 64"
    and w4: "cbb_wrote 0 (dotted_rest ns) s3 s4"
    using oid_text_loop_wrote [OF s4 cbb_sink.wrote_ready [OF w3]] by blast
  note w5 = CBB_add_u8_wrote [OF s5 cbb_sink.wrote_ready [OF w4]]
  have "cbb_buf s5 = dotted (oid_first (unat v)) @ dotted_rest ns @ [0]"
    using cbb_wrote_trans [OF cbb_wrote_trans [OF w3 w4] w5] at(2) by (simp add: cbb_wrote_def)
  then have tx: "txt = dotted (oid_first (unat v)) @ dotted_rest ns @ [0]"
    using fin CBB_finish_innermost [OF cbb_sink.wrote_ready [OF w5]] by simp
  obtain a b where ab: "oid_first (unat v) = [a, b]" "unat v = 40 * a + b" "a \<le> 2" "a < 2 \<longrightarrow> b \<le> 39"
    by (rule oid_first_ok)
  have "40 * a + b < 2 ^ 64"
    using unsigned_less [of v, where ?'a = nat] ab(2) by simp
  then have "oid_ok ([a, b] @ ns)"
    using ab(3,4) ns(2) by (simp add: oid_ok_def)
  moreover have "bs = oid_der ([a, b] @ ns)"
    using base128.enc_dec [OF v] ns(1) ab(2) by (simp add: oid_der_def)
  moreover have "txt = dotted ([a, b] @ ns) @ [0]"
    by (subst dotted_append) (simp_all add: tx ab(1))
  ultimately show ?thesis by blast
qed

lemma oid_to_text_complete:
  assumes "oid_ok ns" and len: "length (dotted ns) < SIZE_MAX"
  shows "CBS_asn1_oid_to_text unlimited (oid_der ns) = Some (dotted ns @ [0])"
proof -
  obtain a b rest where ns: "ns = [a, b] @ rest" and a: "a \<le> 2" "a < 2 \<longrightarrow> b \<le> 39" "40 * a + b < 2 ^ 64"
    and rest: "\<forall>n \<in> set rest. n < 2 ^ 64"
    using assms(1) by (auto simp: oid_ok_def split: list.splits)
  define v where "v = (of_nat (40 * a + b) :: u64)"
  have v: "unat v = 40 * a + b"
    using a(3) unfolding v_def by (simp only: unat_of_nat) simp
  have first: "oid_first (unat v) = [a, b]"
    using oid_first_packed [OF a(1,2)] v by simp
  have parse: "parse_base128_integer (oid_der ns) = (Some v, concat (map base128 rest))"
    using base128.dec_enc [of v "concat (map base128 rest)"] v by (simp add: ns oid_der_def)
  obtain s where ini: "CBB_init unlimited 32 = (True, s)"
    by (simp add: CBB_init_def cbb_init_def)
  have at: "cbb_at 0 s" "cbb_buf s = []" "cbb_env s = Some (True, unlimited)"
    using CBB_init_at [OF ini] by (simp_all add: SIZE_MAX_def)
  have tx: "dotted ns = dotted [a, b] @ dotted_rest rest"
    unfolding ns by (rule dotted_append) simp
  have room: "cbb_roomy (length (dotted [a, b]) + (length (dotted_rest rest) + 1)) s"
    using at len by (simp add: cbb_roomy_def tx)
  obtain s3 where s3: "oid_text_first v s = (True, s3)"
    using oid_text_first_roomy [OF at(1), of v] cbb_sink.room_mono [OF room, of "length (dotted [a, b])"]
    by (auto simp: first)
  note w3 = oid_text_first_wrote [OF s3 at(1), unfolded first]
  note at3 = cbb_sink.wrote_ready [OF w3] and room3 = cbb_roomy_wrote [OF w3 room]
  obtain s4 where s4: "oid_text_loop (concat (map base128 rest)) s3 = (True, s4)"
    using oid_text_loop_roomy [OF rest at3 cbb_sink.room_mono [OF room3]] by auto
  have w4: "cbb_wrote 0 (dotted_rest rest) s3 s4"
  proof -
    obtain ns' where ns': "concat (map base128 rest) = concat (map base128 ns')"
      "\<forall>n \<in> set ns'. n < 2 ^ 64" "cbb_wrote 0 (dotted_rest ns') s3 s4"
      using oid_text_loop_wrote [OF s4 at3] by blast
    have u: "map (\<lambda>n. base128 (unat (of_nat n :: u64))) ms = map base128 ms" if "\<forall>n \<in> set ms. n < 2 ^ 64" for ms
      using that by (induction ms) (simp_all add: unat_of_nat)
    have "map of_nat rest = (map of_nat ns' :: u64 list)"
      by (rule base128.concat_enc_inject) (simp_all add: comp_def u [OF rest] u [OF ns'(2)] ns'(1))
    then have "map (\<lambda>n. unat (of_nat n :: u64)) rest = map (\<lambda>n. unat (of_nat n :: u64)) ns'"
      by (metis (no_types, lifting) list.map_comp comp_def map_eq_conv)
    then have "rest = ns'"
      using rest ns'(2) by (simp add: map_idI unat_of_nat cong: map_cong)
    with ns'(3) show ?thesis by simp
  qed
  obtain s5 where s5: "CBB_add_u8 0 0 s4 = (True, s5)"
    using CBB_add_u8_roomy [OF cbb_sink.wrote_ready [OF w4] cbb_roomy_wrote [OF w4 room3]] by blast
  note w5 = CBB_add_u8_wrote [OF s5 cbb_sink.wrote_ready [OF w4]]
  have "cbb_buf s5 = dotted ns @ [0]"
    using cbb_wrote_trans [OF cbb_wrote_trans [OF w3 w4] w5] at(2) by (simp add: cbb_wrote_def tx)
  then show ?thesis
    using CBB_finish_innermost [OF cbb_sink.wrote_ready [OF w5]]
    by (simp add: CBS_asn1_oid_to_text_eq ini parse s3 s4 s5)
qed

section \<open>Both directions\<close>

text \<open>
  C14: OIDs as text.  \<open>CBS_asn1_oid_to_text\<close> answers only on the DER contents of an OID (first two
  components packed, every component minimal and below 2^64), with its dotted decimal form and a
  NUL, and with memory it answers on all of them; \<open>CBB_add_asn1_oid_from_text\<close> accepts only dotted
  forms and writes those contents, so what it writes is printed back as the text it was given; and wherever the
  builder has room it accepts the dotted form of every OID.
\<close>
theorem oid_text_roundtrip:
  "(CBS_asn1_oid_to_text al bs = Some t \<longrightarrow> (\<exists>ns. oid_ok ns \<and> bs = oid_der ns \<and> t = dotted ns @ [0])) \<and>
   (oid_ok ns \<and> length (dotted ns) < SIZE_MAX \<longrightarrow>
      CBS_asn1_oid_to_text unlimited (oid_der ns) = Some (dotted ns @ [0])) \<and>
   (CBB_add_asn1_oid_from_text d tx s = (True, s') \<and> cbb_at d s \<and> length tx < SIZE_MAX \<longrightarrow>
      (\<exists>bs. cbb_wrote d bs s s' \<and> CBS_asn1_oid_to_text unlimited bs = Some (tx @ [0]))) \<and>
   (oid_ok ns \<and> cbb_at d s \<and> cbb_roomy (length (oid_der ns)) s \<longrightarrow>
      (\<exists>s2. CBB_add_asn1_oid_from_text d (dotted ns) s = (True, s2) \<and> cbb_wrote d (oid_der ns) s s2))"
proof (intro conjI impI)
  assume "CBS_asn1_oid_to_text al bs = Some t"
  then show "\<exists>ns. oid_ok ns \<and> bs = oid_der ns \<and> t = dotted ns @ [0]"
    by (rule oid_to_text_sound)
next
  assume "oid_ok ns \<and> length (dotted ns) < SIZE_MAX"
  then show "CBS_asn1_oid_to_text unlimited (oid_der ns) = Some (dotted ns @ [0])"
    using oid_to_text_complete by blast
next
  assume "CBB_add_asn1_oid_from_text d tx s = (True, s') \<and> cbb_at d s \<and> length tx < SIZE_MAX"
  then show "\<exists>bs. cbb_wrote d bs s s' \<and> CBS_asn1_oid_to_text unlimited bs = Some (tx @ [0])"
    using CBB_add_asn1_oid_from_text_wrote [of d tx s s'] oid_to_text_complete by blast
next
  assume "oid_ok ns \<and> cbb_at d s \<and> cbb_roomy (length (oid_der ns)) s"
  then show "\<exists>s2. CBB_add_asn1_oid_from_text d (dotted ns) s = (True, s2) \<and> cbb_wrote d (oid_der ns) s s2"
    using cbb_sink.put_all_succeeds [of d s "oid_der ns"] cbb_sink.put_all_wrote [of d s "oid_der ns"]
      CBB_add_asn1_oid_from_text_complete [of ns d s] by fastforce
qed

lemma oid_text_roundtrip_witness:
  "CBS_asn1_oid_to_text unlimited (oid_der [2, 999, 3]) = Some (dotted [2, 999, 3] @ [0]) \<and>
   (let s = \<lparr>base = Some \<lparr>buf = [], cap = 8, can_resize = True, error = False, alloc = unlimited\<rparr>, children = []\<rparr>
    in \<exists>s2. CBB_add_asn1_oid_from_text 0 [50, 46, 57, 57, 57, 46, 51] s = (True, s2) \<and> cbb_wrote 0 [136, 55, 3] s s2)"
proof -
  define s where
    "s = \<lparr>base = Some \<lparr>buf = [], cap = 8, can_resize = True, error = False, alloc = unlimited\<rparr>, children = []\<rparr>"
  have n: "length (dotted [2, 999, 3]) < SIZE_MAX" "oid_ok [2, 999, 3]"
    "dotted [2, 999, 3] = [50, 46, 57, 57, 57, 46, 51]"
    by (simp_all add: dotted_eq decimal.simps SIZE_MAX_def oid_ok_def)
  have d: "oid_der [2, 999, 3] = [136, 55, 3]"
    by code_simp
  have at: "cbb_at 0 s" "cbb_roomy (length [136, 55, 3 :: u8]) s"
    by (simp_all add: s_def cbb_at_def cbb_ok_def buffer_ok_def SIZE_MAX_def cbb_roomy_def cbb_env_def cbb_buf_def)
  show ?thesis
    using oid_text_roundtrip [where ns = "[2, 999, 3]" and d = 0 and s = s] n at
    by (simp only: d Let_def s_def [symmetric] append_Cons append_Nil simp_thms)
qed

end
