(* ===== verification/Qsort.thy ===== *)
theory Qsort
  imports Prelude "HOL-Library.Multiset"
begin

text \<open>
  C comparison functions and \<open>qsort\<close>.  A comparison returns a negative, zero or positive
  \<open>int\<close>; \<open>comparator\<close> is the contract the C library asks of it.  The C standard leaves the order
  of equal elements open; \<open>qsort\<close> here is one sorting function that keeps it, and
  \<open>qsort_unique\<close> says when the choice cannot matter.
\<close>

type_synonym 'a cmp = "'a \<Rightarrow> 'a \<Rightarrow> int"

fun insert_cmp :: "'a cmp \<Rightarrow> 'a \<Rightarrow> 'a list \<Rightarrow> 'a list" where
  "insert_cmp cmp x [] = [x]"
| "insert_cmp cmp x (y # ys) = (if cmp x y \<le> 0 then x # y # ys else y # insert_cmp cmp x ys)"

fun qsort :: "'a cmp \<Rightarrow> 'a list \<Rightarrow> 'a list" where
  "qsort cmp [] = []"
| "qsort cmp (x # xs) = insert_cmp cmp x (qsort cmp xs)"

definition cmp_sorted :: "'a cmp \<Rightarrow> 'a list \<Rightarrow> bool" where
  "cmp_sorted cmp xs = sorted_wrt (\<lambda>a b. cmp a b \<le> 0) xs"

lemma mset_insert_cmp [simp]: "mset (insert_cmp cmp x ys) = {#x#} + mset ys"
  by (induction ys) auto

lemma mset_qsort [simp]: "mset (qsort cmp xs) = mset xs"
  by (induction xs) auto

lemma set_qsort [simp]: "set (qsort cmp xs) = set xs"
  by (metis mset_qsort set_mset_mset)

lemma length_qsort [simp]: "length (qsort cmp xs) = length xs"
  by (metis mset_qsort size_mset)

lemma set_insert_cmp [simp]: "set (insert_cmp cmp x ys) = insert x (set ys)"
  by (induction ys) auto

locale comparator =
  fixes cmp :: "'a cmp"
  assumes cmp_sym: "cmp a b < 0 \<longleftrightarrow> 0 < cmp b a"
    and cmp_trans: "cmp a b \<le> 0 \<Longrightarrow> cmp b c \<le> 0 \<Longrightarrow> cmp a c \<le> 0"
begin

lemma cmp_refl: "cmp a a = 0"
  using cmp_sym [of a a] by linarith

lemma cmp_total: "cmp a b \<le> 0 \<or> cmp b a \<le> 0"
  using cmp_sym [of b a] by linarith

lemma cmp_zero_sym: "cmp a b = 0 \<longleftrightarrow> cmp b a = 0"
  using cmp_sym [of a b] cmp_sym [of b a] by linarith

lemma sorted_insert: "cmp_sorted cmp ys \<Longrightarrow> cmp_sorted cmp (insert_cmp cmp x ys)"
proof (induction ys)
  case Nil
  then show ?case by (simp add: cmp_sorted_def)
next
  case (Cons y ys)
  show ?case
  proof (cases "cmp x y \<le> 0")
    case True
    with Cons.prems show ?thesis
      by (auto simp: cmp_sorted_def intro: cmp_trans)
  next
    case False
    with Cons cmp_total [of x y] show ?thesis
      by (auto simp: cmp_sorted_def)
  qed
qed

lemma sorted_qsort: "cmp_sorted cmp (qsort cmp xs)"
  by (induction xs) (simp_all add: sorted_insert cmp_sorted_def [of cmp "[]"])

lemma insert_first: "\<forall>y \<in> set ys. cmp x y \<le> 0 \<Longrightarrow> insert_cmp cmp x ys = x # ys"
  by (cases ys) auto

lemma qsort_sorted: "cmp_sorted cmp xs \<Longrightarrow> qsort cmp xs = xs"
  by (induction xs) (auto simp: cmp_sorted_def insert_first)

lemma qsort_idem: "qsort cmp (qsort cmp xs) = qsort cmp xs"
  by (rule qsort_sorted [OF sorted_qsort])

end

text \<open>When only equal elements compare as zero, a list has one sorted permutation.\<close>

locale comparator_total = comparator +
  assumes cmp_eq: "cmp a b = 0 \<Longrightarrow> a = b"
begin

lemma cmp_antisym: "cmp a b \<le> 0 \<Longrightarrow> cmp b a \<le> 0 \<Longrightarrow> a = b"
  using cmp_sym [of a b] cmp_eq [of a b] by linarith

lemma sorted_unique:
  "cmp_sorted cmp xs \<Longrightarrow> cmp_sorted cmp ys \<Longrightarrow> mset xs = mset ys \<Longrightarrow> xs = ys"
proof (induction xs arbitrary: ys)
  case Nil
  then show ?case by simp
next
  case (Cons x xs)
  then obtain y zs where ys: "ys = y # zs"
    by (cases ys) auto
  have "x \<in># mset ys" "y \<in># mset (x # xs)"
    using Cons.prems(3) ys by (metis list.set_intros(1) set_mset_mset)+
  then have "x = y"
    using Cons.prems(1,2) cmp_refl by (auto simp: ys cmp_sorted_def intro: cmp_antisym)
  moreover from this have "xs = zs"
    using Cons ys by (intro Cons.IH) (simp_all add: cmp_sorted_def)
  ultimately show ?case by (simp add: ys)
qed

lemma qsort_unique: "cmp_sorted cmp ys \<Longrightarrow> mset ys = mset xs \<Longrightarrow> ys = qsort cmp xs"
  by (rule sorted_unique) (simp_all add: sorted_qsort)

end

end
