(* ===== verification/Set_Of.thy ===== *)
theory Set_Of
  imports Cbb_Der Qsort
begin

unbundle bit_operations_syntax

text \<open>
  \<open>CBB_flush_asn1_set_of\<close> of \<open>cbb.c\<close>: the elements written into a \<open>CBB\<close> are put into the DER
  order of a SET OF.  The order is a total one, so the result does not depend on how \<open>qsort\<close>
  treats equal elements, nor on the order in which the elements were added.
\<close>

section \<open>The comparison\<close>

text \<open>\<open>OPENSSL_memcmp\<close>: the difference at the first byte that differs.\<close>

fun OPENSSL_memcmp :: "bytes \<Rightarrow> bytes \<Rightarrow> nat \<Rightarrow> int" where
  "OPENSSL_memcmp (a # as) (b # bs) (Suc n) =
     (if a \<noteq> b then int (unat a) - int (unat b) else OPENSSL_memcmp as bs n)"
| "OPENSSL_memcmp as bs n = 0"

definition compare_set_of_element :: "bytes \<Rightarrow> bytes \<Rightarrow> int" where
  "compare_set_of_element a b =
     (let a_len = CBS_len a; b_len = CBS_len b;
          min_len = (if a_len < b_len then a_len else b_len);
          ret = OPENSSL_memcmp (CBS_data a) (CBS_data b) min_len
      in if ret \<noteq> 0 then ret
         else if a_len = b_len then 0
         else if a_len < b_len then -1 else 1)"

lemma compare_Nil [simp]:
  "compare_set_of_element [] b = (if b = [] then 0 else -1)"
  "compare_set_of_element a [] = (if a = [] then 0 else 1)"
  by (auto simp: compare_set_of_element_def Let_def)

lemma compare_Cons [simp]:
  "compare_set_of_element (a # as) (b # bs) =
    (if a \<noteq> b then int (unat a) - int (unat b) else compare_set_of_element as bs)"
proof -
  have min: "(if Suc n < Suc m then Suc n else Suc m) = Suc (if n < m then n else m)" for n m :: nat
    by simp
  have "int (unat a) - int (unat b) \<noteq> 0" if "a \<noteq> b"
    using that by (metis eq_iff_diff_eq_0 of_nat_eq_iff word_unat_eq_iff)
  then show ?thesis
    unfolding compare_set_of_element_def Let_def CBS_len_eq CBS_data_eq list.size(4) add_Suc_right
      add_0_right min OPENSSL_memcmp.simps(1)
    by simp
qed

interpretation set_of: comparator_total compare_set_of_element
proof
  show "compare_set_of_element a b < 0 \<longleftrightarrow> 0 < compare_set_of_element b a" for a b
  proof (induction a arbitrary: b)
    case (Cons x a)
    then show ?case by (cases b) auto
  qed auto
  show "compare_set_of_element a b \<le> 0 \<Longrightarrow> compare_set_of_element b c \<le> 0 \<Longrightarrow>
    compare_set_of_element a c \<le> 0" for a b c
  proof (induction a arbitrary: b c)
    case (Cons x a)
    then obtain y b' where b: "b = y # b'"
      by (cases b) auto
    obtain z c' where c: "c = z # c'"
      using Cons.prems b by (cases c) auto
    show ?case
    proof (cases "x = y \<and> y = z")
      case True
      with Cons b c show ?thesis by simp
    next
      case False
      have le: "uint x \<le> uint y" "uint y \<le> uint z"
        using Cons.prems b c by (auto simp: split: if_splits)
      have "x \<noteq> z"
      proof
        assume "x = z"
        with le have "uint x = uint y" by simp
        with False \<open>x = z\<close> show False by (simp add: word_uint_eq_iff)
      qed
      then show ?thesis
        using le by (simp add: b c)
    qed
  qed auto
  show "compare_set_of_element a b = 0 \<Longrightarrow> a = b" for a b
  proof (induction a arbitrary: b)
    case Nil
    then show ?case by (simp split: if_splits)
  next
    case (Cons x a)
    then obtain y b' where b: "b = y # b'"
      by (cases b) auto
    have "x = y"
      using Cons.prems b by (auto simp: word_unat_eq_iff split: if_splits)
    with Cons b show ?case by simp
  qed
qed

section \<open>The operation\<close>

text \<open>The counting loop, and the loop that collects \<open>n\<close> children.\<close>

lemma any_element_shorter:
  "CBS_get_any_asn1_element s = (Some x, r) \<Longrightarrow> length r < length s"
  by (cases x) (auto simp: CBS_get_any_asn1_element_iff der_element_def der_header_def)

function set_of_count :: "nat \<Rightarrow> bytes \<Rightarrow> nat option" where
  "set_of_count num_children cbs =
     (if CBS_len cbs \<noteq> 0
      then (case CBS_get_any_asn1_element cbs of
              (None, _) \<Rightarrow> None
            | (Some _, cbs') \<Rightarrow> set_of_count (num_children + 1) cbs')
      else Some num_children)"
  by pat_completeness auto
termination
  by (relation "measure (\<lambda>(_, cbs). length cbs)") (auto dest: any_element_shorter [OF sym])

declare set_of_count.simps [simp del]

fun set_of_children :: "nat \<Rightarrow> bytes \<Rightarrow> bytes list option" where
  "set_of_children 0 cbs = Some []"
| "set_of_children (Suc n) cbs = (case CBS_get_any_asn1_element cbs of
     (None, _) \<Rightarrow> None
   | (Some (child, _, _), cbs') \<Rightarrow> map_option ((#) child) (set_of_children n cbs'))"

fun set_of_write :: "nat \<Rightarrow> bytes list \<Rightarrow> cbb \<Rightarrow> bool \<times> cbb" where
  "set_of_write d [] s = (True, s)"
| "set_of_write d (c # cs) s = (case CBB_add_bytes d (CBS_data c) s of
     (False, s') \<Rightarrow> (False, s')
   | (True, s') \<Rightarrow> set_of_write d cs s')"

definition sizeof_CBS :: nat where
  "sizeof_CBS = 16"

definition CBB_flush_asn1_set_of :: "nat \<Rightarrow> cbb \<Rightarrow> bool \<times> cbb" where
  "CBB_flush_asn1_set_of d s = (case CBB_flush d s of
     (False, s1) \<Rightarrow> (False, s1)
   | (True, s1) \<Rightarrow> (case base s1 of
       None \<Rightarrow> (False, s1)
     | Some b \<Rightarrow> (case set_of_count 0 (CBS_init (CBB_data d s1) (CBB_len d s1)) of
         None \<Rightarrow> (False, s1)
       | Some num_children \<Rightarrow>
           if num_children < 2 then (True, s1)
           else if num_children > SIZE_MAX div sizeof_CBS then (False, s1)
           else if \<not> alloc b (CBB_len d s1) \<or> \<not> alloc b (num_children * sizeof_CBS) then (False, s1)
           else (case set_of_children num_children (CBS_init (CBB_data d s1) (CBB_len d s1)) of
                   None \<Rightarrow> (False, s1)
                 | Some cs \<Rightarrow>
                     set_of_write d (qsort compare_set_of_element cs)
                       (s1\<lparr>base := Some (b\<lparr>buf := take (cbb_start d s1) (buf b)\<rparr>)\<rparr>)))))"

section \<open>What it does\<close>

text \<open>\<open>cs\<close> are DER elements.\<close>

definition der_elements :: "bytes list \<Rightarrow> bool" where
  "der_elements cs \<longleftrightarrow> (\<forall>c \<in> set cs. \<exists>t x. length x < 4294967296 \<and> c = der_element t x)"

lemma any_element_append:
  "length x < 4294967296 \<Longrightarrow>
    \<exists>hl. CBS_get_any_asn1_element (der_element t x @ r) = (Some (der_element t x, t, hl), r)"
  by (auto simp: CBS_get_any_asn1_element_iff)

lemma set_of_count_complete:
  "der_elements cs \<Longrightarrow> set_of_count k (concat cs) = Some (k + length cs)"
proof (induction cs arbitrary: k)
  case Nil
  then show ?case by (simp add: set_of_count.simps)
next
  case (Cons c cs)
  then obtain t x where c: "c = der_element t x" "length x < 4294967296"
    by (auto simp: der_elements_def)
  then obtain hl where "CBS_get_any_asn1_element (concat (c # cs)) = (Some (c, t, hl), concat cs)"
    using any_element_append [OF c(2), of t "concat cs"] c(1) by auto
  moreover have "c \<noteq> []"
    by (simp add: c der_element_def der_header_def)
  ultimately show ?case
    using Cons by (subst set_of_count.simps) (simp add: der_elements_def)
qed

lemma set_of_count_sound:
  "set_of_count k s = Some n \<Longrightarrow> \<exists>cs. der_elements cs \<and> s = concat cs \<and> n = k + length cs"
proof (induction k s rule: set_of_count.induct)
  case (1 k s)
  show ?case
  proof (cases "s = []")
    case True
    with "1.prems" show ?thesis
      by (intro exI [of _ "[]"]) (simp add: set_of_count.simps der_elements_def)
  next
    case False
    then obtain c t hl r where c: "CBS_get_any_asn1_element s = (Some (c, t, hl), r)"
      and n: "set_of_count (k + 1) r = Some n"
      using "1.prems" by (subst (asm) set_of_count.simps) (auto split: prod.splits option.splits)
    then obtain cs where cs: "der_elements cs" "r = concat cs" "n = k + 1 + length cs"
      using "1.IH" [OF _ _ _ n] False c by auto
    then show ?thesis
      using c by (intro exI [of _ "c # cs"]) (auto simp: CBS_get_any_asn1_element_iff der_elements_def)
  qed
qed

lemma set_of_children_complete:
  "der_elements cs \<Longrightarrow> set_of_children (length cs) (concat cs) = Some cs"
proof (induction cs)
  case (Cons c cs)
  then obtain t x where c: "c = der_element t x" "length x < 4294967296"
    by (auto simp: der_elements_def)
  then obtain hl where "CBS_get_any_asn1_element (concat (c # cs)) = (Some (c, t, hl), concat cs)"
    using any_element_append [OF c(2), of t "concat cs"] c(1) by auto
  with Cons show ?case
    by (simp add: der_elements_def)
qed simp

lemma set_of_write_eq:
  assumes "cbb_at d s" and "base s = Some b" and "length (buf b) + length (concat cs) \<le> cap b"
  shows "set_of_write d cs s = (True, s\<lparr>base := Some (b\<lparr>buf := buf b @ concat cs\<rparr>)\<rparr>)"
  using assms
proof (induction cs arbitrary: s b)
  case Nil
  then show ?case by simp
next
  case (Cons c cs)
  have ok: "buffer_ok b" "\<not> error b" "frames_ok 0 (children s) (length (buf b))" "length (children s) = d"
    using Cons.prems(1,2) by (auto simp: cbb_at_def cbb_ok_def)
  have "size_add (length (buf b)) (length c) = length (buf b) + length c"
    using Cons.prems(3) ok(1) by (intro size_add_no_wrap) (simp add: buffer_ok_def)
  then have add: "cbb_buffer_add c b = (True, b\<lparr>buf := buf b @ c\<rparr>)"
    using Cons.prems(3) by (simp add: cbb_buffer_add_def cbb_buffer_reserve_def)
  let ?s = "s\<lparr>base := Some (b\<lparr>buf := buf b @ c\<rparr>)\<rparr>"
  have "CBB_add_bytes d c s = (True, ?s)"
    by (simp add: CBB_add_bytes_def cbb_then_innermost [OF Cons.prems(1,2)] add)
  moreover have "cbb_at d ?s"
    using ok Cons.prems(3) frames_ok_mono [OF ok(3), of "length (buf b @ c)"]
    by (simp add: cbb_at_def cbb_ok_def buffer_ok_def)
  ultimately show ?case
    using Cons.IH [of ?s "b\<lparr>buf := buf b @ c\<rparr>"] Cons.prems(3) by simp
qed

text \<open>
  On a \<open>CBB\<close> whose contents are the elements \<open>cs\<close> the call succeeds, given memory, and leaves
  them sorted.
\<close>

lemma CBB_flush_asn1_set_of_sorts:
  assumes at: "cbb_at d s" and b: "base s = Some b" and cs: "der_elements cs"
    and buf: "buf b = pre @ concat cs" and pre: "length pre = cbb_start d s"
    and mem: "length cs \<le> SIZE_MAX div 16" "alloc b = unlimited"
  shows "CBB_flush_asn1_set_of d s =
    (True, s\<lparr>base := Some (b\<lparr>buf := pre @ concat (qsort compare_set_of_element cs)\<rparr>)\<rparr>)"
proof -
  have data: "CBB_data d s = concat cs" "CBB_len d s = length (concat cs)"
    using b buf pre by (simp_all add: CBB_data_def CBB_len_def)
  have same: "s\<lparr>base := Some (b\<lparr>buf := pre @ concat cs\<rparr>)\<rparr> = s"
    using b buf by (cases s, cases b) simp
  show ?thesis
  proof (cases "length cs < 2")
    case True
    then have "qsort compare_set_of_element cs = cs"
      by (cases cs) (simp_all add: less_2_cases_iff)
    with True show ?thesis
      unfolding CBB_flush_asn1_set_of_def CBB_flush_innermost [OF at]
      using same by (simp add: b data set_of_count_complete [OF cs])
  next
    case False
    let ?s = "s\<lparr>base := Some (b\<lparr>buf := pre\<rparr>)\<rparr>"
    have ok: "buffer_ok b" "\<not> error b" "frames_ok 0 (children s) (length (buf b))" "length (children s) = d"
      using at b by (auto simp: cbb_at_def cbb_ok_def)
    have "frames_ok 0 (children s) (length pre)"
    proof (cases "d = 0")
      case True
      with ok(4) show ?thesis by simp
    next
      case False
      then obtain fs f where fs: "children s = fs @ [f]"
        using ok(4) by (metis append_butlast_last_id length_0_conv)
      then have "d = Suc (length fs)"
        using ok(4) by simp
      then have "length pre = offset f + pending_len_len f"
        using pre fs by (simp add: cbb_start_def)
      with ok(3) fs show ?thesis
        by (simp add: frames_ok_snoc)
    qed
    then have at': "cbb_at d ?s"
      using ok by (simp add: cbb_at_def cbb_ok_def buffer_ok_def buf)
    have len: "length (concat (qsort compare_set_of_element cs)) = length (concat cs)"
    proof -
      have "mset (concat (qsort compare_set_of_element cs)) = mset (concat cs)"
        by (simp add: mset_concat flip: sum_mset_sum_list)
      then show ?thesis
        by (metis size_mset)
    qed
    have "set_of_write d (qsort compare_set_of_element cs) ?s =
        (True, s\<lparr>base := Some (b\<lparr>buf := pre @ concat (qsort compare_set_of_element cs)\<rparr>)\<rparr>)"
      using set_of_write_eq [OF at', of "b\<lparr>buf := pre\<rparr>" "qsort compare_set_of_element cs"] ok(1)
      by (simp add: len buf buffer_ok_def)
    then show ?thesis
      unfolding CBB_flush_asn1_set_of_def CBB_flush_innermost [OF at]
      using False mem buf pre
      by (simp add: b data set_of_count_complete [OF cs] set_of_children_complete [OF cs] sizeof_CBS_def)
  qed
qed

lemma CBB_flush_asn1_set_of_sound:
  assumes at: "cbb_at d s" and b: "base s = Some b" and run: "CBB_flush_asn1_set_of d s = (True, s')"
  shows "\<exists>cs. der_elements cs \<and> CBB_data d s = concat cs"
proof -
  have "CBS_init (CBB_data d s) (CBB_len d s) = CBB_data d s"
    using b by (simp add: CBB_data_def CBB_len_def)
  then obtain n where "set_of_count 0 (CBB_data d s) = Some n"
    using run unfolding CBB_flush_asn1_set_of_def CBB_flush_innermost [OF at]
    by (auto simp: b split: option.splits)
  then show ?thesis
    using set_of_count_sound by blast
qed

section \<open>Canonical order\<close>

text \<open>
  The order of X.690, section 11.6: the encodings are compared octet by octet, the shorter one as if it were
  padded with zero octets at its end.
\<close>

fun x690_le :: "bytes \<Rightarrow> bytes \<Rightarrow> bool" where
  "x690_le [] bs = True"
| "x690_le (a # as) [] = (a = 0 \<and> x690_le as [])"
| "x690_le (a # as) (b # bs) = (a < b \<or> a = b \<and> x690_le as bs)"

lemma compare_x690: "compare_set_of_element a b \<le> 0 \<Longrightarrow> x690_le a b"
proof (induction a b rule: x690_le.induct)
  case (3 a as b bs)
  show ?case
  proof (cases "a = b")
    case False
    then have "a \<le> b" using 3(2) by (simp add: word_le_def)
    then show ?thesis using False by simp
  qed (use 3 in simp)
qed auto

lemma cmp_sorted_x690: "cmp_sorted compare_set_of_element es \<Longrightarrow> sorted_wrt x690_le es"
  unfolding cmp_sorted_def by (erule sorted_wrt_mono_rel [rotated]) (rule compare_x690)

text \<open>
  C15: DER SET OF.  If the innermost \<open>CBB\<close> holds DER elements, \<open>CBB_flush_asn1_set_of\<close> succeeds and
  rewrites them in the ascending order of X.690 of their encodings; the result depends only on the multiset of
  elements, not on the order in which they were written, and the bytes before the \<open>CBB\<close> stay.
\<close>
theorem set_of_canonical:
  assumes "cbb_at d s" and "base s = Some b" and "der_elements cs"
    and "buf b = pre @ concat cs" and "length pre = cbb_start d s"
    and "length cs \<le> SIZE_MAX div 16" and "alloc b = unlimited" and "mset cs' = mset cs"
  shows "CBB_flush_asn1_set_of d s =
      (True, s\<lparr>base := Some (b\<lparr>buf := pre @ concat (qsort compare_set_of_element cs')\<rparr>)\<rparr>) \<and>
    sorted_wrt x690_le (qsort compare_set_of_element cs') \<and>
    mset (qsort compare_set_of_element cs') = mset cs"
proof -
  have "qsort compare_set_of_element cs' = qsort compare_set_of_element cs"
    using set_of.qsort_unique [OF set_of.sorted_qsort [of cs']] assms(8) by simp
  then show ?thesis
    using CBB_flush_asn1_set_of_sorts [OF assms(1-7)] cmp_sorted_x690 [OF set_of.sorted_qsort [of cs']] assms(8) by simp
qed

lemma set_of_canonical_witness:
  "let b = \<lparr>buf = [4, 1, 9, 4, 1, 7], cap = 8, can_resize = True, error = False, alloc = unlimited\<rparr>
   in CBB_flush_asn1_set_of 0 \<lparr>base = Some b, children = []\<rparr> =
      (True, \<lparr>base = Some (b\<lparr>buf := [4, 1, 7, 4, 1, 9]\<rparr>), children = []\<rparr>)"
proof -
  define b where "b = \<lparr>buf = [4, 1, 9, 4, 1, 7 :: u8], cap = 8, can_resize = True, error = False, alloc = unlimited\<rparr>"
  have e: "der_element 4 [9] = [4, 1, 9]" "der_element 4 [7] = [4, 1, 7]"
    by (simp_all add: der_element_def der_header_def der_len_def asn1_tag_bytes_def)
  have "\<exists>t x. length x < 4294967296 \<and> [4, 1, 9 :: u8] = der_element t x"
    "\<exists>t x. length x < 4294967296 \<and> [4, 1, 7 :: u8] = der_element t x"
    unfolding e [symmetric] by (rule exI, rule exI, rule conjI [OF _ refl], simp)+
  then have "der_elements [[4, 1, 9], [4, 1, 7]]"
    by (simp add: der_elements_def)
  then have "CBB_flush_asn1_set_of 0 \<lparr>base = Some b, children = []\<rparr> =
      (True, \<lparr>base = Some (b\<lparr>buf := [] @ concat (qsort compare_set_of_element [[4, 1, 7], [4, 1, 9]])\<rparr>), children = []\<rparr>)"
    using set_of_canonical [of 0 "\<lparr>base = Some b, children = []\<rparr>" b "[[4, 1, 9], [4, 1, 7]]" "[]" "[[4, 1, 7], [4, 1, 9]]"]
    by (simp add: b_def cbb_at_def cbb_ok_def buffer_ok_def SIZE_MAX_def cbb_start_def add_mset_commute)
  moreover have "qsort compare_set_of_element [[4, 1, 7], [4, 1, 9 :: u8]] = [[4, 1, 7], [4, 1, 9]]"
    by code_simp
  ultimately show ?thesis
    by (simp add: b_def Let_def)
qed

end
