(* ===== verification/Unicode.thy ===== *)
theory Unicode
  imports Cbb_Codec
begin

unbundle bit_operations_syntax

text \<open>
  \<open>crypto/bytestring/unicode.c\<close>: readers and writers of code points in UTF-8, Latin-1, UCS-2 and
  UTF-32 (big-endian).  Each pair is interpreted as a \<open>cbb_codec\<close>; for UTF-8 this includes
  that overlong forms, surrogates and noncharacters are rejected on both sides.
\<close>

section \<open>Operations\<close>

definition is_valid_code_point :: "u32 \<Rightarrow> bool" where
  "is_valid_code_point v =
     (if v > 0x10ffff \<or> v AND 0xfffe = 0xfffe \<or> (v \<ge> 0xfdd0 \<and> v \<le> 0xfdef) \<or>
         (v \<ge> 0xd800 \<and> v \<le> 0xdfff)
      then False else True)"

definition BOTTOM_BITS :: "nat \<Rightarrow> u8" where
  "BOTTOM_BITS n = ucast (push_bit n 1 - 1 :: u32)"

definition TOP_BITS :: "nat \<Rightarrow> u8" where
  "TOP_BITS n = NOT (BOTTOM_BITS (8 - n))"

fun utf8_continue :: "nat \<Rightarrow> u32 \<Rightarrow> u32 reader" where
  "utf8_continue 0 v cbs = (Some v, cbs)"
| "utf8_continue (Suc n) v cbs = (case CBS_get_u8 cbs of
     (None, cbs') \<Rightarrow> (None, cbs')
   | (Some c, cbs') \<Rightarrow>
       if c AND TOP_BITS 2 \<noteq> TOP_BITS 1 then (None, cbs')
       else utf8_continue n (push_bit 6 v OR ucast (c AND BOTTOM_BITS 6)) cbs')"

definition cbs_get_utf8 :: "u32 reader" where
  "cbs_get_utf8 cbs = (case CBS_get_u8 cbs of
     (None, cbs') \<Rightarrow> (None, cbs')
   | (Some c, cbs') \<Rightarrow>
       if c \<le> 0x7f then (Some (ucast c), cbs')
       else
         let start =
           (if c AND TOP_BITS 3 = TOP_BITS 2 then Some (ucast (c AND BOTTOM_BITS 5), 1, 0x80)
            else if c AND TOP_BITS 4 = TOP_BITS 3 then Some (ucast (c AND BOTTOM_BITS 4), 2, 0x800)
            else if c AND TOP_BITS 5 = TOP_BITS 4 then Some (ucast (c AND BOTTOM_BITS 3), 3, 0x10000)
            else None)
         in case start of
              None \<Rightarrow> (None, cbs')
            | Some (v, len, lower_bound) \<Rightarrow> (case utf8_continue len v cbs' of
                (None, cbs'') \<Rightarrow> (None, cbs'')
              | (Some v, cbs'') \<Rightarrow>
                  if \<not> is_valid_code_point v \<or> v < lower_bound then (None, cbs'') else (Some v, cbs'')))"

definition cbs_get_latin1 :: "u32 reader" where
  "cbs_get_latin1 cbs = (case CBS_get_u8 cbs of
     (None, cbs') \<Rightarrow> (None, cbs')
   | (Some c, cbs') \<Rightarrow> (Some (ucast c), cbs'))"

definition cbs_get_ucs2_be :: "u32 reader" where
  "cbs_get_ucs2_be cbs = (case CBS_get_u16 cbs of
     (None, cbs') \<Rightarrow> (None, cbs')
   | (Some c, cbs') \<Rightarrow> if \<not> is_valid_code_point (ucast c) then (None, cbs') else (Some (ucast c), cbs'))"

definition cbs_get_utf32_be :: "u32 reader" where
  "cbs_get_utf32_be cbs = (case CBS_get_u32 cbs of
     (None, cbs') \<Rightarrow> (None, cbs')
   | (Some v, cbs') \<Rightarrow> if is_valid_code_point v then (Some v, cbs') else (None, cbs'))"

definition cbb_get_utf8_len :: "u32 \<Rightarrow> nat" where
  "cbb_get_utf8_len u = (if u \<le> 0x7f then 1 else if u \<le> 0x7ff then 2 else if u \<le> 0xffff then 3 else 4)"

text \<open>Adding bytes one after the other, stopping at the first failure (the \<open>&&\<close> chains).\<close>

definition cbb_add_utf8 :: "nat \<Rightarrow> u32 \<Rightarrow> cbb \<Rightarrow> bool \<times> cbb" where
  "cbb_add_utf8 d u s =
     (if \<not> is_valid_code_point u then (False, s)
      else if u \<le> 0x7f then CBB_add_u8 d (ucast u) s
      else if u \<le> 0x7ff then
        put_all (CBB_add_u8 d)
          [ucast (ucast (TOP_BITS 2) OR drop_bit 6 u),
           ucast (ucast (TOP_BITS 1) OR (u AND ucast (BOTTOM_BITS 6)))] s
      else if u \<le> 0xffff then
        put_all (CBB_add_u8 d)
          [ucast (ucast (TOP_BITS 3) OR drop_bit 12 u),
           ucast (ucast (TOP_BITS 1) OR (drop_bit 6 u AND ucast (BOTTOM_BITS 6))),
           ucast (ucast (TOP_BITS 1) OR (u AND ucast (BOTTOM_BITS 6)))] s
      else if u \<le> 0x10ffff then
        put_all (CBB_add_u8 d)
          [ucast (ucast (TOP_BITS 4) OR drop_bit 18 u),
           ucast (ucast (TOP_BITS 1) OR (drop_bit 12 u AND ucast (BOTTOM_BITS 6))),
           ucast (ucast (TOP_BITS 1) OR (drop_bit 6 u AND ucast (BOTTOM_BITS 6))),
           ucast (ucast (TOP_BITS 1) OR (u AND ucast (BOTTOM_BITS 6)))] s
      else (False, s))"

definition cbb_add_latin1 :: "nat \<Rightarrow> u32 \<Rightarrow> cbb \<Rightarrow> bool \<times> cbb" where
  "cbb_add_latin1 d u s = (if u \<le> 0xff then CBB_add_u8 d (ucast u) s else (False, s))"

definition cbb_add_ucs2_be :: "nat \<Rightarrow> u32 \<Rightarrow> cbb \<Rightarrow> bool \<times> cbb" where
  "cbb_add_ucs2_be d u s =
     (if u \<le> 0xffff \<and> is_valid_code_point u then CBB_add_u16 d (ucast u) s else (False, s))"

definition cbb_add_utf32_be :: "nat \<Rightarrow> u32 \<Rightarrow> cbb \<Rightarrow> bool \<times> cbb" where
  "cbb_add_utf32_be d u s = (if is_valid_code_point u then CBB_add_u32 d u s else (False, s))"

section \<open>The masks\<close>

lemma bits_values [simp]:
  "TOP_BITS 1 = 0x80" "TOP_BITS 2 = 0xc0" "TOP_BITS 3 = 0xe0" "TOP_BITS 4 = 0xf0" "TOP_BITS 5 = 0xf8"
  "BOTTOM_BITS 3 = 7" "BOTTOM_BITS 4 = 0xf" "BOTTOM_BITS 5 = 0x1f" "BOTTOM_BITS 6 = 0x3f"
  by (simp_all add: TOP_BITS_def BOTTOM_BITS_def)

lemma TOP_BITS_1' [simp]: "TOP_BITS (Suc 0) = 0x80"
  using bits_values(1) by simp

lemma unat_and_low: "m = mask k \<Longrightarrow> unat (c AND m) = unat c mod 2 ^ k"
proof -
  assume "m = mask k"
  then have "c AND m = take_bit k c"
    by (simp only: take_bit_eq_mask)
  then show ?thesis
    by (simp only: unsigned_take_bit_eq) (simp add: take_bit_eq_mod)
qed

lemma unat_and_high:
  fixes c :: "'a::len word"
  assumes "m = NOT (mask k)"
  shows "unat (c AND m) = unat c div 2 ^ k * 2 ^ k"
proof -
  have "c AND m = push_bit k (drop_bit k c)"
    unfolding assms by (rule bit_word_eqI) (auto simp: bit_simps)
  moreover have "unat c div 2 ^ k * 2 ^ k < 2 ^ LENGTH('a)"
    using unsigned_less [of c, where ?'a = nat] by (rule order_le_less_trans [rotated]) simp
  ultimately show ?thesis
    by (simp add: unat_push_bit_small unat_drop_bit_div)
qed

lemma unat_low_masks:
  fixes c :: u8 and u :: u32
  shows "unat (c AND 7) = unat c mod 8" "unat (c AND 0xf) = unat c mod 16"
    "unat (c AND 0x1f) = unat c mod 32" "unat (c AND 0x3f) = unat c mod 64"
    "unat (u AND 0x3f) = unat u mod 64"
proof -
  have "(7 :: u8) = mask 3" "(0xf :: u8) = mask 4" "(0x1f :: u8) = mask 5" "(0x3f :: u8) = mask 6"
    "(0x3f :: u32) = mask 6"
    by (simp_all add: mask_eq_exp_minus_1)
  from this [THEN unat_and_low] show
    "unat (c AND 7) = unat c mod 8" "unat (c AND 0xf) = unat c mod 16"
    "unat (c AND 0x1f) = unat c mod 32" "unat (c AND 0x3f) = unat c mod 64"
    "unat (u AND 0x3f) = unat u mod 64"
    by simp_all
qed

lemma high_masks:
  fixes c :: u8
  shows "c AND 0xc0 = 0x80 \<longleftrightarrow> unat c div 64 = 2" "c AND 0xe0 = 0xc0 \<longleftrightarrow> unat c div 32 = 6"
    "c AND 0xf0 = 0xe0 \<longleftrightarrow> unat c div 16 = 14" "c AND 0xf8 = 0xf0 \<longleftrightarrow> unat c div 8 = 30"
proof -
  have m: "(0xc0 :: u8) = NOT (mask 6)" "(0xe0 :: u8) = NOT (mask 5)" "(0xf0 :: u8) = NOT (mask 4)"
    "(0xf8 :: u8) = NOT (mask 3)"
    by (simp_all add: mask_eq_exp_minus_1)
  show "c AND 0xc0 = 0x80 \<longleftrightarrow> unat c div 64 = 2"
    by (simp only: word_unat_eq_iff unat_and_high [OF m(1)]) auto
  show "c AND 0xe0 = 0xc0 \<longleftrightarrow> unat c div 32 = 6"
    by (simp only: word_unat_eq_iff unat_and_high [OF m(2)]) auto
  show "c AND 0xf0 = 0xe0 \<longleftrightarrow> unat c div 16 = 14"
    by (simp only: word_unat_eq_iff unat_and_high [OF m(3)]) auto
  show "c AND 0xf8 = 0xf0 \<longleftrightarrow> unat c div 8 = 30"
    by (simp only: word_unat_eq_iff unat_and_high [OF m(4)]) auto
qed

section \<open>UTF-8\<close>

text \<open>The continuation bytes of the low \<open>6 * n\<close> bits of a code point, and its encoding.\<close>

fun utf8_tail :: "nat \<Rightarrow> nat \<Rightarrow> bytes" where
  "utf8_tail 0 x = []"
| "utf8_tail (Suc n) x = of_nat (128 + x div 64 ^ n) # utf8_tail n (x mod 64 ^ n)"

definition utf8 :: "nat \<Rightarrow> bytes" where
  "utf8 u =
     (if u < 128 then [of_nat u]
      else if u < 2048 then of_nat (192 + u div 64) # utf8_tail 1 (u mod 64)
      else if u < 65536 then of_nat (224 + u div 4096) # utf8_tail 2 (u mod 4096)
      else of_nat (240 + u div 262144) # utf8_tail 3 (u mod 262144))"

lemma utf8_continue_step:
  assumes "unat v * 64 + 63 < 2 ^ 32"
  shows "unat (push_bit 6 v OR ucast (c AND 0x3f :: u8) :: u32) = unat v * 64 + unat c mod 64"
proof -
  have c: "unat (ucast (c AND 0x3f) :: u32) = unat c mod 64"
    by (simp add: unat_low_masks)
  moreover have "unat c mod 64 < 64"
    by simp
  ultimately show ?thesis
    using unat_push_bit_or [of "ucast (c AND 0x3f) :: u32" 6 v] assms by simp
qed

lemma utf8_continue_iff:
  assumes "unat v * 64 ^ n + 64 ^ n \<le> 2 ^ 32"
  shows "utf8_continue n v s = (Some w, r) \<longleftrightarrow>
    (\<exists>x < 64 ^ n. unat w = unat v * 64 ^ n + x \<and> s = utf8_tail n x @ r)"
  using assms
proof (induction n arbitrary: v s)
  case 0
  then show ?case by (auto simp: word_unat_eq_iff)
next
  case (Suc n)
  show ?case
  proof (cases s)
    case Nil
    then show ?thesis by simp
  next
    case (Cons c t)
    have small: "unat v * 64 + 63 < 2 ^ 32"
    proof -
      have "(unat v * 64 + 64) * 1 \<le> (unat v * 64 + 64) * 64 ^ n"
        by (intro mult_le_mono) simp_all
      also have "\<dots> \<le> 2 ^ 32"
        using Suc.prems by (simp add: algebra_simps)
      finally show ?thesis by simp
    qed
    define v' where "v' = push_bit 6 v OR (ucast (c AND 0x3f) :: u32)"
    have v': "unat v' = unat v * 64 + unat c mod 64"
      unfolding v'_def by (rule utf8_continue_step [OF small])
    have "unat c mod 64 + 1 \<le> 64"
      by (simp add: Suc_leI)
    then have "(unat v * 64 + (unat c mod 64 + 1)) * 64 ^ n \<le> (unat v * 64 + 64) * 64 ^ n"
      by (intro mult_le_mono) simp_all
    also have "\<dots> \<le> 2 ^ 32"
      using Suc.prems by (simp add: algebra_simps)
    finally have IH: "utf8_continue n v' t = (Some w, r) \<longleftrightarrow>
        (\<exists>x < 64 ^ n. unat w = unat v' * 64 ^ n + x \<and> t = utf8_tail n x @ r)"
      by (intro Suc.IH) (simp add: v' algebra_simps)
    have eq: "utf8_continue (Suc n) v s = (Some w, r) \<longleftrightarrow>
        unat c div 64 = 2 \<and> utf8_continue n v' t = (Some w, r)"
      by (simp add: Cons high_masks v'_def)
    show ?thesis
    proof
      assume "utf8_continue (Suc n) v s = (Some w, r)"
      then obtain x where x: "unat c div 64 = 2" "x < 64 ^ n" "unat w = unat v' * 64 ^ n + x" "t = utf8_tail n x @ r"
        unfolding eq IH by blast
      let ?y = "unat c mod 64 * 64 ^ n + x"
      have "?y < (unat c mod 64 + 1) * 64 ^ n"
        using x(2) by simp
      also have "\<dots> \<le> 64 * 64 ^ n"
        using \<open>unat c mod 64 + 1 \<le> 64\<close> by (rule mult_le_mono1)
      finally have y: "?y < 64 ^ Suc n" by simp
      have "128 + unat c mod 64 = unat c"
        using x(1) div_mult_mod_eq [of "unat c" 64] by simp
      then have "of_nat (128 + unat c mod 64) = c"
        by (intro word_of_nat_eqI [symmetric]) simp
      then have "s = utf8_tail (Suc n) ?y @ r"
        using x(2,4) Cons by (simp add: div_mult_self3)
      with y x(3) v' show "\<exists>x < 64 ^ Suc n. unat w = unat v * 64 ^ Suc n + x \<and> s = utf8_tail (Suc n) x @ r"
        by (intro exI [of _ ?y]) (simp add: algebra_simps)
    next
      assume "\<exists>x < 64 ^ Suc n. unat w = unat v * 64 ^ Suc n + x \<and> s = utf8_tail (Suc n) x @ r"
      then obtain x where x: "x < 64 ^ Suc n" "unat w = unat v * 64 ^ Suc n + x" "s = utf8_tail (Suc n) x @ r"
        by blast
      have d: "x div 64 ^ n < 64"
        using x(1) by (simp add: less_mult_imp_div_less)
      have c: "c = of_nat (128 + x div 64 ^ n)" "t = utf8_tail n (x mod 64 ^ n) @ r"
        using x(3) Cons by simp_all
      then have "unat c = 128 + x div 64 ^ n"
        using d by (simp only: unat_of_nat) simp
      then have cc: "unat c div 64 = 2" "unat c mod 64 = x div 64 ^ n"
        using d mod_mult_self1 [of "x div 64 ^ n" 2 64] by (simp_all add: add.commute)
      have "unat w = unat v' * 64 ^ n + x mod 64 ^ n"
        using div_mult_mod_eq [of x "64 ^ n"] by (simp add: x(2) v' cc(2) algebra_simps)
      then show "utf8_continue (Suc n) v s = (Some w, r)"
        unfolding eq IH using cc(1) c(2) by auto
    qed
  qed
qed

lemma valid_code_point_bound: "is_valid_code_point v \<Longrightarrow> unat v \<le> 1114111"
  by (simp add: is_valid_code_point_def word_less_nat_alt split: if_splits)

lemma valid_code_point_small:
  assumes "unat v < 128"
  shows "is_valid_code_point v"
proof -
  have "v AND 0xfffe \<le> v"
    by (rule word_and_le2)
  then have "unat (v AND 0xfffe) < 128"
    using assms by (simp add: word_le_nat_alt)
  then have "v AND 0xfffe \<noteq> 0xfffe"
    by auto
  then show ?thesis
    using assms by (simp add: is_valid_code_point_def word_less_nat_alt word_le_nat_alt)
qed

text \<open>The multi-byte forms, with the first byte split at its marker.\<close>

definition utf8_multi :: "nat \<Rightarrow> u32 \<Rightarrow> u32 \<Rightarrow> u32 reader" where
  "utf8_multi len v lower_bound cbs = (case utf8_continue len v cbs of
     (None, cbs'') \<Rightarrow> (None, cbs'')
   | (Some v, cbs'') \<Rightarrow>
       if \<not> is_valid_code_point v \<or> v < lower_bound then (None, cbs'') else (Some v, cbs''))"

lemma cbs_get_utf8_Cons:
  "cbs_get_utf8 (c # s) =
    (if unat c < 128 then (Some (ucast c), s)
     else if unat c div 32 = 6 then utf8_multi 1 (ucast (c AND 0x1f)) 0x80 s
     else if unat c div 16 = 14 then utf8_multi 2 (ucast (c AND 0xf)) 0x800 s
     else if unat c div 8 = 30 then utf8_multi 3 (ucast (c AND 7)) 0x10000 s
     else (None, s))"
proof -
  have "c \<le> 0x7f \<longleftrightarrow> unat c < 128"
    by (simp add: word_le_nat_alt less_Suc_eq_le [symmetric])
  then show ?thesis
    by (simp add: cbs_get_utf8_def utf8_multi_def high_masks)
qed

lemma utf8_multi_iff:
  assumes "unat v * 64 ^ n + 64 ^ n \<le> 2 ^ 32"
  shows "utf8_multi n v lb s = (Some w, r) \<longleftrightarrow>
    is_valid_code_point w \<and> unat lb \<le> unat w \<and>
    (\<exists>x < 64 ^ n. unat w = unat v * 64 ^ n + x \<and> s = utf8_tail n x @ r)"
proof -
  have "utf8_multi n v lb s = (Some w, r) \<longleftrightarrow>
      is_valid_code_point w \<and> lb \<le> w \<and> utf8_continue n v s = (Some w, r)"
    by (auto simp: utf8_multi_def not_less split: prod.splits option.splits)
  then show ?thesis
    using utf8_continue_iff [OF assms] by (simp add: word_le_nat_alt)
qed

lemma utf8_head_iff:
  fixes c :: u8
  assumes "0 < m" and "(t + 1) * m \<le> 256"
  shows "unat c div m = t \<and> a = unat c mod m \<longleftrightarrow> a < m \<and> c = of_nat (t * m + a)"
proof
  assume "unat c div m = t \<and> a = unat c mod m"
  then show "a < m \<and> c = of_nat (t * m + a)"
  proof (intro conjI)
    assume a: "unat c div m = t \<and> a = unat c mod m"
    then have "unat c = t * m + a"
      using div_mult_mod_eq [of "unat c" m] by simp
    then show "c = of_nat (t * m + a)"
      by (rule word_of_nat_eqI)
    show "a < m"
      using a assms(1) by simp
  qed
next
  assume a: "a < m \<and> c = of_nat (t * m + a)"
  then have "t * m + a < 256"
    using assms(2) by simp
  then have "unat c = t * m + a"
    using a by (simp only: unat_of_nat) simp
  then show "unat c div m = t \<and> a = unat c mod m"
    using a by simp
qed

lemma utf8_multi_head:
  fixes c :: u8
  assumes head: "0 < m" "(t + 1) * m \<le> 256" and b: "unat (c AND b) = unat c mod m"
    and n: "m * 64 ^ n \<le> 2 ^ 32" and c: "unat c div m = t"
  shows "utf8_multi n (ucast (c AND b)) lb s = (Some w, r) \<longleftrightarrow>
    is_valid_code_point w \<and> unat lb \<le> unat w \<and> unat w < m * 64 ^ n \<and>
    c # s = of_nat (t * m + unat w div 64 ^ n) # utf8_tail n (unat w mod 64 ^ n) @ r"
proof -
  have u: "unat (ucast (c AND b) :: u32) = unat c mod m"
    by (simp add: b)
  have "unat c mod m + 1 \<le> m"
    using head(1) by (simp add: Suc_leI)
  then have "(unat c mod m + 1) * 64 ^ n \<le> m * 64 ^ n"
    by (rule mult_le_mono1)
  then have "unat (ucast (c AND b) :: u32) * 64 ^ n + 64 ^ n \<le> 2 ^ 32"
    using n by (simp add: b)
  note iff = utf8_multi_iff [OF this, of lb s w r, unfolded u]
  show ?thesis
  proof
    assume "utf8_multi n (ucast (c AND b)) lb s = (Some w, r)"
    then obtain x where x: "is_valid_code_point w" "unat lb \<le> unat w" "x < 64 ^ n"
      "unat w = unat c mod m * 64 ^ n + x" "s = utf8_tail n x @ r"
      unfolding iff by blast
    have "unat w div 64 ^ n = unat c mod m" "unat w mod 64 ^ n = x"
      using x(3) by (simp_all add: x(4) div_mult_self3)
    moreover have "unat w < m * 64 ^ n"
      using x(3) \<open>(unat c mod m + 1) * 64 ^ n \<le> m * 64 ^ n\<close> by (simp add: x(4))
    moreover have "c = of_nat (t * m + unat c mod m)"
      using utf8_head_iff [OF head, of c "unat c mod m"] c by blast
    ultimately show "is_valid_code_point w \<and> unat lb \<le> unat w \<and> unat w < m * 64 ^ n \<and>
        c # s = of_nat (t * m + unat w div 64 ^ n) # utf8_tail n (unat w mod 64 ^ n) @ r"
      using x by simp
  next
    assume R: "is_valid_code_point w \<and> unat lb \<le> unat w \<and> unat w < m * 64 ^ n \<and>
        c # s = of_nat (t * m + unat w div 64 ^ n) # utf8_tail n (unat w mod 64 ^ n) @ r"
    then have "unat w div 64 ^ n < m"
      by (simp add: less_mult_imp_div_less)
    then have "unat w div 64 ^ n = unat c mod m"
      using utf8_head_iff [OF head, of c "unat w div 64 ^ n"] R by simp
    then have "unat w = unat c mod m * 64 ^ n + unat w mod 64 ^ n"
      using div_mult_mod_eq [of "unat w" "64 ^ n"] by simp
    then show "utf8_multi n (ucast (c AND b)) lb s = (Some w, r)"
      unfolding iff using R by (intro conjI exI [of _ "unat w mod 64 ^ n"]) simp_all
  qed
qed

lemma utf8_first_byte:
  assumes "unat w \<le> 1114111" and "c # s = utf8 (unat w) @ r"
  shows "unat c < 128 \<longleftrightarrow> unat w < 128"
    and "unat c div 32 = 6 \<longleftrightarrow> 128 \<le> unat w \<and> unat w < 2048"
    and "unat c div 16 = 14 \<longleftrightarrow> 2048 \<le> unat w \<and> unat w < 65536"
    and "unat c div 8 = 30 \<longleftrightarrow> 65536 \<le> unat w"
proof -
  define u where "u = unat w"
  have c: "unat c = (if u < 128 then u else if u < 2048 then 192 + u div 64
      else if u < 65536 then 224 + u div 4096 else 240 + u div 262144)" (is "_ = ?c")
  proof -
    have "?c < 256"
      using assms(1) unfolding u_def [symmetric] by (auto simp: less_mult_imp_div_less)
    moreover have "c = of_nat ?c"
      using assms(2) unfolding u_def [symmetric] by (auto simp: utf8_def split: if_splits)
    ultimately show ?thesis
      by (simp only: unat_of_nat) simp
  qed
  have "u div 64 < 32" if "u < 2048" using that by (simp add: less_mult_imp_div_less)
  moreover have "u div 4096 < 16" if "u < 65536" using that by (simp add: less_mult_imp_div_less)
  moreover have "u div 262144 < 8" using assms(1) by (simp add: less_mult_imp_div_less flip: u_def)
  ultimately have d: "u < 2048 \<longrightarrow> u div 64 < 32" "u < 65536 \<longrightarrow> u div 4096 < 16" "u div 262144 < 8"
    by auto
  show "unat c < 128 \<longleftrightarrow> unat w < 128"
    unfolding u_def [symmetric] c by auto
  show "unat c div 32 = 6 \<longleftrightarrow> 128 \<le> unat w \<and> unat w < 2048"
    unfolding u_def [symmetric] c using d by auto
  show "unat c div 16 = 14 \<longleftrightarrow> 2048 \<le> unat w \<and> unat w < 65536"
    unfolding u_def [symmetric] c using d by auto
  show "unat c div 8 = 30 \<longleftrightarrow> 65536 \<le> unat w"
    unfolding u_def [symmetric] c using d by auto
qed

lemma cbs_get_utf8_iff:
  "cbs_get_utf8 s = (Some w, r) \<longleftrightarrow> is_valid_code_point w \<and> s = utf8 (unat w) @ r"
proof (cases s)
  case Nil
  then show ?thesis
    by (simp add: cbs_get_utf8_def utf8_def)
next
  case (Cons c t)
  have two: "utf8_multi 1 (ucast (c AND 0x1f)) 0x80 t = (Some w, r) \<longleftrightarrow>
      is_valid_code_point w \<and> 128 \<le> unat w \<and> unat w < 2048 \<and>
      c # t = of_nat (192 + unat w div 64) # utf8_tail 1 (unat w mod 64) @ r" if "unat c div 32 = 6"
    using utf8_multi_head [of 32 6 c "0x1f" 1 "0x80" t w r] that by (simp add: unat_low_masks)
  have three: "utf8_multi 2 (ucast (c AND 0xf)) 0x800 t = (Some w, r) \<longleftrightarrow>
      is_valid_code_point w \<and> 2048 \<le> unat w \<and> unat w < 65536 \<and>
      c # t = of_nat (224 + unat w div 4096) # utf8_tail 2 (unat w mod 4096) @ r" if "unat c div 16 = 14"
    using utf8_multi_head [of 16 14 c "0xf" 2 "0x800" t w r] that by (simp add: unat_low_masks)
  have four: "utf8_multi 3 (ucast (c AND 7)) 0x10000 t = (Some w, r) \<longleftrightarrow>
      is_valid_code_point w \<and> 65536 \<le> unat w \<and> unat w < 2097152 \<and>
      c # t = of_nat (240 + unat w div 262144) # utf8_tail 3 (unat w mod 262144) @ r" if "unat c div 8 = 30"
    using utf8_multi_head [of 8 30 c "7" 3 "0x10000" t w r] that by (simp add: unat_low_masks)
  have excl: "\<not> unat c < 128" if "unat c div 32 = 6 \<or> unat c div 16 = 14 \<or> unat c div 8 = 30"
  proof
    assume "unat c < 128"
    then have "unat c div 32 < 4" "unat c div 16 < 8" "unat c div 8 < 16"
      by (simp_all add: less_mult_imp_div_less)
    with that show False by auto
  qed
  show ?thesis
  proof
    assume l: "cbs_get_utf8 s = (Some w, r)"
    consider "unat c < 128" | "unat c div 32 = 6" | "unat c div 32 \<noteq> 6" "unat c div 16 = 14"
      | "unat c div 32 \<noteq> 6" "unat c div 16 \<noteq> 14" "unat c div 8 = 30"
      using l unfolding Cons cbs_get_utf8_Cons by (auto split: if_splits)
    then show "is_valid_code_point w \<and> s = utf8 (unat w) @ r"
    proof cases
      case 1
      then have "w = ucast c" "r = t"
        using l unfolding Cons cbs_get_utf8_Cons by simp_all
      with 1 show ?thesis
        by (simp add: Cons utf8_def valid_code_point_small)
    next
      case 2
      then have "utf8_multi 1 (ucast (c AND 0x1f)) 0x80 t = (Some w, r)"
        using l excl unfolding Cons cbs_get_utf8_Cons by simp
      then show ?thesis
        unfolding two [OF 2] Cons by (simp add: utf8_def)
    next
      case 3
      then have "utf8_multi 2 (ucast (c AND 0xf)) 0x800 t = (Some w, r)"
        using l excl unfolding Cons cbs_get_utf8_Cons by simp
      then show ?thesis
        unfolding three [OF 3(2)] Cons by (simp add: utf8_def)
    next
      case 4
      then have "utf8_multi 3 (ucast (c AND 7)) 0x10000 t = (Some w, r)"
        using l excl unfolding Cons cbs_get_utf8_Cons by simp
      then show ?thesis
        unfolding four [OF 4(3)] Cons by (simp add: utf8_def)
    qed
  next
    assume R: "is_valid_code_point w \<and> s = utf8 (unat w) @ r"
    note b = valid_code_point_bound [of w]
    have bound: "unat w \<le> 1114111" and ct: "c # t = utf8 (unat w) @ r"
      using R b Cons by auto
    note f = utf8_first_byte [OF bound ct]
    consider "unat w < 128" | "128 \<le> unat w" "unat w < 2048" | "2048 \<le> unat w" "unat w < 65536" | "65536 \<le> unat w"
      by linarith
    then show "cbs_get_utf8 s = (Some w, r)"
    proof cases
      case 1
      then have "c = of_nat (unat w)" "t = r"
        using ct by (simp_all add: utf8_def)
      moreover have "unat (of_nat (unat w) :: u8) = unat w"
        using 1 by (simp only: unat_of_nat) simp
      ultimately have "ucast c = w"
        by (simp add: word_unat_eq_iff)
      then show ?thesis
        using 1 f \<open>t = r\<close> by (simp add: Cons cbs_get_utf8_Cons)
    next
      case 2
      then show ?thesis
        using f ct R two by (simp add: Cons cbs_get_utf8_Cons utf8_def)
    next
      case 3
      then show ?thesis
        using f ct R three by (simp add: Cons cbs_get_utf8_Cons utf8_def)
    next
      case 4
      then show ?thesis
        using f ct R four bound by (simp add: Cons cbs_get_utf8_Cons utf8_def)
    qed
  qed
qed

interpretation get_utf8: codec_seq "\<lambda>u. utf8 (unat u)" cbs_get_utf8 is_valid_code_point
  by unfold_locales (auto simp: cbs_get_utf8_iff utf8_def)

section \<open>Writing UTF-8\<close>

lemma top_or:
  fixes x :: u32 and top :: u8
  assumes "unat x < 2 ^ k" and "top = push_bit k t" and "unat top + unat x < 256"
  shows "(ucast (ucast top OR x) :: u8) = of_nat (unat top + unat x)"
proof (rule word_of_nat_eqI)
  have "unat (ucast top OR x :: u32) = unat top + unat x"
  proof -
    have "bit (ucast top :: u32) n \<Longrightarrow> k \<le> n" for n
      by (simp add: assms(2) bit_simps)
    then have "ucast top = push_bit k (drop_bit k (ucast top :: u32))"
      by (intro bit_word_eqI) (auto simp: bit_simps)
    then have "ucast top OR x = ucast top + x"
      using push_bit_or_plus [OF assms(1), of "drop_bit k (ucast top)"] by simp
    then show ?thesis
      using assms(3) by (simp add: unat_plus_small)
  qed
  then show "unat (ucast (ucast top OR x) :: u8) = unat top + unat x"
    using assms(3) by (simp add: unat_ucast_down)
qed

lemma continuation_byte:
  "(ucast (ucast (TOP_BITS 1) OR (x AND ucast (BOTTOM_BITS 6))) :: u8) = of_nat (128 + unat x mod 64)" for x :: u32
proof -
  have u: "unat (x AND 0x3f) = unat x mod 64"
    by (rule unat_low_masks(5))
  then have "(ucast (ucast (0x80 :: u8) OR (x AND 0x3f)) :: u8) = of_nat (unat (0x80 :: u8) + unat (x AND 0x3f))"
    by (intro top_or [of _ 6 _ 2]) (simp_all add: order_less_trans [of _ 64])
  then show ?thesis
    by (simp add: u)
qed

lemma utf8_tails:
  "utf8_tail 1 x = [of_nat (128 + x)]"
  "utf8_tail 2 x = [of_nat (128 + x div 64), of_nat (128 + x mod 64)]"
  "utf8_tail 3 x = [of_nat (128 + x div 4096), of_nat (128 + x mod 4096 div 64), of_nat (128 + x mod 4096 mod 64)]"
  by (simp_all add: numeral_2_eq_2 numeral_3_eq_3)

lemma utf8_bytes:
  fixes u :: u32
  assumes "unat u \<le> 1114111"
  shows "128 \<le> unat u \<Longrightarrow> unat u < 2048 \<Longrightarrow>
      [ucast (ucast (TOP_BITS 2) OR drop_bit 6 u),
       ucast (ucast (TOP_BITS 1) OR (u AND ucast (BOTTOM_BITS 6)))] = utf8 (unat u)"
    and "2048 \<le> unat u \<Longrightarrow> unat u < 65536 \<Longrightarrow>
      [ucast (ucast (TOP_BITS 3) OR drop_bit 12 u),
       ucast (ucast (TOP_BITS 1) OR (drop_bit 6 u AND ucast (BOTTOM_BITS 6))),
       ucast (ucast (TOP_BITS 1) OR (u AND ucast (BOTTOM_BITS 6)))] = utf8 (unat u)"
    and "65536 \<le> unat u \<Longrightarrow>
      [ucast (ucast (TOP_BITS 4) OR drop_bit 18 u),
       ucast (ucast (TOP_BITS 1) OR (drop_bit 12 u AND ucast (BOTTOM_BITS 6))),
       ucast (ucast (TOP_BITS 1) OR (drop_bit 6 u AND ucast (BOTTOM_BITS 6))),
       ucast (ucast (TOP_BITS 1) OR (u AND ucast (BOTTOM_BITS 6)))] = utf8 (unat u)"
proof -
  have d: "unat (drop_bit 6 u) = unat u div 64" "unat (drop_bit 12 u) = unat u div 4096"
    "unat (drop_bit 18 u) = unat u div 262144"
    by (simp_all only: unat_drop_bit_div) simp_all
  have tail: "n mod 4096 div 64 = n div 64 mod 64" "n mod 262144 div 4096 = n div 4096 mod 64"
    "n mod 4096 mod 64 = n mod 64" "n mod 262144 mod 4096 = n mod 4096" for n :: nat
  proof -
    show "n mod 4096 div 64 = n div 64 mod 64"
      using mod_mult2_eq [of n 64 64] by simp
    show "n mod 262144 div 4096 = n div 4096 mod 64"
    proof -
      have "n mod (4096 * 64) = 4096 * (n div 4096 mod 64) + n mod 4096"
        by (rule mod_mult2_eq)
      moreover have "(4096 * k + n mod 4096) div 4096 = k" for k
        by (rule div_mult_self4 [THEN trans]) simp_all
      ultimately show ?thesis by simp
    qed
  qed (rule mod_mod_cancel, simp)+
  show "[ucast (ucast (TOP_BITS 2) OR drop_bit 6 u),
       ucast (ucast (TOP_BITS 1) OR (u AND ucast (BOTTOM_BITS 6)))] = utf8 (unat u)"
    if "128 \<le> unat u" "unat u < 2048"
  proof -
    have "unat u div 64 < 32"
      using that by (simp add: less_mult_imp_div_less)
    then have "(ucast (ucast (0xc0 :: u8) OR drop_bit 6 u) :: u8) = of_nat (unat (0xc0 :: u8) + unat (drop_bit 6 u))"
      using top_or [of "drop_bit 6 u" 5 "0xc0" 6] by (simp add: d)
    with that show ?thesis
      unfolding continuation_byte by (simp add: d utf8_def utf8_tails del: of_nat_add)
  qed
  show "[ucast (ucast (TOP_BITS 3) OR drop_bit 12 u),
       ucast (ucast (TOP_BITS 1) OR (drop_bit 6 u AND ucast (BOTTOM_BITS 6))),
       ucast (ucast (TOP_BITS 1) OR (u AND ucast (BOTTOM_BITS 6)))] = utf8 (unat u)"
    if "2048 \<le> unat u" "unat u < 65536"
  proof -
    have "unat u div 4096 < 16"
      using that by (simp add: less_mult_imp_div_less)
    then have "(ucast (ucast (0xe0 :: u8) OR drop_bit 12 u) :: u8) = of_nat (unat (0xe0 :: u8) + unat (drop_bit 12 u))"
      using top_or [of "drop_bit 12 u" 4 "0xe0" 14] by (simp add: d)
    with that show ?thesis
      unfolding continuation_byte by (simp add: d utf8_def utf8_tails tail del: of_nat_add)
  qed
  show "[ucast (ucast (TOP_BITS 4) OR drop_bit 18 u),
       ucast (ucast (TOP_BITS 1) OR (drop_bit 12 u AND ucast (BOTTOM_BITS 6))),
       ucast (ucast (TOP_BITS 1) OR (drop_bit 6 u AND ucast (BOTTOM_BITS 6))),
       ucast (ucast (TOP_BITS 1) OR (u AND ucast (BOTTOM_BITS 6)))] = utf8 (unat u)"
    if "65536 \<le> unat u"
  proof -
    have "unat u div 262144 < 8"
      using assms by (simp add: less_mult_imp_div_less)
    then have "(ucast (ucast (0xf0 :: u8) OR drop_bit 18 u) :: u8) = of_nat (unat (0xf0 :: u8) + unat (drop_bit 18 u))"
      using top_or [of "drop_bit 18 u" 3 "0xf0" 30] by (simp add: d)
    with that show ?thesis
      unfolding continuation_byte by (simp add: d utf8_def utf8_tails tail del: of_nat_add)
  qed
qed

lemma length_utf8_tail [simp]: "length (utf8_tail n x) = n"
  by (induction n arbitrary: x) simp_all

lemma length_utf8: "is_valid_code_point u \<Longrightarrow> length (utf8 (unat u)) = cbb_get_utf8_len u"
  by (simp add: utf8_def cbb_get_utf8_len_def word_le_nat_alt)

text \<open>\<open>cbb_add_utf8\<close> writes the encoding, and fails on an invalid code point with nothing written.\<close>

lemma cbb_add_utf8_eq:
  "cbb_add_utf8 d u s =
    (if is_valid_code_point u then put_all (CBB_add_u8 d) (utf8 (unat u)) s else (False, s))"
proof (cases "is_valid_code_point u")
  case False
  then show ?thesis by (simp add: cbb_add_utf8_def)
next
  case True
  then have b: "unat u \<le> 1114111"
    by (rule valid_code_point_bound)
  consider "unat u < 128" | "128 \<le> unat u" "unat u < 2048" | "2048 \<le> unat u" "unat u < 65536" | "65536 \<le> unat u"
    by linarith
  then show ?thesis
  proof cases
    case 1
    then have "(ucast u :: u8) = of_nat (unat u)"
      by (intro word_of_nat_eqI) (simp add: unat_ucast_down)
    then show ?thesis
      using 1 True by (simp add: cbb_add_utf8_def utf8_def word_le_nat_alt split: prod.splits bool.splits)
  next
    case 2
    then show ?thesis
      using True unfolding cbb_add_utf8_def utf8_bytes(1) [OF b 2] by (simp add: word_le_nat_alt)
  next
    case 3
    then show ?thesis
      using True unfolding cbb_add_utf8_def utf8_bytes(2) [OF b 3] by (simp add: word_le_nat_alt)
  next
    case 4
    then show ?thesis
      using True b unfolding cbb_add_utf8_def utf8_bytes(3) [OF b 4] by (simp add: word_le_nat_alt)
  qed
qed

interpretation cbb_utf8: cbb_codec "\<lambda>u. utf8 (unat u)" cbs_get_utf8 is_valid_code_point cbb_add_utf8
  using cbb_sink.put_all_wrote by unfold_locales (auto simp: cbb_add_utf8_eq split: if_splits)

section \<open>Latin-1, UCS-2 and UTF-32\<close>

lemma cbs_get_latin1_iff:
  "cbs_get_latin1 s = (Some u, r) \<longleftrightarrow> unat u < 256 \<and> s = [of_nat (unat u)] @ r"
proof
  assume "cbs_get_latin1 s = (Some u, r)"
  then obtain c where "s = c # r" "u = ucast c"
    by (cases s) (auto simp: cbs_get_latin1_def)
  then show "unat u < 256 \<and> s = [of_nat (unat u)] @ r"
    by simp
next
  assume R: "unat u < 256 \<and> s = [of_nat (unat u)] @ r"
  then have "unat (of_nat (unat u) :: u8) = unat u"
    by (simp only: unat_of_nat) simp
  then have "(ucast (of_nat (unat u) :: u8) :: u32) = u"
    by (simp add: word_unat_eq_iff)
  then show "cbs_get_latin1 s = (Some u, r)"
    using R by (simp add: cbs_get_latin1_def)
qed

interpretation cbb_latin1: cbb_codec "\<lambda>u. [of_nat (unat u)]" cbs_get_latin1 "\<lambda>u. unat u < 256" cbb_add_latin1
proof
  fix d u s s'
  assume "cbb_add_latin1 d u s = (True, s')" "cbb_at d s"
  then have u: "u \<le> 0xff" "CBB_add_u8 d (ucast u) s = (True, s')"
    by (simp_all add: cbb_add_latin1_def split: if_splits)
  then have w: "cbb_wrote d [ucast u] s s'"
    using \<open>cbb_at d s\<close> by (intro CBB_add_u8_wrote)
  have u: "unat u < 256"
    using u(1) by (simp add: word_le_nat_alt)
  have "(ucast u :: u8) = of_nat (unat u)"
    using u by (intro word_of_nat_eqI) (simp add: unat_ucast_down)
  with u w show "unat u < 256 \<and> cbb_wrote d [of_nat (unat u)] s s'"
    by (simp only: simp_thms)
qed (auto simp: cbs_get_latin1_iff)

definition bmp_code_point :: "u32 \<Rightarrow> bool" where
  "bmp_code_point u \<longleftrightarrow> unat u < 65536 \<and> is_valid_code_point u"

lemma cbs_get_ucs2_be_iff:
  "cbs_get_ucs2_be s = (Some u, r) \<longleftrightarrow> bmp_code_point u \<and> s = be_bytes 2 (unat u) @ r"
proof
  assume "cbs_get_ucs2_be s = (Some u, r)"
  then obtain c where "CBS_get_u16 s = (Some c, r)" "u = ucast c" "is_valid_code_point u"
    by (auto simp: cbs_get_ucs2_be_def split: prod.splits option.splits if_splits)
  then show "bmp_code_point u \<and> s = be_bytes 2 (unat u) @ r"
    using unat_u16_less [of c] by (simp add: get_u16.dec_iff bmp_code_point_def)
next
  assume R: "bmp_code_point u \<and> s = be_bytes 2 (unat u) @ r"
  then have "unat (ucast u :: u16) = unat u"
    by (simp add: bmp_code_point_def unat_ucast_down)
  moreover from this have "(ucast (ucast u :: u16) :: u32) = u"
    by (simp add: word_unat_eq_iff)
  moreover have "CBS_get_u16 s = (Some (ucast u), r)"
    using R calculation(1) by (simp add: get_u16.dec_iff)
  ultimately show "cbs_get_ucs2_be s = (Some u, r)"
    using R by (simp add: cbs_get_ucs2_be_def bmp_code_point_def)
qed

interpretation cbb_ucs2: cbb_codec "\<lambda>u. be_bytes 2 (unat u)" cbs_get_ucs2_be bmp_code_point cbb_add_ucs2_be
proof
  fix d u s s'
  assume "cbb_add_ucs2_be d u s = (True, s')" "cbb_at d s"
  then have u: "u \<le> 0xffff" "is_valid_code_point u" "CBB_add_u16 d (ucast u) s = (True, s')"
    by (simp_all add: cbb_add_ucs2_be_def split: if_splits)
  then have w: "cbb_wrote d (be_bytes 2 (unat (ucast u :: u16))) s s'"
    using \<open>cbb_at d s\<close> by (intro CBB_add_u16_wrote)
  have u: "bmp_code_point u"
    using u(1,2) by (simp add: bmp_code_point_def word_le_nat_alt)
  then have "unat (ucast u :: u16) = unat u"
    by (simp add: bmp_code_point_def unat_ucast_down)
  with u w show "bmp_code_point u \<and> cbb_wrote d (be_bytes 2 (unat u)) s s'"
    by simp
qed (auto simp: cbs_get_ucs2_be_iff)

lemma cbs_get_utf32_be_iff:
  "cbs_get_utf32_be s = (Some u, r) \<longleftrightarrow> is_valid_code_point u \<and> s = be_bytes 4 (unat u) @ r"
proof -
  have "cbs_get_utf32_be s = (Some u, r) \<longleftrightarrow> is_valid_code_point u \<and> CBS_get_u32 s = (Some u, r)"
    by (auto simp: cbs_get_utf32_be_def split: prod.splits option.splits)
  then show ?thesis
    by (simp add: get_u32.dec_iff)
qed

interpretation cbb_utf32: cbb_codec "\<lambda>u. be_bytes 4 (unat u)" cbs_get_utf32_be is_valid_code_point cbb_add_utf32_be
  using CBB_add_u32_wrote
  by unfold_locales (auto simp: cbs_get_utf32_be_iff cbb_add_utf32_be_def split: if_splits)

section \<open>The character codecs\<close>

text \<open>
  C16: UTF-8, Latin-1, UCS-2 and UTF-32.  Each reader returns a code point exactly on its encoding:
  \<open>cbs_get_utf8\<close> on the shortest UTF-8 form of a valid code point (no surrogates, no noncharacters,
  nothing above 0x10ffff, no overlong form), the others on one, two or four octets within their
  range.
\<close>
theorem character_readers_exact:
  "(cbs_get_utf8 s = (Some u, r) \<longleftrightarrow> is_valid_code_point u \<and> s = utf8 (unat u) @ r) \<and>
   (cbs_get_latin1 s = (Some u, r) \<longleftrightarrow> unat u < 256 \<and> s = [of_nat (unat u)] @ r) \<and>
   (cbs_get_ucs2_be s = (Some u, r) \<longleftrightarrow> bmp_code_point u \<and> s = be_bytes 2 (unat u) @ r) \<and>
   (cbs_get_utf32_be s = (Some u, r) \<longleftrightarrow> is_valid_code_point u \<and> s = be_bytes 4 (unat u) @ r)"
  by (intro conjI cbs_get_utf8_iff cbs_get_latin1_iff cbs_get_ucs2_be_iff cbs_get_utf32_be_iff)

text \<open>
  writing characters.  \<open>cbb_add_utf8\<close> fails without touching the builder on an invalid code point;
  when it succeeds it has appended \<open>cbb_get_utf8_len\<close> octets, which \<open>cbs_get_utf8\<close> reads back; and the
  UCS-2 and UTF-32 writers are undone by their readers.
\<close>
theorem character_build_read:
  assumes "cbb_at d s"
  shows "(\<not> is_valid_code_point u \<longrightarrow> cbb_add_utf8 d u s = (False, s)) \<and>
    (cbb_add_utf8 d u s = (True, s1) \<longrightarrow>
      length (cbb_buf s1) = length (cbb_buf s) + cbb_get_utf8_len u \<and>
      cbs_get_utf8 (drop (length (cbb_buf s)) (cbb_buf s1) @ r) = (Some u, r)) \<and>
    (cbb_add_ucs2_be d u s = (True, s2) \<longrightarrow>
      cbs_get_ucs2_be (drop (length (cbb_buf s)) (cbb_buf s2) @ r) = (Some u, r)) \<and>
    (cbb_add_utf32_be d u s = (True, s3) \<longrightarrow>
      cbs_get_utf32_be (drop (length (cbb_buf s)) (cbb_buf s3) @ r) = (Some u, r))"
proof (intro conjI impI)
  show "cbb_add_utf8 d u s = (False, s)" if "\<not> is_valid_code_point u"
    using that by (simp add: cbb_add_utf8_def)
  show "length (cbb_buf s1) = length (cbb_buf s) + cbb_get_utf8_len u" if "cbb_add_utf8 d u s = (True, s1)"
    using cbb_utf8.add_wrote [OF that assms] length_utf8 [of u] by (simp add: cbb_wrote_def)
qed (use assms cbb_utf8.add_get cbb_ucs2.add_get cbb_utf32.add_get in blast)+

lemma character_build_read_witness:
  "let s = snd (CBB_init unlimited 4) in
   cbs_get_utf8 (drop (length (cbb_buf s)) (cbb_buf (snd (cbb_add_utf8 0 0x20ac s))) @ [65]) = (Some 0x20ac, [65])"
proof -
  let ?s = "snd (CBB_init unlimited 4)"
  have "cbb_at 0 ?s"
    using CBB_init_at [of unlimited 4 ?s] by (simp add: CBB_init_def cbb_init_def SIZE_MAX_def)
  moreover have "fst (cbb_add_utf8 0 0x20ac ?s)"
    by code_simp
  then have "cbb_add_utf8 0 0x20ac ?s = (True, snd (cbb_add_utf8 0 0x20ac ?s))"
    by (simp add: prod_eq_iff)
  ultimately show ?thesis
    unfolding Let_def using character_build_read [where d = 0 and s = ?s and u = 8364 and r = "[65]"] by blast
qed

end
