(* ===== verification/Cbb_Inv.thy ===== *)
theory Cbb_Inv
  imports Cbb_Codec Oid Set_Of Unicode
begin

text \<open>
  The state machine of a builder.  \<open>cbb_step\<close> is one call of any operation of \<open>cbb.c\<close>, on any \<open>CBB\<close>
  of the chain and whatever it returns; \<open>cbb_inv\<close> is the invariant of the shared buffer and the chain.
  Every operation satisfies \<open>cbb_keeps\<close>, which composes, so the invariant and the guarantees for
  fixed buffers hold in every reachable state.
\<close>

named_theorems keeps

section \<open>The buffer\<close>

definition buffer_keeps :: "cbb_buffer \<Rightarrow> cbb_buffer \<Rightarrow> bool" where
  "buffer_keeps b b' \<longleftrightarrow> (buffer_ok b \<longrightarrow> buffer_ok b') \<and> length (buf b) \<le> length (buf b') \<and>
     can_resize b' = can_resize b \<and> alloc b' = alloc b \<and> (\<not> can_resize b \<longrightarrow> cap b' = cap b) \<and>
     (error b \<longrightarrow> error b')"

lemma buffer_keeps_refl: "buffer_keeps b b"
  by (simp add: buffer_keeps_def)

lemma buffer_keeps_trans: "buffer_keeps b1 b2 \<Longrightarrow> buffer_keeps b2 b3 \<Longrightarrow> buffer_keeps b1 b3"
  by (auto simp: buffer_keeps_def)

lemma buffer_keeps_error: "buffer_keeps b (b\<lparr>error := True\<rparr>)"
  by (simp add: buffer_keeps_def buffer_ok_def)

lemma buffer_keeps_store:
  "length bs = length (buf b) \<Longrightarrow> buffer_keeps b (b\<lparr>buf := bs\<rparr>)"
  by (simp add: buffer_keeps_def buffer_ok_def)

lemma reserve_keeps: "n \<le> SIZE_MAX \<Longrightarrow> buffer_keeps b (snd (cbb_buffer_reserve n b))"
  using size_bounds(1) [of "length (buf b)" n] size_bounds(2) [of "cap b" 2]
  by (auto simp del: size_bounds simp: cbb_buffer_reserve_def Let_def buffer_keeps_def buffer_ok_def)

lemma reserve_room:
  assumes "cbb_buffer_reserve n b = (True, b')" and "buffer_ok b" and "n \<le> SIZE_MAX"
  shows "length (buf b') + n \<le> cap b'" "buf b' = buf b"
  using cbb_buffer_reserve_ok [OF assms] by (simp_all add: buffer_wrote_def)

lemma add_keeps: "length data \<le> SIZE_MAX \<Longrightarrow> buffer_keeps b (snd (cbb_buffer_add data b))"
proof -
  assume len: "length data \<le> SIZE_MAX"
  obtain ok b1 where r: "cbb_buffer_reserve (length data) b = (ok, b1)"
    by (cases "cbb_buffer_reserve (length data) b")
  have k: "buffer_keeps b b1"
    using reserve_keeps [OF len, of b] by (simp add: r)
  show ?thesis
  proof (cases ok)
    case False
    with r k show ?thesis by (simp add: cbb_buffer_add_def)
  next
    case True
    with r k show ?thesis
      using reserve_room [of "length data" b b1] len
      by (auto simp: cbb_buffer_add_def buffer_keeps_def buffer_ok_def)
  qed
qed

lemma length_store_be [simp]: "length (fst (store_be bs pos n v)) = length bs"
  by (induction bs pos n v rule: store_be.induct) simp_all

lemma add_u_keeps: "n \<le> 8 \<Longrightarrow> buffer_keeps b (snd (cbb_buffer_add_u v n b))"
proof -
  assume n: "n \<le> 8"
  obtain ok b1 where r: "cbb_buffer_add (replicate n 0) b = (ok, b1)"
    by (cases "cbb_buffer_add (replicate n 0) b")
  have k: "buffer_keeps b b1"
    using add_keeps [of "replicate n 0" b] n by (simp add: r SIZE_MAX_def)
  obtain bs rest where s: "store_be (buf b1) (length (buf b)) n v = (bs, rest)"
    by (cases "store_be (buf b1) (length (buf b)) n v")
  have "buffer_keeps b1 (b1\<lparr>buf := bs\<rparr>)"
    using length_store_be [of "buf b1" "length (buf b)" n v] by (intro buffer_keeps_store) (simp add: s)
  then have "buffer_keeps b (b1\<lparr>buf := bs\<rparr>)" "buffer_keeps b (b1\<lparr>buf := bs, error := True\<rparr>)"
    using k buffer_keeps_trans buffer_keeps_error [of "b1\<lparr>buf := bs\<rparr>"] by blast+
  with r s k show ?thesis
    by (auto simp: cbb_buffer_add_u_def buffer_keeps_refl Let_def split: bool.splits)
qed

lemma write_prefix_keeps: "buffer_keeps b (snd (snd (cbb_write_prefix c cs len b)))"
proof -
  obtain bs rest where s: "store_be (buf b) (offset c) (pending_len_len c) (of_nat len) = (bs, rest)"
    by (cases "store_be (buf b) (offset c) (pending_len_len c) (of_nat len :: u64)")
  have "buffer_keeps b (b\<lparr>buf := bs\<rparr>)"
    using length_store_be [of "buf b" "offset c" "pending_len_len c" "of_nat len"]
    by (intro buffer_keeps_store) (simp add: s)
  then show ?thesis
    using buffer_keeps_trans [OF _ buffer_keeps_error] by (simp add: cbb_write_prefix_def s Let_def)
qed

lemma asn1_len_len_le: "fst (cbb_asn1_len n) - 1 \<le> SIZE_MAX"
  by (simp add: cbb_asn1_len_def SIZE_MAX_def)

lemma flush_keeps: "buffer_keeps b (snd (snd (cbb_flush cs b)))"
proof (induction cs)
  case Nil
  then show ?case by (simp add: buffer_keeps_refl)
next
  case (Cons c cs)
  obtain ok cs' b1 where r: "cbb_flush cs b = (ok, cs', b1)"
    by (cases "cbb_flush cs b")
  with Cons have k: "buffer_keeps b b1" by simp
  have err: "buffer_keeps b (b1\<lparr>error := True\<rparr>)"
    by (rule buffer_keeps_trans [OF k buffer_keeps_error])
  obtain ll il len' where l: "cbb_asn1_len (length (buf b1) - size_add (offset c) (pending_len_len c)) = (ll, il, len')"
    by (cases "cbb_asn1_len (length (buf b1) - size_add (offset c) (pending_len_len c))")
  obtain ok2 b2 where a: "cbb_buffer_add (replicate (ll - 1) 0) b1 = (ok2, b2)"
    by (cases "cbb_buffer_add (replicate (ll - 1) 0) b1")
  have "ll - 1 \<le> SIZE_MAX"
    using asn1_len_len_le [of "length (buf b1) - size_add (offset c) (pending_len_len c)"] by (simp add: l)
  then have a12: "buffer_keeps b1 b2"
    using add_keeps [of "replicate (ll - 1) 0" b1] by (simp only: a length_replicate snd_conv simp_thms)
  then have k2: "buffer_keeps b b2"
    by (rule buffer_keeps_trans [OF k])
  have err2: "buffer_keeps b (b2\<lparr>error := True\<rparr>)"
    by (rule buffer_keeps_trans [OF k2 buffer_keeps_error])
  have pre: "buffer_keeps b (snd (snd (cbb_write_prefix f fs n (x\<lparr>buf := bs\<rparr>))))"
    if "buffer_keeps b x" "length bs = length (buf x)" for f fs n x bs
    using buffer_keeps_trans [OF buffer_keeps_trans [OF that(1) buffer_keeps_store [OF that(2)]] write_prefix_keeps] .
  let ?cs = "size_add (offset c) (pending_len_len c)"
  have moved: "length ((mem_move (?cs + (ll - 1)) ?cs len' (buf b2))[i := v]) = length (buf b2)"
    if "ll \<noteq> 1" "ok2" "\<not> length (buf b1) < ?cs" for i v
  proof -
    have "len' = length (buf b1) - ?cs"
      using l that(1) by (auto simp: cbb_asn1_len_def split: if_splits)
    moreover have "length (buf b2) = length (buf b1) + (ll - 1)"
      using a that(2) by (auto simp: cbb_buffer_add_def cbb_buffer_reserve_def Let_def split: if_splits)
    ultimately show ?thesis
      using that(3) by simp
  qed
  show ?case
  proof (cases "error b \<or> pending_len_len c = 0 \<or> \<not> ok \<or> ?cs < offset c \<or> length (buf b1) < ?cs")
    case True
    then show ?thesis
      using err by (auto simp: r Let_def buffer_keeps_refl)
  next
    case False
    then have eq: "cbb_flush (c # cs) b =
       (if pending_is_asn1 c
        then if length (buf b1) - ?cs > 0xfffffffe then (False, c # cs', b1\<lparr>error := True\<rparr>)
        else if ll \<noteq> 1 \<and> \<not> ok2 then (False, c # cs', b2\<lparr>error := True\<rparr>)
        else cbb_write_prefix (c\<lparr>offset := offset c + 1, pending_len_len := ll - 1\<rparr>) cs' len'
          (if ll \<noteq> 1 then b2\<lparr>buf := (mem_move (?cs + (ll - 1)) ?cs len' (buf b2))[offset c := il]\<rparr>
           else b1\<lparr>buf := (buf b1)[offset c := il]\<rparr>)
        else cbb_write_prefix c cs' (length (buf b1) - ?cs) b1)"
      by (simp add: r l a [unfolded One_nat_def] Let_def split: bool.splits)
    show ?thesis
      unfolding eq using False err err2 pre [OF k] pre [OF k2 moved] buffer_keeps_trans [OF k write_prefix_keeps]
      by simp
  qed
qed

lemma flush_fails_error: "cbb_flush cs b = (False, cs', b') \<Longrightarrow> error b'"
  by (induction cs arbitrary: cs' b')
    (auto simp: cbb_write_prefix_def Let_def split: if_splits prod.splits)

section \<open>Builders\<close>

text \<open>The invariant: the buffer fits its capacity, and unless the builder has hit an error the frames of
  the chain lie one after the other in the buffer, with one to three octets reserved.\<close>

definition cbb_inv :: "cbb \<Rightarrow> bool" where
  "cbb_inv s \<longleftrightarrow> (case base s of
     None \<Rightarrow> True
   | Some b \<Rightarrow> buffer_ok b \<and> (\<not> error b \<longrightarrow> frames_ok 0 (children s) (length (buf b))))"

text \<open>What every operation but \<open>CBB_cleanup\<close> and \<open>CBB_finish\<close> keeps.\<close>

definition cbb_keeps :: "cbb \<Rightarrow> cbb \<Rightarrow> bool" where
  "cbb_keeps s s' \<longleftrightarrow> (cbb_inv s \<longrightarrow> cbb_inv s' \<and>
     (case base s of
        None \<Rightarrow> base s' = None
      | Some b \<Rightarrow> (\<exists>b'. base s' = Some b' \<and> can_resize b' = can_resize b \<and> alloc b' = alloc b \<and>
          (\<not> can_resize b \<longrightarrow> cap b' = cap b) \<and> (error b \<longrightarrow> error b'))))"

lemma keepsI: "(cbb_inv s \<Longrightarrow> cbb_keeps s s') \<Longrightarrow> cbb_keeps s s'"
  by (simp add: cbb_keeps_def)

lemma cbb_keeps_refl [keeps]: "cbb_keeps s s"
  by (auto simp: cbb_keeps_def split: option.splits)

lemma cbb_keeps_trans: "cbb_keeps s1 s2 \<Longrightarrow> cbb_keeps s2 s3 \<Longrightarrow> cbb_keeps s1 s3"
  by (auto simp: cbb_keeps_def split: option.splits)

text \<open>Sequencing: an operation that goes on only after a success.\<close>

lemma keeps_seq [keeps]:
  assumes "cbb_keeps s (snd r)" and "\<And>s1. r = (True, s1) \<Longrightarrow> cbb_keeps s1 (snd (g s1))"
  shows "cbb_keeps s (snd (case r of (False, s1) \<Rightarrow> (False, s1) | (True, s1) \<Rightarrow> g s1))"
  using assms cbb_keeps_trans by (auto split: prod.splits bool.splits)

lemma frames_ok_split:
  "frames_ok start (xs @ ys) n \<Longrightarrow> \<exists>m. frames_ok start xs m \<and> frames_ok m ys n"
proof (induction xs arbitrary: start)
  case Nil
  then show ?case by auto
next
  case (Cons x xs)
  then obtain m where "frames_ok (offset x + pending_len_len x) xs m" "frames_ok m ys n"
    by auto
  with Cons.prems show ?case by auto
qed

text \<open>A successful flush leaves the \<open>CBB\<close> innermost; a failed one leaves the error flag set.\<close>

lemma CBB_flush_cases:
  assumes "cbb_inv s" and "base s = Some b" and "d \<le> length (children s)"
  obtains (fails) cs' b' where "CBB_flush d s = (False, s\<lparr>base := Some b', children := take d (children s) @ cs'\<rparr>)"
      "error b'" "buffer_keeps b b'"
  | (flushed) b' where "CBB_flush d s = (True, s\<lparr>base := Some b', children := take d (children s)\<rparr>)"
      "\<not> error b" "\<not> error b'" "buffer_keeps b b'" "buffer_ok b'"
      "frames_ok 0 (take d (children s)) (length (buf b'))"
proof -
  obtain ok cs' b' where r: "cbb_flush (drop d (children s)) b = (ok, cs', b')"
    by (cases "cbb_flush (drop d (children s)) b")
  have k: "buffer_keeps b b'"
    using flush_keeps [of b "drop d (children s)"] by (simp add: r)
  have ok_b: "buffer_ok b" and fr: "\<not> error b \<Longrightarrow> frames_ok 0 (children s) (length (buf b))"
    using assms(1,2) by (simp_all add: cbb_inv_def)
  show thesis
  proof (cases ok)
    case False
    with r have "cbb_flush (drop d (children s)) b = (False, cs', b')" by simp
    then have "error b'"
      by (rule flush_fails_error)
    with False r k show thesis
      using assms(2,3) by (intro fails [of cs' b']) (simp_all add: CBB_flush_def)
  next
    case True
    with r have "\<not> error b"
      using cbb_flush_error [of b "drop d (children s)"] by auto
    then obtain m where m: "frames_ok 0 (take d (children s)) m" "frames_ok m (drop d (children s)) (length (buf b))"
      using fr frames_ok_split [of 0 "take d (children s)" "drop d (children s)"] by auto
    have s: "cs' = []" "buf b' = flush_buf (drop d (children s)) (buf b)" "\<not> error b'" "buffer_ok b'"
      using cbb_flush_sound [OF _ m(2) ok_b] r True by auto
    have "m \<le> length (buf b')"
      using flush_buf_keeps [OF m(2)] s(2) by simp
    then have "frames_ok 0 (take d (children s)) (length (buf b'))"
      by (rule frames_ok_mono [OF m(1)])
    with True r s k \<open>\<not> error b\<close> show thesis
      using assms(2,3) by (intro flushed [of b']) (simp_all add: CBB_flush_def)
  qed
qed

lemma flush_innermost:
  assumes "CBB_flush d s = (True, s')" and "cbb_inv s"
  obtains b where "base s' = Some b" "\<not> error b" "length (children s') = d" "cbb_inv s'"
proof -
  obtain b where b: "base s = Some b"
    using assms(1) by (cases "base s") (auto simp: CBB_flush_def)
  have d: "d \<le> length (children s)"
    using assms(1) b by (auto simp: CBB_flush_def split: if_splits)
  show thesis
    by (rule CBB_flush_cases [OF assms(2) b d]) (use assms(1) d that in \<open>auto simp: cbb_inv_def\<close>)
qed

lemma CBB_flush_past [simp]: "length (children s) < d \<Longrightarrow> CBB_flush d s = (False, s)"
  by (simp add: CBB_flush_def split: option.splits)

lemma CBB_flush_none [simp]: "base s = None \<Longrightarrow> CBB_flush d s = (False, s)"
  by (simp add: CBB_flush_def)

lemma CBB_flush_keeps [keeps]: "cbb_keeps s (snd (CBB_flush d s))"
proof (cases "base s")
  case None
  then show ?thesis by (simp add: cbb_keeps_refl)
next
  case (Some b)
  show ?thesis
  proof (cases "length (children s) < d")
    case True
    then show ?thesis by (simp add: cbb_keeps_refl)
  next
    case False
    then have d: "d \<le> length (children s)" by simp
    have "cbb_inv (snd (CBB_flush d s))" if inv: "cbb_inv s"
      by (rule CBB_flush_cases [OF inv Some d]) (use inv Some in \<open>simp_all add: cbb_inv_def buffer_keeps_def\<close>)
    moreover obtain ok cs' b' where r: "cbb_flush (drop d (children s)) b = (ok, cs', b')"
      by (cases "cbb_flush (drop d (children s)) b")
    moreover have "CBB_flush d s = (ok, s\<lparr>base := Some b', children := take d (children s) @ cs'\<rparr>)"
      using d by (simp add: CBB_flush_def Some r)
    moreover have "buffer_keeps b b'"
      using flush_keeps [of b "drop d (children s)"] by (simp add: r)
    ultimately show ?thesis
      using Some by (simp add: cbb_keeps_def buffer_keeps_def)
  qed
qed

lemma keeps_base:
  assumes "base s = Some b" and "buffer_keeps b b'"
  shows "cbb_keeps s (s\<lparr>base := Some b'\<rparr>)"
  using assms frames_ok_mono [of 0 "children s" "length (buf b)" "length (buf b')"]
  by (auto simp: cbb_keeps_def buffer_keeps_def cbb_inv_def)

lemma keeps_push: "(cbb_inv s \<Longrightarrow> cbb_inv (cbb_push_child d c s)) \<Longrightarrow> cbb_keeps s (cbb_push_child d c s)"
  by (auto simp: cbb_keeps_def cbb_push_child_def split: option.splits)

lemma keeps_then [keeps]:
  assumes "\<And>b. buffer_keeps b (snd (f b))"
  shows "cbb_keeps s (snd (cbb_then d f s))"
proof -
  have "cbb_keeps s1 (snd (case base s1 of None \<Rightarrow> (False, s1)
      | Some b \<Rightarrow> let (ok, b') = f b in (ok, s1\<lparr>base := Some b'\<rparr>)))" for s1
    using assms keeps_base by (auto simp: cbb_keeps_refl split: option.splits prod.splits) (metis snd_conv)
  then show ?thesis
    unfolding cbb_then_def by (intro keeps)
qed

lemma keeps_put_all [keeps]:
  "(\<And>b s. cbb_keeps s (snd (put b s))) \<Longrightarrow> cbb_keeps s (snd (put_all put bs s))"
proof (induction bs arbitrary: s)
  case (Cons b bs)
  then show ?case
    by (auto intro!: keeps_seq)
qed (simp add: cbb_keeps_refl)

text \<open>After a successful write the \<open>CBB\<close> is innermost.\<close>

lemma then_innermost:
  assumes "cbb_then d f s = (True, s')" and "cbb_inv s"
  obtains b b' where "f b = (True, b')" "base s' = Some b'" "length (children s') = d" "\<not> error b"
    "length (children s) = d \<Longrightarrow> base s = Some b"
proof -
  obtain s1 b b' where s1: "CBB_flush d s = (True, s1)" "base s1 = Some b" "f b = (True, b')"
      "s' = s1\<lparr>base := Some b'\<rparr>"
    using assms(1) by (auto simp: cbb_then_def split: prod.splits bool.splits option.splits)
  moreover have "length (children s1) = d" "\<not> error b"
    using flush_innermost [OF s1(1) assms(2)] s1(2) by auto
  moreover have "s1 = s" if "length (children s) = d"
    using s1(1) that by (auto simp: CBB_flush_def split: option.splits)
  ultimately show thesis
    using that [of b b'] by auto
qed

section \<open>Every operation\<close>

lemma CBB_add_bytes_keeps [keeps]: "length data \<le> SIZE_MAX \<Longrightarrow> cbb_keeps s (snd (CBB_add_bytes d data s))"
  unfolding CBB_add_bytes_def by (intro keeps add_keeps)

lemma CBB_add_space_keeps [keeps]: "length data \<le> SIZE_MAX \<Longrightarrow> cbb_keeps s (snd (CBB_add_space d data s))"
  unfolding CBB_add_space_def by (intro keeps add_keeps)

lemma CBB_reserve_keeps [keeps]: "n \<le> SIZE_MAX \<Longrightarrow> cbb_keeps s (snd (CBB_reserve d n s))"
  unfolding CBB_reserve_def by (intro keeps reserve_keeps)

lemma CBB_add_u8_keeps [keeps]: "cbb_keeps s (snd (CBB_add_u8 d v s))"
  and CBB_add_u16_keeps [keeps]: "cbb_keeps s (snd (CBB_add_u16 d v2 s))"
  and CBB_add_u24_keeps [keeps]: "cbb_keeps s (snd (CBB_add_u24 d v3 s))"
  and CBB_add_u32_keeps [keeps]: "cbb_keeps s (snd (CBB_add_u32 d v4 s))"
  and CBB_add_u64_keeps [keeps]: "cbb_keeps s (snd (CBB_add_u64 d v8 s))"
  unfolding CBB_add_u8_def CBB_add_u16_def CBB_add_u24_def CBB_add_u32_def CBB_add_u64_def
  by (intro keeps add_u_keeps; simp)+

lemma CBB_add_le_keeps [keeps]: "cbb_keeps s (snd (CBB_add_u16le d v2 s))"
  "cbb_keeps s (snd (CBB_add_u32le d v4 s))" "cbb_keeps s (snd (CBB_add_u64le d v8 s))"
  unfolding CBB_add_u16le_def CBB_add_u32le_def CBB_add_u64le_def by (intro keeps)+

lemma CBB_did_write_keeps [keeps]:
  assumes "length written \<le> SIZE_MAX"
  shows "cbb_keeps s (snd (CBB_did_write d written s))"
proof (cases "base s")
  case None
  then show ?thesis by (simp add: CBB_did_write_def cbb_keeps_refl)
next
  case (Some b)
  have "buffer_keeps b (b\<lparr>buf := buf b @ written\<rparr>)"
    if "\<not> size_add (length (buf b)) (length written) < length (buf b)"
      "\<not> size_add (length (buf b)) (length written) > cap b"
    using that assms size_add_checked [of "length (buf b)" "length written"]
    by (auto simp: buffer_keeps_def buffer_ok_def)
  then show ?thesis
    using Some keeps_base [OF Some] by (auto simp: CBB_did_write_def Let_def cbb_keeps_refl)
qed

lemma CBB_discard_child_keeps [keeps]: "cbb_keeps s (CBB_discard_child d s)"
proof (cases "drop d (children s)")
  case Nil
  then show ?thesis by (simp add: CBB_discard_child_def cbb_keeps_refl)
next
  case (Cons c cs)
  have "frames_ok 0 (take d (children s)) (length (take (offset c) (buf b)))"
    if "frames_ok 0 (children s) (length (buf b))" for b
  proof -
    have "frames_ok 0 (take d (children s) @ c # cs) (length (buf b))"
      using that Cons by (metis append_take_drop_id)
    then obtain m where "frames_ok 0 (take d (children s)) m" "frames_ok m (c # cs) (length (buf b))"
      using frames_ok_split by blast
    moreover from this(2) have "m \<le> offset c" "offset c \<le> length (buf b)"
      using frames_ok_le [of "offset c + pending_len_len c" cs "length (buf b)"] by auto
    ultimately show ?thesis
      using frames_ok_mono by auto
  qed
  then show ?thesis
    using Cons
    by (auto simp: CBB_discard_child_def cbb_keeps_def cbb_inv_def buffer_ok_def split: option.splits)
qed

text \<open>Opening a child.\<close>

lemma push_inv:
  assumes "cbb_inv s" and "length (children s) = d" and "base s = Some b" and "\<not> error b"
    and "frames_ok 0 (children s) (offset c)" and "offset c + pending_len_len c \<le> length (buf b)"
    and "1 \<le> pending_len_len c" "pending_len_len c \<le> 3" "pending_is_asn1 c \<longrightarrow> pending_len_len c = 1"
  shows "cbb_inv (cbb_push_child d c s)"
  using assms by (auto simp: cbb_inv_def cbb_push_child_def frames_ok_snoc)

lemma length_prefixed_keeps:
  assumes "1 \<le> n" and "n \<le> 3"
  shows "cbb_keeps s (snd (cbb_add_length_prefixed d n s))"
proof -
  have body: "cbb_keeps s1 (snd (case base s1 of None \<Rightarrow> (False, s1)
      | Some b \<Rightarrow>
          let off = length (buf b)
          in case cbb_buffer_add (replicate n 0) b of
               (False, b') \<Rightarrow> (False, s1\<lparr>base := Some b'\<rparr>)
             | (True, b') \<Rightarrow> (True, cbb_push_child d
                 \<lparr>offset = off, pending_len_len = n, pending_is_asn1 = False\<rparr> (s1\<lparr>base := Some b'\<rparr>))))"
    if inv: "cbb_inv s" and fl: "CBB_flush d s = (True, s1)" for s1
  proof (cases "base s1")
    case None
    then show ?thesis by (simp add: cbb_keeps_refl)
  next
    case (Some b)
    obtain ok b' where a: "cbb_buffer_add (replicate n 0) b = (ok, b')"
      by (cases "cbb_buffer_add (replicate n 0) b")
    have k: "buffer_keeps b b'"
      using add_keeps [of "replicate n 0" b] assms(2) a by (simp add: SIZE_MAX_def)
    note kb = keeps_base [OF Some k]
    show ?thesis
    proof (cases ok)
      case False
      with kb show ?thesis by (simp add: Some a)
    next
      case True
      have "cbb_keeps (s1\<lparr>base := Some b'\<rparr>) (cbb_push_child d
          \<lparr>offset = length (buf b), pending_len_len = n, pending_is_asn1 = False\<rparr> (s1\<lparr>base := Some b'\<rparr>))"
      proof (rule keeps_push)
        assume inv': "cbb_inv (s1\<lparr>base := Some b'\<rparr>)"
        have "buf b' = buf b @ replicate n 0" "error b' = error b"
          using a True by (auto simp: cbb_buffer_add_def cbb_buffer_reserve_def Let_def split: if_splits)
        moreover have "length (children s1) = d" "\<not> error b" "frames_ok 0 (children s1) (length (buf b))"
          using flush_innermost [OF fl inv] Some by (auto simp: cbb_inv_def)
        ultimately show "cbb_inv (cbb_push_child d
            \<lparr>offset = length (buf b), pending_len_len = n, pending_is_asn1 = False\<rparr> (s1\<lparr>base := Some b'\<rparr>))"
          using assms inv' by (intro push_inv [where b = b']) simp_all
      qed
      with True kb show ?thesis
        using cbb_keeps_trans by (simp add: Some a)
    qed
  qed
  show ?thesis
    unfolding cbb_add_length_prefixed_def by (rule keepsI) (intro keeps_seq CBB_flush_keeps body)
qed

lemma length_prefixed_ops_keep [keeps]:
  "cbb_keeps s (snd (CBB_add_u8_length_prefixed d s))"
  "cbb_keeps s (snd (CBB_add_u16_length_prefixed d s))"
  "cbb_keeps s (snd (CBB_add_u24_length_prefixed d s))"
  unfolding CBB_add_u8_length_prefixed_def CBB_add_u16_length_prefixed_def CBB_add_u24_length_prefixed_def
  by (simp_all add: length_prefixed_keeps)

lemma add_base128_integer_keeps [keeps]: "cbb_keeps s (snd (add_base128_integer d v s))"
  unfolding add_base128_integer_eq by (intro keeps)

lemma cbb_at_inv: "cbb_at d s \<Longrightarrow> cbb_inv s"
  by (auto simp: cbb_at_length cbb_inv_def cbb_buf_def)

lemma flush_at: "CBB_flush d s = (True, s') \<Longrightarrow> cbb_inv s \<Longrightarrow> cbb_at d s'"
  by (erule (1) flush_innermost) (auto simp: cbb_at_length cbb_inv_def cbb_buf_def)

lemma CBB_add_asn1_keeps [keeps]: "cbb_keeps s (snd (CBB_add_asn1 d tag s))"
proof (rule keepsI)
  assume inv: "cbb_inv s"
  obtain ok s1 where s1: "CBB_flush d s = (ok, s1)"
    by (cases "CBB_flush d s")
  have k: "cbb_keeps s s1"
    using CBB_flush_keeps [of s d] by (simp add: s1)
  show "cbb_keeps s (snd (CBB_add_asn1 d tag s))"
  proof (cases ok)
    case False
    with s1 k show ?thesis by (simp add: CBB_add_asn1_def)
  next
    case True
    with s1 inv have at: "cbb_at d s1"
      using flush_at by simp
    have eq: "CBB_add_asn1 d tag s = CBB_add_asn1 d tag s1"
      using s1 True CBB_flush_innermost [OF at] by (simp add: CBB_add_asn1_def)
    have "cbb_keeps s1 (snd (CBB_add_asn1 d tag s1))"
      unfolding CBB_add_asn1_eq [OF at]
    proof (intro keeps_seq keeps_put_all CBB_add_u8_keeps)
      fix s2 s3
      let ?c = "\<lparr>offset = length (cbb_buf s2), pending_len_len = 1, pending_is_asn1 = True\<rparr>"
      assume "put_all (CBB_add_u8 d) (asn1_tag_bytes tag) s1 = (True, s2)" "CBB_add_u8 d 0 s2 = (True, s3)"
      then have "CBB_add_asn1 d tag s1 = (True, cbb_push_child d ?c s3)"
        by (simp add: CBB_add_asn1_eq [OF at])
      then have "cbb_inv (cbb_push_child d ?c s3)"
        using CBB_add_asn1_opened [OF _ at] cbb_at_inv by (auto simp: cbb_opened_def)
      then show "cbb_keeps s3 (snd (True, cbb_push_child d ?c s3))"
        by (simp add: keeps_push)
    qed
    with eq k show ?thesis
      using cbb_keeps_trans by simp
  qed
qed

lemma cbb_element_keeps:
  "(\<And>s1. cbb_keeps s1 (snd (w s1))) \<Longrightarrow> cbb_keeps s (snd (cbb_element d tag w s))"
  unfolding cbb_element_def by (intro keeps)

lemma asn1_values_keep [keeps]:
  "length data \<le> SIZE_MAX \<Longrightarrow> cbb_keeps s (snd (CBB_add_asn1_octet_string d data s))"
  "cbb_keeps s (snd (CBB_add_asn1_bool d v s))"
  "cbb_keeps s (snd (CBB_add_asn1_uint64 d u s))"
  "cbb_keeps s (snd (CBB_add_asn1_int64 d u s))"
  unfolding CBB_add_asn1_octet_string_eq CBB_add_asn1_bool_eq CBB_add_asn1_uint64_eq CBB_add_asn1_int64_eq
  by (intro cbb_element_keeps keeps; assumption)+

text \<open>Reading something out of a byte string first does not touch the builder.\<close>

lemma keeps_read [keeps]:
  "(\<And>x r. p = (Some x, r) \<Longrightarrow> cbb_keeps s (snd (g x r))) \<Longrightarrow>
    cbb_keeps s (snd (case p of (None, _) \<Rightarrow> (False, s) | (Some x, r) \<Rightarrow> g x r))"
  by (auto simp: cbb_keeps_refl split: prod.splits option.splits)

lemma keeps_if [keeps]:
  "(P \<Longrightarrow> cbb_keeps s (snd x)) \<Longrightarrow> (\<not> P \<Longrightarrow> cbb_keeps s (snd y)) \<Longrightarrow> cbb_keeps s (snd (if P then x else y))"
  by simp

lemma keeps_same [keeps]: "cbb_keeps s (snd (ok, s))"
  by (simp add: cbb_keeps_refl)

lemma oid_from_text_loop_keeps [keeps]: "cbb_keeps s (snd (oid_from_text_loop d cbs s))"
proof (induction d cbs s rule: oid_from_text_loop.induct)
  case (1 d cbs s)
  show ?case
    by (subst oid_from_text_loop.simps) (intro keeps 1; (assumption | rule refl | erule sym | simp))
qed

lemma CBB_add_asn1_oid_from_text_keeps [keeps]: "cbb_keeps s (snd (CBB_add_asn1_oid_from_text d txt s))"
  unfolding CBB_add_asn1_oid_from_text_def by (intro keeps)

lemma cbb_add_characters_keep [keeps]:
  "cbb_keeps s (snd (cbb_add_utf8 d u s))" "cbb_keeps s (snd (cbb_add_latin1 d u s))"
  "cbb_keeps s (snd (cbb_add_ucs2_be d u s))" "cbb_keeps s (snd (cbb_add_utf32_be d u s))"
  unfolding cbb_add_utf8_eq cbb_add_latin1_def cbb_add_ucs2_be_def cbb_add_utf32_be_def
  by (auto intro!: keeps)

lemma set_of_write_keeps:
  "\<forall>c \<in> set cs. length c \<le> SIZE_MAX \<Longrightarrow> cbb_keeps s (snd (set_of_write d cs s))"
proof (induction cs arbitrary: s)
  case (Cons c cs)
  then show ?case
    by (auto intro!: keeps_seq CBB_add_bytes_keeps)
qed (simp add: cbb_keeps_refl)

lemma set_of_children_length:
  "set_of_children n s = Some cs \<Longrightarrow> c \<in> set cs \<Longrightarrow> length c \<le> length s"
proof (induction n arbitrary: s cs)
  case (Suc n)
  obtain x t hl r cs' where x: "CBS_get_any_asn1_element s = (Some (x, t, hl), r)"
      "set_of_children n r = Some cs'" "cs = x # cs'"
    using Suc.prems(1) by (auto split: prod.splits option.splits)
  then have "length s = length x + length r"
    by (auto simp: CBS_get_any_asn1_element_iff)
  with Suc.IH [OF x(2)] Suc.prems(2) x(3) show ?case
    by fastforce
qed simp

lemma CBB_flush_asn1_set_of_keeps [keeps]: "cbb_keeps s (snd (CBB_flush_asn1_set_of d s))"
proof (rule keepsI)
  assume inv: "cbb_inv s"
  show ?thesis
    unfolding CBB_flush_asn1_set_of_def
  proof (intro keeps_seq CBB_flush_keeps)
    fix s1
    assume "CBB_flush d s = (True, s1)"
    then have at: "cbb_at d s1"
      using flush_at inv by blast
    then obtain b where b: "base s1 = Some b" "\<not> error b" "buffer_ok b" "length (children s1) = d"
        "frames_ok 0 (children s1) (length (buf b))"
      by (auto simp: cbb_at_length cbb_buf_def)
    have len: "length (CBB_data d s1) \<le> SIZE_MAX"
      using b le_trans [OF diff_le_self, of "length (buf b)" SIZE_MAX] by (auto simp: CBB_data_def buffer_ok_def)
    let ?s = "s1\<lparr>base := Some (b\<lparr>buf := take (cbb_start d s1) (buf b)\<rparr>)\<rparr>"
    have "frames_ok 0 (children s1) (length (take (cbb_start d s1) (buf b)))"
    proof (cases "children s1" rule: rev_cases)
      case (snoc cs c)
      with b show ?thesis
        by (auto simp: cbb_start_def frames_ok_snoc nth_append)
    qed simp
    then have rewind: "cbb_keeps s1 ?s"
      using b by (auto simp: cbb_keeps_def cbb_inv_def buffer_ok_def)
    have "cbb_keeps s1 (snd (set_of_write d (qsort compare_set_of_element cs) ?s))"
      if "set_of_children n (CBS_init (CBB_data d s1) (CBB_len d s1)) = Some cs" for n cs
    proof (rule cbb_keeps_trans [OF rewind], rule set_of_write_keeps)
      have "length (CBS_init (CBB_data d s1) (CBB_len d s1)) \<le> SIZE_MAX"
        using len by (simp add: CBS_init_def)
      then show "\<forall>c \<in> set (qsort compare_set_of_element cs). length c \<le> SIZE_MAX"
        using set_of_children_length [OF that] by fastforce
    qed
    then show "cbb_keeps s1 (snd (case base s1 of
         None \<Rightarrow> (False, s1)
       | Some b \<Rightarrow> (case set_of_count 0 (CBS_init (CBB_data d s1) (CBB_len d s1)) of
           None \<Rightarrow> (False, s1)
         | Some num_children \<Rightarrow>
             if num_children < 2 then (True, s1)
             else if num_children > SIZE_MAX div sizeof_CBS then (False, s1)
             else if \<not> alloc b (CBB_len d s1) \<or> \<not> alloc b (num_children * sizeof_CBS) then (False, s1)
             else (case set_of_children num_children (CBS_init (CBB_data d s1) (CBB_len d s1)) of
                     None \<Rightarrow> (False, s1)
                   | Some cs \<Rightarrow>
                       set_of_write d (qsort compare_set_of_element cs)
                         (s1\<lparr>base := Some (b\<lparr>buf := take (cbb_start d s1) (buf b)\<rparr>)\<rparr>)))))"
      using b(1) by (auto simp: cbb_keeps_refl split: option.splits)
  qed
qed

section \<open>The state machine\<close>

text \<open>One call of an operation, with arguments that C can pass; \<open>d\<close> is any \<open>CBB\<close> of the chain.\<close>

inductive cbb_step :: "cbb \<Rightarrow> cbb \<Rightarrow> bool" where
  flush: "cbb_step s (snd (CBB_flush d s))"
| add_bytes: "length data \<le> SIZE_MAX \<Longrightarrow> cbb_step s (snd (CBB_add_bytes d data s))"
| add_space: "length data \<le> SIZE_MAX \<Longrightarrow> cbb_step s (snd (CBB_add_space d data s))"
| reserve: "n \<le> SIZE_MAX \<Longrightarrow> cbb_step s (snd (CBB_reserve d n s))"
| did_write: "length data \<le> SIZE_MAX \<Longrightarrow> cbb_step s (snd (CBB_did_write d data s))"
| add_u8: "cbb_step s (snd (CBB_add_u8 d v s))"
| add_u16: "cbb_step s (snd (CBB_add_u16 d v s))"
| add_u16le: "cbb_step s (snd (CBB_add_u16le d v s))"
| add_u24: "cbb_step s (snd (CBB_add_u24 d v s))"
| add_u32: "cbb_step s (snd (CBB_add_u32 d v s))"
| add_u32le: "cbb_step s (snd (CBB_add_u32le d v s))"
| add_u64: "cbb_step s (snd (CBB_add_u64 d v s))"
| add_u64le: "cbb_step s (snd (CBB_add_u64le d v s))"
| u8_length_prefixed: "cbb_step s (snd (CBB_add_u8_length_prefixed d s))"
| u16_length_prefixed: "cbb_step s (snd (CBB_add_u16_length_prefixed d s))"
| u24_length_prefixed: "cbb_step s (snd (CBB_add_u24_length_prefixed d s))"
| add_asn1: "cbb_step s (snd (CBB_add_asn1 d tag s))"
| discard_child: "cbb_step s (CBB_discard_child d s)"
| asn1_uint64: "cbb_step s (snd (CBB_add_asn1_uint64 d u s))"
| asn1_int64: "cbb_step s (snd (CBB_add_asn1_int64 d u s))"
| asn1_octet_string: "length data \<le> SIZE_MAX \<Longrightarrow> cbb_step s (snd (CBB_add_asn1_octet_string d data s))"
| asn1_bool: "cbb_step s (snd (CBB_add_asn1_bool d i s))"
| asn1_oid_from_text: "cbb_step s (snd (CBB_add_asn1_oid_from_text d txt s))"
| flush_asn1_set_of: "cbb_step s (snd (CBB_flush_asn1_set_of d s))"
| utf8: "cbb_step s (snd (cbb_add_utf8 d c s))"
| latin1: "cbb_step s (snd (cbb_add_latin1 d c s))"
| ucs2_be: "cbb_step s (snd (cbb_add_ucs2_be d c s))"
| utf32_be: "cbb_step s (snd (cbb_add_utf32_be d c s))"

lemma step_keeps: "cbb_step s s' \<Longrightarrow> cbb_keeps s s'"
  by (induction rule: cbb_step.induct) (rule keeps; assumption?)+

inductive cbb_reachable :: "cbb \<Rightarrow> cbb \<Rightarrow> bool" for s where
  start: "cbb_reachable s s"
| step: "cbb_reachable s s' \<Longrightarrow> cbb_step s' s'' \<Longrightarrow> cbb_reachable s s''"

lemma reachable_once: "cbb_step s s' \<Longrightarrow> cbb_reachable s s'"
  by (rule cbb_reachable.step [OF cbb_reachable.start])

lemma reachable_keeps: "cbb_reachable s s' \<Longrightarrow> cbb_keeps s s'"
  by (induction rule: cbb_reachable.induct) (blast intro: cbb_keeps_refl cbb_keeps_trans step_keeps)+

lemma init_inv:
  "CBB_init al n = (True, s) \<Longrightarrow> n \<le> SIZE_MAX \<Longrightarrow> cbb_inv s"
  "CBB_init_fixed al n = (True, s) \<Longrightarrow> n \<le> SIZE_MAX \<Longrightarrow> cbb_inv s"
  by (auto simp: CBB_init_def CBB_init_fixed_def cbb_init_def CBB_zero_def cbb_inv_def buffer_ok_def
      split: if_splits)

text \<open>
  C2: the invariant of the builder.  Whatever sequence of operations is called, on whatever \<open>CBB\<close>s of
  the chain and whether they succeed or fail, the bytes written never exceed the capacity, and unless
  the builder is in error the pending length prefixes lie one after the other inside the buffer.
\<close>
theorem builder_invariant:
  assumes "CBB_init al n = (True, s)" and "n \<le> SIZE_MAX" and "cbb_reachable s s'"
  shows "\<exists>b. base s' = Some b \<and> length (buf b) \<le> cap b \<and> cap b \<le> SIZE_MAX \<and>
    (\<not> error b \<longrightarrow> frames_ok 0 (children s') (length (buf b)))"
proof -
  have "cbb_inv s" "cbb_keeps s s'"
    using init_inv(1) [OF assms(1,2)] reachable_keeps [OF assms(3)] by auto
  moreover have "base s \<noteq> None"
    using assms(1) by (auto simp: CBB_init_def cbb_init_def split: if_splits)
  ultimately show ?thesis
    by (auto simp: cbb_keeps_def cbb_inv_def buffer_ok_def)
qed

lemma builder_invariant_witness:
  "let s = snd (CBB_init unlimited 2) in
   \<exists>b. base (snd (CBB_add_u16 0 7 s)) = Some b \<and> length (buf b) \<le> cap b \<and> cap b \<le> SIZE_MAX \<and>
    (\<not> error b \<longrightarrow> frames_ok 0 (children (snd (CBB_add_u16 0 7 s))) (length (buf b)))"
  unfolding Let_def
  by (rule builder_invariant [of unlimited 2, OF _ _ reachable_once [OF add_u16]])
    (simp_all add: CBB_init_def cbb_init_def SIZE_MAX_def)

text \<open>
  C13: a fixed buffer is never overrun.  A builder started with \<open>CBB_init_fixed\<close> on \<open>n\<close> bytes keeps that
  buffer for life: in every reachable state it is not resized and at most \<open>n\<close> bytes are written.
\<close>
theorem fixed_builder_bounded:
  assumes "CBB_init_fixed al n = (True, s)" and "n \<le> SIZE_MAX" and "cbb_reachable s s'"
  shows "\<exists>b. base s' = Some b \<and> cap b = n \<and> \<not> can_resize b \<and> length (buf b) \<le> n"
proof -
  obtain b where b: "base s = Some b" "\<not> can_resize b" "cap b = n"
    using assms(1) by (auto simp: CBB_init_fixed_def cbb_init_def split: if_splits)
  have "cbb_inv s" "cbb_keeps s s'"
    using init_inv(2) [OF assms(1,2)] reachable_keeps [OF assms(3)] by auto
  with b show ?thesis
    by (auto simp: cbb_keeps_def cbb_inv_def buffer_ok_def)
qed

lemma fixed_builder_bounded_witness:
  "let s = snd (CBB_init_fixed unlimited 1) in
   \<exists>b. base (snd (CBB_add_u16 0 7 s)) = Some b \<and> cap b = 1 \<and> \<not> can_resize b \<and> length (buf b) \<le> 1"
  unfolding Let_def
  by (rule fixed_builder_bounded [of unlimited 1, OF _ _ reachable_once [OF add_u16]])
    (simp_all add: CBB_init_fixed_def cbb_init_def SIZE_MAX_def)

text \<open>The calls that write to a builder, open a child, flush or finish, for any arguments.\<close>

inductive cbb_write :: "(cbb \<Rightarrow> bool \<times> cbb) \<Rightarrow> bool" where
  "cbb_write (CBB_flush d)"
| "cbb_write (CBB_add_bytes d data)"
| "cbb_write (CBB_add_space d data)"
| "cbb_write (CBB_reserve d n)"
| "cbb_write (CBB_add_u8 d v8)"
| "cbb_write (CBB_add_u16 d v16)"
| "cbb_write (CBB_add_u16le d v16)"
| "cbb_write (CBB_add_u24 d v32)"
| "cbb_write (CBB_add_u32 d v32)"
| "cbb_write (CBB_add_u32le d v32)"
| "cbb_write (CBB_add_u64 d v64)"
| "cbb_write (CBB_add_u64le d v64)"
| "cbb_write (CBB_add_u8_length_prefixed d)"
| "cbb_write (CBB_add_u16_length_prefixed d)"
| "cbb_write (CBB_add_u24_length_prefixed d)"
| "cbb_write (CBB_add_asn1 d tag)"
| "cbb_write (CBB_add_asn1_uint64 d v64)"
| "cbb_write (CBB_add_asn1_int64 d i64)"
| "cbb_write (CBB_add_asn1_octet_string d data)"
| "cbb_write (CBB_add_asn1_bool d i)"
| "cbb_write (CBB_add_asn1_oid_from_text d txt)"
| "cbb_write (CBB_flush_asn1_set_of d)"
| "cbb_write (cbb_add_utf8 d c)"
| "cbb_write (cbb_add_latin1 d c)"
| "cbb_write (cbb_add_ucs2_be d c)"
| "cbb_write (cbb_add_utf32_be d c)"

lemma write_refused:
  assumes "base s = Some b" and "error b" and "cbb_write w"
  shows "w s = (False, s)"
proof -
  have fl: "CBB_flush k s = (False, s)" for k
    using assms(1,2) by (simp add: CBB_flush_def cbb_flush_error)
  have th: "cbb_then k f s = (False, s)" for k f
    by (simp add: cbb_then_def fl)
  have lp: "cbb_add_length_prefixed k m s = (False, s)" for k m
    by (simp add: cbb_add_length_prefixed_def fl)
  have u8: "CBB_add_u8 k x s = (False, s)" for k x by (simp add: CBB_add_u8_def th)
  have asn1: "CBB_add_asn1 k t s = (False, s)" for k t by (simp add: CBB_add_asn1_def fl)
  note writers = CBB_add_bytes_def CBB_add_space_def CBB_reserve_def CBB_add_u16_def CBB_add_u16le_def CBB_add_u24_def
    CBB_add_u32_def CBB_add_u32le_def CBB_add_u64_def CBB_add_u64le_def
  show ?thesis
    using assms(3)
    by cases (simp_all add: fl th lp u8 asn1 writers CBB_add_u8_length_prefixed_def CBB_add_u16_length_prefixed_def
        CBB_add_u24_length_prefixed_def CBB_add_asn1_uint64_def CBB_add_asn1_int64_def CBB_add_asn1_octet_string_def
        CBB_add_asn1_bool_def CBB_add_asn1_oid_from_text_def CBB_flush_asn1_set_of_def cbb_add_utf8_def
        cbb_add_latin1_def cbb_add_ucs2_be_def cbb_add_utf32_be_def Let_def)
qed

text \<open>
  C19: errors are sticky.  Once the error flag of a builder is set, it stays set in every state that the operations
  can reach, \<open>CBB_did_write\<close> and \<open>CBB_discard_child\<close> included, although these two do not look at it; and in every such
  state each call that writes, reserves, opens a child or flushes fails and changes nothing, and \<open>CBB_finish\<close>
  delivers nothing.
\<close>
theorem error_is_sticky:
  assumes "base s = Some b" and "error b" and "cbb_inv s" and "cbb_reachable s s'"
  shows "(\<exists>b'. base s' = Some b' \<and> error b') \<and> (\<forall>w. cbb_write w \<longrightarrow> w s' = (False, s')) \<and>
    CBB_finish 0 True s' = (None, s')"
proof -
  obtain b' where b': "base s' = Some b'" "error b'"
    using reachable_keeps [OF assms(4)] assms(1-3) by (auto simp: cbb_keeps_def)
  moreover have "CBB_flush k s' = (False, s')" for k
    by (rule write_refused [OF b']) (rule cbb_write.intros)
  ultimately show ?thesis
    using write_refused [OF b'] by (simp add: CBB_finish_def)
qed

definition overflown :: cbb where
  "overflown = snd (CBB_add_u16 0 7 (snd (CBB_init_fixed unlimited 1)))"

lemma error_is_sticky_witness:
  "\<exists>b'. base overflown = Some b' \<and> error b' \<and> CBB_flush 0 overflown = (False, overflown) \<and>
    CBB_add_bytes 0 [] overflown = (False, overflown) \<and> CBB_add_asn1_uint64 0 3 overflown = (False, overflown) \<and>
    CBB_flush_asn1_set_of 0 overflown = (False, overflown) \<and> CBB_finish 0 True overflown = (None, overflown)"
proof -
  have o: "overflown = \<lparr>base = Some \<lparr>buf = [], cap = 1, can_resize = False, error = True, alloc = unlimited\<rparr>,
      children = []\<rparr>"
    by (simp add: overflown_def CBB_add_u16_def cbb_then_def CBB_flush_def CBB_init_fixed_def cbb_init_def
        CBB_zero_def cbb_buffer_add_u_def cbb_buffer_add_def cbb_buffer_reserve_def size_add_def Let_def)
  have e: "(\<exists>b'. base overflown = Some b' \<and> error b') \<and> (\<forall>w. cbb_write w \<longrightarrow> w overflown = (False, overflown)) \<and>
    CBB_finish 0 True overflown = (None, overflown)"
    by (rule error_is_sticky [of overflown "the (base overflown)"])
      (simp_all add: o cbb_inv_def buffer_ok_def SIZE_MAX_def cbb_reachable.start)
  then have w: "cbb_write w \<Longrightarrow> w overflown = (False, overflown)" for w
    by blast
  show ?thesis
    using e w [OF cbb_write.intros(1)] w [OF cbb_write.intros(2)] w [OF cbb_write.intros(17)] w [OF cbb_write.intros(22)]
    by blast
qed

end
