(* ===== verification/Cbb_Vector.thy ===== *)
theory Cbb_Vector
  imports Cbb_Inv
begin

text \<open>
  Length-prefixed vectors and complete messages: what a builder writes, read back by the matching
  reader of \<open>cbs.c\<close>.
\<close>

section \<open>Vectors\<close>

definition vec :: "nat \<Rightarrow> bytes \<Rightarrow> bytes" where
  "vec n c = be_bytes n (length c) @ c"

lemma cbs_get_length_prefixed_iff:
  assumes "1 \<le> n" and "n \<le> 3"
  shows "cbs_get_length_prefixed n s = (Some c, r) \<longleftrightarrow> length c < 256 ^ n \<and> s = vec n c @ r"
proof -
  have get: "cbs_get_u n s = (Some v, r') \<longleftrightarrow> unat v < 256 ^ n \<and> s = be_bytes n (unat v) @ r'" for v r'
    using codec.dec_iff [OF cbs_get_u_codec [of n]] assms by simp
  have len: "unat (of_nat (length c) :: u64) = length c" if "length c < 256 ^ n"
  proof -
    have "(256 :: nat) ^ n \<le> 256 ^ 3"
      using assms by (intro power_increasing) simp_all
    with that have "length c < 2 ^ 64" by simp
    then show ?thesis
      by (simp only: unat_of_nat) simp
  qed
  have "cbs_get_length_prefixed n s = (Some c, r) \<longleftrightarrow>
      (\<exists>v. cbs_get_u n s = (Some v, c @ r) \<and> length c = unat v)"
    by (auto simp: cbs_get_length_prefixed_def CBS_get_bytes_eq cbs_get_iff split: prod.splits option.splits)
  also have "\<dots> \<longleftrightarrow> length c < 256 ^ n \<and> s = vec n c @ r"
    unfolding get vec_def using len by (auto intro: exI [of _ "of_nat (length c)"])
  finally show ?thesis .
qed

text \<open>\<open>s'\<close> is \<open>s\<close> with a vector of \<open>n\<close> length octets open.\<close>

definition vec_opened :: "nat \<Rightarrow> nat \<Rightarrow> cbb \<Rightarrow> cbb \<Rightarrow> bool" where
  "vec_opened n d s s' \<longleftrightarrow> cbb_at d s \<and> cbb_at (Suc d) s' \<and> cbb_env s' = cbb_env s \<and>
     cbb_buf s' = cbb_buf s @ replicate n 0 \<and>
     children s' = children s @ [\<lparr>offset = length (cbb_buf s), pending_len_len = n, pending_is_asn1 = False\<rparr>]"

lemma length_prefixed_opened:
  assumes "cbb_add_length_prefixed d n s = (True, s')" and "cbb_at d s" and "1 \<le> n" "n \<le> 3"
  shows "vec_opened n d s s'"
proof -
  obtain b where b: "base s = Some b" "\<not> error b" "buffer_ok b" "length (children s) = d"
      "frames_ok 0 (children s) (length (buf b))"
    using assms(2) by (auto simp: cbb_at_length cbb_buf_def)
  obtain b' where b': "cbb_buffer_add (replicate n 0) b = (True, b')"
    and s': "s' = cbb_push_child d \<lparr>offset = length (buf b), pending_len_len = n, pending_is_asn1 = False\<rparr>
      (s\<lparr>base := Some b'\<rparr>)"
    using assms(1) b(1) CBB_flush_innermost [OF assms(2)]
    by (auto simp: cbb_add_length_prefixed_def Let_def split: prod.splits bool.splits)
  have "buffer_wrote (replicate n 0) b b'"
    using cbb_buffer_add_ok [OF b' b(3)] assms(4) by (simp add: SIZE_MAX_def)
  then show ?thesis
    using b assms s'
    by (auto simp: vec_opened_def cbb_at_length cbb_push_child_def buffer_wrote_def cbb_buf_def cbb_env_def
        frames_ok_snoc)
qed

lemma vec_close:
  assumes o: "vec_opened n d s s1" and w: "cbb_wrote (Suc d) c s1 s2" and f: "CBB_flush d s2 = (True, s3)"
    and n: "1 \<le> n" "n \<le> 3"
  shows "cbb_wrote d (vec n c) s s3 \<and> length c < 256 ^ n"
proof -
  define fr where "fr = \<lparr>offset = length (cbb_buf s), pending_len_len = n, pending_is_asn1 = False\<rparr>"
  obtain b2 where b2: "base s2 = Some b2" "buffer_ok b2" "\<not> error b2"
    and buf2: "buf b2 = cbb_buf s @ replicate n 0 @ c"
    and ch: "children s2 = children s @ [fr]" "length (children s) = d"
    using o w by (auto simp: vec_opened_def cbb_wrote_def cbb_at_length cbb_buf_def fr_def)
  obtain cs' b3 where f3: "cbb_flush [fr] b2 = (True, cs', b3)"
    and s3: "s3 = s2\<lparr>base := Some b3, children := children s @ cs'\<rparr>"
    using f b2 ch by (auto simp: CBB_flush_def split: prod.splits)
  have "frames_ok 0 [fr] (length (buf b2))"
    using n by (simp add: fr_def buf2)
  note r = cbb_flush_sound [OF f3 this b2(2)]
  then have buf3: "buf b3 = cbb_buf s @ vec n c" and len: "length c < 256 ^ n"
    by (simp_all add: buf2 fr_def Let_def prefix_bytes_def prefix_fits_def vec_def)
  have "frames_ok 0 (children s) (length (cbb_buf s))"
    using o by (auto simp: vec_opened_def cbb_at_length)
  then have "frames_ok 0 (children s) (length (buf b3))"
    unfolding buf3 by (rule frames_ok_mono) simp
  then have "cbb_at d s3"
    using r ch(2) by (simp add: s3 cbb_at_def cbb_ok_def)
  then show ?thesis
    using r o w buf3 len b2 by (simp add: cbb_wrote_def vec_opened_def s3 cbb_buf_def cbb_env_def)
qed

text \<open>
  Length-prefixed vectors survive a round trip.  If a 16-bit vector is opened, contents written
  into it and the parent flushed, the parent holds what it held, the two length octets and the
  contents; the contents are below 64 kB; and \<open>CBS_get_u16_length_prefixed\<close> reads them back whatever
  follows.  A longer vector makes the flush fail.
\<close>
theorem u16_vector_roundtrip:
  assumes "CBB_add_u16_length_prefixed d s = (True, s1)" and "cbb_at d s"
    and "cbb_wrote (Suc d) c s1 s2" and "CBB_flush d s2 = (True, s3)"
  shows "cbb_wrote d (vec 2 c) s s3 \<and> length c < 65536 \<and>
    CBS_get_u16_length_prefixed (drop (length (cbb_buf s)) (cbb_buf s3) @ r) = (Some c, r)"
proof -
  have "vec_opened 2 d s s1"
    using length_prefixed_opened [OF assms(1) [unfolded CBB_add_u16_length_prefixed_def] assms(2)] by simp
  from vec_close [OF this assms(3,4)] have w: "cbb_wrote d (vec 2 c) s s3" "length c < 256 ^ 2"
    by simp_all
  have "CBS_get_u16_length_prefixed (vec 2 c @ r) = (Some c, r)"
    using cbs_get_length_prefixed_iff [of 2 "vec 2 c @ r" c r] w(2) by (simp add: CBS_get_u16_length_prefixed_def)
  with w show ?thesis
    by (simp add: cbb_wrote_def)
qed

text \<open>A concrete builder: nine bytes in a growing buffer.\<close>

definition demo0 :: cbb where "demo0 = snd (CBB_init unlimited 4)"
definition demo1 :: cbb where "demo1 = snd (CBB_add_u16_length_prefixed 0 demo0)"
definition demo2 :: cbb where "demo2 = snd (CBB_add_bytes 1 [1, 2, 3] demo1)"
definition demo3 :: cbb where "demo3 = snd (CBB_flush 0 demo2)"

lemma demo_at: "cbb_at 0 demo0" "cbb_buf demo0 = []"
  using CBB_init_at [of unlimited 4 demo0]
  by (simp_all add: demo0_def CBB_init_def cbb_init_def SIZE_MAX_def)

lemma size_mul_small: "a * b < 18446744073709551616 \<Longrightarrow> size_mul a b = a * b"
  by (simp add: size_mul_def)

lemma store_be_steps:
  "store_be bs pos 2 v = store_be (bs[pos + 1 := ucast v]) pos 1 (drop_bit 8 v)"
  "store_be bs pos 3 v = store_be (bs[pos + 2 := ucast v]) pos 2 (drop_bit 8 v)"
  by (simp_all add: numeral_2_eq_2 numeral_3_eq_3)

lemma replicate_2: "replicate 2 x = [x, x]"
  by (simp add: numeral_2_eq_2)

lemmas cbb_eval = CBB_init_def cbb_init_def CBB_zero_def sizeof_cbb_buffer_def
  CBB_add_u16_length_prefixed_def cbb_add_length_prefixed_def CBB_flush_def CBB_add_bytes_def cbb_then_def
  cbb_buffer_add_def cbb_buffer_reserve_def cbb_push_child_def cbb_write_prefix_def
  Let_def SIZE_MAX_def size_mul_small replicate_2

lemma demo_values:
  "demo0 = \<lparr>base = Some \<lparr>buf = [], cap = 4, can_resize = True, error = False, alloc = unlimited\<rparr>, children = []\<rparr>"
  "demo1 = \<lparr>base = Some \<lparr>buf = [0, 0], cap = 4, can_resize = True, error = False, alloc = unlimited\<rparr>,
     children = [\<lparr>offset = 0, pending_len_len = 2, pending_is_asn1 = False\<rparr>]\<rparr>"
  "demo2 = \<lparr>base = Some \<lparr>buf = [0, 0, 1, 2, 3], cap = 8, can_resize = True, error = False, alloc = unlimited\<rparr>,
     children = [\<lparr>offset = 0, pending_len_len = 2, pending_is_asn1 = False\<rparr>]\<rparr>"
  by (simp_all add: demo0_def demo1_def demo2_def cbb_eval)

lemma demo_vector: "CBB_add_u16_length_prefixed 0 demo0 = (True, demo1)" "CBB_flush 0 demo2 = (True, demo3)"
    "CBB_add_bytes 1 [1, 2, 3] demo1 = (True, demo2)"
proof -
  have "fst (CBB_add_u16_length_prefixed 0 demo0)" "fst (CBB_flush 0 demo2)" "fst (CBB_add_bytes 1 [1, 2, 3] demo1)"
    by (simp_all add: demo_values cbb_eval store_be_steps)
  then show "CBB_add_u16_length_prefixed 0 demo0 = (True, demo1)" "CBB_flush 0 demo2 = (True, demo3)"
    "CBB_add_bytes 1 [1, 2, 3] demo1 = (True, demo2)"
    by (simp_all add: demo1_def demo2_def demo3_def prod_eq_iff)
qed

lemma demo_wrote: "cbb_wrote (Suc 0) [1, 2, 3] demo1 demo2"
proof -
  have "cbb_at 1 demo1"
    using length_prefixed_opened [OF demo_vector(1) [unfolded CBB_add_u16_length_prefixed_def] demo_at(1)]
    by (simp add: vec_opened_def)
  then show ?thesis
    using CBB_add_bytes_wrote [OF demo_vector(3)] by (simp add: SIZE_MAX_def)
qed

lemma u16_vector_roundtrip_witness:
  "cbb_wrote 0 (vec 2 [1, 2, 3]) demo0 demo3 \<and> length [1, 2, 3 :: u8] < 65536 \<and>
    CBS_get_u16_length_prefixed (drop (length (cbb_buf demo0)) (cbb_buf demo3) @ [9]) = (Some [1, 2, 3], [9])"
  by (rule u16_vector_roundtrip [OF demo_vector(1) demo_at(1) demo_wrote demo_vector(2)])

text \<open>
  C3: what \<open>CBB_flush\<close> writes.  On a well-formed chain a successful flush turns the buffer into
  \<open>flush_buf\<close>: from the innermost child outwards, each reserved prefix is replaced by the length of
  what follows it, in the DER form (moving the contents up) for ASN.1 children and big-endian in the
  reserved octets for the others, and every length fits its prefix.  Conversely, on a builder that
  can grow the flush succeeds whenever the lengths fit.
\<close>
theorem flush_layout:
  assumes "frames_ok 0 cs (length (buf b))" and "buffer_ok b"
  shows "(cbb_flush cs b = (True, cs', b') \<longrightarrow>
      cs' = [] \<and> buf b' = flush_buf cs (buf b) \<and> flush_fits cs (buf b)) \<and>
    (flush_fits cs (buf b) \<and> \<not> error b \<and> buffer_roomy (4 * length cs) b \<longrightarrow>
      (\<exists>b'. cbb_flush cs b = (True, [], b') \<and> buf b' = flush_buf cs (buf b)))"
  using cbb_flush_sound [of cs b cs' b' 0] cbb_flush_sound [of cs b "[]" _ 0] cbb_flush_complete [of cs b 0] assms
  by blast

definition open_vector :: "cbb_frame list \<times> cbb_buffer" where
  "open_vector = ([\<lparr>offset = 1, pending_len_len = 1, pending_is_asn1 = True\<rparr>],
     \<lparr>buf = [48, 0, 2, 1, 5], cap = 8, can_resize = True, error = False, alloc = unlimited\<rparr>)"

lemma flush_layout_witness:
  "\<exists>b'. cbb_flush (fst open_vector) (snd open_vector) = (True, [], b') \<and> buf b' = [48, 3, 2, 1, 5]"
  using flush_layout [of "fst open_vector" "snd open_vector"]
  by (simp add: open_vector_def buffer_ok_def buffer_roomy_def SIZE_MAX_def prefix_fits_def prefix_bytes_def
      der_len_def)

text \<open>
  discarding a child.  \<open>CBB_discard_child\<close> on a length-prefixed vector restores the parent's bytes
  exactly, whatever was written into the child.  For an ASN.1 child it drops the contents and the
  length octet but leaves the identifier octets that \<open>CBB_add_asn1\<close> wrote before it.
\<close>
theorem discard_child_restores:
  assumes "cbb_at d s"
  shows "(CBB_add_u16_length_prefixed d s = (True, s1) \<and> cbb_wrote (Suc d) c s1 s2 \<longrightarrow>
      cbb_wrote d [] s (CBB_discard_child d s2)) \<and>
    (CBB_add_asn1 d tag s = (True, s1) \<and> cbb_wrote (Suc d) c s1 s2 \<longrightarrow>
      cbb_wrote d (asn1_tag_bytes tag) s (CBB_discard_child d s2))"
proof (intro conjI impI; elim conjE)
  note fr = assms [unfolded cbb_at_length]
  assume "CBB_add_u16_length_prefixed d s = (True, s1)" and w: "cbb_wrote (Suc d) c s1 s2"
  then have o: "vec_opened 2 d s s1"
    using length_prefixed_opened [OF _ assms, of 2] by (simp add: CBB_add_u16_length_prefixed_def)
  with w show "cbb_wrote d [] s (CBB_discard_child d s2)"
    using fr assms
    by (auto simp: vec_opened_def cbb_wrote_def cbb_at_length CBB_discard_child_def cbb_buf_def cbb_env_def
        buffer_ok_def)
next
  note fr = assms [unfolded cbb_at_length]
  assume "CBB_add_asn1 d tag s = (True, s1)" and w: "cbb_wrote (Suc d) c s1 s2"
  then have o: "cbb_opened d tag s s1"
    using CBB_add_asn1_opened [OF _ assms] by blast
  with w show "cbb_wrote d (asn1_tag_bytes tag) s (CBB_discard_child d s2)"
    using fr assms frames_ok_mono [of 0 "children s" "length (cbb_buf s)" "length (cbb_buf s @ asn1_tag_bytes tag)"]
    by (auto simp: cbb_opened_def cbb_wrote_def cbb_at_length CBB_discard_child_def cbb_buf_def cbb_env_def
        buffer_ok_def)
qed

lemma discard_child_restores_witness: "cbb_wrote 0 [] demo0 (CBB_discard_child 0 demo2)"
  using discard_child_restores [OF demo_at(1)] demo_vector(1) demo_wrote by blast

text \<open>
  C7: signed integers survive a round trip.  A fresh growing builder accepts every 64-bit value, and
  the DER that \<open>CBB_finish\<close> returns is read back by \<open>CBS_get_asn1_int64\<close> as the same value with nothing
  left; likewise for the unsigned pair.
\<close>
theorem integer_build_read:
  assumes "n \<le> SIZE_MAX"
  shows "\<exists>s s' s'' x y. CBB_init unlimited n = (True, s) \<and>
    CBB_add_asn1_int64 0 v s = (True, s') \<and> CBB_finish 0 True s' = (Some x, CBB_cleanup s') \<and>
    CBS_get_asn1_int64 x = (Some v, []) \<and>
    CBB_add_asn1_uint64 0 u s = (True, s'') \<and> CBB_finish 0 True s'' = (Some y, CBB_cleanup s'') \<and>
    CBS_get_asn1_uint64 y = (Some u, [])"
proof -
  obtain s where s: "CBB_init unlimited n = (True, s)"
    by (simp add: CBB_init_def cbb_init_def)
  note at = CBB_init_at [OF s assms]
  have len: "length (der_int i) \<le> 9" if "- (2 ^ 63) \<le> i" "i < 2 ^ 64" for i
  proof -
    have "- (256 ^ 9) \<le> 2 * i \<and> 2 * i < 256 ^ 9"
      using that by simp
    then show ?thesis
      by (simp only: length_der_int)
  qed
  have l1: "length (der_int (sint v)) \<le> 9"
    using sint_greater_eq [of v] sint_less [of v] by (intro len) simp_all
  have l2: "length (der_int (int (unat u))) \<le> 9"
    by (rule length_der_u64)
  have room: "cbb_roomy (length (der_element CBS_ASN1_INTEGER c) + 4) s" if "length c \<le> 9" for c
    using at that length_asn1_tag_bytes [of CBS_ASN1_INTEGER]
    by (simp add: cbb_roomy_def der_element_def der_header_def length_der_len SIZE_MAX_def)
  obtain s' where s': "CBB_add_asn1_int64 0 v s = (True, s')"
    using put_all_element_roomy [of 0 s CBS_ASN1_INTEGER "der_int (sint v)"] at room [OF l1] l1
    by (auto simp: CBB_add_asn1_int64_eq)
  obtain s'' where s'': "CBB_add_asn1_uint64 0 u s = (True, s'')"
    using put_all_element_roomy [of 0 s CBS_ASN1_INTEGER "der_int (int (unat u))"] at room [OF l2] l2
    by (auto simp: CBB_add_asn1_uint64_eq strip_zeros_u64)
  show ?thesis
    using cbb_int64.add_finish [OF s'] cbb_uint64.add_finish [OF s''] at s s' s''
      asn1_int64.dec_enc_exact [of v] asn1_uint64.dec_enc_exact [of u] by blast
qed

lemma integer_build_read_witness:
  "\<exists>s s' s'' x y. CBB_init unlimited 0 = (True, s) \<and>
    CBB_add_asn1_int64 0 (- 129) s = (True, s') \<and> CBB_finish 0 True s' = (Some x, CBB_cleanup s') \<and>
    CBS_get_asn1_int64 x = (Some (- 129), []) \<and>
    CBB_add_asn1_uint64 0 128 s = (True, s'') \<and> CBB_finish 0 True s'' = (Some y, CBB_cleanup s'') \<and>
    CBS_get_asn1_uint64 y = (Some 128, [])"
  by (rule integer_build_read) simp

text \<open>
  fixed-width integers in sequence.  Values of different widths and byte orders written one after
  the other are read back in that order; a 24-bit value that does not fit makes the call fail.
\<close>
theorem widths_build_read:
  assumes "cbb_at d s" and "CBB_add_u16 d a s = (True, s1)" and "CBB_add_u24 d b s1 = (True, s2)"
    and "CBB_add_u32le d c s2 = (True, s3)" and "CBB_add_u64 d e s3 = (True, s4)"
  shows "unat b < 2 ^ 24 \<and> (\<exists>r1 r2 r3. CBS_get_u16 (drop (length (cbb_buf s)) (cbb_buf s4)) = (Some a, r1) \<and>
    CBS_get_u24 r1 = (Some b, r2) \<and> CBS_get_u32le r2 = (Some c, r3) \<and> CBS_get_u64 r3 = (Some e, []))"
proof -
  have w1: "cbb_wrote d (be_bytes 2 (unat a)) s s1"
    using cbb_u16.add_wrote [OF assms(2,1)] by simp
  have w2: "unat b < 256 ^ 3" "cbb_wrote d (be_bytes 3 (unat b)) s1 s2"
    using cbb_u24.add_wrote [OF assms(3)] w1 by (simp_all add: cbb_wrote_def)
  have w3: "cbb_wrote d (le_enc 4 c) s2 s3"
    using cbb_u32le.add_wrote [OF assms(4)] w2 by (simp add: cbb_wrote_def)
  have w4: "cbb_wrote d (be_bytes 8 (unat e)) s3 s4"
    using cbb_u64.add_wrote [OF assms(5)] w3 by (simp add: cbb_wrote_def)
  have "drop (length (cbb_buf s)) (cbb_buf s4) =
      be_bytes 2 (unat a) @ be_bytes 3 (unat b) @ le_enc 4 c @ be_bytes 8 (unat e)"
    using w1 w2 w3 w4 by (simp add: cbb_wrote_def del: be_bytes.simps)
  moreover have "CBS_get_u16 (be_bytes 2 (unat a) @ r) = (Some a, r)" for r
    by (simp only: get_u16.dec_iff simp_thms)
  moreover have "CBS_get_u24 (be_bytes 3 (unat b) @ r) = (Some b, r)" for r
    using w2(1) by (simp only: get_u24.dec_iff simp_thms)
  moreover have "CBS_get_u32le (le_enc 4 c @ r) = (Some c, r)" for r
    by (simp only: CBS_get_u32le_iff)
  moreover have "CBS_get_u64 (be_bytes 8 (unat e)) = (Some e, [])"
    using get_u64.dec_enc_exact by blast
  ultimately show ?thesis
    using w2(1) by (simp del: be_bytes.simps)
qed

definition width1 :: cbb where "width1 = snd (CBB_add_u16 0 513 demo0)"
definition width2 :: cbb where "width2 = snd (CBB_add_u24 0 66051 width1)"
definition width3 :: cbb where "width3 = snd (CBB_add_u32le 0 7 width2)"
definition width4 :: cbb where "width4 = snd (CBB_add_u64 0 8 width3)"

lemma demo_step:
  assumes "cbb_wrote 0 xs demo0 s" and "length xs + n \<le> 1000" and "unat v < 256 ^ n"
  shows "\<exists>s'. cbb_then 0 (cbb_buffer_add_u v n) s = (True, s')"
proof (rule cbb_then_add_u_roomy)
  show "cbb_at 0 s"
    using assms(1) by (simp add: cbb_wrote_def)
  show "cbb_roomy n s"
    using assms(1,2) by (simp add: cbb_wrote_def cbb_roomy_def cbb_env_def demo_values cbb_buf_def SIZE_MAX_def)
qed (rule assms(3))

lemma demo_widths:
  "CBB_add_u16 0 513 demo0 = (True, width1)" "CBB_add_u24 0 66051 width1 = (True, width2)"
  "CBB_add_u32le 0 7 width2 = (True, width3)" "CBB_add_u64 0 8 width3 = (True, width4)"
proof -
  show s1: "CBB_add_u16 0 513 demo0 = (True, width1)"
    using demo_step [OF cbb_wrote_refl [OF demo_at(1)], of 2 "ucast (513 :: u16)"]
    by (auto simp: width1_def CBB_add_u16_def)
  then have w1: "cbb_wrote 0 (be_bytes 2 (unat (513 :: u16))) demo0 width1"
    using cbb_u16.add_wrote demo_at(1) by blast
  show s2: "CBB_add_u24 0 66051 width1 = (True, width2)"
    using demo_step [OF w1, of 3 "ucast (66051 :: u32)"] by (auto simp: width2_def CBB_add_u24_def)
  then have "cbb_wrote 0 (be_bytes 3 (unat (66051 :: u32))) width1 width2"
    using cbb_u24.add_wrote w1 by (simp add: cbb_wrote_def)
  with w1 have w2: "cbb_wrote 0 (be_bytes 2 (unat (513 :: u16)) @ be_bytes 3 (unat (66051 :: u32))) demo0 width2"
    by (rule cbb_wrote_trans)
  show s3: "CBB_add_u32le 0 7 width2 = (True, width3)"
    using demo_step [OF w2, of 4 "ucast (CRYPTO_bswap4 7)"] unat_u32_less [of "CRYPTO_bswap4 7"]
    by (auto simp: width3_def CBB_add_u32le_def CBB_add_u32_def)
  then have "cbb_wrote 0 (le_enc 4 (7 :: u32)) width2 width3"
    using cbb_u32le.add_wrote w2 by (simp add: cbb_wrote_def)
  with w2 have w3: "cbb_wrote 0 ((be_bytes 2 (unat (513 :: u16)) @ be_bytes 3 (unat (66051 :: u32))) @ le_enc 4 (7 :: u32))
      demo0 width3"
    by (rule cbb_wrote_trans)
  show "CBB_add_u64 0 8 width3 = (True, width4)"
    using demo_step [OF w3, of 8 8] by (auto simp: width4_def CBB_add_u64_def le_enc_def)
qed

lemma widths_build_read_witness:
  "unat (66051 :: u32) < 2 ^ 24 \<and>
    (\<exists>r1 r2 r3. CBS_get_u16 (drop (length (cbb_buf demo0)) (cbb_buf width4)) = (Some 513, r1) \<and>
    CBS_get_u24 r1 = (Some 66051, r2) \<and> CBS_get_u32le r2 = (Some 7, r3) \<and> CBS_get_u64 r3 = (Some 8, []))"
  by (rule widths_build_read [OF demo_at(1) demo_widths])

end
