(* ===== verification/Ber.thy ===== *)
theory Ber
  imports Cbb_Der
begin

unbundle bit_operations_syntax

text \<open>
  \<open>crypto/bytestring/ber.c\<close>: finding and converting BER.  \<open>cbs_find_ber\<close> and \<open>cbs_convert_ber\<close>
  are the two recursive walks; the converter runs on fuel, one unit for each element or nesting
  level, and \<open>cbs_convert_ber_total\<close> shows that one more unit than there are bytes is enough.
  The specification is a grammar of BER values (\<open>ber\<close>) with the DER value each one denotes (\<open>ber_value\<close>), and a
  description of what the converter writes for it (\<open>ber_converted\<close>); the two differ on BIT STRINGs in fragments.
\<close>

section \<open>Operations\<close>

definition kMaxDepth :: nat where
  "kMaxDepth = 2048"

definition CBS_ASN1_BITSTRING :: u32 where "CBS_ASN1_BITSTRING = 0x3"
definition CBS_ASN1_UTF8STRING :: u32 where "CBS_ASN1_UTF8STRING = 0xc"
definition CBS_ASN1_NUMERICSTRING :: u32 where "CBS_ASN1_NUMERICSTRING = 0x12"
definition CBS_ASN1_PRINTABLESTRING :: u32 where "CBS_ASN1_PRINTABLESTRING = 0x13"
definition CBS_ASN1_T61STRING :: u32 where "CBS_ASN1_T61STRING = 0x14"
definition CBS_ASN1_VIDEOTEXSTRING :: u32 where "CBS_ASN1_VIDEOTEXSTRING = 0x15"
definition CBS_ASN1_IA5STRING :: u32 where "CBS_ASN1_IA5STRING = 0x16"
definition CBS_ASN1_GRAPHICSTRING :: u32 where "CBS_ASN1_GRAPHICSTRING = 0x19"
definition CBS_ASN1_VISIBLESTRING :: u32 where "CBS_ASN1_VISIBLESTRING = 0x1a"
definition CBS_ASN1_GENERALSTRING :: u32 where "CBS_ASN1_GENERALSTRING = 0x1b"
definition CBS_ASN1_UNIVERSALSTRING :: u32 where "CBS_ASN1_UNIVERSALSTRING = 0x1c"
definition CBS_ASN1_BMPSTRING :: u32 where "CBS_ASN1_BMPSTRING = 0x1e"

lemmas string_tags = CBS_ASN1_BITSTRING_def CBS_ASN1_OCTETSTRING_def CBS_ASN1_UTF8STRING_def
  CBS_ASN1_NUMERICSTRING_def CBS_ASN1_PRINTABLESTRING_def CBS_ASN1_T61STRING_def
  CBS_ASN1_VIDEOTEXSTRING_def CBS_ASN1_IA5STRING_def CBS_ASN1_GRAPHICSTRING_def
  CBS_ASN1_VISIBLESTRING_def CBS_ASN1_GENERALSTRING_def CBS_ASN1_UNIVERSALSTRING_def
  CBS_ASN1_BMPSTRING_def

definition is_string_type :: "u32 \<Rightarrow> bool" where
  "is_string_type tag \<longleftrightarrow> tag AND NOT CBS_ASN1_CONSTRUCTED \<in>
     {CBS_ASN1_BITSTRING, CBS_ASN1_OCTETSTRING, CBS_ASN1_UTF8STRING, CBS_ASN1_NUMERICSTRING,
      CBS_ASN1_PRINTABLESTRING, CBS_ASN1_T61STRING, CBS_ASN1_VIDEOTEXSTRING, CBS_ASN1_IA5STRING,
      CBS_ASN1_GRAPHICSTRING, CBS_ASN1_VISIBLESTRING, CBS_ASN1_GENERALSTRING,
      CBS_ASN1_UNIVERSALSTRING, CBS_ASN1_BMPSTRING}"

lemma is_string_type_code [code]:
  "is_string_type tag \<longleftrightarrow> List.member [3, 4, 12, 18, 19, 20, 21, 22, 25, 26, 27, 28, 30]
     (unat (tag AND NOT CBS_ASN1_CONSTRUCTED))"
  by (simp add: is_string_type_def string_tags word_unat_eq_iff)

text \<open>The test for an indefinite-length element, used by both walks.\<close>

definition is_indefinite :: "nat \<Rightarrow> bytes \<Rightarrow> bool" where
  "is_indefinite header_len contents \<longleftrightarrow>
     CBS_len contents = header_len \<and> header_len > 0 \<and> CBS_data contents ! (header_len - 1) = 0x80"

lemma ber_element_length:
  assumes "CBS_get_any_ber_asn1_element s = (Some (out, t, hl), r)"
  shows "length out + length r = length s" "hl \<le> length out" "2 \<le> hl"
  using element_sound [OF assms [unfolded CBS_get_any_ber_asn1_element_def]] tag.enc_nonempty [of t]
  by (auto simp: der_element_def der_header_def ber_indefinite_def Suc_le_eq length_der_len
      numeral_2_eq_2 simp flip: length_greater_0_conv)

lemma ber_element_shorter:
  "CBS_get_any_ber_asn1_element s = (Some (out, t, hl), r) \<Longrightarrow>
    length r < length s \<and> length out - hl < length s"
  using ber_element_length [of s out t hl r] by linarith

text \<open>The loop of \<open>cbs_find_ber\<close>; \<open>ber_found\<close> is the out-parameter as the loop has left it.  The
  recursive call starts with \<open>*ber_found = 0\<close>.\<close>

function cbs_find_ber_loop :: "nat \<Rightarrow> bool \<Rightarrow> bytes \<Rightarrow> bool option" where
  "cbs_find_ber_loop depth ber_found in_cbs =
     (if CBS_len in_cbs = 0 then Some ber_found
      else case CBS_get_any_ber_asn1_element in_cbs of
        (None, _) \<Rightarrow> None
      | (Some (contents, tag, header_len), rest) \<Rightarrow>
          if is_indefinite header_len contents then Some True
          else if tag AND CBS_ASN1_CONSTRUCTED \<noteq> 0 then
            if is_string_type tag then Some True
            else (case CBS_skip header_len contents of
                    (None, _) \<Rightarrow> None
                  | (Some _, body) \<Rightarrow>
                      if depth + 1 > kMaxDepth then None
                      else (case cbs_find_ber_loop (depth + 1) False body of
                              None \<Rightarrow> None
                            | Some found \<Rightarrow> cbs_find_ber_loop depth found rest))
          else cbs_find_ber_loop depth ber_found rest)"
  by pat_completeness auto
termination
  by (relation "measure (\<lambda>(_, _, s). length s)")
    (auto simp: CBS_skip_eq split: if_splits dest!: ber_element_shorter [OF sym])

declare cbs_find_ber_loop.simps [simp del]

definition cbs_find_ber :: "bytes \<Rightarrow> nat \<Rightarrow> bool option" where
  "cbs_find_ber orig_in depth =
     (if depth > kMaxDepth then None else cbs_find_ber_loop depth False orig_in)"

definition is_eoc :: "nat \<Rightarrow> bytes \<Rightarrow> bool" where
  "is_eoc header_len contents \<longleftrightarrow> header_len = 2 \<and> CBS_len contents = 2 \<and> contents = [0, 0]"

text \<open>Where the body of an element goes: the position of \<open>out_contents\<close>, and \<open>child_string_tag\<close>.\<close>

definition ber_open :: "nat \<Rightarrow> u32 \<Rightarrow> u32 \<Rightarrow> cbb \<Rightarrow> bool \<times> cbb \<times> nat \<times> u32" where
  "ber_open d string_tag tag s =
     (if string_tag \<noteq> 0 then
        if tag AND NOT CBS_ASN1_CONSTRUCTED \<noteq> string_tag then (False, s, d, string_tag)
        else (True, s, d, string_tag)
      else
        let constructed_string = (tag AND CBS_ASN1_CONSTRUCTED \<noteq> 0 \<and> is_string_type tag);
            out_tag = (if constructed_string then tag AND NOT CBS_ASN1_CONSTRUCTED else tag);
            child_string_tag = (if constructed_string then out_tag else string_tag);
            (ok, s1) = CBB_add_asn1 d out_tag s
        in (ok, s1, Suc d, child_string_tag))"

text \<open>The result is the return value, \<open>*in\<close> and the builder; \<open>None\<close> is running out of fuel.\<close>

fun cbs_convert_ber ::
  "nat \<Rightarrow> bytes \<Rightarrow> nat \<Rightarrow> u32 \<Rightarrow> bool \<Rightarrow> nat \<Rightarrow> cbb \<Rightarrow> (bool \<times> bytes \<times> cbb) option" where
  "cbs_convert_ber 0 in_cbs d string_tag looking_for_eoc depth s = None"
| "cbs_convert_ber (Suc fuel) in_cbs d string_tag looking_for_eoc depth s =
     (if depth > kMaxDepth then Some (False, in_cbs, s)
      else if CBS_len in_cbs = 0 then Some (\<not> looking_for_eoc, in_cbs, s)
      else case CBS_get_any_ber_asn1_element in_cbs of
        (None, rest) \<Rightarrow> Some (False, rest, s)
      | (Some (contents, tag, header_len), rest) \<Rightarrow>
          if is_eoc header_len contents then Some (looking_for_eoc, rest, s)
          else case ber_open d string_tag tag s of
            (False, s1, _) \<Rightarrow> Some (False, rest, s1)
          | (True, s1, dc, child_string_tag) \<Rightarrow>
              if is_indefinite header_len contents then
                (case cbs_convert_ber fuel rest dc child_string_tag True (depth + 1) s1 of
                   None \<Rightarrow> None
                 | Some (False, rest', s2) \<Rightarrow> Some (False, rest', s2)
                 | Some (True, rest', s2) \<Rightarrow> (case CBB_flush d s2 of
                     (False, s3) \<Rightarrow> Some (False, rest', s3)
                   | (True, s3) \<Rightarrow>
                       cbs_convert_ber fuel rest' d string_tag looking_for_eoc depth s3))
              else (case CBS_skip header_len contents of
                (None, _) \<Rightarrow> Some (False, rest, s1)
              | (Some _, body) \<Rightarrow>
                  (case (if tag AND CBS_ASN1_CONSTRUCTED \<noteq> 0
                         then map_option (\<lambda>(ok, _, s2). (ok, s2))
                                (cbs_convert_ber fuel body dc child_string_tag False (depth + 1) s1)
                         else Some (CBB_add_bytes dc body s1)) of
                     None \<Rightarrow> None
                   | Some (False, s2) \<Rightarrow> Some (False, rest, s2)
                   | Some (True, s2) \<Rightarrow> (case CBB_flush d s2 of
                       (False, s3) \<Rightarrow> Some (False, rest, s3)
                     | (True, s3) \<Rightarrow>
                         cbs_convert_ber fuel rest d string_tag looking_for_eoc depth s3))))"

declare cbs_convert_ber.simps(2) [simp del]

text \<open>\<open>CBS_asn1_ber_to_der\<close> yields \<open>*out\<close> and \<open>*out_storage\<close> (\<open>None\<close> for \<open>NULL\<close>).\<close>

definition CBS_asn1_ber_to_der :: "allocator \<Rightarrow> (bytes \<times> bytes option) reader" where
  "CBS_asn1_ber_to_der al in_cbs = (case cbs_find_ber in_cbs 0 of
     None \<Rightarrow> (None, in_cbs)
   | Some conversion_needed \<Rightarrow>
       if \<not> conversion_needed
       then (case CBS_get_any_asn1_element in_cbs of
               (None, rest) \<Rightarrow> (None, rest)
             | (Some (out, _, _), rest) \<Rightarrow> (Some (out, None), rest))
       else (case CBB_init al (CBS_len in_cbs) of
         (False, _) \<Rightarrow> (None, in_cbs)
       | (True, s) \<Rightarrow> (case cbs_convert_ber (Suc (length in_cbs)) in_cbs 0 0 False 0 s of
           None \<Rightarrow> (None, in_cbs)
         | Some (False, rest, _) \<Rightarrow> (None, rest)
         | Some (True, rest, s') \<Rightarrow> (case fst (CBB_finish 0 True s') of
             None \<Rightarrow> (None, rest)
           | Some der \<Rightarrow> (Some (CBS_init der (length der), Some der), rest)))))"

text \<open>The chunks of a constructed implicit string; the loop returns whether all went well.\<close>

function implicit_string_loop :: "u32 \<Rightarrow> bytes \<Rightarrow> cbb \<Rightarrow> bool \<times> cbb" where
  "implicit_string_loop inner_tag child s =
     (if CBS_len child > 0
      then (case CBS_get_asn1 inner_tag child of
              (None, _) \<Rightarrow> (False, s)
            | (Some chunk, child') \<Rightarrow> (case CBB_add_bytes 0 (CBS_data chunk) s of
                (False, s') \<Rightarrow> (False, s')
              | (True, s') \<Rightarrow> implicit_string_loop inner_tag child' s'))
      else (True, s))"
  by pat_completeness auto
termination
  by (relation "measure (\<lambda>(_, s, _). length s)") (auto dest: asn1.dec_shorter [OF sym])

declare implicit_string_loop.simps [simp del]

definition CBS_get_asn1_implicit_string :: "allocator \<Rightarrow> u32 \<Rightarrow> u32 \<Rightarrow> (bytes \<times> bytes option) reader" where
  "CBS_get_asn1_implicit_string al outer_tag inner_tag in_cbs =
     (if CBS_peek_asn1_tag in_cbs outer_tag
      then (case CBS_get_asn1 outer_tag in_cbs of
              (None, rest) \<Rightarrow> (None, rest)
            | (Some out, rest) \<Rightarrow> (Some (out, None), rest))
      else (case CBB_init al (CBS_len in_cbs) of
        (False, _) \<Rightarrow> (None, in_cbs)
      | (True, s) \<Rightarrow> (case CBS_get_asn1 (outer_tag OR CBS_ASN1_CONSTRUCTED) in_cbs of
          (None, rest) \<Rightarrow> (None, rest)
        | (Some child, rest) \<Rightarrow> (case implicit_string_loop inner_tag child s of
            (False, _) \<Rightarrow> (None, rest)
          | (True, s') \<Rightarrow> (case fst (CBB_finish 0 True s') of
              None \<Rightarrow> (None, rest)
            | Some data \<Rightarrow> (Some (CBS_init data (length data), Some data), rest))))))"

section \<open>Fuel\<close>

text \<open>The walk never reads past its input, and one unit of fuel per byte is enough.\<close>

lemma cbs_convert_ber_total:
  "length s < fuel \<Longrightarrow> \<exists>ok r b. cbs_convert_ber fuel s d st eoc depth cb = Some (ok, r, b) \<and> length r \<le> length s"
proof (induction fuel arbitrary: s d st eoc depth cb)
  case 0
  then show ?case by simp
next
  case (Suc fuel)
  obtain res rest where el: "CBS_get_any_ber_asn1_element s = (res, rest)"
    by (cases "CBS_get_any_ber_asn1_element s")
  show ?case
  proof (cases res)
    case None
    have "length rest \<le> length s"
      using el None
      by (auto simp: CBS_get_any_ber_asn1_element_def cbs_get_any_asn1_element_def Let_def CBS_get_bytes_eq
          cbs_get_def split: prod.splits option.splits if_splits)
    with el None show ?thesis
      by (auto simp: cbs_convert_ber.simps(2))
  next
    case (Some x)
    obtain contents tag hl where x: "x = (contents, tag, hl)"
      by (cases x)
    note len = ber_element_length [OF el [unfolded Some x]]
    have rest: "length rest < fuel" and body: "length (drop hl contents) < fuel"
      using len Suc.prems by auto
    obtain ok1 s1 dc cst where op: "ber_open d st tag cb = (ok1, s1, dc, cst)"
      by (cases "ber_open d st tag cb")
    obtain okc rc bc where child: "cbs_convert_ber fuel rest dc cst True (Suc depth) s1 = Some (okc, rc, bc)"
      "length rc \<le> length rest"
      using Suc.IH [OF rest] by blast
    obtain okb rb bb where inner: "cbs_convert_ber fuel (drop hl contents) dc cst False (Suc depth) s1 = Some (okb, rb, bb)"
      using Suc.IH [OF body] by blast
    define P where "P x \<longleftrightarrow> (\<exists>ok r b. x = Some (ok, r, b) \<and> length r \<le> length s)"
      for x :: "(bool \<times> bytes \<times> cbb) option"
    have stop: "P (Some (ok, r, b))" if "length r \<le> length s" for ok r b
      using that by (simp add: P_def)
    have after: "P (cbs_convert_ber fuel t d st eoc depth c)" if "length t \<le> length rest" for t c
      using Suc.IH [of t d st eoc depth c] that rest len(1) by (fastforce simp: P_def)
    have "P (cbs_convert_ber (Suc fuel) s d st eoc depth cb)"
      unfolding cbs_convert_ber.simps(2)
      using len(1,2) child(2) le_trans [OF child(2), of "length s"]
      by (simp add: el Some x op child inner CBS_skip_eq stop after split: prod.split bool.split)
    then show ?thesis
      by (simp add: P_def)
  qed
qed

section \<open>BER values\<close>

text \<open>BER elements as written, DER values and their encoding.\<close>

datatype ber = BPrim u32 bytes | BDef u32 "ber list" | BIndef u32 "ber list"
datatype asn1 = Prim u32 bytes | Node u32 "asn1 list"

fun der_tree :: "asn1 \<Rightarrow> bytes" where
  "der_tree (Prim t c) = der_element t c"
| "der_tree (Node t xs) = der_element t (concat (map der_tree xs))"

fun ber_enc :: "ber \<Rightarrow> bytes" where
  "ber_enc (BPrim t c) = der_element t c"
| "ber_enc (BDef t bs) = der_element t (concat (map ber_enc bs))"
| "ber_enc (BIndef t bs) = ber_indefinite t @ concat (map ber_enc bs) @ [0, 0]"

fun ber_tag :: "ber \<Rightarrow> u32" where
  "ber_tag (BPrim t c) = t"
| "ber_tag (BDef t bs) = t"
| "ber_tag (BIndef t bs) = t"

text \<open>
  The DER value of a BER element (X.690, 8.7.3, 8.21 and 8.6.4).  The value of a constructed string is made of its
  primitive fragments, in order: of octet and character strings the octets; of a BIT STRING the bits, so that the
  octet with the number of unused bits, with which every fragment starts, is left out and that of the last
  fragment, the only one that may have unused bits, is put in front.
\<close>

fun ber_fragments :: "ber \<Rightarrow> bytes list" where
  "ber_fragments (BPrim t c) = [c]"
| "ber_fragments (BDef t bs) = concat (map ber_fragments bs)"
| "ber_fragments (BIndef t bs) = concat (map ber_fragments bs)"

definition bit_string_of :: "bytes list \<Rightarrow> bytes" where
  "bit_string_of fs = (if fs = [] then [0] else hd (last fs) # concat (map tl fs))"

definition string_of_fragments :: "u32 \<Rightarrow> bytes list \<Rightarrow> asn1" where
  "string_of_fragments t fs = Prim t (if t = CBS_ASN1_BITSTRING then bit_string_of fs else concat fs)"

fun ber_value :: "ber \<Rightarrow> asn1" where
  "ber_value (BPrim t c) = Prim t c"
| "ber_value (BDef t bs) =
     (if is_string_type t then string_of_fragments (t AND NOT CBS_ASN1_CONSTRUCTED) (concat (map ber_fragments bs))
      else Node t (map ber_value bs))"
| "ber_value (BIndef t bs) =
     (if is_string_type t then string_of_fragments (t AND NOT CBS_ASN1_CONSTRUCTED) (concat (map ber_fragments bs))
      else Node t (map ber_value bs))"

text \<open>A constructed BIT STRING, other than one with a single fragment, is inside.\<close>

fun bit_string_cut :: "ber \<Rightarrow> bool" where
  "bit_string_cut (BPrim t c) \<longleftrightarrow> False"
| "bit_string_cut (BDef t bs) \<longleftrightarrow>
     (if is_string_type t
      then t AND NOT CBS_ASN1_CONSTRUCTED = CBS_ASN1_BITSTRING \<and> \<not> (\<exists>u c. concat (map ber_fragments bs) = [u # c])
      else \<exists>b \<in> set bs. bit_string_cut b)"
| "bit_string_cut (BIndef t bs) \<longleftrightarrow>
     (if is_string_type t
      then t AND NOT CBS_ASN1_CONSTRUCTED = CBS_ASN1_BITSTRING \<and> \<not> (\<exists>u c. concat (map ber_fragments bs) = [u # c])
      else \<exists>b \<in> set bs. bit_string_cut b)"

text \<open>What the converter writes: the contents of the fragments of any string one after the other.\<close>

fun ber_body :: "ber \<Rightarrow> bytes" where
  "ber_body (BPrim t c) = c"
| "ber_body (BDef t bs) = concat (map ber_body bs)"
| "ber_body (BIndef t bs) = concat (map ber_body bs)"

fun ber_converted :: "ber \<Rightarrow> asn1" where
  "ber_converted (BPrim t c) = Prim t c"
| "ber_converted (BDef t bs) =
     (if is_string_type t then Prim (t AND NOT CBS_ASN1_CONSTRUCTED) (concat (map ber_body bs))
      else Node t (map ber_converted bs))"
| "ber_converted (BIndef t bs) =
     (if is_string_type t then Prim (t AND NOT CBS_ASN1_CONSTRUCTED) (concat (map ber_body bs))
      else Node t (map ber_converted bs))"

lemma concat_map_concat: "concat (map (\<lambda>b. concat (f b)) bs) = concat (concat (map f bs))"
  by (induction bs) simp_all

lemma ber_body_fragments: "ber_body b = concat (ber_fragments b)"
proof (induction b)
  case (BDef t bs)
  then have "map ber_body bs = map (\<lambda>b. concat (ber_fragments b)) bs" by simp
  then show ?case by (simp only: ber_body.simps ber_fragments.simps concat_map_concat)
next
  case (BIndef t bs)
  then have "map ber_body bs = map (\<lambda>b. concat (ber_fragments b)) bs" by simp
  then show ?case by (simp only: ber_body.simps ber_fragments.simps concat_map_concat)
qed simp

lemma string_bodies:
  "t = CBS_ASN1_BITSTRING \<longrightarrow> (\<exists>u c. concat (map ber_fragments bs) = [u # c]) \<Longrightarrow>
    Prim t (concat (map ber_body bs)) = string_of_fragments t (concat (map ber_fragments bs))"
proof -
  assume a: "t = CBS_ASN1_BITSTRING \<longrightarrow> (\<exists>u c. concat (map ber_fragments bs) = [u # c])"
  have "concat (map ber_body bs) = concat (concat (map ber_fragments bs))"
    by (simp add: ber_body_fragments [abs_def] concat_map_concat)
  moreover have "bit_string_of fs = concat fs" if "\<exists>u c. fs = [u # c]" for fs
    using that by (auto simp: bit_string_of_def)
  ultimately show ?thesis using a by (cases "t = CBS_ASN1_BITSTRING") (simp_all only: string_of_fragments_def simp_thms if_True if_False)
qed

text \<open>Apart from BIT STRINGs in fragments the converter writes the DER value.\<close>

lemma ber_converted_value: "\<not> bit_string_cut b \<Longrightarrow> ber_converted b = ber_value b"
proof (induction b)
  case (BDef t bs)
  then show ?case by (auto simp: string_bodies split: if_splits)
next
  case (BIndef t bs)
  then show ?case by (auto simp: string_bodies split: if_splits)
qed simp

text \<open>Well-formed BER: tags agree with the form, no end-of-contents among the elements.\<close>

fun ber_ok :: "ber \<Rightarrow> bool" where
  "ber_ok (BPrim t c) \<longleftrightarrow> t AND CBS_ASN1_CONSTRUCTED = 0 \<and> length c < 4294967296 \<and> der_element t c \<noteq> [0, 0]"
| "ber_ok (BDef t bs) \<longleftrightarrow> t AND CBS_ASN1_CONSTRUCTED \<noteq> 0 \<and>
     length (concat (map ber_enc bs)) < 4294967296 \<and> (\<forall>b \<in> set bs. ber_ok b)"
| "ber_ok (BIndef t bs) \<longleftrightarrow> t AND CBS_ASN1_CONSTRUCTED \<noteq> 0 \<and> (\<forall>b \<in> set bs. ber_ok b)"

text \<open>Fragments of a string with the given primitive tag, and values whose constructed strings
  have such fragments.\<close>

fun ber_string :: "u32 \<Rightarrow> ber \<Rightarrow> bool" where
  "ber_string st (BPrim t c) \<longleftrightarrow> t AND NOT CBS_ASN1_CONSTRUCTED = st"
| "ber_string st (BDef t bs) \<longleftrightarrow> t AND NOT CBS_ASN1_CONSTRUCTED = st \<and> (\<forall>b \<in> set bs. ber_string st b)"
| "ber_string st (BIndef t bs) \<longleftrightarrow> t AND NOT CBS_ASN1_CONSTRUCTED = st \<and> (\<forall>b \<in> set bs. ber_string st b)"

fun ber_strings_ok :: "ber \<Rightarrow> bool" where
  "ber_strings_ok (BPrim t c) \<longleftrightarrow> True"
| "ber_strings_ok (BDef t bs) \<longleftrightarrow>
     (if is_string_type t then \<forall>b \<in> set bs. ber_string (t AND NOT CBS_ASN1_CONSTRUCTED) b
      else \<forall>b \<in> set bs. ber_strings_ok b)"
| "ber_strings_ok (BIndef t bs) \<longleftrightarrow>
     (if is_string_type t then \<forall>b \<in> set bs. ber_string (t AND NOT CBS_ASN1_CONSTRUCTED) b
      else \<forall>b \<in> set bs. ber_strings_ok b)"

text \<open>A DER value: no constructed strings, at most \<open>n\<close> levels of nesting.\<close>

fun der_ok :: "nat \<Rightarrow> asn1 \<Rightarrow> bool" where
  "der_ok n (Prim t c) \<longleftrightarrow> t AND CBS_ASN1_CONSTRUCTED = 0 \<and> length c < 4294967296"
| "der_ok 0 (Node t xs) \<longleftrightarrow> False"
| "der_ok (Suc n) (Node t xs) \<longleftrightarrow> t AND CBS_ASN1_CONSTRUCTED \<noteq> 0 \<and> \<not> is_string_type t \<and>
     length (concat (map der_tree xs)) < 4294967296 \<and> (\<forall>x \<in> set xs. der_ok n x)"

section \<open>The reader and the two tests\<close>

lemma not_indefinite_der: "\<not> is_indefinite (length (der_header t (length c))) (der_element t c)"
proof
  assume i: "is_indefinite (length (der_header t (length c))) (der_element t c)"
  then have "c = []"
    by (simp add: is_indefinite_def der_element_def)
  with i show False
    by (simp add: is_indefinite_def der_element_def der_header_def der_len_def nth_append)
qed

lemma ber_element_cases:
  assumes "CBS_get_any_ber_asn1_element s = (Some (contents, t, hl), r)"
  obtains (definite) c where "s = der_element t c @ r" "contents = der_element t c" "drop hl contents = c"
      "length c < 4294967296" "\<not> is_indefinite hl contents" "hl \<le> length contents"
  | (indefinite) "s = ber_indefinite t @ r" "contents = ber_indefinite t" "is_indefinite hl contents"
      "t AND CBS_ASN1_CONSTRUCTED \<noteq> 0"
proof -
  note e = element_sound [OF assms [unfolded CBS_get_any_ber_asn1_element_def]]
  show ?thesis
  proof (cases "\<exists>c. length c < 4294967296 \<and> contents = der_element t c \<and> hl = length (der_header t (length c))")
    case True
    then obtain c where c: "length c < 4294967296" "contents = der_element t c" "hl = length (der_header t (length c))"
      by blast
    have "\<not> is_indefinite hl contents"
      unfolding c(2,3) by (rule not_indefinite_der)
    with c e show ?thesis
      by (intro definite [of c]) (auto simp: der_element_def)
  next
    case False
    with e have i: "t AND CBS_ASN1_CONSTRUCTED \<noteq> 0" "contents = ber_indefinite t" "hl = length contents" "s = contents @ r"
      by auto
    moreover have "is_indefinite hl contents"
      by (simp add: is_indefinite_def i(2,3) ber_indefinite_def nth_append)
    ultimately show ?thesis
      by (intro indefinite) auto
  qed
qed

lemma ber_element_der:
  "length c < 4294967296 \<Longrightarrow> CBS_get_any_ber_asn1_element (der_element t c @ r) =
    (Some (der_element t c, t, length (der_header t (length c))), r)"
  by (simp add: CBS_get_any_ber_asn1_element_def element_complete)

lemma is_eoc_iff:
  assumes "CBS_get_any_ber_asn1_element s = (Some (contents, t, hl), r)"
  shows "is_eoc hl contents \<longleftrightarrow> contents = [0, 0]"
proof -
  have "hl = 2" if "contents = [0, 0]"
    using ber_element_length [OF assms] that by simp
  then show ?thesis
    by (auto simp: is_eoc_def)
qed

section \<open>DER needs no conversion\<close>

lemma cbs_find_ber_der:
  "\<forall>x \<in> set xs. der_ok n x \<Longrightarrow> depth + n \<le> kMaxDepth \<Longrightarrow>
    cbs_find_ber_loop depth False (concat (map der_tree xs)) = Some False"
proof (induction "length (concat (map der_tree xs))" arbitrary: xs n depth rule: less_induct)
  case less
  show ?case
  proof (cases xs)
    case Nil
    then show ?thesis by (simp add: cbs_find_ber_loop.simps)
  next
    case (Cons x ys)
    let ?rest = "concat (map der_tree ys)"
    have ys: "cbs_find_ber_loop depth False ?rest = Some False"
      if "length ?rest < length (concat (map der_tree xs))"
      using less.prems that by (intro less.hyps [of ys n]) (auto simp: Cons)
    have nonempty: "der_element t c \<noteq> []" for t c
      by (simp add: der_element_def der_header_def)
    show ?thesis
    proof (cases x)
      case (Prim t c)
      then have x: "der_tree x = der_element t c" "length c < 4294967296" "t AND CBS_ASN1_CONSTRUCTED = 0"
        using less.prems(1) Cons by auto
      show ?thesis
        using ys x nonempty [of t c]
        by (simp add: Cons cbs_find_ber_loop.simps [of depth False "der_element t c @ _"]
            ber_element_der not_indefinite_der)
    next
      case (Node t zs)
      then obtain m where m: "n = Suc m"
        using less.prems(1) Cons by (cases n) auto
      let ?c = "concat (map der_tree zs)"
      have x: "der_tree x = der_element t ?c" "length ?c < 4294967296" "t AND CBS_ASN1_CONSTRUCTED \<noteq> 0"
        "\<not> is_string_type t" "\<forall>z \<in> set zs. der_ok m z"
        using less.prems(1) Cons Node m by auto
      have "length ?c < length (concat (map der_tree xs))"
        using tag.enc_nonempty [of t] by (simp add: Cons x(1) der_element_def der_header_def)
      then have zs: "cbs_find_ber_loop (Suc depth) False ?c = Some False"
        using x(5) less.prems(2) m by (intro less.hyps [of zs m]) auto
      have "CBS_skip (length (der_header t (length ?c))) (der_element t ?c) = (Some (), ?c)"
        by (simp add: der_element_def)
      then show ?thesis
        using ys x nonempty [of t ?c] zs less.prems(2) m
        by (simp add: Cons cbs_find_ber_loop.simps [of depth False "der_element t ?c @ _"]
            ber_element_der not_indefinite_der)
    qed
  qed
qed

section \<open>Soundness of the conversion\<close>

text \<open>One round of the converter that succeeds.\<close>

lemma cbs_convert_ber_step:
  assumes "cbs_convert_ber (Suc fuel) s d st eoc depth cb = Some (True, r, cb')" and "s \<noteq> []"
  obtains (eoc) contents tag hl where "CBS_get_any_ber_asn1_element s = (Some (contents, tag, hl), r)"
      "is_eoc hl contents" "eoc" "cb' = cb"
  | (element) contents tag hl rest s1 dc cst rest' s2 s3
      where "CBS_get_any_ber_asn1_element s = (Some (contents, tag, hl), rest)" "\<not> is_eoc hl contents"
        "ber_open d st tag cb = (True, s1, dc, cst)"
        "if is_indefinite hl contents
         then cbs_convert_ber fuel rest dc cst True (Suc depth) s1 = Some (True, rest', s2)
         else rest' = rest \<and> hl \<le> length contents \<and>
           (if tag AND CBS_ASN1_CONSTRUCTED \<noteq> 0
            then \<exists>x. cbs_convert_ber fuel (drop hl contents) dc cst False (Suc depth) s1 = Some (True, x, s2)
            else CBB_add_bytes dc (drop hl contents) s1 = (True, s2))"
        "CBB_flush d s2 = (True, s3)"
        "cbs_convert_ber fuel rest' d st eoc depth s3 = Some (True, r, cb')"
proof -
  obtain contents tag hl rest where el: "CBS_get_any_ber_asn1_element s = (Some (contents, tag, hl), rest)"
    using assms by (auto simp: cbs_convert_ber.simps(2) split: if_splits prod.splits option.splits)
  show ?thesis
  proof (cases "is_eoc hl contents")
    case True
    then show ?thesis
      using assms el by (intro eoc [of contents tag hl]) (auto simp: cbs_convert_ber.simps(2) split: if_splits)
  next
    case False
    obtain ok s1 dc cst where op: "ber_open d st tag cb = (ok, s1, dc, cst)"
      by (cases "ber_open d st tag cb")
    have ok: "ok"
      using assms False el op by (cases ok) (auto simp: cbs_convert_ber.simps(2) split: if_splits)
    show ?thesis
    proof (cases "is_indefinite hl contents")
      case True
      then obtain rest' s2 s3 where "cbs_convert_ber fuel rest dc cst True (Suc depth) s1 = Some (True, rest', s2)"
        "CBB_flush d s2 = (True, s3)" "cbs_convert_ber fuel rest' d st eoc depth s3 = Some (True, r, cb')"
        using assms False el op ok
        by (auto simp: cbs_convert_ber.simps(2) split: if_splits prod.splits option.splits bool.splits)
      with True show ?thesis
        using el False op ok by (intro element [of contents tag hl rest s1 dc cst rest' s2 s3]) auto
    next
      case def: False
      obtain s2 s3 where b: "hl \<le> length contents" "if tag AND CBS_ASN1_CONSTRUCTED \<noteq> 0
            then \<exists>x. cbs_convert_ber fuel (drop hl contents) dc cst False (Suc depth) s1 = Some (True, x, s2)
            else CBB_add_bytes dc (drop hl contents) s1 = (True, s2)"
        "CBB_flush d s2 = (True, s3)" "cbs_convert_ber fuel rest d st eoc depth s3 = Some (True, r, cb')"
        using assms False def el op ok
        by (auto simp: cbs_convert_ber.simps(2) CBS_skip_eq split: if_splits prod.splits option.splits bool.splits)
      with def show ?thesis
        using el False op ok by (intro element [of contents tag hl rest s1 dc cst rest s2 s3]) auto
    qed
  qed
qed

lemma cbs_convert_ber_depth: "cbs_convert_ber fuel s d st eoc depth cb = Some (True, r, cb') \<Longrightarrow> depth \<le> kMaxDepth"
  by (cases fuel) (auto simp: cbs_convert_ber.simps(2) split: if_splits)

text \<open>What a successful run in either mode has written for the elements \<open>bs\<close>.\<close>

definition ber_result :: "nat \<Rightarrow> u32 \<Rightarrow> ber list \<Rightarrow> nat \<Rightarrow> cbb \<Rightarrow> cbb \<Rightarrow> bool" where
  "ber_result n st bs d s s' \<longleftrightarrow> (\<forall>b \<in> set bs. ber_ok b) \<and>
     (if st = 0
      then (\<forall>b \<in> set bs. ber_strings_ok b \<and> der_ok n (ber_converted b)) \<and>
        cbb_wrote d (concat (map (\<lambda>b. der_tree (ber_converted b)) bs)) s s'
      else (\<forall>b \<in> set bs. ber_string st b) \<and> cbb_wrote d (concat (map ber_body bs)) s s')"

lemma ber_result_Nil: "cbb_at d s \<Longrightarrow> ber_result n st [] d s s"
  by (simp add: ber_result_def cbb_wrote_refl)

lemma ber_result_Cons:
  "ber_result n st [b] d s1 s2 \<Longrightarrow> ber_result n st bs d s2 s3 \<Longrightarrow> ber_result n st (b # bs) d s1 s3"
  by (auto simp: ber_result_def intro: cbb_wrote_trans split: if_splits)

lemma clear_constructed: "(t AND NOT CBS_ASN1_CONSTRUCTED) AND CBS_ASN1_CONSTRUCTED = 0"
  by (rule bit_word_eqI) (auto simp: bit_simps)

lemma string_type_nonzero: "is_string_type t \<Longrightarrow> t AND NOT CBS_ASN1_CONSTRUCTED \<noteq> 0"
  by (auto simp: is_string_type_def string_tags)

lemma ber_result_wrote: "ber_result n st bs d s s' \<Longrightarrow> cbb_at d s'"
  by (auto simp: ber_result_def cbb_wrote_def split: if_splits)

lemma ber_open_at:
  assumes "ber_open d st tag cb = (True, s1, dc, cst)" and "cbb_at d cb"
  shows "cbb_at dc s1"
  using assms CBB_add_asn1_opened [of d _ cb s1]
  by (auto simp: ber_open_def Let_def cbb_opened_def split: if_splits prod.splits)

lemma ber_constructed_result:
  assumes op: "ber_open d st tag cb = (True, s1, dc, cst)" and at: "cbb_at d cb"
    and K: "K = BDef \<or> K = BIndef" and ok: "ber_ok (K tag bs)"
    and res: "ber_result (kMaxDepth - Suc depth) cst bs dc s1 s2" and fl: "CBB_flush d s2 = (True, s3)"
    and dep: "Suc depth \<le> kMaxDepth"
  shows "ber_result (kMaxDepth - depth) st [K tag bs] d cb s3"
proof (cases "st = 0")
  case False
  then have st: "tag AND NOT CBS_ASN1_CONSTRUCTED = st" "s1 = cb" "dc = d" "cst = st"
    using op by (auto simp: ber_open_def split: if_splits)
  have "s3 = s2"
    using fl CBB_flush_innermost [of d s2] ber_result_wrote [OF res] st(3) by simp
  then show ?thesis
    using K ok res False st by (auto simp: ber_result_def)
next
  case True
  define out_tag where "out_tag = (if is_string_type tag then tag AND NOT CBS_ASN1_CONSTRUCTED else tag)"
  have c: "tag AND CBS_ASN1_CONSTRUCTED \<noteq> 0"
    using K ok by auto
  then have add: "CBB_add_asn1 d out_tag cb = (True, s1)" and dc: "dc = Suc d"
    and cst: "cst = (if is_string_type tag then out_tag else 0)"
    using op True by (auto simp: ber_open_def Let_def out_tag_def split: prod.splits if_splits)
  have o: "cbb_opened d out_tag cb s1"
    using add at by (rule CBB_add_asn1_opened)
  have n: "kMaxDepth - depth = Suc (kMaxDepth - Suc depth)"
    using dep by simp
  show ?thesis
  proof (cases "is_string_type tag")
    case str: True
    then have "cst \<noteq> 0"
      using cst string_type_nonzero [OF str] by (simp add: out_tag_def)
    then have strs: "\<forall>b \<in> set bs. ber_string out_tag b" and w: "cbb_wrote (Suc d) (concat (map ber_body bs)) s1 s2"
      using res cst str dc by (auto simp: ber_result_def)
    note cl = cbb_close [OF o w fl]
    have "ber_converted (K tag bs) = Prim out_tag (concat (map ber_body bs))" "ber_strings_ok (K tag bs)"
      using K str strs by (auto simp: out_tag_def)
    moreover have "out_tag AND CBS_ASN1_CONSTRUCTED = 0"
      using str by (simp add: out_tag_def clear_constructed)
    ultimately show ?thesis
      using cl ok True by (simp add: ber_result_def)
  next
    case False
    then have sub: "\<forall>b \<in> set bs. ber_strings_ok b \<and> der_ok (kMaxDepth - Suc depth) (ber_converted b)"
      and w: "cbb_wrote (Suc d) (concat (map (\<lambda>b. der_tree (ber_converted b)) bs)) s1 s2"
      using res cst dc by (auto simp: ber_result_def)
    note cl = cbb_close [OF o w fl]
    have "ber_converted (K tag bs) = Node out_tag (map ber_converted bs)" "ber_strings_ok (K tag bs)"
      using K False sub by (auto simp: out_tag_def)
    moreover have "out_tag = tag"
      using False by (simp add: out_tag_def)
    ultimately show ?thesis
      using cl ok True c False sub by (simp add: ber_result_def n comp_def)
  qed
qed

lemma ber_primitive_result:
  assumes op: "ber_open d st tag cb = (True, s1, dc, cst)" and at: "cbb_at d cb"
    and ok: "ber_ok (BPrim tag c)" and add: "CBB_add_bytes dc c s1 = (True, s2)" and fl: "CBB_flush d s2 = (True, s3)"
  shows "ber_result n st [BPrim tag c] d cb s3"
proof -
  have "length c \<le> SIZE_MAX"
    using ok by (simp add: SIZE_MAX_def)
  then have w: "cbb_wrote dc c s1 s2"
    using add ber_open_at [OF op at] by (intro CBB_add_bytes_wrote)
  show ?thesis
  proof (cases "st = 0")
    case False
    then have st: "tag AND NOT CBS_ASN1_CONSTRUCTED = st" "s1 = cb" "dc = d"
      using op by (auto simp: ber_open_def split: if_splits)
    have "s3 = s2"
      using fl CBB_flush_innermost [of d s2] w st(3) by (simp add: cbb_wrote_def)
    then show ?thesis
      using ok False st w by (simp add: ber_result_def)
  next
    case True
    then have "CBB_add_asn1 d tag cb = (True, s1)" "dc = Suc d"
      using op ok by (auto simp: ber_open_def Let_def split: prod.splits if_splits)
    then have "cbb_wrote d (der_element tag c) cb s3"
      using cbb_close [OF CBB_add_asn1_opened [OF _ at] _ fl] w by auto
    then show ?thesis
      using ok True by (simp add: ber_result_def)
  qed
qed

text \<open>The converter accepts only well-formed BER, and writes the DER values it denotes.\<close>

lemma cbs_convert_ber_sound:
  assumes "cbs_convert_ber fuel s d st eoc depth cb = Some (True, r, cb')" and "cbb_at d cb"
  shows "\<exists>bs. s = concat (map ber_enc bs) @ (if eoc then [0, 0] else []) @ r \<and> (\<not> eoc \<longrightarrow> r = []) \<and>
    ber_result (kMaxDepth - depth) st bs d cb cb'"
  using assms
proof (induction fuel arbitrary: s d st eoc depth cb r cb')
  case 0
  then show ?case by simp
next
  case (Suc fuel)
  show ?case
  proof (cases "s = []")
    case True
    then have "\<not> eoc" "r = []" "cb' = cb"
      using Suc.prems(1) by (auto simp: cbs_convert_ber.simps(2) split: if_splits)
    then show ?thesis
      using True Suc.prems(2) by (intro exI [of _ "[]"]) (simp add: ber_result_Nil)
  next
    case False
    from Suc.prems(1) False show ?thesis
    proof (cases rule: cbs_convert_ber_step)
      case (eoc contents tag hl)
      have "s = [0, 0] @ r"
        using eoc(1,2) element_sound [OF eoc(1) [unfolded CBS_get_any_ber_asn1_element_def]]
        by (simp add: is_eoc_iff [OF eoc(1)])
      then show ?thesis
        using eoc(3,4) Suc.prems(2) by (intro exI [of _ "[]"]) (simp add: ber_result_Nil)
    next
      case (element contents tag hl rest s1 dc cst rest' s2 s3)
      note at1 = ber_open_at [OF element(3) Suc.prems(2)]
      have one: "\<exists>b. s = ber_enc b @ rest' \<and> ber_result (kMaxDepth - depth) st [b] d cb s3"
      proof (cases rule: ber_element_cases [OF element(1)])
        case (1 c)
        have noteoc: "der_element tag c \<noteq> [0, 0]"
          using element(2) [unfolded is_eoc_iff [OF element(1)]] 1(2) by simp
        show ?thesis
        proof (cases "tag AND CBS_ASN1_CONSTRUCTED = 0")
          case True
          then have "CBB_add_bytes dc c s1 = (True, s2)" "rest' = rest"
            using element(4) 1 by auto
          then show ?thesis
            using ber_primitive_result [OF element(3) Suc.prems(2) _ _ element(5), of c] True 1(1,4) noteoc
            by (intro exI [of _ "BPrim tag c"]) simp
        next
          case False
          then obtain x where x: "cbs_convert_ber fuel c dc cst False (Suc depth) s1 = Some (True, x, s2)" "rest' = rest"
            using element(4) 1 by auto
          obtain bs where bs: "c = concat (map ber_enc bs)" "ber_result (kMaxDepth - Suc depth) cst bs dc s1 s2"
            using Suc.IH [OF x(1) at1] by auto
          have "ber_ok (BDef tag bs)"
            using bs 1(4) False by (simp add: ber_result_def)
          then have "ber_result (kMaxDepth - depth) st [BDef tag bs] d cb s3"
            using ber_constructed_result [OF element(3) Suc.prems(2) _ _ bs(2) element(5) cbs_convert_ber_depth [OF x(1)],
                of BDef] by simp
          then show ?thesis
            using 1(1) bs(1) x(2) by (intro exI [of _ "BDef tag bs"]) simp
        qed
      next
        case 2
        then have x: "cbs_convert_ber fuel rest dc cst True (Suc depth) s1 = Some (True, rest', s2)"
          using element(4) by simp
        obtain bs where bs: "rest = concat (map ber_enc bs) @ [0, 0] @ rest'"
          "ber_result (kMaxDepth - Suc depth) cst bs dc s1 s2"
          using Suc.IH [OF x at1] by auto
        have "ber_ok (BIndef tag bs)"
          using bs 2(4) by (simp add: ber_result_def)
        then have "ber_result (kMaxDepth - depth) st [BIndef tag bs] d cb s3"
          using ber_constructed_result [OF element(3) Suc.prems(2) _ _ bs(2) element(5) cbs_convert_ber_depth [OF x],
              of BIndef] by simp
        then show ?thesis
          using 2(1) bs(1) by (intro exI [of _ "BIndef tag bs"]) simp
      qed
      then obtain b where b: "s = ber_enc b @ rest'" "ber_result (kMaxDepth - depth) st [b] d cb s3"
        by blast
      obtain bs where bs: "rest' = concat (map ber_enc bs) @ (if eoc then [0, 0] else []) @ r" "\<not> eoc \<longrightarrow> r = []"
        "ber_result (kMaxDepth - depth) st bs d s3 cb'"
        using Suc.IH [OF element(6) ber_result_wrote [OF b(2)]] by blast
      show ?thesis
        using b(1) bs(1,2) ber_result_Cons [OF b(2) bs(3)] by (intro exI [of _ "b # bs"]) simp
    qed
  qed
qed

end
