(* ===== verification/Bit_String.thy ===== *)
theory Bit_String
  imports Der
begin

unbundle bit_operations_syntax

text \<open>
  DER BIT STRING contents, read by \<open>CBS_is_valid_asn1_bitstring\<close> and
  \<open>CBS_asn1_bitstring_has_bit\<close>: the number of unused bits, then the bits, most significant
  first.
\<close>

definition byte_bits :: "u8 \<Rightarrow> bool list" where
  "byte_bits b = map (\<lambda>i. bit b (7 - i)) [0..<8]"

definition string_bits :: "bytes \<Rightarrow> bool list" where
  "string_bits bs = concat (map byte_bits bs)"

lemma length_byte_bits [simp]: "length (byte_bits b) = 8"
  by (simp add: byte_bits_def)

lemma length_string_bits [simp]: "length (string_bits bs) = 8 * length bs"
  by (induction bs) (simp_all add: string_bits_def)

lemma string_bits_nth: "i < 8 * length bs \<Longrightarrow> string_bits bs ! i = bit (bs ! (i div 8)) (7 - i mod 8)"
proof (induction bs arbitrary: i)
  case Nil
  then show ?case by simp
next
  case (Cons b bs)
  show ?case
  proof (cases "i < 8")
    case True
    then show ?thesis
      by (simp add: string_bits_def nth_append byte_bits_def)
  next
    case False
    then have "i div 8 = Suc ((i - 8) div 8)" "i mod 8 = (i - 8) mod 8"
      by (simp_all add: le_div_geq le_mod_geq)
    moreover have "string_bits (b # bs) ! i = string_bits bs ! (i - 8)"
      using False by (simp add: string_bits_def nth_append)
    ultimately show ?thesis
      using Cons.IH [of "i - 8"] Cons.prems False by simp
  qed
qed

text \<open>Well-formed contents: at most seven unused bits, all present and zero.\<close>

definition bit_string_ok :: "nat \<Rightarrow> bytes \<Rightarrow> bool" where
  "bit_string_ok u bs \<longleftrightarrow> u \<le> 7 \<and> u \<le> 8 * length bs \<and>
     drop (8 * length bs - u) (string_bits bs) = replicate u False"

lemma low_bits_zero_iff:
  "b AND (push_bit u 1 - 1) = 0 \<longleftrightarrow> (\<forall>i < u. \<not> bit b i)" for b :: u8
proof -
  have "b AND (push_bit u 1 - 1) = take_bit u b"
    by (simp add: take_bit_eq_mask mask_eq_exp_minus_1 push_bit_eq_mult)
  moreover have "take_bit u b = 0 \<longleftrightarrow> (\<forall>i < u. \<not> bit b i)"
  proof
    assume "take_bit u b = 0"
    then have "bit (take_bit u b) i = bit 0 i" for i
      by simp
    then have "\<not> (i < u \<and> bit b i)" for i
      by (simp add: bit_take_bit_iff)
    then show "\<forall>i < u. \<not> bit b i" by blast
  next
    assume "\<forall>i < u. \<not> bit b i"
    then show "take_bit u b = 0"
      by (auto simp: bit_eq_iff bit_simps)
  qed
  ultimately show ?thesis by simp
qed

lemma drop_byte_bits:
  "u \<le> 8 \<Longrightarrow> drop (8 - u) (byte_bits b) = replicate u False \<longleftrightarrow> (\<forall>i < u. \<not> bit b i)"
proof -
  assume u: "u \<le> 8"
  have "drop (8 - u) (byte_bits b) = replicate u False \<longleftrightarrow> (\<forall>i < u. \<not> bit b (7 - (8 - u + i)))"
    using u by (auto simp: list_eq_iff_nth_eq byte_bits_def)
  also have "\<dots> \<longleftrightarrow> (\<forall>i < u. \<not> bit b i)"
  proof
    assume a: "\<forall>i < u. \<not> bit b (7 - (8 - u + i))"
    show "\<forall>i < u. \<not> bit b i"
    proof (intro allI impI)
      fix i
      assume "i < u"
      moreover from this have "7 - (8 - u + (u - 1 - i)) = i"
        using u by simp
      ultimately show "\<not> bit b i"
        using a [rule_format, of "u - 1 - i"] by simp
    qed
  next
    assume a: "\<forall>i < u. \<not> bit b i"
    show "\<forall>i < u. \<not> bit b (7 - (8 - u + i))"
    proof (intro allI impI)
      fix i
      assume "i < u"
      then have "7 - (8 - u + i) < u"
        using u by simp
      with a show "\<not> bit b (7 - (8 - u + i))" by blast
    qed
  qed
  finally show ?thesis .
qed

lemma valid_bitstring_Cons:
  "CBS_is_valid_asn1_bitstring (u # bs) \<longleftrightarrow> bit_string_ok (unat u) bs"
proof -
  have u7: "u > 7 \<longleftrightarrow> 7 < unat u" and u0: "u = 0 \<longleftrightarrow> unat u = 0"
    by (simp_all add: word_less_nat_alt unat_eq_0)
  show ?thesis
  proof (cases bs rule: rev_cases)
    case Nil
    then show ?thesis
      using u7 u0 by (auto simp: CBS_is_valid_asn1_bitstring_def CBS_get_last_u8_def bit_string_ok_def string_bits_def)
  next
    case (snoc cs b)
    have "drop (8 * length bs - unat u) (string_bits bs) = drop (8 - unat u) (byte_bits b)" if "unat u \<le> 7"
      using that by (simp add: snoc string_bits_def) (simp flip: string_bits_def)
    then show ?thesis
      using u7 u0 low_bits_zero_iff [of b "unat u"] drop_byte_bits [of "unat u" b]
      by (auto simp: CBS_is_valid_asn1_bitstring_def CBS_get_last_u8_def bit_string_ok_def snoc)
  qed
qed

lemma bitstring_index:
  "unat (drop_bit 3 b + 1) = Suc (unat b div 8)" "unat (7 - (b AND 7)) = 7 - unat b mod 8" for b :: u32
proof -
  have d: "unat (drop_bit 3 b) = unat b div 8"
    by (simp only: unat_drop_bit_div) simp
  moreover have "unat b div 8 < 536870912"
    using unsigned_less [of b, where ?'a = nat] by (simp add: less_mult_imp_div_less)
  ultimately show "unat (drop_bit 3 b + 1) = Suc (unat b div 8)"
    by (subst unat_plus_small) simp_all
  have "b AND 7 = take_bit 3 b"
    by (simp add: take_bit_eq_mask mask_eq_exp_minus_1)
  then have m: "unat (b AND 7) = unat b mod 8"
    by (simp only: unsigned_take_bit_eq) (simp add: take_bit_eq_mod)
  have "unat b mod 8 < 8"
    by simp
  then have "b AND 7 \<le> 7"
    by (simp add: word_le_nat_alt m)
  then show "unat (7 - (b AND 7)) = 7 - unat b mod 8"
    by (simp add: unat_sub m)
qed

text \<open>
  BIT STRINGs.  Contents are accepted exactly when their first octet counts unused bits that exist and
  are zero, and \<open>CBS_asn1_bitstring_has_bit\<close> reads bit \<open>b\<close> of the string, counted from the most
  significant bit; bits past the end read as zero.
\<close>
theorem bitstring_bits:
  "(CBS_is_valid_asn1_bitstring cbs \<longleftrightarrow> cbs \<noteq> [] \<and> bit_string_ok (unat (hd cbs)) (tl cbs)) \<and>
   (CBS_asn1_bitstring_has_bit cbs b \<longleftrightarrow>
      CBS_is_valid_asn1_bitstring cbs \<and> unat b < 8 * length (tl cbs) \<and> string_bits (tl cbs) ! unat b)"
proof (cases cbs)
  case Nil
  then show ?thesis
    by (simp add: CBS_is_valid_asn1_bitstring_def CBS_asn1_bitstring_has_bit_def)
next
  case (Cons u bs)
  have "bs ! (unat b div 8) AND push_bit (7 - unat b mod 8) 1 \<noteq> 0 \<longleftrightarrow>
      bit (bs ! (unat b div 8)) (7 - unat b mod 8)"
    by (simp only: bit_iff_and_push_bit_not_eq_0)
  moreover have "unat b div 8 < length bs \<longleftrightarrow> unat b < 8 * length bs"
    by (simp add: div_less_iff_less_mult mult.commute)
  ultimately show ?thesis
    using Cons valid_bitstring_Cons [of u bs]
    by (auto simp: CBS_asn1_bitstring_has_bit_def Let_def bitstring_index string_bits_nth)
qed

end
