(* ===== verification/Ber_To_Der.thy ===== *)
theory Ber_To_Der
  imports Ber Bit_String
begin

text \<open>
  What the callers of \<open>ber.c\<close> get: the result of \<open>CBS_asn1_ber_to_der\<close> on BER and on DER, two inputs on
  which it does not deliver DER of the same value, and \<open>CBS_get_asn1_implicit_string\<close>.
\<close>

section \<open>CBS_asn1_ber_to_der\<close>




text \<open>
  DER is left alone.  On the DER encoding of a value nested at most 2048 deep, with no
  constructed strings, \<open>CBS_asn1_ber_to_der\<close> returns the input itself and allocates nothing.
\<close>
theorem ber_to_der_unchanged:
  assumes "der_ok kMaxDepth x"
  shows "CBS_asn1_ber_to_der al (der_tree x) = (Some (der_tree x, None), [])"
proof -
  have "cbs_find_ber (der_tree x) 0 = Some False"
    using cbs_find_ber_der [of "[x]" kMaxDepth 0] assms by (simp add: cbs_find_ber_def)
  moreover obtain n where n: "kMaxDepth = Suc n"
    by (cases kMaxDepth) (simp_all add: kMaxDepth_def)
  obtain t c where "der_tree x = der_element t c" "length c < 4294967296"
    using assms unfolding n by (cases x) auto
  moreover from this obtain hl where "CBS_get_any_asn1_element (der_tree x) = (Some (der_tree x, t, hl), [])"
    by (auto simp: CBS_get_any_asn1_element_iff)
  ultimately show ?thesis
    by (simp add: CBS_asn1_ber_to_der_def)
qed

lemma ber_to_der_unchanged_witness:
  "CBS_asn1_ber_to_der (\<lambda>_. False) (der_tree (Node 0x20000010 [Prim 2 [5]])) =
    (Some (der_tree (Node 0x20000010 [Prim 2 [5]]), None), [])"
proof (rule ber_to_der_unchanged)
  have d: "der_ok (Suc n) (Node 0x20000010 [Prim 2 [5]])" for n
    by (simp add: CBS_ASN1_CONSTRUCTED_def is_string_type_def string_tags der_element_def der_header_def
        asn1_tag_bytes_def der_len_def)
  obtain n where k: "kMaxDepth = Suc n"
    by (cases kMaxDepth) (simp_all add: kMaxDepth_def)
  show "der_ok kMaxDepth (Node 0x20000010 [Prim 2 [5]])"
    unfolding k by (rule d)
qed

text \<open>
  C18: the converter always returns.  With one unit of fuel more than there are input bytes (what
  \<open>CBS_asn1_ber_to_der\<close> gives it) \<open>cbs_convert_ber\<close> never runs out, on any input, nesting depth and
  builder, and it never leaves more input than it was given.
\<close>
theorem ber_conversion_terminates:
  "\<exists>ok rest s'. cbs_convert_ber (Suc (length s)) s d st eoc depth cb = Some (ok, rest, s') \<and> length rest \<le> length s"
  by (rule cbs_convert_ber_total) simp

section \<open>Definite limits of the search\<close>

text \<open>A later definite-length sibling resets what an earlier one has found: this SEQUENCE holds a
  SEQUENCE with an indefinite-length element, followed by an empty one.\<close>

definition ber_hidden :: bytes where
  "ber_hidden = [0x30, 0x08, 0x30, 0x04, 0x30, 0x80, 0x00, 0x00, 0x30, 0x00]"

lemma ber_hidden_value:
  "ber_hidden = ber_enc (BDef 0x20000010 [BDef 0x20000010 [BIndef 0x20000010 []], BDef 0x20000010 []])"
  by (simp add: ber_hidden_def der_element_def der_header_def asn1_tag_bytes_def der_len_def ber_indefinite_def)

lemma ber_hidden_missed: "cbs_find_ber ber_hidden 0 = Some False"
  by code_simp

lemma ber_hidden_found: "cbs_find_ber (take 8 (drop 2 ber_hidden)) 0 = Some False \<and>
    cbs_find_ber (take 6 (drop 2 ber_hidden)) 0 = Some True"
  by code_simp

text \<open>
  BER that is passed through.  The search forgets what it has found when a later constructed
  sibling is walked, because each recursive call of \<open>cbs_find_ber\<close> starts by clearing \<open>*ber_found\<close>.  On
  \<open>ber_hidden\<close>, the encoding of a well-formed BER value with an indefinite-length element inside,
  \<open>CBS_asn1_ber_to_der\<close> therefore returns the input as it is, which is not the DER of that value.
\<close>
theorem ber_hidden_not_converted:
  "CBS_asn1_ber_to_der unlimited ber_hidden = (Some (ber_hidden, None), []) \<and>
   (\<exists>v. ber_hidden = ber_enc v \<and> ber_ok v \<and> der_tree (ber_value v) \<noteq> ber_hidden)"
proof
  show "CBS_asn1_ber_to_der unlimited ber_hidden = (Some (ber_hidden, None), [])"
    by code_simp
  show "\<exists>v. ber_hidden = ber_enc v \<and> ber_ok v \<and> der_tree (ber_value v) \<noteq> ber_hidden"
    by (intro exI conjI, rule ber_hidden_value)
      (simp_all add: CBS_ASN1_CONSTRUCTED_def is_string_type_def string_tags der_element_def der_header_def
        asn1_tag_bytes_def der_len_def ber_indefinite_def ber_hidden_def)
qed

text \<open>
  Constructed BIT STRINGs.  The fragments are concatenated with their leading unused-bits octets,
  so a BIT STRING sent in two one-octet fragments comes out as a DER BIT STRING of 24 bits instead of
  the 16 it has.
\<close>
theorem bit_string_fragments:
  "fst (CBS_asn1_ber_to_der unlimited ([0x23, 0x80, 0x03, 0x02, 0x00, x, 0x03, 0x02, 0x00, y, 0x00, 0x00])) =
     Some ([0x03, 0x04, 0x00, x, 0x00, y], Some [0x03, 0x04, 0x00, x, 0x00, y]) \<and>
   string_bits [x, 0x00, y] \<noteq> string_bits [x] @ string_bits [y]"
proof
  show "string_bits [x, 0x00, y] \<noteq> string_bits [x] @ string_bits [y]"
  proof
    assume "string_bits [x, 0x00, y] = string_bits [x] @ string_bits [y]"
    then have "length (string_bits [x, 0x00, y]) = length (string_bits [x] @ string_bits [y])"
      by (rule arg_cong)
    then show False by simp
  qed
  show "fst (CBS_asn1_ber_to_der unlimited ([0x23, 0x80, 0x03, 0x02, 0x00, x, 0x03, 0x02, 0x00, y, 0x00, 0x00])) =
     Some ([0x03, 0x04, 0x00, x, 0x00, y], Some [0x03, 0x04, 0x00, x, 0x00, y])"
    by code_simp
qed

section \<open>CBS_get_asn1_implicit_string\<close>

lemma implicit_string_loop_chunks:
  assumes "\<forall>c \<in> set cs. length c < 4294967296" and "cbb_at 0 s" and "cbb_roomy (length (concat cs)) s"
  shows "\<exists>s'. implicit_string_loop inner (concat (map (der_element inner) cs)) s = (True, s') \<and>
    cbb_wrote 0 (concat cs) s s'"
  using assms
proof (induction cs arbitrary: s)
  case Nil
  then show ?case
    by (subst implicit_string_loop.simps) (simp add: cbb_wrote_refl)
next
  case (Cons c cs)
  have room: "cbb_roomy (length c) s" "cbb_roomy (length c + length (concat cs)) s"
    using Cons.prems(3) by (simp_all add: cbb_roomy_def)
  obtain s1 where s1: "CBB_add_bytes 0 c s = (True, s1)"
    using CBB_add_bytes_roomy [OF Cons.prems(2) room(1)] by blast
  have w: "cbb_wrote 0 c s s1"
    using CBB_add_bytes_wrote [OF s1 Cons.prems(2)] Cons.prems(1) by (simp add: SIZE_MAX_def)
  obtain s' where s': "implicit_string_loop inner (concat (map (der_element inner) cs)) s1 = (True, s')"
      "cbb_wrote 0 (concat cs) s1 s'"
    using Cons.IH [of s1] Cons.prems(1) w cbb_roomy_wrote [OF w room(2)] by (auto simp: cbb_wrote_def)
  have "implicit_string_loop inner (concat (map (der_element inner) (c # cs))) s = (True, s')"
    using Cons.prems(1) s1 s'(1) asn1.enc_nonempty [of c inner] by (subst implicit_string_loop.simps) simp
  with cbb_wrote_trans [OF w s'(2)] show ?case by auto
qed

text \<open>
  implicitly tagged strings.  \<open>CBS_get_asn1_implicit_string\<close> returns the contents of a primitive
  element of the outer tag without allocating; and of a constructed one the concatenation of its
  chunks, in storage of its own.
\<close>
theorem implicit_string_value:
  assumes "outer AND CBS_ASN1_CONSTRUCTED = 0" and "length c < 4294967296"
    and "\<forall>x \<in> set cs. length x < 4294967296" and "length (concat (map (der_element inner) cs)) < 4294967296"
    and "length r \<le> 4294967296"
  shows "CBS_get_asn1_implicit_string al outer inner (der_element outer c @ r) = (Some (c, None), r) \<and>
    CBS_get_asn1_implicit_string unlimited outer inner
      (der_element (outer OR CBS_ASN1_CONSTRUCTED) (concat (map (der_element inner) cs)) @ r) =
      (Some (concat cs, Some (concat cs)), r)"
proof
  have "prefix (asn1_tag_bytes outer) (der_element outer c @ r)"
    by (simp add: der_element_def der_header_def)
  then show "CBS_get_asn1_implicit_string al outer inner (der_element outer c @ r) = (Some (c, None), r)"
    using assms(2) by (simp add: CBS_get_asn1_implicit_string_def CBS_peek_asn1_tag_iff)
next
  let ?t = "outer OR CBS_ASN1_CONSTRUCTED" and ?body = "concat (map (der_element inner) cs)"
  let ?s = "der_element ?t ?body @ r"
  have "?t AND CBS_ASN1_CONSTRUCTED = CBS_ASN1_CONSTRUCTED"
    by (rule bit_eqI) (auto simp: bit_simps)
  moreover have "CBS_ASN1_CONSTRUCTED \<noteq> 0"
    by (simp add: CBS_ASN1_CONSTRUCTED_def)
  ultimately have "?t \<noteq> outer"
    using assms(1) by metis
  moreover have "prefix (asn1_tag_bytes ?t) ?s"
    by (simp add: der_element_def der_header_def)
  ultimately have peek: "\<not> CBS_peek_asn1_tag ?s outer"
    using tag.prefix_free [of outer ?t] tag.prefix_free [of ?t outer] prefix_same_cases
    by (metis CBS_peek_asn1_tag_iff)
  obtain cb where cb: "CBB_init unlimited (length ?s) = (True, cb)"
    by (simp add: CBB_init_def cbb_init_def)
  have small: "length ?s \<le> SIZE_MAX" "length (concat cs) \<le> 4294967296"
  proof -
    have "length (concat cs) \<le> length ?body"
      by (induction cs) (simp_all add: der_element_def)
    then show "length (concat cs) \<le> 4294967296"
      using assms(4) by simp
    show "length ?s \<le> SIZE_MAX"
      using assms(4,5) length_asn1_tag_bytes [of ?t] der_len_len_bounds(2) [of "length ?body"]
      by (simp add: der_element_def der_header_def length_der_len SIZE_MAX_def)
  qed
  have at: "cbb_at 0 cb" "cbb_buf cb = []" "cbb_roomy (length (concat cs)) cb"
    using CBB_init_at [OF cb small(1)] small(2) by (simp_all add: cbb_roomy_def SIZE_MAX_def)
  obtain cb' where cb': "implicit_string_loop inner ?body cb = (True, cb')" "cbb_wrote 0 (concat cs) cb cb'"
    using implicit_string_loop_chunks [OF assms(3) at(1,3)] by blast
  have "CBS_get_asn1 ?t ?s = (Some ?body, r)"
    using assms(4) by simp
  moreover have "CBB_finish 0 True cb' = (Some (concat cs), CBB_cleanup cb')"
    using CBB_finish_innermost [of cb'] cb'(2) at(2) by (simp add: cbb_wrote_def)
  ultimately show "CBS_get_asn1_implicit_string unlimited outer inner ?s = (Some (concat cs, Some (concat cs)), r)"
    using peek cb cb'(1) by (simp add: CBS_get_asn1_implicit_string_def)
qed

lemma implicit_string_value_witness:
  "CBS_get_asn1_implicit_string (\<lambda>_. False) 0x80000000 4 (der_element 0x80000000 [7] @ []) = (Some ([7], None), []) \<and>
    CBS_get_asn1_implicit_string unlimited 0x80000000 4
      (der_element (0x80000000 OR CBS_ASN1_CONSTRUCTED) (concat (map (der_element 4) [[1], [2, 3]])) @ []) =
      (Some (concat [[1], [2, 3]], Some (concat [[1], [2, 3]])), [])"
  by (rule implicit_string_value)
    (simp_all add: CBS_ASN1_CONSTRUCTED_def der_element_def der_header_def der_len_def asn1_tag_bytes_def)

end
