(* ===== verification/Mem.thy ===== *)
theory Mem
  imports Cbs Sink
begin

unbundle bit_operations_syntax

text \<open>
  \<open>crypto/mem.c\<close>: the allocator wrappers over an explicit heap, the constant-time comparison, the
  FNV hash and the C string helpers; and \<open>CBS_strdup\<close> of \<open>cbs.c\<close>, which is a wrapper of
  \<open>OPENSSL_strndup\<close>.  A C string is a byte list with its terminating NUL.
\<close>

section \<open>The heap\<close>

text \<open>
  Block \<open>p\<close> is \<open>blocks ! p\<close>, \<open>None\<close> once freed.  \<open>serves\<close> says which requests \<open>malloc\<close> serves, \<open>junk\<close>
  is what fresh memory holds, and \<open>released\<close> records what each block held when it went back to
  \<open>free\<close>.  A pointer handed out by \<open>OPENSSL_malloc\<close> is the block number; it points 8 bytes in.
\<close>

record heap =
  blocks :: "bytes option list"
  serves :: allocator
  junk :: "nat \<Rightarrow> u8"
  released :: "bytes list"

definition OPENSSL_MALLOC_PREFIX :: nat where
  "OPENSSL_MALLOC_PREFIX = 8"

definition malloc :: "nat \<Rightarrow> heap \<Rightarrow> nat option \<times> heap" where
  "malloc n h =
     (if \<not> serves h n then (None, h)
      else (Some (length (blocks h)), h\<lparr>blocks := blocks h @ [Some (map (junk h) [0..<n])]\<rparr>))"

definition block :: "nat \<Rightarrow> heap \<Rightarrow> bytes" where
  "block p h = (case blocks h ! p of None \<Rightarrow> [] | Some bs \<Rightarrow> bs)"

definition set_block :: "nat \<Rightarrow> bytes \<Rightarrow> heap \<Rightarrow> heap" where
  "set_block p bs h = h\<lparr>blocks := (blocks h)[p := Some bs]\<rparr>"

text \<open>A \<open>size_t\<close> in memory: eight bytes, least significant first.\<close>

definition store_size :: "nat \<Rightarrow> bytes" where
  "store_size n = rev (be_bytes 8 n)"

definition load_size :: "bytes \<Rightarrow> nat" where
  "load_size bs = be_val (rev (take 8 bs))"

definition OPENSSL_malloc :: "nat \<Rightarrow> heap \<Rightarrow> nat option \<times> heap" where
  "OPENSSL_malloc sz h = (case malloc (size_add sz OPENSSL_MALLOC_PREFIX) h of
     (None, h') \<Rightarrow> (None, h')
   | (Some p, h') \<Rightarrow> (Some p, set_block p (mem_copy 0 (store_size sz) (block p h')) h'))"

definition OPENSSL_cleanse :: "nat \<Rightarrow> nat \<Rightarrow> heap \<Rightarrow> heap" where
  "OPENSSL_cleanse p len h = set_block p (mem_copy 0 (replicate len 0) (block p h)) h"

definition OPENSSL_free :: "nat option \<Rightarrow> heap \<Rightarrow> heap" where
  "OPENSSL_free orig_ptr h = (case orig_ptr of
     None \<Rightarrow> h
   | Some p \<Rightarrow>
       let sz = load_size (block p h);
           h' = OPENSSL_cleanse p (size_add sz OPENSSL_MALLOC_PREFIX) h
       in h'\<lparr>blocks := (blocks h')[p := None], released := released h' @ [block p h']\<rparr>)"

definition OPENSSL_clear_free :: "nat option \<Rightarrow> nat \<Rightarrow> heap \<Rightarrow> heap" where
  "OPENSSL_clear_free ptr unused h = OPENSSL_free ptr h"

text \<open>The bytes the caller sees behind a pointer.\<close>

definition contents :: "nat \<Rightarrow> heap \<Rightarrow> bytes" where
  "contents p h = drop OPENSSL_MALLOC_PREFIX (block p h)"

definition OPENSSL_realloc :: "nat option \<Rightarrow> nat \<Rightarrow> heap \<Rightarrow> nat option \<times> heap" where
  "OPENSSL_realloc orig_ptr new_size h = (case orig_ptr of
     None \<Rightarrow> OPENSSL_malloc new_size h
   | Some p \<Rightarrow>
       let old_size = load_size (block p h)
       in case OPENSSL_malloc new_size h of
            (None, h') \<Rightarrow> (None, h')
          | (Some q, h') \<Rightarrow>
              let to_copy = (if old_size < new_size then old_size else new_size);
                  h'' = set_block q (mem_copy OPENSSL_MALLOC_PREFIX (take to_copy (contents p h')) (block q h')) h'
              in (Some q, OPENSSL_free (Some p) h''))"

section \<open>Hashing and C strings\<close>

definition OPENSSL_hash32 :: "bytes \<Rightarrow> u32" where
  "OPENSSL_hash32 inp = foldl (\<lambda>h b. (h XOR ucast b) * 16777619) 2166136261 inp"

fun OPENSSL_strnlen :: "bytes \<Rightarrow> nat \<Rightarrow> nat" where
  "OPENSSL_strnlen (c # s) (Suc len) = (if c = 0 then 0 else Suc (OPENSSL_strnlen s len))"
| "OPENSSL_strnlen s len = 0"

definition strlen :: "bytes \<Rightarrow> nat" where
  "strlen s = length (takeWhile (\<lambda>c. c \<noteq> 0) s)"

text \<open>A string argument that may be \<open>NULL\<close> is an option; so is the result.\<close>

definition OPENSSL_strdup :: "allocator \<Rightarrow> bytes option \<Rightarrow> bytes option" where
  "OPENSSL_strdup al s = (case s of
     None \<Rightarrow> None
   | Some s \<Rightarrow> let len = strlen s + 1 in if \<not> al len then None else Some (take len s))"

definition OPENSSL_tolower :: "int \<Rightarrow> int" where
  "OPENSSL_tolower c = (if c \<ge> 65 \<and> c \<le> 90 then c + (97 - 65) else c)"

fun OPENSSL_strcasecmp :: "bytes \<Rightarrow> bytes \<Rightarrow> int" where
  "OPENSSL_strcasecmp (a # as) (b # bs) =
     (let aa = OPENSSL_tolower (sint a); bb = OPENSSL_tolower (sint b)
      in if aa < bb then -1 else if aa > bb then 1 else if aa = 0 then 0 else OPENSSL_strcasecmp as bs)"
| "OPENSSL_strcasecmp as bs = 0"

fun OPENSSL_strncasecmp :: "bytes \<Rightarrow> bytes \<Rightarrow> nat \<Rightarrow> int" where
  "OPENSSL_strncasecmp (a # as) (b # bs) (Suc n) =
     (let aa = OPENSSL_tolower (sint a); bb = OPENSSL_tolower (sint b)
      in if aa < bb then -1 else if aa > bb then 1 else if aa = 0 then 0 else OPENSSL_strncasecmp as bs n)"
| "OPENSSL_strncasecmp as bs n = 0"

definition OPENSSL_strndup :: "allocator \<Rightarrow> bytes option \<Rightarrow> nat \<Rightarrow> bytes option" where
  "OPENSSL_strndup al str sz = (case str of
     None \<Rightarrow> None
   | Some str \<Rightarrow>
       let sz = OPENSSL_strnlen str sz;
           alloc_size = size_add sz 1
       in if alloc_size < sz then None
          else if \<not> al alloc_size then None
          else Some (take sz str @ [0]))"

text \<open>\<open>strlcpy\<close> into \<open>dst\<close> from position \<open>pos\<close>: the loop returns the array, the number of bytes
  copied, the rest of the source and the space left.\<close>

fun strlcpy_loop :: "bytes \<Rightarrow> nat \<Rightarrow> bytes \<Rightarrow> nat \<Rightarrow> nat \<Rightarrow> bytes \<times> nat \<times> bytes \<times> nat" where
  "strlcpy_loop dst pos [] dst_size l = (dst, l, [], dst_size)"
| "strlcpy_loop dst pos (c # src) dst_size l =
     (if dst_size > 1 \<and> c \<noteq> 0 then strlcpy_loop (dst[pos := c]) (pos + 1) src (dst_size - 1) (l + 1)
      else (dst, l, c # src, dst_size))"

definition strlcpy_at :: "nat \<Rightarrow> bytes \<Rightarrow> bytes \<Rightarrow> nat \<Rightarrow> nat \<times> bytes" where
  "strlcpy_at pos dst src dst_size =
     (let (dst', l, src', left) = strlcpy_loop dst pos src dst_size 0;
          dst'' = (if left \<noteq> 0 then dst'[pos + l := 0] else dst')
      in (l + strlen src', dst''))"

definition OPENSSL_strlcpy :: "bytes \<Rightarrow> bytes \<Rightarrow> nat \<Rightarrow> nat \<times> bytes" where
  "OPENSSL_strlcpy dst src dst_size = strlcpy_at 0 dst src dst_size"

fun strlcat_scan :: "bytes \<Rightarrow> nat \<Rightarrow> nat" where
  "strlcat_scan (c # dst) (Suc n) = (if c \<noteq> 0 then Suc (strlcat_scan dst n) else 0)"
| "strlcat_scan dst n = 0"

definition OPENSSL_strlcat :: "bytes \<Rightarrow> bytes \<Rightarrow> nat \<Rightarrow> nat \<times> bytes" where
  "OPENSSL_strlcat dst src dst_size =
     (let l = strlcat_scan dst dst_size;
          (n, dst') = strlcpy_at l dst src (dst_size - l)
      in (l + n, dst'))"

definition OPENSSL_memdup :: "allocator \<Rightarrow> bytes \<Rightarrow> nat \<Rightarrow> bytes option" where
  "OPENSSL_memdup al data sz =
     (if sz = 0 then None else if \<not> al sz then None else Some (take sz data))"

text \<open>\<open>CBS_strdup\<close> yields the new \<open>*out_ptr\<close>; \<open>is_null\<close> says that the \<open>CBS\<close> has no data pointer.\<close>

definition CBS_strdup :: "allocator \<Rightarrow> bool \<Rightarrow> bytes \<Rightarrow> bool \<times> bytes option" where
  "CBS_strdup al is_null cbs =
     (let out = OPENSSL_strndup al (if is_null then None else Some cbs) (CBS_len cbs) in (out \<noteq> None, out))"

section \<open>Allocation\<close>

text \<open>A live pointer: its block carries its size in front of the contents.\<close>

definition live :: "nat \<Rightarrow> heap \<Rightarrow> bool" where
  "live p h \<longleftrightarrow> p < length (blocks h) \<and> (\<exists>bs. blocks h ! p = Some (store_size (length bs) @ bs) \<and>
     length bs + 8 \<le> SIZE_MAX)"

lemma length_store_size [simp]: "length (store_size n) = 8"
  by (simp add: store_size_def)

lemma load_store_size: "n \<le> SIZE_MAX \<Longrightarrow> load_size (store_size n @ bs) = n"
  by (simp add: load_size_def store_size_def be_val_be_bytes SIZE_MAX_def)

lemma liveE:
  assumes "live p h"
  obtains bs where "blocks h ! p = Some (store_size (length bs) @ bs)" "contents p h = bs"
    "block p h = store_size (length bs) @ bs" "load_size (block p h) = length bs" "length bs + 8 \<le> SIZE_MAX"
    "p < length (blocks h)"
proof -
  obtain bs where bs: "p < length (blocks h)" "blocks h ! p = Some (store_size (length bs) @ bs)" "length bs + 8 \<le> SIZE_MAX"
    using assms by (auto simp: live_def)
  then show ?thesis
    by (intro that [of bs]) (simp_all add: block_def contents_def OPENSSL_MALLOC_PREFIX_def load_store_size)
qed

lemma OPENSSL_malloc_ok:
  assumes "OPENSSL_malloc sz h = (Some p, h')" and "sz + 8 \<le> SIZE_MAX"
  shows "p = length (blocks h)" and "live p h'" and "length (contents p h') = sz"
    and "blocks h' = blocks h @ [blocks h' ! p]" and "released h' = released h"
proof -
  have p: "p = length (blocks h)"
    and h': "h' = set_block p (mem_copy 0 (store_size sz) (map (junk h) [0..<sz + 8]))
      (h\<lparr>blocks := blocks h @ [Some (map (junk h) [0..<sz + 8])]\<rparr>)"
    using assms by (auto simp: OPENSSL_malloc_def malloc_def OPENSSL_MALLOC_PREFIX_def block_def split: if_splits)
  let ?c = "drop 8 (map (junk h) [0..<sz + 8])"
  have b: "blocks h' ! p = Some (store_size (length ?c) @ ?c)"
    by (simp add: h' set_block_def p mem_copy_def)
  show "p = length (blocks h)"
    by (rule p)
  show "live p h'"
    unfolding live_def using b assms(2) by (intro conjI exI [of _ ?c]) (simp_all add: h' set_block_def p)
  show "length (contents p h') = sz"
    using b by (simp add: contents_def block_def OPENSSL_MALLOC_PREFIX_def)
  show "blocks h' = blocks h @ [blocks h' ! p]" "released h' = released h"
    by (simp_all add: h' set_block_def p)
qed

lemma OPENSSL_malloc_fail: "OPENSSL_malloc sz h = (None, h') \<Longrightarrow> h' = h"
  by (auto simp: OPENSSL_malloc_def malloc_def split: if_splits)

text \<open>A freed block is wiped: what goes back to \<open>free\<close> holds only zeros.\<close>

lemma OPENSSL_free_wipes:
  assumes "live p h"
  shows "released (OPENSSL_free (Some p) h) = released h @ [replicate (length (contents p h) + 8) 0]"
    and "blocks (OPENSSL_free (Some p) h) = (blocks h)[p := None]"
proof -
  obtain bs where bs: "contents p h = bs" "block p h = store_size (length bs) @ bs"
    "load_size (block p h) = length bs" "length bs + 8 \<le> SIZE_MAX" "p < length (blocks h)"
    using assms by (rule liveE)
  have "mem_copy 0 (replicate (length bs + 8) 0) (store_size (length bs) @ bs) = replicate (length bs + 8) 0"
    by (simp add: mem_copy_def)
  then have "OPENSSL_cleanse p (size_add (length bs) 8) h = set_block p (replicate (length bs + 8) 0) h"
    using bs(4) by (simp add: OPENSSL_cleanse_def bs(2))
  then show "released (OPENSSL_free (Some p) h) = released h @ [replicate (length (contents p h) + 8) 0]"
    "blocks (OPENSSL_free (Some p) h) = (blocks h)[p := None]"
    using bs(1,3,5) by (simp_all add: OPENSSL_free_def Let_def OPENSSL_MALLOC_PREFIX_def set_block_def block_def)
qed

lemma OPENSSL_realloc_ok:
  assumes "OPENSSL_realloc (Some p) n h = (Some q, h')" and "live p h" and "n + 8 \<le> SIZE_MAX"
  shows "live q h' \<and> length (contents q h') = n \<and>
    take (min (length (contents p h)) n) (contents q h') = take n (contents p h) \<and>
    released h' = released h @ [replicate (length (contents p h) + 8) 0] \<and> blocks h' ! p = None"
proof -
  obtain bs where bs: "contents p h = bs" "block p h = store_size (length bs) @ bs" "blocks h ! p = Some (store_size (length bs) @ bs)"
    "load_size (block p h) = length bs" "length bs + 8 \<le> SIZE_MAX" "p < length (blocks h)"
    using assms(2) by (rule liveE)
  let ?m = "min (length bs) n"
  have m: "(if length bs < n then length bs else n) = ?m"
    by simp
  obtain h1 where h1: "OPENSSL_malloc n h = (Some q, h1)"
    and h': "h' = OPENSSL_free (Some p) (set_block q (mem_copy 8 (take ?m (contents p h1)) (block q h1)) h1)"
    using assms(1) bs(4)
    by (auto simp: OPENSSL_realloc_def Let_def m OPENSSL_MALLOC_PREFIX_def split: prod.splits option.splits)
  note al = OPENSSL_malloc_ok [OF h1 assms(3)]
  have "length (blocks h1) = Suc (length (blocks h))"
    using arg_cong [OF al(4), of length] by simp
  then have pq: "p \<noteq> q" "blocks h1 ! p = blocks h ! p" "p < length (blocks h1)"
    using bs(6) al(1) by (simp, subst al(4), simp add: nth_append, simp)
  have p1: "contents p h1 = bs"
    using pq(2) bs(3) by (simp add: contents_def block_def OPENSSL_MALLOC_PREFIX_def)
  obtain cs where cs: "block q h1 = store_size n @ cs" "length cs = n" "q < length (blocks h1)"
    using al(2,3) by (metis liveE)
  define nb where "nb = store_size n @ take ?m bs @ drop ?m cs"
  define h2 where "h2 = set_block q nb h1"
  have "mem_copy 8 (take ?m (contents p h1)) (block q h1) = nb"
    using cs(2) by (simp add: mem_copy_def p1 cs(1) nb_def min_absorb2)
  then have h'2: "h' = OPENSSL_free (Some p) h2"
    by (simp add: h' h2_def)
  have live2: "live p h2"
    using assms(2) pq bs(6) by (auto simp: live_def h2_def set_block_def)
  have c2: "contents p h2 = bs"
    using p1 pq(1) by (simp add: h2_def contents_def block_def set_block_def)
  have q': "blocks h' ! q = Some nb" "q < length (blocks h')"
    using pq(1) cs(3) unfolding h'2 OPENSSL_free_wipes(2) [OF live2]
    by (simp_all add: h2_def set_block_def)
  have len: "length (take ?m bs @ drop ?m cs) = n"
    using cs(2) by simp
  then have "live q h'"
    unfolding live_def nb_def using q' assms(3)
    by (intro conjI exI [of _ "take ?m bs @ drop ?m cs"]) (simp_all only: nb_def)
  moreover have "contents q h' = take ?m bs @ drop ?m cs"
    using q'(1) by (simp add: contents_def block_def nb_def OPENSSL_MALLOC_PREFIX_def)
  moreover have "released h' = released h @ [replicate (length bs + 8) 0]"
    using al(5) unfolding h'2 OPENSSL_free_wipes(1) [OF live2] c2 by (simp add: h2_def set_block_def)
  moreover have "blocks h' ! p = None"
    using pq(3) unfolding h'2 OPENSSL_free_wipes(2) [OF live2] by (simp add: h2_def set_block_def)
  ultimately show ?thesis
    using len bs(1) by (simp add: min_def)
qed

section \<open>Allocation as a whole\<close>

text \<open>
  C20: memory is wiped before it goes back.  \<open>OPENSSL_free\<close> on a live pointer hands \<open>free\<close> a block that
  holds only zeros, size prefix included; \<open>OPENSSL_realloc\<close> yields a live block of the new size that
  starts with the old contents, and wipes and releases the old block even when it shrinks.
\<close>
theorem freed_memory_is_wiped:
  assumes "live p h"
  shows "released (OPENSSL_free (Some p) h) = released h @ [replicate (length (contents p h) + 8) 0] \<and>
    (n + 8 \<le> SIZE_MAX \<and> OPENSSL_realloc (Some p) n h = (Some q, h') \<longrightarrow>
      live q h' \<and> length (contents q h') = n \<and>
      take (min (length (contents p h)) n) (contents q h') = take n (contents p h) \<and>
      released h' = released h @ [replicate (length (contents p h) + 8) 0])"
  using OPENSSL_free_wipes(1) [OF assms] OPENSSL_realloc_ok [of p n h q h'] assms by blast

definition secret_heap :: heap where
  "secret_heap = \<lparr>blocks = [Some (store_size 2 @ [7, 9])], serves = (\<lambda>_. True), junk = (\<lambda>_. 1), released = []\<rparr>"

lemma freed_memory_is_wiped_witness:
  "released (OPENSSL_free (Some 0) secret_heap) = [replicate 10 0]"
proof -
  have "live 0 secret_heap"
    by (auto simp: live_def secret_heap_def SIZE_MAX_def numeral_2_eq_2 intro!: exI [of _ "[7, 9]"])
  from freed_memory_is_wiped [OF this] show ?thesis
    by (simp add: secret_heap_def contents_def block_def OPENSSL_MALLOC_PREFIX_def)
qed

text \<open>
  A huge request succeeds with a block that is too small.  \<open>OPENSSL_malloc\<close> does not check that
  the 8 prefix bytes can be added to the size, so for the eight largest sizes the request to \<open>malloc\<close>
  wraps around: the call succeeds although the block holds no contents of that size.
\<close>
theorem malloc_size_wraps:
  assumes "SIZE_MAX - 8 < sz" and "sz \<le> SIZE_MAX"
    and "serves h (sz + 8 - 18446744073709551616)"
  shows "\<exists>p h'. OPENSSL_malloc sz h = (Some p, h') \<and> length (contents p h') < 8 \<and> length (contents p h') < sz"
proof -
  let ?n = "sz + 8 - 18446744073709551616"
  have n: "size_add sz 8 = ?n" "?n < 8"
    using assms(1,2) by (simp_all add: size_add_def SIZE_MAX_def le_mod_geq)
  let ?p = "length (blocks h)"
  obtain h' where h': "OPENSSL_malloc sz h = (Some ?p, h')"
      "block ?p h' = mem_copy 0 (store_size sz) (map (junk h) [0..<?n])"
    using assms(3) n(1)
    by (auto simp: OPENSSL_malloc_def malloc_def OPENSSL_MALLOC_PREFIX_def set_block_def block_def)
  then have "length (contents ?p h') = 0"
    using n(2) by (simp add: contents_def mem_copy_def OPENSSL_MALLOC_PREFIX_def)
  then show ?thesis
    using h'(1) assms(1) by (intro exI [of _ ?p] exI [of _ h']) (simp add: SIZE_MAX_def)
qed

lemma malloc_size_wraps_witness:
  "\<exists>p h'. OPENSSL_malloc SIZE_MAX secret_heap = (Some p, h') \<and> length (contents p h') < 8 \<and>
    length (contents p h') < SIZE_MAX"
  by (rule malloc_size_wraps) (simp_all add: secret_heap_def SIZE_MAX_def)

section \<open>C strings\<close>

text \<open>The string behind a byte array.\<close>

definition cstr :: "bytes \<Rightarrow> bytes" where
  "cstr bs = takeWhile (\<lambda>c. c \<noteq> 0) bs"

lemma cstr_simps [simp]: "cstr [] = []" "cstr (c # bs) = (if c = 0 then [] else c # cstr bs)"
  by (simp_all add: cstr_def)

lemma strlen_eq: "strlen bs = length (cstr bs)"
  by (simp add: strlen_def cstr_def)

lemma cstr_append: "0 \<notin> set xs \<Longrightarrow> cstr (xs @ ys) = xs @ cstr ys"
  by (induction xs) auto

lemma cstr_split: "\<exists>ys. bs = cstr bs @ ys"
  unfolding cstr_def by (metis takeWhile_dropWhile_id)

lemma zero_notin_cstr: "0 \<notin> set (cstr bs)"
  by (induction bs) auto

lemma length_cstr_less: "0 \<in> set bs \<Longrightarrow> length (cstr bs) < length bs"
  by (induction bs) auto

lemma take_cstr: "k \<le> length (cstr bs) \<Longrightarrow> take k bs = take k (cstr bs)"
  using cstr_split [of bs] by (metis take_append diff_is_0_eq take0 append_Nil2)

lemma mem_copy_Cons: "pos < length xs \<Longrightarrow> mem_copy (Suc pos) ys (xs[pos := y]) = mem_copy pos (y # ys) xs"
  by (simp add: mem_copy_def take_Suc_conv_app_nth)

lemma strlcpy_loop_eq:
  assumes "0 \<in> set src" and "k = min (length (cstr src)) (n - 1)" and "pos + k \<le> length dst"
  shows "strlcpy_loop dst pos src n l = (mem_copy pos (take k src) dst, l + k, drop k src, n - k)"
  using assms
proof (induction src arbitrary: dst pos n l k)
  case (Cons c src)
  show ?case
  proof (cases "n > 1 \<and> c \<noteq> 0")
    case False
    then have "k = 0"
      using Cons.prems(2) by auto
    with False show ?thesis by auto
  next
    case True
    define k' where "k' = min (length (cstr src)) (n - 1 - 1)"
    have k: "k = Suc k'"
      using True Cons.prems(2) by (auto simp: k'_def)
    have "strlcpy_loop (dst[pos := c]) (Suc pos) src (n - 1) (Suc l) =
        (mem_copy (Suc pos) (take k' src) (dst[pos := c]), Suc l + k', drop k' src, n - 1 - k')"
      using True Cons.prems k by (intro Cons.IH k'_def) auto
    then show ?thesis
      using True Cons.prems(3) k by (simp add: mem_copy_Cons)
  qed
qed simp

lemma length_cstr_drop: "k \<le> length (cstr bs) \<Longrightarrow> k + length (cstr (drop k bs)) = length (cstr bs)"
proof (induction bs arbitrary: k)
  case (Cons b bs)
  then show ?case
    by (cases k) (auto split: if_splits)
qed simp

lemma mem_copy_snoc:
  "length ys = k \<Longrightarrow> pos + k < length xs \<Longrightarrow> (mem_copy pos ys xs)[pos + k := y] = mem_copy pos (ys @ [y]) xs"
  by (simp add: mem_copy_def list_update_append Cons_nth_drop_Suc [symmetric])

lemma strlcpy_at_eq:
  assumes "0 \<in> set src" and "pos + n \<le> length dst"
  shows "strlcpy_at pos dst src n = (length (cstr src),
    if n = 0 then dst else mem_copy pos (take (n - 1) (cstr src) @ [0]) dst)"
proof -
  define k where "k = min (length (cstr src)) (n - 1)"
  have k: "pos + k \<le> length dst" "k \<le> length (cstr src)"
    using assms(2) by (auto simp: k_def)
  have loop: "strlcpy_loop dst pos src n 0 = (mem_copy pos (take k src) dst, k, drop k src, n - k)"
    using strlcpy_loop_eq [OF assms(1) k_def k(1), of 0] by simp
  have "k + length (cstr (drop k src)) = length (cstr src)"
    using k(2) by (rule length_cstr_drop)
  moreover have "take k src = take (n - 1) (cstr src)"
    using take_cstr [OF k(2)] by (simp add: k_def min_def)
  moreover have "(mem_copy pos (take k src) dst)[pos + k := 0] = mem_copy pos (take k src @ [0]) dst" if "n \<noteq> 0"
  proof -
    have "length (take k src) = k"
      using k(2) length_cstr_less [OF assms(1)] by simp
    then show ?thesis
      using that assms(2) k_def by (intro mem_copy_snoc) auto
  qed
  ultimately show ?thesis
    by (auto simp: strlcpy_at_def loop strlen_eq k_def)
qed

lemma drop_mem_copy:
  "pos + length ys \<le> n \<Longrightarrow> pos \<le> length xs \<Longrightarrow> drop n (mem_copy pos ys xs) = drop n xs"
  by (simp add: mem_copy_def)

lemma cstr_take: "0 \<in> set (take n xs) \<Longrightarrow> cstr (take n xs) = cstr xs"
proof (induction xs arbitrary: n)
  case (Cons x xs)
  then show ?case
    by (cases n) auto
qed simp

lemma strlcat_scan_eq:
  "n \<le> length dst \<Longrightarrow> strlcat_scan dst n = min (length (cstr dst)) n"
proof (induction dst n rule: strlcat_scan.induct)
  case (1 c dst n)
  then show ?case by auto
qed auto

lemma cstr_mem_copy:
  "0 \<notin> set (take pos dst) \<Longrightarrow> 0 \<notin> set ys \<Longrightarrow> pos \<le> length dst \<Longrightarrow>
    cstr (mem_copy pos (ys @ [0]) dst) = take pos dst @ ys"
  by (simp add: mem_copy_def cstr_append)

text \<open>
  The bounded string copies.  With a terminated source and \<open>n\<close> bytes of room in \<open>dst\<close>,
  \<open>OPENSSL_strlcpy\<close> returns the length of the source, leaves the bytes from \<open>n\<close> on alone and stores the
  source cut to \<open>n - 1\<close> characters; \<open>OPENSSL_strlcat\<close> on a terminated \<open>dst\<close> returns the sum of the
  lengths and stores the concatenation cut to \<open>n - 1\<close>.
\<close>
theorem bounded_copies:
  assumes "0 \<in> set src" and "0 < n" and "n \<le> length dst"
  shows "fst (OPENSSL_strlcpy dst src n) = length (cstr src) \<and>
    length (snd (OPENSSL_strlcpy dst src n)) = length dst \<and>
    drop n (snd (OPENSSL_strlcpy dst src n)) = drop n dst \<and>
    cstr (snd (OPENSSL_strlcpy dst src n)) = take (n - 1) (cstr src) \<and>
    (0 \<in> set (take n dst) \<longrightarrow>
      fst (OPENSSL_strlcat dst src n) = length (cstr dst) + length (cstr src) \<and>
      drop n (snd (OPENSSL_strlcat dst src n)) = drop n dst \<and>
      cstr (snd (OPENSSL_strlcat dst src n)) = take (n - 1) (cstr dst @ cstr src))"
proof (intro conjI impI)
  let ?y = "take (n - 1) (cstr src)"
  have y0: "0 \<notin> set ?y"
    using zero_notin_cstr [of src] by (meson in_set_takeD)
  have cpy: "OPENSSL_strlcpy dst src n = (length (cstr src), mem_copy 0 (?y @ [0]) dst)"
    using strlcpy_at_eq [OF assms(1), of 0 n dst] assms by (simp add: OPENSSL_strlcpy_def)
  have leny: "length (?y @ [0 :: u8]) \<le> n"
    using assms(2) by auto
  show "fst (OPENSSL_strlcpy dst src n) = length (cstr src)"
    by (simp add: cpy)
  show "length (snd (OPENSSL_strlcpy dst src n)) = length dst"
    using leny assms(3) unfolding cpy snd_conv by (intro length_mem_copy) linarith
  show "drop n (snd (OPENSSL_strlcpy dst src n)) = drop n dst"
    using leny unfolding cpy snd_conv by (intro drop_mem_copy) simp_all
  show "cstr (snd (OPENSSL_strlcpy dst src n)) = ?y"
    using cstr_mem_copy [of 0 dst ?y] y0 by (simp add: cpy)
  assume z: "0 \<in> set (take n dst)"
  define l where "l = length (cstr dst)"
  let ?z = "take (n - l - 1) (cstr src)"
  have l: "l < n"
    using length_cstr_less [OF z] cstr_take [OF z] by (simp add: l_def)
  have scan: "strlcat_scan dst n = l"
    using strlcat_scan_eq [OF assms(3)] l by (simp add: l_def)
  have cat: "OPENSSL_strlcat dst src n = (l + length (cstr src), mem_copy l (?z @ [0]) dst)"
    using strlcpy_at_eq [OF assms(1), of l "n - l" dst] l assms(3) by (simp add: OPENSSL_strlcat_def scan Let_def)
  have lenz: "l + length (?z @ [0 :: u8]) \<le> n"
    using l by auto
  show "fst (OPENSSL_strlcat dst src n) = length (cstr dst) + length (cstr src)"
    by (simp add: cat l_def)
  show "drop n (snd (OPENSSL_strlcat dst src n)) = drop n dst"
    using lenz l assms(3) unfolding cat snd_conv by (intro drop_mem_copy) linarith+
  have "take l dst = cstr dst"
    using take_cstr [of l dst] by (simp add: l_def)
  moreover have "0 \<notin> set ?z"
    using zero_notin_cstr [of src] by (meson in_set_takeD)
  ultimately have "cstr (snd (OPENSSL_strlcat dst src n)) = cstr dst @ ?z"
    using cstr_mem_copy [of l dst ?z] zero_notin_cstr [of dst] l assms(3) by (simp add: cat)
  then show "cstr (snd (OPENSSL_strlcat dst src n)) = take (n - 1) (cstr dst @ cstr src)"
    using l by (simp add: l_def)
qed

lemma bounded_copies_witness:
  "fst (OPENSSL_strlcpy [9, 0, 9, 9] [1, 2, 3, 0] 3) = 3 \<and>
    cstr (snd (OPENSSL_strlcpy [9, 0, 9, 9] [1, 2, 3, 0] 3)) = [1, 2] \<and>
    fst (OPENSSL_strlcat [9, 0, 9, 9] [1, 2, 3, 0] 3) = 4 \<and>
    cstr (snd (OPENSSL_strlcat [9, 0, 9, 9] [1, 2, 3, 0] 3)) = [9, 1]"
  using bounded_copies [of "[1, 2, 3, 0]" 3 "[9, 0, 9, 9]"] by simp

text \<open>Case-insensitive comparison.\<close>

definition lower :: "u8 \<Rightarrow> int" where
  "lower c = OPENSSL_tolower (sint c)"

lemma lower_0_iff: "lower c = 0 \<longleftrightarrow> c = 0"
proof
  assume "lower c = 0"
  then have "sint c = 0"
    by (auto simp: lower_def OPENSSL_tolower_def split: if_splits)
  then have "sint c = sint (0 :: u8)"
    by simp
  then show "c = 0"
    by (rule signed_word_eqI)
qed (simp add: lower_def OPENSSL_tolower_def)

lemma tolower_0_iff: "OPENSSL_tolower (sint c) = 0 \<longleftrightarrow> c = 0" for c :: u8
  using lower_0_iff [of c] by (simp only: lower_def)

lemma strcasecmp_Cons:
  "OPENSSL_strcasecmp (a # as) (b # bs) =
    (if lower a < lower b then -1 else if lower a > lower b then 1 else if a = 0 then 0 else OPENSSL_strcasecmp as bs)"
  by (simp only: OPENSSL_strcasecmp.simps Let_def tolower_0_iff lower_def)

lemma strncasecmp_Cons:
  "OPENSSL_strncasecmp (a # as) (b # bs) (Suc n) =
    (if lower a < lower b then -1 else if lower a > lower b then 1 else if a = 0 then 0
     else OPENSSL_strncasecmp as bs n)"
  by (simp only: OPENSSL_strncasecmp.simps Let_def tolower_0_iff lower_def)

declare OPENSSL_strcasecmp.simps(1) [simp del] OPENSSL_strncasecmp.simps(1) [simp del]

lemma lower_eq_0: "lower a = lower b \<Longrightarrow> a = 0 \<longleftrightarrow> b = 0"
  by (metis lower_0_iff)

lemma strcasecmp_0_iff:
  "0 \<in> set as \<Longrightarrow> 0 \<in> set bs \<Longrightarrow>
    OPENSSL_strcasecmp as bs = 0 \<longleftrightarrow> map lower (cstr as) = map lower (cstr bs)"
proof (induction as arbitrary: bs)
  case (Cons a as)
  then obtain b bs' where bs: "bs = b # bs'"
    by (cases bs) auto
  show ?case
  proof (cases "lower a = lower b")
    case True
    with Cons bs lower_eq_0 [OF True] show ?thesis
      by (auto simp: strcasecmp_Cons)
  next
    case False
    then have "\<not> (a = 0 \<and> b = 0)"
      by auto
    with False show ?thesis
      by (auto simp: bs strcasecmp_Cons)
  qed
qed simp

lemma strcasecmp_swap: "OPENSSL_strcasecmp bs as = - OPENSSL_strcasecmp as bs"
proof (induction as arbitrary: bs)
  case Nil
  then show ?case by (cases bs) simp_all
next
  case (Cons a as)
  show ?case
  proof (cases bs)
    case (Cons b bs')
    show ?thesis
      using Cons.IH [of bs'] lower_eq_0 [of a b] by (auto simp: Cons strcasecmp_Cons)
  qed simp
qed

lemma strncasecmp_0_iff:
  "0 \<in> set as \<Longrightarrow> 0 \<in> set bs \<Longrightarrow>
    OPENSSL_strncasecmp as bs n = 0 \<longleftrightarrow> map lower (take n (cstr as)) = map lower (take n (cstr bs))"
proof (induction n arbitrary: as bs)
  case 0
  then show ?case by (cases as; cases bs) simp_all
next
  case (Suc n)
  then obtain a as' b bs' where c: "as = a # as'" "bs = b # bs'"
    by (cases as; cases bs) auto
  show ?case
  proof (cases "lower a = lower b")
    case True
    with Suc c lower_eq_0 [OF True] show ?thesis
      by (auto simp: strncasecmp_Cons)
  next
    case False
    then have "\<not> (a = 0 \<and> b = 0)"
      by auto
    with False show ?thesis
      by (auto simp: c strncasecmp_Cons)
  qed
qed

text \<open>
  case-insensitive comparison.  On terminated strings \<open>OPENSSL_strcasecmp\<close> is 0 exactly when the
  strings agree after ASCII lower-casing, swapping the arguments negates it, and
  \<open>OPENSSL_strncasecmp\<close> compares the first \<open>n\<close> characters.
\<close>
theorem case_insensitive_equality:
  assumes "0 \<in> set as" and "0 \<in> set bs"
  shows "(OPENSSL_strcasecmp as bs = 0 \<longleftrightarrow> map lower (cstr as) = map lower (cstr bs)) \<and>
    OPENSSL_strcasecmp bs as = - OPENSSL_strcasecmp as bs \<and>
    (OPENSSL_strncasecmp as bs n = 0 \<longleftrightarrow> map lower (take n (cstr as)) = map lower (take n (cstr bs)))"
  using strcasecmp_0_iff strncasecmp_0_iff strcasecmp_swap assms by blast

lemma case_insensitive_equality_witness:
  "OPENSSL_strcasecmp [65, 98, 0] [97, 66, 0] = 0"
  using case_insensitive_equality [of "[65, 98, 0]" "[97, 66, 0]" 0]
  by (simp add: lower_def OPENSSL_tolower_def)

lemma or_eq_0_iff: "(x :: u8) OR y = 0 \<longleftrightarrow> x = 0 \<and> y = 0"
  by (auto simp: bit_eq_iff bit_simps)

lemma xor_eq_0_iff: "(x :: u8) XOR y = 0 \<longleftrightarrow> x = y"
  by (auto simp: bit_eq_iff bit_simps)

lemma CRYPTO_memcmp_0_iff:
  "n \<le> length a \<Longrightarrow> n \<le> length b \<Longrightarrow> CRYPTO_memcmp a b n = 0 \<longleftrightarrow> take n a = take n b"
  by (induction n) (auto simp: or_eq_0_iff xor_eq_0_iff take_Suc_conv_app_nth)

text \<open>
  the constant-time comparison decides equality.  \<open>CRYPTO_memcmp\<close> over \<open>n\<close> bytes is 0 exactly when
  the first \<open>n\<close> bytes agree, and \<open>CBS_mem_equal\<close> decides equality of the whole byte strings.
\<close>
theorem constant_time_equality:
  assumes "n \<le> length a" and "n \<le> length b"
  shows "(CRYPTO_memcmp a b n = 0 \<longleftrightarrow> take n a = take n b) \<and> (CBS_mem_equal a b \<longleftrightarrow> a = b)"
proof
  show "CRYPTO_memcmp a b n = 0 \<longleftrightarrow> take n a = take n b"
    using assms by (rule CRYPTO_memcmp_0_iff)
  show "CBS_mem_equal a b \<longleftrightarrow> a = b"
    using CRYPTO_memcmp_0_iff [of "length b" a b] by (cases "length a = length b") (auto simp: CBS_mem_equal_def)
qed

lemma constant_time_equality_witness: "CRYPTO_memcmp [1, 2] [1, 3] 1 = 0 \<and> \<not> CBS_mem_equal [1, 2] [1, 3]"
  using constant_time_equality [of 1 "[1, 2]" "[1, 3]"] by simp

end
