(* ===== verification/Buf.thy ===== *)
theory Buf
  imports Mem
begin

text \<open>
  \<open>crypto/buf/buf.c\<close>: the growable buffer \<open>BUF_MEM\<close>, and the old names of the string helpers of \<open>mem.c\<close>.
  \<open>mem_data\<close> is the allocated array, \<open>max\<close> bytes of it, of which the first \<open>mem_length\<close> are the contents;
  \<open>fresh i\<close> is what \<open>realloc\<close> leaves in byte \<open>i\<close> of new memory.
\<close>

section \<open>Definitions\<close>

record buf_mem =
  mem_length :: nat
  mem_data :: bytes

definition mem_max :: "buf_mem \<Rightarrow> nat" where
  "mem_max b = length (mem_data b)"

definition sizeof_BUF_MEM :: nat where
  "sizeof_BUF_MEM = 24"

definition BUF_MEM_new :: "allocator \<Rightarrow> buf_mem option" where
  "BUF_MEM_new al = (if \<not> al sizeof_BUF_MEM then None else Some \<lparr>mem_length = 0, mem_data = []\<rparr>)"

definition realloc_data :: "(nat \<Rightarrow> u8) \<Rightarrow> bytes \<Rightarrow> nat \<Rightarrow> bytes" where
  "realloc_data fresh d n = take n d @ map fresh [length d..<n]"

text \<open>The capacity asked of the allocator: a third more, \<open>None\<close> when a step overflows.\<close>

definition reserve_size :: "nat \<Rightarrow> nat option" where
  "reserve_size sz =
     (let n = size_add sz 3
      in if n < sz then None
         else
           let n = n div 3;
               alloc_size = size_mul n 4
           in if alloc_size div 4 \<noteq> n then None else Some alloc_size)"

definition BUF_MEM_reserve :: "allocator \<Rightarrow> (nat \<Rightarrow> u8) \<Rightarrow> buf_mem \<Rightarrow> nat \<Rightarrow> bool \<times> buf_mem" where
  "BUF_MEM_reserve al fresh b sz =
     (if mem_max b \<ge> sz then (True, b)
      else case reserve_size sz of
        None \<Rightarrow> (False, b)
      | Some alloc_size \<Rightarrow>
          if \<not> al alloc_size then (False, b)
          else (True, b\<lparr>mem_data := realloc_data fresh (mem_data b) alloc_size\<rparr>))"

definition BUF_MEM_grow :: "allocator \<Rightarrow> (nat \<Rightarrow> u8) \<Rightarrow> buf_mem \<Rightarrow> nat \<Rightarrow> nat \<times> buf_mem" where
  "BUF_MEM_grow al fresh b len = (case BUF_MEM_reserve al fresh b len of
     (False, b') \<Rightarrow> (0, b')
   | (True, b') \<Rightarrow>
       let b'' = (if mem_length b' < len
                  then b'\<lparr>mem_data := mem_copy (mem_length b') (replicate (len - mem_length b') 0) (mem_data b')\<rparr>
                  else b')
       in (len, b''\<lparr>mem_length := len\<rparr>))"

definition BUF_MEM_grow_clean :: "allocator \<Rightarrow> (nat \<Rightarrow> u8) \<Rightarrow> buf_mem \<Rightarrow> nat \<Rightarrow> nat \<times> buf_mem" where
  "BUF_MEM_grow_clean al fresh b len = BUF_MEM_grow al fresh b len"

definition BUF_MEM_append :: "allocator \<Rightarrow> (nat \<Rightarrow> u8) \<Rightarrow> buf_mem \<Rightarrow> bytes \<Rightarrow> bool \<times> buf_mem" where
  "BUF_MEM_append al fresh b inp =
     (if length inp = 0 then (True, b)
      else
        let new_len = size_add (mem_length b) (length inp)
        in if new_len < length inp then (False, b)
           else case BUF_MEM_reserve al fresh b new_len of
             (False, b') \<Rightarrow> (False, b')
           | (True, b') \<Rightarrow>
               (True, b'\<lparr>mem_data := mem_copy (mem_length b') inp (mem_data b'), mem_length := new_len\<rparr>))"

definition BUF_strdup :: "allocator \<Rightarrow> bytes option \<Rightarrow> bytes option" where
  "BUF_strdup al str = OPENSSL_strdup al str"

definition BUF_strnlen :: "bytes \<Rightarrow> nat \<Rightarrow> nat" where
  "BUF_strnlen str max_len = OPENSSL_strnlen str max_len"

definition BUF_strndup :: "allocator \<Rightarrow> bytes option \<Rightarrow> nat \<Rightarrow> bytes option" where
  "BUF_strndup al str sz = OPENSSL_strndup al str sz"

definition BUF_strlcpy :: "bytes \<Rightarrow> bytes \<Rightarrow> nat \<Rightarrow> nat \<times> bytes" where
  "BUF_strlcpy dst src dst_size = OPENSSL_strlcpy dst src dst_size"

definition BUF_strlcat :: "bytes \<Rightarrow> bytes \<Rightarrow> nat \<Rightarrow> nat \<times> bytes" where
  "BUF_strlcat dst src dst_size = OPENSSL_strlcat dst src dst_size"

definition BUF_memdup :: "allocator \<Rightarrow> bytes \<Rightarrow> nat \<Rightarrow> bytes option" where
  "BUF_memdup al d sz = OPENSSL_memdup al d sz"

section \<open>Reserving\<close>

definition contents :: "buf_mem \<Rightarrow> bytes" where
  "contents b = take (mem_length b) (mem_data b)"

definition buf_mem_ok :: "buf_mem \<Rightarrow> bool" where
  "buf_mem_ok b \<longleftrightarrow> mem_length b \<le> mem_max b \<and> mem_max b \<le> SIZE_MAX"

lemma reserve_size_bounds:
  assumes "reserve_size sz = Some n" "sz \<le> SIZE_MAX"
  shows "sz \<le> n" "n \<le> SIZE_MAX" "n \<le> sz + sz div 3 + 4"
proof -
  have no_wrap: "size_add sz 3 = sz + 3"
    using assms size_add_wrap_iff [of sz 3] by (simp add: reserve_size_def Let_def SIZE_MAX_def split: if_splits)
  let ?q = "(sz + 3) div 3"
  have n: "n = size_mul ?q 4" "n div 4 = ?q"
    using assms(1) by (simp_all add: reserve_size_def Let_def no_wrap split: if_splits)
  have "n \<le> ?q * 4"
    unfolding n(1) size_mul_def by (rule mod_less_eq_dividend)
  with n(2) have "n = ?q * 4"
    using div_times_less_eq_dividend [of n 4] by simp
  moreover have "sz < ?q * 3" "?q * 3 \<le> sz + 3"
    by simp_all
  moreover have "n < 18446744073709551616"
    unfolding n(1) size_mul_def by simp
  ultimately show "sz \<le> n" "n \<le> SIZE_MAX" "n \<le> sz + sz div 3 + 4"
    by (simp_all add: SIZE_MAX_def)
qed

lemma reserve_ok:
  assumes "buf_mem_ok b" "sz \<le> SIZE_MAX" "BUF_MEM_reserve al fresh b sz = (r, b')"
  shows "buf_mem_ok b'" "mem_length b' = mem_length b" "contents b' = contents b" "r \<Longrightarrow> sz \<le> mem_max b'"
    "\<not> r \<Longrightarrow> b' = b"
proof -
  have "buf_mem_ok b' \<and> mem_length b' = mem_length b \<and> contents b' = contents b \<and> (r \<longrightarrow> sz \<le> mem_max b') \<and> (\<not> r \<longrightarrow> b' = b)"
  proof (cases "mem_max b \<ge> sz")
    case True
    with assms show ?thesis by (simp add: BUF_MEM_reserve_def)
  next
    case False
    show ?thesis
    proof (cases "reserve_size sz")
      case None
      with False assms show ?thesis by (simp add: BUF_MEM_reserve_def)
    next
      case (Some n)
      note bounds = reserve_size_bounds [OF Some assms(2)]
      have len: "length (realloc_data fresh (mem_data b) n) = n" "length (mem_data b) \<le> n"
        using False bounds by (simp_all add: realloc_data_def mem_max_def)
      have "take (mem_length b) (realloc_data fresh (mem_data b) n) = contents b"
        using assms(1) len(2) by (simp add: realloc_data_def contents_def buf_mem_ok_def mem_max_def min_absorb1)
      with False assms Some len bounds show ?thesis
        by (auto simp: BUF_MEM_reserve_def buf_mem_ok_def mem_max_def contents_def split: if_splits)
    qed
  qed
  then show "buf_mem_ok b'" "mem_length b' = mem_length b" "contents b' = contents b" "r \<Longrightarrow> sz \<le> mem_max b'"
    "\<not> r \<Longrightarrow> b' = b" by simp_all
qed

lemma reserve_growth:
  assumes "sz \<le> SIZE_MAX" "BUF_MEM_reserve al fresh b sz = (r, b')"
  shows "mem_max b' \<le> max (mem_max b) (sz + sz div 3 + 4)"
  using assms(2) reserve_size_bounds(3) [OF _ assms(1)]
  by (fastforce simp: BUF_MEM_reserve_def mem_max_def realloc_data_def le_max_iff_disj split: if_splits option.splits)

lemma grow_contents:
  assumes ok: "buf_mem_ok b" and len: "len \<le> SIZE_MAX" and grow: "BUF_MEM_grow al fresh b len = (r, b')"
  shows "buf_mem_ok b' \<and> (r = len \<and> contents b' = take len (contents b) @ replicate (len - length (contents b)) 0 \<or>
    r = 0 \<and> b' = b)"
proof -
  obtain r1 b1 where res: "BUF_MEM_reserve al fresh b len = (r1, b1)"
    by (cases "BUF_MEM_reserve al fresh b len")
  note post = reserve_ok [OF ok len res]
  show ?thesis
  proof (cases r1)
    case False
    with res grow post ok show ?thesis by (simp add: BUF_MEM_grow_def)
  next
    case True
    have b1: "len \<le> length (mem_data b1)" "take (mem_length b) (mem_data b1) = contents b"
      "mem_length b \<le> length (mem_data b1)" "length (mem_data b1) \<le> SIZE_MAX" "length (contents b) = mem_length b"
      using post True ok by (simp_all add: buf_mem_ok_def mem_max_def contents_def)
    have r: "r = len" "mem_length b' = len" "mem_data b' = (if mem_length b < len
        then mem_copy (mem_length b) (replicate (len - mem_length b) 0) (mem_data b1) else mem_data b1)"
      using grow res True post(2) by (auto simp: BUF_MEM_grow_def Let_def)
    show ?thesis
    proof (cases "mem_length b < len")
      case True
      then show ?thesis
        using r b1 by (simp add: buf_mem_ok_def mem_max_def contents_def [of b'] mem_copy_def)
    next
      case False
      then have "take len (mem_data b1) = take len (contents b)"
        using b1(2) by (metis min.absorb1 not_less take_take)
      with False show ?thesis
        using r b1 by (simp add: buf_mem_ok_def mem_max_def contents_def [of b'])
    qed
  qed
qed

lemma append_contents:
  assumes ok: "buf_mem_ok b" and len: "length inp \<le> SIZE_MAX" and app: "BUF_MEM_append al fresh b inp = (r, b')"
  shows "buf_mem_ok b' \<and> contents b' = (if r then contents b @ inp else contents b)"
proof (cases "inp = [] \<or> size_add (mem_length b) (length inp) < length inp")
  case True
  then have "BUF_MEM_append al fresh b inp = (inp = [], b)"
    by (auto simp: BUF_MEM_append_def Let_def)
  with ok app show ?thesis by auto
next
  case False
  have fits: "mem_length b \<le> length (mem_data b)" "length (mem_data b) \<le> SIZE_MAX"
    using ok by (simp_all add: buf_mem_ok_def mem_max_def)
  with False have no_wrap: "size_add (mem_length b) (length inp) = mem_length b + length inp"
    "mem_length b + length inp \<le> SIZE_MAX"
    using len size_add_wrap_iff [of "length inp" "mem_length b"]
    by (simp_all add: size_add_def add.commute SIZE_MAX_def not_less)
  obtain r1 b1 where res: "BUF_MEM_reserve al fresh b (mem_length b + length inp) = (r1, b1)"
    by (cases "BUF_MEM_reserve al fresh b (mem_length b + length inp)")
  note post = reserve_ok [OF ok no_wrap(2) res]
  show ?thesis
  proof (cases r1)
    case True
    have "mem_length b + length inp \<le> length (mem_data b1)" "length (mem_data b1) \<le> SIZE_MAX"
      "take (mem_length b) (mem_data b1) = contents b"
      using post True by (simp_all add: buf_mem_ok_def mem_max_def contents_def)
    then show ?thesis
      using True False res no_wrap post(2) fits app
      by (auto simp: BUF_MEM_append_def Let_def buf_mem_ok_def mem_max_def contents_def mem_copy_def min_def)
  next
    case r: False
    with False res no_wrap post ok app show ?thesis
      by (simp add: BUF_MEM_append_def Let_def)
  qed
qed

section \<open>Properties\<close>

text \<open>
  A \<open>BUF_MEM\<close> is its contents.  \<open>BUF_MEM_append\<close> appends and \<open>BUF_MEM_grow\<close> truncates or fills up with
  zeros, never with what the memory held before; when the length overflows or memory runs out they report it
  and the contents stay.  The contents always fit the array, which \<open>BUF_MEM_reserve\<close> makes at least as large
  as asked and at most a third larger.
\<close>

theorem buf_mem_contents:
  assumes ok: "buf_mem_ok b" and len: "len \<le> SIZE_MAX" "length inp \<le> SIZE_MAX"
  shows "(case BUF_MEM_append al fresh b inp of (r, b') \<Rightarrow>
       buf_mem_ok b' \<and> contents b' = (if r then contents b @ inp else contents b)) \<and>
    (case BUF_MEM_grow al fresh b len of (r, b') \<Rightarrow>
       buf_mem_ok b' \<and> (r = len \<and> contents b' = take len (contents b) @ replicate (len - length (contents b)) 0 \<or>
                        r = 0 \<and> b' = b)) \<and>
    (case BUF_MEM_reserve al fresh b len of (r, b') \<Rightarrow>
       buf_mem_ok b' \<and> contents b' = contents b \<and> (r \<longrightarrow> len \<le> mem_max b') \<and>
       mem_max b' \<le> max (mem_max b) (len + len div 3 + 4))"
proof (intro conjI)
  show "case BUF_MEM_append al fresh b inp of (r, b') \<Rightarrow>
      buf_mem_ok b' \<and> contents b' = (if r then contents b @ inp else contents b)"
    using append_contents [OF ok len(2)] by (cases "BUF_MEM_append al fresh b inp") simp
  show "case BUF_MEM_grow al fresh b len of (r, b') \<Rightarrow>
      buf_mem_ok b' \<and> (r = len \<and> contents b' = take len (contents b) @ replicate (len - length (contents b)) 0 \<or>
                       r = 0 \<and> b' = b)"
    using grow_contents [OF ok len(1)] by (cases "BUF_MEM_grow al fresh b len") simp
  show "case BUF_MEM_reserve al fresh b len of (r, b') \<Rightarrow>
      buf_mem_ok b' \<and> contents b' = contents b \<and> (r \<longrightarrow> len \<le> mem_max b') \<and>
      mem_max b' \<le> max (mem_max b) (len + len div 3 + 4)"
  proof (cases "BUF_MEM_reserve al fresh b len")
    case (Pair r b')
    then show ?thesis
      using reserve_ok [OF ok len(1) Pair] reserve_growth [OF len(1) Pair] by simp
  qed
qed

lemma buf_mem_contents_witness:
  "let b = the (BUF_MEM_new unlimited); b' = snd (BUF_MEM_append unlimited (\<lambda>_. 255) b [1, 2, 3])
   in mem_max b' = 8 \<and> contents b' = [1, 2, 3] \<and>
      contents (snd (BUF_MEM_grow unlimited (\<lambda>_. 255) b' 5)) = [1, 2, 3, 0, 0]"
proof -
  let ?b' = "snd (BUF_MEM_append unlimited (\<lambda>_. 255) (the (BUF_MEM_new unlimited)) [1, 2, 3])"
  have b': "mem_max ?b' = 8" "contents ?b' = [1, 2, 3]" "mem_length ?b' = 3"
    by code_simp+
  then have "buf_mem_ok ?b'"
    by (simp add: buf_mem_ok_def SIZE_MAX_def)
  from buf_mem_contents [OF this, of 5 "[]" unlimited "\<lambda>_. 255"] b'
  have "contents (snd (BUF_MEM_grow unlimited (\<lambda>_. 255) ?b' 5)) = [1, 2, 3, 0, 0] \<or> fst (BUF_MEM_grow unlimited (\<lambda>_. 255) ?b' 5) = 0"
    by (auto simp: SIZE_MAX_def case_prod_beta numeral_2_eq_2)
  moreover have "fst (BUF_MEM_grow unlimited (\<lambda>_. 255) ?b' 5) = 5"
    by code_simp
  ultimately show ?thesis
    using b' by (simp add: Let_def)
qed

end
