(* ===== verification/Stack.thy ===== *)
theory Stack
  imports Qsort
begin

text \<open>
  \<open>crypto/stack/stack.c\<close>: arrays of pointers.  A pointer is an option (\<open>None\<close> for \<open>NULL\<close>), and so is a
  stack argument.  \<open>'f\<close> names the comparison functions: the stack stores such a name, \<open>call_cmp_func\<close>
  (an argument of \<open>sk_find\<close>, as in C) runs one.  Memory is an allocator predicate.
\<close>

section \<open>State\<close>

text \<open>\<open>sk_data\<close> holds the \<open>num\<close> valid pointers of the array; \<open>num_alloc\<close> is the size of the array.\<close>

record ('a, 'f) stack =
  sk_data :: "'a option list"
  sorted_flag :: bool
  num_alloc :: nat
  comp :: "'f option"

definition kMinSize :: nat where
  "kMinSize = 4"

definition sizeof_STACK :: nat where
  "sizeof_STACK = 40"

definition sizeof_ptr :: nat where
  "sizeof_ptr = 8"

definition sk_new :: "allocator \<Rightarrow> 'f option \<Rightarrow> ('a, 'f) stack option" where
  "sk_new al comp_func =
     (if \<not> al sizeof_STACK then None
      else if \<not> al (size_mul sizeof_ptr kMinSize) then None
      else Some \<lparr>sk_data = [], sorted_flag = False, num_alloc = kMinSize, comp = comp_func\<rparr>)"

definition sk_new_null :: "allocator \<Rightarrow> ('a, 'f) stack option" where
  "sk_new_null al = sk_new al None"

definition sk_num :: "('a, 'f) stack option \<Rightarrow> nat" where
  "sk_num sk = (case sk of None \<Rightarrow> 0 | Some s \<Rightarrow> length (sk_data s))"


definition sk_value :: "('a, 'f) stack option \<Rightarrow> nat \<Rightarrow> 'a option" where
  "sk_value sk i = (case sk of
     None \<Rightarrow> None
   | Some s \<Rightarrow> if i \<ge> length (sk_data s) then None else sk_data s ! i)"

definition sk_set :: "('a, 'f) stack option \<Rightarrow> nat \<Rightarrow> 'a option \<Rightarrow> 'a option \<times> ('a, 'f) stack option" where
  "sk_set sk i value = (case sk of
     None \<Rightarrow> (None, None)
   | Some s \<Rightarrow>
       if i \<ge> length (sk_data s) then (None, Some s)
       else (value, Some (s\<lparr>sk_data := (sk_data s)[i := value]\<rparr>)))"

section \<open>Insertion and deletion\<close>

text \<open>The size of the array after \<open>sk_insert\<close> has made room: doubled, or one more when doubling
  overflows; \<open>None\<close> when that overflows too.\<close>

definition sk_new_alloc :: "nat \<Rightarrow> (nat \<times> nat) option" where
  "sk_new_alloc n =
     (let new_alloc = size_mul n 2;
          alloc_size = size_mul new_alloc sizeof_ptr;
          (new_alloc, alloc_size) =
            (if new_alloc < n \<or> alloc_size div sizeof_ptr \<noteq> new_alloc
             then (size_add n 1, size_mul (size_add n 1) sizeof_ptr)
             else (new_alloc, alloc_size))
      in if new_alloc < n \<or> alloc_size div sizeof_ptr \<noteq> new_alloc then None
         else Some (new_alloc, alloc_size))"

definition sk_grow :: "allocator \<Rightarrow> ('a, 'f) stack \<Rightarrow> ('a, 'f) stack option" where
  "sk_grow al s =
     (if num_alloc s \<le> length (sk_data s) + 1
      then (case sk_new_alloc (num_alloc s) of
              None \<Rightarrow> None
            | Some (new_alloc, alloc_size) \<Rightarrow>
                if \<not> al alloc_size then None else Some (s\<lparr>num_alloc := new_alloc\<rparr>))
      else Some s)"

text \<open>The cell behind the last pointer is free; the model shows it as \<open>None\<close> while pointers move.\<close>

definition sk_insert ::
  "allocator \<Rightarrow> ('a, 'f) stack option \<Rightarrow> 'a option \<Rightarrow> nat \<Rightarrow> nat \<times> ('a, 'f) stack option" where
  "sk_insert al sk p pos = (case sk of
     None \<Rightarrow> (0, None)
   | Some s \<Rightarrow> (case sk_grow al s of
       None \<Rightarrow> (0, Some s)
     | Some s' \<Rightarrow>
         let num = length (sk_data s');
             array = sk_data s' @ [None];
             array = (if pos \<ge> num then array[num := p]
                      else (mem_move (pos + 1) pos (num - pos) array)[pos := p])
         in (num + 1, Some (s'\<lparr>sk_data := array, sorted_flag := False\<rparr>))))"

definition sk_delete :: "('a, 'f) stack option \<Rightarrow> nat \<Rightarrow> 'a option \<times> ('a, 'f) stack option" where
  "sk_delete sk pos = (case sk of
     None \<Rightarrow> (None, None)
   | Some s \<Rightarrow>
       let num = length (sk_data s)
       in if pos \<ge> num then (None, Some s)
          else
            let ret = sk_data s ! pos;
                array = (if pos \<noteq> num - 1 then mem_move pos (pos + 1) (num - pos - 1) (sk_data s)
                         else sk_data s)
            in (ret, Some (s\<lparr>sk_data := take (num - 1) array\<rparr>)))"

text \<open>The linear searches: the first index from \<open>i\<close> on that passes the test.\<close>

fun sk_scan :: "('b \<Rightarrow> bool) \<Rightarrow> nat \<Rightarrow> 'b list \<Rightarrow> nat option" where
  "sk_scan test i [] = None"
| "sk_scan test i (x # xs) = (if test x then Some i else sk_scan test (i + 1) xs)"

definition sk_delete_ptr :: "('a, 'f) stack option \<Rightarrow> 'a option \<Rightarrow> 'a option \<times> ('a, 'f) stack option" where
  "sk_delete_ptr sk p = (case sk of
     None \<Rightarrow> (None, None)
   | Some s \<Rightarrow> (case sk_scan (\<lambda>q. q = p) 0 (sk_data s) of
       None \<Rightarrow> (None, Some s)
     | Some i \<Rightarrow> sk_delete (Some s) i))"

definition sk_shift :: "('a, 'f) stack option \<Rightarrow> 'a option \<times> ('a, 'f) stack option" where
  "sk_shift sk = (case sk of
     None \<Rightarrow> (None, None)
   | Some s \<Rightarrow> if length (sk_data s) = 0 then (None, Some s) else sk_delete (Some s) 0)"

definition sk_push :: "allocator \<Rightarrow> ('a, 'f) stack option \<Rightarrow> 'a option \<Rightarrow> nat \<times> ('a, 'f) stack option" where
  "sk_push al sk p = sk_insert al sk p (sk_num sk)"

definition sk_pop :: "('a, 'f) stack option \<Rightarrow> 'a option \<times> ('a, 'f) stack option" where
  "sk_pop sk = (case sk of
     None \<Rightarrow> (None, None)
   | Some s \<Rightarrow> if length (sk_data s) = 0 then (None, Some s) else sk_delete (Some s) (length (sk_data s) - 1))"

section \<open>Searching and sorting\<close>

text \<open>The binary search: \<open>r i\<close> is the comparison of the key with element \<open>i\<close>.\<close>

function sk_bsearch :: "(nat \<Rightarrow> int) \<Rightarrow> nat \<Rightarrow> nat \<Rightarrow> nat option" where
  "sk_bsearch r lo hi =
     (if lo < hi then
        let mid = lo + (hi - lo - 1) div 2
        in if r mid > 0 then sk_bsearch r (mid + 1) hi
           else if r mid < 0 then sk_bsearch r lo mid
           else if hi - lo = 1 then Some mid
           else sk_bsearch r lo (mid + 1)
      else None)"
  by pat_completeness auto
termination
  by (relation "measure (\<lambda>(_, lo, hi). hi - lo)") auto

declare sk_bsearch.simps [simp del]

definition sk_is_sorted :: "('a, 'f) stack option \<Rightarrow> bool" where
  "sk_is_sorted sk = (case sk of None \<Rightarrow> True | Some s \<Rightarrow> sorted_flag s)"

definition sk_find ::
  "('a, 'f) stack option \<Rightarrow> 'a option \<Rightarrow> ('f \<Rightarrow> 'a option \<Rightarrow> 'a option \<Rightarrow> int) \<Rightarrow> nat option" where
  "sk_find sk p call_cmp_func = (case sk of
     None \<Rightarrow> None
   | Some s \<Rightarrow> (case comp s of
       None \<Rightarrow> sk_scan (\<lambda>q. q = p) 0 (sk_data s)
     | Some f \<Rightarrow>
         if p = None then None
         else if \<not> sk_is_sorted (Some s)
         then sk_scan (\<lambda>elem. call_cmp_func f p elem = 0) 0 (sk_data s)
         else sk_bsearch (\<lambda>i. call_cmp_func f p (sk_data s ! i)) 0 (length (sk_data s))))"

text \<open>\<open>sk_sort\<close> calls the comparison function itself; \<open>run\<close> is what it does.\<close>

definition sk_sort :: "('f \<Rightarrow> 'a option cmp) \<Rightarrow> ('a, 'f) stack option \<Rightarrow> ('a, 'f) stack option" where
  "sk_sort run sk = (case sk of
     None \<Rightarrow> None
   | Some s \<Rightarrow> (case comp s of
       None \<Rightarrow> Some s
     | Some f \<Rightarrow>
         if sorted_flag s then Some s
         else
           let sorted_data = (if length (sk_data s) \<ge> 2 then qsort (run f) (sk_data s) else sk_data s)
           in Some (s\<lparr>sk_data := sorted_data, sorted_flag := True\<rparr>)))"


section \<open>Copying and freeing\<close>

definition sk_dup :: "allocator \<Rightarrow> ('a, 'f) stack option \<Rightarrow> ('a, 'f) stack option" where
  "sk_dup al sk = (case sk of
     None \<Rightarrow> None
   | Some s \<Rightarrow> (case sk_new al (comp s) :: ('a, 'f) stack option of
       None \<Rightarrow> None
     | Some ret \<Rightarrow>
         if \<not> al (size_mul sizeof_ptr (num_alloc s)) then None
         else Some (ret\<lparr>sk_data := sk_data s, sorted_flag := sorted_flag s, num_alloc := num_alloc s,
                        comp := comp s\<rparr>)))"

text \<open>Element functions act on a state of their own, \<open>'s\<close>.\<close>

definition sk_pop_free_ex :: "('a, 'f) stack option \<Rightarrow> ('a option \<Rightarrow> 's \<Rightarrow> 's) \<Rightarrow> 's \<Rightarrow> 's" where
  "sk_pop_free_ex sk free_func st = (case sk of
     None \<Rightarrow> st
   | Some s \<Rightarrow> foldl (\<lambda>st p. if p \<noteq> None then free_func p st else st) st (sk_data s))"

definition sk_pop_free :: "('a, 'f) stack option \<Rightarrow> ('a option \<Rightarrow> 's \<Rightarrow> 's) \<Rightarrow> 's \<Rightarrow> 's" where
  "sk_pop_free sk free_func st = sk_pop_free_ex sk free_func st"

text \<open>The copying loop: \<open>copied\<close> are the copies so far.  A failing copy frees them and yields \<open>None\<close>.\<close>

fun sk_copy_loop ::
  "('a option \<Rightarrow> 's \<Rightarrow> 'a option \<times> 's) \<Rightarrow> ('a option \<Rightarrow> 's \<Rightarrow> 's) \<Rightarrow>
   'a option list \<Rightarrow> 'a option list \<Rightarrow> 's \<Rightarrow> 'a option list option \<times> 's" where
  "sk_copy_loop copy_func free_func copied [] st = (Some copied, st)"
| "sk_copy_loop copy_func free_func copied (x # xs) st =
     (if x = None then sk_copy_loop copy_func free_func (copied @ [None]) xs st
      else case copy_func x st of
        (None, st') \<Rightarrow> (None, foldl (\<lambda>st p. if p \<noteq> None then free_func p st else st) st' copied)
      | (Some y, st') \<Rightarrow> sk_copy_loop copy_func free_func (copied @ [Some y]) xs st')"

definition sk_deep_copy ::
  "allocator \<Rightarrow> ('a, 'f) stack option \<Rightarrow> ('a option \<Rightarrow> 's \<Rightarrow> 'a option \<times> 's) \<Rightarrow> ('a option \<Rightarrow> 's \<Rightarrow> 's) \<Rightarrow>
   's \<Rightarrow> ('a, 'f) stack option \<times> 's" where
  "sk_deep_copy al sk copy_func free_func st = (case sk_dup al sk of
     None \<Rightarrow> (None, st)
   | Some ret \<Rightarrow> (case sk_copy_loop copy_func free_func [] (sk_data ret) st of
       (None, st') \<Rightarrow> (None, st')
     | (Some copied, st') \<Rightarrow> (Some (ret\<lparr>sk_data := copied\<rparr>), st')))"

section \<open>Sequences\<close>

lemma insert_array:
  "pos < length xs \<Longrightarrow>
    (mem_move (pos + 1) pos (length xs - pos) (xs @ [y]))[pos := p] = take pos xs @ p # drop pos xs"
  by (simp add: mem_move_def list_update_append take_Suc_conv_app_nth min_def)

lemma delete_array:
  "pos < length xs \<Longrightarrow>
    take (length xs - 1) (mem_move pos (pos + 1) (length xs - pos - 1) xs) = take pos xs @ drop (pos + 1) xs"
  by (cases "pos = length xs - 1") (auto simp: mem_move_def min_def not_le)

lemma sk_insert_eq:
  "sk_insert al (Some s) p pos = (case sk_grow al s of
     None \<Rightarrow> (0, Some s)
   | Some s' \<Rightarrow> (length (sk_data s) + 1,
       Some (s'\<lparr>sk_data := take pos (sk_data s) @ p # drop pos (sk_data s), sorted_flag := False\<rparr>)))"
proof (cases "sk_grow al s")
  case None
  then show ?thesis by (simp add: sk_insert_def)
next
  case (Some s')
  have d: "sk_data s' = sk_data s"
    using Some by (auto simp: sk_grow_def split: if_splits option.splits prod.splits)
  show ?thesis
  proof (cases "pos < length (sk_data s)")
    case True
    then show ?thesis
      using insert_array [OF True, of None p] by (simp add: sk_insert_def Some d Let_def)
  next
    case False
    then show ?thesis
      by (simp add: sk_insert_def Some d Let_def list_update_append)
  qed
qed

lemma sk_delete_eq:
  "sk_delete (Some s) pos =
    (if pos < length (sk_data s)
     then (sk_data s ! pos, Some (s\<lparr>sk_data := take pos (sk_data s) @ drop (pos + 1) (sk_data s)\<rparr>))
     else (None, Some s))"
proof (cases "pos < length (sk_data s)")
  case True
  moreover have "drop (Suc (length (sk_data s) - Suc 0)) (sk_data s) = []"
    by simp
  ultimately show ?thesis
    using delete_array [OF True] by (auto simp: sk_delete_def Let_def)
qed (simp add: sk_delete_def)

text \<open>The linear search returns the first hit.\<close>

lemma sk_scan_iff:
  "sk_scan test i xs = Some k \<longleftrightarrow>
    i \<le> k \<and> k - i < length xs \<and> test (xs ! (k - i)) \<and> (\<forall>j < k - i. \<not> test (xs ! j))"
proof (induction xs arbitrary: i)
  case (Cons x xs)
  show ?case
  proof (cases "test x")
    case True
    then have "i \<le> k \<and> (\<forall>j < k - i. \<not> test ((x # xs) ! j)) \<longleftrightarrow> k = i \<or> False \<and> k = k" if "i \<le> k"
      using that by (auto dest: spec [of _ 0])
    with True show ?thesis
      by (auto dest: spec [of _ 0])
  next
    case False
    have "i + 1 \<le> k \<and> k - (i + 1) < length xs \<and> test (xs ! (k - (i + 1))) \<and> (\<forall>j < k - (i + 1). \<not> test (xs ! j)) \<longleftrightarrow>
        i \<le> k \<and> k - i < length (x # xs) \<and> test ((x # xs) ! (k - i)) \<and> (\<forall>j < k - i. \<not> test ((x # xs) ! j))"
    proof (cases "k - i")
      case 0
      with False show ?thesis by auto
    next
      case (Suc m)
      then have "k - (i + 1) = m" "i + 1 \<le> k" by auto
      with False Suc show ?thesis
        by (auto simp: less_Suc_eq_0_disj)
    qed
    with False Cons.IH [of "i + 1"] show ?thesis by simp
  qed
qed simp


section \<open>The array never overflows\<close>









section \<open>The reachable stacks\<close>




lemma sk_delete_total: "\<exists>x s'. sk_delete (Some s) pos = (x, Some s')"
  by (simp add: sk_delete_eq)









section \<open>Properties\<close>


text \<open>A comparison of numbers, with \<open>NULL\<close> first, and a stack that has been sorted.\<close>

definition demo_cmp :: "unit \<Rightarrow> nat option cmp" where
  "demo_cmp u a b = (case a of None \<Rightarrow> (case b of None \<Rightarrow> 0 | Some _ \<Rightarrow> - 1)
     | Some x \<Rightarrow> (case b of None \<Rightarrow> 1 | Some y \<Rightarrow> int (x div 10) - int (y div 10)))"


definition demo_pushes :: "nat list \<Rightarrow> (nat, unit) stack \<Rightarrow> (nat, unit) stack" where
  "demo_pushes xs s = foldl (\<lambda>s x. the (snd (sk_push unlimited (Some s) (Some x)))) s xs"

definition demo_stack :: "(nat, unit) stack" where
  "demo_stack = the (sk_sort demo_cmp (Some (demo_pushes [31, 12, 25, 13, 11] (the (sk_new unlimited (Some ()))))))"









text \<open>
  \<open>sk_set\<close> is the exception: it leaves the \<open>sorted\<close> flag set, so the binary search misses an element
  that the stack holds, here the very pointer that has just been stored.
\<close>

definition demo_set :: "(nat, unit) stack" where
  "demo_set = the (snd (sk_set (Some demo_stack) 0 (Some 99)))"

theorem stack_set_breaks_find:
  "sk_is_sorted (Some demo_set) \<and> sk_value (Some demo_set) 0 = Some 99 \<and>
   \<not> cmp_sorted (demo_cmp ()) (sk_data demo_set) \<and> sk_find (Some demo_set) (Some 99) demo_cmp = None"
proof (intro conjI)
  have d: "sk_data demo_set = [Some 99, Some 13, Some 11, Some 25, Some 31]"
    by code_simp
  show "\<not> cmp_sorted (demo_cmp ()) (sk_data demo_set)"
    unfolding d by (simp add: cmp_sorted_def demo_cmp_def)
  show "sk_is_sorted (Some demo_set)" "sk_value (Some demo_set) 0 = Some 99"
    "sk_find (Some demo_set) (Some 99) demo_cmp = None"
    by code_simp+
qed

lemma remove1_first:
  "sk_scan (\<lambda>q. q = p) 0 xs = Some i \<Longrightarrow> remove1 p xs = take i xs @ drop (i + 1) xs"
proof -
  assume "sk_scan (\<lambda>q. q = p) 0 xs = Some i"
  then have i: "i < length xs" "xs ! i = p" and "\<forall>j < i. xs ! j \<noteq> p"
    by (simp_all add: sk_scan_iff)
  then have "p \<notin> set (take i xs)"
    by (auto simp: in_set_conv_nth)
  then show ?thesis
    using id_take_nth_drop [OF i(1)] i(2) remove1_append [of p "take i xs" "p # drop (Suc i) xs"] by simp
qed

lemma sk_scan_none: "sk_scan test i xs = None \<longleftrightarrow> (\<forall>x \<in> set xs. \<not> test x)"
  by (induction xs arbitrary: i) auto

lemma sk_delete_ptr_eq:
  "sk_delete_ptr (Some s) p =
    (if p \<in> set (sk_data s) then (p, Some (s\<lparr>sk_data := remove1 p (sk_data s)\<rparr>)) else (None, Some s))"
proof (cases "sk_scan (\<lambda>q. q = p) 0 (sk_data s)")
  case None
  then have "p \<notin> set (sk_data s)"
    unfolding sk_scan_none by blast
  with None show ?thesis by (simp add: sk_delete_ptr_def)
next
  case (Some i)
  then have "i < length (sk_data s)" "sk_data s ! i = p"
    by (simp_all add: sk_scan_iff)
  with Some show ?thesis
    by (auto simp: sk_delete_ptr_def sk_delete_eq remove1_first [OF Some])
qed

text \<open>
  A stack behaves as the list of its pointers: \<open>sk_insert\<close> puts one in at an index (at the end, when
  the index is too large) or, out of memory, returns 0 and changes nothing; \<open>sk_push\<close> appends,
  \<open>sk_delete\<close>, \<open>sk_pop\<close> and \<open>sk_shift\<close> remove and return an element, \<open>sk_delete_ptr\<close> the first equal one.
\<close>

theorem stack_as_list:
  "map_option sk_data (snd (sk_insert al (Some s) p pos)) =
     Some (if fst (sk_insert al (Some s) p pos) = 0 then sk_data s
           else take pos (sk_data s) @ p # drop pos (sk_data s)) \<and>
   map_option sk_data (snd (sk_push al (Some s) p)) =
     Some (if fst (sk_push al (Some s) p) = 0 then sk_data s else sk_data s @ [p]) \<and>
   (fst (sk_insert al (Some s) p pos) = 0 \<longleftrightarrow> sk_grow al s = None) \<and>
   fst (sk_delete (Some s) pos) = sk_value (Some s) pos \<and>
   map_option sk_data (snd (sk_delete (Some s) pos)) = Some (take pos (sk_data s) @ drop (pos + 1) (sk_data s)) \<and>
   fst (sk_pop (Some s)) = (if sk_data s = [] then None else last (sk_data s)) \<and>
   map_option sk_data (snd (sk_pop (Some s))) = Some (butlast (sk_data s)) \<and>
   fst (sk_shift (Some s)) = (if sk_data s = [] then None else hd (sk_data s)) \<and>
   map_option sk_data (snd (sk_shift (Some s))) = Some (tl (sk_data s)) \<and>
   fst (sk_delete_ptr (Some s) p) = (if p \<in> set (sk_data s) then p else None) \<and>
   map_option sk_data (snd (sk_delete_ptr (Some s) p)) = Some (remove1 p (sk_data s))"
proof (intro conjI)
  show "map_option sk_data (snd (sk_insert al (Some s) p pos)) =
     Some (if fst (sk_insert al (Some s) p pos) = 0 then sk_data s
           else take pos (sk_data s) @ p # drop pos (sk_data s))"
    "map_option sk_data (snd (sk_push al (Some s) p)) =
     Some (if fst (sk_push al (Some s) p) = 0 then sk_data s else sk_data s @ [p])"
    "fst (sk_insert al (Some s) p pos) = 0 \<longleftrightarrow> sk_grow al s = None"
    by (simp_all add: sk_push_def sk_num_def sk_insert_eq split: option.splits)
  show "fst (sk_delete (Some s) pos) = sk_value (Some s) pos"
    "map_option sk_data (snd (sk_delete (Some s) pos)) = Some (take pos (sk_data s) @ drop (pos + 1) (sk_data s))"
    by (simp_all add: sk_delete_eq sk_value_def)
  show "fst (sk_pop (Some s)) = (if sk_data s = [] then None else last (sk_data s))"
    "map_option sk_data (snd (sk_pop (Some s))) = Some (butlast (sk_data s))"
    by (simp_all add: sk_pop_def sk_delete_eq last_conv_nth butlast_conv_take)
  show "fst (sk_shift (Some s)) = (if sk_data s = [] then None else hd (sk_data s))"
    "map_option sk_data (snd (sk_shift (Some s))) = Some (tl (sk_data s))"
    by (simp_all add: sk_shift_def sk_delete_eq hd_conv_nth drop_Suc)
  show "fst (sk_delete_ptr (Some s) p) = (if p \<in> set (sk_data s) then p else None)"
    "map_option sk_data (snd (sk_delete_ptr (Some s) p)) = Some (remove1 p (sk_data s))"
    by (simp_all add: sk_delete_ptr_eq remove1_idem)
qed

text \<open>The live objects of a program as a multiset: a copy adds one, freeing takes it away.\<close>

definition live :: "'a option list \<Rightarrow> 'a multiset" where
  "live ps = mset (map the (filter (\<lambda>p. p \<noteq> None) ps))"

definition live_copy :: "('a option \<Rightarrow> 'a multiset \<Rightarrow> 'a option) \<Rightarrow> 'a option \<Rightarrow> 'a multiset \<Rightarrow> 'a option \<times> 'a multiset" where
  "live_copy c p H = (case c p H of None \<Rightarrow> (None, H) | Some y \<Rightarrow> (Some y, add_mset y H))"

definition live_free :: "'a option \<Rightarrow> 'a multiset \<Rightarrow> 'a multiset" where
  "live_free p H = H - {#the p#}"

lemma live_simps [simp]:
  "live [] = {#}" "live (None # ps) = live ps" "live (Some x # ps) = add_mset x (live ps)"
  "live (ps @ qs) = live ps + live qs"
  by (simp_all add: live_def)

lemma free_all: "foldl (\<lambda>st p. if p \<noteq> None then live_free p st else st) (H + live ps) ps = H"
proof (induction ps arbitrary: H)
  case (Cons p ps)
  then show ?case by (cases p) (simp_all add: live_free_def)
qed simp

lemma copy_loop_live:
  "sk_copy_loop (live_copy c) live_free done' xs (H + live done') = (r, H') \<Longrightarrow>
    (case r of None \<Rightarrow> H' = H
     | Some ys \<Rightarrow> H' = H + live ys \<and>
         (\<exists>zs. ys = done' @ zs \<and> list_all2 (\<lambda>x z. x = None \<longleftrightarrow> z = None) xs zs))"
proof (induction xs arbitrary: done')
  case Nil
  then show ?case by auto
next
  case (Cons x xs)
  show ?case
  proof (cases "x = None")
    case True
    with Cons.prems Cons.IH [of "done' @ [None]"] show ?thesis
      by (auto split: option.splits)
  next
    case False
    show ?thesis
    proof (cases "c x (H + live done')")
      case None
      with Cons.prems False show ?thesis
        using free_all [of H done'] by (simp add: live_copy_def)
    next
      case (Some y)
      with Cons.prems False Cons.IH [of "done' @ [Some y]"] show ?thesis
        by (auto simp: live_copy_def split: option.splits)
    qed
  qed
qed

text \<open>
  \<open>sk_deep_copy\<close> copies all or nothing.  When it succeeds, every pointer has been replaced by its copy,
  \<open>NULL\<close> staying \<open>NULL\<close>, and exactly the copies of the result are live in addition; when an element
  cannot be copied, every copy already made has been freed, and nothing else.  \<open>sk_pop_free\<close> frees exactly
  the elements of the stack.
\<close>

theorem stack_deep_copy_no_leak:
  "(case sk_deep_copy al (Some s) (live_copy c) live_free H of
      (None, H') \<Rightarrow> H' = H
    | (Some t, H') \<Rightarrow> H' = H + live (sk_data t) \<and>
        list_all2 (\<lambda>x z. x = None \<longleftrightarrow> z = None) (sk_data s) (sk_data t) \<and> comp t = comp s) \<and>
   sk_pop_free (Some s) live_free (H + live (sk_data s)) = H"
proof
  show "sk_pop_free (Some s) live_free (H + live (sk_data s)) = H"
    using free_all [of H "sk_data s"] by (simp add: sk_pop_free_def sk_pop_free_ex_def)
  show "case sk_deep_copy al (Some s) (live_copy c) live_free H of
      (None, H') \<Rightarrow> H' = H
    | (Some t, H') \<Rightarrow> H' = H + live (sk_data t) \<and>
        list_all2 (\<lambda>x z. x = None \<longleftrightarrow> z = None) (sk_data s) (sk_data t) \<and> comp t = comp s"
  proof (cases "sk_dup al (Some s)")
    case None
    then show ?thesis by (simp add: sk_deep_copy_def)
  next
    case (Some ret)
    then have d: "sk_data ret = sk_data s" "comp ret = comp s"
      by (auto simp: sk_dup_def split: option.splits if_splits)
    obtain r H' where l: "sk_copy_loop (live_copy c) live_free [] (sk_data s) H = (r, H')"
      by (cases "sk_copy_loop (live_copy c) live_free [] (sk_data s) H")
    with copy_loop_live [of c "[]" "sk_data s" H r H'] show ?thesis
      by (simp add: sk_deep_copy_def Some d split: option.splits)
  qed
qed

end
