(* ===== verification/Lhash.thy ===== *)
theory Lhash
  imports Mem "HOL-Library.Multiset"
begin

text \<open>
  \<open>crypto/lhash/lhash.c\<close>: the chained hash table.  A chain is the list of its items and the bucket array
  a list of chains, so \<open>num_buckets\<close> is its length.  A pointer to a \<open>next\<close> pointer is a bucket and a
  position in its chain (the length of the chain for the final \<open>NULL\<close>).  \<open>'f\<close> and \<open>'h\<close> name the stored
  comparison and hash functions, which the helpers \<open>call_cmp_func\<close> and \<open>call_hash_func\<close> run.
\<close>

section \<open>State\<close>

record 'a lhash_item =
  item_data :: 'a
  item_hash :: u32

record ('a, 'h, 'f) lhash =
  num_items :: nat
  buckets :: "'a lhash_item list list"
  callback_depth :: u32
  comp :: 'f
  hash :: 'h

definition kMinNumBuckets :: nat where
  "kMinNumBuckets = 16"

definition kMaxAverageChainLength :: nat where
  "kMaxAverageChainLength = 2"

definition kMinAverageChainLength :: nat where
  "kMinAverageChainLength = 1"

definition num_buckets :: "('a, 'h, 'f) lhash \<Rightarrow> nat" where
  "num_buckets lh = length (buckets lh)"

definition sizeof_LHASH :: nat where
  "sizeof_LHASH = 48"

definition sizeof_LHASH_ITEM :: nat where
  "sizeof_LHASH_ITEM = 24"

definition sizeof_LHASH_ITEM_ptr :: nat where
  "sizeof_LHASH_ITEM_ptr = 8"

definition lh_new :: "allocator \<Rightarrow> 'h \<Rightarrow> 'f \<Rightarrow> ('a, 'h, 'f) lhash option" where
  "lh_new al hash_func comp_func =
     (if \<not> al sizeof_LHASH then None
      else if \<not> al (size_mul sizeof_LHASH_ITEM_ptr kMinNumBuckets) then None
      else Some \<lparr>num_items = 0, buckets = replicate kMinNumBuckets [], callback_depth = 0,
                 comp = comp_func, hash = hash_func\<rparr>)"

definition lh_num_items :: "('a, 'h, 'f) lhash \<Rightarrow> nat" where
  "lh_num_items lh = num_items lh"

section \<open>Lookup\<close>

text \<open>The walk along a chain up to the first item that matches.\<close>

fun chain_pos :: "('a \<Rightarrow> bool) \<Rightarrow> 'a lhash_item list \<Rightarrow> nat" where
  "chain_pos test [] = 0"
| "chain_pos test (cur # rest) = (if test (item_data cur) then 0 else Suc (chain_pos test rest))"

definition get_next_ptr_and_hash ::
  "('a, 'h, 'f) lhash \<Rightarrow> 'a \<Rightarrow> ('h \<Rightarrow> 'a \<Rightarrow> u32) \<Rightarrow> ('f \<Rightarrow> 'a \<Rightarrow> 'a \<Rightarrow> int) \<Rightarrow> u32 \<times> nat \<times> nat" where
  "get_next_ptr_and_hash lh data call_hash_func call_cmp_func =
     (let hash_value = call_hash_func (hash lh) data;
          b = unat hash_value mod num_buckets lh
      in (hash_value, b, chain_pos (\<lambda>cur. call_cmp_func (comp lh) cur data = 0) (buckets lh ! b)))"

definition get_next_ptr_by_key ::
  "('a, 'h, 'f) lhash \<Rightarrow> 'k \<Rightarrow> u32 \<Rightarrow> ('k \<Rightarrow> 'a \<Rightarrow> int) \<Rightarrow> nat \<times> nat" where
  "get_next_ptr_by_key lh key key_hash cmp_key =
     (let b = unat key_hash mod num_buckets lh
      in (b, chain_pos (\<lambda>cur. cmp_key key cur = 0) (buckets lh ! b)))"

definition lh_retrieve ::
  "('a, 'h, 'f) lhash \<Rightarrow> 'a \<Rightarrow> ('h \<Rightarrow> 'a \<Rightarrow> u32) \<Rightarrow> ('f \<Rightarrow> 'a \<Rightarrow> 'a \<Rightarrow> int) \<Rightarrow> 'a option" where
  "lh_retrieve lh data call_hash_func call_cmp_func =
     (case get_next_ptr_and_hash lh data call_hash_func call_cmp_func of (_, b, pos) \<Rightarrow>
       if pos = length (buckets lh ! b) then None else Some (item_data (buckets lh ! b ! pos)))"

definition lh_retrieve_key ::
  "('a, 'h, 'f) lhash \<Rightarrow> 'k \<Rightarrow> u32 \<Rightarrow> ('k \<Rightarrow> 'a \<Rightarrow> int) \<Rightarrow> 'a option" where
  "lh_retrieve_key lh key key_hash cmp_key =
     (case get_next_ptr_by_key lh key key_hash cmp_key of (b, pos) \<Rightarrow>
       if pos = length (buckets lh ! b) then None else Some (item_data (buckets lh ! b ! pos)))"

section \<open>Resizing\<close>

definition rebucket_item :: "nat \<Rightarrow> 'a lhash_item list list \<Rightarrow> 'a lhash_item \<Rightarrow> 'a lhash_item list list" where
  "rebucket_item n new_buckets cur =
     (let new_bucket = unat (item_hash cur) mod n
      in new_buckets[new_bucket := cur # new_buckets ! new_bucket])"

definition lh_rebucket :: "allocator \<Rightarrow> ('a, 'h, 'f) lhash \<Rightarrow> nat \<Rightarrow> ('a, 'h, 'f) lhash" where
  "lh_rebucket al lh new_num_buckets =
     (let alloc_size = size_mul sizeof_LHASH_ITEM_ptr new_num_buckets
      in if alloc_size div sizeof_LHASH_ITEM_ptr \<noteq> new_num_buckets then lh
         else if \<not> al alloc_size then lh
         else lh\<lparr>buckets := foldl (foldl (rebucket_item new_num_buckets))
                              (replicate new_num_buckets []) (buckets lh)\<rparr>)"

definition lh_maybe_resize :: "allocator \<Rightarrow> ('a, 'h, 'f) lhash \<Rightarrow> ('a, 'h, 'f) lhash" where
  "lh_maybe_resize al lh =
     (if callback_depth lh > 0 then lh
      else
        let avg_chain_length = num_items lh div num_buckets lh
        in if avg_chain_length > kMaxAverageChainLength then
             let new_num_buckets = size_mul (num_buckets lh) 2
             in if new_num_buckets > num_buckets lh then lh_rebucket al lh new_num_buckets else lh
           else if avg_chain_length < kMinAverageChainLength \<and> num_buckets lh > kMinNumBuckets then
             let new_num_buckets = num_buckets lh div 2;
                 new_num_buckets = (if new_num_buckets < kMinNumBuckets then kMinNumBuckets else new_num_buckets)
             in lh_rebucket al lh new_num_buckets
           else lh)"

section \<open>Insertion, deletion, iteration\<close>

text \<open>\<open>lh_insert\<close> returns its result, \<open>*old_data\<close> and the table.\<close>

definition lh_insert ::
  "allocator \<Rightarrow> ('a, 'h, 'f) lhash \<Rightarrow> 'a \<Rightarrow> ('h \<Rightarrow> 'a \<Rightarrow> u32) \<Rightarrow> ('f \<Rightarrow> 'a \<Rightarrow> 'a \<Rightarrow> int) \<Rightarrow>
   bool \<times> 'a option \<times> ('a, 'h, 'f) lhash" where
  "lh_insert al lh data call_hash_func call_cmp_func =
     (case get_next_ptr_and_hash lh data call_hash_func call_cmp_func of (hash_value, b, pos) \<Rightarrow>
       let chain = buckets lh ! b
       in if pos \<noteq> length chain then
            (True, Some (item_data (chain ! pos)),
             lh\<lparr>buckets := (buckets lh)[b := chain[pos := (chain ! pos)\<lparr>item_data := data\<rparr>]]\<rparr>)
          else if \<not> al sizeof_LHASH_ITEM then (False, None, lh)
          else
            let item = \<lparr>item_data = data, item_hash = hash_value\<rparr>
            in (True, None,
                lh_maybe_resize al (lh\<lparr>buckets := (buckets lh)[b := chain @ [item]],
                                       num_items := size_add (num_items lh) 1\<rparr>)))"

definition size_dec :: "nat \<Rightarrow> nat" where
  "size_dec n = (if n = 0 then SIZE_MAX else n - 1)"

definition lh_delete ::
  "allocator \<Rightarrow> ('a, 'h, 'f) lhash \<Rightarrow> 'a \<Rightarrow> ('h \<Rightarrow> 'a \<Rightarrow> u32) \<Rightarrow> ('f \<Rightarrow> 'a \<Rightarrow> 'a \<Rightarrow> int) \<Rightarrow>
   'a option \<times> ('a, 'h, 'f) lhash" where
  "lh_delete al lh data call_hash_func call_cmp_func =
     (case get_next_ptr_and_hash lh data call_hash_func call_cmp_func of (_, b, pos) \<Rightarrow>
       let chain = buckets lh ! b
       in if pos = length chain then (None, lh)
          else
            (Some (item_data (chain ! pos)),
             lh_maybe_resize al (lh\<lparr>buckets := (buckets lh)[b := take pos chain @ drop (pos + 1) chain],
                                    num_items := size_dec (num_items lh)\<rparr>)))"

text \<open>Iteration with a callback that leaves the table alone: it acts on a state of its own.\<close>

definition lh_doall_arg ::
  "allocator \<Rightarrow> ('a, 'h, 'f) lhash option \<Rightarrow> ('a \<Rightarrow> 's \<Rightarrow> 's) \<Rightarrow> 's \<Rightarrow> 's \<times> ('a, 'h, 'f) lhash option" where
  "lh_doall_arg al lh func arg = (case lh of
     None \<Rightarrow> (arg, None)
   | Some t \<Rightarrow>
       let t = (if callback_depth t < - 1 then t\<lparr>callback_depth := callback_depth t + 1\<rparr> else t);
           arg = foldl (foldl (\<lambda>arg cur. func (item_data cur) arg)) arg (buckets t);
           t = (if callback_depth t < - 1 then t\<lparr>callback_depth := callback_depth t - 1\<rparr> else t)
       in (arg, Some (lh_maybe_resize al t)))"

definition lh_strhash :: "bytes option \<Rightarrow> u32" where
  "lh_strhash c = (case c of None \<Rightarrow> 0 | Some s \<Rightarrow> OPENSSL_hash32 (take (strlen s) s))"

section \<open>Chains and buckets\<close>

abbreviation items :: "('a, 'h, 'f) lhash \<Rightarrow> 'a lhash_item list" where
  "items lh \<equiv> concat (buckets lh)"

lemma chain_pos_le: "chain_pos test xs \<le> length xs"
  by (induction xs) auto

lemma chain_pos_found:
  "chain_pos test xs < length xs \<Longrightarrow> test (item_data (xs ! chain_pos test xs))"
  by (induction xs) (auto split: if_splits)

lemma chain_pos_end: "chain_pos test xs = length xs \<longleftrightarrow> (\<forall>it \<in> set xs. \<not> test (item_data it))"
  by (induction xs) auto

lemma mset_concat_update:
  "i < length xss \<Longrightarrow> mset (concat (xss[i := ys])) + mset (xss ! i) = mset (concat xss) + mset ys"
proof (induction xss arbitrary: i)
  case (Cons xs xss)
  then show ?case by (cases i) (auto simp: ac_simps)
qed simp

lemma mset_take_drop: "pos < length xs \<Longrightarrow> add_mset (xs ! pos) (mset (take pos xs @ drop (pos + 1) xs)) = mset xs"
  by (metis Suc_eq_plus1 add_mset_add_single id_take_nth_drop mset.simps(2) mset_append union_mset_add_mset_right)

lemma mset_update_item:
  "pos < length xs \<Longrightarrow> add_mset (xs ! pos) (mset (xs[pos := y])) = add_mset y (mset xs)"
  by (simp add: mset_update)

text \<open>Where an item may stand: in the bucket of its hash.\<close>

definition placed :: "'a lhash_item list list \<Rightarrow> bool" where
  "placed bs \<longleftrightarrow> (\<forall>i < length bs. \<forall>it \<in> set (bs ! i). unat (item_hash it) mod length bs = i)"

lemma placed_replicate [simp]: "placed (replicate n [])"
  by (simp add: placed_def)

lemma placed_update:
  assumes "placed bs" "\<And>it. it \<in> set ys \<Longrightarrow> unat (item_hash it) mod length bs = i"
  shows "placed (bs[i := ys])"
  unfolding placed_def
proof (intro allI impI ballI)
  fix k it
  assume "k < length (bs[i := ys])" "it \<in> set (bs[i := ys] ! k)"
  with assms show "unat (item_hash it) mod length (bs[i := ys]) = k"
    by (cases "k = i") (auto simp: placed_def)
qed

lemma rebucket_item_ok:
  assumes "length bs = n" "0 < n" "placed bs"
  shows "length (rebucket_item n bs it) = n" "placed (rebucket_item n bs it)"
    "mset (concat (rebucket_item n bs it)) = add_mset it (mset (concat bs))"
proof -
  let ?i = "unat (item_hash it) mod n"
  have i: "?i < length bs"
    using assms by simp
  show "length (rebucket_item n bs it) = n"
    using assms by (simp add: rebucket_item_def Let_def)
  show "placed (rebucket_item n bs it)"
    unfolding rebucket_item_def Let_def
    by (rule placed_update [OF assms(3)]) (use assms i in \<open>auto simp: placed_def\<close>)
  have "mset (concat (rebucket_item n bs it)) + mset (bs ! ?i) = add_mset it (mset (concat bs)) + mset (bs ! ?i)"
    using mset_concat_update [OF i, of "it # bs ! ?i"] by (simp add: rebucket_item_def Let_def)
  then show "mset (concat (rebucket_item n bs it)) = add_mset it (mset (concat bs))"
    by simp
qed

lemma foldl_foldl: "foldl (foldl f) s xss = foldl f s (concat xss)"
  by (induction xss arbitrary: s) simp_all

lemma rebucket_ok:
  assumes "length bs = n" "0 < n" "placed bs"
  shows "length (foldl (rebucket_item n) bs its) = n \<and> placed (foldl (rebucket_item n) bs its) \<and>
    mset (concat (foldl (rebucket_item n) bs its)) = mset its + mset (concat bs)"
  using assms
proof (induction its arbitrary: bs)
  case (Cons it its)
  with rebucket_item_ok [OF Cons.prems, of it] show ?case by simp
qed simp

text \<open>Resizing never changes what is in the table.\<close>

definition table_size_ok :: "('a, 'h, 'f) lhash \<Rightarrow> bool" where
  "table_size_ok lh \<longleftrightarrow> kMinNumBuckets \<le> num_buckets lh \<and> num_buckets lh * sizeof_LHASH_ITEM_ptr \<le> SIZE_MAX"

definition same_content :: "('a, 'h, 'f) lhash \<Rightarrow> ('a, 'h, 'f) lhash \<Rightarrow> bool" where
  "same_content lh lh' \<longleftrightarrow> table_size_ok lh' \<and> placed (buckets lh') \<and> mset (items lh') = mset (items lh) \<and>
     num_items lh' = num_items lh \<and> callback_depth lh' = callback_depth lh \<and> comp lh' = comp lh \<and>
     hash lh' = hash lh"

lemma rebucket_same_content:
  assumes "table_size_ok lh" "placed (buckets lh)" "kMinNumBuckets \<le> n" "n \<le> SIZE_MAX"
  shows "same_content lh (lh_rebucket al lh n)"
proof (cases "size_mul sizeof_LHASH_ITEM_ptr n div sizeof_LHASH_ITEM_ptr = n \<and> al (size_mul sizeof_LHASH_ITEM_ptr n)")
  case False
  then have "lh_rebucket al lh n = lh"
    by (auto simp: lh_rebucket_def Let_def)
  with assms show ?thesis by (simp add: same_content_def)
next
  case True
  have n: "0 < n"
    using assms(3) by (simp add: kMinNumBuckets_def)
  have "n * 8 \<le> SIZE_MAX"
    using True ptr_array_fits [OF assms(4)] by (simp add: sizeof_LHASH_ITEM_ptr_def size_mul_commute)
  then show ?thesis
    using rebucket_ok [of "replicate n []" n "items lh"] assms(3) True n
    by (simp add: lh_rebucket_def Let_def same_content_def table_size_ok_def num_buckets_def
        foldl_foldl sizeof_LHASH_ITEM_ptr_def)
qed

lemma maybe_resize_same_content:
  assumes "table_size_ok lh" "placed (buckets lh)"
  shows "same_content lh (lh_maybe_resize al lh)"
proof -
  have refl: "same_content lh lh"
    using assms by (simp add: same_content_def)
  have double: "same_content lh (lh_rebucket al lh (size_mul (num_buckets lh) 2))"
    if "num_buckets lh < size_mul (num_buckets lh) 2"
  proof (rule rebucket_same_content [OF assms])
    show "kMinNumBuckets \<le> size_mul (num_buckets lh) 2"
      using that assms(1) by (simp add: table_size_ok_def)
    have "size_mul (num_buckets lh) 2 < 18446744073709551616"
      unfolding size_mul_def by (rule mod_less_divisor) simp
    then show "size_mul (num_buckets lh) 2 \<le> SIZE_MAX"
      unfolding SIZE_MAX_def by simp
  qed
  have halve: "same_content lh (lh_rebucket al lh n)" if "kMinNumBuckets \<le> n" "n \<le> num_buckets lh" for n
    by (rule rebucket_same_content [OF assms that(1)])
      (use that assms(1) in \<open>simp add: table_size_ok_def sizeof_LHASH_ITEM_ptr_def\<close>)
  have "num_buckets lh div 2 \<le> num_buckets lh" "kMinNumBuckets \<le> num_buckets lh"
    using assms(1) by (simp_all add: table_size_ok_def)
  then show ?thesis
    using refl double halve [of kMinNumBuckets] halve [of "num_buckets lh div 2"]
    by (auto simp: lh_maybe_resize_def Let_def not_less)
qed

section \<open>A table as a set of data\<close>

text \<open>What a client of the table promises: the comparison of the stored data is an equivalence, and equal
  data have the same hash.\<close>

locale lhash_keys =
  fixes h :: "'a \<Rightarrow> u32" and c :: "'a \<Rightarrow> 'a \<Rightarrow> int"
  assumes c_refl: "c x x = 0"
    and c_sym: "c x y = 0 \<Longrightarrow> c y x = 0"
    and c_trans: "c x y = 0 \<Longrightarrow> c y z = 0 \<Longrightarrow> c x z = 0"
    and c_hash: "c x y = 0 \<Longrightarrow> h x = h y"

definition members :: "('a, 'h, 'f) lhash \<Rightarrow> 'a set" where
  "members lh = item_data ` set (items lh)"

text \<open>The invariant: every item in the bucket of its hash, the hash cached, no two equal data, and
  \<open>num_items\<close> counting the items.\<close>

definition data_ok :: "('a \<Rightarrow> u32) \<Rightarrow> ('a \<Rightarrow> 'a \<Rightarrow> int) \<Rightarrow> 'a lhash_item list \<Rightarrow> bool" where
  "data_ok h c its \<longleftrightarrow> (\<forall>it \<in> set its. item_hash it = h (item_data it)) \<and> distinct (map item_data its) \<and>
     (\<forall>x \<in> item_data ` set its. \<forall>y \<in> item_data ` set its. c x y = 0 \<longrightarrow> x = y)"

definition lhash_ok :: "('a \<Rightarrow> u32) \<Rightarrow> ('a \<Rightarrow> 'a \<Rightarrow> int) \<Rightarrow> ('a, 'h, 'f) lhash \<Rightarrow> bool" where
  "lhash_ok h c lh \<longleftrightarrow> table_size_ok lh \<and> placed (buckets lh) \<and> data_ok h c (items lh) \<and>
     num_items lh = length (items lh) mod 18446744073709551616"

text \<open>All of it depends on the items up to their order only.\<close>

lemma data_ok_perm:
  assumes "mset xs = mset ys"
  shows "data_ok h c xs = data_ok h c ys"
proof -
  have "mset (map item_data xs) = mset (map item_data ys)"
    using assms by simp
  then have d: "distinct (map item_data xs) = distinct (map item_data ys)"
    using mset_eq_imp_distinct_iff by blast
  show ?thesis
    unfolding data_ok_def mset_eq_setD [OF assms] d by (rule refl)
qed

lemma lhash_okI:
  assumes "table_size_ok lh" "placed (buckets lh)" "mset (items lh) = mset xs" "data_ok h c xs"
    "num_items lh = length xs mod 18446744073709551616"
  shows "lhash_ok h c lh" "members lh = item_data ` set xs"
proof -
  show "lhash_ok h c lh"
    using assms data_ok_perm [OF assms(3)] mset_eq_length [OF assms(3)] by (simp add: lhash_ok_def)
  show "members lh = item_data ` set xs"
    unfolding members_def mset_eq_setD [OF assms(3)] by (rule refl)
qed

lemma lhash_ok_new: "lh_new al hf cf = Some lh \<Longrightarrow> lhash_ok h c lh \<and> members lh = {} \<and> callback_depth lh = 0 \<and> items lh = []"
  by (auto simp: lh_new_def lhash_ok_def data_ok_def table_size_ok_def members_def num_buckets_def
      kMinNumBuckets_def sizeof_LHASH_ITEM_ptr_def SIZE_MAX_def split: if_splits)

lemma members_mset: "members lh = item_data ` set_mset (mset (items lh))"
  unfolding members_def set_mset_mset by (rule refl)

lemma same_content_ok:
  assumes "same_content lh lh'"
  shows "lhash_ok h c lh \<Longrightarrow> lhash_ok h c lh'" "members lh' = members lh"
proof -
  have m: "mset (items lh') = mset (items lh)"
    using assms by (simp add: same_content_def)
  show "lhash_ok h c lh \<Longrightarrow> lhash_ok h c lh'"
    using assms by (intro lhash_okI(1) [OF _ _ m]) (simp_all add: lhash_ok_def same_content_def)
  show "members lh' = members lh"
    unfolding members_def mset_eq_setD [OF m] by (rule refl)
qed

text \<open>The position where an item was found, or the end of the chain where it would go.\<close>

context lhash_keys
begin

lemma chain_members:
  assumes "lhash_ok h c lh" "i < num_buckets lh" "it \<in> set (buckets lh ! i)"
  shows "item_data it \<in> members lh" "item_hash it = h (item_data it)"
    "unat (h (item_data it)) mod num_buckets lh = i"
proof -
  have it: "it \<in> set (items lh)"
    using assms(2,3) nth_mem by (fastforce simp: num_buckets_def)
  then show "item_data it \<in> members lh"
    by (simp add: members_def)
  show "item_hash it = h (item_data it)"
    using it assms(1) unfolding lhash_ok_def data_ok_def by blast
  have "placed (buckets lh)"
    using assms(1) by (simp add: lhash_ok_def)
  then have "unat (item_hash it) mod num_buckets lh = i"
    using assms(2,3) unfolding placed_def num_buckets_def by blast
  then show "unat (h (item_data it)) mod num_buckets lh = i"
    using \<open>item_hash it = h (item_data it)\<close> by simp
qed

lemma member_bucket:
  assumes "lhash_ok h c lh" "x \<in> members lh" "c x y = 0"
  shows "\<exists>it \<in> set (buckets lh ! (unat (h y) mod num_buckets lh)). item_data it = x"
proof -
  obtain it chain where "it \<in> set chain" "chain \<in> set (buckets lh)" "x = item_data it"
    using assms(2) by (auto simp: members_def)
  moreover then obtain i where "i < num_buckets lh" "buckets lh ! i = chain"
    by (auto simp: num_buckets_def in_set_conv_nth)
  ultimately have i: "i < num_buckets lh" "it \<in> set (buckets lh ! i)" "x = item_data it"
    by simp_all
  with chain_members [OF assms(1) i(1,2)] c_hash [OF assms(3)] show ?thesis by metis
qed

text \<open>Looking up \<open>y\<close> in its bucket finds the one datum equal to it, if the table has one.\<close>

lemma chain_lookup:
  assumes ok: "lhash_ok h c lh" and "b = unat (h y) mod num_buckets lh"
    and "pos = chain_pos (\<lambda>cur. c cur y = 0) (buckets lh ! b)"
  shows "b < num_buckets lh" "pos \<le> length (buckets lh ! b)"
    "pos < length (buckets lh ! b) \<Longrightarrow>
      item_data (buckets lh ! b ! pos) \<in> members lh \<and> c (item_data (buckets lh ! b ! pos)) y = 0"
    "pos = length (buckets lh ! b) \<longleftrightarrow> (\<forall>x \<in> members lh. c x y \<noteq> 0)"
proof -
  have "0 < num_buckets lh"
    using ok by (simp add: lhash_ok_def table_size_ok_def kMinNumBuckets_def)
  then show b: "b < num_buckets lh"
    using assms(2) by simp
  show "pos \<le> length (buckets lh ! b)"
    using assms(3) chain_pos_le by simp
  show "pos < length (buckets lh ! b) \<Longrightarrow>
      item_data (buckets lh ! b ! pos) \<in> members lh \<and> c (item_data (buckets lh ! b ! pos)) y = 0"
    using assms(3) chain_pos_found chain_members(1) [OF ok b] by fastforce
  show "pos = length (buckets lh ! b) \<longleftrightarrow> (\<forall>x \<in> members lh. c x y \<noteq> 0)"
    unfolding assms(3) chain_pos_end
    using chain_members(1) [OF ok b] member_bucket [OF ok, of _ y] assms(2) by blast
qed

end

section \<open>The operations on the set\<close>

text \<open>One item more, less, or replaced, up to order.\<close>

lemma bucket_update_mset:
  assumes "b < num_buckets lh" "mset chain' + X = mset (buckets lh ! b) + Y"
  shows "mset (concat ((buckets lh)[b := chain'])) + X = mset (items lh) + Y"
proof -
  let ?C = "mset (buckets lh ! b)"
  have "mset (concat ((buckets lh)[b := chain'])) + ?C = mset (items lh) + mset chain'"
    using assms(1) by (intro mset_concat_update) (simp add: num_buckets_def)
  then have "(mset (concat ((buckets lh)[b := chain'])) + X) + ?C = mset (items lh) + (mset chain' + X)"
    by (simp add: ac_simps)
  also have "\<dots> = (mset (items lh) + Y) + ?C"
    using assms(2) by (simp add: ac_simps)
  finally show ?thesis by simp
qed

lemma split_item:
  assumes "b < num_buckets lh" "it \<in> set (buckets lh ! b)"
  shows "\<exists>ms. mset (items lh) = add_mset it (mset ms)"
proof -
  have "it \<in># mset (items lh)"
    using assms by (auto simp: num_buckets_def)
  then show ?thesis
    by (metis ex_mset insert_DiffM)
qed

context lhash_keys
begin

lemma data_ok_cons:
  "data_ok h c (it # ms) \<longleftrightarrow> item_hash it = h (item_data it) \<and> data_ok h c ms \<and>
    (\<forall>x \<in> item_data ` set ms. c x (item_data it) \<noteq> 0)"
proof -
  have "x \<noteq> item_data it" if "\<forall>x \<in> item_data ` set ms. c x (item_data it) \<noteq> 0" "x \<in> item_data ` set ms" for x
    using that c_refl by blast
  then show ?thesis
    using c_sym by (auto simp: data_ok_def)
qed

lemma members_split:
  assumes "data_ok h c (it # ms)" "c (item_data it) d = 0"
  shows "item_data ` set ms = {x \<in> item_data ` set (it # ms). c x d \<noteq> 0}"
proof -
  have "c x d \<noteq> 0" if "x \<in> item_data ` set ms" for x
    using assms that c_trans [of x d "item_data it"] c_sym [of "item_data it" d] by (auto simp: data_ok_cons)
  with assms(2) show ?thesis by auto
qed

lemma replace_data_ok:
  assumes "data_ok h c (it # ms)" "c (item_data it) d = 0"
  shows "data_ok h c (it\<lparr>item_data := d\<rparr> # ms)"
proof -
  have "\<forall>x \<in> item_data ` set ms. c x d \<noteq> 0"
    using members_split [OF assms] by blast
  moreover have "item_hash it = h d" "data_ok h c ms"
    using assms(1) c_hash [OF assms(2)] by (simp_all add: data_ok_cons)
  ultimately show ?thesis by (simp add: data_ok_cons)
qed

lemma retrieve_iff:
  assumes ok: "lhash_ok h c lh" and "call_hash (hash lh) = h" "call_cmp (comp lh) = c"
  shows "lh_retrieve lh y call_hash call_cmp = Some x \<longleftrightarrow> x \<in> members lh \<and> c x y = 0"
proof -
  define b where "b = unat (h y) mod num_buckets lh"
  define pos where "pos = chain_pos (\<lambda>cur. c cur y = 0) (buckets lh ! b)"
  note look = chain_lookup [OF ok b_def pos_def]
  have eq: "lh_retrieve lh y call_hash call_cmp =
      (if pos = length (buckets lh ! b) then None else Some (item_data (buckets lh ! b ! pos)))"
    unfolding lh_retrieve_def get_next_ptr_and_hash_def assms(2,3) Let_def b_def pos_def by simp
  show ?thesis
  proof (cases "pos = length (buckets lh ! b)")
    case True
    with look(4) show ?thesis by (auto simp: eq)
  next
    case False
    let ?z = "item_data (buckets lh ! b ! pos)"
    have z: "?z \<in> members lh" "c ?z y = 0"
      using False look(2,3) by simp_all
    have "x = ?z" if "x \<in> members lh" "c x y = 0"
      using ok that z c_trans [of x y ?z] c_sym [of ?z y] unfolding lhash_ok_def data_ok_def members_def by blast
    with z False show ?thesis by (auto simp: eq)
  qed
qed

lemma insert_members:
  assumes ok: "lhash_ok h c lh" and "call_hash (hash lh) = h" "call_cmp (comp lh) = c"
    and ins: "lh_insert al lh d call_hash call_cmp = (done', old, lh')"
  shows "old = lh_retrieve lh d call_hash call_cmp"
    "done' \<longleftrightarrow> old \<noteq> None \<or> al sizeof_LHASH_ITEM"
    "\<not> done' \<Longrightarrow> lh' = lh"
    "done' \<Longrightarrow> lhash_ok h c lh' \<and> members lh' = insert d {x \<in> members lh. c x d \<noteq> 0}"
    "hash lh' = hash lh \<and> comp lh' = comp lh \<and> callback_depth lh' = callback_depth lh"
proof -
  define b where "b = unat (h d) mod num_buckets lh"
  define pos where "pos = chain_pos (\<lambda>cur. c cur d = 0) (buckets lh ! b)"
  define chain where "chain = buckets lh ! b"
  note look = chain_lookup [OF ok b_def pos_def, folded chain_def]
  have size: "table_size_ok lh" "placed (buckets lh)" and data: "data_ok h c (items lh)"
    and num: "num_items lh = length (items lh) mod 18446744073709551616"
    using ok by (simp_all add: lhash_ok_def)
  have ptr: "get_next_ptr_and_hash lh d call_hash call_cmp = (h d, b, pos)"
    unfolding get_next_ptr_and_hash_def assms(2,3) Let_def b_def pos_def by simp
  have ret: "lh_retrieve lh d call_hash call_cmp = (if pos = length chain then None else Some (item_data (chain ! pos)))"
    by (simp add: lh_retrieve_def ptr chain_def)
  have "old = lh_retrieve lh d call_hash call_cmp \<and> (done' \<longleftrightarrow> old \<noteq> None \<or> al sizeof_LHASH_ITEM) \<and>
    (\<not> done' \<longrightarrow> lh' = lh) \<and>
    (done' \<longrightarrow> lhash_ok h c lh' \<and> members lh' = insert d {x \<in> members lh. c x d \<noteq> 0}) \<and>
    hash lh' = hash lh \<and> comp lh' = comp lh \<and> callback_depth lh' = callback_depth lh"
  proof (cases "pos = length chain")
    case False
    let ?it = "chain ! pos"
    let ?chain' = "chain[pos := ?it\<lparr>item_data := d\<rparr>]"
    have pos: "pos < length chain"
      using False look(2) by simp
    then have it: "?it \<in> set (buckets lh ! b)" "item_data ?it \<in> members lh" "c (item_data ?it) d = 0"
      using look(3) by (simp_all add: chain_def)
    obtain ms where ms: "mset (items lh) = add_mset ?it (mset ms)"
      using split_item [OF look(1) it(1)] by blast
    have "mset ?chain' + {#?it#} = mset (buckets lh ! b) + {#?it\<lparr>item_data := d\<rparr>#}"
      using mset_update_item [OF pos] by (simp add: chain_def)
    from bucket_update_mset [OF look(1) this]
    have m': "mset (concat ((buckets lh)[b := ?chain'])) = mset (?it\<lparr>item_data := d\<rparr> # ms)"
      by (simp add: ms)
    have dok: "data_ok h c (?it # ms)"
      using data data_ok_perm [of "items lh" "?it # ms" h c] ms by simp
    have lh': "done'" "old = Some (item_data ?it)" "lh' = lh\<lparr>buckets := (buckets lh)[b := ?chain']\<rparr>"
      using ins False by (simp_all add: lh_insert_def ptr chain_def Let_def)
    have plc: "placed ((buckets lh)[b := ?chain'])"
    proof (rule placed_update [OF size(2)])
      fix x assume "x \<in> set ?chain'"
      then have "x \<in> set chain \<or> x = ?it\<lparr>item_data := d\<rparr>"
        using set_update_subset_insert by fastforce
      then show "unat (item_hash x) mod length (buckets lh) = b"
        using size(2) look(1) it(1) by (auto simp: placed_def num_buckets_def chain_def)
    qed
    have "length (items lh) = Suc (length ms)"
      using arg_cong [OF ms, of size] by simp
    with num lh'(3) have n': "num_items lh' = length (?it\<lparr>item_data := d\<rparr> # ms) mod 18446744073709551616"
      by simp
    have "table_size_ok lh'"
      using size(1) lh'(3) by (simp add: table_size_ok_def num_buckets_def)
    from lhash_okI [OF this _ _ replace_data_ok [OF dok it(3)] n'] plc m'
    have ok': "lhash_ok h c lh'" "members lh' = item_data ` set (?it\<lparr>item_data := d\<rparr> # ms)"
      unfolding lh'(3) by simp_all
    have mem: "members lh = item_data ` set (?it # ms)"
      unfolding members_mset ms by simp
    have "members lh' = insert d {x \<in> members lh. c x d \<noteq> 0}"
      unfolding ok'(2) mem members_split [OF dok it(3), symmetric] by simp
    moreover have "hash lh' = hash lh" "comp lh' = comp lh" "callback_depth lh' = callback_depth lh"
      unfolding lh'(3) by simp_all
    ultimately show ?thesis
      using ok'(1) lh'(1,2) ret False by (intro conjI) simp_all
  next
    case True
    show ?thesis
    proof (cases "al sizeof_LHASH_ITEM")
      case False
      with True ins ret show ?thesis by (auto simp: lh_insert_def ptr chain_def Let_def)
    next
      case al: True
      let ?it = "\<lparr>item_data = d, item_hash = h d\<rparr>"
      let ?lh = "lh\<lparr>buckets := (buckets lh)[b := chain @ [?it]], num_items := size_add (num_items lh) 1\<rparr>"
      have lh': "done'" "old = None" "lh' = lh_maybe_resize al ?lh"
        using ins True al by (simp_all add: lh_insert_def ptr chain_def Let_def)
      have none: "\<forall>x \<in> members lh. c x d \<noteq> 0"
        using True look(4) by simp
      have "mset (chain @ [?it]) + {#} = mset (buckets lh ! b) + {#?it#}"
        by (simp add: chain_def)
      from bucket_update_mset [OF look(1) this]
      have m': "mset (items ?lh) = mset (?it # items lh)"
        by simp
      have "placed ((buckets lh)[b := chain @ [?it]])"
        by (rule placed_update [OF size(2)])
          (use size(2) look(1) in \<open>auto simp: placed_def num_buckets_def chain_def b_def\<close>)
      moreover have "data_ok h c (?it # items lh)"
        using data none by (simp add: data_ok_cons members_def del: set_concat)
      moreover have "size_add (num_items lh) 1 = length (?it # items lh) mod 18446744073709551616"
        unfolding num by (simp add: size_add_def mod_Suc_eq)
      ultimately have "lhash_ok h c ?lh" "members ?lh = item_data ` set (?it # items lh)"
        using size m' lhash_okI [of ?lh "?it # items lh" h c] by (simp_all add: table_size_ok_def num_buckets_def)
      moreover have sc: "same_content ?lh lh'"
        unfolding lh' by (rule maybe_resize_same_content) (use \<open>lhash_ok h c ?lh\<close> in \<open>unfold lhash_ok_def, blast+\<close>)
      moreover have "item_data ` set (?it # items lh) = insert d {x \<in> members lh. c x d \<noteq> 0}"
        using none by (auto simp: members_def)
      ultimately show ?thesis
        using same_content_ok [OF sc] lh' ret True al by (simp add: same_content_def)
    qed
  qed
  then show "old = lh_retrieve lh d call_hash call_cmp" "done' \<longleftrightarrow> old \<noteq> None \<or> al sizeof_LHASH_ITEM"
    "\<not> done' \<Longrightarrow> lh' = lh" "done' \<Longrightarrow> lhash_ok h c lh' \<and> members lh' = insert d {x \<in> members lh. c x d \<noteq> 0}"
    "hash lh' = hash lh \<and> comp lh' = comp lh \<and> callback_depth lh' = callback_depth lh"
    by simp_all
qed

end

context lhash_keys
begin

lemma delete_members:
  assumes ok: "lhash_ok h c lh" and "call_hash (hash lh) = h" "call_cmp (comp lh) = c"
    and del: "lh_delete al lh d call_hash call_cmp = (r, lh')"
  shows "r = lh_retrieve lh d call_hash call_cmp"
    "lhash_ok h c lh' \<and> members lh' = {x \<in> members lh. c x d \<noteq> 0}"
    "hash lh' = hash lh \<and> comp lh' = comp lh \<and> callback_depth lh' = callback_depth lh"
proof -
  define b where "b = unat (h d) mod num_buckets lh"
  define pos where "pos = chain_pos (\<lambda>cur. c cur d = 0) (buckets lh ! b)"
  define chain where "chain = buckets lh ! b"
  note look = chain_lookup [OF ok b_def pos_def, folded chain_def]
  have size: "table_size_ok lh" "placed (buckets lh)" and data: "data_ok h c (items lh)"
    and num: "num_items lh = length (items lh) mod 18446744073709551616"
    using ok by (simp_all add: lhash_ok_def)
  have ptr: "get_next_ptr_and_hash lh d call_hash call_cmp = (h d, b, pos)"
    unfolding get_next_ptr_and_hash_def assms(2,3) Let_def b_def pos_def by simp
  have ret: "lh_retrieve lh d call_hash call_cmp = (if pos = length chain then None else Some (item_data (chain ! pos)))"
    by (simp add: lh_retrieve_def ptr chain_def)
  have "r = lh_retrieve lh d call_hash call_cmp \<and>
    (lhash_ok h c lh' \<and> members lh' = {x \<in> members lh. c x d \<noteq> 0}) \<and>
    hash lh' = hash lh \<and> comp lh' = comp lh \<and> callback_depth lh' = callback_depth lh"
  proof (cases "pos = length chain")
    case True
    then have "r = None" "lh' = lh" "\<forall>x \<in> members lh. c x d \<noteq> 0"
      using del look(4) by (simp_all add: lh_delete_def ptr chain_def Let_def)
    with ok ret True show ?thesis by auto
  next
    case False
    let ?it = "chain ! pos"
    let ?chain' = "take pos chain @ drop (pos + 1) chain"
    let ?lh = "lh\<lparr>buckets := (buckets lh)[b := ?chain'], num_items := size_dec (num_items lh)\<rparr>"
    have pos: "pos < length chain"
      using False look(2) by simp
    then have it: "?it \<in> set (buckets lh ! b)" "item_data ?it \<in> members lh" "c (item_data ?it) d = 0"
      using look(3) by (simp_all add: chain_def)
    obtain ms where ms: "mset (items lh) = add_mset ?it (mset ms)"
      using split_item [OF look(1) it(1)] by blast
    have "mset ?chain' + {#?it#} = mset (buckets lh ! b) + {#}"
      using mset_take_drop [OF pos] by (simp add: chain_def)
    from bucket_update_mset [OF look(1) this]
    have m': "mset (items ?lh) = mset ms"
      by (simp add: ms)
    have dok: "data_ok h c (?it # ms)"
      using data data_ok_perm [of "items lh" "?it # ms" h c] ms by simp
    have lh': "r = Some (item_data ?it)" "lh' = lh_maybe_resize al ?lh"
      using del False by (simp_all add: lh_delete_def ptr chain_def Let_def)
    have plc: "placed ((buckets lh)[b := ?chain'])"
    proof (rule placed_update [OF size(2)])
      fix x assume "x \<in> set ?chain'"
      then have "x \<in> set chain"
        by (auto dest: in_set_takeD in_set_dropD)
      then show "unat (item_hash x) mod length (buckets lh) = b"
        using size(2) look(1) unfolding placed_def num_buckets_def chain_def by blast
    qed
    have "length (items lh) = Suc (length ms)"
      using arg_cong [OF ms, of size] by simp
    then have "size_dec (num_items lh) = length ms mod 18446744073709551616"
      unfolding num by (simp add: size_dec_def SIZE_MAX_def mod_Suc)
    with lhash_okI [of ?lh ms h c] plc size(1) m' dok
    have "lhash_ok h c ?lh" "members ?lh = item_data ` set ms"
      by (simp_all add: table_size_ok_def num_buckets_def data_ok_cons)
    moreover have sc: "same_content ?lh lh'"
      unfolding lh' by (rule maybe_resize_same_content) (use \<open>lhash_ok h c ?lh\<close> in \<open>unfold lhash_ok_def, blast+\<close>)
    moreover have "item_data ` set ms = {x \<in> members lh. c x d \<noteq> 0}"
      unfolding members_split [OF dok it(3)] members_mset ms by simp
    ultimately show ?thesis
      using same_content_ok [OF sc] lh' ret False by (simp add: same_content_def)
  qed
  then show "r = lh_retrieve lh d call_hash call_cmp"
    "lhash_ok h c lh' \<and> members lh' = {x \<in> members lh. c x d \<noteq> 0}"
    "hash lh' = hash lh \<and> comp lh' = comp lh \<and> callback_depth lh' = callback_depth lh"
    by simp_all
qed

lemma retrieve_key_eq:
  assumes "lhash_ok h c lh" "call_hash (hash lh) = h" "call_cmp (comp lh) = c"
    and "key_hash = h y" "\<And>x. cmp_key k x = 0 \<longleftrightarrow> c x y = 0"
  shows "lh_retrieve_key lh k key_hash cmp_key = lh_retrieve lh y call_hash call_cmp"
proof -
  have "get_next_ptr_by_key lh k key_hash cmp_key = snd (get_next_ptr_and_hash lh y call_hash call_cmp)"
    by (simp add: get_next_ptr_by_key_def get_next_ptr_and_hash_def assms Let_def)
  then show ?thesis
    by (simp add: lh_retrieve_key_def lh_retrieve_def split: prod.splits)
qed

end

section \<open>Dictionaries\<close>

text \<open>The contract of a dictionary, and what a sequence of updates does under it: the reference is the map
  that the updates write.\<close>

datatype 'a table_op = Put 'a | Del 'a | Walk

primrec map_apply :: "('a \<Rightarrow> 'a \<Rightarrow> bool) \<Rightarrow> 'a table_op \<Rightarrow> ('a \<Rightarrow> 'a option) \<Rightarrow> ('a \<Rightarrow> 'a option)" where
  "map_apply same (Put d) m = (\<lambda>x. if same d x then Some d else m x)"
| "map_apply same (Del d) m = (\<lambda>x. if same d x then None else m x)"
| "map_apply same Walk m = m"

locale dictionary =
  fixes inv :: "'t \<Rightarrow> bool" and same :: "'a \<Rightarrow> 'a \<Rightarrow> bool" and lookup :: "'t \<Rightarrow> 'a \<Rightarrow> 'a option"
    and apply_op :: "'a table_op \<Rightarrow> 't \<Rightarrow> 't"
  assumes inv_apply: "inv t \<Longrightarrow> inv (apply_op p t)"
    and lookup_apply: "inv t \<Longrightarrow> lookup (apply_op p t) = map_apply same p (lookup t)"
begin

lemma run: "inv t \<Longrightarrow> inv (fold apply_op ps t) \<and> lookup (fold apply_op ps t) = fold (map_apply same) ps (lookup t)"
  by (induction ps arbitrary: t) (simp_all add: inv_apply lookup_apply)

end

definition table_apply ::
  "allocator \<Rightarrow> ('h \<Rightarrow> 'a \<Rightarrow> u32) \<Rightarrow> ('f \<Rightarrow> 'a \<Rightarrow> 'a \<Rightarrow> int) \<Rightarrow> 'a table_op \<Rightarrow>
   ('a, 'h, 'f) lhash \<Rightarrow> ('a, 'h, 'f) lhash" where
  "table_apply al call_hash call_cmp p lh = (case p of
     Put d \<Rightarrow> snd (snd (lh_insert al lh d call_hash call_cmp))
   | Del d \<Rightarrow> snd (lh_delete al lh d call_hash call_cmp)
   | Walk \<Rightarrow> the (snd (lh_doall_arg al (Some lh) (\<lambda>_ s. s) ())))"

text \<open>A client that passes fixed hash and comparison functions, with memory for items at least: an array
  that cannot be allocated only leaves the table as it is.\<close>

locale lhash_client =
  fixes call_hash :: "'h \<Rightarrow> 'a \<Rightarrow> u32" and call_cmp :: "'f \<Rightarrow> 'a \<Rightarrow> 'a \<Rightarrow> int" and hf :: 'h and cf :: 'f
    and al :: allocator
  assumes keys: "lhash_keys (call_hash hf) (call_cmp cf)"
    and item_memory: "al sizeof_LHASH_ITEM"
begin

definition client_ok :: "('a, 'h, 'f) lhash \<Rightarrow> bool" where
  "client_ok lh \<longleftrightarrow> lhash_ok (call_hash hf) (call_cmp cf) lh \<and> hash lh = hf \<and> comp lh = cf"

lemma doall_same_content:
  assumes "table_size_ok lh" "placed (buckets lh)"
  shows "\<exists>lh1. (lh1 = lh \<or> (\<exists>d. lh1 = lh\<lparr>callback_depth := d\<rparr>)) \<and>
    snd (lh_doall_arg al (Some lh) func arg) = Some (lh_maybe_resize al lh1)"
  by (auto simp: lh_doall_arg_def Let_def)

lemma doall_client_ok:
  assumes "client_ok lh"
  obtains lh' where "snd (lh_doall_arg al (Some lh) func arg) = Some lh'" "client_ok lh'" "members lh' = members lh"
proof -
  have ok: "table_size_ok lh" "placed (buckets lh)"
    using assms by (simp_all add: client_ok_def lhash_ok_def)
  then obtain lh1 where lh1: "lh1 = lh \<or> (\<exists>d. lh1 = lh\<lparr>callback_depth := d\<rparr>)"
    "snd (lh_doall_arg al (Some lh) func arg) = Some (lh_maybe_resize al lh1)"
    using doall_same_content [OF ok, of func arg] by (elim exE conjE)
  have "members lh1 = members lh \<and> table_size_ok lh1 \<and> placed (buckets lh1) \<and> client_ok lh1"
    using lh1(1)
  proof
    assume "\<exists>d. lh1 = lh\<lparr>callback_depth := d\<rparr>"
    then obtain d where "lh1 = lh\<lparr>callback_depth := d\<rparr>" by blast
    with assms ok show ?thesis
      by (simp add: client_ok_def lhash_ok_def members_def table_size_ok_def num_buckets_def)
  qed (use assms ok in simp)
  moreover then have sc: "same_content lh1 (lh_maybe_resize al lh1)"
    by (intro maybe_resize_same_content) simp_all
  ultimately have "client_ok (lh_maybe_resize al lh1)" "members (lh_maybe_resize al lh1) = members lh"
    using same_content_ok [OF sc] unfolding client_ok_def same_content_def by simp_all
  with lh1(2) show thesis by (rule that)
qed

lemma same_lookup:
  assumes "client_ok lh"
  shows "lh_retrieve lh y call_hash call_cmp = Some x \<longleftrightarrow> x \<in> members lh \<and> call_cmp cf x y = 0"
  using lhash_keys.retrieve_iff [OF keys, of lh call_hash call_cmp y x] assms by (simp add: client_ok_def)

lemma lookup_eqI:
  assumes "client_ok lh" "\<And>x. r = Some x \<longleftrightarrow> x \<in> members lh \<and> call_cmp cf x y = 0"
  shows "lh_retrieve lh y call_hash call_cmp = r"
  using same_lookup [OF assms(1), of y] assms(2) by (metis not_None_eq)

lemma cmp_cong: "call_cmp cf d x = 0 \<Longrightarrow> call_cmp cf z d = 0 \<longleftrightarrow> call_cmp cf z x = 0"
  using lhash_keys.c_trans [OF keys] lhash_keys.c_sym [OF keys] by blast

lemma cmp_merge: "call_cmp cf z d = 0 \<Longrightarrow> call_cmp cf z x = 0 \<Longrightarrow> call_cmp cf d x = 0"
  using lhash_keys.c_trans [OF keys] lhash_keys.c_sym [OF keys] by blast

end

sublocale lhash_client \<subseteq> dict: dictionary client_ok "\<lambda>d x. call_cmp cf d x = 0"
  "\<lambda>lh x. lh_retrieve lh x call_hash call_cmp" "table_apply al call_hash call_cmp"
proof
  fix lh :: "('a, 'h, 'f) lhash" and p
  assume ok: "client_ok lh"
  then have ok': "lhash_ok (call_hash hf) (call_cmp cf) lh" "call_hash (hash lh) = call_hash hf" "call_cmp (comp lh) = call_cmp cf"
    by (simp_all add: client_ok_def)
  have "client_ok (table_apply al call_hash call_cmp p lh) \<and>
    (\<forall>x. lh_retrieve (table_apply al call_hash call_cmp p lh) x call_hash call_cmp =
      map_apply (\<lambda>d x. call_cmp cf d x = 0) p (\<lambda>x. lh_retrieve lh x call_hash call_cmp) x)"
  proof (cases p)
    case (Put d)
    obtain done' old lh' where ins: "lh_insert al lh d call_hash call_cmp = (done', old, lh')"
      by (cases "lh_insert al lh d call_hash call_cmp")
    note post = lhash_keys.insert_members [OF keys ok' ins]
    have lh': "client_ok lh'" "members lh' = insert d {x \<in> members lh. call_cmp cf x d \<noteq> 0}"
      using post(2,4,5) item_memory ok by (simp_all add: client_ok_def)
    have "lh_retrieve lh' x call_hash call_cmp =
        (if call_cmp cf d x = 0 then Some d else lh_retrieve lh x call_hash call_cmp)" for x
      by (rule lookup_eqI [OF lh'(1)])
        (use lh'(2) cmp_cong [of d x] in \<open>auto simp: same_lookup [OF ok] dest: cmp_merge\<close>)
    with Put ins lh'(1) show ?thesis by (simp add: table_apply_def)
  next
    case (Del d)
    obtain r lh' where del: "lh_delete al lh d call_hash call_cmp = (r, lh')"
      by (cases "lh_delete al lh d call_hash call_cmp")
    note post = lhash_keys.delete_members [OF keys ok' del]
    have lh': "client_ok lh'" "members lh' = {x \<in> members lh. call_cmp cf x d \<noteq> 0}"
      using post(2,3) ok by (simp_all add: client_ok_def)
    have "lh_retrieve lh' x call_hash call_cmp =
        (if call_cmp cf d x = 0 then None else lh_retrieve lh x call_hash call_cmp)" for x
      by (rule lookup_eqI [OF lh'(1)])
        (use lh'(2) cmp_cong [of d x] in \<open>auto simp: same_lookup [OF ok] dest: cmp_merge\<close>)
    with Del del lh'(1) show ?thesis by (simp add: table_apply_def)
  next
    case Walk
    obtain lh' where "snd (lh_doall_arg al (Some lh) (\<lambda>_ s. s) ()) = Some lh'" "client_ok lh'"
      "members lh' = members lh"
      by (rule doall_client_ok [OF ok])
    with Walk ok show ?thesis
      by (simp add: table_apply_def) (metis same_lookup not_None_eq)
  qed
  then show "client_ok (table_apply al call_hash call_cmp p lh)"
    "(\<lambda>x. lh_retrieve (table_apply al call_hash call_cmp p lh) x call_hash call_cmp) =
      map_apply (\<lambda>d x. call_cmp cf d x = 0) p (\<lambda>x. lh_retrieve lh x call_hash call_cmp)"
    by (auto simp: fun_eq_iff)
qed

context lhash_client
begin

lemma new_client_ok:
  assumes "lh_new al' hf cf = Some lh"
  shows "client_ok lh" "(\<lambda>x. lh_retrieve lh x call_hash call_cmp) = (\<lambda>_. None)"
proof -
  note ok = lhash_ok_new [OF assms, of "call_hash hf" "call_cmp cf"]
  have "hash lh = hf" "comp lh = cf"
    using assms by (auto simp: lh_new_def split: if_splits)
  with ok show c: "client_ok lh"
    by (simp add: client_ok_def)
  show "(\<lambda>x. lh_retrieve lh x call_hash call_cmp) = (\<lambda>_. None)"
    using ok by (intro ext lookup_eqI [OF c]) simp
qed

lemma table_run:
  assumes "lh_new al' hf cf = Some lh"
  shows "client_ok (fold (table_apply al call_hash call_cmp) ops lh)"
    "lh_retrieve (fold (table_apply al call_hash call_cmp) ops lh) x call_hash call_cmp =
      fold (map_apply (\<lambda>d x. call_cmp cf d x = 0)) ops (\<lambda>_. None) x"
proof -
  note run = dict.run [OF new_client_ok(1) [OF assms], of ops, unfolded new_client_ok(2) [OF assms]]
  show "client_ok (fold (table_apply al call_hash call_cmp) ops lh)"
    by (rule conjunct1 [OF run])
  show "lh_retrieve (fold (table_apply al call_hash call_cmp) ops lh) x call_hash call_cmp =
      fold (map_apply (\<lambda>d x. call_cmp cf d x = 0)) ops (\<lambda>_. None) x"
    by (rule fun_cong [OF conjunct2 [OF run]])
qed

end

section \<open>The load of a table\<close>

text \<open>With memory for the arrays and no walk in progress, chains hold fewer than three items on average and
  a table of more than the minimum size is at least full once.\<close>

definition lhash_loaded :: "('a, 'h, 'f) lhash \<Rightarrow> bool" where
  "lhash_loaded lh \<longleftrightarrow> callback_depth lh = 0 \<and> num_items lh < 3 * num_buckets lh \<and>
     (num_buckets lh = kMinNumBuckets \<or> num_buckets lh \<le> num_items lh)"

lemma rebucket_size:
  fixes lh :: "('a, 'h, 'f) lhash"
  assumes "n * 8 \<le> SIZE_MAX"
  shows "num_buckets (lh_rebucket unlimited lh n) = n" "num_items (lh_rebucket unlimited lh n) = num_items lh"
    "callback_depth (lh_rebucket unlimited lh n) = callback_depth lh"
proof -
  have "size_mul sizeof_LHASH_ITEM_ptr n = 8 * n"
    using assms by (simp add: size_mul_def sizeof_LHASH_ITEM_ptr_def SIZE_MAX_def)
  moreover have "length (foldl (rebucket_item n) bs its) = length bs" for bs and its :: "'a lhash_item list"
    by (induction its arbitrary: bs) (simp_all add: rebucket_item_def Let_def)
  ultimately show "num_buckets (lh_rebucket unlimited lh n) = n" "num_items (lh_rebucket unlimited lh n) = num_items lh"
    "callback_depth (lh_rebucket unlimited lh n) = callback_depth lh"
    by (simp_all add: lh_rebucket_def Let_def num_buckets_def foldl_foldl sizeof_LHASH_ITEM_ptr_def)
qed

lemma maybe_resize_loaded:
  assumes "callback_depth lh = 0" "num_items lh \<le> 3 * num_buckets lh" "kMinNumBuckets \<le> num_buckets lh"
    "num_buckets lh = kMinNumBuckets \<or> num_buckets lh \<le> num_items lh + 1" "num_buckets lh * 16 \<le> SIZE_MAX"
  shows "lhash_loaded (lh_maybe_resize unlimited lh)" "num_items (lh_maybe_resize unlimited lh) = num_items lh"
proof -
  let ?n = "num_buckets lh" and ?k = "num_items lh"
  have n: "16 \<le> ?n"
    using assms(3) by (simp add: kMinNumBuckets_def)
  have mul: "size_mul ?n 2 = ?n * 2"
    using assms(5) by (simp add: size_mul_def SIZE_MAX_def)
  consider "?k = 3 * ?n" | "?k < 3 * ?n" "?n \<le> ?k \<or> ?n = 16" | "?k < ?n" "16 < ?n"
    using assms(2) n by linarith
  then have "lhash_loaded (lh_maybe_resize unlimited lh) \<and> num_items (lh_maybe_resize unlimited lh) = ?k"
  proof cases
    case 1
    then have "?k div ?n = 3"
      using n by simp
    then have eq: "lh_maybe_resize unlimited lh = lh_rebucket unlimited lh (?n * 2)"
      using assms(1) n by (simp add: lh_maybe_resize_def Let_def mul kMaxAverageChainLength_def)
    show ?thesis
      unfolding eq lhash_loaded_def using 1 n assms(1,5) rebucket_size [of "?n * 2" lh] by simp
  next
    case 2
    then have "?k div ?n < 3" "?n = 16 \<or> 0 < ?k div ?n"
      using n by (auto simp: less_mult_imp_div_less div_greater_zero_iff)
    then have eq: "lh_maybe_resize unlimited lh = lh"
      using assms(1) by (auto simp: lh_maybe_resize_def Let_def kMaxAverageChainLength_def
          kMinAverageChainLength_def kMinNumBuckets_def)
    show ?thesis
      unfolding eq lhash_loaded_def using 2 assms(1) by (auto simp: kMinNumBuckets_def)
  next
    case 3
    let ?m = "if ?n div 2 < 16 then 16 else ?n div 2"
    have "?k div ?n = 0"
      using 3 by simp
    then have eq: "lh_maybe_resize unlimited lh = lh_rebucket unlimited lh ?m"
      using assms(1) 3 by (simp add: lh_maybe_resize_def Let_def kMaxAverageChainLength_def
          kMinAverageChainLength_def kMinNumBuckets_def)
    have k: "?k + 1 = ?n"
      using assms(4) 3 by (simp add: kMinNumBuckets_def)
    have "?m * 8 \<le> SIZE_MAX"
      using assms(5) 3(2) by auto
    note size = rebucket_size [OF this, of lh]
    have "?k < 3 * ?m" "?m = 16 \<or> ?m \<le> ?k"
      using k 3 by auto
    with size assms(1) show ?thesis
      unfolding eq lhash_loaded_def kMinNumBuckets_def by simp
  qed
  then show "lhash_loaded (lh_maybe_resize unlimited lh)" "num_items (lh_maybe_resize unlimited lh) = num_items lh"
    by simp_all
qed

lemma table_apply_loaded:
  assumes "lhash_loaded lh" "kMinNumBuckets \<le> num_buckets lh" "num_items lh < 1000000000000"
    "num_items lh = length (items lh)"
  shows "lhash_loaded (table_apply unlimited ch cc p lh) \<and> num_items (table_apply unlimited ch cc p lh) \<le> num_items lh + 1"
proof -
  have n: "num_buckets lh \<le> 1000000000000"
    using assms by (auto simp: lhash_loaded_def kMinNumBuckets_def)
  have depth: "callback_depth lh = 0"
    using assms(1) by (simp add: lhash_loaded_def)
  have max: "(0 :: u32) < - 1" "(1 :: u32) < - 1"
    by code_simp+
  have resized: "lhash_loaded (lh_maybe_resize unlimited t) \<and> num_items (lh_maybe_resize unlimited t) \<le> num_items lh + 1"
    if "num_buckets t = num_buckets lh" "callback_depth t = 0" "num_items t \<le> num_items lh + 1"
      "num_items lh \<le> num_items t + 1" "num_buckets lh = kMinNumBuckets \<or> num_buckets lh \<le> num_items t + 1" for t
    using maybe_resize_loaded [of t] that assms(1,2) n by (simp add: lhash_loaded_def SIZE_MAX_def)
  have add: "size_add (num_items lh) 1 = num_items lh + 1"
    using assms(3) by (simp add: SIZE_MAX_def)
  have base: "num_buckets lh = kMinNumBuckets \<or> num_buckets lh \<le> num_items lh"
    using assms(1) by (simp add: lhash_loaded_def)
  show ?thesis
  proof (cases p)
    case (Put d)
    obtain hv b pos where ptr: "get_next_ptr_and_hash lh d ch cc = (hv, b, pos)"
      by (cases "get_next_ptr_and_hash lh d ch cc")
    show ?thesis
    proof (cases "pos = length (buckets lh ! b)")
      case True
      with Put ptr add show ?thesis
        using resized [of "lh\<lparr>buckets := (buckets lh)[b := buckets lh ! b @ [\<lparr>item_data = d, item_hash = hv\<rparr>]],
            num_items := num_items lh + 1\<rparr>"] depth base
        by (auto simp: table_apply_def lh_insert_def Let_def num_buckets_def)
    next
      case False
      with Put ptr assms(1) show ?thesis
        by (simp add: table_apply_def lh_insert_def Let_def lhash_loaded_def num_buckets_def)
    qed
  next
    case (Del d)
    obtain hv b pos where ptr: "get_next_ptr_and_hash lh d ch cc = (hv, b, pos)"
      by (cases "get_next_ptr_and_hash lh d ch cc")
    show ?thesis
    proof (cases "pos = length (buckets lh ! b)")
      case True
      with Del ptr assms(1) show ?thesis
        by (simp add: table_apply_def lh_delete_def Let_def)
    next
      case False
      define t where "t = lh\<lparr>buckets := (buckets lh)[b := take pos (buckets lh ! b) @ drop (pos + 1) (buckets lh ! b)],
            num_items := size_dec (num_items lh)\<rparr>"
      have eq: "table_apply unlimited ch cc p lh = lh_maybe_resize unlimited t"
        using Del ptr False by (simp add: table_apply_def lh_delete_def Let_def t_def)
      have "b < length (buckets lh)" "pos \<le> length (buckets lh ! b)"
        using ptr assms(2) chain_pos_le
        by (auto simp: kMinNumBuckets_def get_next_ptr_and_hash_def Let_def num_buckets_def
            intro!: mod_less_divisor)
      then have "buckets lh ! b \<noteq> []" "buckets lh ! b \<in> set (buckets lh)"
        using False by auto
      then have "items lh \<noteq> []"
        by auto
      then have "0 < num_items lh"
        unfolding assms(4) by (rule iffD2 [OF length_greater_0_conv])
      then have dec: "num_items t = num_items lh - 1" "0 < num_items lh"
        by (simp_all add: t_def size_dec_def)
      show ?thesis
        unfolding eq by (rule resized) (use dec depth base in \<open>auto simp: t_def num_buckets_def\<close>)
    qed
  next
    case Walk
    have same: "lh\<lparr>callback_depth := 0\<rparr> = lh"
      using depth by (cases lh) simp
    have "table_apply unlimited ch cc p lh = lh_maybe_resize unlimited lh"
      using Walk depth max by (simp add: table_apply_def lh_doall_arg_def Let_def same)
    with resized [of lh] depth base show ?thesis by auto
  qed
qed

section \<open>String tables\<close>

text \<open>\<open>strcmp\<close> of the C library: the difference of the strings up to their NULs.\<close>

fun strcmp_at :: "bytes \<Rightarrow> bytes \<Rightarrow> int" where
  "strcmp_at (x # xs) (y # ys) = (if x = y then strcmp_at xs ys else uint x - uint y)"
| "strcmp_at [] (y # ys) = - uint y"
| "strcmp_at (x # xs) [] = uint x"
| "strcmp_at [] [] = 0"

definition strcmp :: "bytes \<Rightarrow> bytes \<Rightarrow> int" where
  "strcmp a b = strcmp_at (takeWhile (\<lambda>x. x \<noteq> 0) a) (takeWhile (\<lambda>x. x \<noteq> 0) b)"

lemma strcmp_at_zero: "0 \<notin> set a \<Longrightarrow> 0 \<notin> set b \<Longrightarrow> strcmp_at a b = 0 \<longleftrightarrow> a = b"
  by (induction a b rule: strcmp_at.induct) (auto simp: uint_0_iff dest: unsigned_word_eqI)

lemma strcmp_zero: "strcmp a b = 0 \<longleftrightarrow> takeWhile (\<lambda>x. x \<noteq> 0) a = takeWhile (\<lambda>x. x \<noteq> 0) b"
  unfolding strcmp_def by (rule strcmp_at_zero) (auto dest: set_takeWhileD)

lemma take_strlen: "take (strlen s) s = takeWhile (\<lambda>x. x \<noteq> 0) s"
  by (simp add: strlen_def takeWhile_eq_take [symmetric])

text \<open>Tables of strings under \<open>lh_strhash\<close> and \<open>strcmp\<close>.\<close>

interpretation strings: lhash_keys "\<lambda>s. lh_strhash (Some s)" strcmp
  by unfold_locales (auto simp: strcmp_zero lh_strhash_def take_strlen)

interpretation string_table: lhash_client "\<lambda>u :: unit. \<lambda>s. lh_strhash (Some s)" "\<lambda>u :: unit. strcmp" "()" "()" unlimited
  by unfold_locales simp_all

section \<open>Properties\<close>

text \<open>
  C4: a hash table is the map that its updates write.  After any sequence of insertions, deletions and walks
  on a fresh table, with growing and shrinking in between (or not, where the bucket array cannot be
  allocated), \<open>lh_retrieve\<close> finds exactly the datum last inserted for a key and not deleted since;
  \<open>lh_retrieve_key\<close> finds the same, \<open>lh_insert\<close> succeeds and hands back the datum it replaces, and
  \<open>lh_delete\<close> returns the datum it removes.
\<close>

theorem lhash_refines_map:
  assumes "lhash_keys (call_hash hf) (call_cmp cf)" and "al sizeof_LHASH_ITEM"
    and "lh_new al' hf cf = Some lh"
    and "t = fold (table_apply al call_hash call_cmp) ops lh"
    and "m = fold (map_apply (\<lambda>d x. call_cmp cf d x = 0)) ops (\<lambda>_. None)"
    and "\<And>x. cmp_key k x = 0 \<longleftrightarrow> call_cmp cf x y = 0"
  shows "lh_retrieve t y call_hash call_cmp = m y \<and>
    lh_retrieve_key t k (call_hash hf y) cmp_key = m y \<and>
    (\<exists>t'. lh_insert al t y call_hash call_cmp = (True, m y, t')) \<and>
    fst (lh_delete al t y call_hash call_cmp) = m y"
proof -
  have client: "lhash_client call_hash call_cmp hf cf al"
    using assms(1,2) by (simp add: lhash_client_def)
  note run = lhash_client.table_run [OF client assms(3), of ops, folded assms(4), folded assms(5)]
  have ok: "lhash_ok (call_hash hf) (call_cmp cf) t" "call_hash (hash t) = call_hash hf" "call_cmp (comp t) = call_cmp cf"
    using run(1) by (simp_all add: lhash_client.client_ok_def [OF client])
  have get: "lh_retrieve t y call_hash call_cmp = m y"
    by (rule run(2))
  obtain done' old t' where ins: "lh_insert al t y call_hash call_cmp = (done', old, t')"
    by (cases "lh_insert al t y call_hash call_cmp")
  obtain r t2 where del: "lh_delete al t y call_hash call_cmp = (r, t2)"
    by (cases "lh_delete al t y call_hash call_cmp")
  note post = lhash_keys.insert_members(1,2) [OF assms(1) ok ins] lhash_keys.delete_members(1) [OF assms(1) ok del]
  moreover have "lh_retrieve_key t k (call_hash hf y) cmp_key = m y"
    using lhash_keys.retrieve_key_eq [where h = "call_hash hf" and c = "call_cmp cf" and lh = t and y = y
        and call_hash = call_hash and call_cmp = call_cmp and cmp_key = cmp_key and k = k, OF assms(1) ok refl assms(6)] get by simp
  ultimately show ?thesis
    using assms(2) by (simp add: get ins del)
qed

definition demo_word :: "string \<Rightarrow> bytes" where
  "demo_word s = map (\<lambda>ch. of_nat (of_char ch)) s @ [0]"

definition demo_ops :: "bytes table_op list" where
  "demo_ops = [Put (demo_word ''GET''), Put (demo_word ''PUT''), Walk, Del (demo_word ''GET''), Put (demo_word ''POST'')]"

lemma lhash_refines_map_witness:
  "lh_retrieve (fold (table_apply unlimited (\<lambda>_ s. lh_strhash (Some s)) (\<lambda>_. strcmp)) demo_ops
      (the (lh_new unlimited () ()))) (demo_word ''PUT'') (\<lambda>_ s. lh_strhash (Some s)) (\<lambda>_. strcmp) =
    Some (demo_word ''PUT'') \<and>
   fold (map_apply (\<lambda>d x. strcmp d x = 0)) demo_ops (\<lambda>_. None) (demo_word ''GET'') = None"
proof -
  have new: "lh_new unlimited () () = Some (the (lh_new unlimited () ()) :: (bytes, unit, unit) lhash)"
    by (simp add: lh_new_def)
  have "fold (map_apply (\<lambda>d x. strcmp d x = 0)) demo_ops (\<lambda>_. None) (demo_word ''PUT'') = Some (demo_word ''PUT'')"
    "fold (map_apply (\<lambda>d x. strcmp d x = 0)) demo_ops (\<lambda>_. None) (demo_word ''GET'') = None"
    by code_simp+
  moreover note conjunct1 [OF lhash_refines_map [of "\<lambda>_ s. lh_strhash (Some s)" "()" "\<lambda>_. strcmp" "()" unlimited unlimited
        _ _ demo_ops, OF string_table.keys TrueI new refl refl, of "\<lambda>k x. strcmp x k" "demo_word ''PUT''" "demo_word ''PUT''"]]
  ultimately show ?thesis
    by (simp only: simp_thms)
qed

context lhash_client
begin

lemma card_apply:
  assumes "client_ok lh"
  shows "card (members (table_apply al call_hash call_cmp p lh)) \<le> card (members lh) + 1"
proof -
  have ok: "lhash_ok (call_hash hf) (call_cmp cf) lh" "call_hash (hash lh) = call_hash hf" "call_cmp (comp lh) = call_cmp cf"
    using assms by (simp_all add: client_ok_def)
  have fin: "finite (members lh)"
    by (simp add: members_def)
  have sub: "card {x \<in> members lh. call_cmp cf x d \<noteq> 0} \<le> card (members lh)" for d
    using fin by (intro card_mono) auto
  show ?thesis
  proof (cases p)
    case (Put d)
    obtain done' old lh' where ins: "lh_insert al lh d call_hash call_cmp = (done', old, lh')"
      by (cases "lh_insert al lh d call_hash call_cmp")
    have "members lh' = insert d {x \<in> members lh. call_cmp cf x d \<noteq> 0}"
      using lhash_keys.insert_members(2,4) [OF keys ok ins] item_memory by blast
    with Put ins sub [of d] show ?thesis
      by (simp add: table_apply_def card_insert_if fin)
  next
    case (Del d)
    obtain r lh' where del: "lh_delete al lh d call_hash call_cmp = (r, lh')"
      by (cases "lh_delete al lh d call_hash call_cmp")
    have "members lh' = {x \<in> members lh. call_cmp cf x d \<noteq> 0}"
      using lhash_keys.delete_members(2) [OF keys ok del] by blast
    with Del del sub [of d] show ?thesis
      by (simp add: table_apply_def)
  next
    case Walk
    obtain lh' where "snd (lh_doall_arg al (Some lh) (\<lambda>_ s. s) ()) = Some lh'" "members lh' = members lh"
      by (rule doall_client_ok [OF assms])
    with Walk show ?thesis by (simp add: table_apply_def)
  qed
qed

end

lemma length_items_card: "lhash_ok h c lh \<Longrightarrow> length (items lh) = card (members lh)"
  unfolding lhash_ok_def data_ok_def members_def by (metis distinct_card length_map set_map)

lemma num_items_exact: "lhash_ok h c lh \<Longrightarrow> length (items lh) < 1000000000000 \<Longrightarrow> num_items lh = length (items lh)"
  by (simp add: lhash_ok_def)

lemma loaded_run:
  assumes "lhash_keys (call_hash hf) (call_cmp cf)" "lh_new al' hf cf = Some lh" "length ops < 1000000000000"
    and "t = fold (table_apply unlimited call_hash call_cmp) ops lh"
  shows "lhash_ok (call_hash hf) (call_cmp cf) t" "lhash_loaded t"
    "num_items t = length (items t)" "length (items t) = card (members t)"
proof -
  have client: "lhash_client call_hash call_cmp hf cf unlimited"
    using assms(1) by (simp add: lhash_client_def)
  note ok' = lhash_client.table_run(1) [OF client assms(2)]
  have ok: "lhash_ok (call_hash hf) (call_cmp cf) (fold (table_apply unlimited call_hash call_cmp) ps lh)" for ps
    using ok' [of ps] by (simp add: lhash_client.client_ok_def [OF client])
  have step: "lhash_loaded u \<and> card (members u) \<le> length ps"
    if "u = fold (table_apply unlimited call_hash call_cmp) ps lh" "length ps < 1000000000000" for ps u
    using that
  proof (induction ps arbitrary: u rule: rev_induct)
    case Nil
    with assms(2) show ?case
      by (auto simp: lh_new_def lhash_loaded_def num_buckets_def kMinNumBuckets_def members_def split: if_splits)
  next
    case (snoc p ps)
    let ?v = "fold (table_apply unlimited call_hash call_cmp) ps lh"
    have v: "lhash_loaded ?v" "card (members ?v) \<le> length ps"
      using snoc by simp_all
    then have "num_items ?v = length (items ?v)"
      using length_items_card [OF ok] snoc.prems(2) by (intro num_items_exact [OF ok]) simp
    with table_apply_loaded [OF v(1), of call_hash call_cmp p] ok [of ps] length_items_card [OF ok] v(2) snoc.prems
      lhash_client.card_apply [OF client ok', of p ps]
    show ?case by (simp add: lhash_ok_def table_size_ok_def)
  qed
  show "lhash_ok (call_hash hf) (call_cmp cf) t" "lhash_loaded t"
    using ok step [OF assms(4,3)] assms(4) by simp_all
  show "num_items t = length (items t)" "length (items t) = card (members t)"
  proof -
    have t: "lhash_ok (call_hash hf) (call_cmp cf) t"
      using ok [of ops] assms(4) by simp
    show card: "length (items t) = card (members t)"
      by (rule length_items_card [OF t])
    show "num_items t = length (items t)"
      using step [OF assms(4,3)] assms(3) card by (intro num_items_exact [OF t]) simp
  qed
qed

text \<open>
  With memory for the bucket arrays, a table stays dense: \<open>num_items\<close> is the number of its data, the
  chains hold fewer than three items on average, and an array larger than the initial one is no larger than
  the number of items.  A walk visits every datum exactly once.
\<close>

theorem lhash_stays_dense:
  assumes "lhash_keys (call_hash hf) (call_cmp cf)" "lh_new al hf cf = Some lh" "length ops < 1000000000000"
    and "t = fold (table_apply unlimited call_hash call_cmp) ops lh"
  shows "lh_num_items t = card {x. lh_retrieve t x call_hash call_cmp = Some x} \<and>
    lh_num_items t < 3 * num_buckets t \<and> (num_buckets t = 16 \<or> num_buckets t \<le> lh_num_items t) \<and>
    (\<exists>ds. distinct ds \<and> set ds = {x. lh_retrieve t x call_hash call_cmp = Some x} \<and>
      fst (lh_doall_arg unlimited (Some t) func arg) = fold func ds arg)"
proof -
  have client: "lhash_client call_hash call_cmp hf cf unlimited"
    using assms(1) by (simp add: lhash_client_def)
  note run = loaded_run [OF assms]
  have ok: "lhash_client.client_ok call_hash call_cmp hf cf t"
    using lhash_client.table_run(1) [OF client assms(2)] assms(4) by simp
  have mem: "members t = {x. lh_retrieve t x call_hash call_cmp = Some x}"
    using lhash_client.same_lookup [OF client ok] lhash_keys.c_refl [OF assms(1)] by auto
  have walk: "foldl (\<lambda>arg cur. func (item_data cur) arg) arg its = fold func (map item_data its) arg" for its
    by (induction its arbitrary: arg) simp_all
  have "distinct (map item_data (items t)) \<and> set (map item_data (items t)) = members t \<and>
      fst (lh_doall_arg unlimited (Some t) func arg) = fold func (map item_data (items t)) arg"
  proof (intro conjI)
    show "distinct (map item_data (items t))"
      using run(1) unfolding lhash_ok_def data_ok_def by blast
    show "set (map item_data (items t)) = members t"
      unfolding members_def by (rule set_map)
    show "fst (lh_doall_arg unlimited (Some t) func arg) = fold func (map item_data (items t)) arg"
      by (simp add: lh_doall_arg_def Let_def foldl_foldl walk)
  qed
  with run(2-4) show ?thesis
    unfolding mem [symmetric] lh_num_items_def by (auto simp: lhash_loaded_def kMinNumBuckets_def)
qed

definition demo_table :: "(nat, unit, unit) lhash" where
  "demo_table = the (lh_new unlimited () ())"

lemma demo_keys: "lhash_keys (\<lambda>n :: nat. of_nat (n mod 7)) (\<lambda>a b. int a - int b)"
  by unfold_locales auto

text \<open>Fifty numbers over seven hash values: the array has doubled.\<close>

definition demo_big :: "(nat, unit, unit) lhash" where
  "demo_big = fold (table_apply unlimited (\<lambda>_ n. of_nat (n mod 7)) (\<lambda>_ a b. int a - int b)) (map Put [0..<50]) demo_table"

lemma lhash_stays_dense_witness: "num_buckets demo_big = 32 \<and> lh_num_items demo_big < 3 * num_buckets demo_big"
proof
  show "num_buckets demo_big = 32"
    by code_simp
  have new: "lh_new unlimited () () = Some demo_table"
    by (simp add: demo_table_def lh_new_def)
  show "lh_num_items demo_big < 3 * num_buckets demo_big"
    using lhash_stays_dense [of "\<lambda>_ n. of_nat (n mod 7)" "()" "\<lambda>_ a b. int a - int b" "()", OF demo_keys new _ demo_big_def,
        where func = "\<lambda>_ s. s" and arg = "()"]
    by (simp del: map_upt_Suc)
qed

end
