(* ===== verification/ConstTime.thy ===== *)
theory ConstTime
  imports Prelude
begin

unbundle bit_operations_syntax

text \<open>
  The constant-time helpers of \<open>crypto/internal.h\<close>: comparisons that return a mask of all ones or all
  zeros without a branch, and selection by such a mask.  \<open>crypto_word_t\<close> is 64 bits wide, as on the 64-bit
  targets of the pod; the value barriers only stop the compiler and return their argument.
\<close>

section \<open>Definitions\<close>

type_synonym crypto_word = "64 word"

definition value_barrier_w :: "crypto_word \<Rightarrow> crypto_word" where
  "value_barrier_w a = a"

definition value_barrier_u32 :: "u32 \<Rightarrow> u32" where
  "value_barrier_u32 a = a"

definition value_barrier_u64 :: "u64 \<Rightarrow> u64" where
  "value_barrier_u64 a = a"

definition constant_time_msb_w :: "crypto_word \<Rightarrow> crypto_word" where
  "constant_time_msb_w a = 0 - drop_bit 63 a"

definition constant_time_lt_w :: "crypto_word \<Rightarrow> crypto_word \<Rightarrow> crypto_word" where
  "constant_time_lt_w a b = constant_time_msb_w (a XOR ((a XOR b) OR ((a - b) XOR a)))"

definition constant_time_lt_8 :: "crypto_word \<Rightarrow> crypto_word \<Rightarrow> u8" where
  "constant_time_lt_8 a b = ucast (constant_time_lt_w a b)"

definition constant_time_ge_w :: "crypto_word \<Rightarrow> crypto_word \<Rightarrow> crypto_word" where
  "constant_time_ge_w a b = NOT (constant_time_lt_w a b)"

definition constant_time_ge_8 :: "crypto_word \<Rightarrow> crypto_word \<Rightarrow> u8" where
  "constant_time_ge_8 a b = ucast (constant_time_ge_w a b)"

definition constant_time_is_zero_w :: "crypto_word \<Rightarrow> crypto_word" where
  "constant_time_is_zero_w a = constant_time_msb_w (NOT a AND (a - 1))"

definition constant_time_is_zero_8 :: "crypto_word \<Rightarrow> u8" where
  "constant_time_is_zero_8 a = ucast (constant_time_is_zero_w a)"

definition constant_time_eq_w :: "crypto_word \<Rightarrow> crypto_word \<Rightarrow> crypto_word" where
  "constant_time_eq_w a b = constant_time_is_zero_w (a XOR b)"

definition constant_time_eq_8 :: "crypto_word \<Rightarrow> crypto_word \<Rightarrow> u8" where
  "constant_time_eq_8 a b = ucast (constant_time_eq_w a b)"

text \<open>An \<open>int\<close> is 32 bits wide and is sign-extended when it is converted.\<close>

definition constant_time_eq_int :: "32 word \<Rightarrow> 32 word \<Rightarrow> crypto_word" where
  "constant_time_eq_int a b = constant_time_eq_w (scast a) (scast b)"

definition constant_time_eq_int_8 :: "32 word \<Rightarrow> 32 word \<Rightarrow> u8" where
  "constant_time_eq_int_8 a b = constant_time_eq_8 (scast a) (scast b)"

definition constant_time_select_w :: "crypto_word \<Rightarrow> crypto_word \<Rightarrow> crypto_word \<Rightarrow> crypto_word" where
  "constant_time_select_w m a b = (value_barrier_w m AND a) OR (value_barrier_w (NOT m) AND b)"

definition constant_time_select_8 :: "u8 \<Rightarrow> u8 \<Rightarrow> u8 \<Rightarrow> u8" where
  "constant_time_select_8 m a b = ucast (constant_time_select_w (ucast m) (ucast a) (ucast b))"

definition constant_time_select_int :: "crypto_word \<Rightarrow> 32 word \<Rightarrow> 32 word \<Rightarrow> 32 word" where
  "constant_time_select_int m a b = ucast (constant_time_select_w m (scast a) (scast b))"

section \<open>The most significant bit\<close>

lemma msb_w: "constant_time_msb_w a = (if bit a 63 then - 1 else 0)"
proof -
  have "drop_bit 63 a = of_bool (bit a 63)"
  proof (rule bit_word_eqI)
    fix n assume "n < LENGTH(64)"
    show "bit (drop_bit 63 a) n = bit (of_bool (bit a 63) :: crypto_word) n"
      by (cases "n = 0") (auto simp: bit_simps dest: bit_imp_le_length)
  qed
  then show ?thesis
    by (simp add: constant_time_msb_w_def)
qed

lemma bit63: "bit (a :: crypto_word) 63 \<longleftrightarrow> 9223372036854775808 \<le> uint a"
proof -
  have "bit a 63 \<longleftrightarrow> odd (uint a div 9223372036854775808)"
  proof -
    have "bit a 63 \<longleftrightarrow> bit (uint a) 63"
      by (simp add: bit_uint_iff)
    then show ?thesis by (simp add: bit_iff_odd)
  qed
  moreover have "uint a div 9223372036854775808 = (if 9223372036854775808 \<le> uint a then 1 else 0)"
    using uint_bounded [of a] by auto
  ultimately show ?thesis by simp
qed

lemma uint_sub: "uint (a - b :: crypto_word) = (if uint b \<le> uint a then uint a - uint b else uint a - uint b + 18446744073709551616)"
  using uint_bounded [of a] uint_bounded [of b] by (simp add: uint_sub_if')

lemma lt_w: "constant_time_lt_w a b = (if a < b then - 1 else 0)"
proof -
  have "bit (a XOR ((a XOR b) OR ((a - b) XOR a))) 63 \<longleftrightarrow>
      (if bit a 63 = bit b 63 then bit (a - b) 63 else bit b 63)"
    by (auto simp: bit_simps)
  also have "\<dots> \<longleftrightarrow> a < b"
    using uint_bounded [of a] uint_bounded [of b] unfolding bit63 uint_sub word_less_def
    by auto (use uint_ge_0 [of a] uint_ge_0 [of b] in linarith)+
  finally show ?thesis
    by (simp add: constant_time_lt_w_def msb_w)
qed

lemma is_zero_w: "constant_time_is_zero_w a = (if a = 0 then - 1 else 0)"
proof -
  have "bit (NOT a AND (a - 1)) 63 \<longleftrightarrow> \<not> bit a 63 \<and> bit (a - 1) 63"
    by (simp add: bit_simps)
  also have "\<dots> \<longleftrightarrow> uint a = 0"
    using uint_bounded [of a] unfolding bit63 uint_sub by auto (use uint_ge_0 [of a] in linarith)
  finally show ?thesis
    by (simp add: constant_time_is_zero_w_def msb_w uint_0_iff)
qed

lemma eq_w: "constant_time_eq_w a b = (if a = b then - 1 else 0)"
proof -
  have "a XOR b = 0 \<longleftrightarrow> a = b"
  proof
    assume "a XOR b = 0"
    moreover have "a = (a XOR b) XOR b"
      by (simp add: xor.assoc)
    ultimately show "a = b" by simp
  qed simp
  then show ?thesis
    by (simp add: constant_time_eq_w_def is_zero_w)
qed

lemma select_w: "constant_time_select_w (if P then - 1 else 0) a b = (if P then a else b)"
  by (simp add: constant_time_select_w_def value_barrier_w_def)

lemma ucast_ones [simp]: "ucast (- 1 :: crypto_word) = (- 1 :: u8)"
  by (rule bit_word_eqI) (auto simp: bit_simps)

lemma eq_8 [simp]: "constant_time_eq_8 a b = (if a = b then - 1 else 0)"
  by (simp add: constant_time_eq_8_def eq_w)

lemma select_8 [simp]: "constant_time_select_8 (if P then - 1 else 0) a b = (if P then a else b)"
proof (cases P)
  case True
  have "ucast ((ucast (- 1 :: u8) AND ucast a) OR (NOT (ucast (- 1 :: u8)) AND ucast b) :: crypto_word) = a"
    by (rule bit_word_eqI) (auto simp: bit_simps)
  with True show ?thesis
    by (simp add: constant_time_select_8_def constant_time_select_w_def value_barrier_w_def)
next
  case False
  have "ucast (ucast b :: crypto_word) = b"
    by (rule bit_word_eqI) (auto simp: bit_simps)
  with False show ?thesis
    by (simp add: constant_time_select_8_def constant_time_select_w_def value_barrier_w_def)
qed

lemma scast_inject: "(scast (a :: 32 word) :: crypto_word) = scast b \<longleftrightarrow> a = b"
proof -
  have "ucast (scast x :: crypto_word) = x" for x :: "32 word"
    by (rule bit_word_eqI) (auto simp: bit_simps)
  then show ?thesis by metis
qed

text \<open>
  the constant-time comparisons return all ones exactly when the comparison they stand for holds (for
  the word and the 8-bit masks, for unsigned words and for \<open>int\<close> operands) and zero otherwise, and a
  selection by such a mask is the conditional.
\<close>

theorem constant_time_exact:
  "constant_time_lt_w a b = (if a < b then - 1 else 0) \<and> constant_time_lt_8 a b = (if a < b then - 1 else 0) \<and>
   constant_time_ge_w a b = (if b \<le> a then - 1 else 0) \<and> constant_time_ge_8 a b = (if b \<le> a then - 1 else 0) \<and>
   constant_time_is_zero_w a = (if a = 0 then - 1 else 0) \<and> constant_time_is_zero_8 a = (if a = 0 then - 1 else 0) \<and>
   constant_time_eq_w a b = (if a = b then - 1 else 0) \<and> constant_time_eq_8 a b = (if a = b then - 1 else 0) \<and>
   constant_time_eq_int i j = (if i = j then - 1 else 0) \<and> constant_time_eq_int_8 i j = (if i = j then - 1 else 0) \<and>
   constant_time_select_w (if P then - 1 else 0) a b = (if P then a else b) \<and>
   constant_time_select_8 (if P then - 1 else 0) x y = (if P then x else y) \<and>
   constant_time_select_int (if P then - 1 else 0) i j = (if P then i else j)"
proof (intro conjI)
  have lt: "constant_time_ge_w a b = (if b \<le> a then - 1 else 0)"
    by (auto simp: constant_time_ge_w_def lt_w not_less)
  show "constant_time_ge_w a b = (if b \<le> a then - 1 else 0)" "constant_time_ge_8 a b = (if b \<le> a then - 1 else 0)"
    by (simp_all add: constant_time_ge_8_def lt)
  show "constant_time_lt_w a b = (if a < b then - 1 else 0)" "constant_time_lt_8 a b = (if a < b then - 1 else 0)"
    "constant_time_is_zero_w a = (if a = 0 then - 1 else 0)" "constant_time_is_zero_8 a = (if a = 0 then - 1 else 0)"
    "constant_time_eq_w a b = (if a = b then - 1 else 0)" "constant_time_eq_8 a b = (if a = b then - 1 else 0)"
    by (simp_all add: constant_time_lt_8_def constant_time_is_zero_8_def lt_w is_zero_w eq_w)
  show "constant_time_eq_int i j = (if i = j then - 1 else 0)" "constant_time_eq_int_8 i j = (if i = j then - 1 else 0)"
    by (simp_all add: constant_time_eq_int_def constant_time_eq_int_8_def eq_w scast_inject)
  show "constant_time_select_w (if P then - 1 else 0) a b = (if P then a else b)"
    by (rule select_w)
  show "constant_time_select_8 (if P then - 1 else 0) x y = (if P then x else y)"
    by (rule select_8)
  have "ucast (scast k :: crypto_word) = k" for k :: "32 word"
    by (rule bit_word_eqI) (auto simp: bit_simps)
  then show "constant_time_select_int (if P then - 1 else 0) i j = (if P then i else j)"
    unfolding constant_time_select_int_def select_w by simp
qed

end
