(* ===== verification/Base64.thy ===== *)
theory Base64
  imports ConstTime
begin

unbundle bit_operations_syntax

text \<open>
  \<open>crypto/base64/base64.c\<close>: base64 in constant time, one-shot and streaming.  The C functions write to
  \<open>out\<close> and return a length; here the bytes they have written are the result.  The context keeps its
  48-byte array, stale bytes included.
\<close>

section \<open>Characters\<close>

definition constant_time_lt_args_8 :: "u8 \<Rightarrow> u8 \<Rightarrow> u8" where
  "constant_time_lt_args_8 a b =
     (let aw = ucast a :: crypto_word; bw = ucast b in ucast (constant_time_msb_w (aw - bw)))"

definition constant_time_in_range_8 :: "u8 \<Rightarrow> u8 \<Rightarrow> u8 \<Rightarrow> u8" where
  "constant_time_in_range_8 a lo hi = constant_time_lt_args_8 (a - lo) (hi - lo + 1)"

definition conv_bin2ascii :: "u8 \<Rightarrow> u8" where
  "conv_bin2ascii a =
     (let a = a AND 0x3f;
          ret = constant_time_select_8 (constant_time_eq_8 (ucast a) 62) 43 47;
          ret = constant_time_select_8 (constant_time_lt_args_8 a 62) (a - 52 + 48) ret;
          ret = constant_time_select_8 (constant_time_lt_args_8 a 52) (a - 26 + 97) ret
      in constant_time_select_8 (constant_time_lt_args_8 a 26) (a + 65) ret)"

definition base64_ascii_to_bin :: "u8 \<Rightarrow> u8" where
  "base64_ascii_to_bin a =
     (let is_upper = constant_time_in_range_8 a 65 90;
          is_lower = constant_time_in_range_8 a 97 122;
          is_digit = constant_time_in_range_8 a 48 57;
          is_plus = constant_time_eq_8 (ucast a) 43;
          is_slash = constant_time_eq_8 (ucast a) 47;
          is_equals = constant_time_eq_8 (ucast a) 61;
          ret = 0xff;
          ret = constant_time_select_8 is_upper (a - 65) ret;
          ret = constant_time_select_8 is_lower (a - 97 + 26) ret;
          ret = constant_time_select_8 is_digit (a - 48 + 52) ret;
          ret = constant_time_select_8 is_plus 62 ret;
          ret = constant_time_select_8 is_slash 63 ret
      in constant_time_select_8 is_equals 0 ret)"

section \<open>Encoding\<close>

definition EVP_EncodedLength :: "nat \<Rightarrow> nat option" where
  "EVP_EncodedLength len =
     (if size_add len 2 < len then None
      else
        let len = size_add len 2 div 3
        in if size_mul len 4 div 4 \<noteq> len then None
           else
             let len = size_mul len 4
             in if size_add len 1 < len then None else Some (size_add len 1))"

text \<open>\<open>src\<close> starts with the remaining bytes; 61 is the padding character \<open>=\<close>.\<close>

fun encode_block_loop :: "bytes \<Rightarrow> bytes" where
  "encode_block_loop [] = []"
| "encode_block_loop [a] =
     (let l = push_bit 16 (ucast a) :: u32
      in [conv_bin2ascii (ucast (drop_bit 18 l)), conv_bin2ascii (ucast (drop_bit 12 l)), 61, 61])"
| "encode_block_loop [a, b] =
     (let l = push_bit 16 (ucast a) OR push_bit 8 (ucast b) :: u32
      in [conv_bin2ascii (ucast (drop_bit 18 l)), conv_bin2ascii (ucast (drop_bit 12 l)),
          conv_bin2ascii (ucast (drop_bit 6 l)), 61])"
| "encode_block_loop (a # b # c # src) =
     (let l = push_bit 16 (ucast a) OR push_bit 8 (ucast b) OR ucast c :: u32
      in [conv_bin2ascii (ucast (drop_bit 18 l)), conv_bin2ascii (ucast (drop_bit 12 l)),
          conv_bin2ascii (ucast (drop_bit 6 l)), conv_bin2ascii (ucast l)] @ encode_block_loop src)"

text \<open>The bytes at \<open>dst\<close>, with the final NUL, and the number that is returned.\<close>

definition EVP_EncodeBlock :: "bytes \<Rightarrow> bytes \<times> nat" where
  "EVP_EncodeBlock src = (encode_block_loop src @ [0], length (encode_block_loop src))"

record evp_encode_ctx =
  data_used :: nat
  data :: bytes
  eof_seen :: bool
  error_encountered :: bool

definition sizeof_data :: nat where
  "sizeof_data = 48"

definition EVP_EncodeInit :: evp_encode_ctx where
  "EVP_EncodeInit = \<lparr>data_used = 0, data = replicate sizeof_data 0, eof_seen = False, error_encountered = False\<rparr>"

text \<open>One line: the encoded block with the newline in place of its NUL.\<close>

definition encode_line :: "bytes \<Rightarrow> bytes \<times> nat" where
  "encode_line src = (case EVP_EncodeBlock src of (dst, encoded) \<Rightarrow> (take encoded dst @ [10], encoded))"

text \<open>The loop over whole lines; the flag is \<open>False\<close> when \<open>total\<close> overflows.\<close>

function encode_update_loop :: "bytes \<Rightarrow> bytes \<Rightarrow> nat \<Rightarrow> bool \<times> bytes \<times> nat \<times> bytes" where
  "encode_update_loop inp out tot =
     (if length inp \<ge> sizeof_data then
        case encode_line (take sizeof_data inp) of (line, encoded) \<Rightarrow>
          if size_add tot (encoded + 1) < tot then (False, out @ line, tot, drop sizeof_data inp)
          else encode_update_loop (drop sizeof_data inp) (out @ line) (size_add tot (encoded + 1))
      else (True, out, tot, inp))"
  by pat_completeness auto
termination
  by (relation "measure (\<lambda>(inp, _, _). length inp)") (auto simp: sizeof_data_def)

declare encode_update_loop.simps [simp del]

text \<open>The result is what has been written to \<open>out\<close>, \<open>*out_len\<close> and the context.\<close>

definition EVP_EncodeUpdate :: "evp_encode_ctx \<Rightarrow> bytes \<Rightarrow> bytes \<times> nat \<times> evp_encode_ctx" where
  "EVP_EncodeUpdate ctx inp =
     (if length inp = 0 then ([], 0, ctx)
      else if sizeof_data - data_used ctx > length inp then
        ([], 0, ctx\<lparr>data := mem_copy (data_used ctx) inp (data ctx), data_used := data_used ctx + length inp\<rparr>)
      else
        let (out, tot, inp, ctx) =
              (if data_used ctx \<noteq> 0 then
                 let todo = sizeof_data - data_used ctx;
                     block = mem_copy (data_used ctx) (take todo inp) (data ctx)
                 in case encode_line block of (line, encoded) \<Rightarrow>
                      (line, encoded + 1, drop todo inp, ctx\<lparr>data := block, data_used := 0\<rparr>)
               else ([], 0, inp, ctx))
        in case encode_update_loop inp out tot of (ok, out, tot, inp) \<Rightarrow>
          if \<not> ok then (out, 0, ctx)
          else
            let ctx = (if length inp \<noteq> 0 then ctx\<lparr>data := mem_copy 0 inp (data ctx)\<rparr> else ctx);
                ctx = ctx\<lparr>data_used := length inp\<rparr>;
                tot = (if exceeds_int tot then 0 else tot)
            in (out, tot, ctx))"

definition EVP_EncodeFinal :: "evp_encode_ctx \<Rightarrow> bytes \<times> nat \<times> evp_encode_ctx" where
  "EVP_EncodeFinal ctx =
     (if data_used ctx = 0 then ([], 0, ctx)
      else case encode_line (take (data_used ctx) (data ctx)) of (line, encoded) \<Rightarrow>
        (line, encoded + 1, ctx\<lparr>data_used := 0\<rparr>))"

section \<open>Decoding\<close>

definition EVP_DecodedLength :: "nat \<Rightarrow> nat option" where
  "EVP_DecodedLength len = (if len mod 4 \<noteq> 0 then None else Some (len div 4 * 3))"

definition EVP_DecodeInit :: evp_encode_ctx where
  "EVP_DecodeInit = \<lparr>data_used = 0, data = replicate sizeof_data 0, eof_seen = False, error_encountered = False\<rparr>"

text \<open>The bytes a quad decodes to; \<open>None\<close> for the return value 0.\<close>

definition base64_decode_quad :: "u8 \<Rightarrow> u8 \<Rightarrow> u8 \<Rightarrow> u8 \<Rightarrow> bytes option" where
  "base64_decode_quad in0 in1 in2 in3 =
     (let a = base64_ascii_to_bin in0; b = base64_ascii_to_bin in1;
          c = base64_ascii_to_bin in2; d = base64_ascii_to_bin in3
      in if a = 0xff \<or> b = 0xff \<or> c = 0xff \<or> d = 0xff then None
         else
           let v = push_bit 18 (ucast a) OR push_bit 12 (ucast b) OR push_bit 6 (ucast c) OR ucast d :: u32;
               padding_pattern = (if in0 = 61 then 8 else 0) + (if in1 = 61 then 4 else 0)
                 + (if in2 = 61 then 2 else 0) + (if in3 = 61 then 1 else 0) :: nat
           in if padding_pattern = 0 then Some [ucast (drop_bit 16 v), ucast (drop_bit 8 v), ucast v]
              else if padding_pattern = 1 then Some [ucast (drop_bit 16 v), ucast (drop_bit 8 v)]
              else if padding_pattern = 3 then Some [ucast (drop_bit 16 v)]
              else None)"

definition is_space :: "u8 \<Rightarrow> bool" where
  "is_space c \<longleftrightarrow> c = 32 \<or> c = 9 \<or> c = 13 \<or> c = 10"

text \<open>The loop of \<open>EVP_DecodeUpdate\<close>; the flag is \<open>False\<close> when it returns with an error.\<close>

fun decode_update_loop :: "bytes \<Rightarrow> evp_encode_ctx \<Rightarrow> bytes \<Rightarrow> bool \<times> bytes \<times> evp_encode_ctx" where
  "decode_update_loop [] ctx out = (True, out, ctx)"
| "decode_update_loop (c # inp) ctx out =
     (if is_space c then decode_update_loop inp ctx out
      else if eof_seen ctx then (False, out, ctx\<lparr>error_encountered := True\<rparr>)
      else
        let ctx = ctx\<lparr>data := (data ctx)[data_used ctx := c], data_used := data_used ctx + 1\<rparr>
        in if data_used ctx = 4 then
             (case base64_decode_quad (data ctx ! 0) (data ctx ! 1) (data ctx ! 2) (data ctx ! 3) of
                None \<Rightarrow> (False, out, ctx\<lparr>error_encountered := True\<rparr>)
              | Some bs \<Rightarrow>
                  let ctx = ctx\<lparr>data_used := 0\<rparr>;
                      ctx = (if length bs < 3 then ctx\<lparr>eof_seen := True\<rparr> else ctx)
                  in decode_update_loop inp ctx (out @ bs))
           else decode_update_loop inp ctx out)"

text \<open>The return value, what has been written, \<open>*out_len\<close> and the context.\<close>

definition EVP_DecodeUpdate :: "evp_encode_ctx \<Rightarrow> bytes \<Rightarrow> int \<times> bytes \<times> nat \<times> evp_encode_ctx" where
  "EVP_DecodeUpdate ctx inp =
     (if error_encountered ctx then (- 1, [], 0, ctx)
      else case decode_update_loop inp ctx [] of (ok, out, ctx) \<Rightarrow>
        if \<not> ok then (- 1, out, 0, ctx)
        else if exceeds_int (length out) then (- 1, out, 0, ctx\<lparr>error_encountered := True\<rparr>)
        else if eof_seen ctx then (0, out, length out, ctx)
        else (1, out, length out, ctx))"

definition EVP_DecodeFinal :: "evp_encode_ctx \<Rightarrow> int" where
  "EVP_DecodeFinal ctx = (if error_encountered ctx \<or> data_used ctx \<noteq> 0 then - 1 else 1)"

text \<open>The loop over the quads of \<open>inp\<close>, whose length is a multiple of four.\<close>

fun decode_base64_loop :: "bytes \<Rightarrow> bytes option" where
  "decode_base64_loop (a # b # c # d # inp) = (case base64_decode_quad a b c d of
     None \<Rightarrow> None
   | Some bs \<Rightarrow>
       if length bs \<noteq> 3 \<and> inp \<noteq> [] then None
       else map_option (\<lambda>rest. bs @ rest) (decode_base64_loop inp))"
| "decode_base64_loop inp = Some []"

definition EVP_DecodeBase64 :: "nat \<Rightarrow> bytes \<Rightarrow> bytes option" where
  "EVP_DecodeBase64 max_out inp =
     (if length inp mod 4 \<noteq> 0 then None
      else case EVP_DecodedLength (length inp) of
        None \<Rightarrow> None
      | Some max_len \<Rightarrow> if max_out < max_len then None else decode_base64_loop inp)"

text \<open>\<open>EVP_DecodeBlock\<close>: \<open>None\<close> is the return value \<open>-1\<close>.\<close>

definition trim_input :: "bytes \<Rightarrow> bytes" where
  "trim_input src =
     (let src = dropWhile (\<lambda>c. c = 32 \<or> c = 9) src
      in rev (dropWhile is_space (rev src)))"

definition EVP_DecodeBlock :: "bytes \<Rightarrow> bytes option" where
  "EVP_DecodeBlock src =
     (let src = trim_input src
      in case EVP_DecodedLength (length src) of
           None \<Rightarrow> None
         | Some dst_len \<Rightarrow>
             if exceeds_int dst_len then None
             else case EVP_DecodeBase64 dst_len src of
               None \<Rightarrow> None
             | Some dst \<Rightarrow> Some (dst @ replicate ((3 - length dst mod 3) mod 3) 0))"

section \<open>The alphabet\<close>

lemma lt_args_8: "constant_time_lt_args_8 a b = (if a < b then - 1 else 0)"
proof -
  have "bit (ucast a - ucast b :: crypto_word) 63 \<longleftrightarrow> uint a < uint b"
    using uint_bounded [of a] uint_bounded [of b] unfolding bit63 uint_sub
    by (auto simp: uint_up_ucast is_up) (use uint_ge_0 [of a] uint_ge_0 [of b] in linarith)+
  then show ?thesis
    by (simp add: constant_time_lt_args_8_def msb_w word_less_def)
qed

lemma in_range_8: "constant_time_in_range_8 a lo hi = (if a - lo < hi - lo + 1 then - 1 else 0)"
  by (simp add: constant_time_in_range_8_def lt_args_8)

text \<open>The alphabet by value, and the inverse, as conditionals.\<close>

definition base64_char :: "u8 \<Rightarrow> u8" where
  "base64_char a = (if a < 26 then a + 65 else if a < 52 then a - 26 + 97 else if a < 62 then a - 52 + 48
     else if a = 62 then 43 else 47)"

definition base64_value :: "u8 \<Rightarrow> u8" where
  "base64_value a = (if a = 61 then 0 else if a = 47 then 63 else if a = 43 then 62
     else if a - 48 < 10 then a - 48 + 52 else if a - 97 < 26 then a - 97 + 26 else if a - 65 < 26 then a - 65 else 0xff)"

lemma ucast_eq_numeral: "(ucast (x :: u8) :: crypto_word) = ucast y \<longleftrightarrow> x = y"
proof -
  have "ucast (ucast z :: crypto_word) = z" for z :: u8
    by (rule bit_word_eqI) (auto simp: bit_simps)
  then show ?thesis by metis
qed

lemma conv_bin2ascii_eq [code]: "conv_bin2ascii a = base64_char (a AND 0x3f)"
proof -
  have "(ucast (x :: u8) :: crypto_word) = 62 \<longleftrightarrow> x = 62" for x
    using ucast_eq_numeral [of x 62] by simp
  then show ?thesis
    unfolding conv_bin2ascii_def Let_def eq_8 lt_args_8 select_8 base64_char_def by simp
qed

lemma base64_ascii_to_bin_eq [code]: "base64_ascii_to_bin a = base64_value a"
proof -
  have "(ucast a :: crypto_word) = 43 \<longleftrightarrow> a = 43" "(ucast a :: crypto_word) = 47 \<longleftrightarrow> a = 47"
    "(ucast a :: crypto_word) = 61 \<longleftrightarrow> a = 61"
    using ucast_eq_numeral [of a 43] ucast_eq_numeral [of a 47] ucast_eq_numeral [of a 61] by simp_all
  then show ?thesis
    unfolding base64_ascii_to_bin_def Let_def eq_8 in_range_8 select_8 base64_value_def by simp
qed

text \<open>A property of all six-bit values is checked value by value.\<close>

lemma all_six_bits:
  assumes "list_all P (map (\<lambda>n. of_nat n :: u8) [0..<64])" "x < 64"
  shows "P x"
proof -
  have "x = of_nat (unat x)" "unat x < 64"
    using assms(2) by (simp_all add: word_less_nat_alt)
  with assms(1) show ?thesis
    by (metis (mono_tags, lifting) atLeastLessThan_iff image_eqI list.set_map list_all_iff set_upt zero_le)
qed

lemma base64_char_value:
  assumes "x < 64"
  shows "base64_value (base64_char x) = x \<and> base64_char x \<noteq> 61 \<and> \<not> is_space (base64_char x)"
proof (rule all_six_bits [OF _ assms])
  show "list_all (\<lambda>x. base64_value (base64_char x) = x \<and> base64_char x \<noteq> 61 \<and> \<not> is_space (base64_char x))
    (map (\<lambda>n. of_nat n :: u8) [0..<64])"
    by code_simp
qed

section \<open>One quad\<close>

definition sextet :: "u32 \<Rightarrow> nat \<Rightarrow> u8" where
  "sextet l k = ucast (drop_bit k l) AND 0x3f"

lemma mask_6: "(0x3f :: u8) = mask 6"
  by (simp add: mask_eq_exp_minus_1)

lemma bit_sextet: "bit (sextet l k) n \<longleftrightarrow> n < 6 \<and> bit l (k + n)"
  by (auto simp: sextet_def mask_6 bit_simps dest: bit_imp_le_length)

lemma sextet_less: "sextet l k < 64"
proof -
  have "sextet l k = take_bit 6 (sextet l k)"
    by (rule bit_word_eqI) (auto simp: bit_simps bit_sextet)
  then have "uint (sextet l k) = take_bit 6 (uint (sextet l k))"
    by (metis unsigned_take_bit_eq)
  then have "uint (sextet l k) < 64"
    using take_bit_int_less_exp [of 6 "uint (sextet l k)"] by simp
  then show ?thesis by (simp add: word_less_def)
qed

lemma conv_sextet: "conv_bin2ascii (ucast (drop_bit k l)) = base64_char (sextet l k)"
  "conv_bin2ascii (ucast l) = base64_char (sextet l 0)"
  by (simp_all add: conv_bin2ascii_eq sextet_def)

lemma sextet_char:
  "base64_ascii_to_bin (base64_char (sextet l k)) = sextet l k" "base64_char (sextet l k) \<noteq> 61"
  "\<not> is_space (base64_char (sextet l k))" "sextet l k \<noteq> 0xff"
  using base64_char_value [OF sextet_less, of l k] sextet_less [of l k]
  by (auto simp: base64_ascii_to_bin_eq)

lemma sextets_join:
  assumes "l = push_bit 16 (ucast (a :: u8)) OR push_bit 8 (ucast (b :: u8)) OR ucast (c :: u8)"
  shows "push_bit 18 (ucast (sextet l 18)) OR push_bit 12 (ucast (sextet l 12)) OR
    push_bit 6 (ucast (sextet l 6)) OR ucast (sextet l 0) = (l :: u32)"
proof (rule bit_word_eqI)
  fix n assume n: "n < LENGTH(32)"
  have high: "\<not> bit l n" if "24 \<le> n"
    using that unfolding assms by (auto simp: bit_simps dest: bit_imp_le_length)
  consider "n < 6" | "6 \<le> n" "n < 12" | "12 \<le> n" "n < 18" | "18 \<le> n" "n < 24" | "24 \<le> n"
    by linarith
  then show "bit (push_bit 18 (ucast (sextet l 18)) OR push_bit 12 (ucast (sextet l 12)) OR
    push_bit 6 (ucast (sextet l 6)) OR ucast (sextet l 0) :: u32) n = bit l n"
    by cases (use n high in \<open>auto simp: bit_simps bit_sextet\<close>)
qed

lemma quad_bytes:
  assumes "l = push_bit 16 (ucast (a :: u8)) OR push_bit 8 (ucast (b :: u8)) OR ucast (c :: u8)"
  shows "ucast (drop_bit 16 (l :: u32)) = a" "ucast (drop_bit 8 l) = b" "ucast l = c"
  unfolding assms by (rule bit_word_eqI, force simp: bit_simps dest: bit_imp_le_length)+

lemma padding_value: "base64_ascii_to_bin 61 = 0"
  by (simp add: base64_ascii_to_bin_eq base64_value_def)

lemma decode_encode_quad:
  "base64_decode_quad (base64_char (sextet l 18)) (base64_char (sextet l 12)) (base64_char (sextet l 6)) (base64_char (sextet l 0)) =
     Some [a, b, c]"
  if "l = push_bit 16 (ucast a) OR push_bit 8 (ucast b) OR ucast c"
  unfolding base64_decode_quad_def Let_def sextet_char(1) sextets_join [OF that]
  by (simp add: sextet_char quad_bytes [OF that])

lemma decode_encode_quad2:
  assumes l: "l = push_bit 16 (ucast a) OR push_bit 8 (ucast b)"
  shows "base64_decode_quad (base64_char (sextet l 18)) (base64_char (sextet l 12)) (base64_char (sextet l 6)) 61 = Some [a, b]"
proof -
  have l': "l = push_bit 16 (ucast a) OR push_bit 8 (ucast b) OR ucast (0 :: u8)"
    using l by simp
  have z: "sextet l 0 = 0"
    by (rule bit_word_eqI) (auto simp: bit_sextet l bit_simps)
  show ?thesis
    unfolding base64_decode_quad_def Let_def sextet_char(1) padding_value
    using sextets_join [OF l'] quad_bytes [OF l'] by (simp add: sextet_char z)
qed

lemma decode_encode_quad1:
  assumes l: "l = push_bit 16 (ucast a)"
  shows "base64_decode_quad (base64_char (sextet l 18)) (base64_char (sextet l 12)) 61 61 = Some [a]"
proof -
  have l': "l = push_bit 16 (ucast a) OR push_bit 8 (ucast (0 :: u8)) OR ucast (0 :: u8)"
    using l by simp
  have z: "sextet l 0 = 0" "sextet l 6 = 0"
    by (rule bit_word_eqI, auto simp: bit_sextet l bit_simps)+
  show ?thesis
    unfolding base64_decode_quad_def Let_def sextet_char(1) padding_value
    using sextets_join [OF l'] quad_bytes [OF l'] by (simp add: sextet_char z)
qed

section \<open>Blocks\<close>

lemma encode_block_sextets:
  "l = push_bit 16 (ucast a) \<Longrightarrow>
    encode_block_loop [a] = [base64_char (sextet l 18), base64_char (sextet l 12), 61, 61]"
  "l = push_bit 16 (ucast a) OR push_bit 8 (ucast b) \<Longrightarrow>
    encode_block_loop [a, b] = [base64_char (sextet l 18), base64_char (sextet l 12), base64_char (sextet l 6), 61]"
  "l = push_bit 16 (ucast a) OR push_bit 8 (ucast b) OR ucast c \<Longrightarrow>
    encode_block_loop (a # b # c # src) =
      [base64_char (sextet l 18), base64_char (sextet l 12), base64_char (sextet l 6), base64_char (sextet l 0)] @
      encode_block_loop src"
  unfolding encode_block_loop.simps Let_def
  by (simp_all only: conv_sextet(1)) (simp_all only: conv_sextet(2))

lemma length_encode_block: "length (encode_block_loop src) = (length src + 2) div 3 * 4"
proof (induction src rule: encode_block_loop.induct)
  case (4 a b c src)
  have "(length (a # b # c # src) + 2) div 3 = (length src + 2) div 3 + 1"
    using div_add_self2 [of 3 "length src + 2"] by simp
  with 4 show ?case by (simp add: Let_def)
qed (simp_all add: Let_def)

lemma encode_block_chars: "x \<in> set (encode_block_loop src) \<Longrightarrow> \<not> is_space x"
proof (induction src rule: encode_block_loop.induct)
  case (2 a)
  then show ?case
    unfolding encode_block_sextets(1) [OF refl] using sextet_char(3) by (auto simp: is_space_def)
next
  case (3 a b)
  then show ?case
    unfolding encode_block_sextets(2) [OF refl] using sextet_char(3) by (auto simp: is_space_def)
next
  case (4 a b c src)
  then show ?case
    unfolding encode_block_sextets(3) [OF refl] using sextet_char(3) by auto
qed simp

lemma decode_encode_block: "decode_base64_loop (encode_block_loop src) = Some src"
proof (induction src rule: encode_block_loop.induct)
  case (2 a)
  then show ?case
    unfolding encode_block_sextets(1) [OF refl] by (simp add: decode_encode_quad1)
next
  case (3 a b)
  then show ?case
    unfolding encode_block_sextets(2) [OF refl] by (simp add: decode_encode_quad2)
next
  case (4 a b c src)
  define l :: u32 where "l = push_bit 16 (ucast a) OR push_bit 8 (ucast b) OR ucast c"
  from decode_encode_quad [OF l_def] 4 show ?case
    unfolding encode_block_sextets(3) [OF l_def] by simp
qed simp

section \<open>The encoded stream\<close>

text \<open>The reference: one line per 48 bytes, and the bytes left over.\<close>

function split_lines :: "bytes \<Rightarrow> bytes \<times> bytes" where
  "split_lines s =
     (if length s \<ge> 48 then
        (encode_block_loop (take 48 s) @ [10] @ fst (split_lines (drop 48 s)), snd (split_lines (drop 48 s)))
      else ([], s))"
  by pat_completeness auto
termination
  by (relation "measure length") auto

declare split_lines.simps [simp del]

definition pem_lines :: "bytes \<Rightarrow> bytes" where
  "pem_lines s = fst (split_lines s) @
     (if snd (split_lines s) = [] then [] else encode_block_loop (snd (split_lines s)) @ [10])"

lemma split_lines_short: "length s < 48 \<Longrightarrow> split_lines s = ([], s)"
  by (simp add: split_lines.simps)

lemma split_lines_long:
  "length x = 48 \<Longrightarrow> split_lines (x @ y) = (encode_block_loop x @ [10] @ fst (split_lines y), snd (split_lines y))"
  by (subst split_lines.simps) simp

lemma split_lines_rest: "length (snd (split_lines s)) < 48"
  by (induction s rule: split_lines.induct) (subst split_lines.simps, simp)

lemma split_lines_append:
  "split_lines (s @ t) = (fst (split_lines s) @ fst (split_lines (snd (split_lines s) @ t)),
     snd (split_lines (snd (split_lines s) @ t)))"
proof (induction s rule: split_lines.induct)
  case (1 s)
  show ?case
  proof (cases "length s \<ge> 48")
    case True
    then have s: "s = take 48 s @ drop 48 s" "length (take 48 s) = 48"
      by simp_all
    have "split_lines (s @ t) = split_lines (take 48 s @ (drop 48 s @ t))"
      by (metis append.assoc s(1))
    with 1 [OF True] split_lines_long [OF s(2), of "drop 48 s @ t"] split_lines_long [OF s(2), of "drop 48 s"]
    show ?thesis by simp
  qed (simp add: split_lines_short)
qed

lemma length_encode_48: "length s = 48 \<Longrightarrow> length (encode_block_loop s) = 64"
  by (simp add: length_encode_block)

lemma length_lines: "length (fst (split_lines s)) = length s div 48 * 65"
proof (induction s rule: split_lines.induct)
  case (1 s)
  show ?case
  proof (cases "length s \<ge> 48")
    case True
    then have "length s div 48 = (length s - 48) div 48 + 1"
      by (simp add: le_div_geq)
    with 1 [OF True] True length_encode_48 [of "take 48 s"] show ?thesis
      by (subst split_lines.simps) simp
  qed (simp add: split_lines_short)
qed

lemma encode_line_eq: "encode_line s = (encode_block_loop s @ [10], length (encode_block_loop s))"
  by (simp add: encode_line_def EVP_EncodeBlock_def)

lemma encode_update_loop_eq:
  "tot + length (fst (split_lines inp)) \<le> SIZE_MAX \<Longrightarrow>
   encode_update_loop inp out tot =
     (True, out @ fst (split_lines inp), tot + length (fst (split_lines inp)), snd (split_lines inp))"
proof (induction inp arbitrary: out tot rule: split_lines.induct)
  case (1 s)
  show ?case
  proof (cases "length s \<ge> 48")
    case True
    have eq: "split_lines s = (encode_block_loop (take 48 s) @ [10] @ fst (split_lines (drop 48 s)), snd (split_lines (drop 48 s)))"
      using True by (subst split_lines.simps) simp
    have len: "length (encode_block_loop (take 48 s)) = 64"
      using True by (simp add: length_encode_48)
    have le: "tot + 65 + length (fst (split_lines (drop 48 s))) \<le> SIZE_MAX"
      using "1.prems" by (simp add: eq len)
    then have "size_add tot 65 = tot + 65"
      by simp
    then have "encode_update_loop s out tot =
        encode_update_loop (drop 48 s) (out @ encode_block_loop (take 48 s) @ [10]) (tot + 65)"
      using True by (subst encode_update_loop.simps) (simp add: sizeof_data_def encode_line_eq len)
    also have "\<dots> = (True, out @ fst (split_lines s), tot + length (fst (split_lines s)), snd (split_lines s))"
      using "1.IH" [OF True le] by (simp add: eq len)
    finally show ?thesis .
  next
    case False
    then show ?thesis
      by (subst encode_update_loop.simps) (simp add: sizeof_data_def split_lines_short)
  qed
qed

text \<open>An encoder that holds the bytes \<open>t\<close> of an unfinished line.\<close>

definition encoder_holds :: "evp_encode_ctx \<Rightarrow> bytes \<Rightarrow> bool" where
  "encoder_holds ctx t \<longleftrightarrow> length t < 48 \<and> data_used ctx = length t \<and> length (data ctx) = 48 \<and>
     take (length t) (data ctx) = t"

lemma encoder_holds_init: "encoder_holds EVP_EncodeInit []"
  by (simp add: encoder_holds_def EVP_EncodeInit_def sizeof_data_def)

lemma mem_copy_front: "length ys \<le> length xs \<Longrightarrow> take (length ys) (mem_copy 0 ys xs) = ys"
  by (simp add: mem_copy_def)

lemma encode_update_holds:
  assumes h: "encoder_holds ctx t" and len: "length inp \<le> 1000000000"
  obtains ctx' where "EVP_EncodeUpdate ctx inp = (fst (split_lines (t @ inp)), length (fst (split_lines (t @ inp))), ctx')"
    "encoder_holds ctx' (snd (split_lines (t @ inp)))"
proof -
  have t: "length t < 48" "data_used ctx = length t" "length (data ctx) = 48" "take (length t) (data ctx) = t"
    using h by (simp_all add: encoder_holds_def)
  let ?o = "fst (split_lines (t @ inp))" and ?r = "snd (split_lines (t @ inp))"
  have o_len: "length ?o \<le> INT_MAX"
    using len t(1) unfolding length_lines by (simp add: INT_MAX_def)
  then have o_size: "length ?o \<le> SIZE_MAX"
    by (simp add: INT_MAX_def SIZE_MAX_def)
  have finish: "encoder_holds (ctx1\<lparr>data_used := length r\<rparr>) r"
    if "ctx1 = (if length r \<noteq> 0 then ctx2\<lparr>data := mem_copy 0 r (data ctx2)\<rparr> else ctx2)"
      "length r < 48" "length (data ctx2) = 48" for ctx1 ctx2 r
    using that mem_copy_front [of r "data ctx2"] by (simp add: encoder_holds_def mem_copy_def)
  show thesis
  proof (cases "length t + length inp < 48")
    case True
    then have s: "split_lines (t @ inp) = ([], t @ inp)"
      by (simp add: split_lines_short)
    show ?thesis
    proof (cases "inp = []")
      case True
      show ?thesis
        by (rule that [of ctx]) (use True h s in \<open>simp_all add: EVP_EncodeUpdate_def\<close>)
    next
      case False
      show ?thesis
        by (rule that) (use True False t s in \<open>auto simp: EVP_EncodeUpdate_def sizeof_data_def encoder_holds_def mem_copy_def\<close>)
    qed
  next
    case False
    then have ne: "inp \<noteq> []" "\<not> sizeof_data - data_used ctx > length inp"
      using t by (auto simp: sizeof_data_def)
    show ?thesis
    proof (cases "t = []")
      case True
      let ?c = "if length ?r \<noteq> 0 then ctx\<lparr>data := mem_copy 0 ?r (data ctx)\<rparr> else ctx"
      have "encode_update_loop inp [] 0 = (True, ?o, length ?o, ?r)"
        using encode_update_loop_eq [of 0 inp "[]"] o_size True by simp
      then have "EVP_EncodeUpdate ctx inp = (?o, length ?o, ?c\<lparr>data_used := length ?r\<rparr>)"
        using ne True t(2) o_len unfolding EVP_EncodeUpdate_def Let_def by simp
      then show ?thesis
        by (rule that) (rule finish [OF refl split_lines_rest t(3)])
    next
      case False
      let ?todo = "48 - length t"
      let ?block = "t @ take ?todo inp"
      have todo: "?todo \<le> length inp" "length ?block = 48"
        using \<open>\<not> length t + length inp < 48\<close> t(1) by simp_all
      have block: "mem_copy (length t) (take ?todo inp) (data ctx) = ?block"
        using t todo by (simp add: mem_copy_def)
      have "t @ inp = ?block @ drop ?todo inp"
        by simp
      then have s: "split_lines (t @ inp) = (encode_block_loop ?block @ [10] @ fst (split_lines (drop ?todo inp)), snd (split_lines (drop ?todo inp)))"
        using split_lines_long [OF todo(2), of "drop ?todo inp"] by simp
      have len64: "length (encode_block_loop ?block) = 64"
        using length_encode_48 [OF todo(2)] .
      let ?ctx = "ctx\<lparr>data := ?block, data_used := 0\<rparr>"
      let ?c = "if length ?r \<noteq> 0 then ?ctx\<lparr>data := mem_copy 0 ?r ?block\<rparr> else ?ctx"
      have "encode_update_loop (drop ?todo inp) (encode_block_loop ?block @ [10]) 65 = (True, ?o, length ?o, ?r)"
        using encode_update_loop_eq [of 65 "drop ?todo inp" "encode_block_loop ?block @ [10]"] o_size s len64 by simp
      then have "EVP_EncodeUpdate ctx inp = (?o, length ?o, ?c\<lparr>data_used := length ?r\<rparr>)"
        using ne False t(2) o_len len64 block unfolding EVP_EncodeUpdate_def Let_def
        by (simp add: sizeof_data_def encode_line_eq)
      then show ?thesis
        by (rule that) (rule finish [of _ _ ?ctx], use split_lines_rest todo(2) in simp_all)
    qed
  qed
qed

text \<open>A caller that feeds chunks to the encoder and keeps \<open>*out_len\<close> bytes of each output.\<close>

fun encode_chunks :: "evp_encode_ctx \<Rightarrow> bytes list \<Rightarrow> bytes" where
  "encode_chunks ctx [] = (case EVP_EncodeFinal ctx of (out, n, _) \<Rightarrow> take n out)"
| "encode_chunks ctx (c # cs) = (case EVP_EncodeUpdate ctx c of (out, n, ctx') \<Rightarrow> take n out @ encode_chunks ctx' cs)"

lemma encode_chunks_eq:
  "encoder_holds ctx t \<Longrightarrow> \<forall>c \<in> set cs. length c \<le> 1000000000 \<Longrightarrow> encode_chunks ctx cs = pem_lines (t @ concat cs)"
proof (induction cs arbitrary: ctx t)
  case Nil
  then show ?case
    by (auto simp: encoder_holds_def EVP_EncodeFinal_def encode_line_eq pem_lines_def split_lines_short)
next
  case (Cons c cs)
  have "length c \<le> 1000000000"
    using Cons.prems by simp
  then obtain ctx' where u: "EVP_EncodeUpdate ctx c = (fst (split_lines (t @ c)), length (fst (split_lines (t @ c))), ctx')"
    "encoder_holds ctx' (snd (split_lines (t @ c)))"
    using encode_update_holds [OF Cons.prems(1)] by blast
  have "pem_lines (t @ c @ concat cs) =
      fst (split_lines (t @ c)) @ pem_lines (snd (split_lines (t @ c)) @ concat cs)"
    using split_lines_append [of "t @ c" "concat cs"] by (simp add: pem_lines_def)
  with Cons.IH [OF u(2)] Cons.prems u(1) show ?case by simp
qed

section \<open>The decoded stream\<close>

lemma decode_loop_out:
  "decode_update_loop inp ctx (out @ o') = (case decode_update_loop inp ctx o' of (ok, o2, ctx') \<Rightarrow> (ok, out @ o2, ctx'))"
  by (induction inp ctx o' arbitrary: out rule: decode_update_loop.induct)
    (auto simp: Let_def split: option.splits)

lemma decode_loop_append:
  "decode_update_loop (x @ y) ctx out = (case decode_update_loop x ctx out of
     (ok, out', ctx') \<Rightarrow> if ok then decode_update_loop y ctx' out' else (False, out', ctx'))"
  by (induction x ctx out rule: decode_update_loop.induct) (auto simp: Let_def split: option.splits)

lemma decode_loop_no_error:
  "decode_update_loop x ctx out = (True, out', ctx') \<Longrightarrow> error_encountered ctx' = error_encountered ctx"
  by (induction x ctx out rule: decode_update_loop.induct) (auto simp: Let_def split: if_splits option.splits)

text \<open>Four characters into an empty quad.\<close>

lemma decode_loop_quad:
  assumes "data_used ctx = 0" "\<not> eof_seen ctx" "length (data ctx) = 48"
    and "\<not> is_space c0" "\<not> is_space c1" "\<not> is_space c2" "\<not> is_space c3"
    and "base64_decode_quad c0 c1 c2 c3 = Some bs"
  shows "\<exists>ctx'. decode_update_loop (c0 # c1 # c2 # c3 # inp) ctx out = decode_update_loop inp ctx' (out @ bs) \<and>
    data_used ctx' = 0 \<and> length (data ctx') = 48 \<and> eof_seen ctx' = (length bs < 3) \<and>
    error_encountered ctx' = error_encountered ctx"
proof -
  let ?d = "(data ctx)[0 := c0, 1 := c1, 2 := c2, 3 := c3]"
  let ?c = "ctx\<lparr>data := ?d, data_used := 0\<rparr>"
  let ?c' = "if length bs < 3 then ?c\<lparr>eof_seen := True\<rparr> else ?c"
  have d: "?d ! 0 = c0" "?d ! Suc 0 = c1" "?d ! 2 = c2" "?d ! 3 = c3"
    using assms(3) by simp_all
  show ?thesis
    by (rule exI [of _ ?c'])
      (use assms d in \<open>simp add: Let_def numeral_2_eq_2 [symmetric] numeral_3_eq_3 [symmetric]\<close>)
qed

lemma is_space_61: "\<not> is_space 61"
  by (simp add: is_space_def)

text \<open>An encoded block into an empty quad.\<close>

lemma decode_loop_block:
  "data_used ctx = 0 \<Longrightarrow> \<not> eof_seen ctx \<Longrightarrow> length (data ctx) = 48 \<Longrightarrow>
   \<exists>ctx'. decode_update_loop (encode_block_loop src @ inp) ctx out = decode_update_loop inp ctx' (out @ src) \<and>
     data_used ctx' = 0 \<and> length (data ctx') = 48 \<and> eof_seen ctx' = (length src mod 3 \<noteq> 0) \<and>
     error_encountered ctx' = error_encountered ctx"
proof (induction src arbitrary: ctx out rule: encode_block_loop.induct)
  case 1
  then show ?case by auto
next
  case (2 a)
  then show ?case
    using decode_loop_quad [OF 2 sextet_char(3) sextet_char(3) is_space_61 is_space_61 decode_encode_quad1 [OF refl], where inp = inp and out = out]
    unfolding encode_block_sextets(1) [OF refl] by simp
next
  case (3 a b)
  then show ?case
    using decode_loop_quad [OF 3 sextet_char(3) sextet_char(3) sextet_char(3) is_space_61 decode_encode_quad2 [OF refl], where inp = inp and out = out]
    unfolding encode_block_sextets(2) [OF refl] by simp
next
  case (4 a b c src)
  define l :: u32 where "l = push_bit 16 (ucast a) OR push_bit 8 (ucast b) OR ucast c"
  obtain ctx1 where q: "decode_update_loop (encode_block_loop (a # b # c # src) @ inp) ctx out =
      decode_update_loop (encode_block_loop src @ inp) ctx1 (out @ [a, b, c])"
    "data_used ctx1 = 0" "length (data ctx1) = 48" "\<not> eof_seen ctx1" "error_encountered ctx1 = error_encountered ctx"
    using decode_loop_quad [OF "4.prems" sextet_char(3) sextet_char(3) sextet_char(3) sextet_char(3) decode_encode_quad [OF l_def],
        where inp = "encode_block_loop src @ inp" and out = out]
    unfolding encode_block_sextets(3) [OF l_def] append.simps by (auto simp del: decode_update_loop.simps)
  have "length (a # b # c # src) mod 3 = length src mod 3"
    using mod_add_self2 [of "length src" 3] by simp
  with "4.IH" [OF refl q(2,4,3), of "out @ [a, b, c]"] q show ?case by simp
qed

lemma decode_loop_lines:
  "data_used ctx = 0 \<Longrightarrow> \<not> eof_seen ctx \<Longrightarrow> length (data ctx) = 48 \<Longrightarrow>
   \<exists>ctx'. decode_update_loop (pem_lines s) ctx out = (True, out @ s, ctx') \<and> data_used ctx' = 0"
proof (induction s arbitrary: ctx out rule: split_lines.induct)
  case (1 s)
  have newline: "is_space 10"
    by (simp add: is_space_def)
  show ?case
  proof (cases "length s \<ge> 48")
    case True
    have p: "pem_lines s = encode_block_loop (take 48 s) @ 10 # pem_lines (drop 48 s)"
      using True by (simp add: pem_lines_def split_lines.simps [of s])
    obtain ctx1 where q: "decode_update_loop (pem_lines s) ctx out = decode_update_loop (10 # pem_lines (drop 48 s)) ctx1 (out @ take 48 s)"
      "data_used ctx1 = 0" "length (data ctx1) = 48" "\<not> eof_seen ctx1"
      using decode_loop_block [OF "1.prems", of "take 48 s" "10 # pem_lines (drop 48 s)" out] True unfolding p by auto
    with "1.IH" [OF True q(2,4,3), of "out @ take 48 s"] newline show ?thesis by auto
  next
    case False
    show ?thesis
    proof (cases "s = []")
      case True
      with "1.prems" show ?thesis by (simp add: pem_lines_def split_lines_short)
    next
      case ne: False
      then have "pem_lines s = encode_block_loop s @ [10]"
        using False by (simp add: pem_lines_def split_lines_short)
      with decode_loop_block [OF "1.prems", of s "[10]" out] newline show ?thesis by auto
    qed
  qed
qed

text \<open>A caller that feeds pieces of text to the decoder: \<open>None\<close> when a call returns \<open>-1\<close>.\<close>

fun decode_chunks :: "evp_encode_ctx \<Rightarrow> bytes list \<Rightarrow> bytes option" where
  "decode_chunks ctx [] = (if EVP_DecodeFinal ctx = 1 then Some [] else None)"
| "decode_chunks ctx (c # cs) = (case EVP_DecodeUpdate ctx c of (ret, out, n, ctx') \<Rightarrow>
     if ret = - 1 then None else map_option (\<lambda>rest. take n out @ rest) (decode_chunks ctx' cs))"

lemma decode_chunks_eq:
  "decode_update_loop (concat cs) ctx [] = (True, r, ctx') \<Longrightarrow> data_used ctx' = 0 \<Longrightarrow>
   \<not> error_encountered ctx \<Longrightarrow> length r \<le> INT_MAX \<Longrightarrow> decode_chunks ctx cs = Some r"
proof (induction cs arbitrary: ctx r)
  case Nil
  then show ?case by (simp add: EVP_DecodeFinal_def)
next
  case (Cons c cs)
  obtain ok out1 ctx1 where l: "decode_update_loop c ctx [] = (ok, out1, ctx1)"
    by (cases "decode_update_loop c ctx []")
  then have ok: ok and rest: "decode_update_loop (concat cs) ctx1 out1 = (True, r, ctx')"
    using Cons.prems(1) by (auto simp: decode_loop_append split: if_splits)
  obtain ok2 out2 ctx2 where l2: "decode_update_loop (concat cs) ctx1 [] = (ok2, out2, ctx2)"
    by (cases "decode_update_loop (concat cs) ctx1 []")
  then have r: "ok2" "r = out1 @ out2" "ctx2 = ctx'"
    using rest decode_loop_out [of "concat cs" ctx1 out1 "[]"] by simp_all
  have "\<not> error_encountered ctx1"
    using decode_loop_no_error [of c ctx "[]" out1 ctx1] l ok Cons.prems(3) by simp
  with Cons.IH [of ctx1 out2] l2 r Cons.prems(2,4) have "decode_chunks ctx1 cs = Some out2"
    by simp
  with l ok r Cons.prems(3,4) show ?case
    by (auto simp: EVP_DecodeUpdate_def)
qed

section \<open>Properties\<close>

text \<open>
  One-shot base64 round trips: \<open>EVP_EncodeBlock\<close> writes the number of characters that
  \<open>EVP_EncodedLength\<close> promises less the NUL, and \<open>EVP_DecodeBase64\<close> with the room that
  \<open>EVP_DecodedLength\<close> asks for gives back the bytes; \<open>EVP_DecodeBlock\<close> pads them with NULs to whole triples.
\<close>

theorem base64_block_roundtrip:
  assumes "length src \<le> 1000000000" "EVP_EncodeBlock src = (dst, n)"
    and "take n dst = e"
  shows "EVP_EncodedLength (length src) = Some (n + 1) \<and> length dst = n + 1 \<and>
    (\<exists>max_len. EVP_DecodedLength n = Some max_len \<and> length src \<le> max_len \<and> EVP_DecodeBase64 max_len e = Some src) \<and>
    EVP_DecodeBlock e = Some (src @ replicate ((3 - length src mod 3) mod 3) 0)"
proof (intro conjI)
  have dst: "dst = encode_block_loop src @ [0]" "n = length (encode_block_loop src)" "e = encode_block_loop src"
    using assms by (auto simp: EVP_EncodeBlock_def)
  let ?q = "(length src + 2) div 3"
  have n: "n = ?q * 4" and q: "?q \<le> 1000000000" "length src \<le> ?q * 3" "?q * 3 \<le> length src + 2"
    using assms(1) by (simp_all add: dst(2) length_encode_block)
  show "EVP_EncodedLength (length src) = Some (n + 1)"
    using assms(1) q(1) by (simp add: EVP_EncodedLength_def Let_def n SIZE_MAX_def size_mul_def)
  show "length dst = n + 1"
    by (simp add: dst)
  have dl: "EVP_DecodedLength n = Some (?q * 3)"
    by (simp add: EVP_DecodedLength_def n)
  have e: "length e = n"
    by (simp add: dst)
  have dec: "EVP_DecodeBase64 (?q * 3) e = Some src"
    unfolding EVP_DecodeBase64_def e dl using decode_encode_block [of src] dst(3) by (simp add: n)
  with dl q(2) show "\<exists>max_len. EVP_DecodedLength n = Some max_len \<and> length src \<le> max_len \<and> EVP_DecodeBase64 max_len e = Some src"
    by blast
  have nospace: "\<not> is_space c" if "c \<in> set e" for c
    using that encode_block_chars dst(3) by simp
  have "dropWhile (\<lambda>c. c = 32 \<or> c = 9) e = e" "dropWhile is_space (rev e) = rev e"
  proof -
    have "e = [] \<or> \<not> is_space (hd e) \<and> \<not> is_space (last e)"
      using nospace by (cases "e = []") simp_all
    then show "dropWhile (\<lambda>c. c = 32 \<or> c = 9) e = e" "dropWhile is_space (rev e) = rev e"
      by (auto simp: dropWhile_eq_self_iff is_space_def hd_rev)
  qed
  then have "trim_input e = e"
    by (simp add: trim_input_def)
  with dl dec q(3) assms(1) show "EVP_DecodeBlock e = Some (src @ replicate ((3 - length src mod 3) mod 3) 0)"
    by (simp add: EVP_DecodeBlock_def Let_def e INT_MAX_def)
qed

lemma base64_block_roundtrip_witness:
  "EVP_EncodeBlock [77, 97] = ([84, 87, 69, 61, 0], 4) \<and> EVP_DecodeBlock [84, 87, 69, 61] = Some [77, 97, 0]"
proof
  show e: "EVP_EncodeBlock [77, 97] = ([84, 87, 69, 61, 0], 4)"
    by code_simp
  show "EVP_DecodeBlock [84, 87, 69, 61] = Some [77, 97, 0]"
    using base64_block_roundtrip [OF _ e refl] by simp
qed

text \<open>
  C6: streaming base64 does not depend on how the data is cut.  Whatever chunks are fed to
  \<open>EVP_EncodeUpdate\<close>, the output with that of \<open>EVP_EncodeFinal\<close> is the lines of 48 bytes of the whole
  input; and whatever pieces of that text are fed to \<open>EVP_DecodeUpdate\<close>, the output is the input again.
\<close>

theorem base64_stream_roundtrip:
  assumes "\<forall>c \<in> set chunks. length c \<le> 1000000000" "length (concat chunks) \<le> INT_MAX"
    and "concat pieces = encode_chunks EVP_EncodeInit chunks"
  shows "encode_chunks EVP_EncodeInit chunks = pem_lines (concat chunks) \<and>
    decode_chunks EVP_DecodeInit pieces = Some (concat chunks)"
proof
  show enc: "encode_chunks EVP_EncodeInit chunks = pem_lines (concat chunks)"
    using encode_chunks_eq [OF encoder_holds_init assms(1)] by simp
  obtain ctx' where "decode_update_loop (concat pieces) EVP_DecodeInit [] = (True, concat chunks, ctx')" "data_used ctx' = 0"
    using decode_loop_lines [of EVP_DecodeInit "concat chunks" "[]"] assms(3)
    by (auto simp: enc EVP_DecodeInit_def sizeof_data_def)
  then show "decode_chunks EVP_DecodeInit pieces = Some (concat chunks)"
    using assms(2) by (intro decode_chunks_eq) (simp_all add: EVP_DecodeInit_def)
qed

definition demo_chunks :: "bytes list" where
  "demo_chunks = [map of_nat [1..<30], map of_nat [30..<60]]"

definition demo_text :: bytes where
  "demo_text = encode_chunks EVP_EncodeInit demo_chunks"

lemma base64_stream_roundtrip_witness:
  "demo_text ! 64 = 10 \<and> length demo_text = 82 \<and>
   decode_chunks EVP_DecodeInit [take 7 demo_text, drop 7 demo_text] = Some (concat demo_chunks)"
proof -
  have txt_ok: "demo_text ! 64 = 10 \<and> length demo_text = 82"
    by code_simp
  have len: "\<forall>c \<in> set demo_chunks. length c \<le> 1000000000"
    by (simp add: demo_chunks_def)
  have "length (concat demo_chunks) = 59"
    by code_simp
  then have small: "length (concat demo_chunks) \<le> INT_MAX"
    by (simp add: INT_MAX_def)
  have "concat [take 7 demo_text, drop 7 demo_text] = encode_chunks EVP_EncodeInit demo_chunks"
    unfolding demo_text_def [symmetric] by simp
  from conjunct2 [OF base64_stream_roundtrip [OF len small this]] txt_ok show ?thesis
    by (simp only: simp_thms)
qed

end
