(* ===== verification/Time_Support.thy ===== *)
theory Time_Support
  imports Prelude "HOL-Library.Signed_Division"
begin

text \<open>
  \<open>crypto/asn1/time_support.c\<close>: calendar arithmetic on \<open>struct tm\<close> by Julian day numbers.  \<open>sdiv\<close> and \<open>smod\<close>
  are the truncating division of C.  A \<open>long\<close> is 64 bits wide and an \<open>int\<close> 32: \<open>c_int\<close> is the conversion
  where the code narrows, and the wrap-around of the product that can leave \<open>int\<close>; the Julian formulas
  themselves stay inside for the years of the calendar.
\<close>

section \<open>Definitions\<close>

record tm =
  tm_sec :: int
  tm_min :: int
  tm_hour :: int
  tm_mday :: int
  tm_mon :: int
  tm_year :: int

definition SECS_PER_DAY :: int where
  "SECS_PER_DAY = 24 * 60 * 60"

definition date_to_julian :: "int \<Rightarrow> int \<Rightarrow> int \<Rightarrow> int" where
  "date_to_julian y m d =
     (1461 * (y + 4800 + (m - 14) sdiv 12)) sdiv 4 +
     (367 * (m - 2 - 12 * ((m - 14) sdiv 12))) sdiv 12 -
     (3 * ((y + 4900 + (m - 14) sdiv 12) sdiv 100)) sdiv 4 + d - 32075"

definition julian_to_date :: "int \<Rightarrow> int \<times> int \<times> int" where
  "julian_to_date jd =
     (let L = jd + 68569;
          n = (4 * L) sdiv 146097;
          L = L - (146097 * n + 3) sdiv 4;
          i = (4000 * (L + 1)) sdiv 1461001;
          L = L - (1461 * i) sdiv 4 + 31;
          j = (80 * L) sdiv 2447;
          d = c_int (L - (2447 * j) sdiv 80);
          L = j sdiv 11;
          m = c_int (j + 2 - 12 * L);
          y = c_int (100 * (n - 49) + i + L)
      in (y, m, d))"

text \<open>The Julian day and the second of the day of \<open>tm\<close> moved by the offsets.\<close>

definition julian_adj :: "tm \<Rightarrow> int \<Rightarrow> int \<Rightarrow> (int \<times> int) option" where
  "julian_adj t off_day offset_sec =
     (let offset_day = c_int (offset_sec sdiv SECS_PER_DAY);
          offset_hms = c_int (offset_sec - c_int (offset_day * SECS_PER_DAY));
          offset_day = offset_day + off_day;
          offset_hms = offset_hms + (tm_hour t * 3600 + tm_min t * 60 + tm_sec t);
          (offset_day, offset_hms) =
            (if offset_hms \<ge> SECS_PER_DAY then (offset_day + 1, offset_hms - SECS_PER_DAY)
             else if offset_hms < 0 then (offset_day - 1, offset_hms + SECS_PER_DAY)
             else (offset_day, offset_hms));
          time_year = tm_year t + 1900;
          time_month = tm_mon t + 1;
          time_day = tm_mday t;
          time_jd = date_to_julian time_year time_month time_day + offset_day
      in if time_jd < 0 then None else Some (time_jd, offset_hms))"

definition OPENSSL_gmtime_adj :: "tm \<Rightarrow> int \<Rightarrow> int \<Rightarrow> tm option" where
  "OPENSSL_gmtime_adj t off_day offset_sec = (case julian_adj t off_day offset_sec of
     None \<Rightarrow> None
   | Some (time_jd, time_sec) \<Rightarrow> (case julian_to_date time_jd of (time_year, time_month, time_day) \<Rightarrow>
       if time_year < 1900 \<or> time_year > 9999 then None
       else Some \<lparr>tm_sec = time_sec smod 60, tm_min = (time_sec sdiv 60) smod 60, tm_hour = time_sec sdiv 3600,
                  tm_mday = time_day, tm_mon = time_month - 1, tm_year = time_year - 1900\<rparr>))"

definition OPENSSL_gmtime_diff :: "tm \<Rightarrow> tm \<Rightarrow> (int \<times> int) option" where
  "OPENSSL_gmtime_diff from_tm to_tm = (case julian_adj from_tm 0 0 of
     None \<Rightarrow> None
   | Some (from_jd, from_sec) \<Rightarrow> (case julian_adj to_tm 0 0 of
       None \<Rightarrow> None
     | Some (to_jd, to_sec) \<Rightarrow>
         let diff_day = to_jd - from_jd;
             diff_sec = to_sec - from_sec;
             (diff_day, diff_sec) =
               (if diff_day > 0 \<and> diff_sec < 0 then (diff_day - 1, diff_sec + SECS_PER_DAY) else (diff_day, diff_sec));
             (diff_day, diff_sec) =
               (if diff_day < 0 \<and> diff_sec > 0 then (diff_day + 1, diff_sec - SECS_PER_DAY) else (diff_day, diff_sec))
         in Some (c_int diff_day, diff_sec)))"

section \<open>The calendar\<close>

definition leap_year :: "int \<Rightarrow> bool" where
  "leap_year y \<longleftrightarrow> y mod 4 = 0 \<and> (y mod 100 \<noteq> 0 \<or> y mod 400 = 0)"

definition month_days :: "int \<Rightarrow> int \<Rightarrow> int" where
  "month_days y m = (if m = 2 then (if leap_year y then 29 else 28) else if m \<in> {4, 6, 9, 11} then 30 else 31)"

definition valid_date :: "int \<Rightarrow> int \<Rightarrow> int \<Rightarrow> bool" where
  "valid_date y m d \<longleftrightarrow> - 4713 \<le> y \<and> 1 \<le> m \<and> m \<le> 12 \<and> 1 \<le> d \<and> d \<le> month_days y m"

lemma sdiv_pos: "0 \<le> a \<Longrightarrow> a sdiv numeral n = a div (numeral n :: int)"
  by (simp add: signed_divide_int_def sgn_if)

lemma smod_pos: "0 \<le> a \<Longrightarrow> a smod numeral n = a mod (numeral n :: int)"
  by (simp add: signed_modulo_int_def sgn_if)

lemma div_eqI: "(b :: int) * q \<le> a \<Longrightarrow> a < b * q + b \<Longrightarrow> a div b = q"
  by (rule int_div_pos_eq [of a b q "a - b * q"]) simp_all

text \<open>Years that start in March: the shift, the number of the month in it, and the days before the month.\<close>

lemma date_to_julian_march:
  assumes "1 \<le> m" "m \<le> 12" "- 4713 \<le> y" and "a = (if m \<le> 2 then 1 else 0)"
  shows "date_to_julian y m d =
    (1461 * (y + 4800 - a)) div 4 + (367 * (m - 2 + 12 * a)) div 12 - (3 * ((y + 4900 - a) div 100)) div 4 + d - 32075"
proof -
  have "(m - 14) sdiv 12 = - a"
  proof -
    have "(14 - m) sdiv 12 = a"
      using assms by (auto simp: sdiv_pos div_eqI)
    then show ?thesis
      using minus_sdiv_eq [of "14 - m" 12] by simp
  qed
  moreover have "0 \<le> m - 2 + 12 * a" "0 \<le> y + 4800 - a"
    using assms by auto
  moreover then have "0 \<le> (y + 4900 - a) div 100"
    by (simp add: pos_imp_zdiv_nonneg_iff)
  ultimately show ?thesis
    unfolding date_to_julian_def by (simp add: sdiv_pos)
qed

text \<open>A year as four centuries, centuries, four-year cycles and years.\<close>

lemma year_cycles:
  fixes Y :: int
  assumes "0 \<le> Y"
  obtains k t p s where "Y = 400 * k + 100 * t + 4 * p + s" "0 \<le> k" "0 \<le> t" "t < 4" "0 \<le> p" "p < 25" "0 \<le> s" "s < 4"
proof
  show "Y = 400 * (Y div 400) + 100 * (Y mod 400 div 100) + 4 * (Y mod 100 div 4) + Y mod 4"
  proof -
    have "Y mod 400 mod 100 = Y mod 100" "Y mod 100 mod 4 = Y mod 4"
      by (simp_all add: mod_mod_cancel)
    then show ?thesis
      using div_mult_mod_eq [of Y 400] div_mult_mod_eq [of "Y mod 400" 100] div_mult_mod_eq [of "Y mod 100" 4] by linarith
  qed
qed (use assms in \<open>simp_all add: pos_imp_zdiv_nonneg_iff\<close>)

lemma leap_cycles:
  assumes "Y = 400 * k + 100 * t + 4 * p + s" "0 \<le> t" "t < 4" "0 \<le> p" "p < 25" "0 \<le> s" "s < (4 :: int)"
  shows "leap_year (Y + 1) \<longleftrightarrow> s = 3 \<and> (p = 24 \<longrightarrow> t = 3)"
proof -
  have small: "s = 0 \<or> s = 1 \<or> s = 2 \<or> s = 3" "t = 0 \<or> t = 1 \<or> t = 2 \<or> t = 3"
    using assms by linarith+
  have "(Y + 1) mod 4 = (s + 1) mod 4"
    using mod_mult_self2 [of "s + 1" 4 "100 * k + 25 * t + p"] by (simp add: assms(1) algebra_simps)
  then have four: "(Y + 1) mod 4 = 0 \<longleftrightarrow> s = 3"
    using small(1) by auto
  have "(Y + 1) mod 100 = (4 * p + s + 1) mod 100"
    using mod_mult_self2 [of "4 * p + s + 1" 100 "4 * k + t"] by (simp add: assms(1) algebra_simps)
  moreover have "(4 * p + s + 1) mod 100 = 0 \<longleftrightarrow> 4 * p + s = 99"
  proof (cases "4 * p + s = 99")
    case True
    then have "4 * p + s + 1 = 100" by simp
    with True show ?thesis by simp
  next
    case False
    with assms show ?thesis by (simp add: mod_pos_pos_trivial)
  qed
  ultimately have century: "(Y + 1) mod 100 = 0 \<longleftrightarrow> 4 * p + s = 99"
    by simp
  have "4 * p + s = 99 \<longleftrightarrow> p = 24 \<and> s = 3"
    using assms by linarith
  moreover have "(Y + 1) mod 400 = 0 \<longleftrightarrow> t = 3" if "4 * p + s = 99"
  proof -
    have "Y + 1 = 100 * (t + 1) + 400 * k"
      using that assms(1) by simp
    then have "(Y + 1) mod 400 = (100 * (t + 1)) mod 400"
      by (simp only: mod_mult_self2)
    then show ?thesis using small(2) by auto
  qed
  ultimately show ?thesis
    unfolding leap_year_def four century by auto
qed

section \<open>Julian days and dates\<close>

text \<open>The month table: with \<open>e\<close> the days since the first of March.\<close>

lemma month_table:
  assumes "valid_date y m d" and "a = (if m \<le> 2 then 1 else 0)" and "M = m - 2 + 12 * a"
    and "e = (367 * M) div 12 + d - 31"
  shows "0 \<le> e" "e \<le> 365" "e = 365 \<Longrightarrow> leap_year y \<and> a = 1" "(80 * (e + 31)) div 2447 = M"
    "e + 31 - (2447 * M) div 80 = d" "1 \<le> M" "M \<le> 12" "M div 11 = a" "M + 2 - 12 * a = m"
proof -
  have m: "m = 1 \<or> m = 2 \<or> m = 3 \<or> m = 4 \<or> m = 5 \<or> m = 6 \<or> m = 7 \<or> m = 8 \<or> m = 9 \<or> m = 10 \<or> m = 11 \<or> m = 12"
  proof -
    have "1 \<le> m" "m \<le> 12"
      using assms(1) by (simp_all add: valid_date_def)
    then show ?thesis by presburger
  qed
  have d: "1 \<le> d" "d \<le> month_days y m"
    using assms(1) by (simp_all add: valid_date_def)
  have "0 \<le> e \<and> e \<le> 365 \<and> (e = 365 \<longrightarrow> leap_year y \<and> a = 1) \<and> (80 * (e + 31)) div 2447 = M \<and>
    e + 31 - (2447 * M) div 80 = d \<and> 1 \<le> M \<and> M \<le> 12 \<and> M div 11 = a \<and> M + 2 - 12 * a = m"
    using m d
    by (elim disjE) (auto simp: assms(2-4) month_days_def split: if_splits intro!: div_eqI)
  then show "0 \<le> e" "e \<le> 365" "e = 365 \<Longrightarrow> leap_year y \<and> a = 1" "(80 * (e + 31)) div 2447 = M"
    "e + 31 - (2447 * M) div 80 = d" "1 \<le> M" "M \<le> 12" "M div 11 = a" "M + 2 - 12 * a = m"
    by simp_all
qed

text \<open>The day number in cycles, and the arithmetic that takes it apart.\<close>

lemma julian_cycles:
  assumes "Y = 400 * k + 100 * t + 4 * p + s" "0 \<le> t" "t < 4" "0 \<le> p" "p < 25" "0 \<le> s" "s < (4 :: int)"
  shows "(1461 * Y) div 4 - (3 * ((Y + 100) div 100)) div 4 = 146097 * k + 36524 * t + 1461 * p + 365 * s"
proof -
  have "(Y + 100) div 100 = 4 * k + t + 1"
    by (rule div_eqI) (use assms in simp_all)
  moreover have "(3 * (4 * k + t + 1)) div 4 = 3 * k + t"
    by (rule div_eqI) (use assms in simp_all)
  moreover have "(1461 * Y) div 4 = 1461 * (100 * k + 25 * t + p) + 365 * s"
    by (rule div_eqI) (use assms in simp_all)
  ultimately show ?thesis by simp
qed

lemma julian_decode:
  assumes "L = 146097 * k + 36524 * t + 1461 * p + 365 * s + e + 36525"
    and "0 \<le> t" "t < 4" "0 \<le> p" "p < 25" "0 \<le> s" "s < (4 :: int)" "0 \<le> e" "e \<le> 365"
    and "e = 365 \<Longrightarrow> s = 3 \<and> (p = 24 \<longrightarrow> t = 3)"
  shows "(4 * L) div 146097 = 4 * k + t + 1"
    "L - (146097 * (4 * k + t + 1) + 3) div 4 = 1461 * p + 365 * s + e"
    "(4000 * (1461 * p + 365 * s + e + 1)) div 1461001 = 4 * p + s"
    "1461 * p + 365 * s + e - (1461 * (4 * p + s)) div 4 + 31 = e + 31"
proof -
  have full: "5844 * p + 1460 * s + 4 * e + 3 - t < 146097"
  proof (cases "e = 365")
    case True
    with assms(10) have "s = 3" "p = 24 \<longrightarrow> t = 3" by simp_all
    then show ?thesis
      using assms True by (cases "p = 24") simp_all
  qed (use assms in simp)
  show "(4 * L) div 146097 = 4 * k + t + 1"
    by (rule div_eqI) (use assms full in simp_all)
  have "(146097 * (4 * k + t + 1) + 3) div 4 = 146097 * k + 36525 + 36524 * t"
    by (rule div_eqI) (use assms in simp_all)
  with assms(1) show "L - (146097 * (4 * k + t + 1) + 3) div 4 = 1461 * p + 365 * s + e"
    by simp
  show "(4000 * (1461 * p + 365 * s + e + 1)) div 1461001 = 4 * p + s"
  proof (rule div_eqI)
    show "4000 * (1461 * p + 365 * s + e + 1) < 1461001 * (4 * p + s) + 1461001"
      using assms by (cases "e = 365") simp_all
  qed (use assms in simp)
  have "(1461 * (4 * p + s)) div 4 = 1461 * p + 365 * s"
    by (rule div_eqI) (use assms in simp_all)
  then show "1461 * p + 365 * s + e - (1461 * (4 * p + s)) div 4 + 31 = e + 31"
    by simp
qed

text \<open>Days before the March year \<open>Y\<close>.\<close>

definition cycle_days :: "int \<Rightarrow> int" where
  "cycle_days Y = (1461 * Y) div 4 - (3 * ((Y + 100) div 100)) div 4"

lemma cycle_days_step:
  assumes "0 \<le> Y"
  shows "cycle_days (Y + 1) = cycle_days Y + (if leap_year (Y + 1) then 366 else 365)"
proof -
  obtain k t p s where c: "Y = 400 * k + 100 * t + 4 * p + s" "0 \<le> k" "0 \<le> t" "t < 4" "0 \<le> p" "p < 25" "0 \<le> s" "s < 4"
    using year_cycles [OF assms] by blast
  note now = julian_cycles [OF c(1,3-8), folded cycle_days_def]
  note leap = leap_cycles [OF c(1,3-8)]
  have days: "cycle_days (400 * k' + 100 * t' + 4 * p' + s') = 146097 * k' + 36524 * t' + 1461 * p' + 365 * s'"
    if "0 \<le> t'" "t' < 4" "0 \<le> p'" "p' < 25" "0 \<le> s'" "s' < 4" for k' t' p' s'
    using julian_cycles [OF refl that] by (simp add: cycle_days_def)
  consider "s < 3" | "s = 3" "p < 24" | "s = 3" "p = 24" "t < 3" | "s = 3" "p = 24" "t = 3"
    using c by linarith
  then show ?thesis
  proof cases
    case 1
    with c now leap days [of t p "s + 1" k] show ?thesis by (simp add: algebra_simps)
  next
    case 2
    with c now leap days [of t "p + 1" 0 k] show ?thesis by (simp add: algebra_simps)
  next
    case 3
    with c now leap days [of "t + 1" 0 0 k] show ?thesis by (simp add: algebra_simps)
  next
    case 4
    with c now leap days [of 0 0 0 "k + 1"] show ?thesis by (simp add: algebra_simps)
  qed
qed

lemma cycle_days_mono:
  assumes "0 \<le> X" "X \<le> Y"
  shows "cycle_days X + 365 * (Y - X) \<le> cycle_days Y"
  using assms(2)
proof (induction Y rule: int_ge_induct)
  case (step Y)
  with cycle_days_step [of Y] assms(1) show ?case by auto
qed simp

lemma leap_year_shift: "leap_year (y + 4800) \<longleftrightarrow> leap_year y"
  using mod_mult_self2 [of y 4 1200] mod_mult_self2 [of y 100 48] mod_mult_self2 [of y 400 12]
  by (simp add: leap_year_def)

lemma date_to_julian_eq:
  assumes "valid_date y m d" "a = (if m \<le> 2 then 1 else 0)"
  shows "date_to_julian y m d = cycle_days (y + 4800 - a) + (367 * (m - 2 + 12 * a)) div 12 + d - 32075"
proof -
  have "y + 4900 - a = y + 4800 - a + 100"
    by simp
  then show ?thesis
    using assms date_to_julian_march [of m y a d] unfolding cycle_days_def valid_date_def
    by (simp add: add.commute)
qed

lemma date_roundtrip:
  assumes "valid_date y m d" "y \<le> 100000000"
  shows "julian_to_date (date_to_julian y m d) = (y, m, d)" 
proof -
  define a :: int where "a = (if m \<le> 2 then 1 else 0)"
  define M where "M = m - 2 + 12 * a"
  define e where "e = (367 * M) div 12 + d - 31"
  note tab = month_table [OF assms(1) a_def M_def e_def]
  have Y: "0 \<le> y + 4800 - a"
    using assms by (simp add: valid_date_def a_def)
  obtain k t p s where c: "y + 4800 - a = 400 * k + 100 * t + 4 * p + s" "0 \<le> k" "0 \<le> t" "t < 4" "0 \<le> p" "p < 25" "0 \<le> s" "s < 4"
    using year_cycles [OF Y] by blast
  have "e = 365 \<Longrightarrow> leap_year (y + 4800 - a + 1)"
    using tab(3) leap_year_shift [of y] by (simp add: add.commute)
  then have leap: "e = 365 \<Longrightarrow> s = 3 \<and> (p = 24 \<longrightarrow> t = 3)"
    using leap_cycles [OF c(1,3-8)] by simp
  define L where "L = date_to_julian y m d + 68569"
  have L: "L = 146097 * k + 36524 * t + 1461 * p + 365 * s + e + 36525"
    using date_to_julian_eq [OF assms(1) a_def] julian_cycles [OF c(1,3-8), folded cycle_days_def]
    by (simp add: L_def e_def M_def)
  note dec = julian_decode [OF L c(3-8) tab(1,2) leap]
  have pos: "0 \<le> 4 * L" "0 \<le> 146097 * (4 * k + t + 1) + 3" "0 \<le> 4000 * (1461 * p + 365 * s + e + 1)"
    "0 \<le> 1461 * (4 * p + s)" "0 \<le> 80 * (e + 31)" "0 \<le> 2447 * M" "0 \<le> M"
    using c tab L by simp_all
  have y: "100 * (4 * k + t + 1 - 49) + (4 * p + s) + a = y"
    using c(1) by simp
  have small: "1 \<le> m" "m \<le> 12" "1 \<le> d" "d \<le> 31" "- 4713 \<le> y"
    using assms(1) by (auto simp: valid_date_def month_days_def split: if_splits)
  have n: "(4 * L) sdiv 146097 = 4 * k + t + 1"
    using dec(1) pos(1) by (simp add: sdiv_pos)
  have L1: "L - (146097 * (4 * k + t + 1) + 3) sdiv 4 = 1461 * p + 365 * s + e"
    using dec(2) unfolding sdiv_pos [OF pos(2)] .
  have i: "(4000 * (1461 * p + 365 * s + e + 1)) sdiv 1461001 = 4 * p + s"
    using dec(3) unfolding sdiv_pos [OF pos(3)] .
  have L2: "1461 * p + 365 * s + e - (1461 * (4 * p + s)) sdiv 4 + 31 = e + 31"
    using dec(4) unfolding sdiv_pos [OF pos(4)] .
  have j: "(80 * (e + 31)) sdiv 2447 = M"
    using tab(4) unfolding sdiv_pos [OF pos(5)] .
  have d: "e + 31 - (2447 * M) sdiv 80 = d"
    using tab(5) unfolding sdiv_pos [OF pos(6)] .
  have L3: "M sdiv 11 = a"
    using tab(8) unfolding sdiv_pos [OF pos(7)] .
  show ?thesis
    unfolding julian_to_date_def Let_def L_def [symmetric] n L1 i L2 j d L3 tab(9) y
    using small assms(2) by (simp add: c_int_small)
qed

lemma next_day:
  assumes "valid_date y m d"
  obtains y' m' d' where "valid_date y' m' d'" "date_to_julian y' m' d' = date_to_julian y m d + 1"
proof (cases "d < month_days y m")
  case True
  with assms have "valid_date y m (d + 1)"
    by (simp add: valid_date_def)
  moreover have "date_to_julian y m (d + 1) = date_to_julian y m d + 1"
    by (simp add: date_to_julian_def)
  ultimately show thesis by (rule that)
next
  case False
  then have d: "d = month_days y m" and y: "- 4713 \<le> y" and m: "1 \<le> m" "m \<le> 12"
    using assms by (simp_all add: valid_date_def)
  have "1 \<le> month_days y' m'" for y' m'
    by (simp add: month_days_def)
  then have first: "valid_date y (m + 1) 1" if "m < 12"
    using that y m by (simp add: valid_date_def)
  have new_year: "valid_date (y + 1) 1 1"
    using y by (simp add: valid_date_def month_days_def)
  have m_cases: "m = 1 \<or> m = 2 \<or> m = 3 \<or> m = 4 \<or> m = 5 \<or> m = 6 \<or> m = 7 \<or> m = 8 \<or> m = 9 \<or> m = 10 \<or> m = 11 \<or> m = 12"
    using m by presburger
  show thesis
  proof (cases "m = 12")
    case True
    have "date_to_julian (y + 1) 1 1 = date_to_julian y m d + 1"
      using date_to_julian_eq [OF assms refl] date_to_julian_eq [OF new_year refl] True d
      by (simp add: month_days_def add.commute)
    with new_year show thesis by (rule that)
  next
    case False
    then have less: "m < 12" using m by simp
    have "date_to_julian y (m + 1) 1 = date_to_julian y m d + 1"
    proof (cases "m = 2")
      case True
      have "cycle_days (y + 4800) = cycle_days (y + 4799) + (if leap_year y then 366 else 365)"
        using cycle_days_step [of "y + 4799"] y leap_year_shift [of y] by (simp add: add.commute)
      then show ?thesis
        using date_to_julian_eq [OF assms refl] date_to_julian_eq [OF first [OF less] refl] True d
        by (simp add: month_days_def add.commute)
    next
      case not_feb: False
      show ?thesis
        using m_cases False not_feb date_to_julian_eq [OF assms refl] date_to_julian_eq [OF first [OF less] refl] d
        by (elim disjE) (simp_all add: month_days_def)
    qed
    with first [OF less] show thesis by (rule that)
  qed
qed

lemma date_of_day:
  assumes "0 \<le> jd"
  shows "\<exists>y m d. valid_date y m d \<and> date_to_julian y m d = jd"
  using assms
proof (induction jd rule: int_ge_induct)
  case base
  have "valid_date (- 4713) 11 24 \<and> date_to_julian (- 4713) 11 24 = 0"
    by (simp add: valid_date_def month_days_def date_to_julian_def)
  then show ?case by blast
next
  case (step jd)
  then obtain y m d where "valid_date y m d" "date_to_julian y m d = jd" by blast
  with next_day [of y m d] show ?case by metis
qed

lemma year_before:
  assumes "valid_date y m d" "- 4713 \<le> y'"
  shows "y < y' \<longleftrightarrow> date_to_julian y m d < date_to_julian y' 1 1"
proof -
  define a :: int where "a = (if m \<le> 2 then 1 else 0)"
  have first: "valid_date y' 1 1"
    using assms(2) by (simp add: valid_date_def month_days_def)
  have start: "date_to_julian y' 1 1 = cycle_days (y' + 4799) + 337 - 32075"
    using date_to_julian_eq [OF first refl] by (simp add: add.commute)
  note tab = month_table [OF assms(1) a_def refl refl]
  have here: "date_to_julian y m d = cycle_days (y + 4800 - a) + ((367 * (m - 2 + 12 * a)) div 12 + d - 31) + 31 - 32075"
    using date_to_julian_eq [OF assms(1) a_def] by simp
  have m: "1 \<le> m" "m \<le> 12" "- 4713 \<le> y" "1 \<le> d" "d \<le> 31"
    using assms(1) by (auto simp: valid_date_def month_days_def split: if_splits)
  have m_cases: "m = 1 \<or> m = 2 \<or> m = 3 \<or> m = 4 \<or> m = 5 \<or> m = 6 \<or> m = 7 \<or> m = 8 \<or> m = 9 \<or> m = 10 \<or> m = 11 \<or> m = 12"
    using m by presburger
  have late: "306 \<le> (367 * (m - 2 + 12 * a)) div 12 + d - 31" if "a = 1"
    using m_cases m(4) that by (elim disjE) (simp_all add: a_def)
  have early: "(367 * (m - 2 + 12 * a)) div 12 + d - 31 \<le> 305" if "a = 0"
    using m_cases m(5) that by (elim disjE) (simp_all add: a_def)
  have a: "a = 0 \<or> a = 1"
    by (simp add: a_def)
  show ?thesis
  proof
    assume less: "y < y'"
    have "cycle_days (y + 4800 - a) + 365 * (y' + 4799 - (y + 4800 - a)) \<le> cycle_days (y' + 4799)"
      by (rule cycle_days_mono) (use less m a in auto)
    with here start tab(2) early less a show "date_to_julian y m d < date_to_julian y' 1 1"
      by auto
  next
    assume less: "date_to_julian y m d < date_to_julian y' 1 1"
    show "y < y'"
    proof (rule ccontr)
      assume "\<not> y < y'"
      then have "cycle_days (y' + 4799) + 365 * (y + 4800 - a - (y' + 4799)) \<le> cycle_days (y + 4800 - a)"
        by (intro cycle_days_mono) (use assms(2) a in auto)
      with here start tab(1) late less a \<open>\<not> y < y'\<close> show False
        by auto
    qed
  qed
qed

section \<open>Times\<close>

definition valid_tm :: "tm \<Rightarrow> bool" where
  "valid_tm t \<longleftrightarrow> valid_date (tm_year t + 1900) (tm_mon t + 1) (tm_mday t) \<and> 0 \<le> tm_year t \<and> tm_year t \<le> 8099 \<and>
     0 \<le> tm_hour t \<and> tm_hour t < 24 \<and> 0 \<le> tm_min t \<and> tm_min t < 60 \<and> 0 \<le> tm_sec t \<and> tm_sec t < 60"

definition tm_jd :: "tm \<Rightarrow> int" where
  "tm_jd t = date_to_julian (tm_year t + 1900) (tm_mon t + 1) (tm_mday t)"

definition tm_hms :: "tm \<Rightarrow> int" where
  "tm_hms t = tm_hour t * 3600 + tm_min t * 60 + tm_sec t"

text \<open>Seconds since the start of Julian day 0.\<close>

definition tm_seconds :: "tm \<Rightarrow> int" where
  "tm_seconds t = tm_jd t * 86400 + tm_hms t"

lemma first_day: "date_to_julian 1900 1 1 = 2415021" "date_to_julian 10000 1 1 = 5373485"
  by (simp_all add: date_to_julian_def)

lemma tm_hms_bounds: "valid_tm t \<Longrightarrow> 0 \<le> tm_hms t \<and> tm_hms t < 86400"
  by (auto simp: valid_tm_def tm_hms_def)

lemma tm_jd_bounds:
  assumes "valid_tm t"
  shows "2415021 \<le> tm_jd t" "tm_jd t < 5373485"
proof -
  have d: "valid_date (tm_year t + 1900) (tm_mon t + 1) (tm_mday t)" "0 \<le> tm_year t" "tm_year t \<le> 8099"
    using assms by (simp_all add: valid_tm_def)
  show "2415021 \<le> tm_jd t" "tm_jd t < 5373485"
    using year_before [OF d(1), of 1900] year_before [OF d(1), of 10000] d(2,3)
    by (simp_all add: tm_jd_def first_day)
qed

lemma tm_seconds_split:
  assumes "valid_tm t"
  shows "tm_seconds t div 86400 = tm_jd t" "tm_seconds t mod 86400 = tm_hms t"
proof -
  have e: "tm_seconds t = 86400 * tm_jd t + tm_hms t"
    by (simp add: tm_seconds_def)
  show "tm_seconds t div 86400 = tm_jd t" "tm_seconds t mod 86400 = tm_hms t"
    using tm_hms_bounds [OF assms]
    by (auto intro: int_div_pos_eq [OF e] int_mod_pos_eq [OF e])
qed

text \<open>The offset in seconds is split exactly, whatever the product wraps to.\<close>

lemma c_int_mod: "c_int x mod 4294967296 = x mod 4294967296"
  by (simp add: c_int_def mod_diff_left_eq)

lemma c_int_absorb: "c_int (x - c_int y) = c_int (x - y)"
proof -
  have "(x - c_int y + 2147483648) mod 4294967296 = (x - y + 2147483648) mod 4294967296"
    by (metis c_int_mod mod_add_left_eq mod_diff_right_eq)
  then show ?thesis by (simp add: c_int_def)
qed

lemma sdiv_day: "x sdiv 86400 * 86400 \<le> x + 86399" "x \<le> x sdiv 86400 * 86400 + 86399" for x :: int
proof -
  have "x sdiv 86400 * 86400 + x smod 86400 = x"
    by (rule sdiv_mult_smod_eq)
  moreover have "- 86400 < x smod 86400 \<and> x smod 86400 < 86400"
    using smod_int_range [of 86400 x] by (auto simp: smod_int_range)
  ultimately show "x sdiv 86400 * 86400 \<le> x + 86399" "x \<le> x sdiv 86400 * 86400 + 86399"
    by linarith+
qed

lemma julian_adj_eq:
  assumes "valid_tm t" "\<bar>off_day\<bar> \<le> 1000000000" "\<bar>offset_sec\<bar> \<le> 86400000000000"
  shows "julian_adj t off_day offset_sec =
    (let total = tm_seconds t + off_day * 86400 + offset_sec
     in if total < 0 then None else Some (total div 86400, total mod 86400))"
proof -
  define q where "q = offset_sec sdiv 86400"
  define r where "r = offset_sec - q * 86400"
  have r: "- 86400 < r" "r < 86400"
    using sdiv_day [of offset_sec] by (simp_all add: q_def r_def)
  then have q: "- 1000000001 \<le> q" "q \<le> 1000000001"
    using assms(3) by (auto simp: r_def)
  have c: "c_int q = q" "c_int (offset_sec - c_int (q * 86400)) = r"
    using q r unfolding c_int_absorb r_def [symmetric] by (simp_all add: c_int_small)
  have hms: "0 \<le> tm_hms t" "tm_hms t < 86400"
    using tm_hms_bounds [OF assms(1)] by simp_all
  define total where "total = tm_seconds t + off_day * 86400 + offset_sec"
  have total: "total = (tm_jd t + q + off_day) * 86400 + (r + tm_hms t)"
    by (simp add: total_def r_def tm_seconds_def)
  define c where "c = (if r + tm_hms t \<ge> 86400 then 1 else if r + tm_hms t < 0 then - 1 else (0 :: int))"
  have rest: "0 \<le> r + tm_hms t - c * 86400" "r + tm_hms t - c * 86400 < 86400"
    using r hms by (auto simp: c_def)
  have split: "total = 86400 * (tm_jd t + q + off_day + c) + (r + tm_hms t - c * 86400)"
    by (simp add: total algebra_simps)
  have dm: "total div 86400 = tm_jd t + q + off_day + c" "total mod 86400 = r + tm_hms t - c * 86400"
    by (rule int_div_pos_eq [OF split rest], rule int_mod_pos_eq [OF split rest])
  have "julian_adj t off_day offset_sec =
      (if tm_jd t + (q + off_day + c) < 0 then None else Some (tm_jd t + (q + off_day + c), r + tm_hms t - c * 86400))"
    using c unfolding julian_adj_def SECS_PER_DAY_def
    by (simp add: Let_def q_def tm_jd_def tm_hms_def c_def)
  moreover have "total < 0 \<longleftrightarrow> tm_jd t + (q + off_day + c) < 0"
    using pos_imp_zdiv_neg_iff [of 86400 total] unfolding dm(1) by (simp add: add.assoc)
  ultimately show ?thesis
    by (simp add: Let_def dm flip: total_def)
qed

lemma gmtime_adj_at:
  assumes "valid_tm t" "\<bar>off_day\<bar> \<le> 1000000000" "\<bar>offset_sec\<bar> \<le> 86400000000000"
  shows "case OPENSSL_gmtime_adj t off_day offset_sec of
      None \<Rightarrow> \<not> (\<exists>t'. valid_tm t' \<and> tm_seconds t' = tm_seconds t + off_day * 86400 + offset_sec)
    | Some t' \<Rightarrow> valid_tm t' \<and> tm_seconds t' = tm_seconds t + off_day * 86400 + offset_sec"
proof -
  define target where "target = tm_seconds t + off_day * 86400 + offset_sec"
  note adj = julian_adj_eq [OF assms, unfolded Let_def, folded target_def]
  have range: "2415021 \<le> target div 86400 \<and> target div 86400 < 5373485" if "valid_tm t'" "tm_seconds t' = target" for t'
    using tm_seconds_split(1) [OF that(1)] tm_jd_bounds [OF that(1)] that(2) by simp
  have small: "target div 86400 < 2100000000"
  proof -
    have "target < 2100000000 * 86400"
      using tm_jd_bounds [OF assms(1)] conjunct2 [OF tm_hms_bounds [OF assms(1)]] assms(2,3)
      unfolding target_def tm_seconds_def by linarith
    then show ?thesis by (simp add: div_less_iff_less_mult)
  qed
  have "case OPENSSL_gmtime_adj t off_day offset_sec of
      None \<Rightarrow> \<not> (\<exists>t'. valid_tm t' \<and> tm_seconds t' = target)
    | Some t' \<Rightarrow> valid_tm t' \<and> tm_seconds t' = target"
  proof (cases "target < 0")
    case True
    then have "target div 86400 < 0"
      by (simp add: div_neg_pos_less0)
    with True adj range show ?thesis
      by (fastforce simp: OPENSSL_gmtime_adj_def)
  next
    case False
    then have jd: "0 \<le> target div 86400"
      by (simp add: pos_imp_zdiv_nonneg_iff)
    then obtain y m d where date: "valid_date y m d" "date_to_julian y m d = target div 86400"
      using date_of_day by blast
    have years: "y < 1900 \<longleftrightarrow> target div 86400 < 2415021" "y < 10000 \<longleftrightarrow> target div 86400 < 5373485"
      using year_before [OF date(1), of 1900] year_before [OF date(1), of 10000] by (simp_all add: date(2) first_day)
    have y: "y \<le> 100000000"
    proof (rule ccontr)
      assume "\<not> y \<le> 100000000"
      then have "date_to_julian 100000001 1 1 \<le> date_to_julian y m d"
        using year_before [OF date(1), of 100000001] by simp
      moreover have "date_to_julian 100000001 1 1 = 36525971426"
        by (simp add: date_to_julian_def)
      ultimately show False
        using date(2) small by simp
    qed
    have jul: "julian_to_date (target div 86400) = (y, m, d)"
      using date_roundtrip [OF date(1) y] date(2) by simp
    show ?thesis
    proof (cases "y < 1900 \<or> y > 9999")
      case True
      then have "OPENSSL_gmtime_adj t off_day offset_sec = None"
        using adj False jul by (simp add: OPENSSL_gmtime_adj_def)
      moreover have "\<not> (2415021 \<le> target div 86400 \<and> target div 86400 < 5373485)"
        using years True by linarith
      ultimately show ?thesis
        using range by auto
    next
      case in_range: False
      let ?sec = "target mod 86400"
      let ?t' = "\<lparr>tm_sec = ?sec mod 60, tm_min = ?sec div 60 mod 60, tm_hour = ?sec div 3600,
          tm_mday = d, tm_mon = m - 1, tm_year = y - 1900\<rparr>"
      have sec: "0 \<le> ?sec" "?sec < 86400"
        by simp_all
      have "OPENSSL_gmtime_adj t off_day offset_sec = Some ?t'"
        using adj False jul in_range sec
        by (simp add: OPENSSL_gmtime_adj_def sdiv_pos smod_pos pos_imp_zdiv_nonneg_iff)
      moreover have "?sec div 3600 < 24"
        using sec(2) by (simp add: div_less_iff_less_mult)
      then have "valid_tm ?t'"
        using date(1) in_range by (simp add: valid_tm_def pos_imp_zdiv_nonneg_iff)
      moreover have "?sec div 3600 * 3600 + ?sec div 60 mod 60 * 60 + ?sec mod 60 = ?sec"
      proof -
        have "?sec div 3600 = ?sec div 60 div 60"
          by (simp add: zdiv_zmult2_eq flip: zdiv_zmult2_eq)
        then show ?thesis
          using div_mult_mod_eq [of ?sec 60] div_mult_mod_eq [of "?sec div 60" 60] by linarith
      qed
      then have "tm_seconds ?t' = target"
        using date(2) div_mult_mod_eq [of target 86400] by (simp add: tm_seconds_def tm_jd_def tm_hms_def)
      ultimately show ?thesis by simp
    qed
  qed
  then show ?thesis unfolding target_def .
qed

text \<open>
  C22: \<open>OPENSSL_gmtime_adj\<close> adds exactly the offset.  For every time of the years 1900 to 9999 and every
  offset in days and seconds, the result is the one valid time so many seconds later or earlier, and the
  call fails exactly when that time is outside those years.
\<close>

theorem gmtime_adj_exact:
  assumes "valid_tm t" "\<bar>off_day\<bar> \<le> 1000000000" "\<bar>offset_sec\<bar> \<le> 86400000000000"
  shows "case OPENSSL_gmtime_adj t off_day offset_sec of
      None \<Rightarrow> \<not> (\<exists>t'. valid_tm t' \<and> tm_seconds t' = tm_seconds t + off_day * 86400 + offset_sec)
    | Some t' \<Rightarrow> valid_tm t' \<and> tm_seconds t' = tm_seconds t + off_day * 86400 + offset_sec"
  by (rule gmtime_adj_at [OF assms])

definition demo_tm :: tm where
  "demo_tm = \<lparr>tm_sec = 59, tm_min = 59, tm_hour = 23, tm_mday = 28, tm_mon = 1, tm_year = 100\<rparr>"

lemma demo_tm_valid: "valid_tm demo_tm"
  by (simp add: valid_tm_def valid_date_def month_days_def demo_tm_def)

lemma gmtime_adj_exact_witness:
  "OPENSSL_gmtime_adj demo_tm 365 1 = Some \<lparr>tm_sec = 0, tm_min = 0, tm_hour = 0, tm_mday = 28, tm_mon = 1, tm_year = 101\<rparr> \<and>
   tm_seconds \<lparr>tm_sec = 0, tm_min = 0, tm_hour = 0, tm_mday = 28, tm_mon = 1, tm_year = 101\<rparr> = tm_seconds demo_tm + 31536001"
proof -
  have "OPENSSL_gmtime_adj demo_tm 365 1 = Some \<lparr>tm_sec = 0, tm_min = 0, tm_hour = 0, tm_mday = 28, tm_mon = 1, tm_year = 101\<rparr>"
    by code_simp
  with gmtime_adj_exact [OF demo_tm_valid, of 365 1] show ?thesis by simp
qed

lemma tm_seconds_inject:
  assumes "valid_tm t" "valid_tm t'" "tm_seconds t = tm_seconds t'"
  shows "t = t'"
proof -
  have jd: "tm_jd t = tm_jd t'" "tm_hms t = tm_hms t'"
    using tm_seconds_split [OF assms(1)] tm_seconds_split [OF assms(2)] assms(3) by simp_all
  have d: "valid_date (tm_year u + 1900) (tm_mon u + 1) (tm_mday u)" "tm_year u + 1900 \<le> 100000000"
    if "valid_tm u" for u
    using that by (simp_all add: valid_tm_def)
  have j: "julian_to_date (tm_jd u) = (tm_year u + 1900, tm_mon u + 1, tm_mday u)" if "valid_tm u" for u
    using date_roundtrip [OF d [OF that]] by (simp add: tm_jd_def)
  have date: "tm_year t = tm_year t'" "tm_mon t = tm_mon t'" "tm_mday t = tm_mday t'"
    using j [OF assms(1)] j [OF assms(2)] jd(1) by simp_all
  have hms: "tm_sec u = tm_hms u mod 60 \<and> tm_min u = tm_hms u div 60 mod 60 \<and> tm_hour u = tm_hms u div 60 div 60"
    if "valid_tm u" for u
  proof -
    have b: "0 \<le> tm_sec u" "tm_sec u < 60" "0 \<le> tm_min u" "tm_min u < 60"
      using that by (simp_all add: valid_tm_def)
    have e: "tm_hms u = 60 * (60 * tm_hour u + tm_min u) + tm_sec u"
      by (simp add: tm_hms_def)
    have "tm_hms u div 60 = 60 * tm_hour u + tm_min u" "tm_hms u mod 60 = tm_sec u"
      using int_div_pos_eq [OF e] int_mod_pos_eq [OF e] b by simp_all
    moreover have "(60 * tm_hour u + tm_min u) div 60 = tm_hour u" "(60 * tm_hour u + tm_min u) mod 60 = tm_min u"
      using b by simp_all
    ultimately show ?thesis by simp
  qed
  show ?thesis
    using hms [OF assms(1)] hms [OF assms(2)] jd(2) date by simp
qed

text \<open>
  \<open>OPENSSL_gmtime_diff\<close> is the inverse: the days and seconds it returns, of one sign and less than a day
  of seconds, are the distance of the two times, and \<open>OPENSSL_gmtime_adj\<close> leads from the first to the second.
\<close>

theorem gmtime_diff_exact:
  assumes "valid_tm from_tm" "valid_tm to_tm"
  shows "\<exists>days secs. OPENSSL_gmtime_diff from_tm to_tm = Some (days, secs) \<and>
    days * 86400 + secs = tm_seconds to_tm - tm_seconds from_tm \<and> \<bar>secs\<bar> < 86400 \<and>
    \<not> (0 < days \<and> secs < 0) \<and> \<not> (days < 0 \<and> 0 < secs) \<and>
    OPENSSL_gmtime_adj from_tm days secs = Some to_tm"
proof -
  have adj: "julian_adj t 0 0 = Some (tm_jd t, tm_hms t)" if "valid_tm t" for t
  proof -
    have "0 \<le> tm_seconds t"
      using tm_jd_bounds [OF that] tm_hms_bounds [OF that] by (simp add: tm_seconds_def)
    then show ?thesis
      using julian_adj_eq [OF that, of 0 0] tm_seconds_split [OF that] by (simp add: Let_def)
  qed
  note b = tm_jd_bounds [OF assms(1)] tm_jd_bounds [OF assms(2)]
    conjunct1 [OF tm_hms_bounds [OF assms(1)]] conjunct2 [OF tm_hms_bounds [OF assms(1)]]
    conjunct1 [OF tm_hms_bounds [OF assms(2)]] conjunct2 [OF tm_hms_bounds [OF assms(2)]]
  define D where "D = tm_jd to_tm - tm_jd from_tm"
  define S where "S = tm_hms to_tm - tm_hms from_tm"
  define adjust where "adjust = (if 0 < D \<and> S < 0 then 1 else if D < 0 \<and> 0 < S then - 1 else (0 :: int))"
  have small: "- 86400 < S" "S < 86400" "- 3000000 < D" "D < 3000000"
    using b by (simp_all add: S_def D_def)
  have diff: "OPENSSL_gmtime_diff from_tm to_tm = Some (D - adjust, S + adjust * 86400)"
  proof -
    have "OPENSSL_gmtime_diff from_tm to_tm =
      (let (d, s) = (if D > 0 \<and> S < 0 then (D - 1, S + 86400) else (D, S));
           (d, s) = (if d < 0 \<and> s > 0 then (d + 1, s - 86400) else (d, s))
       in Some (c_int d, s))"
      unfolding OPENSSL_gmtime_diff_def adj [OF assms(1)] adj [OF assms(2)] option.case prod.case D_def S_def
        Let_def SECS_PER_DAY_def by simp
    then show ?thesis
      using small by (auto simp: adjust_def c_int_small)
  qed
  have dist: "(D - adjust) * 86400 + (S + adjust * 86400) = tm_seconds to_tm - tm_seconds from_tm"
    by (simp add: D_def S_def tm_seconds_def algebra_simps)
  have range: "\<bar>S + adjust * 86400\<bar> < 86400" "\<bar>D - adjust\<bar> \<le> 1000000000"
    "\<not> (0 < D - adjust \<and> S + adjust * 86400 < 0)" "\<not> (D - adjust < 0 \<and> 0 < S + adjust * 86400)"
    using small by (auto simp: adjust_def)
  have "\<bar>S + adjust * 86400\<bar> \<le> 86400000000000"
    using range(1) by linarith
  note exact = gmtime_adj_at [OF assms(1) range(2) this]
  have target: "tm_seconds from_tm + (D - adjust) * 86400 + (S + adjust * 86400) = tm_seconds to_tm"
    using dist by simp
  have "OPENSSL_gmtime_adj from_tm (D - adjust) (S + adjust * 86400) = Some to_tm"
  proof (cases "OPENSSL_gmtime_adj from_tm (D - adjust) (S + adjust * 86400)")
    case None
    with exact assms(2) show ?thesis unfolding target by auto
  next
    case (Some t')
    with exact have "valid_tm t'" "tm_seconds t' = tm_seconds to_tm"
      unfolding target by simp_all
    with tm_seconds_inject assms(2) Some show ?thesis by simp
  qed
  with diff dist range show ?thesis by blast
qed

lemma gmtime_diff_exact_witness:
  "OPENSSL_gmtime_diff demo_tm (demo_tm\<lparr>tm_mday := 27, tm_hour := 22\<rparr>) = Some (- 1, - 3600) \<and>
   (\<exists>days secs. OPENSSL_gmtime_diff demo_tm (demo_tm\<lparr>tm_mday := 27, tm_hour := 22\<rparr>) = Some (days, secs) \<and>
      OPENSSL_gmtime_adj demo_tm days secs = Some (demo_tm\<lparr>tm_mday := 27, tm_hour := 22\<rparr>))"
proof -
  have "valid_tm (demo_tm\<lparr>tm_mday := 27, tm_hour := 22\<rparr>)"
    by (simp add: valid_tm_def valid_date_def month_days_def demo_tm_def)
  from gmtime_diff_exact [OF demo_tm_valid this]
  have "\<exists>days secs. OPENSSL_gmtime_diff demo_tm (demo_tm\<lparr>tm_mday := 27, tm_hour := 22\<rparr>) = Some (days, secs) \<and>
      OPENSSL_gmtime_adj demo_tm days secs = Some (demo_tm\<lparr>tm_mday := 27, tm_hour := 22\<rparr>)"
    by (elim exE conjE) (intro exI conjI)
  moreover have "OPENSSL_gmtime_diff demo_tm (demo_tm\<lparr>tm_mday := 27, tm_hour := 22\<rparr>) = Some (- 1, - 3600)"
    by code_simp
  ultimately show ?thesis by (intro conjI)
qed

end
