(* ===== verification/Bio.thy ===== *)
theory Bio
  imports Mem
begin

unbundle bit_operations_syntax

text \<open>
  \<open>crypto/bio/bio.c\<close>: the generic layer over byte streams.  A \<open>BIO *\<close> is the index of its cell in the store,
  which is \<open>None\<close> once freed.  A \<open>BIO\<close> holds the name of its method; the table \<open>mt\<close> gives the functions the
  static \<open>BIO_METHOD\<close> of that name points to, so that the layer is stated for every method, the ones of the
  library and those of its users.  What a read stores at its output pointer is returned as bytes.  The error
  queue is not modelled.
\<close>

section \<open>Objects\<close>

type_synonym bio_ref = nat

record ('m, 'p) bio =
  meth :: "'m option"
  bio_init :: bool
  shutdown :: int
  flags :: u32
  retry_reason :: int
  num :: int
  references :: u32
  ptr :: "'p option"
  next_bio :: "bio_ref option"
  num_read :: nat
  num_write :: nat

type_synonym ('m, 'p) bios = "('m, 'p) bio option list"

record ('m, 'p, 'c) bio_method =
  mtype :: nat
  bwrite :: "(bio_ref \<Rightarrow> bytes option \<Rightarrow> int \<Rightarrow> ('m, 'p) bios \<Rightarrow> int \<times> ('m, 'p) bios) option"
  bread :: "(bio_ref \<Rightarrow> int \<Rightarrow> ('m, 'p) bios \<Rightarrow> int \<times> bytes \<times> ('m, 'p) bios) option"
  bgets :: "(bio_ref \<Rightarrow> int \<Rightarrow> ('m, 'p) bios \<Rightarrow> int \<times> bytes \<times> ('m, 'p) bios) option"
  ctrl :: "(bio_ref \<Rightarrow> nat \<Rightarrow> int \<Rightarrow> 'c option \<Rightarrow> ('m, 'p) bios \<Rightarrow> int \<times> 'c option \<times> ('m, 'p) bios) option"
  create :: "(bio_ref \<Rightarrow> ('m, 'p) bios \<Rightarrow> bool \<times> ('m, 'p) bios) option"
  destroy :: "(bio_ref \<Rightarrow> ('m, 'p) bios \<Rightarrow> ('m, 'p) bios) option"

type_synonym ('m, 'p, 'c) method_table = "'m \<Rightarrow> ('m, 'p, 'c) bio_method"

definition bio_at :: "bio_ref \<Rightarrow> ('m, 'p) bios \<Rightarrow> ('m, 'p) bio" where
  "bio_at b w = the (w ! b)"

definition upd_bio :: "bio_ref \<Rightarrow> (('m, 'p) bio \<Rightarrow> ('m, 'p) bio) \<Rightarrow> ('m, 'p) bios \<Rightarrow> ('m, 'p) bios" where
  "upd_bio b f w = w[b := Some (f (bio_at b w))]"

text \<open>A function of the method of \<open>bio\<close>: \<open>None\<close> when \<open>bio\<close>, its method or the entry is \<open>NULL\<close>.\<close>

definition method_entry ::
  "('m, 'p, 'c) method_table \<Rightarrow> (('m, 'p, 'c) bio_method \<Rightarrow> 'f option) \<Rightarrow> bio_ref option \<Rightarrow> ('m, 'p) bios \<Rightarrow> 'f option" where
  "method_entry mt entry bio w = (case bio of None \<Rightarrow> None | Some b \<Rightarrow>
     (case meth (bio_at b w) of None \<Rightarrow> None | Some m \<Rightarrow> entry (mt m)))"

section \<open>Allocation and reference counts\<close>

definition sizeof_BIO :: nat where
  "sizeof_BIO = 64"

definition zero_bio :: "('m, 'p) bio" where
  "zero_bio = \<lparr>meth = None, bio_init = False, shutdown = 0, flags = 0, retry_reason = 0, num = 0, references = 0,
     ptr = None, next_bio = None, num_read = 0, num_write = 0\<rparr>"

definition BIO_new ::
  "('m, 'p, 'c) method_table \<Rightarrow> allocator \<Rightarrow> 'm \<Rightarrow> ('m, 'p) bios \<Rightarrow> bio_ref option \<times> ('m, 'p) bios" where
  "BIO_new mt al m w =
     (if \<not> al sizeof_BIO then (None, w)
      else
        let b = length w;
            w1 = w @ [Some (zero_bio\<lparr>meth := Some m, shutdown := 1, references := 1\<rparr>)]
        in case create (mt m) of
             None \<Rightarrow> (Some b, w1)
           | Some f \<Rightarrow> (case f b w1 of
               (True, w2) \<Rightarrow> (Some b, w2)
             | (False, w2) \<Rightarrow> (None, w2[b := None])))"

definition CRYPTO_REFCOUNT_MAX :: u32 where
  "CRYPTO_REFCOUNT_MAX = 0xffffffff"

definition CRYPTO_refcount_inc :: "u32 \<Rightarrow> u32" where
  "CRYPTO_refcount_inc count = (if count < CRYPTO_REFCOUNT_MAX then count + 1 else count)"

text \<open>\<open>None\<close> is the call of \<open>abort\<close>.\<close>

definition CRYPTO_refcount_dec_and_test_zero :: "u32 \<Rightarrow> (bool \<times> u32) option" where
  "CRYPTO_refcount_dec_and_test_zero count =
     (if count = 0 then None
      else let count = (if count < CRYPTO_REFCOUNT_MAX then count - 1 else count)
           in Some (count = 0, count))"

definition BIO_up_ref :: "bio_ref \<Rightarrow> ('m, 'p) bios \<Rightarrow> int \<times> ('m, 'p) bios" where
  "BIO_up_ref b w = (1, upd_bio b (\<lambda>x. x\<lparr>references := CRYPTO_refcount_inc (references x)\<rparr>) w)"

definition BIO_pop :: "bio_ref option \<Rightarrow> ('m, 'p) bios \<Rightarrow> bio_ref option \<times> ('m, 'p) bios" where
  "BIO_pop bio w = (case bio of
     None \<Rightarrow> (None, w)
   | Some b \<Rightarrow> (next_bio (bio_at b w), upd_bio b (\<lambda>x. x\<lparr>next_bio := None\<rparr>) w))"

text \<open>
  \<open>BIO_free\<close> walks a chain as long as the counts drop to zero.  \<open>None\<close> is the call of \<open>abort\<close>, and a chain
  that does not end.
\<close>

partial_function (option) BIO_free ::
  "('m, 'p, 'c) method_table \<Rightarrow> bio_ref option \<Rightarrow> ('m, 'p) bios \<Rightarrow> (int \<times> ('m, 'p) bios) option" where
  "BIO_free mt bio w = (case bio of
     None \<Rightarrow> Some (1, w)
   | Some b \<Rightarrow> (case CRYPTO_refcount_dec_and_test_zero (references (bio_at b w)) of
       None \<Rightarrow> None
     | Some (zero, count) \<Rightarrow>
         let w1 = upd_bio b (\<lambda>x. x\<lparr>references := count\<rparr>) w
         in if \<not> zero then Some (0, w1)
            else case BIO_pop (Some b) w1 of (next, w2) \<Rightarrow>
              let w3 = (case method_entry mt destroy (Some b) w2 of None \<Rightarrow> w2 | Some f \<Rightarrow> f b w2)
              in BIO_free mt next (w3[b := None])))"

declare BIO_free.simps [code]

definition BIO_vfree ::
  "('m, 'p, 'c) method_table \<Rightarrow> bio_ref option \<Rightarrow> ('m, 'p) bios \<Rightarrow> (int \<times> ('m, 'p) bios) option" where
  "BIO_vfree mt bio w = BIO_free mt bio w"

definition BIO_free_all ::
  "('m, 'p, 'c) method_table \<Rightarrow> bio_ref option \<Rightarrow> ('m, 'p) bios \<Rightarrow> (int \<times> ('m, 'p) bios) option" where
  "BIO_free_all mt bio w = BIO_free mt bio w"

section \<open>Flags\<close>

definition BIO_FLAGS_READ :: u32 where "BIO_FLAGS_READ = 0x01"

definition BIO_FLAGS_WRITE :: u32 where "BIO_FLAGS_WRITE = 0x02"

definition BIO_FLAGS_IO_SPECIAL :: u32 where "BIO_FLAGS_IO_SPECIAL = 0x04"

definition BIO_FLAGS_RWS :: u32 where
  "BIO_FLAGS_RWS = BIO_FLAGS_READ OR BIO_FLAGS_WRITE OR BIO_FLAGS_IO_SPECIAL"

definition BIO_FLAGS_SHOULD_RETRY :: u32 where "BIO_FLAGS_SHOULD_RETRY = 0x08"

definition BIO_FLAGS_MEM_RDONLY :: u32 where "BIO_FLAGS_MEM_RDONLY = 0x200"

definition BIO_set_flags :: "bio_ref \<Rightarrow> u32 \<Rightarrow> ('m, 'p) bios \<Rightarrow> ('m, 'p) bios" where
  "BIO_set_flags b f w = upd_bio b (\<lambda>x. x\<lparr>flags := flags x OR f\<rparr>) w"

definition BIO_test_flags :: "bio_ref \<Rightarrow> u32 \<Rightarrow> ('m, 'p) bios \<Rightarrow> u32" where
  "BIO_test_flags b f w = flags (bio_at b w) AND f"

definition BIO_should_read :: "bio_ref \<Rightarrow> ('m, 'p) bios \<Rightarrow> u32" where
  "BIO_should_read b w = BIO_test_flags b BIO_FLAGS_READ w"

definition BIO_should_write :: "bio_ref \<Rightarrow> ('m, 'p) bios \<Rightarrow> u32" where
  "BIO_should_write b w = BIO_test_flags b BIO_FLAGS_WRITE w"

definition BIO_should_retry :: "bio_ref \<Rightarrow> ('m, 'p) bios \<Rightarrow> u32" where
  "BIO_should_retry b w = BIO_test_flags b BIO_FLAGS_SHOULD_RETRY w"

definition BIO_should_io_special :: "bio_ref \<Rightarrow> ('m, 'p) bios \<Rightarrow> u32" where
  "BIO_should_io_special b w = BIO_test_flags b BIO_FLAGS_IO_SPECIAL w"

definition BIO_get_retry_reason :: "bio_ref \<Rightarrow> ('m, 'p) bios \<Rightarrow> int" where
  "BIO_get_retry_reason b w = retry_reason (bio_at b w)"

definition BIO_clear_flags :: "bio_ref \<Rightarrow> u32 \<Rightarrow> ('m, 'p) bios \<Rightarrow> ('m, 'p) bios" where
  "BIO_clear_flags b f w = upd_bio b (\<lambda>x. x\<lparr>flags := flags x AND NOT f\<rparr>) w"

definition BIO_set_retry_read :: "bio_ref \<Rightarrow> ('m, 'p) bios \<Rightarrow> ('m, 'p) bios" where
  "BIO_set_retry_read b w =
     upd_bio b (\<lambda>x. x\<lparr>flags := flags x OR (BIO_FLAGS_READ OR BIO_FLAGS_SHOULD_RETRY)\<rparr>) w"

definition BIO_set_retry_write :: "bio_ref \<Rightarrow> ('m, 'p) bios \<Rightarrow> ('m, 'p) bios" where
  "BIO_set_retry_write b w =
     upd_bio b (\<lambda>x. x\<lparr>flags := flags x OR (BIO_FLAGS_WRITE OR BIO_FLAGS_SHOULD_RETRY)\<rparr>) w"

definition BIO_set_retry_special :: "bio_ref \<Rightarrow> ('m, 'p) bios \<Rightarrow> ('m, 'p) bios" where
  "BIO_set_retry_special b w =
     upd_bio b (\<lambda>x. x\<lparr>flags := flags x OR (BIO_FLAGS_READ OR BIO_FLAGS_IO_SPECIAL)\<rparr>) w"

definition kRetryFlags :: u32 where
  "kRetryFlags = BIO_FLAGS_RWS OR BIO_FLAGS_SHOULD_RETRY"

definition BIO_get_retry_flags :: "bio_ref \<Rightarrow> ('m, 'p) bios \<Rightarrow> u32" where
  "BIO_get_retry_flags b w = flags (bio_at b w) AND kRetryFlags"

definition BIO_clear_retry_flags :: "bio_ref \<Rightarrow> ('m, 'p) bios \<Rightarrow> ('m, 'p) bios" where
  "BIO_clear_retry_flags b w =
     upd_bio b (\<lambda>x. x\<lparr>flags := flags x AND NOT kRetryFlags, retry_reason := 0\<rparr>) w"

definition BIO_copy_next_retry :: "bio_ref \<Rightarrow> ('m, 'p) bios \<Rightarrow> ('m, 'p) bios" where
  "BIO_copy_next_retry b w =
     (let n = the (next_bio (bio_at b w));
          w1 = BIO_clear_retry_flags b w;
          w2 = BIO_set_flags b (BIO_get_retry_flags n w1) w1
      in upd_bio b (\<lambda>x. x\<lparr>retry_reason := retry_reason (bio_at n w2)\<rparr>) w2)"

section \<open>Input and output\<close>

definition BIO_read ::
  "('m, 'p, 'c) method_table \<Rightarrow> bio_ref option \<Rightarrow> int \<Rightarrow> ('m, 'p) bios \<Rightarrow> int \<times> bytes \<times> ('m, 'p) bios" where
  "BIO_read mt bio len w = (case method_entry mt bread bio w of
     None \<Rightarrow> (- 2, [], w)
   | Some f \<Rightarrow>
       let b = the bio
       in if \<not> bio_init (bio_at b w) then (- 2, [], w)
          else if len \<le> 0 then (0, [], w)
          else case f b len w of (ret, out, w1) \<Rightarrow>
            (ret, out,
             if ret > 0 then upd_bio b (\<lambda>x. x\<lparr>num_read := size_add (num_read x) (nat ret)\<rparr>) w1 else w1))"

definition BIO_gets ::
  "('m, 'p, 'c) method_table \<Rightarrow> bio_ref option \<Rightarrow> int \<Rightarrow> ('m, 'p) bios \<Rightarrow> int \<times> bytes \<times> ('m, 'p) bios" where
  "BIO_gets mt bio len w = (case method_entry mt bgets bio w of
     None \<Rightarrow> (- 2, [], w)
   | Some f \<Rightarrow>
       let b = the bio
       in if \<not> bio_init (bio_at b w) then (- 2, [], w)
          else if len \<le> 0 then (0, [], w)
          else case f b len w of (ret, out, w1) \<Rightarrow>
            (ret, out,
             if ret > 0 then upd_bio b (\<lambda>x. x\<lparr>num_read := size_add (num_read x) (nat ret)\<rparr>) w1 else w1))"

definition BIO_write ::
  "('m, 'p, 'c) method_table \<Rightarrow> bio_ref option \<Rightarrow> bytes option \<Rightarrow> int \<Rightarrow> ('m, 'p) bios \<Rightarrow> int \<times> ('m, 'p) bios" where
  "BIO_write mt bio inp inl w = (case method_entry mt bwrite bio w of
     None \<Rightarrow> (- 2, w)
   | Some f \<Rightarrow>
       let b = the bio
       in if \<not> bio_init (bio_at b w) then (- 2, w)
          else if inl \<le> 0 then (0, w)
          else case f b inp inl w of (ret, w1) \<Rightarrow>
            (ret, if ret > 0 then upd_bio b (\<lambda>x. x\<lparr>num_write := size_add (num_write x) (nat ret)\<rparr>) w1 else w1))"

text \<open>\<open>data\<close> is what is left to write, \<open>length data\<close> the loop's \<open>len\<close>.\<close>

function BIO_write_all ::
  "('m, 'p, 'c) method_table \<Rightarrow> bio_ref option \<Rightarrow> bytes \<Rightarrow> ('m, 'p) bios \<Rightarrow> bool \<times> ('m, 'p) bios" where
  "BIO_write_all mt bio data w =
     (if length data > 0 then
        (case BIO_write mt bio (Some data) (if exceeds_int (length data) then int INT_MAX else int (length data)) w of
           (ret, w1) \<Rightarrow> if ret \<le> 0 then (False, w1) else BIO_write_all mt bio (drop (nat ret) data) w1)
      else (True, w))"
  by pat_completeness auto

termination
  by (relation "measure (\<lambda>(mt, bio, data, w). length data)") auto

declare BIO_write_all.simps [simp del]

definition BIO_puts ::
  "('m, 'p, 'c) method_table \<Rightarrow> bio_ref option \<Rightarrow> bytes \<Rightarrow> ('m, 'p) bios \<Rightarrow> int \<times> ('m, 'p) bios" where
  "BIO_puts mt bio str w = BIO_write mt bio (Some str) (c_int (int (strlen str))) w"

fun indent_loop ::
  "('m, 'p, 'c) method_table \<Rightarrow> bio_ref option \<Rightarrow> nat \<Rightarrow> ('m, 'p) bios \<Rightarrow> bool \<times> ('m, 'p) bios" where
  "indent_loop mt bio 0 w = (True, w)"
| "indent_loop mt bio (Suc indent) w = (case BIO_puts mt bio [32, 0] w of
     (ret, w1) \<Rightarrow> if ret \<noteq> 1 then (False, w1) else indent_loop mt bio indent w1)"

definition BIO_indent ::
  "('m, 'p, 'c) method_table \<Rightarrow> bio_ref option \<Rightarrow> nat \<Rightarrow> nat \<Rightarrow> ('m, 'p) bios \<Rightarrow> bool \<times> ('m, 'p) bios" where
  "BIO_indent mt bio indent max_indent w =
     indent_loop mt bio (if indent > max_indent then max_indent else indent) w"

section \<open>Control requests\<close>

definition BIO_CTRL_RESET :: nat where "BIO_CTRL_RESET = 1"

definition BIO_CTRL_EOF :: nat where "BIO_CTRL_EOF = 2"

definition BIO_CTRL_INFO :: nat where "BIO_CTRL_INFO = 3"

definition BIO_CTRL_GET_CLOSE :: nat where "BIO_CTRL_GET_CLOSE = 8"

definition BIO_CTRL_SET_CLOSE :: nat where "BIO_CTRL_SET_CLOSE = 9"

definition BIO_CTRL_PENDING :: nat where "BIO_CTRL_PENDING = 10"

definition BIO_CTRL_FLUSH :: nat where "BIO_CTRL_FLUSH = 11"

definition BIO_CTRL_WPENDING :: nat where "BIO_CTRL_WPENDING = 13"

text \<open>The result, and what the call leaves at \<open>parg\<close>.\<close>

definition BIO_ctrl ::
  "('m, 'p, 'c) method_table \<Rightarrow> bio_ref option \<Rightarrow> nat \<Rightarrow> int \<Rightarrow> 'c option \<Rightarrow> ('m, 'p) bios \<Rightarrow>
   int \<times> 'c option \<times> ('m, 'p) bios" where
  "BIO_ctrl mt bio cmd larg parg w = (case bio of
     None \<Rightarrow> (0, parg, w)
   | Some b \<Rightarrow> (case method_entry mt ctrl bio w of
       None \<Rightarrow> (- 2, parg, w)
     | Some f \<Rightarrow> f b cmd larg parg w))"

definition BIO_ptr_ctrl ::
  "('m, 'p, 'c) method_table \<Rightarrow> bio_ref option \<Rightarrow> nat \<Rightarrow> int \<Rightarrow> ('m, 'p) bios \<Rightarrow> 'c option \<times> ('m, 'p) bios" where
  "BIO_ptr_ctrl mt bio cmd larg w = (case BIO_ctrl mt bio cmd larg None w of
     (r, p, w1) \<Rightarrow> (if r \<le> 0 then None else p, w1))"

definition BIO_flush :: "('m, 'p, 'c) method_table \<Rightarrow> bio_ref option \<Rightarrow> ('m, 'p) bios \<Rightarrow> int \<times> ('m, 'p) bios" where
  "BIO_flush mt bio w = (case BIO_ctrl mt bio BIO_CTRL_FLUSH 0 None w of (r, _, w1) \<Rightarrow> (c_int r, w1))"

definition BIO_reset :: "('m, 'p, 'c) method_table \<Rightarrow> bio_ref option \<Rightarrow> ('m, 'p) bios \<Rightarrow> int \<times> ('m, 'p) bios" where
  "BIO_reset mt bio w = (case BIO_ctrl mt bio BIO_CTRL_RESET 0 None w of (r, _, w1) \<Rightarrow> (c_int r, w1))"

definition BIO_eof :: "('m, 'p, 'c) method_table \<Rightarrow> bio_ref option \<Rightarrow> ('m, 'p) bios \<Rightarrow> int \<times> ('m, 'p) bios" where
  "BIO_eof mt bio w = (case BIO_ctrl mt bio BIO_CTRL_EOF 0 None w of (r, _, w1) \<Rightarrow> (c_int r, w1))"

definition BIO_pending :: "('m, 'p, 'c) method_table \<Rightarrow> bio_ref option \<Rightarrow> ('m, 'p) bios \<Rightarrow> nat \<times> ('m, 'p) bios" where
  "BIO_pending mt bio w = (case BIO_ctrl mt bio BIO_CTRL_PENDING 0 None w of
     (r, _, w1) \<Rightarrow> (if r < 0 then 0 else c_size r, w1))"

definition BIO_ctrl_pending :: "('m, 'p, 'c) method_table \<Rightarrow> bio_ref option \<Rightarrow> ('m, 'p) bios \<Rightarrow> nat \<times> ('m, 'p) bios" where
  "BIO_ctrl_pending mt bio w = BIO_pending mt bio w"

definition BIO_wpending :: "('m, 'p, 'c) method_table \<Rightarrow> bio_ref option \<Rightarrow> ('m, 'p) bios \<Rightarrow> nat \<times> ('m, 'p) bios" where
  "BIO_wpending mt bio w = (case BIO_ctrl mt bio BIO_CTRL_WPENDING 0 None w of
     (r, _, w1) \<Rightarrow> (if r < 0 then 0 else c_size r, w1))"

definition BIO_set_close ::
  "('m, 'p, 'c) method_table \<Rightarrow> bio_ref option \<Rightarrow> int \<Rightarrow> ('m, 'p) bios \<Rightarrow> int \<times> ('m, 'p) bios" where
  "BIO_set_close mt bio close_flag w = (case BIO_ctrl mt bio BIO_CTRL_SET_CLOSE close_flag None w of
     (r, _, w1) \<Rightarrow> (c_int r, w1))"

definition BIO_number_read :: "bio_ref \<Rightarrow> ('m, 'p) bios \<Rightarrow> nat" where
  "BIO_number_read b w = num_read (bio_at b w)"

definition BIO_number_written :: "bio_ref \<Rightarrow> ('m, 'p) bios \<Rightarrow> nat" where
  "BIO_number_written b w = num_write (bio_at b w)"

section \<open>Chains\<close>

text \<open>The loops of \<open>BIO_push\<close> and \<open>BIO_find_type\<close> follow \<open>next_bio\<close>; on a cyclic chain they do not end.\<close>

partial_function (option) last_of_chain :: "bio_ref \<Rightarrow> ('m, 'p) bios \<Rightarrow> bio_ref option" where
  "last_of_chain b w = (case next_bio (bio_at b w) of None \<Rightarrow> Some b | Some n \<Rightarrow> last_of_chain n w)"

definition BIO_push ::
  "bio_ref option \<Rightarrow> bio_ref option \<Rightarrow> ('m, 'p) bios \<Rightarrow> (bio_ref option \<times> ('m, 'p) bios) option" where
  "BIO_push bio appended_bio w = (case bio of
     None \<Rightarrow> Some (None, w)
   | Some b \<Rightarrow> (case last_of_chain b w of
       None \<Rightarrow> None
     | Some last_bio \<Rightarrow> Some (bio, upd_bio last_bio (\<lambda>x. x\<lparr>next_bio := appended_bio\<rparr>) w)))"

definition BIO_next :: "bio_ref option \<Rightarrow> ('m, 'p) bios \<Rightarrow> bio_ref option" where
  "BIO_next bio w = (case bio of None \<Rightarrow> None | Some b \<Rightarrow> next_bio (bio_at b w))"

partial_function (option) find_type_loop ::
  "('m, 'p, 'c) method_table \<Rightarrow> bio_ref \<Rightarrow> nat \<Rightarrow> nat \<Rightarrow> ('m, 'p) bios \<Rightarrow> bio_ref option option" where
  "find_type_loop mt b type_mask type w =
     (if (case meth (bio_at b w) of
            None \<Rightarrow> False
          | Some m \<Rightarrow> if type_mask = 0 then mtype (mt m) AND type \<noteq> 0 else mtype (mt m) = type)
      then Some (Some b)
      else case next_bio (bio_at b w) of None \<Rightarrow> Some None | Some n \<Rightarrow> find_type_loop mt n type_mask type w)"

definition BIO_find_type ::
  "('m, 'p, 'c) method_table \<Rightarrow> bio_ref option \<Rightarrow> nat \<Rightarrow> ('m, 'p) bios \<Rightarrow> bio_ref option option" where
  "BIO_find_type mt bio type w = (case bio of
     None \<Rightarrow> Some None
   | Some b \<Rightarrow> find_type_loop mt b (type AND 0xff) type w)"

declare last_of_chain.simps [code] find_type_loop.simps [code]

section \<open>Methods of the user\<close>

definition BIO_TYPE_START :: nat where "BIO_TYPE_START = 128"

text \<open>The lock around the counter \<open>g_index\<close> is not modelled.\<close>

definition BIO_get_new_index :: "nat \<Rightarrow> int \<times> nat" where
  "BIO_get_new_index g_index = (if g_index > 255 then (- 1, g_index) else (int g_index, g_index + 1))"

definition sizeof_BIO_METHOD :: nat where
  "sizeof_BIO_METHOD = 80"

definition BIO_meth_new :: "allocator \<Rightarrow> nat \<Rightarrow> ('m, 'p, 'c) bio_method option" where
  "BIO_meth_new al type = (if \<not> al sizeof_BIO_METHOD then None
     else Some \<lparr>mtype = type, bwrite = None, bread = None, bgets = None, ctrl = None, create = None, destroy = None\<rparr>)"

definition BIO_meth_set_create ::
  "(bio_ref \<Rightarrow> ('m, 'p) bios \<Rightarrow> bool \<times> ('m, 'p) bios) option \<Rightarrow> ('m, 'p, 'c) bio_method \<Rightarrow> int \<times> ('m, 'p, 'c) bio_method" where
  "BIO_meth_set_create f m = (1, m\<lparr>create := f\<rparr>)"

definition BIO_meth_set_destroy ::
  "(bio_ref \<Rightarrow> ('m, 'p) bios \<Rightarrow> ('m, 'p) bios) option \<Rightarrow> ('m, 'p, 'c) bio_method \<Rightarrow> int \<times> ('m, 'p, 'c) bio_method" where
  "BIO_meth_set_destroy f m = (1, m\<lparr>destroy := f\<rparr>)"

definition BIO_meth_set_write ::
  "(bio_ref \<Rightarrow> bytes option \<Rightarrow> int \<Rightarrow> ('m, 'p) bios \<Rightarrow> int \<times> ('m, 'p) bios) option \<Rightarrow> ('m, 'p, 'c) bio_method \<Rightarrow> int \<times> ('m, 'p, 'c) bio_method" where
  "BIO_meth_set_write f m = (1, m\<lparr>bwrite := f\<rparr>)"

definition BIO_meth_set_read ::
  "(bio_ref \<Rightarrow> int \<Rightarrow> ('m, 'p) bios \<Rightarrow> int \<times> bytes \<times> ('m, 'p) bios) option \<Rightarrow> ('m, 'p, 'c) bio_method \<Rightarrow> int \<times> ('m, 'p, 'c) bio_method" where
  "BIO_meth_set_read f m = (1, m\<lparr>bread := f\<rparr>)"

definition BIO_meth_set_gets ::
  "(bio_ref \<Rightarrow> int \<Rightarrow> ('m, 'p) bios \<Rightarrow> int \<times> bytes \<times> ('m, 'p) bios) option \<Rightarrow> ('m, 'p, 'c) bio_method \<Rightarrow> int \<times> ('m, 'p, 'c) bio_method" where
  "BIO_meth_set_gets f m = (1, m\<lparr>bgets := f\<rparr>)"

definition BIO_meth_set_ctrl ::
  "(bio_ref \<Rightarrow> nat \<Rightarrow> int \<Rightarrow> 'c option \<Rightarrow> ('m, 'p) bios \<Rightarrow> int \<times> 'c option \<times> ('m, 'p) bios) option \<Rightarrow> ('m, 'p, 'c) bio_method \<Rightarrow> int \<times> ('m, 'p, 'c) bio_method" where
  "BIO_meth_set_ctrl f m = (1, m\<lparr>ctrl := f\<rparr>)"

definition BIO_set_data :: "bio_ref \<Rightarrow> 'p option \<Rightarrow> ('m, 'p) bios \<Rightarrow> ('m, 'p) bios" where
  "BIO_set_data b p w = upd_bio b (\<lambda>x. x\<lparr>ptr := p\<rparr>) w"

definition BIO_get_data :: "bio_ref \<Rightarrow> ('m, 'p) bios \<Rightarrow> 'p option" where
  "BIO_get_data b w = ptr (bio_at b w)"

definition BIO_set_init :: "bio_ref \<Rightarrow> bool \<Rightarrow> ('m, 'p) bios \<Rightarrow> ('m, 'p) bios" where
  "BIO_set_init b i w = upd_bio b (\<lambda>x. x\<lparr>bio_init := i\<rparr>) w"

definition BIO_get_init :: "bio_ref \<Rightarrow> ('m, 'p) bios \<Rightarrow> bool" where
  "BIO_get_init b w = bio_init (bio_at b w)"

definition BIO_set_shutdown :: "bio_ref \<Rightarrow> int \<Rightarrow> ('m, 'p) bios \<Rightarrow> ('m, 'p) bios" where
  "BIO_set_shutdown b s w = upd_bio b (\<lambda>x. x\<lparr>shutdown := s\<rparr>) w"

definition BIO_get_shutdown :: "bio_ref \<Rightarrow> ('m, 'p) bios \<Rightarrow> int" where
  "BIO_get_shutdown b w = shutdown (bio_at b w)"

section \<open>Reading all, and reading an ASN.1 element\<close>

definition kChunkSize :: nat where
  "kChunkSize = 4096"

text \<open>
  \<open>buf\<close> is what the output array holds so far, \<open>len\<close> its size and \<open>pos\<close> the \<open>done\<close> of the code.  \<open>None\<close>
  is a loop that does not end.
\<close>

partial_function (option) read_all_loop ::
  "('m, 'p, 'c) method_table \<Rightarrow> allocator \<Rightarrow> bio_ref option \<Rightarrow> nat \<Rightarrow> nat \<Rightarrow> nat \<Rightarrow> bytes \<Rightarrow> ('m, 'p) bios \<Rightarrow>
   (bytes option \<times> ('m, 'p) bios) option" where
  "read_all_loop mt al bio max_len len pos buf w =
     (if pos = len then Some (None, w)
      else
        let todo = c_size (int len - int pos)
        in case BIO_read mt bio (c_int (int todo)) w of (n, out, w1) \<Rightarrow>
             if n = 0 then Some (Some (take pos buf), w1)
             else if n = - 1 then Some (None, w1)
             else
               let buf = mem_copy pos out buf;
                   pos = c_size (int pos + n)
               in if len < max_len \<and> c_size (int len - int pos) < kChunkSize div 2 then
                    let newlen = size_add len kChunkSize;
                        newlen = (if newlen < kChunkSize \<or> newlen > max_len then max_len else newlen)
                    in if \<not> al newlen then Some (None, w1)
                       else read_all_loop mt al bio max_len newlen pos buf w1
                  else read_all_loop mt al bio max_len len pos buf w1)"

declare read_all_loop.simps [code]

definition bio_read_all ::
  "('m, 'p, 'c) method_table \<Rightarrow> allocator \<Rightarrow> bio_ref option \<Rightarrow> bytes \<Rightarrow> nat \<Rightarrow> ('m, 'p) bios \<Rightarrow>
   (bytes option \<times> ('m, 'p) bios) option" where
  "bio_read_all mt al bio pre max_len w =
     (let len = size_add (length pre) kChunkSize;
          len = (if len > max_len then max_len else len)
      in if len < length pre then Some (None, w)
         else if \<not> al len then Some (None, w)
         else read_all_loop mt al bio max_len len (length pre) pre w)"

text \<open>
  The flag is \<open>eof_on_first_read\<close>; the bytes are those read, all \<open>len\<close> of them exactly on success.
\<close>

function read_full_loop ::
  "('m, 'p, 'c) method_table \<Rightarrow> bio_ref option \<Rightarrow> bool \<Rightarrow> nat \<Rightarrow> ('m, 'p) bios \<Rightarrow>
   bool \<times> bool \<times> bytes \<times> ('m, 'p) bios" where
  "read_full_loop mt bio first_read len w =
     (if len > 0 then
        let todo = (if exceeds_int len then int INT_MAX else int len)
        in case BIO_read mt bio todo w of (ret, out, w1) \<Rightarrow>
             if ret \<le> 0 then (False, first_read \<and> ret = 0, out, w1)
             else case read_full_loop mt bio False (len - nat ret) w1 of
                    (ok, eof, out', w2) \<Rightarrow> (ok, eof, out @ out', w2)
      else (True, False, [], w))"
  by pat_completeness auto

termination
  by (relation "measure (\<lambda>(mt, bio, first_read, len, w). len)") auto

declare read_full_loop.simps [simp del]

definition bio_read_full ::
  "('m, 'p, 'c) method_table \<Rightarrow> bio_ref option \<Rightarrow> nat \<Rightarrow> ('m, 'p) bios \<Rightarrow>
   bool \<times> bool \<times> bytes \<times> ('m, 'p) bios" where
  "bio_read_full mt bio len w = read_full_loop mt bio True len w"

datatype asn1_error =
    ASN1_R_HEADER_TOO_LONG
  | ASN1_R_NOT_ENOUGH_DATA
  | ASN1_R_DECODE_ERROR
  | ASN1_R_TOO_LONG
  | ERR_R_MALLOC_FAILURE

definition kInitialHeaderLen :: nat where
  "kInitialHeaderLen = 2"

text \<open>The length octets, in 32-bit arithmetic.\<close>

definition len32_of :: "bytes \<Rightarrow> u32" where
  "len32_of bs = foldl (\<lambda>len32 b. push_bit 8 len32 OR ucast b) 0 bs"

text \<open>The second half of the function: the element is \<open>header\<close> and \<open>len\<close> more bytes.\<close>

definition read_asn1_body ::
  "('m, 'p, 'c) method_table \<Rightarrow> allocator \<Rightarrow> bio_ref option \<Rightarrow> nat \<Rightarrow> bytes \<Rightarrow> nat \<Rightarrow> ('m, 'p) bios \<Rightarrow>
   (asn1_error + bytes) \<times> ('m, 'p) bios" where
  "read_asn1_body mt al bio max_len header len w =
     (let header_len = length header
      in if size_add len header_len < len \<or> size_add len header_len > max_len \<or> exceeds_int len
         then (Inl ASN1_R_TOO_LONG, w)
         else
           let len = size_add len header_len
           in if \<not> al len then (Inl ERR_R_MALLOC_FAILURE, w)
              else case bio_read_full mt bio (len - header_len) w of (ok, _, body, w1) \<Rightarrow>
                (if ok then Inr (header @ body) else Inl ASN1_R_NOT_ENOUGH_DATA, w1))"

text \<open>The long form of the length, in \<open>num_bytes\<close> octets.\<close>

definition read_asn1_long ::
  "('m, 'p, 'c) method_table \<Rightarrow> allocator \<Rightarrow> bio_ref option \<Rightarrow> nat \<Rightarrow> bytes \<Rightarrow> nat \<Rightarrow> ('m, 'p) bios \<Rightarrow>
   ((asn1_error + bytes) \<times> ('m, 'p) bios) option" where
  "read_asn1_long mt al bio max_len header num_bytes w = (case bio_read_full mt bio num_bytes w of
     (False, _, _, w1) \<Rightarrow> Some (Inl ASN1_R_NOT_ENOUGH_DATA, w1)
   | (True, _, len_bytes, w1) \<Rightarrow>
       let len32 = len32_of len_bytes
       in if len32 < 128 then Some (Inl ASN1_R_DECODE_ERROR, w1)
          else if drop_bit ((num_bytes - 1) * 8) len32 = 0 then Some (Inl ASN1_R_DECODE_ERROR, w1)
          else Some (read_asn1_body mt al bio max_len (header @ len_bytes) (unat len32) w1))"

definition BIO_read_asn1 ::
  "('m, 'p, 'c) method_table \<Rightarrow> allocator \<Rightarrow> bio_ref option \<Rightarrow> nat \<Rightarrow> ('m, 'p) bios \<Rightarrow>
   ((asn1_error + bytes) \<times> ('m, 'p) bios) option" where
  "BIO_read_asn1 mt al bio max_len w = (case bio_read_full mt bio kInitialHeaderLen w of
     (False, eof_on_first_read, _, w1) \<Rightarrow>
       Some (Inl (if eof_on_first_read then ASN1_R_HEADER_TOO_LONG else ASN1_R_NOT_ENOUGH_DATA), w1)
   | (True, _, header, w1) \<Rightarrow>
       let tag = header ! 0;
           length_byte = header ! 1
       in if tag AND 0x1f = 0x1f then Some (Inl ASN1_R_DECODE_ERROR, w1)
          else if length_byte AND 0x80 = 0 then
            Some (read_asn1_body mt al bio max_len header (unat length_byte) w1)
          else
            let num_bytes = unat (length_byte AND 0x7f)
            in if tag AND 0x20 \<noteq> 0 \<and> num_bytes = 0 then
                 (case bio_read_all mt al bio header max_len w1 of
                    None \<Rightarrow> None
                  | Some (None, w2) \<Rightarrow> Some (Inl ASN1_R_NOT_ENOUGH_DATA, w2)
                  | Some (Some out, w2) \<Rightarrow> Some (Inr out, w2))
               else if num_bytes = 0 \<or> num_bytes > 4 then Some (Inl ASN1_R_DECODE_ERROR, w1)
               else read_asn1_long mt al bio max_len header num_bytes w1)"

section \<open>The store\<close>

lemma length_upd_bio [simp]: "length (upd_bio b f w) = length w"
  by (simp add: upd_bio_def)

lemma upd_bio_nth [simp]:
  "b < length w \<Longrightarrow> upd_bio b f w ! c = (if c = b then Some (f (bio_at b w)) else w ! c)"
  by (auto simp: upd_bio_def)

lemma bio_at_upd [simp]: "b < length w \<Longrightarrow> bio_at c (upd_bio b f w) = (if c = b then f (bio_at b w) else bio_at c w)"
  by (simp add: bio_at_def)

lemma upd_upd [simp]: "b < length w \<Longrightarrow> upd_bio b g (upd_bio b f w) = upd_bio b (g \<circ> f) w"
  by (simp add: upd_bio_def bio_at_def)

lemma method_entry_Some [simp]:
  "method_entry mt entry (Some b) w = (case meth (bio_at b w) of None \<Rightarrow> None | Some m \<Rightarrow> entry (mt m))"
  by (simp add: method_entry_def)

section \<open>Reading from a source\<close>

text \<open>
  What a reader of a \<open>BIO\<close> relies on: \<open>avail\<close> is what can still be read, a read takes a non-empty prefix of
  it as long as there is one, and answers \<open>stop\<close> afterwards.
\<close>

locale bio_source =
  fixes mt :: "('m, 'p, 'c) method_table" and b :: bio_ref
    and inv :: "('m, 'p) bios \<Rightarrow> bool" and avail :: "('m, 'p) bios \<Rightarrow> bytes" and stop :: int
  assumes read_some: "\<lbrakk>inv w; 0 < n; n \<le> int INT_MAX; BIO_read mt (Some b) n w = (r, out, w'); avail w \<noteq> []\<rbrakk>
      \<Longrightarrow> inv w' \<and> 0 < r \<and> r \<le> n \<and> length out = nat r \<and> avail w = out @ avail w'"
    and read_none: "\<lbrakk>inv w; 0 < n; n \<le> int INT_MAX; BIO_read mt (Some b) n w = (r, out, w'); avail w = []\<rbrakk>
      \<Longrightarrow> inv w' \<and> r = stop \<and> out = [] \<and> avail w' = []"
    and stop_le: "stop \<le> 0"
begin

lemma read_full_loop_exact:
  assumes "inv w" "read_full_loop mt (Some b) first len w = (ok, eof, out, w')"
  shows "inv w' \<and> (if len \<le> length (avail w) then ok \<and> out = take len (avail w) \<and> avail w' = drop len (avail w)
    else \<not> ok \<and> avail w' = [] \<and> (eof \<longleftrightarrow> first \<and> avail w = [] \<and> stop = 0))"
  using assms
proof (induction len arbitrary: w first ok eof out w' rule: less_induct)
  case (less len)
  show ?case
  proof (cases "len = 0")
    case True
    with less.prems show ?thesis by (simp add: read_full_loop.simps)
  next
    case False
    let ?n = "if exceeds_int len then int INT_MAX else int len"
    obtain r out1 w1 where rd: "BIO_read mt (Some b) ?n w = (r, out1, w1)"
      by (cases "BIO_read mt (Some b) ?n w")
    have n: "0 < ?n" "?n \<le> int INT_MAX" "?n \<le> int len"
      using False by (auto simp: INT_MAX_def)
    show ?thesis
    proof (cases "avail w = []")
      case True
      with read_none [OF less.prems(1) n(1,2) rd] have "inv w1" "r = stop" "avail w1 = []"
        by simp_all
      with less.prems(2) rd stop_le False True show ?thesis
        by (simp add: read_full_loop.simps Let_def)
    next
      case some: False
      note step = read_some [OF less.prems(1) n(1,2) rd some]
      obtain ok2 eof2 out2 w2 where rest: "read_full_loop mt (Some b) False (len - nat r) w1 = (ok2, eof2, out2, w2)"
        by (cases "read_full_loop mt (Some b) False (len - nat r) w1")
      have "\<not> r \<le> 0"
        using step by linarith
      then have out: "ok = ok2" "eof = eof2" "out = out1 @ out2" "w' = w2"
        using less.prems(2) rd False rest unfolding read_full_loop.simps [of mt "Some b" first len w] by (simp_all add: Let_def)
      have r: "0 < nat r" "nat r \<le> len" "len - nat r < len"
        using step n(3) False by auto
      have all: "inv w2 \<and> (if len - nat r \<le> length (avail w1)
          then ok2 \<and> out2 = take (len - nat r) (avail w1) \<and> avail w2 = drop (len - nat r) (avail w1)
          else \<not> ok2 \<and> avail w2 = [] \<and> (eof2 \<longleftrightarrow> False \<and> avail w1 = [] \<and> stop = 0))"
        by (rule less.IH [OF r(3) _ rest]) (simp add: step)
      have split: "avail w = out1 @ avail w1" "length out1 = nat r"
        using step by simp_all
      have len: "len \<le> length (avail w) \<longleftrightarrow> len - nat r \<le> length (avail w1)"
        using r(2) unfolding split(1) length_append split(2) by linarith
      have "out1 \<noteq> []"
        using split(2) r(1) by auto
      then show ?thesis
        unfolding len using all r some by (cases "len - nat r \<le> length (avail w1)") (simp_all add: split out)
    qed
  qed
qed

lemma read_full_exact:
  assumes "inv w" "bio_read_full mt (Some b) len w = (ok, eof, out, w')"
  shows "inv w' \<and> (if len \<le> length (avail w) then ok \<and> out = take len (avail w) \<and> avail w' = drop len (avail w)
    else \<not> ok \<and> avail w' = [] \<and> (eof \<longleftrightarrow> avail w = [] \<and> stop = 0))"
  using read_full_loop_exact [of w True len ok eof out w'] assms by (simp add: bio_read_full_def)

lemma read_all_loop_exact:
  assumes "inv w" "length buf = pos" "pos \<le> len" "len \<le> max_len" "max_len \<le> SIZE_MAX" "len - pos < 6144"
    "len = max_len \<or> 2048 \<le> len - pos" "stop = 0 \<or> stop = - 1"
  shows "\<exists>w'. inv w' \<and> (if stop = 0 \<and> pos + length (avail w) < max_len
    then read_all_loop mt unlimited (Some b) max_len len pos buf w = Some (Some (buf @ avail w), w') \<and> avail w' = []
    else read_all_loop mt unlimited (Some b) max_len len pos buf w = Some (None, w'))"
  using assms
proof (induction "length (avail w)" arbitrary: w pos len buf rule: less_induct)
  case less
  note unf = read_all_loop.simps [of mt unlimited "Some b" max_len len pos buf w]
  show ?case
  proof (cases "pos = len")
    case True
    with less.prems(3,4,7) have "len = max_len" by simp
    with True less.prems(1) show ?thesis unfolding unf by (auto intro: exI [of _ w])
  next
    case False
    define n where "n = int len - int pos"
    have sizes: "len \<le> SIZE_MAX" "pos \<le> SIZE_MAX" "len - pos \<le> SIZE_MAX"
      using less.prems(3,4,5) by simp_all
    have n: "0 < n" "n \<le> int INT_MAX" "n = int (len - pos)"
      using less.prems(3,6) False by (simp_all add: n_def INT_MAX_def of_nat_diff)
    have todo: "c_int (int (c_size (int len - int pos))) = n"
    proof -
      have "c_size (int len - int pos) = len - pos"
        unfolding n(3) [unfolded n_def] by (rule c_size_small [OF sizes(3)])
      moreover have "c_int n = n"
        using n(1,2) by (intro c_int_small) (simp_all add: INT_MAX_def)
      ultimately show ?thesis using n(3) by simp
    qed
    obtain r out w1 where rd: "BIO_read mt (Some b) n w = (r, out, w1)"
      by (cases "BIO_read mt (Some b) n w")
    show ?thesis
    proof (cases "avail w = []")
      case True
      note none = read_none [OF less.prems(1) n(1,2) rd True]
      have "pos < max_len"
        using less.prems(3,4) False by simp
      show ?thesis
      proof (cases "stop = 0")
        case True
        then have "read_all_loop mt unlimited (Some b) max_len len pos buf w = Some (Some buf, w1)"
          using none less.prems(2) False by (simp add: unf todo rd)
        then show ?thesis
          using none True \<open>avail w = []\<close> \<open>pos < max_len\<close> by simp
      next
        case neg: False
        then have "r = - 1"
          using none less.prems(8) by simp
        then have "read_all_loop mt unlimited (Some b) max_len len pos buf w = Some (None, w1)"
          using False by (simp add: unf todo rd)
        then show ?thesis
          using none neg by simp
      qed
    next
      case some: False
      note step = read_some [OF less.prems(1) n(1,2) rd some]
      define pos' where "pos' = pos + nat r"
      have r: "0 < nat r" "int (nat r) = r" "pos' \<le> len" "pos < pos'"
        using step n(3) less.prems(3) by (auto simp: pos'_def)
      have avail: "avail w = out @ avail w1" "length out = nat r" "inv w1"
        using step by simp_all
      have smaller: "length (avail w1) < length (avail w)"
        using r(1) by (simp add: avail(1,2))
      have psize: "pos' \<le> SIZE_MAX" "len - pos' \<le> SIZE_MAX"
        using r(3) sizes by simp_all
      have pos: "c_size (int pos + r) = pos'" "c_size (int len - int pos') = len - pos'"
        using c_size_small [OF psize(1)] c_size_small [OF psize(2)] r(2,3) by (simp_all add: pos'_def of_nat_diff)
      have buf: "mem_copy pos out buf = buf @ out" "length (buf @ out) = pos'"
        using less.prems(2) avail(2) by (simp_all add: mem_copy_def pos'_def)
      define len' where "len' = (if len < max_len \<and> len - pos' < 2048
        then (if size_add len kChunkSize < kChunkSize \<or> size_add len kChunkSize > max_len then max_len
              else size_add len kChunkSize) else len)"
      have grow: "size_add len kChunkSize = len + kChunkSize \<or> max_len < len + kChunkSize \<and> size_add len kChunkSize < kChunkSize"
      proof (cases "len + kChunkSize \<le> SIZE_MAX")
        case False
        then have "size_add kChunkSize len < kChunkSize"
          using sizes(1) by (subst size_add_wrap_iff) (simp_all add: kChunkSize_def SIZE_MAX_def)
        with False less.prems(5) show ?thesis by (simp add: size_add_def add.commute)
      qed simp
      have len': "pos' \<le> len'" "len' \<le> max_len" "len' - pos' < 6144" "len' = max_len \<or> 2048 \<le> len' - pos'"
        using less.prems(4,6,7) r(3,4) grow by (auto simp: len'_def kChunkSize_def)
      have "read_all_loop mt unlimited (Some b) max_len len pos buf w =
          read_all_loop mt unlimited (Some b) max_len len' pos' (buf @ out) w1"
        using False step unfolding unf Let_def todo rd
        by (simp add: pos buf(1) len'_def kChunkSize_def)
      moreover have "pos + length (avail w) = pos' + length (avail w1)" "buf @ avail w = (buf @ out) @ avail w1"
        using avail(2) by (simp_all add: avail(1) pos'_def)
      moreover note less.hyps [OF smaller avail(3) buf(2) len'(1,2) less.prems(5) len'(3,4) less.prems(8)]
      ultimately show ?thesis by (simp only:)
    qed
  qed
qed

lemma read_all_exact:
  assumes "inv w" "length pre + kChunkSize \<le> SIZE_MAX" "max_len \<le> SIZE_MAX" "stop = 0 \<or> stop = - 1"
  shows "\<exists>w'. inv w' \<and> (if stop = 0 \<and> length pre + length (avail w) < max_len
    then bio_read_all mt unlimited (Some b) pre max_len w = Some (Some (pre @ avail w), w') \<and> avail w' = []
    else bio_read_all mt unlimited (Some b) pre max_len w = Some (None, w'))"
proof -
  define len where "len = (if length pre + kChunkSize > max_len then max_len else length pre + kChunkSize)"
  have all: "bio_read_all mt unlimited (Some b) pre max_len w =
      (if len < length pre then Some (None, w) else read_all_loop mt unlimited (Some b) max_len len (length pre) pre w)"
    using assms(2) by (simp add: bio_read_all_def len_def Let_def)
  show ?thesis
  proof (cases "length pre < max_len")
    case True
    then have len: "length pre \<le> len" "len \<le> max_len" "len - length pre < 6144" "len = max_len \<or> 2048 \<le> len - length pre"
      by (auto simp: len_def kChunkSize_def)
    then have "bio_read_all mt unlimited (Some b) pre max_len w = read_all_loop mt unlimited (Some b) max_len len (length pre) pre w"
      using all by simp
    then show ?thesis
      by (simp only:) (rule read_all_loop_exact [OF assms(1) refl len(1,2) assms(3) len(3,4) assms(4)])
  next
    case False
    then have "bio_read_all mt unlimited (Some b) pre max_len w = Some (None, w)"
      using all by (auto simp: len_def read_all_loop.simps)
    then show ?thesis
      using assms(1) False by auto
  qed
qed

end

section \<open>Writing to a sink\<close>

text \<open>
  What a writer relies on: a write appends a prefix of its data, of the length it returns when that is positive,
  to what the sink has accepted.
\<close>

locale bio_sink =
  fixes mt :: "('m, 'p, 'c) method_table" and b :: bio_ref
    and inv :: "('m, 'p) bios \<Rightarrow> bool" and written :: "('m, 'p) bios \<Rightarrow> bytes"
  assumes write_prefix: "\<lbrakk>inv w; 0 < n; n \<le> int INT_MAX; nat n \<le> length data; BIO_write mt (Some b) (Some data) n w = (r, w')\<rbrakk>
      \<Longrightarrow> inv w' \<and> r \<le> n \<and> written w' = written w @ take (nat r) data"
begin

lemma write_all_prefix:
  assumes "inv w" "BIO_write_all mt (Some b) data w = (ok, w')"
  shows "inv w' \<and> (\<exists>k \<le> length data. written w' = written w @ take k data \<and> (ok \<longleftrightarrow> k = length data))"
  using assms
proof (induction "length data" arbitrary: data w rule: less_induct)
  case less
  note unf = BIO_write_all.simps [of mt "Some b" data w]
  show ?case
  proof (cases "data = []")
    case True
    with less.prems show ?thesis by (simp add: BIO_write_all.simps)
  next
    case False
    let ?n = "if exceeds_int (length data) then int INT_MAX else int (length data)"
    obtain r w1 where wr: "BIO_write mt (Some b) (Some data) ?n w = (r, w1)"
      by (cases "BIO_write mt (Some b) (Some data) ?n w")
    have n: "0 < ?n" "?n \<le> int INT_MAX" "nat ?n \<le> length data"
      using False by (auto simp: INT_MAX_def)
    note step = write_prefix [OF less.prems(1) n wr]
    show ?thesis
    proof (cases "r \<le> 0")
      case True
      with less.prems(2) wr False have "\<not> ok \<and> w' = w1"
        by (simp add: unf)
      with True step False show ?thesis
        by (auto intro: exI [of _ 0])
    next
      case pos: False
      then have r: "0 < nat r" "nat r \<le> length data"
        using step n(3) by auto
      have rest: "BIO_write_all mt (Some b) (drop (nat r) data) w1 = (ok, w')"
        using less.prems(2) wr False pos by (simp add: unf)
      have "length (drop (nat r) data) < length data"
        using r by simp
      from less.hyps [OF this _ rest] step obtain k where k: "k \<le> length (drop (nat r) data)" "inv w'"
        "written w' = written w1 @ take k (drop (nat r) data)" "ok \<longleftrightarrow> k = length (drop (nat r) data)"
        by auto
      have "written w' = written w @ take (nat r + k) data"
        using step k(3) by (simp add: take_add)
      with k r show ?thesis
        by (intro conjI exI [of _ "nat r + k"]) auto
    qed
  qed
qed

lemma indent_loop_prefix:
  assumes "inv w" "indent_loop mt (Some b) n w = (ok, w')"
  shows "inv w' \<and> (\<exists>k \<le> n. written w' = written w @ replicate k 32 \<and> (ok \<longleftrightarrow> k = n))"
  using assms
proof (induction n arbitrary: w)
  case 0
  then show ?case by auto
next
  case (Suc n)
  obtain r w1 where puts: "BIO_puts mt (Some b) [32, 0] w = (r, w1)"
    by (cases "BIO_puts mt (Some b) [32, 0] w")
  have "BIO_write mt (Some b) (Some [32, 0]) 1 w = (r, w1)"
    using puts by (simp add: BIO_puts_def strlen_def c_int_def)
  then have step: "inv w1" "r \<le> 1" "written w1 = written w @ take (nat r) [32, 0]"
    using write_prefix [OF Suc.prems(1), of 1 "[32, 0]" r w1] by (auto simp: INT_MAX_def)
  show ?case
  proof (cases "r = 1")
    case True
    with Suc.prems(2) puts have "indent_loop mt (Some b) n w1 = (ok, w')"
      by simp
    from Suc.IH [OF step(1) this] obtain k where k: "k \<le> n" "inv w'" "written w' = written w1 @ replicate k 32" "ok \<longleftrightarrow> k = n"
      by auto
    then have "written w' = written w @ replicate (Suc k) 32"
      using step(3) True by simp
    with k show ?thesis
      by (intro conjI exI [of _ "Suc k"]) auto
  next
    case False
    with step(2) have "nat r = 0"
      by linarith
    with False Suc.prems(2) puts step show ?thesis
      by (auto intro: exI [of _ 0])
  qed
qed

end

section \<open>Chains\<close>

fun bio_chain :: "('m, 'p) bios \<Rightarrow> bio_ref option \<Rightarrow> bio_ref list \<Rightarrow> bool" where
  "bio_chain w bio [] \<longleftrightarrow> bio = None"
| "bio_chain w bio (c # cs) \<longleftrightarrow> bio = Some c \<and> c < length w \<and> w ! c \<noteq> None \<and> bio_chain w (next_bio (bio_at c w)) cs"

lemma bio_chain_determined: "bio_chain w bio cs \<Longrightarrow> bio_chain w bio ds \<Longrightarrow> cs = ds"
proof (induction cs arbitrary: bio ds)
  case Nil
  then show ?case by (cases ds) auto
next
  case (Cons c cs)
  then show ?case by (cases ds) auto
qed

lemma bio_chain_split:
  "bio_chain w bio (xs @ c # ys) \<Longrightarrow> bio_chain w (Some c) (c # ys)"
  by (induction xs arbitrary: bio) auto

lemma bio_chain_distinct: "bio_chain w bio cs \<Longrightarrow> distinct cs"
proof (induction cs arbitrary: bio)
  case (Cons c cs)
  have "c \<notin> set cs"
  proof
    assume "c \<in> set cs"
    then obtain xs ys where cs: "cs = xs @ c # ys"
      by (meson split_list)
    then have "bio_chain w (Some c) (c # ys)"
      using Cons.prems bio_chain_split [of w "next_bio (bio_at c w)" xs c ys] by simp
    then have "c # ys = c # cs"
      using Cons.prems by (intro bio_chain_determined [of w "Some c"]) auto
    with cs show False by simp
  qed
  with Cons show ?case by auto
qed simp

lemma bio_chain_frame:
  "\<lbrakk>bio_chain w bio cs; length w' = length w; \<And>c. c \<in> set cs \<Longrightarrow> w' ! c = w ! c\<rbrakk> \<Longrightarrow> bio_chain w' bio cs"
  by (induction cs arbitrary: bio) (auto simp: bio_at_def)

lemma last_of_chain_last: "bio_chain w (Some c) (c # cs) \<Longrightarrow> last_of_chain c w = Some (last (c # cs))"
proof (induction cs arbitrary: c)
  case Nil
  then show ?case by (subst last_of_chain.simps) auto
next
  case (Cons d cs)
  then show ?case by (subst last_of_chain.simps) auto
qed

lemma bio_chain_append:
  assumes "bio_chain w (Some c) (c # cs)" "bio_chain w bio ds" "set (c # cs) \<inter> set ds = {}"
  shows "bio_chain (upd_bio (last (c # cs)) (\<lambda>x. x\<lparr>next_bio := bio\<rparr>) w) (Some c) ((c # cs) @ ds)"
  using assms
proof (induction cs arbitrary: c)
  case Nil
  then have "bio_chain (upd_bio c (\<lambda>x. x\<lparr>next_bio := bio\<rparr>) w) bio ds"
    by - (rule bio_chain_frame [OF Nil.prems(2)], auto)
  with Nil.prems show ?case by simp
next
  case (Cons d cs)
  let ?w = "upd_bio (last (d # cs)) (\<lambda>x. x\<lparr>next_bio := bio\<rparr>) w"
  have chain: "next_bio (bio_at c w) = Some d" "bio_chain w (Some d) (d # cs)" "c < length w" "w ! c \<noteq> None"
    using Cons.prems(1) by auto
  have "c \<noteq> last (d # cs)"
    using bio_chain_distinct [OF Cons.prems(1)] last_in_set [of "d # cs"] by force
  then have "?w ! c = w ! c"
    by (simp add: upd_bio_def)
  then have "next_bio (bio_at c ?w) = Some d" "?w ! c \<noteq> None"
    using chain by (simp_all add: bio_at_def)
  moreover have "bio_chain ?w (Some d) ((d # cs) @ ds)"
    by (rule Cons.IH [OF chain(2) Cons.prems(2)]) (use Cons.prems(3) in auto)
  ultimately show ?case
    using chain(3) by (simp only: append_Cons bio_chain.simps(2)) simp
qed

lemma find_type_loop_find:
  assumes "bio_chain w (Some c) (c # cs)"
  shows "find_type_loop mt c type_mask type w = Some (find (\<lambda>b. case meth (bio_at b w) of None \<Rightarrow> False
    | Some m \<Rightarrow> if type_mask = 0 then mtype (mt m) AND type \<noteq> 0 else mtype (mt m) = type) (c # cs))"
  using assms
proof (induction cs arbitrary: c)
  case Nil
  then show ?case by (subst find_type_loop.simps) (auto split: option.splits)
next
  case (Cons d cs)
  then show ?case by (subst find_type_loop.simps) (auto split: option.splits)
qed

text \<open>
  Chains of \<open>BIO\<close>s are lists.  On a chain, which is finite and without repetition, \<open>BIO_push\<close> appends
  another one, \<open>BIO_pop\<close> splits off the head, and \<open>BIO_find_type\<close> finds the first element with the type; all
  of them return.
\<close>

theorem chains_are_lists:
  assumes "bio_chain w (Some c) (c # cs)" "bio_chain w bio ds" "set (c # cs) \<inter> set ds = {}"
  shows "distinct (c # cs) \<and>
    (\<exists>w'. BIO_push (Some c) bio w = Some (Some c, w') \<and> bio_chain w' (Some c) ((c # cs) @ ds)) \<and>
    (case BIO_pop (Some c) w of (n, w') \<Rightarrow> bio_chain w' n cs \<and> bio_chain w' (Some c) [c]) \<and>
    BIO_find_type mt (Some c) type w = Some (find (\<lambda>b. case meth (bio_at b w) of None \<Rightarrow> False
      | Some m \<Rightarrow> if type AND 0xff = 0 then mtype (mt m) AND type \<noteq> 0 else mtype (mt m) = type) (c # cs))"
proof (intro conjI)
  show distinct: "distinct (c # cs)"
    by (rule bio_chain_distinct [OF assms(1)])
  have push: "BIO_push (Some c) bio w = Some (Some c, upd_bio (last (c # cs)) (\<lambda>x. x\<lparr>next_bio := bio\<rparr>) w)"
    unfolding BIO_push_def option.case last_of_chain_last [OF assms(1)] ..
  show "\<exists>w'. BIO_push (Some c) bio w = Some (Some c, w') \<and> bio_chain w' (Some c) ((c # cs) @ ds)"
    by (intro exI conjI) (rule push, rule bio_chain_append [OF assms])
  have "bio_chain (upd_bio c (\<lambda>x. x\<lparr>next_bio := None\<rparr>) w) (next_bio (bio_at c w)) cs"
    by (rule bio_chain_frame [of w]) (use assms(1) distinct in auto)
  with assms(1) show "case BIO_pop (Some c) w of (n, w') \<Rightarrow> bio_chain w' n cs \<and> bio_chain w' (Some c) [c]"
    by (simp add: BIO_pop_def)
  show "BIO_find_type mt (Some c) type w = Some (find (\<lambda>b. case meth (bio_at b w) of None \<Rightarrow> False
      | Some m \<Rightarrow> if type AND 0xff = 0 then mtype (mt m) AND type \<noteq> 0 else mtype (mt m) = type) (c # cs))"
    unfolding BIO_find_type_def option.case by (rule find_type_loop_find [OF assms(1)])
qed

definition demo_chain :: "(nat, unit) bios" where
  "demo_chain = [Some (zero_bio\<lparr>next_bio := Some 2\<rparr>), Some zero_bio, Some (zero_bio\<lparr>meth := Some 0\<rparr>)]"

definition demo_methods :: "(nat, unit, unit) method_table" where
  "demo_methods = (\<lambda>_. the (BIO_meth_new unlimited 0x401))"

lemma chains_are_lists_witness:
  "(\<exists>w'. BIO_push (Some 0) (Some 1) demo_chain = Some (Some 0, w') \<and> bio_chain w' (Some 0) [0, 2, 1]) \<and>
   BIO_find_type demo_methods (Some 0) 0x400 demo_chain = Some (Some 2)"
proof -
  have "bio_chain demo_chain (Some 0) [0, 2]" "bio_chain demo_chain (Some 1) [1]"
    by (simp_all add: demo_chain_def bio_at_def zero_bio_def)
  from chains_are_lists [OF this, of demo_methods "0x400"]
  have "\<exists>w'. BIO_push (Some 0) (Some 1) demo_chain = Some (Some 0, w') \<and> bio_chain w' (Some 0) [0, 2, 1]"
    by simp
  moreover have "BIO_find_type demo_methods (Some 0) 0x400 demo_chain = Some (Some 2)"
    by (simp add: BIO_find_type_def find_type_loop.simps demo_chain_def demo_methods_def bio_at_def zero_bio_def BIO_meth_new_def)
  ultimately show ?thesis ..
qed

end
