(* ===== verification/Bio_Asn1.thy ===== *)
theory Bio_Asn1
  imports Bio Der
begin

unbundle bit_operations_syntax

text \<open>
  \<open>BIO_read_asn1\<close> of \<open>bio.c\<close> has a DER header parser of its own.  Over every source it agrees with the element
  reader of \<open>cbs.c\<close> on what is available: the same elements are accepted, as far as the tag is short and the
  length within the bounds, and exactly their bytes are taken.
\<close>

definition asn1_of :: "nat \<Rightarrow> bytes \<Rightarrow> (bytes \<times> bytes) option" where
  "asn1_of max_len bs = (case CBS_get_any_asn1_element bs of
     (None, _) \<Rightarrow> None
   | (Some (el, _, hl), rest) \<Rightarrow>
       if hd bs AND 0x1f \<noteq> 0x1f \<and> length el \<le> max_len \<and> \<not> exceeds_int (length el - hl) then Some (el, rest) else None)"

definition indefinite_start :: "bytes \<Rightarrow> bool" where
  "indefinite_start bs = (case bs of
     tag # length_byte # _ \<Rightarrow> tag AND 0x1f \<noteq> 0x1f \<and> tag AND 0x20 \<noteq> 0 \<and> length_byte = 0x80
   | _ \<Rightarrow> False)"

lemma byte_low5: "b AND 0x1f = 0x1f \<longleftrightarrow> unat b mod 32 = 31" for b :: u8
  by (simp add: word_unat_eq_iff byte_simps)

lemma foldl_len32:
  "length bs \<le> 4 \<Longrightarrow> unat (len32_of bs) = be_val bs"
proof (induction bs rule: rev_induct)
  case (snoc b bs)
  then have l: "length bs \<le> 3"
    by simp
  have "be_val bs < 256 ^ length bs"
    by (rule be_val_less)
  also have "\<dots> \<le> 256 ^ 3"
    using l by (intro power_increasing) simp_all
  finally have "be_val bs < 16777216"
    by simp
  with snoc l have "unat (push_bit 8 (len32_of bs) OR ucast b) = be_val bs * 2 ^ 8 + unat b"
    using unat_push_bit_or [of "ucast b :: u32" 8 "len32_of bs"] unat_u8_less [of b] by (simp add: snoc)
  then show ?case
    by (simp add: len32_of_def)
qed (simp add: len32_of_def)

lemma asn1_of_short: "length bs < 2 \<Longrightarrow> asn1_of max_len bs = None"
proof -
  have "2 \<le> length (der_element t c)" for t c
    using der_len_nonempty [of "length c"]
    by (cases "der_len (length c)") (auto simp: der_element_def der_header_def asn1_tag_bytes_def Let_def)
  then have "CBS_get_any_asn1_element bs \<noteq> (Some (el, t, hl), r)" if "length bs < 2" for el t hl r
    using that by (auto simp: CBS_get_any_asn1_element_iff not_le [symmetric] trans_le_add1)
  then show "length bs < 2 \<Longrightarrow> asn1_of max_len bs = None"
    by (auto simp: asn1_of_def split: prod.splits option.splits)
qed

text \<open>The element reader on a short tag, by the length octet.\<close>

lemma asn1_of_length:
  assumes "bs = asn1_tag_bytes t @ lb # rest" "asn1_tag_bytes t = [tag]" "unat tag mod 32 \<noteq> 31"
    and "max_len \<le> SIZE_MAX" and k: "k = unat lb mod 128"
  shows "asn1_of max_len bs =
    (if unat lb < 128 then
       (if unat lb + 2 \<le> max_len \<and> unat lb \<le> length rest then Some (tag # lb # take (unat lb) rest, drop (unat lb) rest) else None)
     else if k = 0 \<or> k > 4 \<or> length rest < k then None
     else let n = be_val (take k rest)
          in if n < 128 \<or> n < 256 ^ (k - 1) then None
             else if n + 2 + k \<le> max_len \<and> n \<le> INT_MAX \<and> n + k \<le> length rest
             then Some (tag # lb # take (n + k) rest, drop (n + k) rest) else None)"
proof -
  have elem: "CBS_get_any_asn1_element bs =
    (if unat lb < 128 then asn1_take bs t 2 (unat lb + 2)
     else if k = 0 \<or> k > 4 \<or> length rest < k then (None, bs)
     else let n = be_val (take k rest)
          in if n < 128 \<or> n < 256 ^ (k - 1) then (None, bs) else asn1_take bs t (2 + k) (n + 2 + k))"
    unfolding CBS_get_any_asn1_element_def using element_at_length_octet [OF assms(1) _ k, of 2 False]
    by (simp add: assms(2))
  have take: "asn1_take bs t hl (m + 2) = (if length rest < m then (None, bs) else (Some (tag # lb # take m rest, t, hl), drop m rest))" for hl m
    by (simp add: asn1_take_def assms(1,2))
  have take': "asn1_take bs t hl (m + 2 + k) =
      (if length rest < m + k then (None, bs) else (Some (tag # lb # take (m + k) rest, t, hl), drop (m + k) rest))" for hl m
    using take [of hl "m + k"] by (simp add: add.commute add.left_commute)
  have hd: "hd bs AND 0x1f \<noteq> 0x1f"
    using assms(3) by (simp add: assms(1,2) byte_low5)
  have "unat lb \<le> INT_MAX"
    using unat_u8_less [of lb] unfolding INT_MAX_def by linarith
  with hd show ?thesis
    unfolding asn1_of_def elem Let_def take take' by auto
qed

context bio_source
begin

lemma read_asn1_body_exact:
  assumes "inv w" "len + length header \<le> SIZE_MAX" "read_asn1_body mt unlimited (Some b) max_len header len w = (res, w')"
  shows "inv w' \<and> (if len + length header \<le> max_len \<and> len \<le> INT_MAX \<and> len \<le> length (avail w)
    then res = Inr (header @ take len (avail w)) \<and> avail w' = drop len (avail w) else \<exists>e. res = Inl e)"
proof -
  obtain ok eof out w1 where rd: "bio_read_full mt (Some b) len w = (ok, eof, out, w1)"
    by (cases "bio_read_full mt (Some b) len w")
  note full = read_full_exact [OF assms(1) rd]
  have sum: "size_add len (length header) = len + length header"
    using assms(2) by simp
  show ?thesis
    using assms(1,3) full unfolding read_asn1_body_def Let_def sum
    by (auto simp: rd split: if_splits)
qed

lemma read_asn1_long_exact:
  assumes "inv w" "k \<noteq> 0" "k \<le> 4" "length header = 2"
  shows "\<exists>res w'. read_asn1_long mt unlimited (Some b) max_len header k w = Some (res, w') \<and> inv w' \<and>
    (let n = be_val (take k (avail w))
     in if length (avail w) < k \<or> n < 128 \<or> n < 256 ^ (k - 1) \<or> \<not> (n + 2 + k \<le> max_len \<and> n \<le> INT_MAX \<and> n + k \<le> length (avail w))
        then \<exists>e. res = Inl e
        else res = Inr (header @ take (n + k) (avail w)) \<and> avail w' = drop (n + k) (avail w))"
proof -
  obtain ok eof len_bytes w1 where rd: "bio_read_full mt (Some b) k w = (ok, eof, len_bytes, w1)"
    by (cases "bio_read_full mt (Some b) k w")
  note full = read_full_exact [OF assms(1) rd]
  show ?thesis
  proof (cases "length (avail w) < k")
    case True
    with full show ?thesis
      by (auto simp: read_asn1_long_def rd)
  next
    case False
    then have ok: "ok" "len_bytes = take k (avail w)" "avail w1 = drop k (avail w)" "inv w1"
      using full by simp_all
    define n where "n = be_val (take k (avail w))"
    have n: "unat (len32_of len_bytes) = n"
      using foldl_len32 [of len_bytes] assms(3) by (simp add: ok(2) n_def)
    have checks: "len32_of len_bytes < 128 \<longleftrightarrow> n < 128"
      "drop_bit ((k - 1) * 8) (len32_of len_bytes) = 0 \<longleftrightarrow> n < 256 ^ (k - 1)"
      using drop_bit_8_eq_0_iff [of "k - 1" "len32_of len_bytes"]
      by (simp_all add: n word_less_nat_alt mult.commute)
    obtain res w2 where body: "read_asn1_body mt unlimited (Some b) max_len (header @ len_bytes) n w1 = (res, w2)"
      by (cases "read_asn1_body mt unlimited (Some b) max_len (header @ len_bytes) n w1")
    have len: "length (header @ len_bytes) = 2 + k"
      using False by (simp add: ok(2) assms(4))
    have "n < 4294967296"
      using unsigned_less [of "len32_of len_bytes", where ?'a = nat] by (simp add: n)
    then have fits: "n + length (header @ len_bytes) \<le> SIZE_MAX"
      unfolding len using assms(3) by (simp add: SIZE_MAX_def)
    have code: "read_asn1_long mt unlimited (Some b) max_len header k w =
        Some (if n < 128 \<or> n < 256 ^ (k - 1) then (Inl ASN1_R_DECODE_ERROR, w1) else (res, w2))"
      using ok(1) body by (simp add: read_asn1_long_def rd Let_def checks n del: One_nat_def)
    have parts: "(header @ len_bytes) @ take n (drop k (avail w)) = header @ take (n + k) (avail w)"
      "drop n (drop k (avail w)) = drop (n + k) (avail w)" "n \<le> length (drop k (avail w)) \<longleftrightarrow> n + k \<le> length (avail w)"
      "n + length (header @ len_bytes) = n + 2 + k"
      using False len by (auto simp: ok(2) take_add add.commute [of n k])
    show ?thesis
      using read_asn1_body_exact [OF ok(4) fits body, unfolded ok(3) parts] ok(4) False
      unfolding code n_def [symmetric] Let_def by auto
  qed
qed

lemma read_asn1_exact:
  assumes "inv w" "max_len \<le> SIZE_MAX" "stop = 0 \<or> stop = - 1"
  shows "\<exists>res w'. BIO_read_asn1 mt unlimited (Some b) max_len w = Some (res, w') \<and> inv w' \<and>
    (if indefinite_start (avail w)
     then (if stop = 0 \<and> length (avail w) < max_len then res = Inr (avail w) \<and> avail w' = [] else \<exists>e. res = Inl e)
     else case asn1_of max_len (avail w) of
       Some (el, rest) \<Rightarrow> res = Inr el \<and> avail w' = rest
     | None \<Rightarrow> \<exists>e. res = Inl e)"
proof -
  obtain ok eof header w1 where rd: "bio_read_full mt (Some b) kInitialHeaderLen w = (ok, eof, header, w1)"
    by (cases "bio_read_full mt (Some b) kInitialHeaderLen w")
  note first = read_full_exact [OF assms(1) rd]
  show ?thesis
  proof (cases "length (avail w) < 2")
    case True
    then have "\<not> indefinite_start (avail w)"
      by (auto simp: indefinite_start_def split: list.splits)
    with True first rd asn1_of_short [OF True] show ?thesis
      by (auto simp: BIO_read_asn1_def kInitialHeaderLen_def)
  next
    case False
    then obtain tag lb rest where bs: "avail w = tag # lb # rest"
      by (cases "avail w" rule: list.exhaust [case_product list.exhaust]) (auto simp: neq_Nil_conv not_less le_Suc_eq dest!: Suc_le_length_iff [THEN iffD1])
    with first have start: "ok" "header = [tag, lb]" "avail w1 = rest" "inv w1"
      by (simp_all add: kInitialHeaderLen_def)
    define t where "t = (of_nat (unat tag div 32 * 2 ^ 29 + unat tag mod 32) :: u32)"
    show ?thesis
    proof (cases "unat tag mod 32 = 31")
      case True
      then have "BIO_read_asn1 mt unlimited (Some b) max_len w = Some (Inl ASN1_R_DECODE_ERROR, w1)"
        using start by (simp add: BIO_read_asn1_def rd Let_def byte_low5)
      moreover have "\<not> indefinite_start (avail w)" "asn1_of max_len (avail w) = None"
        using True by (auto simp: indefinite_start_def asn1_of_def bs byte_low5 split: prod.splits option.splits)
      ultimately show ?thesis
        using start(4) by simp
    next
      case short: False
      then have "parse_asn1_tag (tag # lb # rest) = (Some t, lb # rest)"
        by (simp add: parse_asn1_tag_Cons t_def)
      then have tag: "avail w = asn1_tag_bytes t @ lb # rest" "asn1_tag_bytes t = [tag]"
        using parse_asn1_tag_sound [of "tag # lb # rest" t "lb # rest"] by (auto simp: bs append_eq_Cons_conv)
      define k where "k = unat lb mod 128"
      have k: "k = unat lb mod 128" "k < 128" "unat (lb AND 0x7f) = k"
        by (simp_all add: k_def byte_simps)
      note spec = asn1_of_length [OF tag short assms(2) k(1)]
      note code = BIO_read_asn1_def [of mt unlimited "Some b" max_len w, unfolded rd prod.case bool.case start(2) nth_Cons_0]
      show ?thesis
      proof (cases "unat lb < 128")
        case True
        obtain res w2 where body: "read_asn1_body mt unlimited (Some b) max_len [tag, lb] (unat lb) w1 = (res, w2)"
          by (cases "read_asn1_body mt unlimited (Some b) max_len [tag, lb] (unat lb) w1")
        have small: "unat lb + length [tag, lb] \<le> SIZE_MAX" "unat lb \<le> INT_MAX"
          using True by (simp_all add: SIZE_MAX_def INT_MAX_def)
        have "lb \<noteq> 0x80"
          using True by auto
        then have "\<not> indefinite_start (avail w)"
          by (simp add: indefinite_start_def bs)
        moreover have "BIO_read_asn1 mt unlimited (Some b) max_len w = Some (res, w2)"
          using True short start body by (simp add: BIO_read_asn1_def rd Let_def byte_low5 and_0x80_iff)
        ultimately show ?thesis
          using read_asn1_body_exact [OF start(4) small(1) body] True small(2) start(3) by (auto simp: spec)
      next
        case long: False
        have code: "BIO_read_asn1 mt unlimited (Some b) max_len w =
          (if tag AND 0x20 \<noteq> 0 \<and> k = 0 then
             (case bio_read_all mt unlimited (Some b) [tag, lb] max_len w1 of
                None \<Rightarrow> None
              | Some (None, w2) \<Rightarrow> Some (Inl ASN1_R_NOT_ENOUGH_DATA, w2)
              | Some (Some out, w2) \<Rightarrow> Some (Inr out, w2))
           else if k = 0 \<or> k > 4 then Some (Inl ASN1_R_DECODE_ERROR, w1)
           else read_asn1_long mt unlimited (Some b) max_len [tag, lb] k w1)"
          using long short start by (simp add: BIO_read_asn1_def rd Let_def byte_low5 and_0x80_iff k(3))
        have "k = unat lb - 128"
          using long k(1) unat_u8_less [of lb] by (simp add: mod_128_high)
        then have "lb = 0x80 \<longleftrightarrow> k = 0"
          using long by (simp add: word_unat_eq_iff)
        then have ind: "indefinite_start (avail w) \<longleftrightarrow> tag AND 0x20 \<noteq> 0 \<and> k = 0"
          using short by (simp add: indefinite_start_def bs byte_low5)
        consider (all) "tag AND 0x20 \<noteq> 0 \<and> k = 0" | (bad) "\<not> (tag AND 0x20 \<noteq> 0 \<and> k = 0)" "k = 0 \<or> k > 4"
          | (octets) "k \<noteq> 0" "k \<le> 4"
          by linarith
        then show ?thesis
        proof cases
          case all
          have "length [tag, lb] + kChunkSize \<le> SIZE_MAX"
            by (simp add: kChunkSize_def SIZE_MAX_def)
          note read_all_exact [OF start(4) this assms(2,3)]
          with all ind start(3) show ?thesis
            by (auto simp: bs code split: if_splits)
        next
          case bad
          then show ?thesis
            using ind start(4) long by (auto simp: code spec)
        next
          case octets
          then show ?thesis
            using read_asn1_long_exact [OF start(4) octets, of "[tag, lb]" max_len] ind long
            by (auto simp: code spec start(3) Let_def)
        qed
      qed
    qed
  qed
qed

end

end
