(* ===== verification/Bio_Mem.thy ===== *)
theory Bio_Mem
  imports Buf Bio_Asn1
begin

unbundle bit_operations_syntax

text \<open>
  \<open>crypto/bio/bio_mem.c\<close>: a \<open>BIO\<close> over a \<open>BUF_MEM\<close>, written at its end and read from its start, or over
  read-only memory.  Reading from read-only memory moves \<open>b->data\<close>: \<open>mem_start\<close> is how far.
\<close>

section \<open>Definitions\<close>

record mem_st =
  mem_start :: nat
  mem_buf :: buf_mem

text \<open>The name of the method; \<open>others\<close> is the table of the methods of other files.\<close>

definition BIO_s_mem :: nat where
  "BIO_s_mem = 0"

type_synonym mem_bios = "(nat, mem_st) bios"

definition mem_at :: "bio_ref \<Rightarrow> mem_bios \<Rightarrow> mem_st" where
  "mem_at b w = the (ptr (bio_at b w))"

definition set_mem :: "bio_ref \<Rightarrow> mem_st \<Rightarrow> mem_bios \<Rightarrow> mem_bios" where
  "set_mem b m w = upd_bio b (\<lambda>x. x\<lparr>ptr := Some m\<rparr>) w"

definition is_rdonly :: "bio_ref \<Rightarrow> mem_bios \<Rightarrow> bool" where
  "is_rdonly b w \<longleftrightarrow> flags (bio_at b w) AND BIO_FLAGS_MEM_RDONLY \<noteq> 0"

definition mem_new :: "allocator \<Rightarrow> bio_ref \<Rightarrow> mem_bios \<Rightarrow> bool \<times> mem_bios" where
  "mem_new al bio w = (case BUF_MEM_new al of
     None \<Rightarrow> (False, w)
   | Some b \<Rightarrow>
       (True, upd_bio bio (\<lambda>x. x\<lparr>shutdown := 1, bio_init := True, num := - 1,
                                  ptr := Some \<lparr>mem_start = 0, mem_buf = b\<rparr>\<rparr>) w))"

definition mem_free :: "bio_ref \<Rightarrow> mem_bios \<Rightarrow> mem_bios" where
  "mem_free bio w =
     (if shutdown (bio_at bio w) = 0 \<or> \<not> bio_init (bio_at bio w) \<or> ptr (bio_at bio w) = None then w
      else upd_bio bio (\<lambda>x. x\<lparr>ptr := None\<rparr>) w)"

text \<open>The comparisons with \<open>INT_MAX\<close> are on the values.\<close>

definition mem_read :: "bio_ref \<Rightarrow> int \<Rightarrow> mem_bios \<Rightarrow> int \<times> bytes \<times> mem_bios" where
  "mem_read bio outl w0 =
     (let w = BIO_clear_retry_flags bio w0;
          m = mem_at bio w;
          b = mem_buf m;
          blen = mem_length b;
          ret = (if int blen < 2147483647 \<and> outl > int blen then int blen else outl)
      in if ret > 0 then
           let n = nat ret;
               out = take n (drop (mem_start m) (mem_data b));
               m' = (if is_rdonly bio w then m\<lparr>mem_start := mem_start m + n, mem_buf := b\<lparr>mem_length := blen - n\<rparr>\<rparr>
                     else m\<lparr>mem_buf := b\<lparr>mem_length := blen - n,
                                          mem_data := mem_move (mem_start m) (mem_start m + n) (blen - n) (mem_data b)\<rparr>\<rparr>)
           in (ret, out, set_mem bio m' w)
         else if blen = 0 then
           let ret = num (bio_at bio w)
           in (ret, [], if ret \<noteq> 0 then BIO_set_retry_read bio w else w)
         else (ret, [], w))"

definition mem_write ::
  "allocator \<Rightarrow> (nat \<Rightarrow> u8) \<Rightarrow> bio_ref \<Rightarrow> bytes option \<Rightarrow> int \<Rightarrow> mem_bios \<Rightarrow> int \<times> mem_bios" where
  "mem_write al fresh bio inp inl w0 =
     (if is_rdonly bio w0 then (- 1, w0)
      else
        let w = BIO_clear_retry_flags bio w0;
            m = mem_at bio w;
            blen = c_int (int (mem_length (mem_buf m)))
        in if 2147483647 - blen < inl then (- 1, w)
           else case BUF_MEM_grow_clean al fresh (mem_buf m) (c_size (blen + inl)) of (n, b') \<Rightarrow>
             if n \<noteq> c_size (blen + inl) then (- 1, set_mem bio (m\<lparr>mem_buf := b'\<rparr>) w)
             else
               (inl, set_mem bio (m\<lparr>mem_buf := b'\<lparr>mem_data :=
                  mem_copy (mem_start m + nat blen) (take (nat inl) (the inp)) (mem_data b')\<rparr>\<rparr>) w))"

text \<open>The scan for a newline, which stops after it.\<close>

fun newline_scan :: "nat \<Rightarrow> bytes \<Rightarrow> nat" where
  "newline_scan 0 p = 0"
| "newline_scan (Suc j) p = (if hd p = 10 then 1 else Suc (newline_scan j (tl p)))"

definition mem_gets :: "bio_ref \<Rightarrow> int \<Rightarrow> mem_bios \<Rightarrow> int \<times> bytes \<times> mem_bios" where
  "mem_gets bio sz w0 =
     (let w = BIO_clear_retry_flags bio w0;
          m = mem_at bio w;
          j = c_int (int (mem_length (mem_buf m)));
          j = (if sz - 1 < j then sz - 1 else j)
      in if j \<le> 0 then (0, if sz > 0 then [0] else [], w)
         else
           let i = newline_scan (nat j) (drop (mem_start m) (mem_data (mem_buf m)))
           in case mem_read bio (int i) w of (i, out, w1) \<Rightarrow>
                (i, if i > 0 then out @ [0] else out, w1))"

text \<open>What \<open>parg\<close> points to: the data of \<open>BIO_CTRL_INFO\<close>, or a \<open>BUF_MEM\<close>.\<close>

datatype mem_arg = Mem_Data bytes | Mem_Buf mem_st

definition BIO_C_SET_BUF_MEM :: nat where "BIO_C_SET_BUF_MEM = 114"

definition BIO_C_GET_BUF_MEM_PTR :: nat where "BIO_C_GET_BUF_MEM_PTR = 115"

definition BIO_C_SET_BUF_MEM_EOF_RETURN :: nat where "BIO_C_SET_BUF_MEM_EOF_RETURN = 130"

definition mem_contents :: "mem_st \<Rightarrow> bytes" where
  "mem_contents m = take (mem_length (mem_buf m)) (drop (mem_start m) (mem_data (mem_buf m)))"

definition mem_reset :: "bio_ref \<Rightarrow> mem_bios \<Rightarrow> mem_bios" where
  "mem_reset bio w =
     (let m = mem_at bio w;
          b = mem_buf m
      in if mem_data b = [] then w
         else if is_rdonly bio w then
           set_mem bio (m\<lparr>mem_start := mem_start m - (mem_max b - mem_length b), mem_buf := b\<lparr>mem_length := mem_max b\<rparr>\<rparr>) w
         else set_mem bio (m\<lparr>mem_buf := \<lparr>mem_length = 0, mem_data = replicate (mem_max b) 0\<rparr>\<rparr>) w)"

definition mem_ctrl ::
  "bio_ref \<Rightarrow> nat \<Rightarrow> int \<Rightarrow> mem_arg option \<Rightarrow> mem_bios \<Rightarrow> int \<times> mem_arg option \<times> mem_bios" where
  "mem_ctrl bio cmd larg parg w =
     (let m = mem_at bio w;
          b = mem_buf m
      in if cmd = BIO_CTRL_RESET then (1, parg, mem_reset bio w)
         else if cmd = BIO_CTRL_EOF then (if mem_length b = 0 then 1 else 0, parg, w)
         else if cmd = BIO_C_SET_BUF_MEM_EOF_RETURN then (1, parg, upd_bio bio (\<lambda>x. x\<lparr>num := c_int larg\<rparr>) w)
         else if cmd = BIO_CTRL_INFO then
           (int (mem_length b), map_option (\<lambda>_. Mem_Data (mem_contents m)) parg, w)
         else if cmd = BIO_C_SET_BUF_MEM then
           (1, parg, upd_bio bio (\<lambda>x. x\<lparr>shutdown := c_int larg,
                ptr := (case parg of Some (Mem_Buf m') \<Rightarrow> Some m' | _ \<Rightarrow> None)\<rparr>) (mem_free bio w))
         else if cmd = BIO_C_GET_BUF_MEM_PTR then (1, map_option (\<lambda>_. Mem_Buf m) parg, w)
         else if cmd = BIO_CTRL_GET_CLOSE then (shutdown (bio_at bio w), parg, w)
         else if cmd = BIO_CTRL_SET_CLOSE then (1, parg, upd_bio bio (\<lambda>x. x\<lparr>shutdown := c_int larg\<rparr>) w)
         else if cmd = BIO_CTRL_WPENDING then (0, parg, w)
         else if cmd = BIO_CTRL_PENDING then (int (mem_length b), parg, w)
         else if cmd = BIO_CTRL_FLUSH then (1, parg, w)
         else (0, parg, w))"

definition mem_method :: "allocator \<Rightarrow> (nat \<Rightarrow> u8) \<Rightarrow> (nat, mem_st, mem_arg) bio_method" where
  "mem_method al fresh = \<lparr>mtype = 1 OR 0x0400, bwrite = Some (mem_write al fresh), bread = Some mem_read,
     bgets = Some mem_gets, ctrl = Some mem_ctrl, create = Some (mem_new al), destroy = Some mem_free\<rparr>"

definition mem_table ::
  "allocator \<Rightarrow> (nat \<Rightarrow> u8) \<Rightarrow> (nat, mem_st, mem_arg) method_table \<Rightarrow> (nat, mem_st, mem_arg) method_table" where
  "mem_table al fresh others = others(BIO_s_mem := mem_method al fresh)"

definition BIO_new_mem_buf ::
  "allocator \<Rightarrow> (nat \<Rightarrow> u8) \<Rightarrow> (nat, mem_st, mem_arg) method_table \<Rightarrow> bytes option \<Rightarrow> int \<Rightarrow> mem_bios \<Rightarrow>
   bio_ref option \<times> mem_bios" where
  "BIO_new_mem_buf al fresh others buf len w =
     (let sz = (if len < 0 then strlen (the buf) else nat len)
      in if buf = None \<and> len \<noteq> 0 then (None, w)
         else case BIO_new (mem_table al fresh others) al BIO_s_mem w of
           (None, w1) \<Rightarrow> (None, w1)
         | (Some ret, w1) \<Rightarrow>
             (Some ret, upd_bio ret (\<lambda>x. x\<lparr>
                ptr := Some \<lparr>mem_start = 0,
                             mem_buf = \<lparr>mem_length = sz, mem_data = (case buf of None \<Rightarrow> [] | Some bs \<Rightarrow> take sz bs)\<rparr>\<rparr>,
                flags := flags x OR BIO_FLAGS_MEM_RDONLY, num := 0\<rparr>) w1))"

definition BIO_mem_contents :: "bio_ref \<Rightarrow> mem_bios \<Rightarrow> bytes option" where
  "BIO_mem_contents bio w =
     (if meth (bio_at bio w) \<noteq> Some BIO_s_mem then None else Some (mem_contents (mem_at bio w)))"

definition BIO_get_mem_data ::
  "(nat, mem_st, mem_arg) method_table \<Rightarrow> bio_ref option \<Rightarrow> mem_bios \<Rightarrow> int \<times> mem_arg option \<times> mem_bios" where
  "BIO_get_mem_data mt bio w = BIO_ctrl mt bio BIO_CTRL_INFO 0 (Some (Mem_Data [])) w"

definition BIO_get_mem_ptr ::
  "(nat, mem_st, mem_arg) method_table \<Rightarrow> bio_ref option \<Rightarrow> mem_bios \<Rightarrow> int \<times> mem_arg option \<times> mem_bios" where
  "BIO_get_mem_ptr mt bio w = BIO_ctrl mt bio BIO_C_GET_BUF_MEM_PTR 0 (Some (Mem_Data [])) w"

definition BIO_set_mem_buf ::
  "(nat, mem_st, mem_arg) method_table \<Rightarrow> bio_ref option \<Rightarrow> mem_st \<Rightarrow> int \<Rightarrow> mem_bios \<Rightarrow> int \<times> mem_arg option \<times> mem_bios" where
  "BIO_set_mem_buf mt bio b take_ownership w = BIO_ctrl mt bio BIO_C_SET_BUF_MEM take_ownership (Some (Mem_Buf b)) w"

definition BIO_set_mem_eof_return ::
  "(nat, mem_st, mem_arg) method_table \<Rightarrow> bio_ref option \<Rightarrow> int \<Rightarrow> mem_bios \<Rightarrow> int \<times> mem_arg option \<times> mem_bios" where
  "BIO_set_mem_eof_return mt bio eof_value w = BIO_ctrl mt bio BIO_C_SET_BUF_MEM_EOF_RETURN eof_value None w"

section \<open>The invariant\<close>

text \<open>
  An open memory \<open>BIO\<close>: its contents lie inside the array, at the start of it unless the memory is read-only.
\<close>

definition mem_ok :: "bio_ref \<Rightarrow> mem_bios \<Rightarrow> bool" where
  "mem_ok b w \<longleftrightarrow> b < length w \<and> meth (bio_at b w) = Some BIO_s_mem \<and> bio_init (bio_at b w) \<and>
     ptr (bio_at b w) \<noteq> None \<and>
     mem_start (mem_at b w) + mem_length (mem_buf (mem_at b w)) \<le> mem_max (mem_buf (mem_at b w)) \<and>
     mem_max (mem_buf (mem_at b w)) \<le> SIZE_MAX \<and>
     (is_rdonly b w \<or> mem_start (mem_at b w) = 0)"

definition bio_contents :: "bio_ref \<Rightarrow> mem_bios \<Rightarrow> bytes" where
  "bio_contents b w = mem_contents (mem_at b w)"

lemma kRetryFlags_value: "kRetryFlags = 15"
  by (simp add: kRetryFlags_def BIO_FLAGS_RWS_def BIO_FLAGS_READ_def BIO_FLAGS_WRITE_def
      BIO_FLAGS_IO_SPECIAL_def BIO_FLAGS_SHOULD_RETRY_def)

lemma rdonly_flags:
  "(f AND NOT kRetryFlags) AND BIO_FLAGS_MEM_RDONLY = f AND BIO_FLAGS_MEM_RDONLY"
  "(f OR (BIO_FLAGS_READ OR BIO_FLAGS_SHOULD_RETRY)) AND BIO_FLAGS_MEM_RDONLY = f AND BIO_FLAGS_MEM_RDONLY"
proof -
  have "(f AND NOT 15) AND 0x200 = f AND (NOT 15 AND (0x200 :: u32))"
    by (simp only: and.assoc)
  then show "(f AND NOT kRetryFlags) AND BIO_FLAGS_MEM_RDONLY = f AND BIO_FLAGS_MEM_RDONLY"
    by (simp add: kRetryFlags_value BIO_FLAGS_MEM_RDONLY_def)
  have "(f OR 9) AND 0x200 = f AND 0x200 OR 9 AND (0x200 :: u32)"
    by (rule bit.conj_disj_distrib2)
  then show "(f OR (BIO_FLAGS_READ OR BIO_FLAGS_SHOULD_RETRY)) AND BIO_FLAGS_MEM_RDONLY = f AND BIO_FLAGS_MEM_RDONLY"
    by (simp add: BIO_FLAGS_READ_def BIO_FLAGS_SHOULD_RETRY_def BIO_FLAGS_MEM_RDONLY_def)
qed

text \<open>Retry flags and counters do not matter to the contents.\<close>

lemma mem_at_upd:
  assumes "b < length w" "\<And>x. ptr (f x) = ptr x"
  shows "mem_at b (upd_bio b f w) = mem_at b w"
  using assms by (simp add: mem_at_def)

lemma mem_ok_upd:
  assumes "mem_ok b w" "\<And>x. ptr (f x) = ptr x" "\<And>x. meth (f x) = meth x" "\<And>x. bio_init (f x) = bio_init x"
    "\<And>x. flags (f x) AND BIO_FLAGS_MEM_RDONLY = flags x AND BIO_FLAGS_MEM_RDONLY"
  shows "mem_ok b (upd_bio b f w)" "bio_contents b (upd_bio b f w) = bio_contents b w"
    "is_rdonly b (upd_bio b f w) = is_rdonly b w" "mem_at b (upd_bio b f w) = mem_at b w"
proof -
  have "b < length w"
    using assms(1) by (simp add: mem_ok_def)
  moreover from this show at: "mem_at b (upd_bio b f w) = mem_at b w" and rd: "is_rdonly b (upd_bio b f w) = is_rdonly b w"
    using assms by (simp_all add: mem_at_upd is_rdonly_def)
  ultimately show "mem_ok b (upd_bio b f w)" "bio_contents b (upd_bio b f w) = bio_contents b w"
    using assms by (simp_all add: mem_ok_def bio_contents_def)
qed

lemma set_mem_at [simp]:
  "b < length w \<Longrightarrow> mem_at b (set_mem b m w) = m"
  "b < length w \<Longrightarrow> is_rdonly b (set_mem b m w) = is_rdonly b w"
  "length (set_mem b m w) = length w"
  by (simp_all add: mem_at_def set_mem_def is_rdonly_def)

lemma mem_ok_set:
  assumes "mem_ok b w" "mem_start m + mem_length (mem_buf m) \<le> mem_max (mem_buf m)" "mem_max (mem_buf m) \<le> SIZE_MAX"
    "is_rdonly b w \<or> mem_start m = 0"
  shows "mem_ok b (set_mem b m w)" "bio_contents b (set_mem b m w) = mem_contents m"
proof -
  have "b < length w"
    using assms(1) by (simp add: mem_ok_def)
  with assms show "mem_ok b (set_mem b m w)" "bio_contents b (set_mem b m w) = mem_contents m"
    by (auto simp: mem_ok_def bio_contents_def) (simp_all add: set_mem_def)
qed

lemma length_bio_contents: "mem_ok b w \<Longrightarrow> length (bio_contents b w) = mem_length (mem_buf (mem_at b w))"
  by (auto simp: mem_ok_def bio_contents_def mem_contents_def mem_max_def)

section \<open>Reading and writing\<close>

lemma clear_retry_ok:
  assumes "mem_ok b w"
  shows "mem_ok b (BIO_clear_retry_flags b w)" "bio_contents b (BIO_clear_retry_flags b w) = bio_contents b w"
    "is_rdonly b (BIO_clear_retry_flags b w) = is_rdonly b w" "mem_at b (BIO_clear_retry_flags b w) = mem_at b w"
    "num (bio_at b (BIO_clear_retry_flags b w)) = num (bio_at b w)"
proof -
  show "mem_ok b (BIO_clear_retry_flags b w)" "bio_contents b (BIO_clear_retry_flags b w) = bio_contents b w"
    "is_rdonly b (BIO_clear_retry_flags b w) = is_rdonly b w" "mem_at b (BIO_clear_retry_flags b w) = mem_at b w"
    unfolding BIO_clear_retry_flags_def by (rule mem_ok_upd [OF assms]; simp add: rdonly_flags)+
  show "num (bio_at b (BIO_clear_retry_flags b w)) = num (bio_at b w)"
    using assms by (simp add: mem_ok_def BIO_clear_retry_flags_def)
qed

lemma set_retry_ok:
  assumes "mem_ok b w"
  shows "mem_ok b (BIO_set_retry_read b w)" "bio_contents b (BIO_set_retry_read b w) = bio_contents b w"
    "is_rdonly b (BIO_set_retry_read b w) = is_rdonly b w" "num (bio_at b (BIO_set_retry_read b w)) = num (bio_at b w)"
proof -
  show "mem_ok b (BIO_set_retry_read b w)" "bio_contents b (BIO_set_retry_read b w) = bio_contents b w"
    "is_rdonly b (BIO_set_retry_read b w) = is_rdonly b w"
    unfolding BIO_set_retry_read_def by (rule mem_ok_upd [OF assms]; simp add: rdonly_flags)+
  show "num (bio_at b (BIO_set_retry_read b w)) = num (bio_at b w)"
    using assms by (simp add: mem_ok_def BIO_set_retry_read_def)
qed

lemma mem_read_exact:
  assumes ok: "mem_ok b w" and n: "0 < n" "n \<le> 2147483647" and rd: "mem_read b n w = (r, out, w')"
  shows "mem_ok b w' \<and> num (bio_at b w') = num (bio_at b w) \<and> is_rdonly b w' = is_rdonly b w \<and>
    (if bio_contents b w = [] then r = num (bio_at b w) \<and> out = [] \<and> bio_contents b w' = []
     else r = min n (int (length (bio_contents b w))) \<and> out = take (nat n) (bio_contents b w) \<and>
          bio_contents b w' = drop (nat n) (bio_contents b w))"
proof -
  define w1 where "w1 = BIO_clear_retry_flags b w"
  note clear = clear_retry_ok [OF ok, folded w1_def]
  define m where "m = mem_at b w1"
  define blen where "blen = mem_length (mem_buf m)"
  have b: "b < length w1" "mem_start m + blen \<le> length (mem_data (mem_buf m))" "length (mem_data (mem_buf m)) \<le> SIZE_MAX"
    "is_rdonly b w1 \<or> mem_start m = 0"
    using clear(1) by (simp_all add: mem_ok_def m_def blen_def mem_max_def)
  have cont: "bio_contents b w = take blen (drop (mem_start m) (mem_data (mem_buf m)))" "length (bio_contents b w) = blen"
    using clear(2) length_bio_contents [OF clear(1)] by (simp_all add: bio_contents_def mem_contents_def m_def blen_def)
  define k where "k = (if int blen < 2147483647 \<and> n > int blen then int blen else n)"
  have k: "k = min n (int blen)"
    using n(2) by (auto simp: k_def)
  note rd' = rd [unfolded mem_read_def Let_def, folded w1_def, folded m_def, folded blen_def, folded k_def]
  show ?thesis
  proof (cases "blen = 0")
    case True
    then have "r = num (bio_at b w1)" "out = []" "w' = (if num (bio_at b w1) \<noteq> 0 then BIO_set_retry_read b w1 else w1)"
      using rd' k n by auto
    with True clear set_retry_ok [OF clear(1)] cont show ?thesis
      by auto
  next
    case False
    then have pos: "0 < k" "nat k \<le> blen" "0 < nat k"
      using n(1) by (auto simp: k)
    define m' where "m' = (if is_rdonly b w1 then m\<lparr>mem_start := mem_start m + nat k, mem_buf := mem_buf m\<lparr>mem_length := blen - nat k\<rparr>\<rparr>
        else m\<lparr>mem_buf := mem_buf m\<lparr>mem_length := blen - nat k,
               mem_data := mem_move (mem_start m) (mem_start m + nat k) (blen - nat k) (mem_data (mem_buf m))\<rparr>\<rparr>)"
    have res: "r = k" "out = take (nat k) (drop (mem_start m) (mem_data (mem_buf m)))" "w' = set_mem b m' w1"
      using rd' pos(1) by (auto simp: m'_def)
    have moved: "length (mem_move (mem_start m) (mem_start m + nat k) (blen - nat k) (mem_data (mem_buf m))) =
        length (mem_data (mem_buf m))"
      using b(2) pos(2) by (intro length_mem_move) simp_all
    have fits: "mem_start m' + mem_length (mem_buf m') \<le> mem_max (mem_buf m')" "mem_max (mem_buf m') \<le> SIZE_MAX"
      "is_rdonly b w1 \<or> mem_start m' = 0"
      using b pos(2) moved by (auto simp: m'_def mem_max_def)
    have "mem_contents m' = take (blen - nat k) (drop (mem_start m + nat k) (mem_data (mem_buf m)))"
      using b pos(2) by (auto simp: m'_def mem_contents_def mem_move_def)
    then have rest: "mem_contents m' = drop (nat k) (bio_contents b w)"
      by (simp add: cont(1) drop_take add.commute)
    have taken: "take (nat k) (drop (mem_start m) (mem_data (mem_buf m))) = take (nat k) (bio_contents b w)"
      using pos(2) by (simp add: cont(1) min_absorb1)
    have same: "take (nat n) xs = take (nat k) xs" "drop (nat n) xs = drop (nat k) xs" if "length xs = blen" for xs :: bytes
      using that by (auto simp: k min_def)
    note ok' = mem_ok_set [OF clear(1) fits]
    have "num (bio_at b w') = num (bio_at b w)" "is_rdonly b w' = is_rdonly b w"
      using clear(3,5) b(1) by (simp_all add: res(3)) (simp add: set_mem_def)
    moreover have "r = min n (int (length (bio_contents b w)))" "out = take (nat n) (bio_contents b w)"
      "bio_contents b w' = drop (nat n) (bio_contents b w)" "mem_ok b w'"
      using ok' by (simp_all only: res rest taken same [OF cont(2)] cont(2)) (simp add: k)
    moreover have "bio_contents b w \<noteq> []"
      using False cont(2) by auto
    ultimately show ?thesis by simp
  qed
qed

definition mem_writable :: "bio_ref \<Rightarrow> mem_bios \<Rightarrow> bool" where
  "mem_writable b w \<longleftrightarrow> mem_ok b w \<and> \<not> is_rdonly b w \<and> length (bio_contents b w) \<le> INT_MAX"

text \<open>The buffer after \<open>BUF_MEM_grow_clean\<close> and the copy.\<close>

lemma grow_and_copy:
  assumes ok: "buf_mem_ok b" and len: "mem_length b + length ys \<le> SIZE_MAX" "ys \<noteq> []"
    and grow: "BUF_MEM_grow_clean al fresh b (mem_length b + length ys) = (n, b')"
  shows "n \<noteq> mem_length b + length ys \<Longrightarrow> b' = b"
    and "n = mem_length b + length ys \<Longrightarrow>
      buf_mem_ok (b'\<lparr>mem_data := mem_copy (mem_length b) ys (mem_data b')\<rparr>) \<and> mem_length b' = mem_length b + length ys \<and>
      Buf.contents (b'\<lparr>mem_data := mem_copy (mem_length b) ys (mem_data b')\<rparr>) = Buf.contents b @ ys"
proof -
  have lb: "length (Buf.contents b) = mem_length b"
    using ok by (simp add: Buf.contents_def buf_mem_ok_def mem_max_def)
  note post = grow_contents [OF ok len(1) grow [unfolded BUF_MEM_grow_clean_def]]
  show "n \<noteq> mem_length b + length ys \<Longrightarrow> b' = b"
    using post by auto
  assume n: "n = mem_length b + length ys"
  then have "n \<noteq> 0"
    using len(2) by simp
  with post n have cont: "Buf.contents b' = Buf.contents b @ replicate (length ys) 0" and ok': "buf_mem_ok b'"
    using len(2) by (simp_all add: lb)
  have len': "mem_length b' = mem_length b + length ys" "mem_length b' \<le> length (mem_data b')"
  proof -
    show le: "mem_length b' \<le> length (mem_data b')"
      using ok' by (simp add: buf_mem_ok_def mem_max_def)
    have "length (Buf.contents b') = mem_length b + length ys"
      by (simp add: cont lb)
    with le show "mem_length b' = mem_length b + length ys"
      by (simp add: Buf.contents_def)
  qed
  have "take (mem_length b) (mem_data b') = take (mem_length b) (Buf.contents b')"
    using len' by (simp add: Buf.contents_def min_def)
  also have "\<dots> = Buf.contents b"
    by (simp add: cont lb)
  finally have "take (mem_length b) (mem_data b') = Buf.contents b" .
  with len' ok' show "buf_mem_ok (b'\<lparr>mem_data := mem_copy (mem_length b) ys (mem_data b')\<rparr>) \<and> mem_length b' = mem_length b + length ys \<and>
      Buf.contents (b'\<lparr>mem_data := mem_copy (mem_length b) ys (mem_data b')\<rparr>) = Buf.contents b @ ys"
    by (simp add: buf_mem_ok_def mem_max_def Buf.contents_def [of "b'\<lparr>mem_data := _\<rparr>"] mem_copy_def lb)
qed

lemma mem_write_exact:
  assumes ok: "mem_writable b w" and n: "0 < n" "n \<le> 2147483647" "nat n \<le> length data"
    and wr: "mem_write al fresh b (Some data) n w = (r, w')"
  shows "mem_writable b w' \<and> num (bio_at b w') = num (bio_at b w) \<and>
    (r = n \<and> bio_contents b w' = bio_contents b w @ take (nat n) data \<or> r = - 1 \<and> bio_contents b w' = bio_contents b w)"
proof -
  define w1 where "w1 = BIO_clear_retry_flags b w"
  have ok0: "mem_ok b w" "\<not> is_rdonly b w" "length (bio_contents b w) \<le> 2147483647"
    using ok by (simp_all add: mem_writable_def INT_MAX_def)
  note clear = clear_retry_ok [OF ok0(1), folded w1_def]
  define m where "m = mem_at b w1"
  define blen where "blen = mem_length (mem_buf m)"
  have b: "b < length w1" "blen \<le> length (mem_data (mem_buf m))" "length (mem_data (mem_buf m)) \<le> SIZE_MAX" "mem_start m = 0"
    using clear(1,3) ok0(2) by (simp_all add: mem_ok_def m_def blen_def mem_max_def)
  have cont: "bio_contents b w = Buf.contents (mem_buf m)" "length (bio_contents b w) = blen"
    using clear(2) length_bio_contents [OF clear(1)] b(4)
    by (simp_all add: bio_contents_def mem_contents_def m_def blen_def Buf.contents_def)
  have buf_ok: "buf_mem_ok (mem_buf m)"
    using b by (simp add: buf_mem_ok_def mem_max_def blen_def)
  have int_len: "c_int (int blen) = int blen"
    using ok0(3) cont(2) by (intro c_int_small) simp_all
  have same: "num (bio_at b (set_mem b m' w1)) = num (bio_at b w)" for m'
    using clear(5) b(1) by (simp add: set_mem_def)
  note wr' = wr [unfolded mem_write_def Let_def, folded w1_def, folded m_def, folded blen_def, unfolded int_len]
  have w1: "mem_writable b w1"
    using clear ok0 by (simp add: mem_writable_def INT_MAX_def)
  show ?thesis
  proof (cases "2147483647 - int blen < n")
    case True
    with wr' ok0(2) have "r = - 1" "w' = w1" by auto
    with w1 clear show ?thesis by simp
  next
    case False
    define ys where "ys = take (nat n) data"
    have ys: "length ys = nat n" "ys \<noteq> []"
      using n by (auto simp: ys_def)
    have size: "c_size (int blen + n) = blen + length ys" "blen + length ys \<le> SIZE_MAX" "blen + length ys \<le> INT_MAX"
    proof -
      show "blen + length ys \<le> INT_MAX" "blen + length ys \<le> SIZE_MAX"
        using False n(1) by (simp_all add: ys(1) INT_MAX_def SIZE_MAX_def)
      then show "c_size (int blen + n) = blen + length ys"
        using c_size_small [of "blen + length ys"] n(1) by (simp add: ys(1))
    qed
    obtain k b' where grow: "BUF_MEM_grow_clean al fresh (mem_buf m) (blen + length ys) = (k, b')"
      by (cases "BUF_MEM_grow_clean al fresh (mem_buf m) (blen + length ys)")
    note step = grow_and_copy [OF buf_ok _ ys(2) grow [unfolded blen_def], folded blen_def, OF size(2)]
    show ?thesis
    proof (cases "k = blen + length ys")
      case fail: False
      then have "r = - 1" "w' = set_mem b (m\<lparr>mem_buf := b'\<rparr>) w1"
        using wr' ok0(2) False size(1) grow by auto
      moreover have "m\<lparr>mem_buf := b'\<rparr> = m"
        using step(1) [OF fail] by simp
      moreover have "mem_ok b (set_mem b m w1)" "bio_contents b (set_mem b m w1) = mem_contents m"
        by (rule mem_ok_set [OF clear(1)]; use b in \<open>simp add: mem_max_def blen_def\<close>)+
      ultimately show ?thesis
        using w1 clear b(1) same by (simp add: mem_writable_def bio_contents_def m_def)
    next
      case True
      define b2 where "b2 = b'\<lparr>mem_data := mem_copy blen ys (mem_data b')\<rparr>"
      note post = step(2) [OF True, folded b2_def]
      have res: "r = n" "w' = set_mem b (m\<lparr>mem_buf := b2\<rparr>) w1"
        using wr' ok0(2) False size(1) grow True b(4) by (auto simp: b2_def ys_def)
      have new: "mem_ok b w'" "bio_contents b w' = mem_contents (m\<lparr>mem_buf := b2\<rparr>)"
        unfolding res(2) by (rule mem_ok_set [OF clear(1)]; use post b(4) in \<open>simp add: buf_mem_ok_def\<close>)+
      moreover have "mem_contents (m\<lparr>mem_buf := b2\<rparr>) = bio_contents b w @ ys"
        using post b(4) cont(1) by (simp add: mem_contents_def Buf.contents_def)
      moreover have "\<not> is_rdonly b w'" "num (bio_at b w') = num (bio_at b w)"
        using clear(3) ok0(2) b(1) same by (simp_all add: res(2))
      ultimately show ?thesis
        using size(3) cont(2) res(1) by (simp add: mem_writable_def ys_def [symmetric])
    qed
  qed
qed

section \<open>The memory \<open>BIO\<close> as source and as sink\<close>

lemma mem_table_BIO_s_mem [simp]: "mem_table al fresh others BIO_s_mem = mem_method al fresh"
  by (simp add: mem_table_def)

lemma count_read_ok:
  assumes "mem_ok b w"
  shows "mem_ok b (upd_bio b (\<lambda>x. x\<lparr>num_read := size_add (num_read x) k\<rparr>) w)"
    "bio_contents b (upd_bio b (\<lambda>x. x\<lparr>num_read := size_add (num_read x) k\<rparr>) w) = bio_contents b w"
    "num (bio_at b (upd_bio b (\<lambda>x. x\<lparr>num_read := size_add (num_read x) k\<rparr>) w)) = num (bio_at b w)"
proof -
  show "mem_ok b (upd_bio b (\<lambda>x. x\<lparr>num_read := size_add (num_read x) k\<rparr>) w)"
    "bio_contents b (upd_bio b (\<lambda>x. x\<lparr>num_read := size_add (num_read x) k\<rparr>) w) = bio_contents b w"
    by (rule mem_ok_upd [OF assms]; simp)+
qed (use assms in \<open>simp add: mem_ok_def\<close>)

lemma count_write_ok:
  assumes "mem_writable b w"
  shows "mem_writable b (upd_bio b (\<lambda>x. x\<lparr>num_write := size_add (num_write x) k\<rparr>) w)"
    "bio_contents b (upd_bio b (\<lambda>x. x\<lparr>num_write := size_add (num_write x) k\<rparr>) w) = bio_contents b w"
    "num (bio_at b (upd_bio b (\<lambda>x. x\<lparr>num_write := size_add (num_write x) k\<rparr>) w)) = num (bio_at b w)"
proof -
  have ok: "mem_ok b w"
    using assms by (simp add: mem_writable_def)
  let ?w = "upd_bio b (\<lambda>x. x\<lparr>num_write := size_add (num_write x) k\<rparr>) w"
  have "mem_ok b ?w" "bio_contents b ?w = bio_contents b w" "is_rdonly b ?w = is_rdonly b w"
    by (rule mem_ok_upd [OF ok]; simp)+
  with assms show "mem_writable b ?w" "bio_contents b ?w = bio_contents b w"
    by (simp_all add: mem_writable_def)
  show "num (bio_at b ?w) = num (bio_at b w)"
    using ok by (simp add: mem_ok_def)
qed

lemma mem_BIO_read:
  assumes "mem_ok b w" "0 < n"
  shows "BIO_read (mem_table al fresh others) (Some b) n w = (case mem_read b n w of (ret, out, w1) \<Rightarrow>
    (ret, out, if ret > 0 then upd_bio b (\<lambda>x. x\<lparr>num_read := size_add (num_read x) (nat ret)\<rparr>) w1 else w1))"
  using assms by (simp add: BIO_read_def mem_ok_def mem_method_def)

lemma mem_source:
  assumes "stop \<le> 0"
  shows "bio_source (mem_table al fresh others) b (\<lambda>w. mem_ok b w \<and> num (bio_at b w) = stop) (bio_contents b) stop"
proof
  fix w n r out w'
  assume *: "mem_ok b w \<and> num (bio_at b w) = stop" "0 < n" "n \<le> int INT_MAX"
    "BIO_read (mem_table al fresh others) (Some b) n w = (r, out, w')"
  obtain w1 where rd: "mem_read b n w = (r, out, w1)" and
    w': "w' = (if r > 0 then upd_bio b (\<lambda>x. x\<lparr>num_read := size_add (num_read x) (nat r)\<rparr>) w1 else w1)"
    using * by (auto simp: mem_BIO_read split: prod.splits)
  have "n \<le> 2147483647"
    using *(3) by (simp add: INT_MAX_def)
  note step = mem_read_exact [OF conjunct1 [OF *(1)] *(2) this rd]
  then have ok: "mem_ok b w1" "num (bio_at b w1) = stop"
    using *(1) by simp_all
  show "(mem_ok b w' \<and> num (bio_at b w') = stop) \<and> 0 < r \<and> r \<le> n \<and> length out = nat r \<and>
      bio_contents b w = out @ bio_contents b w'" if "bio_contents b w \<noteq> []"
    using that step *(2) ok count_read_ok [OF ok(1)] by (auto simp: w' min_def nat_le_iff)
  show "(mem_ok b w' \<and> num (bio_at b w') = stop) \<and> r = stop \<and> out = [] \<and> bio_contents b w' = []"
    if "bio_contents b w = []"
    using that step *(1) ok assms by (simp add: w')
qed (rule assms)

interpretation mem_eof: bio_source "mem_table al fresh others" b
  "\<lambda>w. mem_ok b w \<and> num (bio_at b w) = 0" "bio_contents b" 0 for al fresh others b
  by (rule mem_source) simp

interpretation mem_retry: bio_source "mem_table al fresh others" b
  "\<lambda>w. mem_ok b w \<and> num (bio_at b w) = - 1" "bio_contents b" "- 1" for al fresh others b
  by (rule mem_source) simp

lemma mem_BIO_write:
  assumes "mem_ok b w" "0 < n"
  shows "BIO_write (mem_table al fresh others) (Some b) inp n w = (case mem_write al fresh b inp n w of (ret, w1) \<Rightarrow>
    (ret, if ret > 0 then upd_bio b (\<lambda>x. x\<lparr>num_write := size_add (num_write x) (nat ret)\<rparr>) w1 else w1))"
  using assms by (simp add: BIO_write_def mem_ok_def mem_method_def)

interpretation mem_sink: bio_sink "mem_table al fresh others" b
  "\<lambda>w. mem_writable b w \<and> num (bio_at b w) = stop" "bio_contents b" for al fresh others b stop
proof
  fix w n data r w'
  assume *: "mem_writable b w \<and> num (bio_at b w) = stop" "0 < n" "n \<le> int INT_MAX" "nat n \<le> length data"
    "BIO_write (mem_table al fresh others) (Some b) (Some data) n w = (r, w')"
  then have ok: "mem_writable b w" "mem_ok b w"
    by (simp_all add: mem_writable_def)
  obtain w1 where wr: "mem_write al fresh b (Some data) n w = (r, w1)" and
    w': "w' = (if r > 0 then upd_bio b (\<lambda>x. x\<lparr>num_write := size_add (num_write x) (nat r)\<rparr>) w1 else w1)"
    using *(2,5) ok(2) by (auto simp: mem_BIO_write split: prod.splits)
  have "n \<le> 2147483647"
    using *(3) by (simp add: INT_MAX_def)
  note step = mem_write_exact [OF ok(1) *(2) this *(4) wr]
  then have "mem_writable b w1"
    by simp
  note count = count_write_ok [OF this]
  show "(mem_writable b w' \<and> num (bio_at b w') = stop) \<and> r \<le> n \<and>
      bio_contents b w' = bio_contents b w @ take (nat r) data"
    using step count *(1,2) by (auto simp: w')
qed

section \<open>Lines\<close>

text \<open>The first line, with its newline when there is one.\<close>

definition first_line :: "bytes \<Rightarrow> bytes" where
  "first_line p = takeWhile (\<lambda>c. c \<noteq> 10) p @ (if 10 \<in> set p then [10] else [])"

lemma first_line_Cons [simp]: "first_line [] = []" "first_line (c # p) = (if c = 10 then [10] else c # first_line p)"
  by (simp_all add: first_line_def)

lemma first_line_split: "take (length (first_line p)) p = first_line p"
  by (induction p) auto

lemma first_line_bounds: "length (first_line p) \<le> length p" "p \<noteq> [] \<Longrightarrow> first_line p \<noteq> []"
  by (induction p) auto

lemma newline_scan_length: "j \<le> length p \<Longrightarrow> newline_scan j p = min j (length (first_line p))"
proof (induction j p rule: newline_scan.induct)
  case (2 j p)
  then obtain c p' where "p = c # p'"
    by (cases p) auto
  with 2 show ?case by simp
qed simp

lemma newline_scan_take: "j \<le> k \<Longrightarrow> newline_scan j (take k p) = newline_scan j p"
proof (induction j p arbitrary: k rule: newline_scan.induct)
  case (2 j p)
  then show ?case by (cases p; cases k) auto
qed simp

text \<open>
  \<open>BIO_gets\<close> on a memory \<open>BIO\<close> reads a line.  It takes the first line of the contents, newline included, or
  as much of it as fits with a terminating NUL, leaves the rest, and returns the number of bytes without the
  NUL; with nothing to read, or no room for a byte, it returns 0 and an empty string.
\<close>

theorem mem_gets_line:
  assumes "mem_ok b w" "0 < sz" "sz \<le> 2147483647" "length (bio_contents b w) \<le> INT_MAX"
    and "mem_gets b sz w = (r, out, w')"
  shows "mem_ok b w' \<and> out = take (nat (sz - 1)) (first_line (bio_contents b w)) @ [0] \<and> r = int (length out) - 1 \<and>
    bio_contents b w' = drop (nat r) (bio_contents b w)"
proof -
  define w1 where "w1 = BIO_clear_retry_flags b w"
  note clear = clear_retry_ok [OF assms(1), folded w1_def]
  define p where "p = bio_contents b w"
  define j where "j = min (sz - 1) (int (length p))"
  have p: "p = bio_contents b w1" "int (length p) \<le> 2147483647"
    using clear(2) assms(4) by (simp_all add: p_def INT_MAX_def)
  have m: "mem_contents (mem_at b w1) = p" "mem_length (mem_buf (mem_at b w1)) = length p"
    using length_bio_contents [OF clear(1)] by (simp_all add: p(1) bio_contents_def)
  have len: "c_int (int (length p)) = int (length p)"
    using p(2) by (intro c_int_small) simp_all
  have gets: "mem_gets b sz w =
    (if j \<le> 0 then (0, [0], w1)
     else case mem_read b (int (newline_scan (nat j) (drop (mem_start (mem_at b w1)) (mem_data (mem_buf (mem_at b w1)))))) w1 of
       (i, out, w2) \<Rightarrow> (i, if i > 0 then out @ [0] else out, w2))"
    using assms(2) by (simp add: mem_gets_def Let_def j_def m(2) len min_def flip: w1_def)
  show ?thesis
  proof (cases "j \<le> 0")
    case True
    then have "p = [] \<or> sz = 1"
      using assms(2) by (auto simp: j_def min_def split: if_splits)
    with True assms(5) clear gets show ?thesis
      by (auto simp: first_line_def simp flip: p_def)
  next
    case False
    define i where "i = min (nat j) (length (first_line p))"
    have "newline_scan (nat j) (drop (mem_start (mem_at b w1)) (mem_data (mem_buf (mem_at b w1)))) = newline_scan (nat j) p"
      using newline_scan_take [of "nat j" "length p" "drop (mem_start (mem_at b w1)) (mem_data (mem_buf (mem_at b w1)))"]
      by (simp add: j_def m(1) [unfolded mem_contents_def m(2)])
    then have raw: "newline_scan (nat j) (drop (mem_start (mem_at b w1)) (mem_data (mem_buf (mem_at b w1)))) = i"
      using newline_scan_length [of "nat j" p] by (simp add: i_def j_def)
    have "p \<noteq> []"
      using False by (auto simp: j_def)
    then have i: "0 < i" "i \<le> length p" "int i \<le> 2147483647"
      using False first_line_bounds [of p] p(2) by (auto simp: i_def j_def)
    obtain r1 out1 w2 where rd: "mem_read b (int i) w1 = (r1, out1, w2)"
      by (cases "mem_read b (int i) w1")
    have read: "mem_ok b w2" "r1 = int i" "out1 = take i p" "bio_contents b w2 = drop i p"
      using mem_read_exact [OF clear(1) _ i(3) rd] i(1,2) \<open>p \<noteq> []\<close> by (simp_all flip: p(1))
    have "take i p = take i (take (length (first_line p)) p)"
      by (simp add: i_def)
    also have "\<dots> = take (nat (sz - 1)) (first_line p)"
      unfolding first_line_split using first_line_bounds(1) [of p] assms(2) by (simp add: i_def j_def min_def)
    finally have taken: "take i p = take (nat (sz - 1)) (first_line p)" .
    have "r = int i" "out = take i p @ [0]" "w' = w2"
      using False assms(5) i(1) unfolding gets raw rd by (simp_all add: read)
    then show ?thesis
      using read i(2) by (simp add: taken [symmetric] flip: p_def)
  qed
qed

lemma mem_new_writable:
  assumes "BIO_new (mem_table al fresh others) al BIO_s_mem w = (Some b, w')"
  shows "mem_writable b w' \<and> bio_contents b w' = [] \<and> num (bio_at b w') = - 1"
proof -
  have "b = length w" "w' = w @ [Some (zero_bio\<lparr>meth := Some BIO_s_mem, shutdown := 1, references := 1, bio_init := True,
      num := - 1, ptr := Some \<lparr>mem_start = 0, mem_buf = \<lparr>mem_length = 0, mem_data = []\<rparr>\<rparr>\<rparr>)]"
    using assms by (auto simp: BIO_new_def mem_method_def mem_new_def BUF_MEM_new_def upd_bio_def bio_at_def Let_def
        split: if_splits)
  then show ?thesis
    by (simp add: mem_writable_def mem_ok_def bio_contents_def mem_contents_def mem_at_def bio_at_def is_rdonly_def
        zero_bio_def mem_max_def)
qed

lemma new_mem_buf_ok:
  assumes "BIO_new_mem_buf al fresh others (Some buf) len w = (Some b, w')"
    and "0 \<le> len" "nat len \<le> length buf" "len \<le> 2147483647"
  shows "mem_ok b w' \<and> is_rdonly b w' \<and> bio_contents b w' = take (nat len) buf \<and> num (bio_at b w') = 0"
proof -
  obtain w1 where new: "BIO_new (mem_table al fresh others) al BIO_s_mem w = (Some b, w1)" and
    w': "w' = upd_bio b (\<lambda>x. x\<lparr>ptr := Some \<lparr>mem_start = 0, mem_buf = \<lparr>mem_length = nat len, mem_data = take (nat len) buf\<rparr>\<rparr>,
        flags := flags x OR BIO_FLAGS_MEM_RDONLY, num := 0\<rparr>) w1"
    using assms(1,2) by (auto simp: BIO_new_mem_buf_def Let_def split: prod.splits option.splits)
  have ok: "mem_ok b w1"
    using mem_new_writable [OF new] by (simp add: mem_writable_def)
  have "(f OR BIO_FLAGS_MEM_RDONLY) AND BIO_FLAGS_MEM_RDONLY = BIO_FLAGS_MEM_RDONLY" for f
    by (simp add: and.commute)
  moreover have "BIO_FLAGS_MEM_RDONLY \<noteq> 0" "nat len \<le> SIZE_MAX"
    using assms(4) by (simp_all add: BIO_FLAGS_MEM_RDONLY_def SIZE_MAX_def nat_le_iff)
  ultimately show ?thesis
    using ok assms(2,3)
    by (simp add: w' mem_ok_def is_rdonly_def bio_contents_def mem_contents_def mem_at_def mem_max_def)
qed

section \<open>Properties\<close>

text \<open>
  C21: a memory \<open>BIO\<close> gives back what is written to it.  A new one is empty; \<open>BIO_write_all\<close> appends its data, or
  a proper prefix when it reports failure, and reading \<open>n\<close> bytes returns exactly the next \<open>n\<close> of all that was
  written, in order, when there are so many, and fails otherwise.
\<close>

theorem mem_bio_roundtrip:
  assumes "mem_writable b w" "num (bio_at b w) = - 1"
    and "BIO_write_all (mem_table al fresh others) (Some b) data w = (ok, w1)"
    and "bio_read_full (mem_table al fresh others) (Some b) n w1 = (full, eof, out, w2)"
  shows "\<exists>k \<le> length data.
    (ok \<longleftrightarrow> k = length data) \<and> bio_contents b w1 = bio_contents b w @ take k data \<and>
    (full \<longleftrightarrow> n \<le> length (bio_contents b w1)) \<and>
    (full \<longrightarrow> out = take n (bio_contents b w1) \<and> bio_contents b w2 = drop n (bio_contents b w1))"
proof -
  have "mem_writable b w1 \<and> num (bio_at b w1) = - 1 \<and>
      (\<exists>k \<le> length data. bio_contents b w1 = bio_contents b w @ take k data \<and> (ok \<longleftrightarrow> k = length data))"
    using mem_sink.write_all_prefix [OF _ assms(3), of "- 1"] assms(1,2) by simp
  moreover from this have "mem_ok b w1 \<and> num (bio_at b w1) = - 1"
    by (simp add: mem_writable_def)
  note mem_retry.read_full_exact [OF this assms(4)]
  ultimately show ?thesis
    by (auto split: if_splits)
qed


definition no_others :: "(nat, mem_st, mem_arg) method_table" where
  "no_others = (\<lambda>_. mem_method unlimited (\<lambda>_. 0))"

definition demo_mem :: mem_bios where
  "demo_mem = snd (BIO_new (mem_table unlimited (\<lambda>_. 0) no_others) unlimited BIO_s_mem [])"

lemma demo_mem_new: "BIO_new (mem_table unlimited (\<lambda>_. 0) no_others) unlimited BIO_s_mem [] = (Some 0, demo_mem)"
  by (simp add: demo_mem_def BIO_new_def mem_method_def mem_new_def BUF_MEM_new_def)

lemma mem_bio_roundtrip_witness:
  "fst (BIO_write_all (mem_table unlimited (\<lambda>_. 0) no_others) (Some 0) [1, 2, 3] demo_mem) \<and>
   bio_contents 0 (snd (BIO_write_all (mem_table unlimited (\<lambda>_. 0) no_others) (Some 0) [1, 2, 3] demo_mem)) = [1, 2, 3]"
proof -
  let ?mt = "mem_table unlimited (\<lambda>_. 0) no_others"
  obtain ok w1 where wr: "BIO_write_all ?mt (Some 0) [1, 2, 3] demo_mem = (ok, w1)"
    by (cases "BIO_write_all ?mt (Some 0) [1, 2, 3] demo_mem")
  obtain full eof out w2 where rd: "bio_read_full ?mt (Some 0) 2 w1 = (full, eof, out, w2)"
    by (cases "bio_read_full ?mt (Some 0) 2 w1")
  have new: "mem_writable 0 demo_mem" "bio_contents 0 demo_mem = []" "num (bio_at 0 demo_mem) = - 1"
    using mem_new_writable [OF demo_mem_new] by simp_all
  have "fst (BIO_write_all ?mt (Some 0) [1, 2, 3] demo_mem)"
    by code_simp
  with mem_bio_roundtrip [OF new(1,3) wr rd] show ?thesis
    by (auto simp: wr new(2))
qed

lemma mem_gets_line_witness:
  "mem_gets 0 10 (snd (BIO_new_mem_buf unlimited (\<lambda>_. 0) no_others (Some [72, 105, 10, 66]) 4 [])) =
     (3, [72, 105, 10, 0], snd (snd (mem_gets 0 10 (snd (BIO_new_mem_buf unlimited (\<lambda>_. 0) no_others (Some [72, 105, 10, 66]) 4 [])))))"
proof -
  let ?r = "BIO_new_mem_buf unlimited (\<lambda>_. 0) no_others (Some [72, 105, 10, 66]) 4 []"
  have "fst ?r = Some 0"
    by code_simp
  then have new: "?r = (Some 0, snd ?r)"
    by (metis prod.collapse)
  obtain r out w' where gets: "mem_gets 0 10 (snd ?r) = (r, out, w')"
    by (cases "mem_gets 0 10 (snd ?r)")
  have ok: "mem_ok 0 (snd ?r)" "bio_contents 0 (snd ?r) = [72, 105, 10, 66]"
    using new_mem_buf_ok [OF new] by simp_all
  from mem_gets_line [OF ok(1) _ _ _ gets] show ?thesis
    by (simp add: ok(2) INT_MAX_def gets)
qed


end
