(* ===== verification/Bio_Pair.thy ===== *)
theory Bio_Pair
  imports Bio_Asn1
begin

unbundle bit_operations_syntax

text \<open>
  \<open>crypto/bio/pair.c\<close>: two connected \<open>BIO\<close>s.  What is written to one is kept in its ring buffer until the other
  reads it.  The two loops over the ring run at most twice, as their comments say; the models run them twice and
  return what is left to do, which is proved to be nothing.  Pointers are not \<open>NULL\<close> where the code asserts it,
  and the output pointer of a read is not \<open>NULL\<close>.
\<close>

section \<open>Definitions\<close>

record bio_bio_st =
  peer :: "bio_ref option"
  closed :: bool
  pair_len :: nat
  pair_offset :: nat
  pair_size :: nat
  pair_buf :: "bytes option"
  request :: nat

type_synonym pair_bios = "(nat, bio_bio_st) bios"

definition pair_at :: "bio_ref \<Rightarrow> pair_bios \<Rightarrow> bio_bio_st" where
  "pair_at b w = the (ptr (bio_at b w))"

definition set_pair :: "bio_ref \<Rightarrow> bio_bio_st \<Rightarrow> pair_bios \<Rightarrow> pair_bios" where
  "set_pair b p w = upd_bio b (\<lambda>x. x\<lparr>ptr := Some p\<rparr>) w"

definition sizeof_bio_bio_st :: nat where
  "sizeof_bio_bio_st = 56"

definition bio_new :: "allocator \<Rightarrow> bio_ref \<Rightarrow> pair_bios \<Rightarrow> bool \<times> pair_bios" where
  "bio_new al bio w =
     (if \<not> al sizeof_bio_bio_st then (False, w)
      else (True, set_pair bio \<lparr>peer = None, closed = False, pair_len = 0, pair_offset = 0, pair_size = 17 * 1024,
                                pair_buf = None, request = 0\<rparr> w))"

definition unlink_half :: "bio_ref \<Rightarrow> pair_bios \<Rightarrow> pair_bios" where
  "unlink_half bio w =
     upd_bio bio (\<lambda>x. x\<lparr>ptr := Some ((the (ptr x))\<lparr>peer := None, pair_len := 0, pair_offset := 0\<rparr>), bio_init := False\<rparr>) w"

definition bio_destroy_pair :: "bio_ref \<Rightarrow> pair_bios \<Rightarrow> pair_bios" where
  "bio_destroy_pair bio w = (case ptr (bio_at bio w) of
     None \<Rightarrow> w
   | Some b \<Rightarrow> (case peer b of
       None \<Rightarrow> w
     | Some peer_bio \<Rightarrow> unlink_half bio (unlink_half peer_bio w)))"

text \<open>
  \<open>bio_free\<close> gives back the ring, which is the field \<open>pair_buf\<close>, and then the structure, which is the field \<open>ptr\<close>.  The
  pointers themselves are left dangling by the code; here what has been freed is gone.
\<close>

definition bio_free :: "bio_ref \<Rightarrow> pair_bios \<Rightarrow> pair_bios" where
  "bio_free bio w =
     (let w = (if peer (pair_at bio w) \<noteq> None then bio_destroy_pair bio w else w);
          w = set_pair bio ((pair_at bio w)\<lparr>pair_buf := None\<rparr>) w
      in upd_bio bio (\<lambda>x. x\<lparr>ptr := None\<rparr>) w)"

text \<open>The loop of \<open>bio_read\<close> over the ring: the bytes copied out, the ring, and the rest still to read.\<close>

primrec ring_read :: "nat \<Rightarrow> bio_bio_st \<Rightarrow> nat \<Rightarrow> bytes \<times> bio_bio_st \<times> nat" where
  "ring_read 0 b rest = ([], b, rest)"
| "ring_read (Suc iterations) b rest =
     (let chunk = (if size_add (pair_offset b) rest \<le> pair_size b then rest else pair_size b - pair_offset b);
          out = take chunk (drop (pair_offset b) (the (pair_buf b)));
          b = b\<lparr>pair_len := pair_len b - chunk\<rparr>;
          b = (if pair_len b \<noteq> 0 then
                 let off = pair_offset b + chunk
                 in b\<lparr>pair_offset := if off = pair_size b then 0 else off\<rparr>
               else b\<lparr>pair_offset := 0\<rparr>);
          rest = rest - chunk
      in if rest = 0 then (out, b, rest)
         else case ring_read iterations b rest of (out', b', rest') \<Rightarrow> (out @ out', b', rest'))"

definition bio_read :: "bio_ref \<Rightarrow> int \<Rightarrow> pair_bios \<Rightarrow> int \<times> bytes \<times> pair_bios" where
  "bio_read bio asked w0 =
     (let sz = c_size asked;
          w = BIO_clear_retry_flags bio w0
      in if \<not> bio_init (bio_at bio w) then (0, [], w)
         else
           let peer_bio = the (peer (pair_at bio w));
               peer_b = (pair_at peer_bio w)\<lparr>request := 0\<rparr>;
               w = set_pair peer_bio peer_b w
           in if sz = 0 then (0, [], w)
              else if pair_len peer_b = 0 then
                (if closed peer_b then (0, [], w)
                 else
                   let w = BIO_set_retry_read bio w;
                       peer_b = peer_b\<lparr>request := if sz \<le> pair_size peer_b then sz else pair_size peer_b\<rparr>
                   in (- 1, [], set_pair peer_bio peer_b w))
              else
                let sz = (if pair_len peer_b < sz then pair_len peer_b else sz)
                in case ring_read 2 peer_b sz of (out, peer_b, _) \<Rightarrow>
                     (c_int (int sz), out, set_pair peer_bio peer_b w))"

text \<open>The loop of \<open>bio_write\<close>: the ring, and the bytes still to write.\<close>

primrec ring_write :: "nat \<Rightarrow> bio_bio_st \<Rightarrow> bytes \<Rightarrow> bio_bio_st \<times> bytes" where
  "ring_write 0 b buf = (b, buf)"
| "ring_write (Suc iterations) b buf =
     (let rest = length buf;
          write_offset = size_add (pair_offset b) (pair_len b);
          write_offset = (if write_offset \<ge> pair_size b then write_offset - pair_size b else write_offset);
          chunk = (if size_add write_offset rest \<le> pair_size b then rest else pair_size b - write_offset);
          b = b\<lparr>pair_buf := Some (mem_copy write_offset (take chunk buf) (the (pair_buf b))),
                pair_len := pair_len b + chunk\<rparr>;
          buf = drop chunk buf
      in if buf = [] then (b, buf) else ring_write iterations b buf)"

definition bio_write :: "bio_ref \<Rightarrow> bytes option \<Rightarrow> int \<Rightarrow> pair_bios \<Rightarrow> int \<times> pair_bios" where
  "bio_write bio buf asked w0 =
     (let n = c_size asked;
          w = BIO_clear_retry_flags bio w0
      in if \<not> bio_init (bio_at bio w) \<or> buf = None \<or> n = 0 then (0, w)
         else
           let b = (pair_at bio w)\<lparr>request := 0\<rparr>;
               w = set_pair bio b w
           in if closed b then (- 1, w)
              else if pair_len b = pair_size b then (- 1, BIO_set_retry_write bio w)
              else
                let n = (if n > pair_size b - pair_len b then pair_size b - pair_len b else n)
                in case ring_write 2 b (take n (the buf)) of (b, _) \<Rightarrow> (c_int (int n), set_pair bio b w))"

text \<open>The ring of one side; \<open>fresh\<close> is what new memory holds.\<close>

definition alloc_ring :: "allocator \<Rightarrow> (nat \<Rightarrow> u8) \<Rightarrow> nat \<Rightarrow> bio_bio_st \<Rightarrow> bool \<times> bio_bio_st" where
  "alloc_ring al fresh writebuf_len b =
     (if pair_buf b = None then
        let b = (if writebuf_len \<noteq> 0 then b\<lparr>pair_size := writebuf_len\<rparr> else b)
        in if \<not> al (pair_size b) then (False, b)
           else (True, b\<lparr>pair_buf := Some (map fresh [0..<pair_size b]), pair_len := 0, pair_offset := 0\<rparr>)
      else (True, b))"

definition bio_make_pair ::
  "allocator \<Rightarrow> (nat \<Rightarrow> u8) \<Rightarrow> bio_ref \<Rightarrow> bio_ref \<Rightarrow> nat \<Rightarrow> nat \<Rightarrow> pair_bios \<Rightarrow> bool \<times> pair_bios" where
  "bio_make_pair al fresh bio1 bio2 writebuf1_len writebuf2_len w =
     (if peer (pair_at bio1 w) \<noteq> None \<or> peer (pair_at bio2 w) \<noteq> None then (False, w)
      else case alloc_ring al fresh writebuf1_len (pair_at bio1 w) of
        (False, b1) \<Rightarrow> (False, set_pair bio1 b1 w)
      | (True, b1) \<Rightarrow>
          let w = set_pair bio1 b1 w
          in case alloc_ring al fresh writebuf2_len (pair_at bio2 w) of
               (False, b2) \<Rightarrow> (False, set_pair bio2 b2 w)
             | (True, b2) \<Rightarrow>
                 let w = set_pair bio1 (b1\<lparr>peer := Some bio2, closed := False, request := 0\<rparr>) w;
                     w = set_pair bio2 (b2\<lparr>peer := Some bio1, closed := False, request := 0\<rparr>) w
                 in (True, BIO_set_init bio2 True (BIO_set_init bio1 True w)))"

definition BIO_C_GET_WRITE_BUF_SIZE :: nat where "BIO_C_GET_WRITE_BUF_SIZE = 137"

definition BIO_C_GET_WRITE_GUARANTEE :: nat where "BIO_C_GET_WRITE_GUARANTEE = 140"

definition BIO_C_GET_READ_REQUEST :: nat where "BIO_C_GET_READ_REQUEST = 141"

definition BIO_C_SHUTDOWN_WR :: nat where "BIO_C_SHUTDOWN_WR = 142"

definition BIO_C_RESET_READ_REQUEST :: nat where "BIO_C_RESET_READ_REQUEST = 147"

text \<open>The results are converted to \<open>long\<close>.\<close>

definition c_long :: "int \<Rightarrow> int" where
  "c_long x = (x + 9223372036854775808) mod 18446744073709551616 - 9223372036854775808"

definition bio_ctrl ::
  "bio_ref \<Rightarrow> nat \<Rightarrow> int \<Rightarrow> bio_ref option \<Rightarrow> pair_bios \<Rightarrow> int \<times> bio_ref option \<times> pair_bios" where
  "bio_ctrl bio cmd larg parg w =
     (let b = pair_at bio w
      in if cmd = BIO_C_GET_WRITE_BUF_SIZE then (c_long (int (pair_size b)), parg, w)
         else if cmd = BIO_C_GET_WRITE_GUARANTEE then
           (if peer b = None \<or> closed b then 0 else c_long (int (pair_size b) - int (pair_len b)), parg, w)
         else if cmd = BIO_C_GET_READ_REQUEST then (c_long (int (request b)), parg, w)
         else if cmd = BIO_C_RESET_READ_REQUEST then (1, parg, set_pair bio (b\<lparr>request := 0\<rparr>) w)
         else if cmd = BIO_C_SHUTDOWN_WR then (1, parg, set_pair bio (b\<lparr>closed := True\<rparr>) w)
         else if cmd = BIO_CTRL_GET_CLOSE then (shutdown (bio_at bio w), parg, w)
         else if cmd = BIO_CTRL_SET_CLOSE then (1, parg, upd_bio bio (\<lambda>x. x\<lparr>shutdown := c_int larg\<rparr>) w)
         else if cmd = BIO_CTRL_PENDING then
           (case peer b of None \<Rightarrow> 0 | Some p \<Rightarrow> c_long (int (pair_len (pair_at p w))), parg, w)
         else if cmd = BIO_CTRL_WPENDING then
           (if pair_buf b \<noteq> None then c_long (int (pair_len b)) else 0, parg, w)
         else if cmd = BIO_CTRL_FLUSH then (1, parg, w)
         else if cmd = BIO_CTRL_EOF then
           (case parg of
              None \<Rightarrow> 1
            | Some other_bio \<Rightarrow>
                if pair_len (pair_at other_bio w) = 0 \<and> closed (pair_at other_bio w) then 1 else 0, parg, w)
         else (0, parg, w))"

definition BIO_s_bio :: nat where
  "BIO_s_bio = 1"

definition methods_biop :: "allocator \<Rightarrow> (nat, bio_bio_st, bio_ref) bio_method" where
  "methods_biop al = \<lparr>mtype = 19 OR 0x0400, bwrite = Some bio_write, bread = Some bio_read, bgets = None,
     ctrl = Some bio_ctrl, create = Some (bio_new al), destroy = Some bio_free\<rparr>"

definition pair_table ::
  "allocator \<Rightarrow> (nat, bio_bio_st, bio_ref) method_table \<Rightarrow> (nat, bio_bio_st, bio_ref) method_table" where
  "pair_table al others = others(BIO_s_bio := methods_biop al)"

definition BIO_new_bio_pair ::
  "allocator \<Rightarrow> (nat \<Rightarrow> u8) \<Rightarrow> (nat, bio_bio_st, bio_ref) method_table \<Rightarrow> nat \<Rightarrow> nat \<Rightarrow> pair_bios \<Rightarrow>
   ((bio_ref \<times> bio_ref) option \<times> pair_bios) option" where
  "BIO_new_bio_pair al fresh others writebuf1_len writebuf2_len w =
     (let mt = pair_table al others
      in case BIO_new mt al BIO_s_bio w of (bio1, w) \<Rightarrow> (case BIO_new mt al BIO_s_bio w of (bio2, w) \<Rightarrow>
        (case (if bio1 = None \<or> bio2 = None then (False, w)
               else bio_make_pair al fresh (the bio1) (the bio2) writebuf1_len writebuf2_len w) of
           (True, w) \<Rightarrow> Some (Some (the bio1, the bio2), w)
         | (False, w) \<Rightarrow> (case BIO_free mt bio1 w of
             None \<Rightarrow> None
           | Some (_, w) \<Rightarrow> (case BIO_free mt bio2 w of None \<Rightarrow> None | Some (_, w) \<Rightarrow> Some (None, w))))))"

definition BIO_ctrl_get_read_request ::
  "(nat, bio_bio_st, bio_ref) method_table \<Rightarrow> bio_ref option \<Rightarrow> pair_bios \<Rightarrow> nat \<times> pair_bios" where
  "BIO_ctrl_get_read_request mt bio w = (case BIO_ctrl mt bio BIO_C_GET_READ_REQUEST 0 None w of (r, _, w1) \<Rightarrow> (c_size r, w1))"

definition BIO_ctrl_get_write_guarantee ::
  "(nat, bio_bio_st, bio_ref) method_table \<Rightarrow> bio_ref option \<Rightarrow> pair_bios \<Rightarrow> nat \<times> pair_bios" where
  "BIO_ctrl_get_write_guarantee mt bio w =
     (case BIO_ctrl mt bio BIO_C_GET_WRITE_GUARANTEE 0 None w of (r, _, w1) \<Rightarrow> (c_size r, w1))"

definition BIO_shutdown_wr ::
  "(nat, bio_bio_st, bio_ref) method_table \<Rightarrow> bio_ref option \<Rightarrow> pair_bios \<Rightarrow> int \<times> pair_bios" where
  "BIO_shutdown_wr mt bio w = (case BIO_ctrl mt bio BIO_C_SHUTDOWN_WR 0 None w of (r, _, w1) \<Rightarrow> (c_int r, w1))"

declare ring_read.simps(2) [simp del] ring_write.simps(2) [simp del]

section \<open>The ring\<close>

text \<open>
  The rules the comments on \<open>struct bio_bio_st\<close> state, for a side with a buffer.  The sums of positions do not
  wrap, since no array is larger than half the address space.
\<close>

definition ring_ok :: "bio_bio_st \<Rightarrow> bool" where
  "ring_ok p \<longleftrightarrow> (\<exists>d. pair_buf p = Some d \<and> length d = pair_size p) \<and> 0 < pair_size p \<and> 2 * pair_size p \<le> SIZE_MAX \<and>
     pair_len p \<le> pair_size p \<and> pair_offset p < pair_size p \<and> (pair_len p = 0 \<longrightarrow> pair_offset p = 0) \<and>
     (pair_len p \<noteq> 0 \<longrightarrow> request p = 0) \<and> request p \<le> pair_size p - pair_len p"

text \<open>The bytes in the ring, oldest first.\<close>

definition queued :: "bio_bio_st \<Rightarrow> bytes" where
  "queued p = take (pair_len p) (drop (pair_offset p) (the (pair_buf p)) @ the (pair_buf p))"

lemma length_queued: "ring_ok p \<Longrightarrow> length (queued p) = pair_len p"
  by (auto simp: ring_ok_def queued_def)

text \<open>One iteration that does not wrap.\<close>

lemma ring_read_linear:
  assumes ok: "ring_ok p" and rest: "0 < rest" "rest \<le> pair_len p" "pair_offset p + rest \<le> pair_size p"
  shows "\<exists>p'. ring_read (Suc i) p rest = (take rest (queued p), p', 0) \<and> ring_ok p' \<and> queued p' = drop rest (queued p) \<and>
    p' = p\<lparr>pair_len := pair_len p', pair_offset := pair_offset p'\<rparr>"
proof -
  obtain d where d: "pair_buf p = Some d" "length d = pair_size p"
    using ok by (auto simp: ring_ok_def)
  have bounds: "pair_len p \<le> pair_size p" "pair_offset p < pair_size p" "2 * pair_size p \<le> SIZE_MAX" "request p = 0"
    using ok rest by (auto simp: ring_ok_def)
  have sum: "size_add (pair_offset p) rest = pair_offset p + rest"
    using bounds rest by (intro size_add_no_wrap) simp
  define off where "off = (if pair_len p - rest \<noteq> 0 \<and> pair_offset p + rest \<noteq> pair_size p then pair_offset p + rest else 0)"
  define p' where "p' = p\<lparr>pair_len := pair_len p - rest, pair_offset := off\<rparr>"
  have out: "take rest (drop (pair_offset p) d) = take rest (queued p)"
    using rest d by (simp add: queued_def)
  have "ring_read (Suc i) p rest = (take rest (drop (pair_offset p) d), p', 0)"
    using rest sum by (simp add: ring_read.simps p'_def off_def d(1) Let_def)
  moreover have "ring_ok p'"
    using ok bounds rest by (auto simp: ring_ok_def p'_def off_def)
  moreover have "queued p' = drop rest (queued p)"
  proof -
    have "drop rest (queued p) = take (pair_len p - rest) (drop (pair_offset p + rest) d @ d)"
      using rest d by (simp add: queued_def drop_take add.commute)
    also have "\<dots> = take (pair_len p - rest) (drop off d @ d)"
    proof (cases "pair_offset p + rest = pair_size p")
      case True
      then have "drop (pair_offset p + rest) d = []" "off = 0"
        using d by (simp_all add: off_def)
      then show ?thesis
        using d bounds by simp
    qed (simp add: off_def)
    finally show ?thesis
      by (simp add: queued_def p'_def d(1))
  qed
  moreover have "p' = p\<lparr>pair_len := pair_len p', pair_offset := pair_offset p'\<rparr>"
    by (simp add: p'_def)
  ultimately show ?thesis
    using out by auto
qed

lemma ring_read_exact:
  assumes ok: "ring_ok p" and rest: "0 < rest" "rest \<le> pair_len p"
  shows "\<exists>p'. ring_read 2 p rest = (take rest (queued p), p', 0) \<and> ring_ok p' \<and> queued p' = drop rest (queued p) \<and>
    p' = p\<lparr>pair_len := pair_len p', pair_offset := pair_offset p'\<rparr>"
proof (cases "pair_offset p + rest \<le> pair_size p")
  case True
  from ring_read_linear [OF ok rest this, of 1] show ?thesis
    by (simp add: numeral_2_eq_2)
next
  case False
  obtain d where d: "pair_buf p = Some d" "length d = pair_size p"
    using ok by (auto simp: ring_ok_def)
  have bounds: "pair_len p \<le> pair_size p" "pair_offset p < pair_size p" "2 * pair_size p \<le> SIZE_MAX" "request p = 0"
    using ok rest by (auto simp: ring_ok_def)
  have sum: "size_add (pair_offset p) rest = pair_offset p + rest"
    using bounds rest by (intro size_add_no_wrap) simp
  define chunk where "chunk = pair_size p - pair_offset p"
  have chunk: "0 < chunk" "chunk < rest" "pair_offset p + chunk = pair_size p"
    using False bounds by (auto simp: chunk_def)
  define p1 where "p1 = p\<lparr>pair_len := pair_len p - chunk, pair_offset := 0\<rparr>"
  have ok1: "ring_ok p1"
    using ok bounds rest chunk by (auto simp: ring_ok_def p1_def)
  have q1: "queued p1 = drop chunk (queued p)" "take chunk (queued p) = drop (pair_offset p) d"
    using rest chunk d bounds by (auto simp: queued_def p1_def drop_take chunk_def min_def)
  have "0 < rest - chunk" "rest - chunk \<le> pair_len p1" "pair_offset p1 + (rest - chunk) \<le> pair_size p1"
    using rest chunk bounds by (auto simp: p1_def)
  from ring_read_linear [OF ok1 this, of 0] obtain p' where p':
    "ring_read 1 p1 (rest - chunk) = (take (rest - chunk) (queued p1), p', 0)" "ring_ok p'"
    "queued p' = drop (rest - chunk) (queued p1)" "p' = p1\<lparr>pair_len := pair_len p', pair_offset := pair_offset p'\<rparr>"
    by auto
  have "ring_read 2 p rest = (drop (pair_offset p) d @ take (rest - chunk) (queued p1), p', 0)"
    using False sum chunk rest p'(1) d
    by (simp add: numeral_2_eq_2 ring_read.simps(2) [of "Suc 0"] Let_def p1_def flip: chunk_def)
  also have "drop (pair_offset p) d @ take (rest - chunk) (queued p1) = take rest (queued p)"
    using take_add [of chunk "rest - chunk" "queued p"] chunk(2) by (simp add: q1)
  finally have "ring_read 2 p rest = (take rest (queued p), p', 0)" .
  moreover have "queued p' = drop rest (queued p)"
    using p'(3) chunk by (simp add: q1(1))
  moreover have "p' = p\<lparr>pair_len := pair_len p', pair_offset := pair_offset p'\<rparr>"
    using p'(4) by (simp add: p1_def)
  ultimately show ?thesis
    using p'(2) by blast
qed

lemma ring_write_linear:
  assumes ok: "ring_ok p" "request p = 0" and data: "data \<noteq> []" "length data \<le> pair_size p - pair_len p"
    and wo: "wo = (if pair_offset p + pair_len p \<ge> pair_size p then pair_offset p + pair_len p - pair_size p
                   else pair_offset p + pair_len p)"
    and fits: "wo + length data \<le> pair_size p"
  shows "\<exists>p'. ring_write (Suc i) p data = (p', []) \<and> ring_ok p' \<and> queued p' = queued p @ data \<and>
    p' = p\<lparr>pair_buf := pair_buf p', pair_len := pair_len p'\<rparr>"
proof -
  obtain d where d: "pair_buf p = Some d" "length d = pair_size p"
    using ok by (auto simp: ring_ok_def)
  have bounds: "pair_len p \<le> pair_size p" "pair_offset p < pair_size p" "2 * pair_size p \<le> SIZE_MAX"
    "pair_len p = 0 \<longrightarrow> pair_offset p = 0"
    using ok by (auto simp: ring_ok_def)
  define d' where "d' = mem_copy wo data d"
  define p' where "p' = p\<lparr>pair_buf := Some d', pair_len := pair_len p + length data\<rparr>"
  have sums: "size_add (pair_offset p) (pair_len p) = pair_offset p + pair_len p" "size_add wo (length data) = wo + length data"
    using bounds fits by (simp_all add: size_add_no_wrap)
  have d': "length d' = pair_size p" "d' = take wo d @ data @ drop (wo + length data) d"
    using fits d(2) by (simp_all add: d'_def mem_copy_def)
  have "ring_write (Suc i) p data = (p', [])"
    using fits by (simp add: ring_write.simps sums p'_def d(1) d'_def Let_def flip: wo)
  moreover have "ring_ok p'"
    using ok data bounds d'(1) by (auto simp: ring_ok_def p'_def)
  moreover have "queued p' = queued p @ data"
  proof (cases "pair_offset p + pair_len p \<ge> pair_size p")
    case False
    then have wo: "wo = pair_offset p + pair_len p"
      by (simp add: wo)
    have "queued p = drop (pair_offset p) (take wo d)"
      using False d(2) by (simp add: queued_def d(1) wo drop_take)
    moreover have "drop (pair_offset p) d' = drop (pair_offset p) (take wo d) @ data @ drop (wo + length data) d"
      unfolding d'(2) using d(2) False by (simp add: wo)
    moreover have "length (drop (pair_offset p) (take wo d)) = pair_len p"
      using d(2) False by (simp add: wo)
    ultimately show ?thesis
      by (simp add: queued_def p'_def)
  next
    case True
    then have wo: "wo = pair_offset p + pair_len p - pair_size p" "wo + length data \<le> pair_offset p"
      using data(2) bounds by (simp_all add: wo)
    have "drop (pair_offset p) d' = drop (pair_offset p) d"
      unfolding d'(2) using wo(2) d(2) fits by simp
    moreover have "pair_len p = length (drop (pair_offset p) d) + wo"
      using True wo(1) d(2) bounds by simp
    ultimately show ?thesis
      using fits d(2) by (simp add: queued_def p'_def d(1) d'(2) flip: append_assoc)
  qed
  moreover have "p' = p\<lparr>pair_buf := pair_buf p', pair_len := pair_len p'\<rparr>"
    by (simp add: p'_def)
  ultimately show ?thesis by blast
qed

lemma ring_write_exact:
  assumes ok: "ring_ok p" "request p = 0" and data: "data \<noteq> []" "length data \<le> pair_size p - pair_len p"
  shows "\<exists>p'. ring_write 2 p data = (p', []) \<and> ring_ok p' \<and> queued p' = queued p @ data \<and>
    p' = p\<lparr>pair_buf := pair_buf p', pair_len := pair_len p'\<rparr>"
proof -
  define wo where "wo = (if pair_offset p + pair_len p \<ge> pair_size p then pair_offset p + pair_len p - pair_size p
                         else pair_offset p + pair_len p)"
  have bounds: "pair_len p \<le> pair_size p" "pair_offset p < pair_size p" "2 * pair_size p \<le> SIZE_MAX"
    using ok by (auto simp: ring_ok_def)
  show ?thesis
  proof (cases "wo + length data \<le> pair_size p")
    case True
    from ring_write_linear [OF ok data wo_def this, of 1] show ?thesis
      by (simp only: Suc_1)
  next
    case False
    then have wo: "wo = pair_offset p + pair_len p" "pair_offset p + pair_len p < pair_size p"
      using data(2) bounds by (auto simp: wo_def split: if_splits)
    have sums: "size_add (pair_offset p) (pair_len p) = wo" "size_add wo (length data) = wo + length data"
      using bounds wo data(2) by (simp_all add: size_add_no_wrap)
    define chunk where "chunk = pair_size p - wo"
    have chunk: "0 < chunk" "chunk < length data" "wo + chunk = pair_size p"
      using False wo by (auto simp: chunk_def)
    have data1: "take chunk data \<noteq> []" "length (take chunk data) \<le> pair_size p - pair_len p"
      "wo + length (take chunk data) \<le> pair_size p"
      using chunk data by auto
    from ring_write_linear [OF ok data1(1,2) wo_def data1(3), of 0] obtain p1 where
      p1: "ring_write 1 p (take chunk data) = (p1, [])" "ring_ok p1" "queued p1 = queued p @ take chunk data"
      "p1 = p\<lparr>pair_buf := pair_buf p1, pair_len := pair_len p1\<rparr>"
      by auto
    have p1_def: "p1 = p\<lparr>pair_buf := Some (mem_copy wo (take chunk data) (the (pair_buf p))), pair_len := pair_len p + chunk\<rparr>"
    proof -
      have "size_add wo chunk = pair_size p" "\<not> pair_size p \<le> wo"
        using bounds chunk size_add_no_wrap [of wo chunk] by simp_all
      then show ?thesis
        using p1(1) chunk(2) by (simp add: ring_write.simps Let_def sums)
    qed
    have "drop chunk data \<noteq> []" "length (drop chunk data) \<le> pair_size p1 - pair_len p1" "request p1 = 0"
      using chunk data ok by (auto simp: p1_def)
    moreover have "0 = (if pair_offset p1 + pair_len p1 \<ge> pair_size p1 then pair_offset p1 + pair_len p1 - pair_size p1
                        else pair_offset p1 + pair_len p1)"
      using chunk wo by (simp add: p1_def)
    moreover have "0 + length (drop chunk data) \<le> pair_size p1"
      using chunk data by (simp add: p1_def)
    ultimately obtain p' where p': "ring_write 1 p1 (drop chunk data) = (p', [])" "ring_ok p'"
      "queued p' = queued p1 @ drop chunk data" "p' = p1\<lparr>pair_buf := pair_buf p', pair_len := pair_len p'\<rparr>"
      using ring_write_linear [OF p1(2), of "drop chunk data" 0 0] by auto
    have "ring_write 2 p data = ring_write 1 p1 (drop chunk data)"
    proof -
      have "\<not> wo + length data \<le> pair_size p" "\<not> pair_size p \<le> wo"
        using False chunk by simp_all
      then show ?thesis
        using chunk(2) unfolding Suc_1 [symmetric] ring_write.simps(2) [of 1]
        by (simp add: Let_def sums p1_def chunk_def [symmetric] del: ring_write.simps)
    qed
    moreover have "queued p' = queued p @ data"
      by (simp add: p'(3) p1(3))
    moreover have "p' = p\<lparr>pair_buf := pair_buf p', pair_len := pair_len p'\<rparr>"
      using p'(4) by (simp add: p1_def)
    ultimately show ?thesis
      using p'(1,2) by auto
  qed
qed

section \<open>Connected pairs\<close>

definition half_ok :: "bio_ref \<Rightarrow> bio_ref \<Rightarrow> pair_bios \<Rightarrow> bool" where
  "half_ok b c w \<longleftrightarrow> b < length w \<and> meth (bio_at b w) = Some BIO_s_bio \<and> bio_init (bio_at b w) \<and>
     ptr (bio_at b w) \<noteq> None \<and> peer (pair_at b w) = Some c \<and> ring_ok (pair_at b w)"

definition paired :: "bio_ref \<Rightarrow> bio_ref \<Rightarrow> pair_bios \<Rightarrow> bool" where
  "paired b c w \<longleftrightarrow> b \<noteq> c \<and> half_ok b c w \<and> half_ok c b w"

lemma paired_sym: "paired b c w \<Longrightarrow> paired c b w"
  by (auto simp: paired_def)

lemma pair_at_set [simp]: "b < length w \<Longrightarrow> pair_at c (set_pair b p w) = (if c = b then p else pair_at c w)"
  by (simp add: pair_at_def set_pair_def)

lemma paired_set:
  assumes "paired b c w" "e = b \<and> peer p = Some c \<or> e = c \<and> peer p = Some b" "ring_ok p"
  shows "paired b c (set_pair e p w)"
proof -
  have "b < length w" "c < length w" "e < length w"
    using assms by (auto simp: paired_def half_ok_def)
  with assms show ?thesis
    by (auto simp: paired_def half_ok_def) (auto simp: set_pair_def)
qed

text \<open>Flags and counters do not matter.\<close>

lemma pair_at_upd:
  assumes "b < length w" "\<And>x. ptr (f x) = ptr x"
  shows "pair_at c (upd_bio b f w) = pair_at c w"
  using assms by (simp add: pair_at_def)

lemma paired_upd:
  assumes "paired b c w" "e < length w" "\<And>x. ptr (f x) = ptr x" "\<And>x. meth (f x) = meth x" "\<And>x. bio_init (f x) = bio_init x"
  shows "paired b c (upd_bio e f w)"
  using assms by (auto simp: paired_def half_ok_def pair_at_upd)

lemma paired_flags:
  assumes "paired b c w" "e = b \<or> e = c"
  shows "paired b c (BIO_clear_retry_flags e w)" "pair_at d (BIO_clear_retry_flags e w) = pair_at d w"
    "paired b c (BIO_set_retry_read e w)" "pair_at d (BIO_set_retry_read e w) = pair_at d w"
    "paired b c (BIO_set_retry_write e w)" "pair_at d (BIO_set_retry_write e w) = pair_at d w"
proof -
  have e: "e < length w"
    using assms by (auto simp: paired_def half_ok_def)
  show "paired b c (BIO_clear_retry_flags e w)" "paired b c (BIO_set_retry_read e w)" "paired b c (BIO_set_retry_write e w)"
    unfolding BIO_clear_retry_flags_def BIO_set_retry_read_def BIO_set_retry_write_def
    by (rule paired_upd [OF assms(1) e]; simp)+
  show "pair_at d (BIO_clear_retry_flags e w) = pair_at d w" "pair_at d (BIO_set_retry_read e w) = pair_at d w"
    "pair_at d (BIO_set_retry_write e w) = pair_at d w"
    unfolding BIO_clear_retry_flags_def BIO_set_retry_read_def BIO_set_retry_write_def
    by (rule pair_at_upd [OF e]; simp)+
qed

lemma ring_ok_request: "ring_ok p \<Longrightarrow> ring_ok (p\<lparr>request := 0\<rparr>)"
  "queued (p\<lparr>request := k\<rparr>) = queued p"
  by (simp_all add: ring_ok_def queued_def)

lemma c_size_int: "0 < n \<Longrightarrow> n \<le> 2147483647 \<Longrightarrow> c_size n = nat n"
  using c_size_small [of "nat n"] by (simp add: SIZE_MAX_def nat_le_iff)

lemma bio_write_exact:
  assumes ok: "paired b c w" and n: "0 < n" "n \<le> 2147483647" "nat n \<le> length data"
    and wr: "bio_write b (Some data) n w = (r, w')"
  shows "paired b c w' \<and> pair_at c w' = pair_at c w \<and> closed (pair_at b w') = closed (pair_at b w) \<and>
    pair_size (pair_at b w') = pair_size (pair_at b w) \<and>
    (if closed (pair_at b w) \<or> pair_len (pair_at b w) = pair_size (pair_at b w)
     then r = - 1 \<and> queued (pair_at b w') = queued (pair_at b w)
     else r = min n (int (pair_size (pair_at b w) - pair_len (pair_at b w))) \<and>
          queued (pair_at b w') = queued (pair_at b w) @ take (nat r) data)"
proof -
  define w1 where "w1 = BIO_clear_retry_flags b w"
  define p where "p = (pair_at b w)\<lparr>request := 0\<rparr>"
  define w2 where "w2 = set_pair b p w1"
  note clear = paired_flags(1,2) [OF ok disjI1 [OF refl], folded w1_def]
  have ring: "ring_ok p" "queued p = queued (pair_at b w)" "peer p = Some c" "ring_ok (pair_at b w)"
    using ok by (simp_all add: p_def paired_def half_ok_def ring_ok_request)
  have b: "b < length w1" "bio_init (bio_at b w1)" "b \<noteq> c"
    using clear(1) by (auto simp: paired_def half_ok_def)
  have ok2: "paired b c w2" "pair_at b w2 = p" "pair_at c w2 = pair_at c w"
    using b ring clear by (auto simp: w2_def intro!: paired_set)
  have size: "c_size n = nat n" "nat n \<noteq> 0"
    using c_size_int n by auto
  define k where "k = (if nat n > pair_size p - pair_len p then pair_size p - pair_len p else nat n)"
  have code: "bio_write b (Some data) n w =
      (if closed p then (- 1, w2)
       else if pair_len p = pair_size p then (- 1, BIO_set_retry_write b w2)
       else case ring_write 2 p (take k data) of (p', _) \<Rightarrow> (c_int (int k), set_pair b p' w2))"
    using b(2) size by (simp add: bio_write_def Let_def clear(2) k_def flip: w1_def p_def w2_def)
  have same: "closed p = closed (pair_at b w)" "pair_size p = pair_size (pair_at b w)" "pair_len p = pair_len (pair_at b w)"
    by (simp_all add: p_def)
  show ?thesis
  proof (cases "closed p \<or> pair_len p = pair_size p")
    case True
    then have "r = - 1" "w' = w2 \<or> w' = BIO_set_retry_write b w2"
      using wr code by (auto split: if_splits)
    with True ok2 paired_flags [OF ok2(1)] same ring(2) show ?thesis
      by auto
  next
    case False
    then have k: "0 < k" "k \<le> pair_size p - pair_len p" "k \<le> length data" "int k \<le> 2147483647"
      "int k = min n (int (pair_size p - pair_len p))"
      using ring(1) n by (auto simp: k_def ring_ok_def min_def nat_le_iff)
    have "take k data \<noteq> []" "length (take k data) \<le> pair_size p - pair_len p" "request p = 0"
      using k by (auto simp: p_def)
    from ring_write_exact [OF ring(1) this(3,1,2)] obtain p' where p': "ring_write 2 p (take k data) = (p', [])" "ring_ok p'"
      "queued p' = queued p @ take k data" "p' = p\<lparr>pair_buf := pair_buf p', pair_len := pair_len p'\<rparr>"
      by blast
    have keep: "peer p' = peer p" "closed p' = closed p" "pair_size p' = pair_size p"
      by (subst p'(4), simp)+
    have res: "r = int k" "w' = set_pair b p' w2"
      using wr code False p'(1) k(4) by (auto simp: c_int_small)
    have "b < length w2"
      using ok2(1) by (simp add: paired_def half_ok_def)
    then have "pair_at b w' = p'" "pair_at c w' = pair_at c w" "paired b c w'"
      using b(3) ok2 keep(1) ring(3) p'(2) by (auto simp: res(2) intro!: paired_set)
    moreover from this have "queued (pair_at b w') = queued (pair_at b w) @ take (nat r) data"
      using p'(3) ring(2) res(1) by simp
    ultimately show ?thesis
      using False k(5) keep same by (simp add: res(1))
  qed
qed

lemma bio_read_exact:
  assumes ok: "paired b c w" and n: "0 < n" "n \<le> 2147483647"
    and rd: "bio_read b n w = (r, out, w')"
  shows "paired b c w' \<and> pair_at b w' = pair_at b w \<and> closed (pair_at c w') = closed (pair_at c w) \<and>
    pair_size (pair_at c w') = pair_size (pair_at c w) \<and>
    (if queued (pair_at c w) = []
     then r = (if closed (pair_at c w) then 0 else - 1) \<and> out = [] \<and> queued (pair_at c w') = []
     else r = min n (int (length (queued (pair_at c w)))) \<and> out = take (nat n) (queued (pair_at c w)) \<and>
          queued (pair_at c w') = drop (nat n) (queued (pair_at c w)))"
proof -
  define w1 where "w1 = BIO_clear_retry_flags b w"
  define p where "p = (pair_at c w)\<lparr>request := 0\<rparr>"
  define w2 where "w2 = set_pair c p w1"
  note clear = paired_flags(1,2) [OF ok disjI1 [OF refl], folded w1_def]
  have ring: "ring_ok p" "queued p = queued (pair_at c w)" "peer p = Some b" "length (queued p) = pair_len p"
    using ok by (simp_all add: p_def paired_def half_ok_def ring_ok_request length_queued)
  have b: "c < length w1" "bio_init (bio_at b w1)" "b \<noteq> c" "peer (pair_at b w) = Some c"
    using clear(1) ok by (auto simp: paired_def half_ok_def)
  have ok2: "paired b c w2" "pair_at c w2 = p" "pair_at b w2 = pair_at b w"
    using b ring clear by (auto simp: w2_def intro!: paired_set)
  have size: "c_size n = nat n" "nat n \<noteq> 0"
    using c_size_int n by auto
  define k where "k = (if pair_len p < nat n then pair_len p else nat n)"
  have code: "bio_read b n w =
      (if pair_len p = 0 then
         (if closed p then (0, [], w2)
          else (- 1, [], set_pair c (p\<lparr>request := if nat n \<le> pair_size p then nat n else pair_size p\<rparr>) (BIO_set_retry_read b w2)))
       else case ring_read 2 p k of (out, p', _) \<Rightarrow> (c_int (int k), out, set_pair c p' w2))"
    using b(2,4) size by (simp add: bio_read_def Let_def clear(2) k_def flip: w1_def p_def w2_def)
  have same: "closed p = closed (pair_at c w)" "pair_size p = pair_size (pair_at c w)"
    by (simp_all add: p_def)
  have c: "c < length w2"
    using ok2(1) by (simp add: paired_def half_ok_def)
  show ?thesis
  proof (cases "pair_len p = 0")
    case True
    define q where "q = p\<lparr>request := if nat n \<le> pair_size p then nat n else pair_size p\<rparr>"
    define w3 where "w3 = set_pair c q (BIO_set_retry_read b w2)"
    note retry = paired_flags(3,4) [OF ok2(1) disjI1 [OF refl]]
    have q: "ring_ok q" "peer q = Some b" "queued q = queued p" "closed q = closed p" "pair_size q = pair_size p"
      using ring True by (auto simp: q_def ring_ok_def queued_def)
    have "c < length (BIO_set_retry_read b w2)"
      using c by (simp add: BIO_set_retry_read_def)
    then have w3: "paired b c w3" "pair_at c w3 = q" "pair_at b w3 = pair_at b w"
      using retry b(3) q ok2 by (auto simp: w3_def intro!: paired_set)
    have "out = []" "if closed p then r = 0 \<and> w' = w2 else r = - 1 \<and> w' = w3"
      using rd code True by (auto simp: w3_def q_def split: if_splits)
    moreover have "queued (pair_at c w) = []"
      using ring(2,4) True by auto
    ultimately show ?thesis
      using w3 ok2 q ring(2) same by (auto split: if_splits)
  next
    case False
    then have k: "0 < k" "k \<le> pair_len p" "int k \<le> 2147483647" "int k = min n (int (pair_len p))"
      using n by (auto simp: k_def min_def nat_le_iff)
    from ring_read_exact [OF ring(1) k(1,2)] obtain p' where p': "ring_read 2 p k = (take k (queued p), p', 0)" "ring_ok p'"
      "queued p' = drop k (queued p)" "p' = p\<lparr>pair_len := pair_len p', pair_offset := pair_offset p'\<rparr>"
      by blast
    have keep: "peer p' = peer p" "closed p' = closed p" "pair_size p' = pair_size p"
      by (subst p'(4), simp)+
    have res: "r = int k" "out = take k (queued p)" "w' = set_pair c p' w2"
      using rd code False p'(1) k(3) by (auto simp: c_int_small)
    have new: "pair_at c w' = p'" "pair_at b w' = pair_at b w" "paired b c w'"
      using c b(3) ok2 keep(1) ring(3) p'(2) by (auto simp: res(3) intro!: paired_set)
    have "out = take (nat n) (queued (pair_at c w))" "queued p' = drop (nat n) (queued (pair_at c w))"
      using ring(2,4) by (auto simp: k_def p'(3) res(2))
    moreover have "queued (pair_at c w) \<noteq> []" "r = min n (int (length (queued (pair_at c w))))"
      using False ring(2,4) k(4) res(1) by auto
    ultimately show ?thesis
      using new keep same by simp
  qed
qed

section \<open>A side as source and as sink\<close>

lemma pair_table_BIO_s_bio [simp]: "pair_table al others BIO_s_bio = methods_biop al"
  by (simp add: pair_table_def)

lemma paired_count:
  assumes "paired b c w" "e = b \<or> e = c"
  shows "paired b c (upd_bio e (\<lambda>x. x\<lparr>num_read := f x\<rparr>) w)" "pair_at d (upd_bio e (\<lambda>x. x\<lparr>num_read := f x\<rparr>) w) = pair_at d w"
    "paired b c (upd_bio e (\<lambda>x. x\<lparr>num_write := f x\<rparr>) w)" "pair_at d (upd_bio e (\<lambda>x. x\<lparr>num_write := f x\<rparr>) w) = pair_at d w"
proof -
  have e: "e < length w"
    using assms by (auto simp: paired_def half_ok_def)
  show "paired b c (upd_bio e (\<lambda>x. x\<lparr>num_read := f x\<rparr>) w)" "paired b c (upd_bio e (\<lambda>x. x\<lparr>num_write := f x\<rparr>) w)"
    by (rule paired_upd [OF assms(1) e]; simp)+
  show "pair_at d (upd_bio e (\<lambda>x. x\<lparr>num_read := f x\<rparr>) w) = pair_at d w"
    "pair_at d (upd_bio e (\<lambda>x. x\<lparr>num_write := f x\<rparr>) w) = pair_at d w"
    by (rule pair_at_upd [OF e]; simp)+
qed

lemma pair_BIO_write:
  assumes ok: "paired b c w" and n: "0 < n" "n \<le> 2147483647" "nat n \<le> length data"
    and wr: "BIO_write (pair_table al others) (Some b) (Some data) n w = (r, w')"
  shows "paired b c w' \<and> pair_at c w' = pair_at c w \<and> closed (pair_at b w') = closed (pair_at b w) \<and>
    pair_size (pair_at b w') = pair_size (pair_at b w) \<and>
    (if closed (pair_at b w) \<or> pair_len (pair_at b w) = pair_size (pair_at b w)
     then r = - 1 \<and> queued (pair_at b w') = queued (pair_at b w)
     else r = min n (int (pair_size (pair_at b w) - pair_len (pair_at b w))) \<and>
          queued (pair_at b w') = queued (pair_at b w) @ take (nat r) data)"
proof -
  obtain w1 where w1: "bio_write b (Some data) n w = (r, w1)" and
    w': "w' = (if r > 0 then upd_bio b (\<lambda>x. x\<lparr>num_write := size_add (num_write x) (nat r)\<rparr>) w1 else w1)"
    using wr ok n(1) by (auto simp: BIO_write_def paired_def half_ok_def methods_biop_def split: prod.splits)
  note step = bio_write_exact [OF ok n w1]
  then have "paired b c w1" by simp
  note count = paired_count(3,4) [OF this disjI1 [OF refl], where f = "\<lambda>x. size_add (num_write x) (nat r)"]
  have "paired b c w'" "pair_at d w' = pair_at d w1" for d
    using count \<open>paired b c w1\<close> by (simp_all add: w')
  with step show ?thesis by simp
qed

lemma pair_BIO_read:
  assumes ok: "paired b c w" and n: "0 < n" "n \<le> 2147483647"
    and rd: "BIO_read (pair_table al others) (Some b) n w = (r, out, w')"
  shows "paired b c w' \<and> pair_at b w' = pair_at b w \<and> closed (pair_at c w') = closed (pair_at c w) \<and>
    pair_size (pair_at c w') = pair_size (pair_at c w) \<and>
    (if queued (pair_at c w) = []
     then r = (if closed (pair_at c w) then 0 else - 1) \<and> out = [] \<and> queued (pair_at c w') = []
     else r = min n (int (length (queued (pair_at c w)))) \<and> out = take (nat n) (queued (pair_at c w)) \<and>
          queued (pair_at c w') = drop (nat n) (queued (pair_at c w)))"
proof -
  obtain w1 where w1: "bio_read b n w = (r, out, w1)" and
    w': "w' = (if r > 0 then upd_bio b (\<lambda>x. x\<lparr>num_read := size_add (num_read x) (nat r)\<rparr>) w1 else w1)"
    using rd ok n(1) by (auto simp: BIO_read_def paired_def half_ok_def methods_biop_def split: prod.splits)
  note step = bio_read_exact [OF ok n w1]
  then have "paired b c w1" by simp
  note count = paired_count(1,2) [OF this disjI1 [OF refl], where f = "\<lambda>x. size_add (num_read x) (nat r)"]
  have "paired b c w'" "pair_at d w' = pair_at d w1" for d
    using count \<open>paired b c w1\<close> by (simp_all add: w')
  with step show ?thesis by simp
qed

lemma pair_source:
  "bio_source (pair_table al others) b (\<lambda>w. paired b c w \<and> closed (pair_at c w) = fin) (\<lambda>w. queued (pair_at c w))
     (if fin then 0 else - 1)"
proof
  fix w n r out w'
  assume *: "paired b c w \<and> closed (pair_at c w) = fin" "0 < n" "n \<le> int INT_MAX"
    "BIO_read (pair_table al others) (Some b) n w = (r, out, w')"
  have "n \<le> 2147483647"
    using *(3) by (simp add: INT_MAX_def)
  note step = pair_BIO_read [OF conjunct1 [OF *(1)] *(2) this *(4)]
  show "(paired b c w' \<and> closed (pair_at c w') = fin) \<and> 0 < r \<and> r \<le> n \<and> length out = nat r \<and>
      queued (pair_at c w) = out @ queued (pair_at c w')" if "queued (pair_at c w) \<noteq> []"
    using that step *(1,2) by (auto simp: min_def nat_le_iff)
  show "(paired b c w' \<and> closed (pair_at c w') = fin) \<and> r = (if fin then 0 else - 1) \<and> out = [] \<and> queued (pair_at c w') = []"
    if "queued (pair_at c w) = []"
    using that step *(1) by auto
qed simp

interpretation pair_closed: bio_source "pair_table al others" b
  "\<lambda>w. paired b c w \<and> closed (pair_at c w) = True" "\<lambda>w. queued (pair_at c w)" 0 for al others b c
  using pair_source [of al others b c True] by simp

interpretation pair_open: bio_source "pair_table al others" b
  "\<lambda>w. paired b c w \<and> closed (pair_at c w) = False" "\<lambda>w. queued (pair_at c w)" "- 1" for al others b c
  using pair_source [of al others b c False] by simp

interpretation pair_sink: bio_sink "pair_table al others" b
  "\<lambda>w. paired b c w \<and> closed (pair_at b w) = fin \<and> pair_at c w = other" "\<lambda>w. queued (pair_at b w)"
  for al others b c fin other
proof
  fix w n data r w'
  assume *: "paired b c w \<and> closed (pair_at b w) = fin \<and> pair_at c w = other" "0 < n" "n \<le> int INT_MAX" "nat n \<le> length data"
    "BIO_write (pair_table al others) (Some b) (Some data) n w = (r, w')"
  have "n \<le> 2147483647"
    using *(3) by (simp add: INT_MAX_def)
  note step = pair_BIO_write [OF conjunct1 [OF *(1)] *(2) this *(4,5)]
  show "(paired b c w' \<and> closed (pair_at b w') = fin \<and> pair_at c w' = other) \<and> r \<le> n \<and>
      queued (pair_at b w') = queued (pair_at b w) @ take (nat r) data"
    using step *(1,2) by (auto split: if_splits)
qed

section \<open>Runs\<close>

lemma pair_ctrl_keeps:
  assumes "paired b c w" "e = b \<or> e = c"
    and "BIO_ctrl (pair_table al others) (Some e) cmd larg parg w = (r, p, w')"
  shows "paired b c w' \<and> queued (pair_at b w') = queued (pair_at b w) \<and> queued (pair_at c w') = queued (pair_at c w)"
proof -
  have e: "e < length w" "b \<noteq> c" "ring_ok (pair_at e w)" "e = b \<and> peer (pair_at e w) = Some c \<or> e = c \<and> peer (pair_at e w) = Some b"
    using assms(1,2) by (auto simp: paired_def half_ok_def)
  have "bio_ctrl e cmd larg parg w = (r, p, w')"
    using assms by (auto simp: BIO_ctrl_def paired_def half_ok_def methods_biop_def)
  then consider "w' = w" | "w' = set_pair e ((pair_at e w)\<lparr>request := 0\<rparr>) w" | "w' = set_pair e ((pair_at e w)\<lparr>closed := True\<rparr>) w"
    | x where "w' = upd_bio e (\<lambda>y. y\<lparr>shutdown := x\<rparr>) w"
    by (auto simp: bio_ctrl_def Let_def split: if_splits)
  then show ?thesis
  proof cases
    case 2
    have "paired b c w'"
      unfolding 2 by (rule paired_set [OF assms(1)]) (use e ring_ok_request(1) in auto)
    with e show ?thesis by (auto simp: 2 ring_ok_request)
  next
    case 3
    have "ring_ok ((pair_at e w)\<lparr>closed := True\<rparr>)" "queued ((pair_at e w)\<lparr>closed := True\<rparr>) = queued (pair_at e w)"
      using e(3) by (simp_all add: ring_ok_def queued_def)
    moreover from this have "paired b c w'"
      unfolding 3 by (intro paired_set [OF assms(1)]) (use e in auto)
    ultimately show ?thesis
      using e by (auto simp: 3)
  next
    case (4 x)
    have "paired b c w'" "pair_at d w' = pair_at d w" for d
      unfolding 4 by (rule paired_upd [OF assms(1) e(1)]; simp) (rule pair_at_upd [OF e(1)]; simp)
    then show ?thesis by simp
  qed (use assms(1) in simp)
qed

text \<open>
  The calls both sides can make, in any order: \<open>sent e\<close> is what \<open>BIO_write\<close> on side \<open>e\<close> has accepted and
  \<open>received e\<close> what \<open>BIO_read\<close> on side \<open>e\<close> has returned, since the pair was connected.
\<close>

inductive pair_run ::
  "allocator \<Rightarrow> (nat, bio_bio_st, bio_ref) method_table \<Rightarrow> bio_ref \<Rightarrow> bio_ref \<Rightarrow> pair_bios \<Rightarrow>
   (bio_ref \<Rightarrow> bytes) \<Rightarrow> (bio_ref \<Rightarrow> bytes) \<Rightarrow> bool"
  for al others b c where
  run_start: "\<lbrakk>paired b c w; queued (pair_at b w) = []; queued (pair_at c w) = []\<rbrakk>
    \<Longrightarrow> pair_run al others b c w (\<lambda>_. []) (\<lambda>_. [])"
| run_write: "\<lbrakk>pair_run al others b c w sent received; e = b \<or> e = c; 0 < n; n \<le> 2147483647; nat n \<le> length data;
    BIO_write (pair_table al others) (Some e) (Some data) n w = (r, w')\<rbrakk>
    \<Longrightarrow> pair_run al others b c w' (sent(e := sent e @ take (nat r) data)) received"
| run_read: "\<lbrakk>pair_run al others b c w sent received; e = b \<or> e = c; 0 < n; n \<le> 2147483647;
    BIO_read (pair_table al others) (Some e) n w = (r, out, w')\<rbrakk>
    \<Longrightarrow> pair_run al others b c w' sent (received(e := received e @ out))"
| run_ctrl: "\<lbrakk>pair_run al others b c w sent received; e = b \<or> e = c;
    BIO_ctrl (pair_table al others) (Some e) cmd larg parg w = (r, p, w')\<rbrakk>
    \<Longrightarrow> pair_run al others b c w' sent received"

lemma pair_run_stream:
  assumes "pair_run al others b c w sent received"
  shows "paired b c w \<and> sent b = received c @ queued (pair_at b w) \<and> sent c = received b @ queued (pair_at c w)"
  using assms
proof induction
  case (run_write w sent received e n data r w')
  then have ok: "paired b c w" "paired c b w" "b \<noteq> c"
    by (auto simp: paired_sym paired_def)
  from run_write.hyps(2) show ?case
  proof
    assume e: "e = b"
    note step = pair_BIO_write [OF ok(1) run_write.hyps(3,4,5) run_write.hyps(6) [unfolded e]]
    with run_write.IH ok(3) e show ?case
      by (auto split: if_splits)
  next
    assume e: "e = c"
    note step = pair_BIO_write [OF ok(2) run_write.hyps(3,4,5) run_write.hyps(6) [unfolded e]]
    with run_write.IH ok(3) e paired_sym show ?case
      by (auto split: if_splits)
  qed
next
  case (run_read w sent received e n r out w')
  then have ok: "paired b c w" "paired c b w" "b \<noteq> c"
    by (auto simp: paired_sym paired_def)
  from run_read.hyps(2) show ?case
  proof
    assume e: "e = b"
    note step = pair_BIO_read [OF ok(1) run_read.hyps(3,4) run_read.hyps(5) [unfolded e]]
    with run_read.IH ok(3) e show ?case
      by (auto split: if_splits)
  next
    assume e: "e = c"
    note step = pair_BIO_read [OF ok(2) run_read.hyps(3,4) run_read.hyps(5) [unfolded e]]
    with run_read.IH ok(3) e paired_sym show ?case
      by (auto split: if_splits)
  qed
next
  case (run_ctrl w sent received e cmd larg parg r p w')
  then show ?case
    using pair_ctrl_keeps [of b c w e al others cmd larg parg r p w'] by auto
qed simp

section \<open>Properties\<close>

text \<open>
  C5: a pair is two reliable streams.  After any calls of \<open>BIO_write\<close>, \<open>BIO_read\<close> and \<open>BIO_ctrl\<close> on both sides, in
  any order, what one side has received is what the other has sent, in order, up to the bytes still in the ring;
  nothing is lost, repeated or mixed with the other direction, and the rings keep the rules of the comments on
  \<open>struct bio_bio_st\<close>.
\<close>

theorem pair_streams:
  assumes "pair_run al others b c w sent received"
  shows "sent b = received c @ queued (pair_at b w) \<and> sent c = received b @ queued (pair_at c w) \<and>
    peer (pair_at b w) = Some c \<and> peer (pair_at c w) = Some b \<and> ring_ok (pair_at b w) \<and> ring_ok (pair_at c w)"
  using pair_run_stream [OF assms] by (simp add: paired_def half_ok_def)

text \<open>
  Two clients of a pair: in every round one writes what it has not yet sent and the other reads up to \<open>n\<close> bytes.
  The result is what has been read, what is still unsent, and the store.
\<close>

fun exchange ::
  "(nat, bio_bio_st, bio_ref) method_table \<Rightarrow> bio_ref \<Rightarrow> bio_ref \<Rightarrow> int \<Rightarrow> nat \<Rightarrow> bytes \<Rightarrow> pair_bios \<Rightarrow>
   bytes \<times> bytes \<times> pair_bios" where
  "exchange mt b c n 0 data w = ([], data, w)"
| "exchange mt b c n (Suc rounds) data w =
     (case (if data = [] then (0, w) else BIO_write mt (Some b) (Some data) (int (length data)) w) of (r, w1) \<Rightarrow>
        case BIO_read mt (Some c) n w1 of (_, out, w2) \<Rightarrow>
          case exchange mt b c n rounds (drop (nat r) data) w2 of (out', unsent, w3) \<Rightarrow> (out @ out', unsent, w3))"

lemma exchange_round:
  assumes ok: "paired b c w" "\<not> closed (pair_at b w)" and n: "0 < n" "n \<le> 2147483647"
    and data: "int (length data) \<le> 2147483647"
    and wr: "(if data = [] then (0, w) else BIO_write (pair_table al others) (Some b) (Some data) (int (length data)) w) = (r, w1)"
    and rd: "BIO_read (pair_table al others) (Some c) n w1 = (r', out, w2)"
  shows "paired b c w2 \<and> \<not> closed (pair_at b w2) \<and>
    queued (pair_at b w) @ data = out @ queued (pair_at b w2) @ drop (nat r) data \<and>
    (queued (pair_at b w) @ data \<noteq> [] \<longrightarrow> out \<noteq> [])"
proof -
  have len: "length (queued (pair_at b w)) = pair_len (pair_at b w)" "0 < pair_size (pair_at b w)"
    using ok(1) length_queued by (auto simp: paired_def half_ok_def ring_ok_def)
  have w1: "paired b c w1 \<and> \<not> closed (pair_at b w1) \<and> queued (pair_at b w1) = queued (pair_at b w) @ take (nat r) data \<and>
      (queued (pair_at b w) @ data \<noteq> [] \<longrightarrow> queued (pair_at b w1) \<noteq> [])"
  proof (cases "data = []")
    case True
    with wr ok show ?thesis by auto
  next
    case False
    then have "0 < int (length data)" "nat (int (length data)) \<le> length data"
      by simp_all
    note step = pair_BIO_write [OF ok(1) this(1) data this(2), of al others r w1]
    show ?thesis
    proof (cases "pair_len (pair_at b w) = pair_size (pair_at b w)")
      case True
      then have "queued (pair_at b w) \<noteq> []"
        using len by auto
      with True step wr False ok(2) show ?thesis by simp
    next
      case room: False
      have "pair_len (pair_at b w) \<le> pair_size (pair_at b w)"
        using ok(1) by (simp add: paired_def half_ok_def ring_ok_def)
      with room step wr False ok(2) have r: "0 < r" "queued (pair_at b w1) = queued (pair_at b w) @ take (nat r) data"
        by auto
      with step wr False ok(2) show ?thesis by auto
    qed
  qed
  then have "paired c b w1"
    by (simp add: paired_sym)
  note read = pair_BIO_read [OF this n rd]
  have q: "queued (pair_at b w1) = out @ queued (pair_at b w2)" "queued (pair_at b w1) \<noteq> [] \<longrightarrow> out \<noteq> []"
    using read n(1) by (auto split: if_splits)
  have "queued (pair_at b w) @ data = queued (pair_at b w1) @ drop (nat r) data"
    using w1 by simp
  then have "queued (pair_at b w) @ data = out @ queued (pair_at b w2) @ drop (nat r) data"
    by (simp only: q(1) append_assoc)
  moreover have "queued (pair_at b w) @ data \<noteq> [] \<longrightarrow> out \<noteq> []"
    using w1 q(2) by blast
  moreover have "paired b c w2" "\<not> closed (pair_at b w2)"
    using w1 read paired_sym by simp_all
  ultimately show ?thesis by blast
qed

lemma exchange_all:
  assumes "paired b c w" "\<not> closed (pair_at b w)" "0 < n" "n \<le> 2147483647" "int (length data) \<le> 2147483647"
    and "length (queued (pair_at b w) @ data) \<le> rounds"
    and "exchange (pair_table al others) b c n rounds data w = (out, unsent, w')"
  shows "out = queued (pair_at b w) @ data \<and> unsent = [] \<and> queued (pair_at b w') = [] \<and> paired b c w'"
  using assms
proof (induction rounds arbitrary: data w out)
  case (Suc rounds)
  obtain r w1 where wr: "(if data = [] then (0, w) else BIO_write (pair_table al others) (Some b) (Some data) (int (length data)) w) = (r, w1)"
    by (cases "if data = [] then (0, w) else BIO_write (pair_table al others) (Some b) (Some data) (int (length data)) w")
  obtain r' out1 w2 where rd: "BIO_read (pair_table al others) (Some c) n w1 = (r', out1, w2)"
    by (cases "BIO_read (pair_table al others) (Some c) n w1")
  obtain out2 unsent2 w3 where rest: "exchange (pair_table al others) b c n rounds (drop (nat r) data) w2 = (out2, unsent2, w3)"
    by (cases "exchange (pair_table al others) b c n rounds (drop (nat r) data) w2")
  have res: "out = out1 @ out2" "unsent = unsent2" "w' = w3"
    using Suc.prems(7) by (simp_all add: wr rd rest)
  note round = exchange_round [OF Suc.prems(1-5) wr rd]
  have "length (queued (pair_at b w2) @ drop (nat r) data) \<le> rounds"
  proof (cases "queued (pair_at b w) @ data = []")
    case True
    with round show ?thesis by auto
  next
    case False
    then have "out1 \<noteq> []"
      using round by blast
    moreover have "length (queued (pair_at b w) @ data) = length (out1 @ queued (pair_at b w2) @ drop (nat r) data)"
      using round by simp
    moreover note Suc.prems(6)
    ultimately show ?thesis
      by (cases out1) simp_all
  qed
  moreover have "int (length (drop (nat r) data)) \<le> 2147483647"
    using Suc.prems(5) by simp
  ultimately have "out2 = queued (pair_at b w2) @ drop (nat r) data \<and> unsent2 = [] \<and> queued (pair_at b w3) = [] \<and> paired b c w3"
    using Suc.IH [of w2 "drop (nat r) data" out2] round Suc.prems(3,4) rest res(2,3) by auto
  with round res show ?case by simp
qed simp

text \<open>
  C10: everything written to a pair is delivered, however small the ring and the reads.  A writer that keeps
  writing what has not been accepted and a reader that keeps reading, any positive number of bytes at a time,
  move the whole data in order within as many rounds as there are bytes, and leave the ring empty.
\<close>

theorem pair_delivers:
  assumes "paired b c w" "\<not> closed (pair_at b w)" "0 < n" "n \<le> 2147483647" "int (length data) \<le> 2147483647"
    and "length (queued (pair_at b w) @ data) \<le> rounds"
  shows "\<exists>w'. exchange (pair_table al others) b c n rounds data w = (queued (pair_at b w) @ data, [], w') \<and>
    queued (pair_at b w') = []"
proof (cases "exchange (pair_table al others) b c n rounds data w")
  case (fields out unsent w')
  with exchange_all [OF assms fields] show ?thesis by simp
qed

text \<open>Creating and releasing a side that is not connected.\<close>

definition new_half :: bio_bio_st where
  "new_half = \<lparr>peer = None, closed = False, pair_len = 0, pair_offset = 0, pair_size = 17 * 1024, pair_buf = None, request = 0\<rparr>"

lemma new_half_peer [simp]: "peer new_half = None"
  by (simp add: new_half_def)

definition new_bio :: "(nat, bio_bio_st) bio" where
  "new_bio = zero_bio\<lparr>meth := Some BIO_s_bio, shutdown := 1, references := 1, ptr := Some new_half\<rparr>"

lemma BIO_new_pair:
  "BIO_new (pair_table al others) al BIO_s_bio w =
     (if \<not> al sizeof_BIO then (None, w)
      else if \<not> al sizeof_bio_bio_st then (None, w @ [None])
      else (Some (length w), w @ [Some new_bio]))"
  by (simp add: BIO_new_def methods_biop_def bio_new_def set_pair_def upd_bio_def bio_at_def new_bio_def new_half_def Let_def)

lemma BIO_free_half:
  assumes "b < length w" "references (bio_at b w) = 1" "next_bio (bio_at b w) = None" "meth (bio_at b w) = Some BIO_s_bio"
    "peer (pair_at b w) = None"
  shows "BIO_free (pair_table al others) (Some b) w = Some (1, w[b := None])"
proof -
  have "CRYPTO_refcount_dec_and_test_zero 1 = Some (True, 0)"
    by (simp add: CRYPTO_refcount_dec_and_test_zero_def CRYPTO_REFCOUNT_MAX_def)
  with assms show ?thesis
    by (subst BIO_free.simps, subst BIO_free.simps)
      (simp add: BIO_pop_def methods_biop_def bio_free_def pair_at_def set_pair_def upd_bio_def bio_at_def Let_def)
qed

lemma BIO_free_null: "BIO_free mt None w = Some (1, w)"
  by (subst BIO_free.simps) simp

lemma alloc_ring_new:
  "alloc_ring al fresh n new_half =
     (let sz = (if n = 0 then 17 * 1024 else n)
      in if al sz then (True, new_half\<lparr>pair_size := sz, pair_buf := Some (map fresh [0..<sz])\<rparr>)
         else (False, new_half\<lparr>pair_size := sz\<rparr>))"
  by (simp add: alloc_ring_def new_half_def Let_def)

text \<open>Two new cells at the end of the store.\<close>

definition two_halves :: "pair_bios \<Rightarrow> bio_bio_st \<Rightarrow> bio_bio_st \<Rightarrow> pair_bios" where
  "two_halves w p q = w @ [Some (new_bio\<lparr>ptr := Some p\<rparr>), Some (new_bio\<lparr>ptr := Some q\<rparr>)]"

lemma two_halves_simps [simp]:
  "length (two_halves w p q) = length w + 2"
  "pair_at (length w) (two_halves w p q) = p" "pair_at (Suc (length w)) (two_halves w p q) = q"
  "set_pair (length w) p' (two_halves w p q) = two_halves w p' q"
  "set_pair (Suc (length w)) q' (two_halves w p q) = two_halves w p q'"
  by (simp_all add: two_halves_def pair_at_def set_pair_def upd_bio_def bio_at_def nth_append list_update_append)

lemma free_two_halves:
  assumes "peer p = None" "peer q = None"
  shows "BIO_free (pair_table al others) (Some (length w)) (two_halves w p q) =
      Some (1, w @ [None, Some (new_bio\<lparr>ptr := Some q\<rparr>)])"
    "BIO_free (pair_table al others) (Some (Suc (length w))) (w @ [None, Some (new_bio\<lparr>ptr := Some q\<rparr>)]) =
      Some (1, w @ [None, None])"
proof -
  have new: "references new_bio = 1" "next_bio new_bio = None" "meth new_bio = Some BIO_s_bio"
    by (simp_all add: new_bio_def zero_bio_def)
  have "BIO_free (pair_table al others) (Some (length w)) (two_halves w p q) = Some (1, (two_halves w p q)[length w := None])"
    by (rule BIO_free_half) (simp_all add: assms, simp_all add: two_halves_def bio_at_def new)
  then show "BIO_free (pair_table al others) (Some (length w)) (two_halves w p q) =
      Some (1, w @ [None, Some (new_bio\<lparr>ptr := Some q\<rparr>)])"
    by (simp add: two_halves_def list_update_append)
  have "BIO_free (pair_table al others) (Some (Suc (length w))) (w @ [None, Some (new_bio\<lparr>ptr := Some q\<rparr>)]) =
      Some (1, (w @ [None, Some (new_bio\<lparr>ptr := Some q\<rparr>)])[Suc (length w) := None])"
    by (rule BIO_free_half) (simp_all add: bio_at_def new assms pair_at_def nth_append)
  then show "BIO_free (pair_table al others) (Some (Suc (length w))) (w @ [None, Some (new_bio\<lparr>ptr := Some q\<rparr>)]) =
      Some (1, w @ [None, None])"
    by (simp add: list_update_append)
qed

lemma make_pair_new:
  "bio_make_pair al fresh (length w) (Suc (length w)) n1 n2 (two_halves w new_half new_half) =
     (case alloc_ring al fresh n1 new_half of
        (False, p) \<Rightarrow> (False, two_halves w p new_half)
      | (True, p) \<Rightarrow> (case alloc_ring al fresh n2 new_half of
          (False, q) \<Rightarrow> (False, two_halves w p q)
        | (True, q) \<Rightarrow>
            (True, BIO_set_init (Suc (length w)) True (BIO_set_init (length w) True
               (two_halves w (p\<lparr>peer := Some (Suc (length w)), closed := False, request := 0\<rparr>)
                             (q\<lparr>peer := Some (length w), closed := False, request := 0\<rparr>))))))"
proof -
  have "peer new_half = None"
    by (simp add: new_half_def)
  then show ?thesis
    by (simp add: bio_make_pair_def Let_def split: prod.splits bool.splits)
qed

lemma two_new_cells: "w @ [Some new_bio, Some new_bio] = two_halves w new_half new_half"
  by (simp add: two_halves_def new_bio_def)

lemma new_pair_cases:
  assumes "2 * n1 \<le> SIZE_MAX" "2 * n2 \<le> SIZE_MAX"
  shows "\<exists>res w'. BIO_new_bio_pair al fresh others n1 n2 w = Some (res, w') \<and>
    (case res of
       Some (b, c) \<Rightarrow> take (length w) w' = w \<and> length w' = length w + 2 \<and> paired b c w' \<and>
         queued (pair_at b w') = [] \<and> queued (pair_at c w') = [] \<and>
         \<not> closed (pair_at b w') \<and> \<not> closed (pair_at c w') \<and>
         pair_size (pair_at b w') = (if n1 = 0 then 17 * 1024 else n1) \<and>
         pair_size (pair_at c w') = (if n2 = 0 then 17 * 1024 else n2)
     | None \<Rightarrow> \<exists>k. w' = w @ replicate k None)"
proof -
  let ?b = "length w" and ?c = "Suc (length w)" and ?mt = "pair_table al others"
  define s1 s2 where "s1 = (if n1 = 0 then 17 * 1024 else n1)" and "s2 = (if n2 = 0 then 17 * 1024 else n2)"
  define p q where "p = new_half\<lparr>pair_size := s1, pair_buf := Some (map fresh [0..<s1])\<rparr>"
    and "q = new_half\<lparr>pair_size := s2, pair_buf := Some (map fresh [0..<s2])\<rparr>"
  have failed: "\<exists>k. w @ [None, None] = w @ replicate k None" "\<exists>k. w @ [None] = w @ replicate k None" "\<exists>k. w = w @ replicate k None"
    by (intro exI [of _ 2], simp add: numeral_2_eq_2, intro exI [of _ 1], simp, intro exI [of _ 0], simp)
  have unlinked: "peer (new_half\<lparr>pair_size := k\<rparr>) = None" "peer p = None" "peer new_half = None" for k
    by (simp_all add: p_def new_half_def)
  consider (no_cell) "\<not> (al sizeof_BIO \<and> al sizeof_bio_bio_st)"
    | (no_ring) "al sizeof_BIO" "al sizeof_bio_bio_st" "\<not> (al s1 \<and> al s2)"
    | (ok) "al sizeof_BIO" "al sizeof_bio_bio_st" "al s1" "al s2"
    by blast
  then show ?thesis
  proof cases
    case no_cell
    then show ?thesis
      using failed by (cases "al sizeof_BIO") (auto simp: BIO_new_bio_pair_def Let_def BIO_new_pair BIO_free_null)
  next
    case no_ring
    obtain p' q' where make: "bio_make_pair al fresh ?b ?c n1 n2 (two_halves w new_half new_half) = (False, two_halves w p' q')"
      "peer p' = None" "peer q' = None"
      using no_ring(3) unlinked
      by (cases "al s1"; cases "al s2") (auto simp: make_pair_new alloc_ring_new Let_def simp flip: s1_def s2_def p_def)
    have "BIO_new_bio_pair al fresh others n1 n2 w = Some (None, w @ [None, None])"
      using no_ring(1,2) make by (simp add: BIO_new_bio_pair_def Let_def BIO_new_pair two_new_cells free_two_halves)
    with failed(1) show ?thesis by auto
  next
    case ok
    define w' where "w' = BIO_set_init ?c True (BIO_set_init ?b True
        (two_halves w (p\<lparr>peer := Some ?c, closed := False, request := 0\<rparr>) (q\<lparr>peer := Some ?b, closed := False, request := 0\<rparr>)))"
    have "bio_make_pair al fresh ?b ?c n1 n2 (two_halves w new_half new_half) = (True, w')"
      using ok(3,4) by (simp add: make_pair_new alloc_ring_new Let_def w'_def flip: s1_def s2_def p_def q_def)
    then have "BIO_new_bio_pair al fresh others n1 n2 w = Some (Some (?b, ?c), w')"
      using ok by (simp add: BIO_new_bio_pair_def Let_def BIO_new_pair two_new_cells)
    moreover have "take (length w) w' = w" "length w' = length w + 2"
      by (simp_all add: w'_def BIO_set_init_def two_halves_def upd_bio_def)
    moreover have at: "pair_at ?b w' = p\<lparr>peer := Some ?c, closed := False, request := 0\<rparr>"
      "pair_at ?c w' = q\<lparr>peer := Some ?b, closed := False, request := 0\<rparr>"
      by (simp_all add: w'_def BIO_set_init_def pair_at_upd)
    moreover have "2 * s1 \<le> SIZE_MAX" "2 * s2 \<le> SIZE_MAX"
      using assms by (simp_all add: s1_def s2_def SIZE_MAX_def)
    then have "ring_ok (pair_at ?b w')" "ring_ok (pair_at ?c w')"
      by (simp_all add: at ring_ok_def p_def q_def new_half_def) (simp_all add: s1_def s2_def)
    then have "paired ?b ?c w'"
      by (simp add: paired_def half_ok_def at)
        (simp add: w'_def BIO_set_init_def two_halves_def bio_at_def new_bio_def zero_bio_def nth_append)
    ultimately show ?thesis
      by (auto simp: queued_def p_def q_def new_half_def simp flip: s1_def s2_def)
  qed
qed

text \<open>
  \<open>BIO_new_bio_pair\<close> returns whatever the allocator does: either two new connected
  and empty sides with rings of the requested sizes (17 kB for 0), or failure, and then no \<open>BIO\<close> it had
  made is left and the store is otherwise as before.
\<close>

theorem new_pair_all_or_nothing:
  assumes "2 * n1 \<le> SIZE_MAX" "2 * n2 \<le> SIZE_MAX"
  shows "\<exists>res w'. BIO_new_bio_pair al fresh others n1 n2 w = Some (res, w') \<and>
    (case res of
       Some (b, c) \<Rightarrow> take (length w) w' = w \<and> length w' = length w + 2 \<and> paired b c w' \<and>
         queued (pair_at b w') = [] \<and> queued (pair_at c w') = [] \<and>
         \<not> closed (pair_at b w') \<and> \<not> closed (pair_at c w') \<and>
         pair_size (pair_at b w') = (if n1 = 0 then 17 * 1024 else n1) \<and>
         pair_size (pair_at c w') = (if n2 = 0 then 17 * 1024 else n2)
     | None \<Rightarrow> \<exists>k. w' = w @ replicate k None)"
  by (rule new_pair_cases [OF assms])

definition no_other_pairs :: "(nat, bio_bio_st, bio_ref) method_table" where
  "no_other_pairs = (\<lambda>_. methods_biop unlimited)"

text \<open>A pair with rings of four and of eight bytes.\<close>

definition demo_pair :: pair_bios where
  "demo_pair = snd (the (BIO_new_bio_pair unlimited (\<lambda>_. 255) no_other_pairs 4 8 []))"

lemma demo_paired: "paired 0 1 demo_pair \<and> pair_size (pair_at 0 demo_pair) = 4 \<and>
    pair_size (pair_at 1 demo_pair) = 8 \<and> \<not> closed (pair_at 0 demo_pair) \<and> \<not> closed (pair_at 1 demo_pair) \<and>
    queued (pair_at 0 demo_pair) = [] \<and> queued (pair_at 1 demo_pair) = []"
proof -
  have "\<exists>w'. BIO_new_bio_pair unlimited (\<lambda>_. 255) no_other_pairs 4 8 [] = Some (Some (0, 1), w')"
    using two_new_cells [of "[]"] make_pair_new [of unlimited "\<lambda>_. 255" "[]" 4 8]
    by (simp add: BIO_new_bio_pair_def Let_def BIO_new_pair alloc_ring_new)
  then have new: "BIO_new_bio_pair unlimited (\<lambda>_. 255) no_other_pairs 4 8 [] = Some (Some (0, 1), demo_pair)"
    by (auto simp: demo_pair_def)
  then show ?thesis
    using new_pair_cases [of 4 8 unlimited "\<lambda>_. 255" no_other_pairs "[]"] by (simp add: SIZE_MAX_def)
qed

lemma new_pair_all_or_nothing_witness:
  "\<exists>k. BIO_new_bio_pair (\<lambda>n. n < 100) (\<lambda>_. 255) no_other_pairs 4 8000 [] = Some (None, replicate k None)"
proof -
  have "\<exists>w'. BIO_new_bio_pair (\<lambda>n. n < 100) (\<lambda>_. 255) no_other_pairs 4 8000 [] = Some (None, w')"
    using two_new_cells [of "[]"] make_pair_new [of "\<lambda>n. n < 100" "\<lambda>_. 255" "[]" 4 8000]
      free_two_halves(1) [of _ _ "\<lambda>n. n < 100" no_other_pairs "[]"]
      free_two_halves(2) [of new_half _ "\<lambda>n. n < 100" no_other_pairs "[]"]
    by (simp add: BIO_new_bio_pair_def Let_def BIO_new_pair alloc_ring_new sizeof_BIO_def sizeof_bio_bio_st_def)
  moreover have "2 * 4 \<le> SIZE_MAX" "2 * 8000 \<le> SIZE_MAX"
    by (simp_all add: SIZE_MAX_def)
  note new_pair_all_or_nothing [OF this, of "\<lambda>n. n < 100" "\<lambda>_. 255" no_other_pairs "[]"]
  ultimately show ?thesis
    by auto
qed

lemma pair_streams_witness:
  "\<exists>w'. pair_run unlimited no_other_pairs 0 1 w' ((\<lambda>_. [])(0 := [1, 2, 3, 4])) (\<lambda>_. []) \<and>
     queued (pair_at 0 w') = [1, 2, 3, 4]"
proof -
  obtain r w' where wr: "BIO_write (pair_table unlimited no_other_pairs) (Some 0) (Some [1, 2, 3, 4, 5, 6]) 6 demo_pair = (r, w')"
    by (cases "BIO_write (pair_table unlimited no_other_pairs) (Some 0) (Some [1, 2, 3, 4, 5, 6]) 6 demo_pair")
  have "pair_run unlimited no_other_pairs 0 1 demo_pair (\<lambda>_. []) (\<lambda>_. [])"
    using demo_paired by (intro run_start) simp_all
  from run_write [OF this _ _ _ _ wr, simplified]
  have run: "pair_run unlimited no_other_pairs 0 1 w' ((\<lambda>_. [])(0 := take (nat r) [1, 2, 3, 4, 5, 6])) (\<lambda>_. [])"
    by simp
  have "pair_size (pair_at 0 demo_pair) = 4 \<and> pair_len (pair_at 0 demo_pair) = 0"
    using demo_paired length_queued [of "pair_at 0 demo_pair"] by (simp add: paired_def half_ok_def)
  with pair_BIO_write [of 0 1 demo_pair 6 "[1, 2, 3, 4, 5, 6]" unlimited no_other_pairs r w'] demo_paired wr have "r = 4"
    by simp
  with run pair_streams [OF run] show ?thesis
    by (intro exI [of _ w']) simp
qed

lemma pair_delivers_witness:
  "\<exists>w'. exchange (pair_table unlimited no_other_pairs) 0 1 3 10 [1, 2, 3, 4, 5, 6, 7, 8, 9, 10] demo_pair =
     ([1, 2, 3, 4, 5, 6, 7, 8, 9, 10], [], w') \<and> queued (pair_at 0 w') = []"
  using pair_delivers [of 0 1 demo_pair 3 "[1, 2, 3, 4, 5, 6, 7, 8, 9, 10]" 10 unlimited no_other_pairs] demo_paired
  by simp

end
