(* ===== verification/Messages.thy ===== *)
theory Messages
  imports Cbb_Codec Bio_Mem Bio_Pair
begin

unbundle bit_operations_syntax

text \<open>
  Components together: a value is built with \<open>CBB\<close>, sent through a \<open>BIO\<close> pair with \<open>BIO_write_all\<close>, framed on the
  other side by \<open>BIO_read_asn1\<close> and parsed with \<open>CBS\<close>.
\<close>

lemma asn1_of_integer:
  assumes "length c < 128" "length (der_element CBS_ASN1_INTEGER c) \<le> max_len"
  shows "asn1_of max_len (der_element CBS_ASN1_INTEGER c @ r) = Some (der_element CBS_ASN1_INTEGER c, r)"
    "\<not> indefinite_start (der_element CBS_ASN1_INTEGER c @ r)"
proof -
  have tag: "asn1_tag_bytes CBS_ASN1_INTEGER = [2]"
    by (simp add: asn1_tag_bytes_def CBS_ASN1_INTEGER_def Let_def)
  have el: "der_element CBS_ASN1_INTEGER c = 2 # of_nat (length c) # c"
    using assms(1) by (simp add: der_element_def der_header_def der_len_def tag)
  have "length c < 4294967296"
    using assms(1) by simp
  then have "CBS_get_any_asn1_element (der_element CBS_ASN1_INTEGER c @ r) =
      (Some (der_element CBS_ASN1_INTEGER c, CBS_ASN1_INTEGER, length (der_header CBS_ASN1_INTEGER (length c))), r)"
    by (auto simp: CBS_get_any_asn1_element_iff)
  with assms show "asn1_of max_len (der_element CBS_ASN1_INTEGER c @ r) = Some (der_element CBS_ASN1_INTEGER c, r)"
    by (simp add: asn1_of_def el INT_MAX_def)
  have "(of_nat (length c) :: u8) \<noteq> 0x80"
    using assms(1) by (simp add: word_unat_eq_iff unat_of_nat)
  then show "\<not> indefinite_start (der_element CBS_ASN1_INTEGER c @ r)"
    by (simp add: indefinite_start_def el)
qed

text \<open>
  C11: a message crosses the layers unchanged.  An integer that a fresh builder encodes, sent over a pair that
  accepts it whole, is cut out of the stream by \<open>BIO_read_asn1\<close> on the other side, exactly as \<open>CBB_finish\<close>
  returned it, and parses to the same integer with nothing left in either place.
\<close>

theorem message_over_pair:
  assumes "paired b c w" "\<not> closed (pair_at b w)" "queued (pair_at b w) = []"
    and "CBB_init unlimited n = (True, s)" "n \<le> SIZE_MAX"
    and "CBB_add_asn1_uint64 0 u s = (True, s')" "CBB_finish 0 True s' = (Some x, s'')"
    and "BIO_write_all (pair_table al others) (Some b) x w = (True, w1)"
    and "length x \<le> max_len" "max_len \<le> SIZE_MAX"
  shows "CBS_get_asn1_uint64 x = (Some u, []) \<and>
    (\<exists>w2. BIO_read_asn1 (pair_table al others) unlimited (Some c) max_len w1 = Some (Inr x, w2) \<and>
          queued (pair_at b w2) = [])"
proof -
  define e where "e = der_element CBS_ASN1_INTEGER (der_int (int (unat u)))"
  note at = CBB_init_at [OF assms(4,5)]
  have x: "x = e"
    using cbb_uint64.add_finish [OF assms(6)] at assms(7) by (simp add: e_def)
  have "length (der_int (int (unat u))) < 128"
    using length_der_u64 [of u] by simp
  note frame = asn1_of_integer [OF this, of max_len "[]"]
  have sent: "paired b c w1" "queued (pair_at b w1) = e" "closed (pair_at b w1) = closed (pair_at b w)"
    using pair_sink.write_all_prefix [OF _ assms(8), of c "closed (pair_at b w)" "pair_at c w"] assms(1,3)
    by (auto simp: x)
  have inv: "paired c b w1 \<and> closed (pair_at b w1) = False"
    using sent paired_sym assms(2) by simp
  have "CBS_get_asn1_uint64 x = (Some u, [])"
    using asn1_uint64.dec_enc_exact [of u] by (simp add: x e_def)
  moreover obtain res w2 where "BIO_read_asn1 (pair_table al others) unlimited (Some c) max_len w1 = Some (res, w2)"
    "res = Inr e" "queued (pair_at b w2) = []"
    using pair_open.read_asn1_exact [OF inv assms(10), where al = al and others = others] frame assms(9) sent(2)
    by (simp add: x e_def) blast
  ultimately show ?thesis by (auto simp: x)
qed

lemma uint64_builds:
  assumes "CBB_init unlimited n = (True, s)" "n \<le> SIZE_MAX"
  shows "\<exists>s'. CBB_add_asn1_uint64 0 u s = (True, s')"
proof -
  have "cbb_roomy (length (der_element CBS_ASN1_INTEGER (der_int (int (unat u)))) + 4) s"
    using CBB_init_at [OF assms] length_der_u64 [of u] length_asn1_tag_bytes [of CBS_ASN1_INTEGER]
    by (simp add: cbb_roomy_def der_element_def der_header_def length_der_len SIZE_MAX_def)
  then show ?thesis
    using put_all_element_roomy [of 0 s CBS_ASN1_INTEGER "der_int (int (unat u))"] CBB_init_at [OF assms] length_der_u64 [of u]
    by (auto simp: CBB_add_asn1_uint64_eq strip_zeros_u64)
qed

lemma message_over_pair_witness:
  "\<exists>x w1 w2. BIO_write_all (pair_table unlimited no_other_pairs) (Some 1) x demo_pair = (True, w1) \<and>
     BIO_read_asn1 (pair_table unlimited no_other_pairs) unlimited (Some 0) 100 w1 = Some (Inr x, w2) \<and>
     CBS_get_asn1_uint64 x = (Some 5, [])"
proof -
  let ?mt = "pair_table unlimited no_other_pairs"
  let ?x = "[2, 1, 5] :: bytes"
  obtain s where init: "CBB_init unlimited 0 = (True, s)"
    by (simp add: CBB_init_def cbb_init_def)
  note at = CBB_init_at [OF init]
  obtain s' where s': "CBB_add_asn1_uint64 0 5 s = (True, s')"
    using uint64_builds [OF init, of 5] by auto
  have "der_element CBS_ASN1_INTEGER (der_int (int (unat (5 :: u64)))) = ?x"
    by (simp add: der_element_def der_header_def asn1_tag_bytes_def CBS_ASN1_INTEGER_def der_len_def der_int.simps Let_def)
  then have fin: "CBB_finish 0 True s' = (Some ?x, CBB_cleanup s')"
    using cbb_uint64.add_finish [OF s'] at by simp
  have pair: "paired 1 0 demo_pair" "pair_size (pair_at 1 demo_pair) = 8" "\<not> closed (pair_at 1 demo_pair)"
    "queued (pair_at 1 demo_pair) = []" "pair_len (pair_at 1 demo_pair) = 0"
    using demo_paired length_queued [of "pair_at 1 demo_pair"] by (auto simp: paired_sym paired_def half_ok_def)
  obtain r w1 where wr: "BIO_write ?mt (Some 1) (Some ?x) 3 demo_pair = (r, w1)"
    by (cases "BIO_write ?mt (Some 1) (Some ?x) 3 demo_pair")
  have "r = 3"
    using pair_BIO_write [OF pair(1) _ _ _ wr] pair by simp
  then have all: "BIO_write_all ?mt (Some 1) ?x demo_pair = (True, w1)"
    using wr by (simp add: BIO_write_all.simps INT_MAX_def)
  have "length ?x \<le> 100" "(100 :: nat) \<le> SIZE_MAX"
    by (simp_all add: SIZE_MAX_def)
  from message_over_pair [OF pair(1,3,4) init _ s' fin all this] all show ?thesis
    by auto
qed

end
