(* ===== verification/Pb_Stream.thy ===== *)
theory Pb_Stream
  imports Prelude
begin

text \<open>
  The streams of nanopb (\<open>pb_istream_t\<close> and \<open>pb_ostream_t\<close> of \<open>pb_decode.c\<close>, \<open>pb_encode.c\<close>).  A stream has a
  callback and a state that only the callback interprets; the functions here count the bytes and keep the first
  error message.  The callback is the first argument of each function, so a substream (a copy of the
  \<open>struct\<close>) shares it.  A callback of the user obeys the rules of the headers: it delivers or stores as many bytes
  as asked and changes its own state, or fails, on input possibly with \<open>bytes_left\<close> set to 0 for the
  end of the file.
\<close>

section \<open>Input streams\<close>

datatype 't read_result = Read_ok bytes 't | Read_error 't | Read_eof 't

text \<open>\<open>is_buf_read\<close> is the comparison of the callback with \<open>buf_read\<close>.\<close>

record 't pb_reader =
  is_buf_read :: bool
  read_callback :: "'t \<Rightarrow> nat \<Rightarrow> 't read_result"

record 't pb_istream =
  in_state :: 't
  bytes_left :: nat
  in_errmsg :: "string option"

text \<open>\<open>PB_RETURN_ERROR\<close>: the first message stays.\<close>

definition in_error :: "string \<Rightarrow> 't pb_istream \<Rightarrow> 't pb_istream" where
  "in_error msg s = s\<lparr>in_errmsg := (case in_errmsg s of None \<Rightarrow> Some msg | Some m \<Rightarrow> Some m)\<rparr>"

text \<open>The state of a buffer stream is the memory from the read position on.\<close>

definition buf_read :: "bytes \<Rightarrow> nat \<Rightarrow> bytes read_result" where
  "buf_read source count = Read_ok (take count source) (drop count source)"

definition buf_reader :: "bytes pb_reader" where
  "buf_reader = \<lparr>is_buf_read = True, read_callback = buf_read\<rparr>"

definition pb_istream_from_buffer :: "bytes \<Rightarrow> nat \<Rightarrow> bytes pb_istream" where
  "pb_istream_from_buffer buf bufsize = \<lparr>in_state = buf, bytes_left = bufsize, in_errmsg = None\<rparr>"

definition read_some :: "'t pb_reader \<Rightarrow> 't pb_istream \<Rightarrow> nat \<Rightarrow> bytes option \<times> 't pb_istream" where
  "read_some cb s count =
     (if bytes_left s < count then (None, in_error ''end-of-stream'' s)
      else case read_callback cb (in_state s) count of
        Read_ok bs t \<Rightarrow> (Some bs, s\<lparr>in_state := t, bytes_left := bytes_left s - count\<rparr>)
      | Read_error t \<Rightarrow> (None, in_error ''io error'' (s\<lparr>in_state := t\<rparr>))
      | Read_eof t \<Rightarrow> (None, in_error ''io error'' (s\<lparr>in_state := t, bytes_left := 0\<rparr>)))"

text \<open>Skipping through a buffer of 16 bytes.\<close>

fun skip_input :: "'t pb_reader \<Rightarrow> 't pb_istream \<Rightarrow> nat \<Rightarrow> bytes option \<times> 't pb_istream" where
  "skip_input cb s count =
     (if count > 16 then
        (case read_some cb s 16 of
           (None, s1) \<Rightarrow> (None, s1)
         | (Some _, s1) \<Rightarrow> skip_input cb s1 (count - 16))
      else read_some cb s count)"

declare skip_input.simps [simp del]

text \<open>\<open>buf_null\<close> says that the destination is \<open>NULL\<close>; the bytes are only looked at when it is not.\<close>

definition pb_read :: "'t pb_reader \<Rightarrow> 't pb_istream \<Rightarrow> bool \<Rightarrow> nat \<Rightarrow> bytes option \<times> 't pb_istream" where
  "pb_read cb s buf_null count =
     (if count = 0 then (Some [], s)
      else if buf_null \<and> \<not> is_buf_read cb then skip_input cb s count
      else read_some cb s count)"

definition pb_readbyte :: "'t pb_reader \<Rightarrow> 't pb_istream \<Rightarrow> u8 option \<times> 't pb_istream" where
  "pb_readbyte cb s =
     (if bytes_left s = 0 then (None, in_error ''end-of-stream'' s)
      else case read_callback cb (in_state s) 1 of
        Read_ok bs t \<Rightarrow> (Some (hd bs), s\<lparr>in_state := t, bytes_left := bytes_left s - 1\<rparr>)
      | Read_error t \<Rightarrow> (None, in_error ''io error'' (s\<lparr>in_state := t\<rparr>))
      | Read_eof t \<Rightarrow> (None, in_error ''io error'' (s\<lparr>in_state := t, bytes_left := 0\<rparr>)))"

section \<open>Output streams\<close>

text \<open>A callback that is \<open>None\<close> is \<open>NULL\<close>: a stream that only counts.\<close>

type_synonym 't pb_writer = "('t \<Rightarrow> bytes \<Rightarrow> bool \<times> 't) option"

record 't pb_ostream =
  out_state :: 't
  max_size :: nat
  bytes_written :: nat
  out_errmsg :: "string option"

definition out_error :: "string \<Rightarrow> 't pb_ostream \<Rightarrow> 't pb_ostream" where
  "out_error msg s = s\<lparr>out_errmsg := (case out_errmsg s of None \<Rightarrow> Some msg | Some m \<Rightarrow> Some m)\<rparr>"

text \<open>The state of a buffer stream is the memory up to the write position.\<close>

definition buf_write :: "bytes \<Rightarrow> bytes \<Rightarrow> bool \<times> bytes" where
  "buf_write dest buf = (True, dest @ buf)"

definition buf_writer :: "bytes pb_writer" where
  "buf_writer = Some buf_write"

definition pb_ostream_from_buffer :: "nat \<Rightarrow> bytes pb_ostream" where
  "pb_ostream_from_buffer bufsize =
     \<lparr>out_state = [], max_size = bufsize, bytes_written = 0, out_errmsg = None\<rparr>"

definition PB_OSTREAM_SIZING :: "'t \<Rightarrow> 't pb_ostream" where
  "PB_OSTREAM_SIZING t = \<lparr>out_state = t, max_size = 0, bytes_written = 0, out_errmsg = None\<rparr>"

text \<open>The buffer is \<open>NULL\<close> (here empty) when a stream that only counts is told a size.\<close>

definition pb_write :: "'t pb_writer \<Rightarrow> 't pb_ostream \<Rightarrow> bytes \<Rightarrow> nat \<Rightarrow> bool \<times> 't pb_ostream" where
  "pb_write cb s buf count =
     (let total = size_add (bytes_written s) count
      in case cb of
        None \<Rightarrow> (True, s\<lparr>bytes_written := total\<rparr>)
      | Some callback \<Rightarrow>
          if count = 0 then (True, s\<lparr>bytes_written := total\<rparr>)
          else if total < bytes_written s \<or> total > max_size s then (False, out_error ''stream full'' s)
          else (case callback (out_state s) (take count buf) of
              (False, t) \<Rightarrow> (False, out_error ''io error'' (s\<lparr>out_state := t\<rparr>))
            | (True, t) \<Rightarrow> (True, s\<lparr>out_state := t, bytes_written := total\<rparr>)))"

section \<open>What the callbacks promise\<close>

text \<open>
  A source: \<open>avail\<close> is what can be read from a state, \<open>advance\<close> the state after reading.  The readers of \<open>Pb_Wire\<close>
  rely on nothing else.
\<close>

locale pb_source =
  fixes cb :: "'t pb_reader" and avail :: "'t \<Rightarrow> bytes" and advance :: "nat \<Rightarrow> 't \<Rightarrow> 't"
  assumes read_ok: "n \<le> length (avail t) \<Longrightarrow> read_callback cb t n = Read_ok (take n (avail t)) (advance n t)"
    and avail_advance: "n \<le> length (avail t) \<Longrightarrow> avail (advance n t) = drop n (avail t)"
    and advance_advance: "advance m (advance n t) = advance (n + m) t"
    and advance_0: "advance 0 t = t"
begin

definition content :: "'t pb_istream \<Rightarrow> bytes" where
  "content s = take (bytes_left s) (avail (in_state s))"

definition covered :: "'t pb_istream \<Rightarrow> bool" where
  "covered s \<longleftrightarrow> bytes_left s \<le> length (avail (in_state s))"

definition adv :: "nat \<Rightarrow> 't pb_istream \<Rightarrow> 't pb_istream" where
  "adv n s = s\<lparr>in_state := advance n (in_state s), bytes_left := bytes_left s - n\<rparr>"

lemma length_content: "covered s \<Longrightarrow> length (content s) = bytes_left s"
  by (simp add: content_def covered_def)

lemma adv_0 [simp]: "adv 0 s = s"
  by (simp add: adv_def advance_0)

lemma adv_adv [simp]: "adv m (adv n s) = adv (n + m) s"
  by (simp add: adv_def advance_advance)

lemma adv_sel [simp]:
  "bytes_left (adv n s) = bytes_left s - n" "in_errmsg (adv n s) = in_errmsg s"
  "in_state (adv n s) = advance n (in_state s)"
  by (simp_all add: adv_def)

lemma covered_adv: "covered s \<Longrightarrow> n \<le> bytes_left s \<Longrightarrow> covered (adv n s)"
  by (simp add: covered_def avail_advance)

lemma content_adv: "covered s \<Longrightarrow> n \<le> bytes_left s \<Longrightarrow> content (adv n s) = drop n (content s)"
  by (simp add: content_def covered_def avail_advance drop_take)

lemma content_after:
  assumes "covered s" and "content s = bs @ r"
  shows "covered (adv (length bs) s)" "content (adv (length bs) s) = r"
proof -
  have n: "length bs \<le> bytes_left s"
    using assms length_content by fastforce
  show "covered (adv (length bs) s)" by (rule covered_adv [OF assms(1) n])
  show "content (adv (length bs) s) = r"
    using content_adv [OF assms(1) n] assms(2) by simp
qed

lemma in_error_sel [simp]:
  "bytes_left (in_error m s) = bytes_left s" "in_state (in_error m s) = in_state s"
  by (simp_all add: in_error_def)

lemma readbyte_empty: "covered s \<Longrightarrow> content s = [] \<Longrightarrow> pb_readbyte cb s = (None, in_error ''end-of-stream'' s)"
  using length_content [of s] by (simp add: pb_readbyte_def)

lemma readbyte_Cons:
  assumes "covered s" and "content s = b # r"
  shows "pb_readbyte cb s = (Some b, adv 1 s)"
proof -
  have l: "0 < bytes_left s" using length_content [OF assms(1)] assms(2) by simp
  then have a: "1 \<le> length (avail (in_state s))" using assms(1) by (simp add: covered_def)
  have "hd (avail (in_state s)) = b"
    using assms(2) l by (cases "avail (in_state s)") (auto simp: content_def take_Cons split: nat.splits)
  with a have "take 1 (avail (in_state s)) = [b]"
    by (cases "avail (in_state s)") auto
  with l show ?thesis
    by (simp only: pb_readbyte_def read_ok [OF a]) (simp add: adv_def)
qed

lemma read_some_ok:
  assumes "covered s" and "n \<le> bytes_left s"
  shows "read_some cb s n = (Some (take n (content s)), adv n s)"
proof -
  have a: "n \<le> length (avail (in_state s))" using assms by (simp add: covered_def)
  show ?thesis
    using assms(2) by (simp add: read_some_def read_ok [OF a] adv_def content_def)
qed

lemma skip_input_ok:
  "covered s \<Longrightarrow> n \<le> bytes_left s \<Longrightarrow> \<exists>bs. skip_input cb s n = (Some bs, adv n s)"
proof (induction n arbitrary: s rule: less_induct)
  case (less n)
  show ?case
  proof (cases "n > 16")
    case True
    then have "covered (adv 16 s)" "n - 16 \<le> bytes_left (adv 16 s)"
      using less.prems by (simp_all add: covered_adv)
    from less.IH [OF _ this] True obtain bs where "skip_input cb (adv 16 s) (n - 16) = (Some bs, adv n s)"
      by auto
    then show ?thesis
      using True less.prems by (simp add: skip_input.simps [of cb s n] read_some_ok)
  next
    case False
    then show ?thesis
      using less.prems by (simp add: skip_input.simps [of cb s n] read_some_ok)
  qed
qed

lemma read_ok_bytes:
  assumes "covered s" and "n \<le> bytes_left s"
  shows "pb_read cb s False n = (Some (take n (content s)), adv n s)"
  using assms by (simp add: pb_read_def read_some_ok)

lemma read_skip:
  assumes "covered s" and "n \<le> bytes_left s"
  shows "\<exists>bs. pb_read cb s True n = (Some bs, adv n s)"
  using assms read_some_ok [OF assms] skip_input_ok [OF assms] by (simp add: pb_read_def)

lemma skip_input_short:
  "covered s \<Longrightarrow> bytes_left s < n \<Longrightarrow> \<exists>k \<le> bytes_left s. skip_input cb s n = (None, in_error ''end-of-stream'' (adv k s))"
proof (induction n arbitrary: s rule: less_induct)
  case (less n)
  show ?case
  proof (cases "n > 16 \<and> 16 \<le> bytes_left s")
    case True
    then have "covered (adv 16 s)" "bytes_left (adv 16 s) < n - 16"
      using less.prems diff_less_mono [of "bytes_left s" n 16] by (simp_all add: covered_adv)
    from less.IH [OF _ this] True obtain k where
      k: "k \<le> bytes_left s - 16" "skip_input cb (adv 16 s) (n - 16) = (None, in_error ''end-of-stream'' (adv (16 + k) s))"
      by auto
    then show ?thesis
      using True less.prems add_le_mono1 [OF k(1), of 16]
      by (intro exI [of _ "16 + k"] conjI, linarith) (simp add: skip_input.simps [of cb s n] read_some_ok)
  next
    case False
    then have "skip_input cb s n = (None, in_error ''end-of-stream'' s)"
      using less.prems by (auto simp: skip_input.simps [of cb s n] read_some_def)
    then show ?thesis by (intro exI [of _ 0]) simp
  qed
qed

lemma read_short:
  assumes "covered s" and "bytes_left s < n"
  shows "\<exists>k \<le> bytes_left s. pb_read cb s bn n = (None, in_error ''end-of-stream'' (adv k s))"
proof (cases "bn \<and> \<not> is_buf_read cb")
  case True
  then show ?thesis using skip_input_short [OF assms] assms(2) by (simp add: pb_read_def)
next
  case False
  then have "pb_read cb s bn n = (None, in_error ''end-of-stream'' (adv 0 s))"
    using assms(2) by (auto simp: pb_read_def read_some_def)
  then show ?thesis by blast
qed

end

interpretation buffer: pb_source buf_reader "\<lambda>t. t" drop
  by unfold_locales (auto simp: buf_reader_def buf_read_def add.commute)

section \<open>Writing to a sink\<close>

text \<open>\<open>s'\<close> is \<open>s\<close> after \<open>data\<close> has been written: what a stream without a limit or with enough room does.\<close>

locale pb_sink =
  fixes store :: "'t \<Rightarrow> bytes \<Rightarrow> bool \<times> 't" and stored :: "'t \<Rightarrow> bytes \<Rightarrow> 't"
  assumes store_ok: "store t bs = (True, stored t bs)"
    and stored_append: "stored (stored t xs) ys = stored t (xs @ ys)"
    and stored_Nil: "stored t [] = t"
begin

definition wrote :: "bytes \<Rightarrow> 't pb_ostream \<Rightarrow> 't pb_ostream" where
  "wrote data s = s\<lparr>out_state := stored (out_state s) data, bytes_written := bytes_written s + length data\<rparr>"

lemma wrote_Nil [simp]: "wrote [] s = s"
  by (simp add: wrote_def stored_Nil)

lemma wrote_wrote [simp]: "wrote ys (wrote xs s) = wrote (xs @ ys) s"
  by (simp add: wrote_def stored_append)

lemma wrote_sel [simp]:
  "bytes_written (wrote data s) = bytes_written s + length data" "max_size (wrote data s) = max_size s"
  "out_errmsg (wrote data s) = out_errmsg s"
  by (simp_all add: wrote_def)

text \<open>A write succeeds exactly when the bytes fit the limit.\<close>

lemma write_exact:
  assumes "max_size s \<le> SIZE_MAX" and "bytes_written s \<le> max_size s" and "length data \<le> SIZE_MAX"
  shows "pb_write (Some store) s data (length data) =
    (if bytes_written s + length data \<le> max_size s then (True, wrote data s)
     else (False, out_error ''stream full'' s))"
proof (cases "data = []")
  case True
  then show ?thesis using assms by (simp add: pb_write_def)
next
  case False
  then have pos: "length data \<noteq> 0" by simp
  show ?thesis
  proof (cases "bytes_written s + length data \<le> SIZE_MAX")
    case True
    then have "\<not> size_add (bytes_written s) (length data) < bytes_written s" by simp
    with True pos show ?thesis
      using assms by (auto simp: pb_write_def Let_def store_ok wrote_def)
  next
    case wrap: False
    then have "size_add (bytes_written s) (length data) < bytes_written s"
      using assms by (subst size_add_wrap_iff) auto
    with wrap pos show ?thesis
      using assms by (simp add: pb_write_def Let_def)
  qed
qed

end

interpretation buffer_sink: pb_sink buf_write "\<lambda>t bs. t @ bs"
  by unfold_locales (simp_all add: buf_write_def)

text \<open>A stream that only counts.\<close>

definition counted :: "nat \<Rightarrow> 't pb_ostream \<Rightarrow> 't pb_ostream" where
  "counted n s = s\<lparr>bytes_written := size_add (bytes_written s) n\<rparr>"

lemma write_counts: "pb_write None s data n = (True, counted n s)"
  by (simp add: pb_write_def counted_def Let_def)

end
