(* ===== verification/Varint.thy ===== *)
theory Varint
  imports Prelude
begin

text \<open>
  Base-128 integers, least significant group first: the variable-length integers of protocol buffers and of
  LevelDB, as a specification.  Every byte but the last has its high bit set; \<open>varint\<close> is the shortest such string,
  the readers also accept longer ones.
\<close>

fun varint :: "nat \<Rightarrow> bytes" where
  "varint n = (if n < 128 then [of_nat n] else of_nat (n mod 128 + 128) # varint (n div 128))"

declare varint.simps [simp del]

text \<open>Cutting the bytes of one integer off a string.\<close>

fun varint_group :: "bytes \<Rightarrow> (bytes \<times> bytes) option" where
  "varint_group [] = None"
| "varint_group (b # r) =
     (if unat b < 128 then Some ([b], r)
      else case varint_group r of None \<Rightarrow> None | Some (g, r') \<Rightarrow> Some (b # g, r'))"

fun group_val :: "bytes \<Rightarrow> nat" where
  "group_val [] = 0"
| "group_val (b # g) = unat b mod 128 + 128 * group_val g"

lemma varint_nonempty [simp]: "varint n \<noteq> []"
  by (subst varint.simps) simp

lemma varint_small: "n < 128 \<Longrightarrow> varint n = [of_nat n]"
  by (subst varint.simps) simp

lemma varint_large: "128 \<le> n \<Longrightarrow> varint n = of_nat (n mod 128 + 128) # varint (n div 128)"
  by (subst varint.simps) simp

lemma group_varint: "varint_group (varint n @ r) = Some (varint n, r)"
proof (induction n rule: less_induct)
  case (less n)
  show ?case
  proof (cases "n < 128")
    case True
    then show ?thesis by (simp add: varint_small unat_of_nat)
  next
    case False
    have "(n mod 128 + 128) mod 256 = n mod 128 + 128" by simp
    then have "\<not> unat (of_nat (n mod 128 + 128) :: u8) < 128" by (simp only: unat_of_nat) simp
    then show ?thesis
      using False less.IH [of "n div 128"] by (simp add: varint_large del: of_nat_add)
  qed
qed

lemma group_val_varint: "group_val (varint n) = n"
proof (induction n rule: less_induct)
  case (less n)
  show ?case
  proof (cases "n < 128")
    case True
    then show ?thesis by (simp add: varint_small unat_of_nat)
  next
    case False
    have "(n mod 128 + 128) mod 256 = n mod 128 + 128" by simp
    then have "unat (of_nat (n mod 128 + 128) :: u8) mod 128 = n mod 128" by (simp only: unat_of_nat) simp
    then show ?thesis
      using False less.IH [of "n div 128"] by (simp add: varint_large del: of_nat_add)
  qed
qed

lemma length_varint_le: "n < 128 ^ Suc k \<Longrightarrow> length (varint n) \<le> Suc k"
proof (induction k arbitrary: n)
  case 0
  then show ?case by (simp add: varint_small)
next
  case (Suc k)
  then have "n div 128 < 128 ^ Suc k"
    by (simp add: less_mult_imp_div_less)
  from Suc.IH [OF this] show ?case
    by (cases "n < 128") (simp_all add: varint_small varint_large)
qed

lemma length_varint_64: "length (varint (unat (v :: u64))) \<le> 10"
proof -
  have "unat v < 2 ^ 64" using unsigned_less [of v] by simp
  also have "(2 :: nat) ^ 64 < 128 ^ Suc 9" by simp
  finally show ?thesis using length_varint_le [of "unat v" 9] by simp
qed

lemma length_varint_32: "length (varint (unat (v :: u32))) \<le> 5"
proof -
  have "unat v < 2 ^ 32" using unsigned_less [of v] by simp
  also have "(2 :: nat) ^ 32 < 128 ^ Suc 4" by simp
  finally show ?thesis using length_varint_le [of "unat v" 4] by simp
qed

lemma group_SomeD: "varint_group bs = Some (g, r) \<Longrightarrow> bs = g @ r \<and> g \<noteq> []"
  by (induction bs arbitrary: g r) (auto split: if_splits option.splits)

lemma group_shape:
  "varint_group bs = Some (g, r) \<Longrightarrow> unat (last g) < 128 \<and> (\<forall>b \<in> set (butlast g). 128 \<le> unat b)"
  by (induction bs arbitrary: g r) (auto split: if_splits option.splits dest: group_SomeD)

lemma group_NoneD: "varint_group bs = None \<Longrightarrow> \<forall>b \<in> set bs. 128 \<le> unat b"
  by (induction bs) (auto split: if_splits option.splits)

lemma group_append:
  "varint_group (g @ r) = Some (g, r) \<longleftrightarrow> g \<noteq> [] \<and> unat (last g) < 128 \<and> (\<forall>b \<in> set (butlast g). 128 \<le> unat b)"
  by (induction g) (auto split: option.splits dest: group_SomeD)

lemma group_val_less: "group_val g < 128 ^ length g"
proof (induction g)
  case Nil
  then show ?case by simp
next
  case (Cons b g)
  have "unat b mod 128 + 128 * group_val g < 128 + 128 * group_val g" by simp
  also have "\<dots> = 128 * (group_val g + 1)" by simp
  also have "\<dots> \<le> 128 * 128 ^ length g" using Cons.IH by (intro mult_le_mono2) simp
  finally show ?case by simp
qed

text \<open>The shortest string is the only one without a zero group at its end.\<close>

lemma varint_canonical:
  assumes "varint_group bs = Some (g, r)" and "length g = 1 \<or> last g \<noteq> 0"
  shows "g = varint (group_val g)"
  using assms
proof (induction bs arbitrary: g r)
  case Nil
  then show ?case by simp
next
  case (Cons b bs)
  show ?case
  proof (cases "unat b < 128")
    case True
    then show ?thesis using Cons.prems(1) by (auto simp: varint_small)
  next
    case False
    then obtain g' r' where g': "varint_group bs = Some (g', r')" and g: "g = b # g'"
      using Cons.prems(1) by (auto split: option.splits)
    have ne: "g' \<noteq> []" using group_SomeD [OF g'] by simp
    with Cons.prems(2) g have l: "last g' \<noteq> 0" by auto
    then have IH: "g' = varint (group_val g')" using Cons.IH [OF g'] by simp
    have pos: "0 < group_val g'"
    proof (rule ccontr)
      assume "\<not> 0 < group_val g'"
      then have "g' = [0]" using IH by (simp add: varint_small)
      then show False using l by simp
    qed
    have b: "of_nat (unat b mod 128 + 128) = b"
    proof -
      have "unat b mod 128 + 128 = unat b"
        using False mod_128_high [of "unat b"] unat_u8_less [of b] by simp
      then show ?thesis by (metis of_nat_unat ucast_id)
    qed
    have "varint (group_val g) = of_nat (group_val g mod 128 + 128) # varint (group_val g div 128)"
      using pos g by (intro varint_large) simp
    then show ?thesis
      using IH b g by (simp del: of_nat_add)
  qed
qed

section \<open>The words of the loops\<close>

lemma or_group:
  assumes "v < 2 ^ k" and "k < LENGTH('a)" "8 \<le> LENGTH('a)"
  shows "(of_nat v :: 'a::len word) OR push_bit k (ucast (b AND 0x7f)) = of_nat (v + 2 ^ k * (unat (b :: u8) mod 128))"
proof -
  have v: "v < 2 ^ LENGTH('a)"
    by (rule less_trans [OF assms(1)]) (simp add: assms(2))
  then have "unat (of_nat v :: 'a word) < 2 ^ k"
    using assms(1) by (simp add: unat_of_nat)
  then have "push_bit k (ucast (b AND 0x7f)) OR (of_nat v :: 'a word) = push_bit k (ucast (b AND 0x7f)) + of_nat v"
    by (rule push_bit_or_plus)
  moreover have "(ucast (b AND 0x7f) :: 'a word) = of_nat (unat b mod 128)"
  proof -
    have "(2 :: nat) ^ 8 \<le> 2 ^ LENGTH('a)"
      using assms(3) by (intro power_increasing) simp_all
    then have "unat b mod 128 < 2 ^ LENGTH('a)"
      by (rule order_less_le_trans [rotated]) (simp add: order_less_trans [OF mod_less_divisor])
    then show ?thesis
      using assms(3)
      by (intro word_of_nat_eqI [THEN sym, THEN sym]) (simp add: unat_ucast_up unat_and_0x7f)
  qed
  ultimately show ?thesis
    by (simp add: or.commute push_bit_eq_mult algebra_simps)
qed

text \<open>The digits of an integer as an encoder produces them.\<close>

lemma ucast_low7_high:
  "ucast ((v :: u64) AND 0x7f OR 0x80) = (of_nat (unat v mod 128 + 128) :: u8)"
proof -
  have a: "v AND 0x7f = of_nat (unat v mod 128)"
  proof -
    have "v AND 0x7f = take_bit 7 v" by (simp add: take_bit_eq_mask mask_eq_exp_minus_1)
    then have "unat (v AND 0x7f) = unat v mod 128"
      by (simp only: unsigned_take_bit_eq) (simp add: take_bit_eq_mod)
    then show ?thesis by (rule word_of_nat_eqI)
  qed
  have "ucast (v AND 0x7f OR 0x80) = (ucast (v AND 0x7f) :: u8) OR 0x80"
    by (rule bit_word_eqI) (auto simp: bit_simps)
  moreover have "(ucast (v AND 0x7f) :: u8) = of_nat (unat v mod 128)"
  proof (rule word_of_nat_eqI)
    have "unat v mod 128 < 18446744073709551616" "unat v mod 128 < 256"
      by (rule order_less_trans [OF mod_less_divisor]; simp)+
    then show "unat (ucast (v AND 0x7f) :: u8) = unat v mod 128"
      by (simp add: a unat_ucast_down unat_of_nat)
  qed
  ultimately show ?thesis by (simp add: or_0x80 del: of_nat_add)
qed

section \<open>Little-endian integers\<close>

definition le_bytes :: "nat \<Rightarrow> nat \<Rightarrow> bytes" where
  "le_bytes n v = rev (be_bytes n v)"

definition le_val :: "bytes \<Rightarrow> nat" where
  "le_val bs = be_val (rev bs)"

lemma length_le_bytes [simp]: "length (le_bytes n v) = n"
  by (simp add: le_bytes_def)

lemma le_val_le_bytes: "v < 256 ^ n \<Longrightarrow> le_val (le_bytes n v) = v"
  by (simp add: le_val_def le_bytes_def be_val_be_bytes)

lemma le_bytes_le_val: "le_bytes (length bs) (le_val bs) = bs"
  using be_bytes_be_val [of "rev bs"] by (simp add: le_val_def le_bytes_def)

lemma le_val_Cons: "le_val (b # bs) = unat b + 256 * le_val bs"
  by (simp add: le_val_def)

lemma le_val_Nil [simp]: "le_val [] = 0"
  by (simp add: le_val_def)

lemma le_bytes_Suc: "le_bytes (Suc n) v = of_nat (v mod 256) # le_bytes n (v div 256)"
  by (simp add: le_bytes_def)

lemma le_bytes_0 [simp]: "le_bytes 0 v = []"
  by (simp add: le_bytes_def)

text \<open>A byte that is shifted into place.\<close>

lemma or_byte:
  assumes "v < 2 ^ k" and "k < LENGTH('a)" "8 \<le> LENGTH('a)"
  shows "(of_nat v :: 'a::len word) OR push_bit k (ucast (b :: u8)) = of_nat (v + 2 ^ k * unat b)"
proof -
  have v: "v < 2 ^ LENGTH('a)"
    by (rule less_trans [OF assms(1)]) (simp add: assms(2))
  then have "unat (of_nat v :: 'a word) < 2 ^ k"
    using assms(1) by (simp add: unat_of_nat)
  then have "push_bit k (ucast b) OR (of_nat v :: 'a word) = push_bit k (ucast b) + of_nat v"
    by (rule push_bit_or_plus)
  moreover have "(ucast b :: 'a word) = of_nat (unat b)" by simp
  ultimately show ?thesis
    by (simp add: or.commute push_bit_eq_mult algebra_simps del: of_nat_unat)
qed

lemma or_le_val:
  assumes "v < 2 ^ k" and "k < LENGTH('a)" "8 \<le> LENGTH('a)"
  shows "(of_nat v :: 'a::len word) OR (push_bit k (ucast (b :: u8)) OR w) = of_nat (v + 2 ^ k * unat b) OR w"
  by (simp only: or.assoc [symmetric] or_byte [OF assms])

lemma ucast_of_nat_start: "(ucast (b :: u8) :: 'a::len word) OR w = of_nat (0 + unat b) OR w"
  by simp

lemma le_val_less: "le_val bs < 256 ^ length bs"
  using be_val_less [of "rev bs"] by (simp add: le_val_def)

text \<open>A byte of a word.\<close>

lemma ucast_and_0xff:
  "ucast (w AND 0xff) = (of_nat (unat w mod 256) :: u8)" for w :: "'a::len word"
proof -
  have "ucast (w AND 0xff) = (ucast w :: u8)"
  proof (rule bit_word_eqI)
    fix n
    assume "n < LENGTH(8)"
    then have "n \<in> {0, 1, 2, 3, 4, 5, 6, 7}" by auto
    then show "bit (ucast (w AND 0xff) :: u8) n = bit (ucast w :: u8) n"
      by (auto simp: bit_simps dest: bit_imp_le_length)
  qed
  also have "\<dots> = of_nat (unat w mod 256)" by (rule word_of_nat_eqI) (simp add: unat_ucast_down)
  finally show ?thesis .
qed

lemma le_bytes_4:
  "le_bytes 4 n = [of_nat (n mod 256), of_nat (n div 2 ^ 8 mod 256), of_nat (n div 2 ^ 16 mod 256), of_nat (n div 2 ^ 24 mod 256)]"
proof -
  have "4 = Suc (Suc (Suc (Suc 0)))" by simp
  then show ?thesis by (simp only: le_bytes_Suc le_bytes_0) (simp add: div_mult2_eq [symmetric])
qed

lemma le_bytes_8:
  "le_bytes 8 n = [of_nat (n mod 256), of_nat (n div 2 ^ 8 mod 256), of_nat (n div 2 ^ 16 mod 256), of_nat (n div 2 ^ 24 mod 256),
     of_nat (n div 2 ^ 32 mod 256), of_nat (n div 2 ^ 40 mod 256), of_nat (n div 2 ^ 48 mod 256), of_nat (n div 2 ^ 56 mod 256)]"
proof -
  have "8 = Suc (Suc (Suc (Suc (Suc (Suc (Suc (Suc 0)))))))" by simp
  then show ?thesis by (simp only: le_bytes_Suc le_bytes_0) (simp add: div_mult2_eq [symmetric])
qed

lemma le_val_snoc: "le_val (bs @ [b]) = le_val bs + 256 ^ length bs * unat b"
  by (induction bs) (simp_all add: le_val_Cons algebra_simps)

text \<open>Bytes or-ed together at their places, from the lowest.\<close>

fun or_bytes :: "nat \<Rightarrow> bytes \<Rightarrow> 'a::len word" where
  "or_bytes k [] = 0"
| "or_bytes k [b] = push_bit k (ucast b)"
| "or_bytes k (b # c # bs) = push_bit k (ucast b) OR or_bytes (k + 8) (c # bs)"

lemma or_bytes_val:
  assumes "v < 2 ^ k" and "k + 8 * length bs \<le> LENGTH('a)" and "bs \<noteq> []"
  shows "(of_nat v :: 'a::len word) OR or_bytes k bs = of_nat (v + 2 ^ k * le_val bs)"
  using assms
proof (induction k bs arbitrary: v rule: or_bytes.induct)
  case (1 k)
  then show ?case by simp
next
  case (2 k b)
  then show ?case by (simp add: or_byte le_val_Cons del: of_nat_add of_nat_mult)
next
  case (3 k b c bs)
  have "v + 2 ^ k * unat b < 2 ^ k * (1 + unat b)" using 3 by (simp add: algebra_simps)
  also have "\<dots> \<le> 2 ^ k * 256" using unat_u8_less [of b] by (intro mult_le_mono2) linarith
  finally have v: "v + 2 ^ k * unat b < 2 ^ (k + 8)" by (simp add: power_add)
  have "(of_nat v :: 'a word) OR or_bytes k (b # c # bs) = of_nat (v + 2 ^ k * unat b) OR or_bytes (k + 8) (c # bs)"
    using "3.prems" by (simp only: or_bytes.simps) (rule or_le_val, simp_all)
  also have "\<dots> = of_nat (v + 2 ^ k * unat b + 2 ^ (k + 8) * le_val (c # bs))"
    using "3.prems" by (intro "3.IH" [OF v]) simp_all
  also have "v + 2 ^ k * unat b + 2 ^ (k + 8) * le_val (c # bs) = v + 2 ^ k * le_val (b # c # bs)"
    by (simp add: le_val_Cons [of b] power_add algebra_simps)
  finally show ?case .
qed

lemma fixed32_value:
  "(ucast b0 OR push_bit 8 (ucast b1) OR push_bit 16 (ucast b2) OR push_bit 24 (ucast b3) :: u32) =
   of_nat (le_val [b0, b1, b2, b3])" for b0 b1 b2 b3 :: u8
  using or_bytes_val [of 0 0 "[b0, b1, b2, b3]", where 'a = 32] by (simp del: of_nat_unat)

lemma fixed64_value:
  "(ucast b0 OR push_bit 8 (ucast b1) OR push_bit 16 (ucast b2) OR push_bit 24 (ucast b3) OR push_bit 32 (ucast b4) OR
    push_bit 40 (ucast b5) OR push_bit 48 (ucast b6) OR push_bit 56 (ucast b7) :: u64) =
   of_nat (le_val [b0, b1, b2, b3, b4, b5, b6, b7])" for b0 b1 b2 b3 b4 b5 b6 b7 :: u8
  using or_bytes_val [of 0 0 "[b0, b1, b2, b3, b4, b5, b6, b7]", where 'a = 64] by (simp del: of_nat_unat)

section \<open>Readers and writers of groups\<close>

lemma ucast_and_127: "(ucast b :: 'a::len word) AND 127 = ucast (b AND 0x7f)" if "8 \<le> LENGTH('a)" for b :: u8
proof (rule bit_word_eqI)
  fix n
  assume "n < LENGTH('a)"
  show "bit ((ucast b :: 'a word) AND 127) n = bit (ucast (b AND 0x7f) :: 'a word) n"
  proof (cases "n < 8")
    case True
    then have "n \<in> {0, 1, 2, 3, 4, 5, 6, 7}" by auto
    then show ?thesis using that by (auto simp: bit_simps)
  next
    case False
    then show ?thesis by (auto simp: bit_simps dest: bit_imp_le_length)
  qed
qed

lemma ucast_and_128: "(ucast b :: 'a::len word) AND 128 = 0 \<longleftrightarrow> unat b < 128" if "8 \<le> LENGTH('a)" for b :: u8
proof -
  have "(ucast b :: 'a word) AND 128 = ucast (b AND 0x80)"
  proof (rule bit_word_eqI)
    fix n
    assume "n < LENGTH('a)"
    show "bit ((ucast b :: 'a word) AND 128) n = bit (ucast (b AND 0x80) :: 'a word) n"
    proof (cases "n < 8")
      case True
      then have "n \<in> {0, 1, 2, 3, 4, 5, 6, 7}" by auto
      then show ?thesis using that by (auto simp: bit_simps)
    next
      case False
      then show ?thesis by (auto simp: bit_simps dest: bit_imp_le_length)
    qed
  qed
  moreover have "(ucast (b AND 0x80) :: 'a word) = 0 \<longleftrightarrow> b AND 0x80 = 0"
    using unat_ucast_up [of "b AND 0x80", where 'b = 'a] that by (simp flip: unat_eq_0)
  ultimately show ?thesis by (simp add: and_0x80_iff)
qed

text \<open>The low seven bits of a word with the continuation bit.\<close>

lemma ucast_or_128: "ucast (w OR 128) = (of_nat (unat w mod 128 + 128) :: u8)" if "8 \<le> LENGTH('a)" for w :: "'a::len word"
proof -
  have "ucast (w OR 128) = (ucast w :: u8) AND 0x7f OR 0x80"
  proof (rule bit_word_eqI)
    fix n
    assume "n < LENGTH(8)"
    then have "n \<in> {0, 1, 2, 3, 4, 5, 6, 7}" by auto
    then show "bit (ucast (w OR 128) :: u8) n = bit ((ucast w :: u8) AND 0x7f OR 0x80) n"
      using that by (auto simp: bit_simps)
  qed
  moreover have "(ucast w :: u8) AND 0x7f = of_nat (unat w mod 128)"
    by (rule word_of_nat_eqI) (simp add: unat_and_0x7f unat_ucast_down mod_mod_cancel)
  ultimately show ?thesis by (simp add: or_0x80 del: of_nat_add)
qed

end
