(* ===== verification/Pb_Wire.thy ===== *)
theory Pb_Wire
  imports Pb_Stream Varint
begin

text \<open>
  The wire format of protocol buffers in \<open>pb_decode.c\<close> and \<open>pb_encode.c\<close>: variable-length integers, zigzag, fixed-width
  integers, tags, strings and substreams.  A reader returns the value, \<open>None\<close> when it returns false, and the
  stream it leaves.  \<open>uint_fast8_t\<close> is 8 bits wide on the targets of the pod.
\<close>

section \<open>Readers\<close>

lemma readbyte_consumes: "pb_readbyte cb s = (Some b, s1) \<Longrightarrow> bytes_left s1 < bytes_left s"
  by (auto simp: pb_readbyte_def split: if_splits read_result.splits)

function varint32_loop :: "'t pb_reader \<Rightarrow> 't pb_istream \<Rightarrow> u8 \<Rightarrow> u32 \<Rightarrow> u32 option \<times> 't pb_istream" where
  "varint32_loop cb s bitpos result =
     (case pb_readbyte cb s of
        (None, s1) \<Rightarrow> (None, s1)
      | (Some byte, s1) \<Rightarrow>
          let sign_extension = (if bitpos < 63 then 0xff else 0x01) :: u8
          in if bitpos \<ge> 32 \<and> byte AND 0x7f \<noteq> 0 \<and> (drop_bit 31 result = 0 \<or> byte \<noteq> sign_extension)
             then (None, in_error ''varint overflow'' s1)
             else
               let result = (if bitpos \<ge> 32 then result
                             else result OR push_bit (unat bitpos) (ucast (byte AND 0x7f)));
                   bitpos = bitpos + 7
               in if byte AND 0x80 \<noteq> 0 then varint32_loop cb s1 bitpos result
                  else if bitpos = 35 \<and> byte AND 0x70 \<noteq> 0 then (None, in_error ''varint overflow'' s1)
                  else (Some result, s1))"
  by pat_completeness auto
termination
  by (relation "measure (\<lambda>(_, s, _, _). bytes_left s)") (auto dest: readbyte_consumes [OF sym])

declare varint32_loop.simps [simp del]

text \<open>The second result is \<open>*eof\<close> when it is set.\<close>

definition pb_decode_varint32_eof :: "'t pb_reader \<Rightarrow> 't pb_istream \<Rightarrow> u32 option \<times> bool \<times> 't pb_istream" where
  "pb_decode_varint32_eof cb s = (case pb_readbyte cb s of
     (None, s1) \<Rightarrow> (None, bytes_left s1 = 0, s1)
   | (Some byte, s1) \<Rightarrow>
       if byte AND 0x80 = 0 then (Some (ucast byte), False, s1)
       else case varint32_loop cb s1 7 (ucast (byte AND 0x7f)) of (r, s2) \<Rightarrow> (r, False, s2))"

definition pb_decode_varint32 :: "'t pb_reader \<Rightarrow> 't pb_istream \<Rightarrow> u32 option \<times> 't pb_istream" where
  "pb_decode_varint32 cb s = (case pb_decode_varint32_eof cb s of (r, _, s1) \<Rightarrow> (r, s1))"

function varint_loop :: "'t pb_reader \<Rightarrow> 't pb_istream \<Rightarrow> u8 \<Rightarrow> u64 \<Rightarrow> u64 option \<times> 't pb_istream" where
  "varint_loop cb s bitpos result =
     (if bitpos \<ge> 64 then (None, in_error ''varint overflow'' s)
      else case pb_readbyte cb s of
        (None, s1) \<Rightarrow> (None, s1)
      | (Some byte, s1) \<Rightarrow>
          let result = result OR push_bit (unat bitpos) (ucast (byte AND 0x7f));
              bitpos = bitpos + 7
          in if byte AND 0x80 \<noteq> 0 then varint_loop cb s1 bitpos result else (Some result, s1))"
  by pat_completeness auto
termination
  by (relation "measure (\<lambda>(_, s, _, _). bytes_left s)") (auto dest: readbyte_consumes [OF sym])

declare varint_loop.simps [simp del]

definition pb_decode_varint :: "'t pb_reader \<Rightarrow> 't pb_istream \<Rightarrow> u64 option \<times> 't pb_istream" where
  "pb_decode_varint cb s = varint_loop cb s 0 0"

definition pb_decode_svarint :: "'t pb_reader \<Rightarrow> 't pb_istream \<Rightarrow> u64 option \<times> 't pb_istream" where
  "pb_decode_svarint cb s = (case pb_decode_varint cb s of
     (None, s1) \<Rightarrow> (None, s1)
   | (Some v, s1) \<Rightarrow> (Some (if v AND 1 \<noteq> 0 then NOT (drop_bit 1 v) else drop_bit 1 v), s1))"

definition pb_decode_fixed32 :: "'t pb_reader \<Rightarrow> 't pb_istream \<Rightarrow> u32 option \<times> 't pb_istream" where
  "pb_decode_fixed32 cb s = (case pb_read cb s False 4 of
     (None, s1) \<Rightarrow> (None, s1)
   | (Some bs, s1) \<Rightarrow>
       (Some (ucast (bs ! 0) OR push_bit 8 (ucast (bs ! 1)) OR push_bit 16 (ucast (bs ! 2)) OR
              push_bit 24 (ucast (bs ! 3))), s1))"

definition pb_decode_fixed64 :: "'t pb_reader \<Rightarrow> 't pb_istream \<Rightarrow> u64 option \<times> 't pb_istream" where
  "pb_decode_fixed64 cb s = (case pb_read cb s False 8 of
     (None, s1) \<Rightarrow> (None, s1)
   | (Some bs, s1) \<Rightarrow>
       (Some (ucast (bs ! 0) OR push_bit 8 (ucast (bs ! 1)) OR push_bit 16 (ucast (bs ! 2)) OR
              push_bit 24 (ucast (bs ! 3)) OR push_bit 32 (ucast (bs ! 4)) OR push_bit 40 (ucast (bs ! 5)) OR
              push_bit 48 (ucast (bs ! 6)) OR push_bit 56 (ucast (bs ! 7))), s1))"

section \<open>Skipping\<close>

lemma read_consumes: "pb_read cb s False (Suc 0) = (Some bs, s1) \<Longrightarrow> bytes_left s1 < bytes_left s"
  by (auto simp: pb_read_def read_some_def split: if_splits read_result.splits)

function pb_skip_varint :: "'t pb_reader \<Rightarrow> 't pb_istream \<Rightarrow> bool \<times> 't pb_istream" where
  "pb_skip_varint cb s = (case pb_read cb s False 1 of
     (None, s1) \<Rightarrow> (False, s1)
   | (Some bs, s1) \<Rightarrow> if hd bs AND 0x80 \<noteq> 0 then pb_skip_varint cb s1 else (True, s1))"
  by pat_completeness auto
termination
  by (relation "measure (\<lambda>(_, s). bytes_left s)") (auto dest: read_consumes [OF sym])

declare pb_skip_varint.simps [simp del]

definition pb_skip_string :: "'t pb_reader \<Rightarrow> 't pb_istream \<Rightarrow> bool \<times> 't pb_istream" where
  "pb_skip_string cb s = (case pb_decode_varint32 cb s of
     (None, s1) \<Rightarrow> (False, s1)
   | (Some len, s1) \<Rightarrow> (case pb_read cb s1 True (unat len) of (r, s2) \<Rightarrow> (r \<noteq> None, s2)))"

text \<open>The wire type is the number that \<open>pb_decode_tag\<close> casts.\<close>

definition PB_WT_VARINT :: nat where "PB_WT_VARINT = 0"

definition PB_WT_64BIT :: nat where "PB_WT_64BIT = 1"

definition PB_WT_STRING :: nat where "PB_WT_STRING = 2"

definition PB_WT_32BIT :: nat where "PB_WT_32BIT = 5"

lemmas wire_types = PB_WT_VARINT_def PB_WT_64BIT_def PB_WT_STRING_def PB_WT_32BIT_def

definition pb_decode_tag :: "'t pb_reader \<Rightarrow> 't pb_istream \<Rightarrow> bool \<times> nat \<times> u32 \<times> bool \<times> 't pb_istream" where
  "pb_decode_tag cb s = (case pb_decode_varint32_eof cb s of
     (None, eof, s1) \<Rightarrow> (False, 0, 0, eof, s1)
   | (Some temp, eof, s1) \<Rightarrow>
       if temp = 0 then (False, 0, 0, True, s1)
       else (True, unat (temp AND 7), drop_bit 3 temp, eof, s1))"

definition pb_skip_field :: "'t pb_reader \<Rightarrow> 't pb_istream \<Rightarrow> nat \<Rightarrow> bool \<times> 't pb_istream" where
  "pb_skip_field cb s wire_type =
     (if wire_type = PB_WT_VARINT then pb_skip_varint cb s
      else if wire_type = PB_WT_64BIT then (case pb_read cb s True 8 of (r, s1) \<Rightarrow> (r \<noteq> None, s1))
      else if wire_type = PB_WT_STRING then pb_skip_string cb s
      else if wire_type = PB_WT_32BIT then (case pb_read cb s True 4 of (r, s1) \<Rightarrow> (r \<noteq> None, s1))
      else (False, in_error ''invalid wire_type'' s))"

primrec raw_varint :: "'t pb_reader \<Rightarrow> nat \<Rightarrow> 't pb_istream \<Rightarrow> bytes option \<times> 't pb_istream" where
  "raw_varint cb 0 s = (None, s)"
| "raw_varint cb (Suc room) s = (case pb_read cb s False 1 of
     (None, s1) \<Rightarrow> (None, s1)
   | (Some bs, s1) \<Rightarrow>
       if hd bs AND 0x80 \<noteq> 0 then
         (case raw_varint cb room s1 of (None, s2) \<Rightarrow> (None, s2) | (Some r, s2) \<Rightarrow> (Some (hd bs # r), s2))
       else (Some [hd bs], s1))"

text \<open>The bytes of one value, at most \<open>max_size\<close> of a varint.\<close>

definition read_raw_value :: "'t pb_reader \<Rightarrow> 't pb_istream \<Rightarrow> nat \<Rightarrow> nat \<Rightarrow> bytes option \<times> 't pb_istream" where
  "read_raw_value cb s wire_type max_sz =
     (if wire_type = PB_WT_VARINT then raw_varint cb max_sz s
      else if wire_type = PB_WT_64BIT then pb_read cb s False 8
      else if wire_type = PB_WT_32BIT then pb_read cb s False 4
      else (None, in_error ''invalid wire_type'' s))"

section \<open>Substreams\<close>

text \<open>The substream and what is left of the stream.\<close>

definition pb_make_string_substream ::
  "'t pb_reader \<Rightarrow> 't pb_istream \<Rightarrow> 't pb_istream option \<times> 't pb_istream" where
  "pb_make_string_substream cb s = (case pb_decode_varint32 cb s of
     (None, s1) \<Rightarrow> (None, s1)
   | (Some sz, s1) \<Rightarrow>
       if bytes_left s1 < unat sz then (None, in_error ''parent stream too short'' s1)
       else (Some (s1\<lparr>bytes_left := unat sz\<rparr>), s1\<lparr>bytes_left := bytes_left s1 - unat sz\<rparr>))"

definition pb_close_string_substream ::
  "'t pb_reader \<Rightarrow> 't pb_istream \<Rightarrow> 't pb_istream \<Rightarrow> bool \<times> 't pb_istream" where
  "pb_close_string_substream cb s substream =
     (let (r, sub1) = (if bytes_left substream \<noteq> 0 then pb_read cb substream True (bytes_left substream)
                       else (Some [], substream))
      in if r = None then (False, s)
         else (True, s\<lparr>in_state := in_state sub1, in_errmsg := in_errmsg sub1\<rparr>))"

section \<open>Writers\<close>

function varint_digits :: "u64 \<Rightarrow> bytes" where
  "varint_digits value =
     (if value = 0 then [] else ucast (value AND 0x7f OR 0x80) # varint_digits (drop_bit 7 value))"
  by pat_completeness auto
termination
proof (relation "measure unat")
  show "(drop_bit 7 v, v) \<in> measure unat" if "v \<noteq> 0" for v :: u64
  proof -
    from that have "0 < unat v" by (simp add: unat_gt_0)
    then have "unat v div 128 < unat v" by simp
    then show ?thesis by (simp only: in_measure unat_drop_bit_div) simp
  qed
qed simp

declare varint_digits.simps [simp del]

definition pb_encode_varint :: "'t pb_writer \<Rightarrow> 't pb_ostream \<Rightarrow> u64 \<Rightarrow> bool \<times> 't pb_ostream" where
  "pb_encode_varint cb s value =
     (if value \<le> 0x7f then pb_write cb s [ucast value] 1
      else
        let buffer = varint_digits value;
            i = length buffer;
            buffer = buffer[i - 1 := buffer ! (i - 1) AND 0x7f]
        in pb_write cb s buffer i)"

definition pb_encode_svarint :: "'t pb_writer \<Rightarrow> 't pb_ostream \<Rightarrow> u64 \<Rightarrow> bool \<times> 't pb_ostream" where
  "pb_encode_svarint cb s value =
     pb_encode_varint cb s (if sint value < 0 then NOT (push_bit 1 value) else push_bit 1 value)"

definition pb_encode_fixed32 :: "'t pb_writer \<Rightarrow> 't pb_ostream \<Rightarrow> u32 \<Rightarrow> bool \<times> 't pb_ostream" where
  "pb_encode_fixed32 cb s val =
     pb_write cb s [ucast (val AND 0xff), ucast (drop_bit 8 val AND 0xff), ucast (drop_bit 16 val AND 0xff),
       ucast (drop_bit 24 val AND 0xff)] 4"

definition pb_encode_fixed64 :: "'t pb_writer \<Rightarrow> 't pb_ostream \<Rightarrow> u64 \<Rightarrow> bool \<times> 't pb_ostream" where
  "pb_encode_fixed64 cb s val =
     pb_write cb s [ucast (val AND 0xff), ucast (drop_bit 8 val AND 0xff), ucast (drop_bit 16 val AND 0xff),
       ucast (drop_bit 24 val AND 0xff), ucast (drop_bit 32 val AND 0xff), ucast (drop_bit 40 val AND 0xff),
       ucast (drop_bit 48 val AND 0xff), ucast (drop_bit 56 val AND 0xff)] 8"

definition pb_encode_tag :: "'t pb_writer \<Rightarrow> 't pb_ostream \<Rightarrow> nat \<Rightarrow> u32 \<Rightarrow> bool \<times> 't pb_ostream" where
  "pb_encode_tag cb s wiretype field_number =
     pb_encode_varint cb s (push_bit 3 (ucast field_number) OR of_nat wiretype)"

definition pb_encode_string :: "'t pb_writer \<Rightarrow> 't pb_ostream \<Rightarrow> bytes \<Rightarrow> nat \<Rightarrow> bool \<times> 't pb_ostream" where
  "pb_encode_string cb s buffer sz = (case pb_encode_varint cb s (of_nat sz) of
     (False, s1) \<Rightarrow> (False, s1)
   | (True, s1) \<Rightarrow> pb_write cb s1 buffer sz)"

section \<open>Reading variable-length integers\<close>

lemma bitpos_10: "i \<le> 10 \<Longrightarrow> unat (of_nat (7 * i) :: u8) = 7 * i"
  by (simp add: unat_of_nat del: of_nat_mult)

lemma bitpos_full: "i \<le> 10 \<Longrightarrow> (64 :: u8) \<le> of_nat (7 * i) \<longleftrightarrow> i = 10"
  using bitpos_10 [of i] by (simp add: word_le_nat_alt del: of_nat_mult) linarith

context pb_source begin

text \<open>Every outcome of the 64-bit reader; the value is taken modulo \<open>2 ^ 64\<close>.\<close>

lemma varint_loop_exact:
  assumes "covered s" and "v < 128 ^ i" and "i \<le> 10"
  shows "varint_loop cb s (of_nat (7 * i)) (of_nat v) =
    (case varint_group (content s) of
       Some (g, r) \<Rightarrow>
         if i + length g \<le> 10 then (Some (of_nat (v + 128 ^ i * group_val g)), adv (length g) s)
         else (None, in_error ''varint overflow'' (adv (10 - i) s))
     | None \<Rightarrow>
         if i + length (content s) < 10 then (None, in_error ''end-of-stream'' (adv (length (content s)) s))
         else (None, in_error ''varint overflow'' (adv (10 - i) s)))"
  using assms
proof (induction "10 - i" arbitrary: s v i)
  case 0
  then have i: "i = 10" by simp
  have "varint_loop cb s (of_nat (7 * i)) (of_nat v) = (None, in_error ''varint overflow'' s)"
    using bitpos_full [of i] i by (subst varint_loop.simps) simp
  moreover have "g \<noteq> []" if "varint_group (content s) = Some (g, r)" for g r
    using group_SomeD [OF that] by simp
  ultimately show ?case
    using i by (auto split: option.splits)
next
  case (Suc k)
  have i: "i < 10" using Suc.hyps(2) by simp
  then have room: "\<not> (64 :: u8) \<le> of_nat (7 * i)" using bitpos_full [of i] by simp
  show ?case
  proof (cases "content s")
    case Nil
    then show ?thesis
      using room i readbyte_empty [OF Suc.prems(1) Nil] by (subst varint_loop.simps) simp
  next
    case (Cons b r)
    note rd = readbyte_Cons [OF Suc.prems(1) Cons]
    let ?v = "v + 128 ^ i * (unat b mod 128)"
    have pos: "(of_nat (7 * i) :: u8) + 7 = of_nat (7 * Suc i)" by simp
    have or: "(of_nat v :: u64) OR push_bit (unat (of_nat (7 * i) :: u8)) (ucast (b AND 0x7f)) = of_nat ?v"
      using or_group [of v "7 * i" b, where 'a = 64] Suc.prems(2) i
      by (simp add: bitpos_10 power_mult del: of_nat_mult of_nat_add)
    have vlt: "?v < 128 ^ Suc i"
    proof -
      have "?v < 128 ^ i * (1 + unat b mod 128)" using Suc.prems(2) by (simp add: algebra_simps)
      also have "\<dots> \<le> 128 ^ i * 128" by (intro mult_le_mono2) (simp add: Suc_leI)
      finally show ?thesis by (simp add: mult.commute)
    qed
    have c: "covered (adv 1 s)" "content (adv 1 s) = r"
      using content_after [OF Suc.prems(1), of "[b]" r] Cons by simp_all
    show ?thesis
    proof (cases "unat b < 128")
      case True
      then have b: "b AND 0x80 = 0" by (simp add: and_0x80_iff)
      have "varint_loop cb s (of_nat (7 * i)) (of_nat v) = (Some (of_nat ?v), adv 1 s)"
        using room by (subst varint_loop.simps) (simp only: rd or b Let_def prod.case option.case if_False simp_thms)
      then show ?thesis using Cons True i by simp
    next
      case False
      then have b: "b AND 0x80 \<noteq> 0" by (simp add: and_0x80_iff)
      have "varint_loop cb s (of_nat (7 * i)) (of_nat v) = varint_loop cb (adv 1 s) (of_nat (7 * Suc i)) (of_nat ?v)"
        using room by (subst varint_loop.simps)
          (simp only: rd or b pos Let_def prod.case option.case if_False if_True simp_thms)
      also have k: "k = 10 - Suc i" "Suc i \<le> 10" using Suc.hyps(2) i by simp_all
      note Suc.hyps(1) [OF k(1) c(1) vlt k(2), unfolded c(2)]
      finally have step: "varint_loop cb s (of_nat (7 * i)) (of_nat v) = (case varint_group r of
         Some (g, r') \<Rightarrow>
           if Suc i + length g \<le> 10 then (Some (of_nat (?v + 128 ^ Suc i * group_val g)), adv (length g) (adv 1 s))
           else (None, in_error ''varint overflow'' (adv (10 - Suc i) (adv 1 s)))
       | None \<Rightarrow>
           if Suc i + length r < 10 then (None, in_error ''end-of-stream'' (adv (length r) (adv 1 s)))
           else (None, in_error ''varint overflow'' (adv (10 - Suc i) (adv 1 s))))" .
      have val: "?v + 128 ^ Suc i * n = v + 128 ^ i * (unat b mod 128 + 128 * n)" for n
        by (simp add: algebra_simps)
      have ten: "Suc (9 - i) = 10 - i" using i by simp
      show ?thesis
        unfolding step val
        by (cases "varint_group r") (auto simp: Cons False ten simp del: of_nat_add of_nat_mult)
    qed
  qed
qed

end

text \<open>The 32-bit reader looks at the groups past the fifth only as padding or as a sign extension.\<close>

definition pad_byte :: "nat \<Rightarrow> u32 \<Rightarrow> u8 \<Rightarrow> bool" where
  "pad_byte i res b \<longleftrightarrow> unat b mod 128 = 0 \<or> (bit res 31 \<and> b = (if i \<le> 8 then 0xff else 0x01))"

fun pads :: "nat \<Rightarrow> u32 \<Rightarrow> bytes \<Rightarrow> bool" where
  "pads i res [] \<longleftrightarrow> True"
| "pads i res (b # g) \<longleftrightarrow> pad_byte i res b \<and> pads (Suc i) res g"

definition varint32_ok :: "bytes \<Rightarrow> bool" where
  "varint32_ok g \<longleftrightarrow>
     (if length g \<le> 5 then group_val g < 2 ^ 32 else pads 5 (of_nat (group_val g)) (drop 5 g))"

lemma bitpos_36: "i \<le> 36 \<Longrightarrow> unat (of_nat (7 * i) :: u8) = 7 * i"
  by (simp add: unat_of_nat del: of_nat_mult)

lemma bitpos_tests:
  assumes "i \<le> 36"
  shows "(of_nat (7 * i) :: u8) < 63 \<longleftrightarrow> i \<le> 8" "(32 :: u8) \<le> of_nat (7 * i) \<longleftrightarrow> 5 \<le> i"
    "(of_nat (7 * Suc i) :: u8) = 35 \<longleftrightarrow> i = 4"
proof -
  show "(of_nat (7 * i) :: u8) < 63 \<longleftrightarrow> i \<le> 8"
    by (simp only: word_less_nat_alt bitpos_36 [OF assms]) (simp, linarith)
  show "(32 :: u8) \<le> of_nat (7 * i) \<longleftrightarrow> 5 \<le> i"
    by (simp only: word_le_nat_alt bitpos_36 [OF assms]) (simp, linarith)
  have "(of_nat (7 * Suc i) :: u8) = 35 \<longleftrightarrow> 7 * Suc i mod 256 = 35"
    by (simp only: word_unat_eq_iff unat_of_nat) simp
  also have "\<dots> \<longleftrightarrow> i = 4"
    using assms by (cases "i = 36") (auto simp: mod_less)
  finally show "(of_nat (7 * Suc i) :: u8) = 35 \<longleftrightarrow> i = 4" .
qed

lemma and_0x70: "unat b < 128 \<Longrightarrow> b AND 0x70 = 0 \<longleftrightarrow> unat b < 16" for b :: u8
proof -
  have "\<forall>n \<in> set [0..<128]. (of_nat n AND 0x70 = (0 :: u8)) = (n < 16)" by code_simp
  moreover assume "unat b < 128"
  ultimately have "(of_nat (unat b) AND 0x70 = (0 :: u8)) = (unat b < 16)" by (auto simp del: of_nat_unat)
  then show ?thesis by simp
qed

lemma and_0x7f_eq_0: "b AND 0x7f = 0 \<longleftrightarrow> unat b mod 128 = 0" for b :: u8
  by (simp only: unat_eq_0 [symmetric] unat_and_0x7f)

lemma drop_31_eq_0: "drop_bit 31 res = 0 \<longleftrightarrow> \<not> bit res 31" for res :: u32
proof
  assume "drop_bit 31 res = 0"
  then have "\<not> bit (drop_bit 31 res) 0" by simp
  then show "\<not> bit res 31" by (simp only: bit_drop_bit_eq o_apply) simp
next
  assume b: "\<not> bit res 31"
  show "drop_bit 31 res = 0"
  proof (rule bit_word_eqI)
    fix n
    show "bit (drop_bit 31 res) n = bit (0 :: u32) n"
      using b bit_imp_le_length [of res "31 + n"] by (cases "n = 0") (auto simp: bit_drop_bit_eq)
  qed
qed

context pb_source begin

text \<open>From the sixth group on the value stays.\<close>

lemma varint32_loop_pads:
  assumes "covered s" and "varint_group (content s) = Some (g, r)" and "5 \<le> i" "i + length g \<le> 37"
  shows "pads i res g \<Longrightarrow> varint32_loop cb s (of_nat (7 * i)) res = (Some res, adv (length g) s)"
    and "\<not> pads i res g \<Longrightarrow> fst (varint32_loop cb s (of_nat (7 * i)) res) = None"
  using assms
proof (induction g arbitrary: s i)
  case Nil
  {
    case 1
    then show ?case using group_SomeD [of "content s"] by simp
  next
    case 2
    then show ?case by simp
  }
next
  case (Cons b g)
  have c: "content s = b # g @ r" if "varint_group (content s) = Some (b # g, r)" for s
    using group_SomeD [OF that] by simp
  have pos: "(of_nat (7 * i) :: u8) + 7 = of_nat (7 * Suc i)" for i by simp
  have step: "varint32_loop cb s (of_nat (7 * i)) res =
      (if \<not> pad_byte i res b then (None, in_error ''varint overflow'' (adv 1 s))
       else if unat b < 128 then (Some res, adv 1 s)
       else varint32_loop cb (adv 1 s) (of_nat (7 * Suc i)) res)"
    if cov: "covered s" and gr: "varint_group (content s) = Some (b # g, r)" and i: "5 \<le> i" "i + length (b # g) \<le> 37"
    for s i
  proof -
    have i36: "i \<le> 36" "i \<noteq> 4" using i by simp_all
    note t = bitpos_tests [OF i36(1)]
    have "(of_nat (7 * i) :: u8) \<noteq> 28"
    proof
      assume "(of_nat (7 * i) :: u8) = 28"
      then have "unat (of_nat (7 * i) :: u8) = unat (28 :: u8)" by simp
      then show False using i36 by (simp add: bitpos_36 del: of_nat_mult)
    qed
    then show ?thesis
      using i i36 by (subst varint32_loop.simps)
        (simp add: readbyte_Cons [OF cov c [OF gr]] pos t pad_byte_def and_0x7f_eq_0 drop_31_eq_0 and_0x80_iff Let_def
          del: of_nat_mult of_nat_Suc)
  qed
  have tl: "unat b < 128 \<Longrightarrow> g = []" "\<not> unat b < 128 \<Longrightarrow> varint_group (content (adv 1 s)) = Some (g, r) \<and> covered (adv 1 s)"
    if cov: "covered s" and gr: "varint_group (content s) = Some (b # g, r)" for s
    using gr content_after [OF cov, of "[b]" "g @ r"] c [OF gr] by (auto split: if_splits option.splits)
  {
    case 1
    then show ?case
      using step [of s i] tl [of s] Cons.IH(1) [of "Suc i" "adv 1 s"] by (cases "unat b < 128") auto
  next
    case 2
    then show ?case
      using step [of s i] tl [of s] Cons.IH(2) [of "Suc i" "adv 1 s"] by (cases "unat b < 128") auto
  }
qed

text \<open>Up to the fifth group the value is collected, and a value of five groups has to fit 32 bits.\<close>

lemma varint32_loop_low:
  assumes "covered s" and "varint_group (content s) = Some (g, r)" and "v < 128 ^ i" and "i \<le> 5"
  shows "varint32_loop cb s (of_nat (7 * i)) (of_nat v) =
    (if i + length g \<le> 5 then
       if v + 128 ^ i * group_val g < 2 ^ 32 then (Some (of_nat (v + 128 ^ i * group_val g)), adv (length g) s)
       else (None, in_error ''varint overflow'' (adv (length g) s))
     else varint32_loop cb (adv (5 - i) s) (of_nat (7 * 5)) (of_nat (v + 128 ^ i * group_val g)))"
  using assms
proof (induction "5 - i" arbitrary: s v i g)
  case 0
  then have i: "i = 5" by simp
  have "(128 :: u32) ^ 5 = 0" by simp
  then have "(of_nat (v + 128 ^ 5 * group_val g) :: u32) = of_nat v"
    by (simp only: of_nat_add of_nat_mult of_nat_power of_nat_numeral) simp
  then show ?case using i group_SomeD [OF "0.prems"(2)] by (simp del: of_nat_add of_nat_mult)
next
  case (Suc k)
  have i: "i < 5" using Suc.hyps(2) by simp
  obtain b g' where g: "g = b # g'" using group_SomeD [OF Suc.prems(2)] by (cases g) auto
  have c: "content s = b # g' @ r" using group_SomeD [OF Suc.prems(2)] g by simp
  note rd = readbyte_Cons [OF Suc.prems(1) c]
  have c1: "covered (adv 1 s)" "content (adv 1 s) = g' @ r"
    using content_after [OF Suc.prems(1), of "[b]" "g' @ r"] c by simp_all
  let ?v = "v + 128 ^ i * (unat b mod 128)"
  have t: "\<not> (32 :: u8) \<le> of_nat (7 * i)" "(of_nat (7 * Suc i) :: u8) = 35 \<longleftrightarrow> i = 4"
    using bitpos_tests [of i] i by simp_all
  have pos: "(of_nat (7 * i) :: u8) + 7 = of_nat (7 * Suc i)" by simp
  have "unat (of_nat (7 * i) :: u8) = 7 * i" using i by (intro bitpos_36) simp
  then have or: "(of_nat v :: u32) OR push_bit (unat (of_nat (7 * i) :: u8)) (ucast (b AND 0x7f)) = of_nat ?v"
    using or_group [of v "7 * i" b, where 'a = 32] Suc.prems(3) i by (simp add: power_mult del: of_nat_mult of_nat_add)
  have vlt: "?v < 128 ^ Suc i"
  proof -
    have "?v < 128 ^ i * (1 + unat b mod 128)" using Suc.prems(3) by (simp add: algebra_simps)
    also have "\<dots> \<le> 128 ^ i * 128" by (intro mult_le_mono2) (simp add: Suc_leI)
    finally show ?thesis by (simp add: mult.commute)
  qed
  have loop: "varint32_loop cb s (of_nat (7 * i)) (of_nat v) =
      (if unat b < 128 then
         if i = 4 \<and> b AND 0x70 \<noteq> 0 then (None, in_error ''varint overflow'' (adv 1 s)) else (Some (of_nat ?v), adv 1 s)
       else varint32_loop cb (adv 1 s) (of_nat (7 * Suc i)) (of_nat ?v))"
    by (subst varint32_loop.simps, simp only: rd or t pos and_0x80_iff Let_def prod.case option.case simp_thms,
        cases "unat b < 128") (simp_all only: if_True if_False simp_thms)
  show ?case
  proof (cases "unat b < 128")
    case True
    then have g': "g' = []" using Suc.prems(2) c g by simp
    have fits: "?v < 2 ^ 32 \<longleftrightarrow> \<not> (i = 4 \<and> b AND 0x70 \<noteq> 0)"
    proof (cases "i = 4")
      case True
      then have "v < 268435456" using Suc.prems(3) by simp
      then have "v + 268435456 * unat b < 4294967296 \<longleftrightarrow> unat b < 16" by auto
      with True show ?thesis using and_0x70 [OF \<open>unat b < 128\<close>] \<open>unat b < 128\<close> by simp
    next
      case False
      have "?v < 128 ^ Suc i" by (rule vlt)
      also have "\<dots> \<le> 128 ^ 4" using False i by (intro power_increasing) simp_all
      finally show ?thesis using False by simp
    qed
    show ?thesis
      unfolding loop using True g g' i fits by (simp del: of_nat_add of_nat_mult)
  next
    case False
    then have gr: "varint_group (content (adv 1 s)) = Some (g', r)"
      using Suc.prems(2) c c1 g by (auto split: option.splits)
    have k: "k = 5 - Suc i" "Suc i \<le> 5" using Suc.hyps(2) i by simp_all
    have val: "?v + 128 ^ Suc i * n = v + 128 ^ i * (unat b mod 128 + 128 * n)" for n
      by (simp add: algebra_simps)
    have five: "Suc (4 - i) = 5 - i" using i by simp
    show ?thesis
      unfolding loop using False g i
      by (simp only: if_False Suc.hyps(1) [OF k(1) c1(1) gr vlt k(2)] val group_val.simps)
        (simp add: five del: of_nat_add of_nat_mult)
  qed
qed

end

context pb_source begin

lemma varint_exact:
  assumes "covered s"
  shows "pb_decode_varint cb s =
    (case varint_group (content s) of
       Some (g, r) \<Rightarrow>
         if length g \<le> 10 then (Some (of_nat (group_val g)), adv (length g) s)
         else (None, in_error ''varint overflow'' (adv 10 s))
     | None \<Rightarrow>
         if length (content s) < 10 then (None, in_error ''end-of-stream'' (adv (length (content s)) s))
         else (None, in_error ''varint overflow'' (adv 10 s)))"
  using varint_loop_exact [OF assms, of 0 0] unfolding pb_decode_varint_def
  by (cases "varint_group (content s)") (simp_all split: prod.splits)

lemma varint32_eof_empty:
  "covered s \<Longrightarrow> content s = [] \<Longrightarrow> pb_decode_varint32_eof cb s = (None, True, in_error ''end-of-stream'' s)"
  using length_content [of s] by (simp add: pb_decode_varint32_eof_def readbyte_empty)

lemma varint32_eof_exact:
  assumes "covered s" and gr: "varint_group (content s) = Some (g, r)" and "length g \<le> 37"
  shows "varint32_ok g \<Longrightarrow> pb_decode_varint32_eof cb s = (Some (of_nat (group_val g)), False, adv (length g) s)"
    and "\<not> varint32_ok g \<Longrightarrow> fst (pb_decode_varint32_eof cb s) = None"
proof -
  obtain b g' where g: "g = b # g'" using group_SomeD [OF gr] by (cases g) auto
  have c: "content s = b # g' @ r" using group_SomeD [OF gr] g by simp
  note rd = readbyte_Cons [OF assms(1) c]
  have c1: "covered (adv 1 s)" "content (adv 1 s) = g' @ r"
    using content_after [OF assms(1), of "[b]" "g' @ r"] c by simp_all
  have "(varint32_ok g \<longrightarrow> pb_decode_varint32_eof cb s = (Some (of_nat (group_val g)), False, adv (length g) s)) \<and>
        (\<not> varint32_ok g \<longrightarrow> fst (pb_decode_varint32_eof cb s) = None)"
  proof (cases "unat b < 128")
    case True
    then have g': "g = [b]" using gr c by simp
    have "unat b < 2 ^ 32" using True by simp
    then have "varint32_ok g" using g' True by (simp add: varint32_ok_def)
    moreover have "pb_decode_varint32_eof cb s = (Some (ucast b), False, adv 1 s)"
      using True by (simp add: pb_decode_varint32_eof_def rd and_0x80_iff)
    ultimately show ?thesis using g' True by simp
  next
    case False
    then have gr1: "varint_group (content (adv 1 s)) = Some (g', r)"
      using gr c c1 g by (auto split: option.splits)
    have b: "ucast (b AND 0x7f) = (of_nat (unat b mod 128) :: u32)"
      by (rule word_of_nat_eqI) (simp add: unat_and_0x7f)
    have start: "pb_decode_varint32_eof cb s =
        (case varint32_loop cb (adv 1 s) (of_nat (7 * 1)) (of_nat (unat b mod 128)) of (r, s2) \<Rightarrow> (r, False, s2))"
      using False
      by (simp only: pb_decode_varint32_eof_def rd and_0x80_iff b prod.case option.case if_False mult_1_right of_nat_numeral)
    have "unat b mod 128 < 128 ^ 1" by simp
    note low = varint32_loop_low [OF c1(1) gr1 this, simplified]
    have gv: "group_val g = unat b mod 128 + 128 * group_val g'" by (simp add: g)
    show ?thesis
    proof (cases "length g \<le> 5")
      case True
      then show ?thesis
        using start low g by (simp add: varint32_ok_def gv del: of_nat_add of_nat_mult)
    next
      case long: False
      let ?t = "adv 4 (adv 1 s)"
      have c4: "g' = take 4 g' @ drop 4 g'" by simp
      have l4: "length (take 4 g') = 4" using long g by simp
      have sh: "unat (last g) < 128" "\<forall>b \<in> set (butlast g). 128 \<le> unat b" using group_shape [OF gr] by auto
      have t: "covered ?t" "content ?t = drop 4 g' @ r"
        using content_after [OF c1(1), of "take 4 g'" "drop 4 g' @ r"] c1(2) l4 by (simp_all add: append_assoc [symmetric] del: append_assoc)
      have "varint_group (content ?t) = Some (drop 4 g', r)"
      proof -
        have "drop 4 g' = drop 5 g" using g by simp
        moreover have "drop 5 g \<noteq> []" using long by simp
        moreover have "last (drop 5 g) = last g" using long by simp
        moreover have "set (butlast (drop 5 g)) \<subseteq> set (butlast g)"
          by (simp add: butlast_drop set_drop_subset)
        ultimately show ?thesis using sh t(2) by (auto simp: group_append)
      qed
      note pads = varint32_loop_pads [OF t(1) this, of 5 "of_nat (group_val g)"]
      have len: "5 + length (drop 4 g') \<le> 37" "length g = 5 + length (drop 4 g')" using assms(3) long g by simp_all
      have "varint32_loop cb (adv 1 s) (of_nat (7 * 1)) (of_nat (unat b mod 128)) =
          varint32_loop cb ?t (of_nat (7 * 5)) (of_nat (group_val g))"
        using low long g by (simp add: gv del: of_nat_add of_nat_mult)
      moreover have "varint32_ok g \<longleftrightarrow> pads 5 (of_nat (group_val g)) (drop 4 g')"
        using long g by (simp add: varint32_ok_def)
      ultimately show ?thesis
        using start pads [OF order_refl len(1)] len(2) by (auto split: prod.splits)
    qed
  qed
  then show "varint32_ok g \<Longrightarrow> pb_decode_varint32_eof cb s = (Some (of_nat (group_val g)), False, adv (length g) s)"
    and "\<not> varint32_ok g \<Longrightarrow> fst (pb_decode_varint32_eof cb s) = None" by blast+
qed

end

context pb_source begin

lemma varint32_exact:
  assumes "covered s" and "varint_group (content s) = Some (g, r)" and "length g \<le> 37"
  shows "varint32_ok g \<Longrightarrow> pb_decode_varint32 cb s = (Some (of_nat (group_val g)), adv (length g) s)"
    and "\<not> varint32_ok g \<Longrightarrow> fst (pb_decode_varint32 cb s) = None"
  using varint32_eof_exact [OF assms] by (auto simp: pb_decode_varint32_def split: prod.splits)

lemma varint32_loop_group:
  "covered s \<Longrightarrow> fst (varint32_loop cb s bitpos res) \<noteq> None \<Longrightarrow> varint_group (content s) \<noteq> None"
proof (induction "content s" arbitrary: s bitpos res)
  case Nil
  then show ?case by (subst (asm) varint32_loop.simps) (simp add: readbyte_empty)
next
  case (Cons b r)
  note rd = readbyte_Cons [OF Cons.prems(1) Cons.hyps(2) [symmetric]]
  have c: "covered (adv 1 s)" "content (adv 1 s) = r"
    using content_after [OF Cons.prems(1), of "[b]" r] Cons.hyps(2) by simp_all
  show ?case
  proof (cases "unat b < 128")
    case True
    then show ?thesis by (simp flip: Cons.hyps(2))
  next
    case False
    then obtain bitpos' res' where "fst (varint32_loop cb (adv 1 s) bitpos' res') \<noteq> None"
      using Cons.prems(2) by (subst (asm) (1) varint32_loop.simps) (auto simp: rd Let_def and_0x80_iff split: if_splits)
    from Cons.hyps(1) [OF c(2) [symmetric] c(1) this] c(2) show ?thesis
      by (auto simp flip: Cons.hyps(2))
  qed
qed

text \<open>A string of continuation bytes without an end is never a number.\<close>

lemma varint32_truncated:
  assumes "covered s" and "varint_group (content s) = None"
  shows "fst (pb_decode_varint32_eof cb s) = None"
proof (cases "content s")
  case Nil
  then show ?thesis using assms varint32_eof_empty by simp
next
  case (Cons b r)
  note rd = readbyte_Cons [OF assms(1) Cons]
  have c: "covered (adv 1 s)" "content (adv 1 s) = r"
    using content_after [OF assms(1), of "[b]" r] Cons by simp_all
  have "\<not> unat b < 128" "varint_group r = None"
    using assms(2) Cons by (auto split: if_splits option.splits)
  then show ?thesis
    using varint32_loop_group [OF c(1)] c(2)
    by (auto simp: pb_decode_varint32_eof_def rd and_0x80_iff split: prod.splits) (metis fst_conv not_Some_eq)
qed

end

section \<open>The shortest encodings are accepted\<close>

lemma drop_varint: "128 ^ k \<le> n \<Longrightarrow> drop k (varint n) = varint (n div 128 ^ k)"
proof (induction k arbitrary: n)
  case 0
  then show ?case by simp
next
  case (Suc k)
  have "(128 :: nat) \<le> 128 ^ Suc k" by simp
  then have "128 \<le> n" using Suc.prems by linarith
  moreover have "128 ^ k \<le> n div 128" using Suc.prems by (simp add: less_eq_div_iff_mult_less_eq mult.commute)
  ultimately show ?case using Suc.IH [of "n div 128"] by (simp add: varint_large div_mult2_eq)
qed

lemma varint32_ok_small: "n < 2 ^ 32 \<Longrightarrow> varint32_ok (varint n)"
  using length_varint_le [of n 4] by (simp add: varint32_ok_def group_val_varint)

text \<open>A negative 32-bit number, sign-extended to 64 bits, takes ten bytes.\<close>

lemma varint32_ok_negative:
  assumes "2 ^ 64 - 2 ^ 31 \<le> n" "n < 2 ^ 64"
  shows "varint32_ok (varint n)" "length (varint n) = 10"
proof -
  have "128 ^ 5 \<le> n" using assms by simp
  then have d: "drop 5 (varint n) = varint (n div 128 ^ 5)" by (rule drop_varint)
  have "n div 34359738368 = 536870911" using assms by (intro div_nat_eqI) simp_all
  then have q: "n div 128 ^ 5 = 536870911" by simp
  have v: "varint 536870911 = [0xff, 0xff, 0xff, 0xff, 0x01]" by (simp add: varint.simps)
  have "length (drop 5 (varint n)) = 5" by (simp only: d q v) simp
  then have "length (varint n) - 5 = 5" by simp
  then have l: "5 < length (varint n)" "length (varint n) = 10" by simp_all
  have "bit (of_nat n :: u32) 31"
  proof -
    have "n div 2 ^ 31 = 8589934591" using assms by (intro div_nat_eqI) simp_all
    then have "bit n 31" by (simp add: bit_iff_odd)
    then have "bit (take_bit 32 n) 31" by (simp add: bit_take_bit_iff)
    moreover have "unat (of_nat n :: u32) = take_bit 32 n" by (simp add: unat_of_nat take_bit_eq_mod)
    ultimately have "bit (unat (of_nat n :: u32)) 31" by simp
    then show ?thesis by (simp add: bit_unsigned_iff)
  qed
  then show "varint32_ok (varint n)"
    using l d q v by (simp add: varint32_ok_def group_val_varint pad_byte_def)
  show "length (varint n) = 10" by (rule l(2))
qed

section \<open>Writing\<close>

lemma update_last_Cons:
  "ds \<noteq> [] \<Longrightarrow> (h # ds)[length (h # ds) - 1 := f (last (h # ds))] = h # ds[length ds - 1 := f (last ds)]"
  by (cases ds) simp_all

lemma varint_digits_eq:
  "v \<noteq> 0 \<Longrightarrow> varint_digits v \<noteq> [] \<and>
     (varint_digits v)[length (varint_digits v) - 1 := last (varint_digits v) AND 0x7f] = varint (unat v)"
proof (induction v rule: varint_digits.induct)
  case (1 v)
  have hd: "ucast (v AND 0x7f OR 0x80) = (of_nat (unat v mod 128 + 128) :: u8)" by (rule ucast_low7_high)
  have d: "unat (drop_bit 7 v) = unat v div 128" by (simp only: unat_drop_bit_div) simp
  show ?case
  proof (cases "drop_bit 7 v = 0")
    case True
    then have small: "unat v < 128" using d by (simp add: div_eq_0_iff)
    have m: "of_nat (unat v mod 128 + 128) AND 0x7f = (of_nat (unat v) :: u8)"
    proof (rule word_of_nat_eqI)
      have "(unat v + 128) mod 256 mod 128 = unat v" using small by (simp add: mod_mod_cancel)
      then show "unat (of_nat (unat v mod 128 + 128) AND 0x7f :: u8) = unat v"
        using small by (simp only: unat_and_0x7f unat_of_nat mod_less) simp
    qed
    have eq: "varint_digits v = [of_nat (unat v mod 128 + 128)]"
      using "1.prems" hd by (subst varint_digits.simps) (simp only: True varint_digits.simps [of 0] if_False if_True simp_thms)
    show ?thesis
      unfolding eq varint_small [OF small] by (simp add: m del: of_nat_unat of_nat_add)
  next
    case False
    have large: "128 \<le> unat v"
    proof (rule ccontr)
      assume "\<not> 128 \<le> unat v"
      then have "unat (drop_bit 7 v) = 0" using d by simp
      then show False using False by (simp only: unat_eq_0)
    qed
    let ?ds = "varint_digits (drop_bit 7 v)"
    have IH: "?ds \<noteq> []" "?ds[length ?ds - 1 := last ?ds AND 0x7f] = varint (unat v div 128)"
      using "1.IH" [OF "1.prems" False] d by simp_all
    have eq: "varint_digits v = of_nat (unat v mod 128 + 128) # ?ds"
      using "1.prems" hd by (subst varint_digits.simps) simp
    show ?thesis
      unfolding eq varint_large [OF large]
      by (simp only: update_last_Cons [OF IH(1), where f = "\<lambda>b. b AND 0x7f"] IH(2)) simp
  qed
qed

lemma encode_varint_write:
  "pb_encode_varint cb s v = pb_write cb s (varint (unat v)) (length (varint (unat v)))"
proof (cases "v \<le> 0x7f")
  case True
  then have "unat v < 128" by (simp add: word_le_nat_alt)
  moreover have "ucast v = (of_nat (unat v) :: u8)"
    by (rule word_of_nat_eqI) (use \<open>unat v < 128\<close> in \<open>simp add: unat_ucast_down\<close>)
  ultimately show ?thesis using True by (simp add: pb_encode_varint_def varint_small)
next
  case False
  then have "v \<noteq> 0" by auto
  note d = varint_digits_eq [OF this]
  have "varint_digits v ! (length (varint_digits v) - 1) = last (varint_digits v)"
    using d by (simp add: last_conv_nth)
  moreover have "length (varint (unat v)) = length (varint_digits v)"
    using d by (metis length_list_update)
  ultimately show ?thesis using False d by (simp add: pb_encode_varint_def Let_def)
qed

text \<open>Zigzag: the sign goes to the lowest bit.\<close>

definition zigzag :: "u64 \<Rightarrow> u64" where
  "zigzag v = (if sint v < 0 then NOT (push_bit 1 v) else push_bit 1 v)"

definition unzigzag :: "u64 \<Rightarrow> u64" where
  "unzigzag v = (if v AND 1 \<noteq> 0 then NOT (drop_bit 1 v) else drop_bit 1 v)"

lemma sint_neg_iff_bit: "sint v < 0 \<longleftrightarrow> bit v 63" for v :: u64
  using bit_last_iff [of v] by simp

lemma and_1_iff_bit: "v AND 1 \<noteq> 0 \<longleftrightarrow> bit v 0" for v :: u64
  by (simp add: and_one_eq bit_0 odd_iff_mod_2_eq_one)

lemma unzigzag_zigzag: "unzigzag (zigzag v) = v"
proof (rule bit_word_eqI)
  fix n
  assume "n < LENGTH(64)"
  then show "bit (unzigzag (zigzag v)) n = bit v n"
    unfolding unzigzag_def zigzag_def and_1_iff_bit sint_neg_iff_bit
    by (cases "bit v 63"; cases "n = 63") (auto simp: bit_simps simp del: push_bit_Suc drop_bit_Suc)
qed

lemma zigzag_unzigzag: "zigzag (unzigzag v) = v"
proof (rule bit_word_eqI)
  fix n
  assume "n < LENGTH(64)"
  then show "bit (zigzag (unzigzag v)) n = bit v n"
    unfolding unzigzag_def zigzag_def and_1_iff_bit sint_neg_iff_bit
    by (cases "bit v 0"; cases "n = 0")
      (auto simp: bit_simps simp del: push_bit_Suc drop_bit_Suc dest: bit_imp_le_length)
qed

lemma encode_svarint_eq: "pb_encode_svarint cb s v = pb_encode_varint cb s (zigzag v)"
  by (simp add: pb_encode_svarint_def zigzag_def)

lemma decode_svarint_eq:
  "pb_decode_svarint cb s = (case pb_decode_varint cb s of (r, s1) \<Rightarrow> (map_option unzigzag r, s1))"
  by (simp add: pb_decode_svarint_def unzigzag_def split: prod.splits option.splits)

end
