(* ===== verification/Pb_Codec.thy ===== *)
theory Pb_Codec
  imports Pb_Wire
begin

text \<open>
  Writers of \<open>pb_encode.c\<close> against the readers of \<open>pb_decode.c\<close>.  Every scalar has an encoding that its writer hands to
  \<open>pb_write\<close> and its reader takes off the stream (\<open>pb_codec\<close>); strings go through substreams; a field is skipped
  exactly.
\<close>

section \<open>Fixed-width integers\<close>

lemma fixed32_bytes:
  "[ucast (v AND 0xff), ucast (drop_bit 8 v AND 0xff), ucast (drop_bit 16 v AND 0xff), ucast (drop_bit 24 v AND 0xff)]
   = le_bytes 4 (unat v)" for v :: u32
  by (simp only: ucast_and_0xff unat_drop_bit_div le_bytes_4)

lemma fixed64_bytes:
  "[ucast (v AND 0xff), ucast (drop_bit 8 v AND 0xff), ucast (drop_bit 16 v AND 0xff), ucast (drop_bit 24 v AND 0xff),
    ucast (drop_bit 32 v AND 0xff), ucast (drop_bit 40 v AND 0xff), ucast (drop_bit 48 v AND 0xff),
    ucast (drop_bit 56 v AND 0xff)] = le_bytes 8 (unat v)" for v :: u64
  by (simp only: ucast_and_0xff unat_drop_bit_div le_bytes_8)

lemma encode_fixed32_write: "pb_encode_fixed32 cb s v = pb_write cb s (le_bytes 4 (unat v)) 4"
  by (simp only: pb_encode_fixed32_def fixed32_bytes)

lemma encode_fixed64_write: "pb_encode_fixed64 cb s v = pb_write cb s (le_bytes 8 (unat v)) 8"
  by (simp only: pb_encode_fixed64_def fixed64_bytes)

lemma length_4: "length bs = 4 \<Longrightarrow> bs = [bs ! 0, bs ! 1, bs ! 2, bs ! 3]"
  by (auto simp: eval_nat_numeral length_Suc_conv)

lemma length_8: "length bs = 8 \<Longrightarrow> bs = [bs ! 0, bs ! 1, bs ! 2, bs ! 3, bs ! 4, bs ! 5, bs ! 6, bs ! 7]"
  by (auto simp: eval_nat_numeral length_Suc_conv)

context pb_source begin

lemma fixed32_exact:
  assumes "covered s" and "4 \<le> bytes_left s"
  shows "pb_decode_fixed32 cb s = (Some (of_nat (le_val (take 4 (content s)))), adv 4 s)"
proof -
  let ?bs = "take 4 (content s)"
  have "length ?bs = 4" using length_content [OF assms(1)] assms(2) by simp
  note l = length_4 [OF this]
  show ?thesis
    unfolding pb_decode_fixed32_def read_ok_bytes [OF assms] prod.case option.case fixed32_value l [symmetric] ..
qed

lemma fixed64_exact:
  assumes "covered s" and "8 \<le> bytes_left s"
  shows "pb_decode_fixed64 cb s = (Some (of_nat (le_val (take 8 (content s)))), adv 8 s)"
proof -
  let ?bs = "take 8 (content s)"
  have "length ?bs = 8" using length_content [OF assms(1)] assms(2) by simp
  note l = length_8 [OF this]
  show ?thesis
    unfolding pb_decode_fixed64_def read_ok_bytes [OF assms] prod.case option.case fixed64_value l [symmetric] ..
qed

end

section \<open>Tags\<close>

definition tag_word :: "nat \<Rightarrow> u32 \<Rightarrow> u64" where
  "tag_word wiretype field_number = push_bit 3 (ucast field_number) OR of_nat wiretype"

lemma unat_pb_tag:
  assumes "wt < 8" and "unat fld < 2 ^ 29"
  shows "unat (tag_word wt fld) = unat fld * 8 + wt"
proof -
  have wt: "unat (of_nat wt :: u64) = wt" using assms(1) by (simp add: unat_of_nat)
  have "unat (tag_word wt fld) = unat (ucast fld :: u64) * 2 ^ 3 + unat (of_nat wt :: u64)"
    unfolding tag_word_def
    by (rule unat_push_bit_or) (use assms wt in \<open>simp_all\<close>)
  then show ?thesis using wt by simp
qed

text \<open>A tag fits 32 bits when its field number has at most 29, as those of protocol buffers have.\<close>

lemma tag_of_word:
  assumes "wt < 8" and "unat fld < 2 ^ 29"
  shows "unat (of_nat (unat fld * 8 + wt) AND 7 :: u32) = wt" "drop_bit 3 (of_nat (unat fld * 8 + wt) :: u32) = fld"
proof -
  have u: "unat (of_nat (unat fld * 8 + wt) :: u32) = unat fld * 8 + wt"
    using assms by (simp add: unat_of_nat del: of_nat_add of_nat_mult)
  have "(of_nat (unat fld * 8 + wt) AND 7 :: u32) = take_bit 3 (of_nat (unat fld * 8 + wt))"
    by (simp add: take_bit_eq_mask mask_eq_exp_minus_1 del: of_nat_add of_nat_mult)
  then have "unat (of_nat (unat fld * 8 + wt) AND 7 :: u32) = (unat fld * 8 + wt) mod 8"
    by (simp only: unsigned_take_bit_eq u) (simp add: take_bit_eq_mod)
  then show "unat (of_nat (unat fld * 8 + wt) AND 7 :: u32) = wt" using assms(1) by simp
  have "unat (drop_bit 3 (of_nat (unat fld * 8 + wt) :: u32)) = (unat fld * 8 + wt) div 8"
    by (simp only: unat_drop_bit_div u) simp
  then show "drop_bit 3 (of_nat (unat fld * 8 + wt) :: u32) = fld"
    using assms(1) by (intro word_unat_eq_iff [THEN iffD2]) simp
qed

context pb_source begin

lemma tag_exact:
  assumes "covered s" and "content s = varint (unat (tag_word wt fld)) @ r" and "wt < 8" "unat fld < 2 ^ 29" "fld \<noteq> 0"
  shows "pb_decode_tag cb s = (True, wt, fld, False, adv (length (varint (unat (tag_word wt fld)))) s)"
proof -
  let ?n = "unat fld * 8 + wt"
  have n: "unat (tag_word wt fld) = ?n" by (rule unat_pb_tag [OF assms(3,4)])
  have small: "?n < 2 ^ 32" using assms(3,4) by simp
  have nz: "(of_nat ?n :: u32) \<noteq> 0"
  proof
    assume "(of_nat ?n :: u32) = 0"
    then have "drop_bit 3 (of_nat ?n :: u32) = 0" by simp
    then show False using tag_of_word(2) [OF assms(3,4)] assms(5) by simp
  qed
  have "varint_group (content s) = Some (varint ?n, r)" by (simp only: assms(2) n group_varint)
  moreover have "length (varint ?n) \<le> 37" using length_varint_le [of ?n 4] small by simp
  ultimately have "pb_decode_varint32_eof cb s = (Some (of_nat ?n), False, adv (length (varint ?n)) s)"
    using varint32_eof_exact(1) [OF assms(1)] varint32_ok_small [OF small] group_val_varint [of ?n] by metis
  then show ?thesis
    unfolding n pb_decode_tag_def using nz tag_of_word [OF assms(3,4)] by (simp del: of_nat_add of_nat_mult)
qed

section \<open>Substreams\<close>

definition sub_of :: "nat \<Rightarrow> 't pb_istream \<Rightarrow> 't pb_istream" where
  "sub_of n s = s\<lparr>bytes_left := n\<rparr>"

lemma sub_of_sel [simp]: "in_state (sub_of n s) = in_state s" "bytes_left (sub_of n s) = n" "in_errmsg (sub_of n s) = in_errmsg s"
  by (simp_all add: sub_of_def)

lemma sub_covered:
  assumes "covered s" and "content s = body @ r"
  shows "covered (sub_of (length body) s)" "content (sub_of (length body) s) = body"
proof -
  have "length body \<le> bytes_left s" using assms length_content by fastforce
  then show "covered (sub_of (length body) s)" using assms(1) by (simp add: covered_def)
  have "take (length body) (content s) = body" using assms(2) by simp
  then show "content (sub_of (length body) s) = body"
    using \<open>length body \<le> bytes_left s\<close> by (simp add: content_def min_def)
qed

text \<open>A substream holds the body, the stream the rest; wherever the reader of the body stops, closing moves to its end.\<close>

lemma make_substream:
  assumes "covered s" and "content s = varint (length body) @ body @ r" and "length body < 2 ^ 32"
  shows "pb_make_string_substream cb s =
    (let s1 = adv (length (varint (length body))) s in (Some (sub_of (length body) s1), sub_of (length r) s1))"
proof -
  let ?k = "length (varint (length body))"
  have c: "covered (adv ?k s)" "content (adv ?k s) = body @ r"
    using content_after [OF assms(1,2)] by simp_all
  have bl: "bytes_left (adv ?k s) = length body + length r"
    using length_content [OF c(1)] c(2) by simp
  have "varint_group (content s) = Some (varint (length body), body @ r)" by (simp only: assms(2) group_varint)
  moreover have "?k \<le> 37" using length_varint_le [of "length body" 4] assms(3) by simp
  ultimately have "pb_decode_varint32 cb s = (Some (of_nat (length body)), adv ?k s)"
    using varint32_exact(1) [OF assms(1)] varint32_ok_small [OF assms(3)] group_val_varint by metis
  moreover have "unat (of_nat (length body) :: u32) = length body" using assms(3) by (simp add: unat_of_nat)
  ultimately show ?thesis
    using bl by (simp add: pb_make_string_substream_def sub_of_def Let_def)
qed

lemma make_substream_short:
  assumes "covered s" and "varint_group (content s) = Some (g, r)" and "length g \<le> 37" "varint32_ok g"
    and "length r < unat (of_nat (group_val g) :: u32)"
  shows "pb_make_string_substream cb s = (None, in_error ''parent stream too short'' (adv (length g) s))"
proof -
  have "bytes_left (adv (length g) s) = length r"
    using content_after [OF assms(1), of g r] group_SomeD [OF assms(2)] length_content by metis
  then show ?thesis
    using varint32_exact(1) [OF assms(1-4)] assms(5) by (simp add: pb_make_string_substream_def)
qed

lemma close_substream:
  assumes "covered s" and "content s = body @ r" and "j \<le> length body"
  shows "pb_close_string_substream cb (sub_of (length r) s) (adv j (sub_of (length body) s)) = (True, adv (length body) s)"
proof -
  let ?sub = "adv j (sub_of (length body) s)"
  have cov: "covered ?sub" using sub_covered [OF assms(1,2)] assms(3) by (simp add: covered_adv)
  have "bytes_left s = length body + length r" using length_content [OF assms(1)] assms(2) by simp
  then have fin: "(sub_of (length r) s)\<lparr>in_state := advance (length body) (in_state s), in_errmsg := in_errmsg s\<rparr> = adv (length body) s"
    by (simp add: sub_of_def adv_def)
  obtain bs where "pb_read cb ?sub True (bytes_left ?sub) = (Some bs, adv (bytes_left ?sub) ?sub)"
    using read_skip [OF cov order_refl] by blast
  then show ?thesis
    using fin assms(3) by (auto simp: pb_close_string_substream_def Let_def advance_advance)
qed

end

section \<open>Skipping a field\<close>

text \<open>The bytes of one value on the wire, by the wire type.\<close>

definition wire_value :: "nat \<Rightarrow> bytes \<Rightarrow> bool" where
  "wire_value wt bs \<longleftrightarrow>
     (wt = PB_WT_VARINT \<and> varint_group bs = Some (bs, [])) \<or>
     (wt = PB_WT_64BIT \<and> length bs = 8) \<or>
     (wt = PB_WT_STRING \<and> length bs < 2 ^ 32 \<and> (\<exists>body. bs = varint (length body) @ body)) \<or>
     (wt = PB_WT_32BIT \<and> length bs = 4)"

context pb_source begin

lemma read_1:
  assumes "covered s" and "content s = b # r"
  shows "pb_read cb s False 1 = (Some [b], adv 1 s)"
proof -
  have "1 \<le> bytes_left s" using length_content [OF assms(1)] assms(2) by simp
  from read_ok_bytes [OF assms(1) this] show ?thesis by (simp add: assms(2))
qed

lemma skip_varint:
  "covered s \<Longrightarrow> varint_group (content s) = Some (g, r) \<Longrightarrow> pb_skip_varint cb s = (True, adv (length g) s)"
proof (induction "content s" arbitrary: s g)
  case Nil
  then show ?case by (metis option.distinct(1) varint_group.simps(1))
next
  case (Cons b c)
  note rd = read_1 [OF Cons.prems(1) Cons.hyps(2) [symmetric]]
  have t: "covered (adv 1 s)" "content (adv 1 s) = c"
    using content_after [OF Cons.prems(1), of "[b]" c] Cons.hyps(2) by simp_all
  have step: "pb_skip_varint cb s = (if unat b < 128 then (True, adv 1 s) else pb_skip_varint cb (adv 1 s))"
    by (subst pb_skip_varint.simps) (simp only: rd and_0x80_iff prod.case option.case list.sel, simp)
  have gr: "varint_group (b # c) = Some (g, r)" using Cons.prems(2) Cons.hyps(2) by simp
  show ?case
  proof (cases "unat b < 128")
    case True
    then show ?thesis using step gr by auto
  next
    case False
    then obtain g' where "varint_group c = Some (g', r)" "g = b # g'"
      using gr by (auto split: option.splits)
    then show ?thesis
      using Cons.hyps(1) [OF t(2) [symmetric] t(1)] t(2) step False by auto
  qed
qed

lemma skip_string:
  assumes "covered s" and "content s = varint (length body) @ body @ r" and "length body < 2 ^ 32"
  shows "pb_skip_string cb s = (True, adv (length (varint (length body) @ body)) s)"
proof -
  let ?k = "length (varint (length body))"
  have c: "covered (adv ?k s)" "content (adv ?k s) = body @ r"
    using content_after [OF assms(1,2)] by simp_all
  then have "length body \<le> bytes_left (adv ?k s)" using length_content [OF c(1)] by simp
  from read_skip [OF c(1) this] obtain bs where rd: "pb_read cb (adv ?k s) True (length body) = (Some bs, adv (?k + length body) s)"
    by auto
  have "varint_group (content s) = Some (varint (length body), body @ r)" by (simp only: assms(2) group_varint)
  moreover have "?k \<le> 37" using length_varint_le [of "length body" 4] assms(3) by simp
  ultimately have "pb_decode_varint32 cb s = (Some (of_nat (length body)), adv ?k s)"
    using varint32_exact(1) [OF assms(1)] varint32_ok_small [OF assms(3)] group_val_varint by metis
  moreover have "unat (of_nat (length body) :: u32) = length body" using assms(3) by (simp add: unat_of_nat)
  ultimately show ?thesis using rd by (simp add: pb_skip_string_def)
qed

lemma skip_field:
  assumes "covered s" and "content s = bs @ r" and "wire_value wt bs"
  shows "pb_skip_field cb s wt = (True, adv (length bs) s)"
proof -
  have l: "length bs \<le> bytes_left s" using length_content [OF assms(1)] assms(2) by simp
  from assms(3) consider
      (varint) "wt = PB_WT_VARINT" "varint_group bs = Some (bs, [])"
    | (bit64) "wt = PB_WT_64BIT" "length bs = 8"
    | (str) body where "wt = PB_WT_STRING" "length bs < 2 ^ 32" "bs = varint (length body) @ body"
    | (bit32) "wt = PB_WT_32BIT" "length bs = 4"
    by (auto simp: wire_value_def)
  then show ?thesis
  proof cases
    case varint
    have "varint_group (content s) = Some (bs, r)"
      using group_append [of bs "[]"] group_append [of bs r] varint(2) assms(2) by simp
    then show ?thesis using skip_varint [OF assms(1)] varint(1) by (simp add: pb_skip_field_def wire_types)
  next
    case bit64
    then show ?thesis using read_skip [OF assms(1) l] by (auto simp: pb_skip_field_def wire_types)
  next
    case str
    have "pb_skip_string cb s = (True, adv (length (varint (length body) @ body)) s)"
      using str assms(2) by (intro skip_string [OF assms(1), of body r]) simp_all
    then show ?thesis using str(1) by (simp add: pb_skip_field_def wire_types str(3))
  next
    case bit32
    then show ?thesis using read_skip [OF assms(1) l] by (auto simp: pb_skip_field_def wire_types)
  qed
qed

end

section \<open>Writers and readers on buffers\<close>

text \<open>\<open>put\<close> hands the encoding to \<open>pb_write\<close>, \<open>get\<close> takes it off.\<close>

locale pb_codec =
  fixes enc :: "'a \<Rightarrow> bytes" and put :: "bytes pb_ostream \<Rightarrow> 'a \<Rightarrow> bool \<times> bytes pb_ostream"
    and get :: "bytes pb_istream \<Rightarrow> 'a option \<times> bytes pb_istream"
  assumes put_enc: "put s x = pb_write buf_writer s (enc x) (length (enc x))"
    and enc_short: "length (enc x) \<le> 10"
    and get_enc: "buffer.covered i \<Longrightarrow> buffer.content i = enc x @ r \<Longrightarrow> get i = (Some x, buffer.adv (length (enc x)) i)"
begin

text \<open>A buffer of \<open>n\<close> bytes takes the encoding exactly when it fits.\<close>

lemma put_fresh:
  assumes "n \<le> SIZE_MAX"
  shows "put (pb_ostream_from_buffer n) x =
    (if length (enc x) \<le> n then (True, buffer_sink.wrote (enc x) (pb_ostream_from_buffer n))
     else (False, out_error ''stream full'' (pb_ostream_from_buffer n)))"
proof -
  have "length (enc x) \<le> SIZE_MAX" using enc_short [of x] by (simp add: SIZE_MAX_def)
  then show ?thesis
    using buffer_sink.write_exact [of "pb_ostream_from_buffer n" "enc x"] assms
    by (simp add: put_enc buf_writer_def pb_ostream_from_buffer_def)
qed

lemma get_fresh:
  "get (pb_istream_from_buffer (enc x @ r) (length (enc x @ r))) = (Some x, pb_istream_from_buffer r (length r))"
proof -
  let ?s = "pb_istream_from_buffer (enc x @ r) (length (enc x @ r))"
  have "buffer.covered ?s" "buffer.content ?s = enc x @ r"
    by (simp_all add: buffer.covered_def buffer.content_def pb_istream_from_buffer_def)
  from get_enc [OF this] show ?thesis
    by (simp add: buffer.adv_def pb_istream_from_buffer_def)
qed

end

lemma covered_content_le: "buffer.covered s \<Longrightarrow> buffer.content s = bs @ r \<Longrightarrow> length bs \<le> bytes_left s"
  using buffer.length_content [of s] by simp

interpretation pb_varint: pb_codec "\<lambda>v :: u64. varint (unat v)" "pb_encode_varint buf_writer" "pb_decode_varint buf_reader"
proof
  fix s :: "bytes pb_istream" and v :: u64 and r
  assume "buffer.covered s" "buffer.content s = varint (unat v) @ r"
  then show "pb_decode_varint buf_reader s = (Some v, buffer.adv (length (varint (unat v))) s)"
    using length_varint_64 [of v] by (simp add: buffer.varint_exact group_varint group_val_varint)
qed (simp_all add: encode_varint_write length_varint_64)

interpretation pb_svarint: pb_codec "\<lambda>v. varint (unat (zigzag v))" "pb_encode_svarint buf_writer" "pb_decode_svarint buf_reader"
proof
  fix s :: "bytes pb_istream" and v :: u64 and r
  assume "buffer.covered s" "buffer.content s = varint (unat (zigzag v)) @ r"
  from pb_varint.get_enc [OF this]
  show "pb_decode_svarint buf_reader s = (Some v, buffer.adv (length (varint (unat (zigzag v)))) s)"
    by (simp add: decode_svarint_eq unzigzag_zigzag)
qed (simp_all add: encode_svarint_eq encode_varint_write length_varint_64)

interpretation pb_varint32: pb_codec "\<lambda>v :: u32. varint (unat v)" "\<lambda>s v. pb_encode_varint buf_writer s (ucast v)"
  "pb_decode_varint32 buf_reader"
proof
  fix s :: "bytes pb_istream" and v :: u32 and r
  assume a: "buffer.covered s" "buffer.content s = varint (unat v) @ r"
  have "unat v < 2 ^ 32" using unsigned_less [of v] by simp
  then have "varint32_ok (varint (unat v))" by (rule varint32_ok_small)
  moreover have "varint_group (buffer.content s) = Some (varint (unat v), r)" by (simp only: a(2) group_varint)
  ultimately show "pb_decode_varint32 buf_reader s = (Some v, buffer.adv (length (varint (unat v))) s)"
    using buffer.varint32_exact(1) [OF a(1)] length_varint_32 [of v] by (simp add: group_val_varint)
next
  show "length (varint (unat v)) \<le> 10" for v :: u32 using length_varint_32 [of v] by simp
qed (simp_all add: encode_varint_write)

interpretation pb_fixed32: pb_codec "\<lambda>v :: u32. le_bytes 4 (unat v)" "pb_encode_fixed32 buf_writer" "pb_decode_fixed32 buf_reader"
proof
  fix s :: "bytes pb_istream" and v :: u32 and r
  assume a: "buffer.covered s" "buffer.content s = le_bytes 4 (unat v) @ r"
  have "unat v < 256 ^ 4" using unsigned_less [of v] by simp
  moreover have "4 \<le> bytes_left s" using covered_content_le [OF a] by simp
  ultimately show "pb_decode_fixed32 buf_reader s = (Some v, buffer.adv (length (le_bytes 4 (unat v))) s)"
    using buffer.fixed32_exact [OF a(1)] a(2) by (simp add: le_val_le_bytes)
qed (simp_all add: encode_fixed32_write)

interpretation pb_fixed64: pb_codec "\<lambda>v :: u64. le_bytes 8 (unat v)" "pb_encode_fixed64 buf_writer" "pb_decode_fixed64 buf_reader"
proof
  fix s :: "bytes pb_istream" and v :: u64 and r
  assume a: "buffer.covered s" "buffer.content s = le_bytes 8 (unat v) @ r"
  have "unat v < 256 ^ 8" using unsigned_less [of v] by simp
  moreover have "8 \<le> bytes_left s" using covered_content_le [OF a] by simp
  ultimately show "pb_decode_fixed64 buf_reader s = (Some v, buffer.adv (length (le_bytes 8 (unat v))) s)"
    using buffer.fixed64_exact [OF a(1)] a(2) by (simp add: le_val_le_bytes)
qed (simp_all add: encode_fixed64_write)

section \<open>Properties\<close>

text \<open>The stream of \<open>pb_istream_from_buffer\<close> over a message \<open>bs\<close> that other memory follows.\<close>

abbreviation stream_over :: "bytes \<Rightarrow> bytes \<Rightarrow> bytes pb_istream" where
  "stream_over bs beyond \<equiv> pb_istream_from_buffer (bs @ beyond) (length bs)"

lemma stream_over_sel [simp]: "buffer.covered (stream_over bs beyond)" "buffer.content (stream_over bs beyond) = bs"
  by (simp_all add: buffer.covered_def buffer.content_def pb_istream_from_buffer_def)

lemma adv_stream_over: "buffer.adv (length bs) (stream_over (bs @ r) beyond) = stream_over r beyond"
  by (simp add: buffer.adv_def pb_istream_from_buffer_def)

lemma adv_stream_drop:
  "n \<le> length bs \<Longrightarrow> buffer.adv n (stream_over bs beyond) = stream_over (drop n bs) beyond"
  using adv_stream_over [of "take n bs" "drop n bs" beyond] by simp

text \<open>
  C24: the 64-bit varint reader, on every input.  It cuts the first group off the message, takes its value modulo
  \<open>2 ^ 64\<close>, fails with ``varint overflow'' after ten continuation bytes and with ``end-of-stream'' when the message
  ends before, and never looks at the memory behind the message.
\<close>

theorem pb_varint_exact:
  "pb_decode_varint buf_reader (stream_over bs beyond) =
    (case varint_group bs of
       Some (g, r) \<Rightarrow>
         if length g \<le> 10 then (Some (of_nat (group_val g)), stream_over r beyond)
         else (None, in_error ''varint overflow'' (stream_over (drop 10 bs) beyond))
     | None \<Rightarrow>
         if length bs < 10 then (None, in_error ''end-of-stream'' (stream_over [] beyond))
         else (None, in_error ''varint overflow'' (stream_over (drop 10 bs) beyond)))"
proof -
  note exact = buffer.varint_exact [OF stream_over_sel(1), of bs beyond, unfolded stream_over_sel(2)]
  show ?thesis
  proof (cases "varint_group bs")
    case None
    then show ?thesis
      unfolding exact using adv_stream_drop [of 10 bs beyond] adv_stream_drop [of "length bs" bs beyond] by simp
  next
    case (Some gr)
    then obtain g r where gr: "varint_group bs = Some (g, r)" by (cases gr) auto
    have bs: "bs = g @ r" using group_SomeD [OF gr] by simp
    show ?thesis
    proof (cases "length g \<le> 10")
      case True
      then show ?thesis unfolding exact gr by (simp only: option.case prod.case if_True bs adv_stream_over)
    next
      case False
      then have "10 \<le> length bs" using bs by simp
      then show ?thesis unfolding exact gr using False adv_stream_drop [of 10 bs beyond] by simp
    qed
  qed
qed

lemma varint32_reads:
  assumes "varint_group (g @ r) = Some (g, r)" "length g \<le> 37" "varint32_ok g"
  shows "pb_decode_varint32 buf_reader (stream_over (g @ r) beyond) = (Some (of_nat (group_val g)), stream_over r beyond)"
  using buffer.varint32_exact(1) [OF stream_over_sel(1), unfolded stream_over_sel(2), OF assms]
    adv_stream_over [of g r beyond] by simp

lemma varint32_reads_u32:
  "pb_decode_varint32 buf_reader (stream_over (varint (unat v) @ r) beyond) = (Some v, stream_over r beyond)" for v :: u32
proof -
  have "unat v < 2 ^ 32" using unsigned_less [of v] by simp
  then show ?thesis
    using varint32_reads [OF group_varint _ varint32_ok_small] length_varint_32 [of v] by (simp add: group_val_varint)
qed

lemma varint32_reads_extended:
  "pb_decode_varint32 buf_reader (stream_over (varint (unat (scast v :: u64)) @ r) beyond) = (Some v, stream_over r beyond)"
  for v :: u32
proof (cases "sint v < 0")
  case True
  let ?n = "unat (scast v :: u64)"
  have low: "- (2 ^ 31) \<le> sint v" using sint_greater_eq [of v] by simp
  have "sint (scast v :: u64) = sint v" using low True by (simp add: signed_scast_eq signed_take_bit_int_eq_self)
  then have "uint (scast v :: u64) = take_bit 64 (sint v)" using uint_sint [of "scast v :: u64"] by simp
  also have "\<dots> = sint v + 2 ^ 64"
  proof -
    have "(sint v + 2 ^ 64) mod 2 ^ 64 = sint v + 2 ^ 64" using low True by (intro mod_pos_pos_trivial) simp_all
    then show ?thesis by (simp add: take_bit_eq_mod)
  qed
  finally have n: "int ?n = sint v + 2 ^ 64" by simp
  have "int (2 ^ 64 - 2 ^ 31) \<le> int ?n" "int ?n < int (2 ^ 64)" unfolding n using low True by simp_all
  then have "2 ^ 64 - 2 ^ 31 \<le> ?n" "?n < 2 ^ 64" by (simp_all only: of_nat_le_iff of_nat_less_iff)
  note neg = varint32_ok_negative [OF this]
  have "(of_nat ?n :: u32) = v"
    by (simp, rule bit_word_eqI) (auto simp: bit_simps)
  then show ?thesis using varint32_reads [OF group_varint _ neg(1)] neg(2) by (simp add: group_val_varint)
next
  case False
  have "(scast v :: u64) = ucast v"
  proof -
    have "sint v < 2 ^ 31" using sint_less [of v] by simp
    moreover have "uint v = sint v"
      using False \<open>sint v < 2 ^ 31\<close> uint_sint [of v] by (simp add: take_bit_int_eq_self)
    ultimately have "sint (scast v :: u64) = sint (ucast v :: u64)"
      using False by (simp add: signed_scast_eq signed_ucast_eq signed_take_bit_int_eq_self)
    then show ?thesis by (rule signed_word_eqI)
  qed
  then show ?thesis using varint32_reads_u32 [of v] by simp
qed

text \<open>
  C25: the 32-bit varint reader.  A group of up to 37 bytes is accepted exactly when its value fits 32 bits or its
  bytes from the sixth on are padding or a sign extension (\<open>varint32_ok\<close>).  So every 32-bit number is read back, in
  its shortest form as well as sign-extended to 64 bits.
\<close>

theorem pb_varint32_exact:
  assumes "varint_group bs = Some (g, r)" and "length g \<le> 37"
  shows "(if varint32_ok g then pb_decode_varint32 buf_reader (stream_over bs beyond) = (Some (of_nat (group_val g)), stream_over r beyond)
          else fst (pb_decode_varint32 buf_reader (stream_over bs beyond)) = None) \<and>
    pb_decode_varint32 buf_reader (stream_over (varint (unat v) @ r) beyond) = (Some v, stream_over r beyond) \<and>
    pb_decode_varint32 buf_reader (stream_over (varint (unat (scast v :: u64)) @ r) beyond) = (Some v, stream_over r beyond)"
proof -
  have bs: "bs = g @ r" using group_SomeD [OF assms(1)] by simp
  show ?thesis
    using varint32_reads [of g r beyond] assms varint32_reads_u32 varint32_reads_extended
      buffer.varint32_exact(2) [OF stream_over_sel(1), unfolded stream_over_sel(2), OF assms]
    unfolding bs by (cases "varint32_ok g") simp_all
qed

lemma pb_varint32_exact_witness:
  "fst (pb_decode_varint32 buf_reader (stream_over [0xff, 0xff, 0xff, 0xff, 0x1f, 7] [9])) = None \<and>
   pb_decode_varint32 buf_reader (stream_over (varint (unat (scast (- 1 :: u32) :: u64)) @ [7]) [9]) = (Some (- 1), stream_over [7] [9])"
proof -
  have g: "varint_group [0xff, 0xff, 0xff, 0xff, 0x1f, 7] = Some ([0xff, 0xff, 0xff, 0xff, 0x1f], [7])"
    by code_simp
  have "\<not> varint32_ok [0xff, 0xff, 0xff, 0xff, 0x1f]" by (simp add: varint32_ok_def)
  then show ?thesis
    using pb_varint32_exact [OF g, of "[9]" "- 1"] by simp
qed

text \<open>
  The bit position of the 32-bit reader is counted in 8 bits.  After 37 continuation bytes it has wrapped around to
  3, so the end of a group far out of range is taken for low bits: \<open>2 ^ 259\<close> reads as 8.
\<close>

lemma group_val_zeros: "group_val (replicate n 0x80 @ [1]) = 128 ^ n"
  by (induction n) simp_all

lemma pb_varint32_wraps:
  "group_val (replicate 37 0x80 @ [1]) = 2 ^ 259 \<and>
   pb_decode_varint32 buf_reader (stream_over (replicate 37 0x80 @ [1]) []) = (Some 8, stream_over [] [])"
proof
  show "group_val (replicate 37 0x80 @ [1]) = 2 ^ 259"
    by (simp only: group_val_zeros) simp
  show "pb_decode_varint32 buf_reader (stream_over (replicate 37 0x80 @ [1]) []) = (Some 8, stream_over [] [])"
    by code_simp
qed

text \<open>What a buffer stream of \<open>n\<close> bytes is after \<open>bs\<close> has been written.\<close>

definition stream_filled :: "nat \<Rightarrow> bytes \<Rightarrow> bytes pb_ostream" where
  "stream_filled n bs = \<lparr>out_state = bs, max_size = n, bytes_written = length bs, out_errmsg = None\<rparr>"

lemma wrote_filled [simp]: "buffer_sink.wrote bs (pb_ostream_from_buffer n) = stream_filled n bs"
  by (simp add: buffer_sink.wrote_def pb_ostream_from_buffer_def stream_filled_def)

lemma filled_sel [simp]:
  "out_state (stream_filled n bs) = bs" "max_size (stream_filled n bs) = n" "bytes_written (stream_filled n bs) = length bs"
  by (simp_all add: stream_filled_def)

lemma wrote_more [simp]: "buffer_sink.wrote xs (stream_filled n bs) = stream_filled n (bs @ xs)"
  by (simp flip: wrote_filled)

lemmas scalar_puts = pb_varint.put_fresh pb_svarint.put_fresh pb_fixed32.put_fresh pb_fixed64.put_fresh

lemma get_over:
  assumes "pb_codec enc put get"
  shows "get (stream_over (enc x @ r) beyond) = (Some x, stream_over r beyond)"
  using pb_codec.get_enc [OF assms stream_over_sel(1) stream_over_sel(2)] adv_stream_over [of "enc x" r beyond] by simp

text \<open>What a write that fits has done to an empty buffer of \<open>n\<close> bytes.\<close>

definition fits :: "nat \<Rightarrow> bytes pb_ostream \<Rightarrow> bytes \<Rightarrow> bool" where
  "fits n s bs \<longleftrightarrow> out_state s = bs \<and> bytes_written s = length bs \<and> length bs \<le> n \<and> out_errmsg s = None"

lemma fits_filled: "length bs \<le> n \<Longrightarrow> fits n (stream_filled n bs) bs"
  by (simp add: fits_def stream_filled_def)

text \<open>
  C26: scalars survive the wire.  Each of the four scalar encodings (varint, zigzag varint, fixed 32 and 64 bits) is
  written into a buffer exactly when it is no longer than the buffer, otherwise nothing is written and the error is
  ``stream full''; the
  matching reader returns the value and stands behind it, whatever follows in the message or in memory.
\<close>

theorem pb_scalar_roundtrip:
  assumes "n \<le> SIZE_MAX"
  shows
    "(case pb_encode_varint buf_writer (pb_ostream_from_buffer n) v of
        (True, s) \<Rightarrow> fits n s (varint (unat v)) \<and>
          pb_decode_varint buf_reader (stream_over (out_state s @ r) beyond) = (Some v, stream_over r beyond)
      | (False, s) \<Rightarrow> n < length (varint (unat v)) \<and> s = out_error ''stream full'' (pb_ostream_from_buffer n)) \<and>
     (case pb_encode_svarint buf_writer (pb_ostream_from_buffer n) v of
        (True, s) \<Rightarrow> fits n s (varint (unat (zigzag v))) \<and>
          pb_decode_svarint buf_reader (stream_over (out_state s @ r) beyond) = (Some v, stream_over r beyond)
      | (False, s) \<Rightarrow> n < length (varint (unat (zigzag v))) \<and> s = out_error ''stream full'' (pb_ostream_from_buffer n)) \<and>
     (case pb_encode_fixed32 buf_writer (pb_ostream_from_buffer n) w of
        (True, s) \<Rightarrow> fits n s (le_bytes 4 (unat w)) \<and>
          pb_decode_fixed32 buf_reader (stream_over (out_state s @ r) beyond) = (Some w, stream_over r beyond)
      | (False, s) \<Rightarrow> n < 4 \<and> s = out_error ''stream full'' (pb_ostream_from_buffer n)) \<and>
     (case pb_encode_fixed64 buf_writer (pb_ostream_from_buffer n) v of
        (True, s) \<Rightarrow> fits n s (le_bytes 8 (unat v)) \<and>
          pb_decode_fixed64 buf_reader (stream_over (out_state s @ r) beyond) = (Some v, stream_over r beyond)
      | (False, s) \<Rightarrow> n < 8 \<and> s = out_error ''stream full'' (pb_ostream_from_buffer n))"
  using scalar_puts [OF assms]
    get_over [OF pb_varint.pb_codec_axioms] get_over [OF pb_svarint.pb_codec_axioms]
    get_over [OF pb_fixed32.pb_codec_axioms] get_over [OF pb_fixed64.pb_codec_axioms]
  by (simp add: fits_filled)

lemma pb_scalar_roundtrip_witness:
  "pb_decode_svarint buf_reader (stream_over (out_state (snd (pb_encode_svarint buf_writer (pb_ostream_from_buffer 3) 300)) @ [9]) [])
     = (Some 300, stream_over [9] []) \<and>
   fits 3 (snd (pb_encode_svarint buf_writer (pb_ostream_from_buffer 3) 300)) (varint (unat (zigzag 300))) \<and>
   snd (pb_encode_fixed64 buf_writer (pb_ostream_from_buffer 3) 300) = out_error ''stream full'' (pb_ostream_from_buffer 3)"
proof -
  have e: "pb_encode_svarint buf_writer (pb_ostream_from_buffer 3) 300 = (True, stream_filled 3 [0xd8, 0x04])"
    "pb_encode_fixed64 buf_writer (pb_ostream_from_buffer 3) 300 = (False, out_error ''stream full'' (pb_ostream_from_buffer 3))"
    by (code_simp, code_simp)
  have "(3 :: nat) \<le> SIZE_MAX" by (simp add: SIZE_MAX_def)
  from pb_scalar_roundtrip [OF this, where v = 300 and r = "[9]" and beyond = "[]"] show ?thesis by (simp add: e)
qed

text \<open>
  A field that is not wanted is skipped exactly.  Whatever the wire type, \<open>pb_skip_field\<close> moves the stream to the end of
  the value and no further; a number that is no wire type is refused and moves nothing.
\<close>

theorem pb_skip_field_exact:
  assumes "wire_value wt bs" and "wt' \<notin> {PB_WT_VARINT, PB_WT_64BIT, PB_WT_STRING, PB_WT_32BIT}"
  shows "pb_skip_field buf_reader (stream_over (bs @ r) beyond) wt = (True, stream_over r beyond) \<and>
    pb_skip_field buf_reader s wt' = (False, in_error ''invalid wire_type'' s)"
  using buffer.skip_field [OF stream_over_sel(1) stream_over_sel(2) assms(1)] adv_stream_over [of bs r beyond] assms(2)
  by (simp add: pb_skip_field_def)

lemma pb_skip_field_exact_witness:
  "pb_skip_field buf_reader (stream_over [3, 7, 8, 9, 10] []) 2 = (True, stream_over [10] []) \<and>
   fst (pb_skip_field buf_reader (stream_over [3] []) 3) = False"
proof -
  have "varint (length [7, 8, 9 :: u8]) = [3]" by (simp add: varint_small)
  then have "wire_value 2 [3, 7, 8, 9]"
    unfolding wire_value_def wire_types by (intro disjI2 disjI1 conjI exI [of _ "[7, 8, 9]"]) simp_all
  moreover have "3 \<notin> {PB_WT_VARINT, PB_WT_64BIT, PB_WT_STRING, PB_WT_32BIT}" by (simp add: wire_types)
  ultimately show ?thesis
    using pb_skip_field_exact [of 2 "[3, 7, 8, 9]" 3 "[10]" "[]" "stream_over [3] []"] by simp
qed

text \<open>
  C27: a length-delimited value is a stream of its own.  A string that \<open>pb_encode_string\<close> wrote opens as a substream that
  holds exactly its bytes; a read past its end fails without moving; and wherever the reader of the substream has stopped,
  closing it leaves the parent at the first byte behind the string.
\<close>

theorem pb_substream_isolated:
  assumes "n \<le> SIZE_MAX" and "length body < 2 ^ 32" and "length (varint (length body) @ body) \<le> n" and "j \<le> length body"
  shows "case pb_encode_string buf_writer (pb_ostream_from_buffer n) body (length body) of (ok, s) \<Rightarrow>
      ok \<and> out_state s = varint (length body) @ body \<and>
      (case pb_make_string_substream buf_reader (stream_over (out_state s @ r) beyond) of
         (None, _) \<Rightarrow> False
       | (Some sub, parent) \<Rightarrow>
           sub = stream_over body (r @ beyond) \<and>
           pb_read buf_reader sub False (length body) = (Some body, stream_over [] (r @ beyond)) \<and>
           pb_read buf_reader sub False (length body + 1) = (None, in_error ''end-of-stream'' sub) \<and>
           pb_close_string_substream buf_reader parent (stream_over (drop j body) (r @ beyond)) = (True, stream_over r beyond))"
proof -
  let ?h = "varint (length body)"
  let ?o = "pb_ostream_from_buffer n :: bytes pb_ostream"
  have lenw: "unat (of_nat (length body) :: u64) = length body" using assms(2) by (simp add: unat_of_nat)
  have o: "max_size ?o = n" "bytes_written ?o = 0" by (simp_all add: pb_ostream_from_buffer_def)
  have h: "length ?h \<le> n" "length ?h \<le> SIZE_MAX" "length body \<le> SIZE_MAX"
    using assms by simp_all
  have w1: "pb_encode_varint buf_writer ?o (of_nat (length body)) = (True, stream_filled n ?h)"
    using buffer_sink.write_exact [of ?o ?h] o h assms(1) by (simp add: encode_varint_write lenw buf_writer_def)
  have w2: "pb_write buf_writer (stream_filled n ?h) body (length body) = (True, stream_filled n (?h @ body))"
    using buffer_sink.write_exact [of "stream_filled n ?h" body] o h assms(1,3) by (simp add: buf_writer_def)
  have put: "pb_encode_string buf_writer ?o body (length body) = (True, stream_filled n (?h @ body))"
    by (simp add: pb_encode_string_def w1 w2)
  let ?s = "stream_over (?h @ body @ r) beyond"
  have s1: "buffer.adv (length ?h) ?s = stream_over (body @ r) beyond" by (rule adv_stream_over)
  have sub: "buffer.sub_of (length xs) (stream_over (xs @ ys) beyond) = stream_over xs (ys @ beyond)"
    "buffer.sub_of (length ys) (stream_over (xs @ ys) beyond) = pb_istream_from_buffer (xs @ ys @ beyond) (length ys)" for xs ys
    by (simp_all add: buffer.sub_of_def pb_istream_from_buffer_def)
  have make: "pb_make_string_substream buf_reader ?s =
      (Some (stream_over body (r @ beyond)), buffer.sub_of (length r) (stream_over (body @ r) beyond))"
    using buffer.make_substream [OF stream_over_sel(1) stream_over_sel(2) assms(2)] s1 sub(1) by (simp add: Let_def)
  have whole: "pb_read buf_reader (stream_over body (r @ beyond)) False (length body) = (Some body, stream_over [] (r @ beyond))"
  proof -
    have "length body \<le> bytes_left (stream_over body (r @ beyond))" by (simp add: pb_istream_from_buffer_def)
    from buffer.read_ok_bytes [OF stream_over_sel(1) this] show ?thesis
      using adv_stream_over [of body "[]" "r @ beyond"] by simp
  qed
  have past: "pb_read buf_reader (stream_over body (r @ beyond)) False (length body + 1) =
      (None, in_error ''end-of-stream'' (stream_over body (r @ beyond)))"
    by (simp add: pb_read_def read_some_def pb_istream_from_buffer_def)
  have close: "pb_close_string_substream buf_reader (buffer.sub_of (length r) (stream_over (body @ r) beyond))
      (stream_over (drop j body) (r @ beyond)) = (True, stream_over r beyond)"
    using buffer.close_substream [OF stream_over_sel(1) stream_over_sel(2) assms(4), of r beyond]
      adv_stream_drop [OF assms(4), of "r @ beyond"] adv_stream_over [of body r beyond] sub(1) [of body r] by simp
  show ?thesis
    using put make whole past close by (simp add: add.assoc)
qed

lemma pb_substream_isolated_witness:
  "pb_make_string_substream buf_reader (stream_over [2, 7, 8, 9] []) =
     (Some (stream_over [7, 8] [9]), pb_istream_from_buffer [7, 8, 9] 1) \<and>
   pb_close_string_substream buf_reader (pb_istream_from_buffer [7, 8, 9] 1) (stream_over [8] [9]) = (True, stream_over [9] [])"
proof -
  have h: "(3 :: nat) \<le> SIZE_MAX" "length [7, 8 :: u8] < 2 ^ 32" "length (varint (length [7, 8 :: u8]) @ [7, 8]) \<le> 3"
    "1 \<le> length [7, 8 :: u8]"
    by (simp_all add: SIZE_MAX_def varint_small)
  have e: "pb_encode_string buf_writer (pb_ostream_from_buffer 3) [7, 8] (length [7, 8 :: u8]) = (True, stream_filled 3 [2, 7, 8])"
    "pb_make_string_substream buf_reader (stream_over [2, 7, 8, 9] []) =
      (Some (stream_over [7, 8] [9]), pb_istream_from_buffer [7, 8, 9] 1)"
    by (code_simp, simp, code_simp)
  from pb_substream_isolated [OF h, of "[9]" "[]"] show ?thesis using e by simp
qed

end
