(* ===== verification/Skiplist.thy ===== *)
theory Skiplist
  imports Qsort
begin

text \<open>
  \<open>db/skiplist.h\<close> of LevelDB with the generator of \<open>util/random.h\<close>.  A \<open>Node *\<close> is the index of the node in the list of
  all nodes (nodes are never freed), node 0 is \<open>head_\<close>, \<open>nullptr\<close> is \<open>None\<close>.  The searches are loops over pointers: they are
  partial functions, and that they return is part of the results.  Insertions are not concurrent, as the class asks; the
  atomic accesses are plain ones.  \<open>FindGreaterOrEqual\<close> always gives the array \<open>prev\<close> here; the callers that pass a null
  pointer do not look at it.
\<close>

section \<open>Random numbers\<close>

definition Random :: "u32 \<Rightarrow> u32" where
  "Random s = (let seed = s AND 0x7fffffff in if seed = 0 \<or> seed = 2147483647 then 1 else seed)"

text \<open>The number that is returned is also the new seed.\<close>

definition Random_Next :: "u32 \<Rightarrow> u32" where
  "Random_Next seed =
     (let M = 2147483647 :: u32;
          product = ucast seed * 16807 :: u64;
          seed = ucast (drop_bit 31 product + (product AND ucast M)) :: u32
      in if seed > M then seed - M else seed)"

section \<open>Nodes\<close>

definition kMaxHeight :: nat where
  "kMaxHeight = 12"

record 'k sl_node =
  node_key :: 'k
  next_links :: "nat option list"

record 'k skiplist =
  nodes :: "'k sl_node list"
  max_height :: nat
  rnd :: u32

definition Next :: "'k sl_node list \<Rightarrow> nat \<Rightarrow> nat \<Rightarrow> nat option" where
  "Next ns x n = next_links (ns ! x) ! n"

definition SetNext :: "'k sl_node list \<Rightarrow> nat \<Rightarrow> nat \<Rightarrow> nat option \<Rightarrow> 'k sl_node list" where
  "SetNext ns x n y = ns[x := (ns ! x)\<lparr>next_links := (next_links (ns ! x))[n := y]\<rparr>]"

text \<open>The links of a new node are not initialised.\<close>

definition NewNode :: "'k \<Rightarrow> nat \<Rightarrow> 'k sl_node" where
  "NewNode key height = \<lparr>node_key = key, next_links = replicate height None\<rparr>"

text \<open>\<open>any\<close> is the key of the head, which is never looked at.\<close>

definition SkipList :: "'k \<Rightarrow> 'k skiplist" where
  "SkipList any = \<lparr>nodes = [NewNode any kMaxHeight], max_height = 1, rnd = Random 0xdeadbeef\<rparr>"

function random_height_loop :: "nat \<Rightarrow> u32 \<Rightarrow> nat \<times> u32" where
  "random_height_loop height seed =
     (if height < kMaxHeight then
        let seed = Random_Next seed
        in if unat seed mod 4 = 0 then random_height_loop (height + 1) seed else (height, seed)
      else (height, seed))"
  by pat_completeness auto
termination
  by (relation "measure (\<lambda>(height, _). kMaxHeight - height)") auto

declare random_height_loop.simps [simp del]

definition RandomHeight :: "u32 \<Rightarrow> nat \<times> u32" where
  "RandomHeight seed = random_height_loop 1 seed"

definition key_of :: "'k skiplist \<Rightarrow> nat \<Rightarrow> 'k" where
  "key_of sl x = node_key (nodes sl ! x)"

section \<open>Searching\<close>

definition KeyIsAfterNode :: "'k cmp \<Rightarrow> 'k skiplist \<Rightarrow> 'k \<Rightarrow> nat option \<Rightarrow> bool" where
  "KeyIsAfterNode cmp sl key n = (case n of None \<Rightarrow> False | Some m \<Rightarrow> cmp (key_of sl m) key < 0)"

partial_function (option) find_ge_loop ::
  "'k cmp \<Rightarrow> 'k skiplist \<Rightarrow> 'k \<Rightarrow> nat \<Rightarrow> nat \<Rightarrow> nat list \<Rightarrow> (nat option \<times> nat list) option" where
  "find_ge_loop cmp sl key x level prev =
     (let next = Next (nodes sl) x level
      in if KeyIsAfterNode cmp sl key next then find_ge_loop cmp sl key (the next) level prev
         else
           let prev = prev[level := x]
           in if level = 0 then Some (next, prev) else find_ge_loop cmp sl key x (level - 1) prev)"

text \<open>The node and the array \<open>prev\<close>.\<close>

definition FindGreaterOrEqual :: "'k cmp \<Rightarrow> 'k skiplist \<Rightarrow> 'k \<Rightarrow> (nat option \<times> nat list) option" where
  "FindGreaterOrEqual cmp sl key = find_ge_loop cmp sl key 0 (max_height sl - 1) (replicate kMaxHeight 0)"

partial_function (option) find_lt_loop :: "'k cmp \<Rightarrow> 'k skiplist \<Rightarrow> 'k \<Rightarrow> nat \<Rightarrow> nat \<Rightarrow> nat option" where
  "find_lt_loop cmp sl key x level =
     (let next = Next (nodes sl) x level
      in if next = None \<or> cmp (key_of sl (the next)) key \<ge> 0 then
           if level = 0 then Some x else find_lt_loop cmp sl key x (level - 1)
         else find_lt_loop cmp sl key (the next) level)"

definition FindLessThan :: "'k cmp \<Rightarrow> 'k skiplist \<Rightarrow> 'k \<Rightarrow> nat option" where
  "FindLessThan cmp sl key = find_lt_loop cmp sl key 0 (max_height sl - 1)"

partial_function (option) find_last_loop :: "'k skiplist \<Rightarrow> nat \<Rightarrow> nat \<Rightarrow> nat option" where
  "find_last_loop sl x level =
     (let next = Next (nodes sl) x level
      in if next = None then (if level = 0 then Some x else find_last_loop sl x (level - 1))
         else find_last_loop sl (the next) level)"

definition FindLast :: "'k skiplist \<Rightarrow> nat option" where
  "FindLast sl = find_last_loop sl 0 (max_height sl - 1)"

definition Contains :: "'k cmp \<Rightarrow> 'k skiplist \<Rightarrow> 'k \<Rightarrow> bool option" where
  "Contains cmp sl key = (case FindGreaterOrEqual cmp sl key of
     None \<Rightarrow> None
   | Some (x, _) \<Rightarrow> Some (case x of None \<Rightarrow> False | Some n \<Rightarrow> cmp key (key_of sl n) = 0))"

section \<open>Insertion\<close>

text \<open>The loop that links node \<open>x\<close> into the lowest lists.\<close>

primrec link_loop :: "nat \<Rightarrow> nat list \<Rightarrow> nat \<Rightarrow> 'k sl_node list \<Rightarrow> 'k sl_node list" where
  "link_loop x prev 0 ns = ns"
| "link_loop x prev (Suc i) ns =
     (let ns = link_loop x prev i ns;
          ns = SetNext ns x i (Next ns (prev ! i) i)
      in SetNext ns (prev ! i) i (Some x))"

primrec head_prev :: "nat \<Rightarrow> nat \<Rightarrow> nat list \<Rightarrow> nat list" where
  "head_prev i 0 prev = prev"
| "head_prev i (Suc n) prev = head_prev (Suc i) n (prev[i := 0])"

definition Insert :: "'k cmp \<Rightarrow> 'k skiplist \<Rightarrow> 'k \<Rightarrow> 'k skiplist option" where
  "Insert cmp sl key = (case FindGreaterOrEqual cmp sl key of
     None \<Rightarrow> None
   | Some (_, prev) \<Rightarrow>
       let (height, seed) = RandomHeight (rnd sl);
           (prev, mh) = (if height > max_height sl
                         then (head_prev (max_height sl) (height - max_height sl) prev, height)
                         else (prev, max_height sl));
           x = length (nodes sl);
           ns = nodes sl @ [NewNode key height]
       in Some \<lparr>nodes = link_loop x prev height ns, max_height = mh, rnd = seed\<rparr>)"

declare find_ge_loop.simps [code] find_lt_loop.simps [code] find_last_loop.simps [code]

section \<open>Iterators\<close>

text \<open>An iterator is its node, \<open>None\<close> when it is not valid.\<close>

definition It_Next :: "'k skiplist \<Rightarrow> nat \<Rightarrow> nat option" where
  "It_Next sl x = Next (nodes sl) x 0"

definition It_Prev :: "'k cmp \<Rightarrow> 'k skiplist \<Rightarrow> nat \<Rightarrow> nat option option" where
  "It_Prev cmp sl x = (case FindLessThan cmp sl (key_of sl x) of
     None \<Rightarrow> None | Some y \<Rightarrow> Some (if y = 0 then None else Some y))"

definition It_Seek :: "'k cmp \<Rightarrow> 'k skiplist \<Rightarrow> 'k \<Rightarrow> nat option option" where
  "It_Seek cmp sl target = (case FindGreaterOrEqual cmp sl target of None \<Rightarrow> None | Some (x, _) \<Rightarrow> Some x)"

definition It_SeekToFirst :: "'k skiplist \<Rightarrow> nat option" where
  "It_SeekToFirst sl = Next (nodes sl) 0 0"

definition It_SeekToLast :: "'k skiplist \<Rightarrow> nat option option" where
  "It_SeekToLast sl = (case FindLast sl of None \<Rightarrow> None | Some x \<Rightarrow> Some (if x = 0 then None else Some x))"

section \<open>Chains of links\<close>

text \<open>\<open>xs\<close> are the nodes that follow \<open>x\<close> along one level.\<close>

fun chain :: "(nat \<Rightarrow> nat option) \<Rightarrow> nat \<Rightarrow> nat list \<Rightarrow> bool" where
  "chain nx x [] \<longleftrightarrow> nx x = None"
| "chain nx x (y # ys) \<longleftrightarrow> nx x = Some y \<and> chain nx y ys"

lemma chain_next: "chain nx x ys \<Longrightarrow> nx x = (case ys of [] \<Rightarrow> None | y # _ \<Rightarrow> Some y)"
  by (cases ys) auto

lemma chain_suffix: "chain nx x (xs @ y # ys) \<Longrightarrow> chain nx y ys"
  by (induction xs arbitrary: x) auto

lemma chain_last: "chain nx x (xs @ ys) \<Longrightarrow> chain nx (last (x # xs)) ys"
  by (induction xs arbitrary: x) auto

lemma chain_cong: "chain nx x xs \<Longrightarrow> (\<And>y. y \<in> set (x # xs) \<Longrightarrow> nx' y = nx y) \<Longrightarrow> chain nx' x xs"
  by (induction xs arbitrary: x) auto

text \<open>Putting \<open>n\<close> behind the nodes \<open>xs\<close>.\<close>

lemma chain_insert:
  assumes "chain nx x (xs @ ys)" and "distinct (x # xs @ ys)" and "n \<notin> set (x # xs @ ys)"
    and "nx' (last (x # xs)) = Some n" and "nx' n = nx (last (x # xs))"
    and "\<And>y. y \<in> set (x # xs @ ys) \<Longrightarrow> y \<noteq> last (x # xs) \<Longrightarrow> nx' y = nx y"
  shows "chain nx' x (xs @ n # ys)"
  using assms
proof (induction xs arbitrary: x)
  case Nil
  have eq: "nx' y = nx y" if "y \<in> set ys" for y using Nil that by auto
  have "chain nx' n ys"
  proof (cases ys)
    case Nil': Nil
    then show ?thesis using Nil by simp
  next
    case (Cons y zs)
    then have "chain nx y zs" using Nil by simp
    then have "chain nx' y zs" by (rule chain_cong) (use eq Cons in auto)
    then show ?thesis using Nil Cons by simp
  qed
  then show ?case using Nil by simp
next
  case (Cons y xs)
  have "x \<noteq> last (x # y # xs)" using Cons.prems(2) by (auto dest: last_in_set)
  then have "nx' x = nx x" using Cons.prems(6) [of x] by simp
  moreover have "chain nx' y (xs @ n # ys)"
    using Cons.prems by (intro Cons.IH) auto
  ultimately show ?case using Cons.prems(1) by simp
qed

section \<open>The representation\<close>

definition hgt :: "'k sl_node list \<Rightarrow> nat \<Rightarrow> nat" where
  "hgt ns x = length (next_links (ns ! x))"

text \<open>The nodes of \<open>xs\<close> that are linked at level \<open>i\<close>.\<close>

definition lane :: "'k sl_node list \<Rightarrow> nat \<Rightarrow> nat list \<Rightarrow> nat list" where
  "lane ns i xs = filter (\<lambda>x. i < hgt ns x) xs"

primrec traverse :: "nat \<Rightarrow> (nat \<Rightarrow> nat option) \<Rightarrow> nat \<Rightarrow> nat list" where
  "traverse 0 nx x = []"
| "traverse (Suc n) nx x = (case nx x of None \<Rightarrow> [] | Some y \<Rightarrow> y # traverse n nx y)"

definition sl_order :: "'k skiplist \<Rightarrow> nat list" where
  "sl_order sl = traverse (length (nodes sl)) (It_Next sl) 0"

definition sl_keys :: "'k skiplist \<Rightarrow> 'k list" where
  "sl_keys sl = map (key_of sl) (sl_order sl)"

definition sl_ok :: "'k cmp \<Rightarrow> 'k skiplist \<Rightarrow> nat list \<Rightarrow> bool" where
  "sl_ok cmp sl xs \<longleftrightarrow>
     nodes sl \<noteq> [] \<and> hgt (nodes sl) 0 = kMaxHeight \<and> distinct xs \<and> set xs = {1..<length (nodes sl)} \<and>
     1 \<le> max_height sl \<and> max_height sl \<le> kMaxHeight \<and>
     (\<forall>x \<in> set xs. 1 \<le> hgt (nodes sl) x \<and> hgt (nodes sl) x \<le> max_height sl) \<and>
     sorted_wrt (\<lambda>x y. cmp (key_of sl x) (key_of sl y) < 0) xs \<and>
     (\<forall>i < kMaxHeight. chain (\<lambda>x. Next (nodes sl) x i) 0 (lane (nodes sl) i xs))"

definition sl_inv :: "'k cmp \<Rightarrow> 'k skiplist \<Rightarrow> bool" where
  "sl_inv cmp sl \<longleftrightarrow> sl_ok cmp sl (sl_order sl)"

definition first :: "'a list \<Rightarrow> 'a option" where
  "first xs = (case xs of [] \<Rightarrow> None | x # _ \<Rightarrow> Some x)"

lemma first_simps [simp]: "first [] = None" "first (x # xs) = Some x"
  by (simp_all add: first_def)

lemma chain_first: "chain nx x ys \<Longrightarrow> nx x = first ys"
  by (cases ys) auto

lemma lane_append [simp]: "lane ns i (xs @ ys) = lane ns i xs @ lane ns i ys"
  by (simp add: lane_def)

lemma lane_all: "(\<And>x. x \<in> set xs \<Longrightarrow> i < hgt ns x) \<Longrightarrow> lane ns i xs = xs"
  by (simp add: lane_def)

lemma set_lane: "x \<in> set (lane ns i xs) \<longleftrightarrow> x \<in> set xs \<and> i < hgt ns x"
  by (auto simp: lane_def)

lemma traverse_chain: "chain nx x xs \<Longrightarrow> length xs \<le> n \<Longrightarrow> traverse n nx x = xs"
proof (induction xs arbitrary: n x)
  case Nil
  then show ?case by (cases n) auto
next
  case (Cons y ys)
  then show ?case by (cases n) auto
qed

lemma lowest_chain:
  assumes "sl_ok cmp sl xs"
  shows "chain (It_Next sl) 0 xs"
proof -
  have "chain (\<lambda>x. Next (nodes sl) x 0) 0 (lane (nodes sl) 0 xs)"
    using assms by (simp add: sl_ok_def kMaxHeight_def)
  moreover have "lane (nodes sl) 0 xs = xs"
    using assms by (intro lane_all) (simp add: sl_ok_def Suc_le_eq)
  ultimately show ?thesis by (simp add: It_Next_def [abs_def])
qed

lemma sl_ok_order:
  assumes "sl_ok cmp sl xs"
  shows "sl_order sl = xs"
proof -
  have "distinct xs" and xs: "set xs = {1..<length (nodes sl)}" using assms by (simp_all add: sl_ok_def)
  then have "length xs = card {1..<length (nodes sl)}" using distinct_card [of xs] by simp
  then have l: "length xs \<le> length (nodes sl)" by simp
  then show ?thesis using lowest_chain [OF assms] by (simp add: sl_order_def traverse_chain)
qed

lemma sl_ok_inv: "sl_ok cmp sl xs \<Longrightarrow> sl_inv cmp sl \<and> sl_order sl = xs"
  by (simp add: sl_inv_def sl_ok_order)

lemma sl_ok_SkipList: "sl_ok cmp (SkipList any) []"
  by (auto simp: sl_ok_def SkipList_def NewNode_def hgt_def kMaxHeight_def Next_def lane_def)

section \<open>The searches\<close>

primrec fill :: "('s \<Rightarrow> nat \<Rightarrow> nat \<Rightarrow> 's) \<Rightarrow> (nat \<Rightarrow> nat) \<Rightarrow> nat \<Rightarrow> 's \<Rightarrow> 's" where
  "fill upd g 0 s = upd s 0 (g 0)"
| "fill upd g (Suc i) s = fill upd g i (upd s (Suc i) (g (Suc i)))"

lemma lane_down:
  "\<exists>us vs. lane ns i xs = us @ vs \<and> last (a # us) = last (a # lane ns (Suc i) xs)"
proof (cases "lane ns (Suc i) xs = []")
  case True
  then show ?thesis by (intro exI [of _ "[]"] exI [of _ "lane ns i xs"]) simp
next
  case False
  let ?x = "last (lane ns (Suc i) xs)"
  have "?x \<in> set (lane ns (Suc i) xs)" using False by simp
  then have "?x \<in> set (lane ns i xs)" by (auto simp: set_lane)
  then obtain us vs where "lane ns i xs = us @ ?x # vs" by (meson split_list)
  then show ?thesis using False by (intro exI [of _ "us @ [?x]"] exI [of _ vs]) simp
qed

text \<open>
  The three loops have one shape: go right while the next node satisfies \<open>after\<close>, else record the node and go down, and at
  level 0 return.
\<close>

definition goes_on :: "'k sl_node list \<Rightarrow> (nat \<Rightarrow> bool) \<Rightarrow> nat \<Rightarrow> nat \<Rightarrow> bool" where
  "goes_on ns after x i = (case Next ns x i of None \<Rightarrow> False | Some y \<Rightarrow> after y)"

lemma search_walk:
  fixes f :: "nat \<Rightarrow> nat \<Rightarrow> 's \<Rightarrow> 'r"
  assumes loop: "\<And>x i s. f x i s = (if goes_on ns after x i then f (the (Next ns x i)) i s
      else if i = 0 then fin x (Next ns x i) (upd s i x) else f x (i - 1) (upd s i x))"
    and "chain (\<lambda>x. Next ns x i) x (xs @ ys)" and "\<forall>y \<in> set xs. after y" and "\<forall>y \<in> set ys. \<not> after y"
  shows "f x i s = (let x = last (x # xs); s = upd s i x in if i = 0 then fin x (first ys) s else f x (i - 1) s)"
  using assms(2-4)
proof (induction xs arbitrary: x)
  case Nil
  then have n: "Next ns x i = first ys" using chain_first [of "\<lambda>x. Next ns x i" x ys] by simp
  have "\<not> goes_on ns after x i" using n Nil by (cases ys) (auto simp: goes_on_def)
  then show ?case using n by (subst loop) auto
next
  case (Cons y xs)
  then have n: "Next ns x i = Some y" and "after y" by simp_all
  then have "goes_on ns after x i" by (simp add: goes_on_def)
  then have "f x i s = f y i s" using n by (subst loop) simp
  then show ?case using Cons by simp
qed

lemma search:
  fixes f :: "nat \<Rightarrow> nat \<Rightarrow> 's \<Rightarrow> 'r"
  assumes loop: "\<And>x i s. f x i s = (if goes_on ns after x i then f (the (Next ns x i)) i s
      else if i = 0 then fin x (Next ns x i) (upd s i x) else f x (i - 1) (upd s i x))"
    and A: "\<forall>y \<in> set A. after y" and B: "\<forall>y \<in> set B. \<not> after y"
    and low: "\<forall>y \<in> set (A @ B). 0 < hgt ns y"
    and "\<forall>j \<le> i. chain (\<lambda>x. Next ns x j) 0 (lane ns j (A @ B))"
    and "lane ns i A = us @ vs"
  shows "f (last (0 # us)) i s = fin (last (0 # A)) (first B) (fill upd (\<lambda>j. last (0 # lane ns j A)) i s)"
  using assms(5,6)
proof (induction i arbitrary: us vs s)
  case 0
  have all: "lane ns 0 A = A" "lane ns 0 B = B" using low by (auto intro: lane_all)
  have "chain (\<lambda>x. Next ns x 0) (last (0 # us)) (vs @ B)"
    using 0 all chain_last [of "\<lambda>x. Next ns x 0" 0 us "vs @ B"] by simp
  moreover have "last (last (0 # us) # vs) = last (0 # A)" using 0(2) all by (cases vs rule: rev_cases) auto
  moreover have "\<forall>y \<in> set vs. after y" using 0(2) all A by auto
  ultimately show ?case using search_walk [OF loop, of 0 "last (0 # us)" vs B s] B all by (simp add: Let_def)
next
  case (Suc i)
  have "chain (\<lambda>x. Next ns x (Suc i)) 0 (us @ vs @ lane ns (Suc i) B)" using Suc.prems by auto
  then have "chain (\<lambda>x. Next ns x (Suc i)) (last (0 # us)) (vs @ lane ns (Suc i) B)" by (rule chain_last)
  moreover have last: "last (last (0 # us) # vs) = last (0 # lane ns (Suc i) A)"
    using Suc.prems(2) by (cases vs rule: rev_cases) auto
  moreover have "set vs \<subseteq> set (lane ns (Suc i) A)" using Suc.prems(2) by simp
  then have "\<forall>y \<in> set vs. after y" using A by (auto simp: set_lane)
  moreover have "\<forall>y \<in> set (lane ns (Suc i) B). \<not> after y" using B by (auto simp: set_lane)
  ultimately have "f (last (0 # us)) (Suc i) s =
      f (last (0 # lane ns (Suc i) A)) i (upd s (Suc i) (last (0 # lane ns (Suc i) A)))"
    using search_walk [OF loop, of "Suc i" "last (0 # us)" vs "lane ns (Suc i) B" s] by (simp only: Let_def last) simp
  also obtain us' vs' where d: "lane ns i A = us' @ vs'" "last (0 # us') = last (0 # lane ns (Suc i) A)"
    using lane_down [of ns i A 0] by blast
  then have "f (last (0 # lane ns (Suc i) A)) i (upd s (Suc i) (last (0 # lane ns (Suc i) A))) =
      fin (last (0 # A)) (first B) (fill upd (\<lambda>j. last (0 # lane ns j A)) (Suc i) s)"
    using Suc.IH [of us' vs' "upd s (Suc i) (last (0 # lane ns (Suc i) A))"] Suc.prems(1) by simp
  finally show ?case .
qed

lemma search_inv:
  fixes f :: "nat \<Rightarrow> nat \<Rightarrow> 's \<Rightarrow> 'r"
  assumes loop: "\<And>x i s. f x i s = (if goes_on (nodes sl) after x i then f (the (Next (nodes sl) x i)) i s
      else if i = 0 then fin x (Next (nodes sl) x i) (upd s i x) else f x (i - 1) (upd s i x))"
    and ok: "sl_ok cmp sl (A @ B)"
    and A: "\<forall>y \<in> set A. after y" and B: "\<forall>y \<in> set B. \<not> after y"
  shows "f 0 (max_height sl - 1) s =
    fin (last (0 # A)) (first B) (fill upd (\<lambda>j. last (0 # lane (nodes sl) j A)) (max_height sl - 1) s)"
proof -
  have "\<forall>j \<le> max_height sl - 1. chain (\<lambda>x. Next (nodes sl) x j) 0 (lane (nodes sl) j (A @ B))"
    using ok by (auto simp: sl_ok_def)
  moreover have "\<forall>y \<in> set (A @ B). 0 < hgt (nodes sl) y"
    using ok unfolding sl_ok_def by (metis less_le_trans zero_less_one)
  ultimately show ?thesis using search [OF loop A B, of "max_height sl - 1" "[]"] by simp
qed

lemma fill_prev:
  assumes "i < length prev"
  shows "length (fill (\<lambda>prev i x. prev[i := x]) g i prev) = length prev"
    and "j < length prev \<Longrightarrow> fill (\<lambda>prev i x. prev[i := x]) g i prev ! j = (if j \<le> i then g j else prev ! j)"
  using assms by (induction i arbitrary: prev) (auto simp: nth_list_update le_Suc_eq)

text \<open>The nodes before and from a key on.\<close>

definition nodes_lt :: "'k cmp \<Rightarrow> 'k skiplist \<Rightarrow> 'k \<Rightarrow> nat list \<Rightarrow> nat list" where
  "nodes_lt cmp sl key xs = takeWhile (\<lambda>x. cmp (key_of sl x) key < 0) xs"

definition nodes_ge :: "'k cmp \<Rightarrow> 'k skiplist \<Rightarrow> 'k \<Rightarrow> nat list \<Rightarrow> nat list" where
  "nodes_ge cmp sl key xs = dropWhile (\<lambda>x. cmp (key_of sl x) key < 0) xs"

lemma nodes_split: "nodes_lt cmp sl key xs @ nodes_ge cmp sl key xs = xs"
  by (simp add: nodes_lt_def nodes_ge_def)

lemma nodes_lt_less: "x \<in> set (nodes_lt cmp sl key xs) \<Longrightarrow> cmp (key_of sl x) key < 0"
  unfolding nodes_lt_def by (drule set_takeWhileD) simp

lemma nodes_ge_ge:
  assumes "comparator cmp" and "sorted_wrt (\<lambda>x y. cmp (key_of sl x) (key_of sl y) < 0) xs"
  shows "x \<in> set (nodes_ge cmp sl key xs) \<Longrightarrow> \<not> cmp (key_of sl x) key < 0"
  using assms(2)
proof (induction xs)
  case Nil
  then show ?case by (simp add: nodes_ge_def)
next
  case (Cons y ys)
  show ?case
  proof (cases "cmp (key_of sl y) key < 0")
    case True
    then show ?thesis using Cons by (simp add: nodes_ge_def)
  next
    case False
    then have "x = y \<or> cmp (key_of sl y) (key_of sl x) < 0" using Cons.prems by (auto simp: nodes_ge_def)
    then show ?thesis
    proof
      assume lt: "cmp (key_of sl y) (key_of sl x) < 0"
      show ?thesis
      proof
        assume "cmp (key_of sl x) key < 0"
        then have "cmp (key_of sl y) key \<le> 0" using lt comparator.cmp_trans [OF assms(1), of "key_of sl y" "key_of sl x" key] by simp
        then have "cmp (key_of sl y) key = 0" using False by simp
        then have "cmp key (key_of sl y) \<le> 0" using comparator.cmp_zero_sym [OF assms(1), of key "key_of sl y"] by simp
        then have "cmp (key_of sl x) (key_of sl y) \<le> 0"
          using \<open>cmp (key_of sl x) key < 0\<close> comparator.cmp_trans [OF assms(1), of "key_of sl x" key "key_of sl y"] by simp
        then show False using lt comparator.cmp_sym [OF assms(1), of "key_of sl y" "key_of sl x"] by simp
      qed
    qed (use False in simp)
  qed
qed

lemma find_ge:
  assumes "comparator cmp" and ok: "sl_ok cmp sl xs"
  shows "\<exists>prev. FindGreaterOrEqual cmp sl key = Some (first (nodes_ge cmp sl key xs), prev) \<and> length prev = kMaxHeight \<and>
    (\<forall>j < max_height sl. prev ! j = last (0 # lane (nodes sl) j (nodes_lt cmp sl key xs)))"
proof -
  let ?A = "nodes_lt cmp sl key xs" and ?B = "nodes_ge cmp sl key xs"
  let ?fill = "fill (\<lambda>prev i x. prev[i := x]) (\<lambda>j. last (0 # lane (nodes sl) j ?A)) (max_height sl - 1) (replicate kMaxHeight 0)"
  have sorted: "sorted_wrt (\<lambda>x y. cmp (key_of sl x) (key_of sl y) < 0) xs" using ok by (simp add: sl_ok_def)
  have "find_ge_loop cmp sl key 0 (max_height sl - 1) (replicate kMaxHeight 0) = Some (first ?B, ?fill)"
  proof (rule search_inv [where fin = "\<lambda>_ next prev. Some (next, prev)" and cmp = cmp and
        after = "\<lambda>y. cmp (key_of sl y) key < 0" and f = "\<lambda>x i s. find_ge_loop cmp sl key x i s"])
    show "sl_ok cmp sl (?A @ ?B)" using ok by (simp only: nodes_split)
    show "find_ge_loop cmp sl key x i s = (if goes_on (nodes sl) (\<lambda>y. cmp (key_of sl y) key < 0) x i
      then find_ge_loop cmp sl key (the (Next (nodes sl) x i)) i s
      else if i = 0 then Some (Next (nodes sl) x i, s[i := x]) else find_ge_loop cmp sl key x (i - 1) (s[i := x]))" for x i s
      by (subst find_ge_loop.simps) (simp add: Let_def goes_on_def KeyIsAfterNode_def)
  qed (auto dest: nodes_lt_less nodes_ge_ge [OF assms(1) sorted])
  moreover have "max_height sl - 1 < kMaxHeight" and "max_height sl \<le> kMaxHeight" "1 \<le> max_height sl" using ok by (auto simp: sl_ok_def)
  ultimately show ?thesis
    using fill_prev [where i = "max_height sl - 1" and prev = "replicate kMaxHeight 0" and g = "\<lambda>j. last (0 # lane (nodes sl) j ?A)"]
    by (auto simp: FindGreaterOrEqual_def)
qed

lemma find_lt:
  assumes "comparator cmp" and ok: "sl_ok cmp sl xs"
  shows "FindLessThan cmp sl key = Some (last (0 # nodes_lt cmp sl key xs))"
proof -
  let ?A = "nodes_lt cmp sl key xs" and ?B = "nodes_ge cmp sl key xs"
  have sorted: "sorted_wrt (\<lambda>x y. cmp (key_of sl x) (key_of sl y) < 0) xs" using ok by (simp add: sl_ok_def)
  have "(\<lambda>_. find_lt_loop cmp sl key 0 (max_height sl - 1)) () = Some (last (0 # ?A))"
  proof (rule search_inv [where fin = "\<lambda>x _ _. Some x" and cmp = cmp and B = ?B and upd = "\<lambda>_ _ _. ()" and s = "()" and
        after = "\<lambda>y. cmp (key_of sl y) key < 0" and f = "\<lambda>x i _. find_lt_loop cmp sl key x i"])
    show "sl_ok cmp sl (?A @ ?B)" using ok by (simp only: nodes_split)
    show "find_lt_loop cmp sl key x i = (if goes_on (nodes sl) (\<lambda>y. cmp (key_of sl y) key < 0) x i
      then find_lt_loop cmp sl key (the (Next (nodes sl) x i)) i
      else if i = 0 then Some x else find_lt_loop cmp sl key x (i - 1))" for x i
      by (subst find_lt_loop.simps) (auto simp: Let_def goes_on_def split: option.splits)
  qed (auto dest: nodes_lt_less nodes_ge_ge [OF assms(1) sorted])
  then show ?thesis by (simp add: FindLessThan_def)
qed

lemma find_last:
  assumes ok: "sl_ok cmp sl xs"
  shows "FindLast sl = Some (last (0 # xs))"
proof -
  have "(\<lambda>_. find_last_loop sl 0 (max_height sl - 1)) () = Some (last (0 # xs))"
  proof (rule search_inv [where fin = "\<lambda>x _ _. Some x" and cmp = cmp and B = "[]" and upd = "\<lambda>_ _ _. ()" and s = "()" and
        after = "\<lambda>y. True" and f = "\<lambda>x i _. find_last_loop sl x i"])
    show "sl_ok cmp sl (xs @ [])" using ok by simp
    show "find_last_loop sl x i = (if goes_on (nodes sl) (\<lambda>y. True) x i
      then find_last_loop sl (the (Next (nodes sl) x i)) i
      else if i = 0 then Some x else find_last_loop sl x (i - 1))" for x i
      by (subst find_last_loop.simps) (auto simp: Let_def goes_on_def split: option.splits)
  qed auto
  then show ?thesis by (simp add: FindLast_def)
qed

section \<open>Linking a node\<close>

lemma random_height_loop_bounds: "h \<le> kMaxHeight \<Longrightarrow> h \<le> fst (random_height_loop h s) \<and> fst (random_height_loop h s) \<le> kMaxHeight"
proof (induction h s rule: random_height_loop.induct)
  case (1 h s)
  show ?case
  proof (cases "h < kMaxHeight \<and> unat (Random_Next s) mod 4 = 0")
    case True
    then have "random_height_loop h s = random_height_loop (h + 1) (Random_Next s)"
      by (subst random_height_loop.simps) (simp add: Let_def)
    then show ?thesis using 1 True by simp
  next
    case False
    then have "fst (random_height_loop h s) = h" by (subst random_height_loop.simps) (auto simp: Let_def)
    then show ?thesis using 1 by simp
  qed
qed

lemma RandomHeight_bounds: "RandomHeight s = (h, s') \<Longrightarrow> 1 \<le> h \<and> h \<le> kMaxHeight"
  using random_height_loop_bounds [of 1 s] by (simp add: RandomHeight_def kMaxHeight_def)

lemma nth_list_update_if: "xs[i := v] ! j = (if i = j \<and> j < length xs then v else xs ! j)"
  by (cases "i = j") (auto simp: list_update_beyond)

lemma SetNext_basic [simp]:
  "length (SetNext ns a n v) = length ns" "node_key (SetNext ns a n v ! y) = node_key (ns ! y)" "hgt (SetNext ns a n v) y = hgt ns y"
  by (simp_all add: SetNext_def hgt_def nth_list_update_if)

lemma Next_SetNext:
  "Next (SetNext ns a n v) y m = (if y = a \<and> m = n \<and> a < length ns \<and> n < hgt ns a then v else Next ns y m)"
  by (auto simp: SetNext_def Next_def hgt_def nth_list_update_if)

lemma link_loop_basic [simp]:
  "length (link_loop x prev h ns) = length ns" "node_key (link_loop x prev h ns ! y) = node_key (ns ! y)"
  "hgt (link_loop x prev h ns) y = hgt ns y"
  by (induction h) (simp_all add: Let_def)

lemma Next_link_loop:
  assumes "x < length ns" "h \<le> hgt ns x" and "\<forall>j < h. prev ! j < length ns \<and> prev ! j \<noteq> x \<and> j < hgt ns (prev ! j)"
  shows "Next (link_loop x prev h ns) y j =
    (if j < h \<and> y = x then Next ns (prev ! j) j else if j < h \<and> y = prev ! j then Some x else Next ns y j)"
  using assms
proof (induction h arbitrary: y j)
  case 0
  then show ?case by simp
next
  case (Suc h)
  let ?ns = "link_loop x prev h ns"
  have old: "Next ?ns y j = (if j < h \<and> y = x then Next ns (prev ! j) j else if j < h \<and> y = prev ! j then Some x else Next ns y j)"
    for y j using Suc.IH [of y j] Suc.prems by simp
  have p: "prev ! h < length ns" "prev ! h \<noteq> x" "h < hgt ns (prev ! h)" "h < hgt ns x" using Suc.prems by auto
  have "Next (link_loop x prev (Suc h) ns) y j =
      (if y = prev ! h \<and> j = h then Some x else if y = x \<and> j = h then Next ?ns (prev ! h) h else Next ?ns y j)"
    using p Suc.prems(1) by (simp add: Let_def Next_SetNext)
  moreover have "Next ?ns (prev ! h) h = Next ns (prev ! h) h" using Suc by simp
  ultimately show ?case using old [of y] p by (cases "j = h") (auto simp: less_Suc_eq)
qed

lemma head_prev_nth:
  "length (head_prev i n prev) = length prev \<and>
   (i + n \<le> length prev \<longrightarrow> (\<forall>j < length prev. head_prev i n prev ! j = (if i \<le> j \<and> j < i + n then 0 else prev ! j)))"
  by (induction n arbitrary: i prev) (auto simp: nth_list_update_if)

text \<open>The links of the old nodes and of the new one, \<open>n\<close>, when \<open>g j\<close> is the node before it at level \<open>j\<close>.\<close>

lemma linked_chain:
  assumes "chain (\<lambda>x. Next ns x j) 0 (lane ns j A @ lane ns j B)" and "distinct (0 # A @ B)"
    and "\<forall>x \<in> set (0 # A @ B). x < n" and g: "g = last (0 # lane ns j A)"
    and hgt: "\<forall>x < n. hgt ns' x = hgt ns x" "hgt ns' n = h"
    and old: "\<forall>y < n. Next ns' y j = (if j < h \<and> y = g then Some n else Next ns y j)"
    and new: "j < h \<Longrightarrow> Next ns' n j = Next ns g j"
  shows "chain (\<lambda>x. Next ns' x j) 0 (lane ns' j (A @ n # B))"
proof -
  have same: "lane ns' j xs = lane ns j xs" if "\<forall>x \<in> set xs. x < n" for xs
    unfolding lane_def using that hgt(1) by (intro filter_cong) auto
  have A: "lane ns' j A = lane ns j A" and B: "lane ns' j B = lane ns j B"
    using assms(3) by (auto intro: same)
  have sub: "set (0 # lane ns j A @ lane ns j B) \<subseteq> set (0 # A @ B)" by (auto simp: set_lane)
  then have lt: "y < n" if "y \<in> set (0 # lane ns j A @ lane ns j B)" for y using that assms(3) by blast
  show ?thesis
  proof (cases "j < h")
    case False
    then have "lane ns' j (A @ n # B) = lane ns j A @ lane ns j B" using A B hgt(2) by (simp add: lane_def)
    moreover have "Next ns' y j = Next ns y j" if "y \<in> set (0 # lane ns j A @ lane ns j B)" for y
      using old lt [OF that] False by simp
    then have "chain (\<lambda>x. Next ns' x j) 0 (lane ns j A @ lane ns j B)" by (rule chain_cong [OF assms(1)])
    ultimately show ?thesis by simp
  next
    case True
    then have "lane ns' j (A @ n # B) = lane ns j A @ n # lane ns j B" using A B hgt(2) by (simp add: lane_def)
    moreover have "chain (\<lambda>x. Next ns' x j) 0 (lane ns j A @ n # lane ns j B)"
    proof (rule chain_insert [OF assms(1)])
      show "distinct (0 # lane ns j A @ lane ns j B)" using assms(2) by (simp add: lane_def) blast
      show "n \<notin> set (0 # lane ns j A @ lane ns j B)" using lt by blast
      have "g \<in> set (0 # lane ns j A @ lane ns j B)" using g by (cases "lane ns j A = []") simp_all
      then have "g < n" by (rule lt)
      then show "Next ns' (last (0 # lane ns j A)) j = Some n" using True old g by simp
      show "Next ns' n j = Next ns (last (0 # lane ns j A)) j" using new True g by simp
      show "Next ns' y j = Next ns y j"
        if "y \<in> set (0 # lane ns j A @ lane ns j B)" "y \<noteq> last (0 # lane ns j A)" for y
        using that(2) lt [OF that(1)] old g by simp
    qed
    ultimately show ?thesis by simp
  qed
qed

lemma Insert_prev:
  assumes "length prev = kMaxHeight" and "h \<le> kMaxHeight" and "mh \<le> kMaxHeight"
    and "\<forall>j < mh. prev ! j = f j" and "\<forall>j \<ge> mh. f j = 0" and "j < h"
  shows "(if mh < h then head_prev mh (h - mh) prev else prev) ! j = f j"
proof (cases "mh < h")
  case True
  then show ?thesis using assms head_prev_nth [of mh "h - mh" prev] by (cases "j < mh") auto
next
  case False
  then show ?thesis using assms by simp
qed

lemma Insert_ok:
  assumes cmp: "comparator cmp" and ok: "sl_ok cmp sl xs" and new: "\<forall>x \<in> set xs. cmp (key_of sl x) key \<noteq> 0"
  defines "n \<equiv> length (nodes sl)"
  shows "\<exists>sl'. Insert cmp sl key = Some sl' \<and> sl_ok cmp sl' (nodes_lt cmp sl key xs @ n # nodes_ge cmp sl key xs) \<and>
    (\<forall>x < n. key_of sl' x = key_of sl x) \<and> key_of sl' n = key"
proof -
  let ?A = "nodes_lt cmp sl key xs" and ?B = "nodes_ge cmp sl key xs" and ?ns = "nodes sl" and ?mh = "max_height sl"
  let ?g = "\<lambda>j. last (0 # lane ?ns j ?A)"
  note ok' = ok [unfolded sl_ok_def]
  obtain prev where find: "FindGreaterOrEqual cmp sl key = Some (first ?B, prev)" "length prev = kMaxHeight"
    and prev: "\<forall>j < ?mh. prev ! j = ?g j"
    using find_ge [OF cmp ok, of key] by blast
  obtain h seed where rh: "RandomHeight (rnd sl) = (h, seed)" by force
  then have h: "1 \<le> h" "h \<le> kMaxHeight" using RandomHeight_bounds by blast+
  have sp: "?A @ ?B = xs" by (rule nodes_split)
  have AB: "x \<in> set xs" if "x \<in> set ?A \<or> x \<in> set ?B" for x using that sp by (metis Un_iff set_append)
  have mem: "x < n \<and> 1 \<le> hgt ?ns x \<and> hgt ?ns x \<le> ?mh" if "x \<in> set xs" for x using that ok' by (auto simp: n_def)
  define prev' where "prev' = (if ?mh < h then head_prev ?mh (h - ?mh) prev else prev)"
  define ns0 where "ns0 = ?ns @ [NewNode key h]"
  define ns' where "ns' = link_loop n prev' h ns0"
  define sl' where "sl' = \<lparr>nodes = ns', max_height = max h ?mh, rnd = seed\<rparr>"
  have empty: "?g j = 0" if "?mh \<le> j" for j
  proof -
    have "lane ?ns j ?A = []" unfolding lane_def filter_empty_conv using that AB mem by fastforce
    then show ?thesis by simp
  qed
  have prev': "prev' ! j = ?g j" if "j < h" for j
    unfolding prev'_def by (rule Insert_prev [OF find(2) h(2) _ prev _ that]) (use ok' empty in auto)
  have hgt0: "hgt ns0 x = (if x < n then hgt ?ns x else h)" if "x \<le> n" for x
    using that by (auto simp: hgt_def ns0_def n_def nth_append NewNode_def)
  have len: "n < length ns0" "0 < n" using ok' by (auto simp: ns0_def n_def)
  have g: "?g j < n \<and> (j < kMaxHeight \<longrightarrow> j < hgt ?ns (?g j))" for j
  proof (cases "lane ?ns j ?A = []")
    case True
    then show ?thesis using len ok' by simp
  next
    case False
    then have "?g j \<in> set (lane ?ns j ?A)" by simp
    then show ?thesis using AB mem by (auto simp: set_lane)
  qed
  have bound: "\<forall>j < h. prev' ! j < length ns0 \<and> prev' ! j \<noteq> n \<and> j < hgt ns0 (prev' ! j)"
  proof (intro allI impI)
    fix j assume "j < h"
    then have "prev' ! j < n" "j < hgt ?ns (prev' ! j)" using prev' g [of j] h(2) by simp_all
    then show "prev' ! j < length ns0 \<and> prev' ! j \<noteq> n \<and> j < hgt ns0 (prev' ! j)" using len hgt0 by simp
  qed
  have nx: "Next ns' y j = (if j < h \<and> y = n then Next ns0 (prev' ! j) j
      else if j < h \<and> y = prev' ! j then Some n else Next ns0 y j)" for y j
    unfolding ns'_def by (rule Next_link_loop [OF len(1) _ bound]) (simp add: hgt0)
  have nx0: "Next ns0 y j = Next ?ns y j" if "y < n" for y j
    using that by (simp add: Next_def ns0_def n_def nth_append)
  have hgt': "\<forall>x < n. hgt ns' x = hgt ?ns x" "hgt ns' n = h" using hgt0 by (simp_all add: ns'_def)
  have key0: "\<forall>x < n. node_key (ns' ! x) = node_key (?ns ! x)" "node_key (ns' ! n) = key"
    by (simp_all add: ns'_def ns0_def n_def nth_append NewNode_def)
  then have key: "\<forall>x < n. key_of sl' x = key_of sl x" "key_of sl' n = key" by (simp_all add: key_of_def sl'_def)
  have "Insert cmp sl key = Some sl'"
    using rh by (auto simp: Insert_def find(1) Let_def sl'_def ns'_def ns0_def prev'_def n_def max_def)
  moreover have "sl_ok cmp sl' (?A @ n # ?B)"
    unfolding sl_ok_def
  proof (intro conjI)
    have l: "length ns' = Suc n" by (simp add: ns'_def ns0_def n_def)
    then show "nodes sl' \<noteq> []" by (auto simp: sl'_def)
    show "hgt (nodes sl') 0 = kMaxHeight" using hgt'(1) len ok' by (simp add: sl'_def)
    have dist: "distinct (?A @ ?B)" "set (?A @ ?B) = {1..<n}" using ok' unfolding sp n_def by simp_all
    then show "distinct (?A @ n # ?B)" by auto
    show "set (?A @ n # ?B) = {1..<length (nodes sl')}" using dist(2) len(2) l by (auto simp: sl'_def)
    show "1 \<le> max_height sl'" "max_height sl' \<le> kMaxHeight" using h ok' by (simp_all add: sl'_def)
    show "\<forall>x \<in> set (?A @ n # ?B). 1 \<le> hgt (nodes sl') x \<and> hgt (nodes sl') x \<le> max_height sl'"
    proof
      fix x assume "x \<in> set (?A @ n # ?B)"
      then have "x = n \<or> x \<in> set xs" using AB by auto
      then show "1 \<le> hgt (nodes sl') x \<and> hgt (nodes sl') x \<le> max_height sl'"
        using mem [of x] hgt' h(1) by (auto simp: sl'_def le_max_iff_disj)
    qed
    have "sorted_wrt (\<lambda>x y. cmp (key_of sl x) (key_of sl y) < 0) (?A @ ?B)" using ok' unfolding sp by simp
    moreover have "cmp key (key_of sl y) < 0" if "y \<in> set ?B" for y
      using nodes_ge_ge [OF cmp _ that] ok' new AB that comparator.cmp_sym [OF cmp, of key "key_of sl y"] by force
    moreover have "\<forall>x \<in> set ?A \<union> set ?B. key_of sl' x = key_of sl x" using key(1) AB mem by blast
    ultimately show "sorted_wrt (\<lambda>x y. cmp (key_of sl' x) (key_of sl' y) < 0) (?A @ n # ?B)"
      by (auto simp: sorted_wrt_append key(2) dest: nodes_lt_less intro: sorted_wrt_mono_rel [rotated])
    show "\<forall>j < kMaxHeight. chain (\<lambda>x. Next (nodes sl') x j) 0 (lane (nodes sl') j (?A @ n # ?B))"
    proof (intro allI impI)
      fix j assume j: "j < kMaxHeight"
      have "chain (\<lambda>x. Next ns' x j) 0 (lane ns' j (?A @ n # ?B))"
      proof (rule linked_chain [OF _ _ _ refl hgt'])
        show "chain (\<lambda>x. Next ?ns x j) 0 (lane ?ns j ?A @ lane ?ns j ?B)"
          using ok' j unfolding lane_append [symmetric] sp by blast
        show "distinct (0 # ?A @ ?B)" using dist by auto
        show "\<forall>x \<in> set (0 # ?A @ ?B). x < n" using dist(2) len(2) by auto
        show "\<forall>y < n. Next ns' y j = (if j < h \<and> y = ?g j then Some n else Next ?ns y j)"
          using nx nx0 prev' by auto
        show "j < h \<Longrightarrow> Next ns' n j = Next ?ns (?g j) j" using nx nx0 prev' g by simp
      qed
      then show "chain (\<lambda>x. Next (nodes sl') x j) 0 (lane (nodes sl') j (?A @ n # ?B))" by (simp add: sl'_def)
    qed
  qed
  ultimately show ?thesis using key by blast
qed

section \<open>The list as a sorted list of keys\<close>

lemma insert_cmp_split:
  assumes "\<forall>y \<in> set ys. cmp y k < 0" and "\<forall>y \<in> set zs. cmp k y \<le> 0" and "\<forall>y \<in> set ys. \<not> cmp k y \<le> 0"
  shows "insert_cmp cmp k (ys @ zs) = ys @ k # zs"
  using assms by (induction ys) (cases zs, auto)

lemma Insert_refines:
  assumes cmp: "comparator cmp" and inv: "sl_inv cmp sl" and new: "\<forall>k \<in> set (sl_keys sl). cmp k key \<noteq> 0"
  shows "\<exists>sl'. Insert cmp sl key = Some sl' \<and> sl_inv cmp sl' \<and> sl_keys sl' = insert_cmp cmp key (sl_keys sl)"
proof -
  let ?xs = "sl_order sl" and ?n = "length (nodes sl)"
  let ?A = "nodes_lt cmp sl key ?xs" and ?B = "nodes_ge cmp sl key ?xs"
  have ok: "sl_ok cmp sl ?xs" using inv by (simp add: sl_inv_def)
  have "\<forall>x \<in> set ?xs. cmp (key_of sl x) key \<noteq> 0" using new by (simp add: sl_keys_def)
  then obtain sl' where sl': "Insert cmp sl key = Some sl'" "sl_ok cmp sl' (?A @ ?n # ?B)"
      "\<forall>x < ?n. key_of sl' x = key_of sl x" "key_of sl' ?n = key"
    using Insert_ok [OF cmp ok] by blast
  have "\<forall>x \<in> set (?A @ ?B). x < ?n" using ok unfolding nodes_split by (simp add: sl_ok_def)
  then have "map (key_of sl') (?A @ ?n # ?B) = map (key_of sl) ?A @ key # map (key_of sl) ?B"
    using sl'(3,4) by simp
  moreover have "insert_cmp cmp key (map (key_of sl) ?A @ map (key_of sl) ?B) = map (key_of sl) ?A @ key # map (key_of sl) ?B"
  proof (rule insert_cmp_split)
    have sym: "\<not> cmp key k \<le> 0 \<longleftrightarrow> cmp k key < 0" for k using comparator.cmp_sym [OF cmp, of k key] by auto
    show "\<forall>y \<in> set (map (key_of sl) ?A). cmp y key < 0" by (auto dest: nodes_lt_less)
    then show "\<forall>y \<in> set (map (key_of sl) ?A). \<not> cmp key y \<le> 0" using sym by blast
    have "sorted_wrt (\<lambda>x y. cmp (key_of sl x) (key_of sl y) < 0) ?xs" using ok by (simp add: sl_ok_def)
    then have "\<not> cmp (key_of sl x) key < 0" if "x \<in> set ?B" for x using nodes_ge_ge [OF cmp _ that] by blast
    then show "\<forall>y \<in> set (map (key_of sl) ?B). cmp key y \<le> 0" using sym by fastforce
  qed
  moreover have "map (key_of sl) ?A @ map (key_of sl) ?B = sl_keys sl"
    unfolding sl_keys_def map_append [symmetric] nodes_split ..
  ultimately show ?thesis
    using sl'(1) sl_ok_inv [OF sl'(2)] by (auto simp: sl_keys_def)
qed

lemma SkipList_empty: "sl_inv cmp (SkipList any) \<and> sl_keys (SkipList any) = []"
  using sl_ok_inv [OF sl_ok_SkipList] by (simp add: sl_keys_def)


section \<open>Properties\<close>

primrec inserts :: "'k cmp \<Rightarrow> 'k skiplist \<Rightarrow> 'k list \<Rightarrow> 'k skiplist option" where
  "inserts cmp sl [] = Some sl"
| "inserts cmp sl (k # ks) = (case Insert cmp sl k of None \<Rightarrow> None | Some sl \<Rightarrow> inserts cmp sl ks)"

lemma inserts_refine:
  assumes "comparator cmp" and "sl_inv cmp sl" and "sorted_wrt (\<lambda>a b. cmp a b \<noteq> 0) (sl_keys sl @ ks)"
    and "\<forall>a \<in> set (sl_keys sl). \<forall>b \<in> set ks. cmp a b \<noteq> 0" and "cmp_sorted cmp (sl_keys sl)"
  shows "\<exists>sl'. inserts cmp sl ks = Some sl' \<and> sl_inv cmp sl' \<and> cmp_sorted cmp (sl_keys sl') \<and>
    mset (sl_keys sl') = mset (sl_keys sl) + mset ks"
  using assms(2-5)
proof (induction ks arbitrary: sl)
  case Nil
  then show ?case by simp
next
  case (Cons k ks)
  then obtain sl1 where sl1: "Insert cmp sl k = Some sl1" "sl_inv cmp sl1" "sl_keys sl1 = insert_cmp cmp k (sl_keys sl)"
    using Insert_refines [OF assms(1) Cons.prems(1), of k] by auto
  have set: "set (sl_keys sl1) = insert k (set (sl_keys sl))" using sl1(3) by simp
  have sorted: "cmp_sorted cmp (sl_keys sl1)" using sl1(3) comparator.sorted_insert [OF assms(1) Cons.prems(4)] by simp
  have new: "\<forall>a \<in> set (sl_keys sl1). \<forall>b \<in> set ks. cmp a b \<noteq> 0"
    using Cons.prems(2,3) unfolding set by (auto simp: sorted_wrt_append)
  have "sorted_wrt (\<lambda>a b. cmp a b < 0) (sl_keys sl1)"
    using sl1(2) by (simp add: sl_inv_def sl_ok_def sl_keys_def sorted_wrt_map)
  then have "sorted_wrt (\<lambda>a b. cmp a b \<noteq> 0) (sl_keys sl1)" by (rule sorted_wrt_mono_rel [rotated]) auto
  then have "sorted_wrt (\<lambda>a b. cmp a b \<noteq> 0) (sl_keys sl1 @ ks)"
    using Cons.prems(2) new by (auto simp: sorted_wrt_append)
  from Cons.IH [OF sl1(2) this new sorted] sl1 show ?case by auto
qed

definition int_cmp :: "int cmp" where
  "int_cmp a b = a - b"

lemma int_cmp_comparator: "comparator int_cmp"
  by unfold_locales (auto simp: int_cmp_def)

lemma int_cmp_sorted: "cmp_sorted int_cmp xs = sorted xs"
  by (simp add: cmp_sorted_def int_cmp_def sorted_wrt_iff_nth_less sorted_iff_nth_mono_less)

text \<open>
  C30: the skip list refines a sorted list.  Inserting keys of which no two compare equal, in any order and whatever heights the
  random numbers give, returns, keeps the invariant of the links at every level, and the lowest level then holds exactly these
  keys in the order of the comparator.
\<close>

theorem skiplist_sorts:
  assumes "comparator cmp" and "sorted_wrt (\<lambda>a b. cmp a b \<noteq> 0) ks"
  shows "\<exists>sl. inserts cmp (SkipList any) ks = Some sl \<and> sl_inv cmp sl \<and> cmp_sorted cmp (sl_keys sl) \<and> mset (sl_keys sl) = mset ks"
  using inserts_refine [OF assms(1), of "SkipList any" ks] assms(2) SkipList_empty [of cmp any] by (simp add: cmp_sorted_def)

lemma find_first: "first (dropWhile (\<lambda>x. \<not> P x) xs) = find P xs"
  by (induction xs) auto

lemma It_Next_at:
  assumes "sl_ok cmp sl (us @ x # vs)"
  shows "It_Next sl x = first vs"
  by (rule chain_first [OF chain_suffix [OF lowest_chain [OF assms]]])

lemma nodes_lt_at:
  assumes "comparator cmp" and "sl_ok cmp sl (us @ x # vs)"
  shows "nodes_lt cmp sl (key_of sl x) (us @ x # vs) = us"
proof -
  have "cmp (key_of sl y) (key_of sl x) < 0" if "y \<in> set us" for y
    using assms(2) that by (auto simp: sl_ok_def sorted_wrt_append)
  moreover have "\<not> cmp (key_of sl x) (key_of sl x) < 0" using comparator.cmp_refl [OF assms(1)] by simp
  ultimately show ?thesis by (simp add: nodes_lt_def takeWhile_append)
qed

lemma not_head: "sl_ok cmp sl xs \<Longrightarrow> (if last (0 # xs') = 0 then None else Some (last (0 # xs'))) = first (rev xs')" if "set xs' \<subseteq> set xs"
  using that by (cases xs' rule: rev_cases) (auto simp: sl_ok_def)

lemma Contains_exact:
  assumes cmp: "comparator cmp" and ok: "sl_ok cmp sl xs"
  shows "Contains cmp sl key = Some (\<exists>k \<in> set (map (key_of sl) xs). cmp key k = 0)"
proof -
  let ?A = "nodes_lt cmp sl key xs" and ?B = "nodes_ge cmp sl key xs"
  have sorted: "sorted_wrt (\<lambda>x y. cmp (key_of sl x) (key_of sl y) < 0) xs" using ok by (simp add: sl_ok_def)
  have sorted': "sorted_wrt (\<lambda>x y. cmp (key_of sl x) (key_of sl y) < 0) (?A @ ?B)" using sorted by (simp only: nodes_split)
  have A: "cmp key (key_of sl x) \<noteq> 0" if "x \<in> set ?A" for x
    using nodes_lt_less [OF that] comparator.cmp_zero_sym [OF cmp, of key "key_of sl x"] by simp
  have "(\<exists>x \<in> set xs. cmp key (key_of sl x) = 0) \<longleftrightarrow> (\<exists>x \<in> set (?A @ ?B). cmp key (key_of sl x) = 0)"
    by (simp only: nodes_split)
  also have "\<dots> \<longleftrightarrow> (case first ?B of None \<Rightarrow> False | Some n \<Rightarrow> cmp key (key_of sl n) = 0)"
  proof (cases ?B)
    case Nil
    then show ?thesis using A by auto
  next
    case (Cons n rest)
    have "cmp key (key_of sl x) \<noteq> 0" if "x \<in> set rest" "cmp key (key_of sl n) \<noteq> 0" for x
    proof
      assume eq: "cmp key (key_of sl x) = 0"
      have "cmp (key_of sl n) (key_of sl x) < 0" using sorted' that(1) Cons by (simp add: sorted_wrt_append)
      moreover have "cmp (key_of sl x) key \<le> 0" using eq comparator.cmp_zero_sym [OF cmp, of key "key_of sl x"] by simp
      ultimately have "cmp (key_of sl n) key \<le> 0" using comparator.cmp_trans [OF cmp, of "key_of sl n" "key_of sl x" key] by simp
      then have "cmp (key_of sl n) key < 0" using that(2) comparator.cmp_zero_sym [OF cmp, of key "key_of sl n"] by linarith
      then show False using nodes_ge_ge [OF cmp sorted, of n key] Cons by simp
    qed
    then show ?thesis using Cons A by auto
  qed
  finally show ?thesis using find_ge [OF cmp ok, of key] by (auto simp: Contains_def)
qed

text \<open>
  C31: reading a skip list.  Every search returns.  \<open>Contains\<close> is membership up to the comparator, \<open>Seek\<close> gives the first node that
  is not before the target, \<open>SeekToFirst\<close> and \<open>SeekToLast\<close> the ends, and \<open>Next\<close> and \<open>Prev\<close> the neighbours in the sorted order.
\<close>

theorem skiplist_reads:
  assumes "comparator cmp" and "sl_inv cmp sl" and "sl_order sl = us @ x # vs"
  shows "Contains cmp sl key = Some (\<exists>k \<in> set (sl_keys sl). cmp key k = 0) \<and>
    It_Seek cmp sl key = Some (find (\<lambda>n. \<not> cmp (key_of sl n) key < 0) (sl_order sl)) \<and>
    It_SeekToFirst sl = first (sl_order sl) \<and> It_SeekToLast sl = Some (first (rev (sl_order sl))) \<and>
    It_Next sl x = first vs \<and> It_Prev cmp sl x = Some (first (rev us))"
proof -
  have ok: "sl_ok cmp sl (us @ x # vs)" using assms(2,3) by (simp add: sl_inv_def)
  have seek: "It_Seek cmp sl key = Some (find (\<lambda>n. \<not> cmp (key_of sl n) key < 0) (us @ x # vs))"
    using find_ge [OF assms(1) ok, of key] find_first [of "\<lambda>n. \<not> cmp (key_of sl n) key < 0" "us @ x # vs"]
    by (auto simp: It_Seek_def nodes_ge_def)
  have "It_SeekToFirst sl = first (us @ x # vs)"
    using chain_first [OF lowest_chain [OF ok]] by (simp add: It_SeekToFirst_def It_Next_def)
  moreover have "It_SeekToLast sl = Some (first (rev (us @ x # vs)))"
    using not_head [OF subset_refl ok] find_last [OF ok] by (simp only: It_SeekToLast_def option.case)
  moreover have "set us \<subseteq> set (us @ x # vs)" by auto
  then have "It_Prev cmp sl x = Some (first (rev us))"
    using not_head [OF _ ok, of us] find_lt [OF assms(1) ok, of "key_of sl x"] nodes_lt_at [OF assms(1) ok]
    by (simp add: It_Prev_def del: last.simps)
  moreover note It_Next_at [OF ok] Contains_exact [OF assms(1) ok, of key] seek
  ultimately show ?thesis by (simp only: assms(3) sl_keys_def simp_thms)
qed

lemma skiplist_sorts_witness:
  "\<exists>sl. inserts int_cmp (SkipList 0) [30, 10, 20] = Some sl \<and> sl_keys sl = [10, 20, 30]"
proof -
  have "sorted_wrt (\<lambda>a b. int_cmp a b \<noteq> 0) [30, 10, 20]" by (simp add: int_cmp_def)
  from skiplist_sorts [OF int_cmp_comparator this, of 0] obtain sl
    where sl: "inserts int_cmp (SkipList 0) [30, 10, 20] = Some sl" "cmp_sorted int_cmp (sl_keys sl)"
      "mset (sl_keys sl) = mset [30, 10, 20]" by blast
  then have "sort [30, 10, 20] = sl_keys sl" by (intro properties_for_sort) (simp_all add: int_cmp_sorted)
  then show ?thesis using sl(1) by simp
qed

lemma skiplist_reads_witness:
  "\<exists>sl x. inserts int_cmp (SkipList 0) [30, 10, 20] = Some sl \<and> key_of sl x = 20 \<and> Contains int_cmp sl 20 = Some True \<and>
     Contains int_cmp sl 15 = Some False \<and> It_Seek int_cmp sl 15 = Some (Some x) \<and>
     map_option (key_of sl) (It_Next sl x) = Some 30 \<and> It_SeekToFirst sl = the (It_Prev int_cmp sl x)"
proof -
  have "sorted_wrt (\<lambda>a b. int_cmp a b \<noteq> 0) (sl_keys (SkipList 0) @ [30, 10, 20])"
    using SkipList_empty [of int_cmp 0] by (simp add: int_cmp_def)
  then obtain sl where sl: "inserts int_cmp (SkipList 0) [30, 10, 20] = Some sl" "sl_inv int_cmp sl"
      "cmp_sorted int_cmp (sl_keys sl)" "mset (sl_keys sl) = mset [30, 10, 20]"
    using inserts_refine [OF int_cmp_comparator, of "SkipList 0" "[30, 10, 20]"] SkipList_empty [of int_cmp 0]
    by (auto simp: cmp_sorted_def)
  then have "sort [30, 10, 20] = sl_keys sl" by (intro properties_for_sort) (simp_all add: int_cmp_sorted)
  then have "map (key_of sl) (sl_order sl) = [10, 20, 30]" by (simp add: sl_keys_def)
  then obtain a b c where o: "sl_order sl = [a, b, c]" "key_of sl a = 10" "key_of sl b = 20" "key_of sl c = 30"
    by (auto simp: map_eq_Cons_conv)
  then have "sl_order sl = [a] @ b # [c]" by simp
  note reads = skiplist_reads [OF int_cmp_comparator sl(2) this]
  show ?thesis
    using reads [of 20] reads [of 15] sl(1) o by (intro exI [of _ sl] exI [of _ b]) (simp add: sl_keys_def int_cmp_def)
qed

end
