(* ===== verification/Leveldb_Coding.thy ===== *)
theory Leveldb_Coding
  imports Varint
begin

text \<open>
  \<open>util/coding.cc\<close>, \<open>util/coding.h\<close> and \<open>util/hash.cc\<close> of LevelDB: fixed-width and variable-length integers, length-prefixed
  slices, the hash of the filters and caches.  A pair of pointers \<open>p\<close>, \<open>limit\<close> and a \<open>Slice\<close> are the bytes between
  them; a pointer that is returned is the rest of these bytes, \<open>nullptr\<close> is \<open>None\<close>.  The targets of the pod are little-endian.
\<close>

section \<open>Writers\<close>

definition EncodeFixed32 :: "u32 \<Rightarrow> bytes" where
  "EncodeFixed32 v = [ucast v, ucast (drop_bit 8 v), ucast (drop_bit 16 v), ucast (drop_bit 24 v)]"

definition EncodeFixed64 :: "u64 \<Rightarrow> bytes" where
  "EncodeFixed64 v = [ucast v, ucast (drop_bit 8 v), ucast (drop_bit 16 v), ucast (drop_bit 24 v),
     ucast (drop_bit 32 v), ucast (drop_bit 40 v), ucast (drop_bit 48 v), ucast (drop_bit 56 v)]"

definition PutFixed32 :: "bytes \<Rightarrow> u32 \<Rightarrow> bytes" where
  "PutFixed32 dst v = dst @ EncodeFixed32 v"

definition PutFixed64 :: "bytes \<Rightarrow> u64 \<Rightarrow> bytes" where
  "PutFixed64 dst v = dst @ EncodeFixed64 v"

definition EncodeVarint32 :: "u32 \<Rightarrow> bytes" where
  "EncodeVarint32 v =
     (if v < 0x80 then [ucast v]
      else if v < 0x4000 then [ucast (v OR 128), ucast (drop_bit 7 v)]
      else if v < 0x200000 then [ucast (v OR 128), ucast (drop_bit 7 v OR 128), ucast (drop_bit 14 v)]
      else if v < 0x10000000 then
        [ucast (v OR 128), ucast (drop_bit 7 v OR 128), ucast (drop_bit 14 v OR 128), ucast (drop_bit 21 v)]
      else [ucast (v OR 128), ucast (drop_bit 7 v OR 128), ucast (drop_bit 14 v OR 128), ucast (drop_bit 21 v OR 128),
            ucast (drop_bit 28 v)])"

definition PutVarint32 :: "bytes \<Rightarrow> u32 \<Rightarrow> bytes" where
  "PutVarint32 dst v = dst @ EncodeVarint32 v"

function EncodeVarint64 :: "u64 \<Rightarrow> bytes" where
  "EncodeVarint64 v = (if v \<ge> 128 then ucast (v OR 128) # EncodeVarint64 (drop_bit 7 v) else [ucast v])"
  by pat_completeness auto

lemma shift_7_less:
  assumes "(128 :: u64) \<le> v"
  shows "unat (drop_bit 7 v) < unat v"
proof -
  have "128 \<le> unat v" using assms by (simp add: word_le_nat_alt)
  then have "unat v div 128 < unat v" by simp
  then show ?thesis by (simp only: unat_drop_bit_div) simp
qed

termination EncodeVarint64
  by (relation "measure unat") (simp_all add: shift_7_less)

declare EncodeVarint64.simps [simp del]

definition PutVarint64 :: "bytes \<Rightarrow> u64 \<Rightarrow> bytes" where
  "PutVarint64 dst v = dst @ EncodeVarint64 v"

definition PutLengthPrefixedSlice :: "bytes \<Rightarrow> bytes \<Rightarrow> bytes" where
  "PutLengthPrefixedSlice dst s = PutVarint32 dst (of_nat (length s)) @ s"

function VarintLength :: "u64 \<Rightarrow> nat" where
  "VarintLength v = (if v \<ge> 128 then VarintLength (drop_bit 7 v) + 1 else 1)"
  by pat_completeness auto

termination VarintLength
  by (relation "measure unat") (simp_all add: shift_7_less)

declare VarintLength.simps [simp del]

section \<open>Readers\<close>

definition DecodeFixed32 :: "bytes \<Rightarrow> u32" where
  "DecodeFixed32 p = ucast (p ! 0) OR push_bit 8 (ucast (p ! 1)) OR push_bit 16 (ucast (p ! 2)) OR push_bit 24 (ucast (p ! 3))"

definition DecodeFixed64 :: "bytes \<Rightarrow> u64" where
  "DecodeFixed64 p = push_bit 32 (ucast (DecodeFixed32 (drop 4 p))) OR ucast (DecodeFixed32 p)"

text \<open>The loop of the two readers, up to a shift of 28 for 32 bits and of 63 for 64 bits.\<close>

fun varint_ptr_loop :: "nat \<Rightarrow> nat \<Rightarrow> 'a::len word \<Rightarrow> bytes \<Rightarrow> ('a word \<times> bytes) option" where
  "varint_ptr_loop max_shift shift result [] = None"
| "varint_ptr_loop max_shift shift result (b # p) =
     (if shift \<le> max_shift then
        let byte = ucast b :: 'a word
        in if byte AND 128 \<noteq> 0 then varint_ptr_loop max_shift (shift + 7) (result OR push_bit shift (byte AND 127)) p
           else Some (result OR push_bit shift byte, p)
      else None)"

definition GetVarint32PtrFallback :: "bytes \<Rightarrow> (u32 \<times> bytes) option" where
  "GetVarint32PtrFallback p = varint_ptr_loop 28 0 0 p"

definition GetVarint32Ptr :: "bytes \<Rightarrow> (u32 \<times> bytes) option" where
  "GetVarint32Ptr p = (case p of
     b # rest \<Rightarrow> if (ucast b :: u32) AND 128 = 0 then Some (ucast b, rest) else GetVarint32PtrFallback p
   | [] \<Rightarrow> GetVarint32PtrFallback p)"

text \<open>The value, \<open>None\<close> when false is returned, and the slice.\<close>

definition GetVarint32 :: "u32 reader" where
  "GetVarint32 input = (case GetVarint32Ptr input of None \<Rightarrow> (None, input) | Some (v, q) \<Rightarrow> (Some v, q))"

definition GetVarint64Ptr :: "bytes \<Rightarrow> (u64 \<times> bytes) option" where
  "GetVarint64Ptr p = varint_ptr_loop 63 0 0 p"

definition GetVarint64 :: "u64 reader" where
  "GetVarint64 input = (case GetVarint64Ptr input of None \<Rightarrow> (None, input) | Some (v, q) \<Rightarrow> (Some v, q))"

definition GetLengthPrefixedSlicePtr :: "bytes \<Rightarrow> (bytes \<times> bytes) option" where
  "GetLengthPrefixedSlicePtr p = (case GetVarint32Ptr p of
     None \<Rightarrow> None
   | Some (len, p) \<Rightarrow> if unat len > length p then None else Some (take (unat len) p, drop (unat len) p))"

definition GetLengthPrefixedSlice :: "bytes reader" where
  "GetLengthPrefixedSlice input = (case GetVarint32 input of
     (None, input) \<Rightarrow> (None, input)
   | (Some len, input) \<Rightarrow>
       if length input \<ge> unat len then (Some (take (unat len) input), drop (unat len) input) else (None, input))"

section \<open>Hash\<close>

fun hash_loop :: "u32 \<Rightarrow> bytes \<Rightarrow> u32 \<times> bytes" where
  "hash_loop h (a # b # c # d # p) =
     (let h = h + DecodeFixed32 [a, b, c, d];
          h = h * 0xc6a4a793;
          h = h XOR drop_bit 16 h
      in hash_loop h p)"
| "hash_loop h p = (h, p)"

definition Hash :: "bytes \<Rightarrow> u32 \<Rightarrow> u32" where
  "Hash bs seed =
     (let m = 0xc6a4a793 :: u32;
          (h, p) = hash_loop (seed XOR of_nat (length bs) * m) bs;
          h = (if length p = 3 then h + push_bit 16 (ucast (p ! 2)) else h);
          h = (if length p \<ge> 2 then h + push_bit 8 (ucast (p ! 1)) else h)
      in if p = [] then h
         else
           let h = (h + ucast (p ! 0)) * m
           in h XOR drop_bit 24 h)"

section \<open>The writers produce the shortest encoding\<close>

lemma fixed32_le: "EncodeFixed32 v = le_bytes 4 (unat v)"
proof -
  have "4 = Suc (Suc (Suc (Suc 0)))" by simp
  moreover have "ucast w = (of_nat (unat w mod 256) :: u8)" for w :: u32
    by (rule word_of_nat_eqI) (simp add: unat_ucast_down)
  ultimately show ?thesis
    unfolding EncodeFixed32_def by (simp only: le_bytes_Suc le_bytes_0 unat_drop_bit_div) (simp add: div_mult2_eq [symmetric])
qed

lemma fixed64_le: "EncodeFixed64 v = le_bytes 8 (unat v)"
proof -
  have "ucast w = (of_nat (unat w mod 256) :: u8)" for w :: u64
    by (rule word_of_nat_eqI) (simp add: unat_ucast_down)
  then show ?thesis
    unfolding EncodeFixed64_def by (simp only: le_bytes_8 unat_drop_bit_div)
qed

lemma decode_fixed32_val:
  assumes "length bs = 4"
  shows "DecodeFixed32 (bs @ r) = of_nat (le_val bs)"
proof -
  obtain b0 b1 b2 b3 where bs: "bs = [b0, b1, b2, b3]"
    using assms by (auto simp: length_Suc_conv eval_nat_numeral)
  show ?thesis unfolding DecodeFixed32_def bs by (simp add: fixed32_value [symmetric] del: of_nat_unat)
qed

lemma decode_fixed32 [simp]: "DecodeFixed32 (le_bytes 4 (unat v) @ r) = v"
proof -
  have "unat v < 256 ^ 4" using unsigned_less [of v] by simp
  then show ?thesis using decode_fixed32_val [of "le_bytes 4 (unat v)" r] by (simp add: le_val_le_bytes)
qed

lemma le_val_append: "le_val (xs @ ys) = le_val xs + 256 ^ length xs * le_val ys"
  by (induction xs) (simp_all add: le_val_Cons algebra_simps)

lemma decode_fixed64_val:
  assumes "length bs = 8"
  shows "DecodeFixed64 (bs @ r) = of_nat (le_val bs)"
proof -
  let ?lo = "take 4 bs" and ?hi = "drop 4 bs"
  have l: "length ?lo = 4" "length ?hi = 4" using assms by simp_all
  have w: "unat (of_nat (le_val xs) :: u32) = le_val xs" if "length xs = 4" for xs
    using le_val_less [of xs] that by (simp add: unat_of_nat)
  have lo: "DecodeFixed32 (bs @ r) = of_nat (le_val ?lo)"
    using decode_fixed32_val [OF l(1), of "?hi @ r"] by (simp add: append_assoc [symmetric] del: append_assoc)
  have hi: "DecodeFixed32 (drop 4 (bs @ r)) = of_nat (le_val ?hi)"
    using decode_fixed32_val [OF l(2), of r] assms by simp
  have bound: "le_val ?lo < 2 ^ 32" "le_val ?hi < 2 ^ 32" using le_val_less [of ?lo] le_val_less [of ?hi] l by simp_all
  have "unat (DecodeFixed64 (bs @ r)) = le_val ?hi * 2 ^ 32 + le_val ?lo"
    unfolding DecodeFixed64_def lo hi
    using unat_push_bit_or [of "ucast (of_nat (le_val ?lo) :: u32) :: u64" 32 "ucast (of_nat (le_val ?hi) :: u32)"] w [OF l(1)] w [OF l(2)] bound
    by simp
  also have "\<dots> = le_val bs" using le_val_append [of ?lo ?hi] l by simp
  finally show ?thesis by (rule word_of_nat_eqI)
qed

lemma decode_fixed64 [simp]: "DecodeFixed64 (le_bytes 8 (unat v) @ r) = v"
proof -
  have "unat v < 256 ^ 8" using unsigned_less [of v] by simp
  then show ?thesis using decode_fixed64_val [of "le_bytes 8 (unat v)" r] by (simp add: le_val_le_bytes)
qed

lemma small_byte: "unat v < 128 \<Longrightarrow> ucast v = (of_nat (unat v) :: u8)" for v :: "'a::len word"
  by (rule word_of_nat_eqI) (simp add: unat_ucast_down)

lemma encode_varint64: "EncodeVarint64 v = varint (unat v)"
proof (induction v rule: EncodeVarint64.induct)
  case (1 v)
  show ?case
  proof (cases "128 \<le> v")
    case True
    then have "128 \<le> unat v" by (simp add: word_le_nat_alt)
    moreover have "unat (drop_bit 7 v) = unat v div 128" by (simp only: unat_drop_bit_div) simp
    ultimately show ?thesis
      using True 1 by (subst EncodeVarint64.simps) (simp add: ucast_or_128 varint_large del: of_nat_add)
  next
    case False
    then have "unat v < 128" by (simp add: word_le_nat_alt)
    then show ?thesis
      using False small_byte [of v] by (subst EncodeVarint64.simps) (simp add: varint_small)
  qed
qed

lemma varint_length: "VarintLength v = length (varint (unat v))"
proof (induction v rule: VarintLength.induct)
  case (1 v)
  show ?case
  proof (cases "128 \<le> v")
    case True
    then have "128 \<le> unat v" by (simp add: word_le_nat_alt)
    moreover have "unat (drop_bit 7 v) = unat v div 128" by (simp only: unat_drop_bit_div) simp
    ultimately show ?thesis
      using True 1 by (subst VarintLength.simps) (simp add: varint_large)
  next
    case False
    then have "unat v < 128" by (simp add: word_le_nat_alt)
    then show ?thesis
      using False by (subst VarintLength.simps) (simp add: varint_small)
  qed
qed

lemma encode_varint32: "EncodeVarint32 v = varint (unat v)"
proof -
  have d: "unat (drop_bit 7 v) = unat v div 128" "unat (drop_bit 14 v) = unat v div 128 div 128"
    "unat (drop_bit 21 v) = unat v div 128 div 128 div 128" "unat (drop_bit 28 v) = unat v div 128 div 128 div 128 div 128"
    by (simp_all only: unat_drop_bit_div) (simp_all add: div_mult2_eq [symmetric])
  note or = ucast_or_128 [of v] ucast_or_128 [of "drop_bit 7 v"] ucast_or_128 [of "drop_bit 14 v"] ucast_or_128 [of "drop_bit 21 v"]
  have "unat v < 2 ^ 32" using unsigned_less [of v] by simp
  then have top: "unat v div 128 div 128 div 128 div 128 < 128"
    by (simp add: div_mult2_eq [symmetric] less_mult_imp_div_less)
  let ?n = "unat v"
  have c: "v < 0x80 \<longleftrightarrow> ?n < 128" "v < 0x4000 \<longleftrightarrow> ?n div 128 < 128" "v < 0x200000 \<longleftrightarrow> ?n div 128 div 128 < 128"
    "v < 0x10000000 \<longleftrightarrow> ?n div 128 div 128 div 128 < 128"
    by (simp_all add: word_less_nat_alt div_mult2_eq [symmetric] div_less_iff_less_mult)
  have s: "varint n = (if n < 128 then [of_nat n] else of_nat (n mod 128 + 128) # varint (n div 128))" for n
    by (rule varint.simps)
  consider "?n < 128" | "\<not> ?n < 128" "?n div 128 < 128" | "\<not> ?n < 128" "\<not> ?n div 128 < 128" "?n div 128 div 128 < 128"
    | "\<not> ?n < 128" "\<not> ?n div 128 < 128" "\<not> ?n div 128 div 128 < 128" "?n div 128 div 128 div 128 < 128"
    | "\<not> ?n < 128" "\<not> ?n div 128 < 128" "\<not> ?n div 128 div 128 < 128" "\<not> ?n div 128 div 128 div 128 < 128" by blast
  then show ?thesis
  proof cases
    case 1
    then show ?thesis unfolding EncodeVarint32_def c using small_byte [of v] by (simp add: s del: of_nat_unat)
  next
    case 2
    then show ?thesis unfolding EncodeVarint32_def c
      using small_byte [of "drop_bit 7 v"] by (simp add: or d s [of ?n] s [of "?n div 128"] del: of_nat_unat of_nat_add)
  next
    case 3
    then show ?thesis unfolding EncodeVarint32_def c
      using small_byte [of "drop_bit 14 v"]
      by (simp add: or d s [of ?n] s [of "?n div 128"] s [of "?n div 128 div 128"] del: of_nat_unat of_nat_add)
  next
    case 4
    then show ?thesis unfolding EncodeVarint32_def c
      using small_byte [of "drop_bit 21 v"]
      by (simp add: or d s [of ?n] s [of "?n div 128"] s [of "?n div 128 div 128"] s [of "?n div 128 div 128 div 128"]
        del: of_nat_unat of_nat_add)
  next
    case 5
    then show ?thesis unfolding EncodeVarint32_def c
      using small_byte [of "drop_bit 28 v"] top
      by (simp add: or d s [of ?n] s [of "?n div 128"] s [of "?n div 128 div 128"] s [of "?n div 128 div 128 div 128"]
        s [of "?n div 128 div 128 div 128 div 128"] del: of_nat_unat of_nat_add)
  qed
qed

section \<open>The readers, on every input\<close>

lemma group_step:
  "varint_group (b # p) = (if unat b < 128 then Some ([b], p) else map_option (\<lambda>(g, r). (b # g, r)) (varint_group p))"
  by (auto split: option.splits)

lemma low7_step:
  fixes b :: u8
  assumes "v < 128 ^ i" and "7 * i < LENGTH('a)" and "8 \<le> LENGTH('a)"
  shows "(of_nat v :: 'a::len word) OR push_bit (7 * i) (ucast b AND 127) = of_nat (v + 128 ^ i * (unat b mod 128))"
    and "(of_nat v :: 'a::len word) OR push_bit (7 * i) (ucast b) = of_nat (v + 128 ^ i * unat b)"
  using or_group [of v "7 * i" b, where 'a = 'a] or_byte [of v "7 * i" b, where 'a = 'a] assms
  by (simp_all add: ucast_and_127 power_mult del: of_nat_add of_nat_mult)

lemma low7_less: "v < 128 ^ i \<Longrightarrow> v + 128 ^ i * (unat (b :: u8) mod 128) < 128 ^ Suc i"
proof -
  assume "v < 128 ^ i"
  then have "v + 128 ^ i * (unat b mod 128) < 128 ^ i * (1 + unat b mod 128)" by (simp add: algebra_simps)
  also have "\<dots> \<le> 128 ^ i * 128" by (intro mult_le_mono2) (simp add: Suc_leI)
  finally show ?thesis by (simp add: mult.commute)
qed

lemma varint_ptr_loop_exact:
  assumes "v < 128 ^ i" and "i \<le> Suc k" and "7 * k < LENGTH('a)" and "8 \<le> LENGTH('a)"
  shows "varint_ptr_loop (7 * k) (7 * i) (of_nat v :: 'a::len word) p = (case varint_group p of
      None \<Rightarrow> None
    | Some (g, r) \<Rightarrow> if i + length g \<le> Suc k then Some (of_nat (v + 128 ^ i * group_val g), r) else None)"
  using assms(1,2)
proof (induction p arbitrary: v i)
  case Nil
  then show ?case by simp
next
  case (Cons b p)
  show ?case
  proof (cases "i = Suc k")
    case True
    then show ?thesis by (auto split: option.splits dest: group_SomeD)
  next
    case False
    with Cons.prems have i: "i \<le> k" by simp
    then have "7 * i < LENGTH('a)" using assms(3) by simp
    note w = low7_step [OF Cons.prems(1) this assms(4)] ucast_and_128 [OF assms(4), of b]
    have sh: "7 * i + 7 = 7 * Suc i" by simp
    show ?thesis
    proof (cases "unat b < 128")
      case True
      then show ?thesis using i w(2) [of b] w(3) by (simp add: Let_def del: of_nat_add of_nat_mult)
    next
      case False
      have "varint_ptr_loop (7 * k) (7 * i) (of_nat v) (b # p) =
          varint_ptr_loop (7 * k) (7 * Suc i) (of_nat (v + 128 ^ i * (unat b mod 128)) :: 'a word) p"
        using i w(1) [of b] w(3) False by (simp only: varint_ptr_loop.simps Let_def sh) simp
      also have "\<dots> = (case varint_group p of
          None \<Rightarrow> None
        | Some (g, r) \<Rightarrow> if Suc i + length g \<le> Suc k
            then Some (of_nat (v + 128 ^ i * (unat b mod 128) + 128 ^ Suc i * group_val g), r) else None)"
        by (rule Cons.IH [OF low7_less [OF Cons.prems(1)]]) (use i in simp)
      finally show ?thesis
        using i False by (cases "varint_group p") (auto simp: algebra_simps)
    qed
  qed
qed

text \<open>Both readers take the first group; one that is too long or has no end is an error.\<close>

lemma GetVarint32Ptr_exact:
  "GetVarint32Ptr p = (case varint_group p of
     None \<Rightarrow> None | Some (g, r) \<Rightarrow> if length g \<le> 5 then Some (of_nat (group_val g), r) else None)"
proof -
  have fallback: "GetVarint32PtrFallback p = (case varint_group p of
     None \<Rightarrow> None | Some (g, r) \<Rightarrow> if length g \<le> 5 then Some (of_nat (group_val g), r) else None)"
    using varint_ptr_loop_exact [of 0 0 4 p, where 'a = 32] by (simp add: GetVarint32PtrFallback_def split: option.splits prod.splits)
  show ?thesis
  proof (cases p)
    case Nil
    then show ?thesis using fallback by (simp add: GetVarint32Ptr_def)
  next
    case (Cons b q)
    then show ?thesis
      using fallback ucast_and_128 [of b, where 'a = 32] by (simp add: GetVarint32Ptr_def)
  qed
qed

lemma GetVarint64Ptr_exact:
  "GetVarint64Ptr p = (case varint_group p of
     None \<Rightarrow> None | Some (g, r) \<Rightarrow> if length g \<le> 10 then Some (of_nat (group_val g), r) else None)"
  using varint_ptr_loop_exact [of 0 0 9 p, where 'a = 64] by (simp add: GetVarint64Ptr_def split: option.splits prod.splits)

lemma GetVarint32_varint [simp]: "GetVarint32Ptr (varint (unat v) @ r) = Some (v, r)"
  using length_varint_32 [of v] by (simp add: GetVarint32Ptr_exact group_varint group_val_varint)

lemma GetVarint64_varint [simp]: "GetVarint64Ptr (varint (unat v) @ r) = Some (v, r)"
  using length_varint_64 [of v] by (simp add: GetVarint64Ptr_exact group_varint group_val_varint)

definition prefixed :: "bytes \<Rightarrow> bytes" where
  "prefixed s = varint (length s) @ s"

lemma PutLengthPrefixedSlice_eq: "length s < 2 ^ 32 \<Longrightarrow> PutLengthPrefixedSlice dst s = dst @ prefixed s"
  by (simp add: PutLengthPrefixedSlice_def PutVarint32_def encode_varint32 prefixed_def unat_of_nat)

lemma GetLengthPrefixedSlice_prefixed:
  assumes "length s < 2 ^ 32"
  shows "GetLengthPrefixedSlice (prefixed s @ r) = (Some s, r)" "GetLengthPrefixedSlicePtr (prefixed s @ r) = Some (s, r)"
proof -
  have u: "unat (of_nat (length s) :: u32) = length s" using assms by (simp add: unat_of_nat)
  have "GetVarint32Ptr (varint (length s) @ s @ r) = Some (of_nat (length s), s @ r)"
    using GetVarint32_varint [of "of_nat (length s)" "s @ r"] u by simp
  then show "GetLengthPrefixedSlice (prefixed s @ r) = (Some s, r)" "GetLengthPrefixedSlicePtr (prefixed s @ r) = Some (s, r)"
    using u by (simp_all add: GetLengthPrefixedSlice_def GetLengthPrefixedSlicePtr_def GetVarint32_def prefixed_def)
qed

section \<open>Pieces one behind the other\<close>

text \<open>The offset of a piece, and arrays of fixed-width offsets.\<close>

definition flat_offset :: "bytes list \<Rightarrow> nat \<Rightarrow> nat" where
  "flat_offset xs i = length (concat (take i xs))"

lemma flat_offset_snoc: "i \<le> length xs \<Longrightarrow> flat_offset (xs @ ys) i = flat_offset xs i"
  by (simp add: flat_offset_def)

lemma flat_offset_all [simp]: "flat_offset xs (length xs) = length (concat xs)"
  by (simp add: flat_offset_def)

lemma flat_offset_Suc: "i < length xs \<Longrightarrow> flat_offset xs (Suc i) = flat_offset xs i + length (xs ! i)"
  by (simp add: flat_offset_def take_Suc_conv_app_nth)

lemma flat_offset_le: "flat_offset xs i \<le> length (concat xs)"
proof -
  have "concat xs = concat (take i xs) @ concat (drop i xs)" by (simp flip: concat_append)
  then have "length (concat xs) = flat_offset xs i + length (concat (drop i xs))" unfolding flat_offset_def by (metis length_append)
  then show ?thesis by simp
qed

lemma flat_piece:
  assumes "i < length xs"
  shows "take (flat_offset xs (Suc i) - flat_offset xs i) (drop (flat_offset xs i) (concat xs @ r)) = xs ! i"
proof -
  have "concat xs = concat (take i xs) @ xs ! i @ concat (drop (Suc i) xs)"
    using assms by (metis append_take_drop_id concat.simps(2) concat_append Cons_nth_drop_Suc)
  then show ?thesis using flat_offset_Suc [OF assms] by (simp add: flat_offset_def)
qed

lemma foldl_PutFixed32: "foldl PutFixed32 r os = r @ concat (map EncodeFixed32 os)"
  by (induction os arbitrary: r) (simp_all add: PutFixed32_def)

lemma drop_fixed32s:
  "i \<le> length os \<Longrightarrow> drop (4 * i) (concat (map EncodeFixed32 os) @ t) = concat (map EncodeFixed32 (drop i os)) @ t"
proof (induction os arbitrary: i)
  case (Cons v os)
  have "length (EncodeFixed32 v) = 4" by (simp add: EncodeFixed32_def)
  then show ?case using Cons by (cases i) simp_all
qed simp

lemma decode_fixed32s:
  assumes "i < length os"
  shows "DecodeFixed32 (drop (4 * i) (concat (map EncodeFixed32 os) @ t)) = os ! i"
proof -
  have "drop i os = os ! i # drop (Suc i) os" using assms by (rule Cons_nth_drop_Suc [symmetric])
  then show ?thesis using assms drop_fixed32s [of i os t] by (simp add: fixed32_le)
qed

lemma length_fixed32s [simp]: "length (concat (map EncodeFixed32 os)) = 4 * length os"
  by (induction os) (simp_all add: EncodeFixed32_def)

section \<open>Properties\<close>

text \<open>
  C28: the coding of LevelDB.  Every writer is undone by its reader, whatever follows: fixed-width integers, variable-length
  integers of 32 and 64 bits, length-prefixed slices; \<open>VarintLength\<close> is the length that is written; and on any input the 64-bit
  reader takes the first group, unless it has more than ten bytes or no end.
\<close>

theorem coding_roundtrip:
  assumes "length s < 2 ^ 32"
  shows "DecodeFixed32 (PutFixed32 [] v @ r) = v \<and> DecodeFixed64 (PutFixed64 [] w @ r) = w \<and>
    GetVarint32 (PutVarint32 [] v @ r) = (Some v, r) \<and> GetVarint64 (PutVarint64 [] w @ r) = (Some w, r) \<and>
    VarintLength w = length (PutVarint64 [] w) \<and> VarintLength (ucast v) = length (PutVarint32 [] v) \<and>
    GetLengthPrefixedSlice (PutLengthPrefixedSlice [] s @ r) = (Some s, r) \<and>
    GetLengthPrefixedSlicePtr (PutLengthPrefixedSlice [] s @ r) = Some (s, r) \<and>
    GetVarint64Ptr p = (case varint_group p of
      None \<Rightarrow> None | Some (g, q) \<Rightarrow> if length g \<le> 10 then Some (of_nat (group_val g), q) else None)"
  using GetLengthPrefixedSlice_prefixed [OF assms, of r] GetVarint64Ptr_exact [of p]
  by (simp add: PutFixed32_def PutFixed64_def fixed32_le fixed64_le PutVarint32_def PutVarint64_def encode_varint32 encode_varint64
      GetVarint32_def GetVarint64_def varint_length PutLengthPrefixedSlice_eq [OF assms])

lemma coding_roundtrip_witness:
  "PutVarint32 [] 300 = [172, 2] \<and> GetVarint32 ([172, 2] @ [9]) = (Some 300, [9]) \<and>
   GetLengthPrefixedSlice (PutLengthPrefixedSlice [] [5, 6] @ [9]) = (Some [5, 6], [9])"
proof -
  have "PutVarint32 [] 300 = [172, 2]" by (simp add: PutVarint32_def EncodeVarint32_def)
  then show ?thesis using coding_roundtrip [of "[5, 6]" 300 "[9]"] by simp
qed

end
