(* ===== verification/Leveldb_Format.thy ===== *)
theory Leveldb_Format
  imports Leveldb_Coding Qsort
begin

text \<open>
  Keys of LevelDB and their order: \<open>include/leveldb/slice.h\<close>, \<open>util/comparator.cc\<close>, \<open>db/dbformat.h\<close> and \<open>db/dbformat.cc\<close>.
  An internal key is the user key followed by eight bytes that hold the sequence number and the type of the entry; newer
  entries of a user key come first.
\<close>

section \<open>Slices and the bytewise comparator\<close>

fun memcmp :: "bytes \<Rightarrow> bytes \<Rightarrow> nat \<Rightarrow> int" where
  "memcmp (a # as) (b # bs) (Suc n) = (if a \<noteq> b then int (unat a) - int (unat b) else memcmp as bs n)"
| "memcmp as bs n = 0"

definition Slice_compare :: "bytes \<Rightarrow> bytes \<Rightarrow> int" where
  "Slice_compare a b =
     (let min_len = (if length a < length b then length a else length b);
          r = memcmp a b min_len
      in if r = 0 then (if length a < length b then - 1 else if length a > length b then 1 else r) else r)"

definition Slice_starts_with :: "bytes \<Rightarrow> bytes \<Rightarrow> bool" where
  "Slice_starts_with s x \<longleftrightarrow> length s \<ge> length x \<and> memcmp s x (length x) = 0"

text \<open>The index of the first difference, up to the shorter length.\<close>

fun diff_scan :: "bytes \<Rightarrow> bytes \<Rightarrow> nat" where
  "diff_scan (a # as) (b # bs) = (if a = b then Suc (diff_scan as bs) else 0)"
| "diff_scan as bs = 0"

definition FindShortestSeparator :: "bytes \<Rightarrow> bytes \<Rightarrow> bytes" where
  "FindShortestSeparator start limit =
     (let min_length = min (length start) (length limit);
          diff_index = diff_scan start limit
      in if diff_index \<ge> min_length then start
         else
           let diff_byte = start ! diff_index
           in if diff_byte < 0xff \<and> unat diff_byte + 1 < unat (limit ! diff_index) then
                take (diff_index + 1) (start[diff_index := start ! diff_index + 1])
              else start)"

fun FindShortSuccessor :: "bytes \<Rightarrow> bytes" where
  "FindShortSuccessor [] = []"
| "FindShortSuccessor (b # key) = (if b \<noteq> 0xff then [b + 1] else b # FindShortSuccessor key)"

lemma byte_diff: "int (unat a) - int (unat b) = 0 \<longleftrightarrow> a = b" for a b :: u8
  by (simp flip: word_uint_eq_iff)

lemma Slice_compare_simps [simp]:
  "Slice_compare [] [] = 0"
  "Slice_compare [] (b # bs) = - 1"
  "Slice_compare (a # as) [] = 1"
  by (simp_all add: Slice_compare_def Let_def)

lemma Slice_compare_Cons [simp]:
  "Slice_compare (a # as) (b # bs) = (if a = b then Slice_compare as bs else int (unat a) - int (unat b))"
proof (cases "a = b")
  case True
  then show ?thesis by (simp add: Slice_compare_def Let_def)
next
  case False
  have "memcmp (a # as) (b # bs) (if length (a # as) < length (b # bs) then length (a # as) else length (b # bs)) =
      int (unat a) - int (unat b)"
    using False by simp
  moreover have "int (unat a) - int (unat b) \<noteq> 0" using False byte_diff by blast
  ultimately show ?thesis using False by (simp only: Slice_compare_def Let_def if_False)
qed

declare of_nat_unat [simp del]

lemma Slice_compare_sym: "Slice_compare a b < 0 \<longleftrightarrow> 0 < Slice_compare b a"
proof (induction a arbitrary: b)
  case Nil
  then show ?case by (cases b) simp_all
next
  case (Cons x a)
  then show ?case by (cases b) simp_all
qed

lemma Slice_compare_eq: "Slice_compare a b = 0 \<longleftrightarrow> a = b"
proof (induction a arbitrary: b)
  case Nil
  then show ?case by (cases b) simp_all
next
  case (Cons x a)
  show ?case
  proof (cases b)
    case Nil
    then show ?thesis by simp
  next
    case b: (Cons y b')
    then show ?thesis using Cons.IH [of b'] byte_diff [of x y] by (cases "x = y") simp_all
  qed
qed

lemma byte_less: "unat a \<le> unat b \<Longrightarrow> a \<noteq> b \<Longrightarrow> unat a < unat b" for a b :: u8
  by (simp add: word_unat_eq_iff)

lemma Slice_compare_trans: "Slice_compare a b \<le> 0 \<Longrightarrow> Slice_compare b c \<le> 0 \<Longrightarrow> Slice_compare a c \<le> 0"
proof (induction a arbitrary: b c)
  case Nil
  then show ?case by (cases c) simp_all
next
  case (Cons x a)
  show ?case
  proof (cases b)
    case Nil
    then show ?thesis using Cons.prems by simp
  next
    case b: (Cons y b')
    show ?thesis
    proof (cases c)
      case Nil
      then show ?thesis using Cons.prems b by simp
    next
      case c: (Cons z c')
      have le: "unat x \<le> unat y" "unat y \<le> unat z" using Cons.prems b c by (simp_all split: if_splits)
      show ?thesis
      proof (cases "x = z")
        case True
        then have "x = y" using le by (intro word_unat_eq_iff [THEN iffD2]) simp
        then show ?thesis using True Cons.prems Cons.IH [of b' c'] b c by simp
      next
        case False
        then show ?thesis using le c by simp
      qed
    qed
  qed
qed

interpretation bytewise: comparator_total Slice_compare
  by unfold_locales (auto simp: Slice_compare_sym Slice_compare_eq intro: Slice_compare_trans)

text \<open>
  What a table asks of a comparator: a string of the interval from a key to a larger one, and a string that is not
  smaller than a key.
\<close>

locale separating = comparator cmp for cmp :: "bytes cmp" +
  fixes sep :: "bytes \<Rightarrow> bytes \<Rightarrow> bytes" and succ :: "bytes \<Rightarrow> bytes"
  assumes sep_between: "cmp s l < 0 \<Longrightarrow> cmp s (sep s l) \<le> 0 \<and> cmp (sep s l) l < 0"
    and sep_equal: "cmp s l = 0 \<Longrightarrow> sep s l = s"
    and succ_above: "cmp k (succ k) \<le> 0"

lemma FindShortestSeparator_Nil [simp]: "FindShortestSeparator [] l = []" "FindShortestSeparator s [] = s"
  by (simp_all add: FindShortestSeparator_def)

lemma FindShortestSeparator_Cons:
  "FindShortestSeparator (a # s) (b # l) =
     (if a = b then a # FindShortestSeparator s l
      else if a < 0xff \<and> unat a + 1 < unat b then [a + 1] else a # s)"
  by (auto simp: FindShortestSeparator_def Let_def)

lemma unat_plus_1: "a < 0xff \<Longrightarrow> unat (a + 1) = unat a + 1" for a :: u8
  by (simp add: word_less_nat_alt unat_plus_small)

lemma separator_between:
  "Slice_compare s l < 0 \<Longrightarrow>
     Slice_compare s (FindShortestSeparator s l) \<le> 0 \<and> Slice_compare (FindShortestSeparator s l) l < 0"
proof (induction s arbitrary: l)
  case Nil
  then show ?case by simp
next
  case (Cons a s)
  then obtain b l' where l: "l = b # l'" by (cases l) auto
  show ?case
  proof (cases "a = b")
    case True
    then show ?thesis using Cons l by (simp add: FindShortestSeparator_Cons)
  next
    case False
    have refl: "Slice_compare s s = 0" by (simp add: Slice_compare_eq)
    have lt: "unat a < unat b" using Cons.prems False l by simp
    show ?thesis
    proof (cases "a < 0xff \<and> unat a + 1 < unat b")
      case True
      then have u: "unat (a + 1) = unat a + 1" "a + 1 \<noteq> a" "a + 1 \<noteq> b" using unat_plus_1 [of a] by auto
      show ?thesis
        using True u False l by (simp add: FindShortestSeparator_Cons del: of_nat_Suc)
    next
      case no: False
      then have "FindShortestSeparator (a # s) l = a # s" using False l by (auto simp: FindShortestSeparator_Cons)
      then show ?thesis using lt False l refl by simp
    qed
  qed
qed

lemma separator_self: "FindShortestSeparator s s = s"
  by (induction s) (simp_all add: FindShortestSeparator_Cons)

lemma successor_above: "Slice_compare k (FindShortSuccessor k) \<le> 0"
proof (induction k)
  case Nil
  then show ?case by simp
next
  case (Cons b k)
  show ?case
  proof (cases "b = 0xff")
    case True
    then show ?thesis using Cons by simp
  next
    case False
    then have "unat b \<noteq> 255" by (simp add: word_unat_eq_iff)
    then have "unat b < 255" using unat_u8_less [of b] by linarith
    then have "b < 0xff" by (simp add: word_less_nat_alt)
    then have "unat (b + 1) = unat b + 1" by (rule unat_plus_1)
    then show ?thesis using False by simp
  qed
qed

interpretation bytewise_sep: separating Slice_compare FindShortestSeparator FindShortSuccessor
  by unfold_locales (auto simp: separator_between Slice_compare_eq separator_self successor_above)

section \<open>Internal keys\<close>

datatype value_type = kTypeDeletion | kTypeValue

fun type_byte :: "value_type \<Rightarrow> u64" where
  "type_byte kTypeDeletion = 0"
| "type_byte kTypeValue = 1"

definition kValueTypeForSeek :: value_type where
  "kValueTypeForSeek = kTypeValue"

definition kMaxSequenceNumber :: u64 where
  "kMaxSequenceNumber = push_bit 56 1 - 1"

record parsed_internal_key =
  pk_user_key :: bytes
  pk_sequence :: u64
  pk_type :: value_type

definition PackSequenceAndType :: "u64 \<Rightarrow> value_type \<Rightarrow> u64" where
  "PackSequenceAndType seq t = push_bit 8 seq OR type_byte t"

definition InternalKeyEncodingLength :: "parsed_internal_key \<Rightarrow> nat" where
  "InternalKeyEncodingLength key = length (pk_user_key key) + 8"

definition AppendInternalKey :: "bytes \<Rightarrow> parsed_internal_key \<Rightarrow> bytes" where
  "AppendInternalKey result key =
     PutFixed64 (result @ pk_user_key key) (PackSequenceAndType (pk_sequence key) (pk_type key))"

text \<open>\<open>None\<close> for false: the key is too short or its type is unknown.\<close>

definition ParseInternalKey :: "bytes \<Rightarrow> parsed_internal_key option" where
  "ParseInternalKey internal_key =
     (let n = length internal_key
      in if n < 8 then None
         else
           let num = DecodeFixed64 (drop (n - 8) internal_key);
               c = ucast (num AND 0xff) :: u8
           in if c \<le> 1 then
                Some \<lparr>pk_user_key = take (n - 8) internal_key, pk_sequence = drop_bit 8 num,
                      pk_type = (if c = 0 then kTypeDeletion else kTypeValue)\<rparr>
              else None)"

definition ExtractUserKey :: "bytes \<Rightarrow> bytes" where
  "ExtractUserKey internal_key = take (length internal_key - 8) internal_key"

text \<open>The number in the last eight bytes.\<close>

definition key_number :: "bytes \<Rightarrow> u64" where
  "key_number key = DecodeFixed64 (drop (length key - 8) key)"

definition InternalKeyCompare :: "bytes cmp \<Rightarrow> bytes cmp" where
  "InternalKeyCompare user_compare akey bkey =
     (let r = user_compare (ExtractUserKey akey) (ExtractUserKey bkey)
      in if r = 0 then
           let anum = key_number akey; bnum = key_number bkey
           in if anum > bnum then - 1 else if anum < bnum then 1 else r
         else r)"

definition InternalShortestSeparator :: "bytes cmp \<Rightarrow> (bytes \<Rightarrow> bytes \<Rightarrow> bytes) \<Rightarrow> bytes \<Rightarrow> bytes \<Rightarrow> bytes" where
  "InternalShortestSeparator user_compare user_separator start limit =
     (let user_start = ExtractUserKey start; user_limit = ExtractUserKey limit;
          tmp = user_separator user_start user_limit
      in if length tmp < length user_start \<and> user_compare user_start tmp < 0 then
           PutFixed64 tmp (PackSequenceAndType kMaxSequenceNumber kValueTypeForSeek)
         else start)"

definition InternalShortSuccessor :: "bytes cmp \<Rightarrow> (bytes \<Rightarrow> bytes) \<Rightarrow> bytes \<Rightarrow> bytes" where
  "InternalShortSuccessor user_compare user_successor key =
     (let user_key = ExtractUserKey key; tmp = user_successor user_key
      in if length tmp < length user_key \<and> user_compare user_key tmp < 0 then
           PutFixed64 tmp (PackSequenceAndType kMaxSequenceNumber kValueTypeForSeek)
         else key)"

text \<open>The key of a lookup: the length, the user key and the tag.\<close>

record lookup_key =
  klength :: bytes
  kbody :: bytes

definition LookupKey :: "bytes \<Rightarrow> u64 \<Rightarrow> lookup_key" where
  "LookupKey user_key s =
     (let usize = length user_key
      in \<lparr>klength = EncodeVarint32 (of_nat (usize + 8)),
          kbody = user_key @ EncodeFixed64 (PackSequenceAndType s kValueTypeForSeek)\<rparr>)"

definition memtable_key :: "lookup_key \<Rightarrow> bytes" where
  "memtable_key k = klength k @ kbody k"

definition lookup_internal_key :: "lookup_key \<Rightarrow> bytes" where
  "lookup_internal_key k = kbody k"

definition lookup_user_key :: "lookup_key \<Rightarrow> bytes" where
  "lookup_user_key k = take (length (kbody k) - 8) (kbody k)"

lemma type_byte_bits: "type_byte t AND 0xff = type_byte t" "unat (type_byte t) < 2"
  by (cases t; simp)+

lemma unat_pack:
  assumes "unat seq < 2 ^ 56"
  shows "unat (PackSequenceAndType seq t) = unat seq * 256 + unat (type_byte t)"
proof -
  have "unat (PackSequenceAndType seq t) = unat seq * 2 ^ 8 + unat (type_byte t)"
    unfolding PackSequenceAndType_def
    by (rule unat_push_bit_or) (use assms type_byte_bits(2) [of t] in \<open>simp_all\<close>)
  then show ?thesis by simp
qed

definition internal_key :: "bytes \<Rightarrow> u64 \<Rightarrow> value_type \<Rightarrow> bytes" where
  "internal_key u s t = u @ le_bytes 8 (unat (PackSequenceAndType s t))"

lemma AppendInternalKey_eq:
  "AppendInternalKey r k = r @ internal_key (pk_user_key k) (pk_sequence k) (pk_type k)"
  by (simp add: AppendInternalKey_def internal_key_def PutFixed64_def fixed64_le)

lemma internal_key_parts [simp]:
  "ExtractUserKey (internal_key u s t) = u" "key_number (internal_key u s t) = PackSequenceAndType s t"
  "length (internal_key u s t) = length u + 8"
  using decode_fixed64 [of "PackSequenceAndType s t" "[]"]
  by (simp_all add: ExtractUserKey_def key_number_def internal_key_def)

lemma split_key: "8 \<le> length k \<Longrightarrow> k = ExtractUserKey k @ le_bytes 8 (unat (key_number k))"
proof -
  assume l: "8 \<le> length k"
  let ?t = "drop (length k - 8) k"
  have lt: "length ?t = 8" using l by simp
  then have "key_number k = of_nat (le_val ?t)"
    using decode_fixed64_val [of ?t "[]"] by (simp add: key_number_def)
  moreover have "le_val ?t < 2 ^ 64" using le_val_less [of ?t] lt by simp
  ultimately have "unat (key_number k) = le_val ?t" by (simp add: unat_of_nat)
  then have "le_bytes 8 (unat (key_number k)) = ?t" using le_bytes_le_val [of ?t] lt by simp
  then show ?thesis by (simp add: ExtractUserKey_def)
qed

lemma pack_type: "PackSequenceAndType s t AND 0xff = type_byte t"
  unfolding PackSequenceAndType_def
proof (rule bit_word_eqI)
  fix n
  assume "n < LENGTH(64)"
  show "bit ((push_bit 8 s OR type_byte t) AND 0xff) n = bit (type_byte t) n"
  proof (cases "n < 8")
    case True
    then have "n \<in> {0, 1, 2, 3, 4, 5, 6, 7}" by auto
    then show ?thesis by (cases t) (auto simp: bit_simps)
  next
    case False
    have "(0xff :: u64) = mask 8" by (simp add: mask_eq_exp_minus_1)
    then have "\<not> bit (0xff :: u64) n" using False by (simp only: bit_mask_iff) simp
    moreover have "\<not> bit (type_byte t) n" using False by (cases t) (auto simp: bit_simps)
    ultimately show ?thesis by (simp add: bit_and_iff)
  qed
qed

lemma parse_internal_key:
  assumes "unat s < 2 ^ 56"
  shows "ParseInternalKey (internal_key u s t) = Some \<lparr>pk_user_key = u, pk_sequence = s, pk_type = t\<rparr>"
proof -
  let ?p = "PackSequenceAndType s t"
  have num: "DecodeFixed64 (drop (length (internal_key u s t) - 8) (internal_key u s t)) = ?p"
    using internal_key_parts(2) [of u s t] by (simp only: key_number_def)
  have tk: "take (length (internal_key u s t) - 8) (internal_key u s t) = u"
    using internal_key_parts(1) [of u s t] by (simp only: ExtractUserKey_def)
  have "unat (drop_bit 8 ?p) = unat s"
    unfolding unat_drop_bit_div unat_pack [OF assms] using type_byte_bits(2) [of t] by simp
  then have sq: "drop_bit 8 ?p = s" by (simp add: word_unat_eq_iff)
  have c: "(ucast (?p AND 0xff) :: u8) = (case t of kTypeDeletion \<Rightarrow> 0 | kTypeValue \<Rightarrow> 1)"
    by (cases t) (simp_all add: pack_type)
  show ?thesis
    unfolding ParseInternalKey_def Let_def num tk sq c by (cases t) simp_all
qed

section \<open>The order of internal keys\<close>

text \<open>Larger numbers come first.\<close>

definition number_cmp :: "u64 \<Rightarrow> u64 \<Rightarrow> int" where
  "number_cmp a b = (if a > b then - 1 else if a < b then 1 else 0)"

lemma InternalKeyCompare_eq:
  "InternalKeyCompare c a b =
     (let r = c (ExtractUserKey a) (ExtractUserKey b) in if r = 0 then number_cmp (key_number a) (key_number b) else r)"
  by (auto simp: InternalKeyCompare_def number_cmp_def Let_def)

context comparator begin

lemma cmp_trans_less:
  "cmp a b \<le> 0 \<Longrightarrow> cmp b c < 0 \<Longrightarrow> cmp a c < 0" "cmp a b < 0 \<Longrightarrow> cmp b c \<le> 0 \<Longrightarrow> cmp a c < 0"
proof -
  have "\<not> cmp c a \<le> 0" if "cmp a b \<le> 0" "cmp b c < 0"
    using cmp_trans [of c a b] that cmp_sym [of b c] by linarith
  then show "cmp a b \<le> 0 \<Longrightarrow> cmp b c < 0 \<Longrightarrow> cmp a c < 0" using cmp_sym [of a c] by linarith
  have "\<not> cmp c a \<le> 0" if "cmp a b < 0" "cmp b c \<le> 0"
    using cmp_trans [of b c a] that cmp_sym [of a b] by linarith
  then show "cmp a b < 0 \<Longrightarrow> cmp b c \<le> 0 \<Longrightarrow> cmp a c < 0" using cmp_sym [of a c] by linarith
qed

lemma cmp_zero_trans: "cmp a b = 0 \<Longrightarrow> cmp b c = 0 \<Longrightarrow> cmp a c = 0"
  using cmp_trans [of a b c] cmp_trans [of c b a] cmp_zero_sym [of a b] cmp_zero_sym [of b c] cmp_sym [of a c]
    cmp_sym [of c a] by linarith

lemma cmp_zero_left: "cmp a b = 0 \<Longrightarrow> cmp a c \<le> 0 \<longleftrightarrow> cmp b c \<le> 0"
  using cmp_trans [of a b c] cmp_trans [of b a c] cmp_zero_sym [of a b] by linarith

lemma cmp_zero_right: "cmp a b = 0 \<Longrightarrow> cmp c a \<le> 0 \<longleftrightarrow> cmp c b \<le> 0"
  using cmp_trans [of c a b] cmp_trans [of c b a] cmp_zero_sym [of a b] by linarith

end

lemma InternalKeyCompare_cases:
  "InternalKeyCompare c a b \<le> 0 \<longleftrightarrow>
     c (ExtractUserKey a) (ExtractUserKey b) < 0 \<or>
     c (ExtractUserKey a) (ExtractUserKey b) = 0 \<and> key_number b \<le> key_number a"
  "InternalKeyCompare c a b < 0 \<longleftrightarrow>
     c (ExtractUserKey a) (ExtractUserKey b) < 0 \<or>
     c (ExtractUserKey a) (ExtractUserKey b) = 0 \<and> key_number b < key_number a"
  by (auto simp: InternalKeyCompare_eq number_cmp_def Let_def)

text \<open>\<open>InternalKeyComparator\<close> on top of any comparator of user keys is a comparator again.\<close>

lemma internal_comparator:
  assumes "comparator c"
  shows "comparator (InternalKeyCompare c)"
proof
  fix a b d :: bytes
  show "InternalKeyCompare c a b < 0 \<longleftrightarrow> 0 < InternalKeyCompare c b a"
    using comparator.cmp_sym [OF assms, of "ExtractUserKey a" "ExtractUserKey b"]
      comparator.cmp_zero_sym [OF assms, of "ExtractUserKey a" "ExtractUserKey b"]
    by (auto simp: InternalKeyCompare_eq number_cmp_def Let_def)
  show "InternalKeyCompare c a b \<le> 0 \<Longrightarrow> InternalKeyCompare c b d \<le> 0 \<Longrightarrow> InternalKeyCompare c a d \<le> 0"
    unfolding InternalKeyCompare_cases
    using comparator.cmp_trans_less [OF assms, of "ExtractUserKey a" "ExtractUserKey b" "ExtractUserKey d"]
      comparator.cmp_zero_trans [OF assms, of "ExtractUserKey a" "ExtractUserKey b" "ExtractUserKey d"]
    by (elim disjE conjE) (auto intro: order_trans)
qed

interpretation internal: comparator "InternalKeyCompare Slice_compare"
  by (rule internal_comparator) (rule bytewise.comparator_axioms)

lemma internal_equal:
  "8 \<le> length a \<Longrightarrow> 8 \<le> length b \<Longrightarrow> InternalKeyCompare Slice_compare a b = 0 \<longleftrightarrow> a = b"
  using split_key [of a] split_key [of b]
  by (auto simp: InternalKeyCompare_eq number_cmp_def Let_def Slice_compare_eq split: if_splits)

context separating begin

text \<open>The separators of internal keys keep to the interval, whatever the comparator of the user keys.\<close>

lemma internal_separator:
  assumes "8 \<le> length s" "8 \<le> length l" and "InternalKeyCompare cmp s l < 0"
  shows "InternalKeyCompare cmp s (InternalShortestSeparator cmp sep s l) \<le> 0 \<and>
    InternalKeyCompare cmp (InternalShortestSeparator cmp sep s l) l < 0"
proof -
  let ?us = "ExtractUserKey s" and ?ul = "ExtractUserKey l"
  let ?t = "sep ?us ?ul"
  let ?r = "internal_key ?t kMaxSequenceNumber kValueTypeForSeek"
  have refl: "InternalKeyCompare cmp s s \<le> 0" by (simp add: InternalKeyCompare_cases cmp_refl)
  show ?thesis
  proof (cases "length ?t < length ?us \<and> cmp ?us ?t < 0")
    case False
    then have "InternalShortestSeparator cmp sep s l = s" by (auto simp: InternalShortestSeparator_def Let_def)
    then show ?thesis using refl assms(3) by simp
  next
    case True
    have r: "InternalShortestSeparator cmp sep s l = ?r"
      using True by (simp add: InternalShortestSeparator_def Let_def PutFixed64_def fixed64_le internal_key_def)
    have "cmp ?us ?ul < 0"
    proof (rule ccontr)
      assume "\<not> cmp ?us ?ul < 0"
      then have "cmp ?us ?ul = 0" using assms(3) by (auto simp: InternalKeyCompare_cases)
      then have "?t = ?us" by (rule sep_equal)
      then show False using True by simp
    qed
    then have "cmp ?t ?ul < 0" using sep_between by blast
    then show ?thesis unfolding r using True by (simp add: InternalKeyCompare_cases)
  qed
qed

lemma internal_successor: "InternalKeyCompare cmp k (InternalShortSuccessor cmp succ k) \<le> 0"
proof (cases "length (succ (ExtractUserKey k)) < length (ExtractUserKey k) \<and> cmp (ExtractUserKey k) (succ (ExtractUserKey k)) < 0")
  case False
  then have "InternalShortSuccessor cmp succ k = k" by (auto simp: InternalShortSuccessor_def Let_def)
  then show ?thesis by (simp add: InternalKeyCompare_cases cmp_refl)
next
  case True
  then have "InternalShortSuccessor cmp succ k = internal_key (succ (ExtractUserKey k)) kMaxSequenceNumber kValueTypeForSeek"
    by (simp add: InternalShortSuccessor_def Let_def PutFixed64_def fixed64_le internal_key_def)
  then show ?thesis using True by (simp add: InternalKeyCompare_cases)
qed

end

section \<open>Properties\<close>

text \<open>
  The documented order, without the code's comparators: user keys bytewise, a proper prefix first; within a user key the
  larger number in the eight bytes behind it first.
\<close>

fun bytes_less :: "bytes \<Rightarrow> bytes \<Rightarrow> bool" where
  "bytes_less as [] = False"
| "bytes_less [] (b # bs) = True"
| "bytes_less (a # as) (b # bs) = (unat a < unat b \<or> a = b \<and> bytes_less as bs)"

definition internal_less :: "bytes \<Rightarrow> bytes \<Rightarrow> bool" where
  "internal_less a b \<longleftrightarrow>
     (let u = take (length a - 8) a; v = take (length b - 8) b
      in bytes_less u v \<or> u = v \<and> le_val (drop (length b - 8) b) < le_val (drop (length a - 8) a))"

lemma Slice_compare_less: "Slice_compare a b < 0 \<longleftrightarrow> bytes_less a b"
proof (induction a b rule: bytes_less.induct)
  case (1 as)
  then show ?case by (cases as) simp_all
qed auto

lemma key_number_val: "8 \<le> length k \<Longrightarrow> unat (key_number k) = le_val (drop (length k - 8) k)"
proof -
  assume l: "8 \<le> length k"
  let ?t = "drop (length k - 8) k"
  have lt: "length ?t = 8" using l by simp
  then have "key_number k = of_nat (le_val ?t)"
    using decode_fixed64_val [of ?t "[]"] by (simp add: key_number_def)
  moreover have "le_val ?t < 2 ^ 64" using le_val_less [of ?t] lt by simp
  ultimately show ?thesis by (simp add: unat_of_nat)
qed

lemma InternalKeyCompare_less:
  "8 \<le> length a \<Longrightarrow> 8 \<le> length b \<Longrightarrow> InternalKeyCompare Slice_compare a b < 0 \<longleftrightarrow> internal_less a b"
  by (auto simp: InternalKeyCompare_cases Slice_compare_less Slice_compare_eq internal_less_def Let_def ExtractUserKey_def
      word_less_nat_alt key_number_val)

text \<open>
  C29: internal keys.  The serialisation of an internal key is parsed back.  On keys of at least eight bytes
  \<open>InternalKeyComparator\<close> is the documented order: negative, positive and zero for smaller, greater and equal keys, and
  transitive, so the order is total; for the keys the database makes it sorts by user key and, within a user key, newer
  sequence numbers first.  The separator
  written to an index block lies in the interval from its key, inclusive, to the next key, exclusive.
\<close>

theorem internal_key_order:
  assumes "unat s < 2 ^ 56" "unat s' < 2 ^ 56" and "8 \<le> length a" "8 \<le> length b"
  shows "ParseInternalKey (AppendInternalKey [] \<lparr>pk_user_key = u, pk_sequence = s, pk_type = t\<rparr>) =
      Some \<lparr>pk_user_key = u, pk_sequence = s, pk_type = t\<rparr> \<and>
    (InternalKeyCompare Slice_compare a b < 0 \<longleftrightarrow> internal_less a b) \<and>
    (InternalKeyCompare Slice_compare a b > 0 \<longleftrightarrow> internal_less b a) \<and>
    (InternalKeyCompare Slice_compare a b = 0 \<longleftrightarrow> a = b) \<and>
    (InternalKeyCompare Slice_compare a b \<le> 0 \<and> InternalKeyCompare Slice_compare b c \<le> 0 \<longrightarrow>
       InternalKeyCompare Slice_compare a c \<le> 0) \<and>
    (internal_less (internal_key u s t) (internal_key u' s' t') \<longleftrightarrow>
       bytes_less u u' \<or> u = u' \<and> (s > s' \<or> s = s' \<and> t = kTypeValue \<and> t' = kTypeDeletion)) \<and>
    (InternalKeyCompare Slice_compare a b < 0 \<longrightarrow>
      (let m = InternalShortestSeparator Slice_compare FindShortestSeparator a b
       in InternalKeyCompare Slice_compare a m \<le> 0 \<and> InternalKeyCompare Slice_compare m b < 0))"
    (is "?parse \<and> ?lt \<and> ?gt \<and> ?eq \<and> ?trans \<and> ?made \<and> ?sep")
proof (intro conjI)
  show ?parse
    using parse_internal_key [OF assms(1)] by (simp add: AppendInternalKey_eq)
  show ?lt by (rule InternalKeyCompare_less [OF assms(3,4)])
  show ?gt using InternalKeyCompare_less [OF assms(4,3)] internal.cmp_sym [of b a] by simp
  show ?eq using internal_equal [OF assms(3,4)] by blast
  show ?trans using internal.cmp_trans by blast
  have pack: "PackSequenceAndType s' t' < PackSequenceAndType s t \<longleftrightarrow> s > s' \<or> s = s' \<and> type_byte t > type_byte t'"
    unfolding word_less_nat_alt unat_pack [OF assms(1)] unat_pack [OF assms(2)]
    using type_byte_bits(2) [of t] type_byte_bits(2) [of t'] by (auto simp: word_unat_eq_iff)
  have types: "type_byte t > type_byte t' \<longleftrightarrow> t = kTypeValue \<and> t' = kTypeDeletion"
    by (cases t; cases t') simp_all
  show ?made
    using InternalKeyCompare_less [of "internal_key u s t" "internal_key u' s' t'"]
    by (simp add: InternalKeyCompare_cases Slice_compare_eq Slice_compare_less pack types)
  show ?sep using bytewise_sep.internal_separator [OF assms(3,4)] by (simp add: Let_def)
qed

lemma internal_key_order_witness:
  "ParseInternalKey (AppendInternalKey [] \<lparr>pk_user_key = [7], pk_sequence = 3, pk_type = kTypeValue\<rparr>) =
     Some \<lparr>pk_user_key = [7], pk_sequence = 3, pk_type = kTypeValue\<rparr> \<and>
   (let a = internal_key [1, 5, 9] 3 kTypeValue; b = internal_key [1, 9] 2 kTypeValue;
        m = InternalShortestSeparator Slice_compare FindShortestSeparator a b
    in length m = 10 \<and> InternalKeyCompare Slice_compare a m \<le> 0 \<and> InternalKeyCompare Slice_compare m b < 0)"
proof -
  let ?a = "internal_key [1, 5, 9] 3 kTypeValue" and ?b = "internal_key [1, 9] 2 kTypeValue"
  have h: "unat (3 :: u64) < 2 ^ 56" "8 \<le> length ?a" "8 \<le> length ?b" by simp_all
  have lt: "InternalKeyCompare Slice_compare ?a ?b < 0" by (simp add: InternalKeyCompare_cases)
  have l: "length (InternalShortestSeparator Slice_compare FindShortestSeparator ?a ?b) = 10"
    by (simp add: InternalShortestSeparator_def Let_def FindShortestSeparator_Cons PutFixed64_def fixed64_le)
  show ?thesis
    using internal_key_order [OF h(1) h(1) h(2,3), of "[7]" kTypeValue] lt l by (simp only: Let_def simp_thms)
qed

end
