(* ===== verification/Memtable.thy ===== *)
theory Memtable
  imports Skiplist Leveldb_Format
begin

text \<open>
  \<open>db/memtable.cc\<close> of LevelDB: the entries of a memtable are buffers in a skip list.  An entry holds the internal key and the
  value, each behind its length; the list is sorted by internal key.  The order of the user keys is a parameter, as it is in
  the code.  An operation is \<open>None\<close> when a search of the skip list does not return.
\<close>

section \<open>Entries\<close>

text \<open>
  \<open>GetLengthPrefixedSlice\<close> of a pointer into an entry: the length is read from at most five bytes and trusted.  The code has no
  case for a length that does not parse; the empty slice stands for it.
\<close>

definition entry_ptr :: "bytes \<Rightarrow> (u32 \<times> bytes) option" where
  "entry_ptr data = (case GetVarint32Ptr (take 5 data) of
     None \<Rightarrow> None
   | Some (len, q) \<Rightarrow> Some (len, drop (length (take 5 data) - length q) data))"

definition entry_slice :: "bytes \<Rightarrow> bytes" where
  "entry_slice data = (case entry_ptr data of None \<Rightarrow> [] | Some (len, p) \<Rightarrow> take (unat len) p)"

definition KeyComparator :: "bytes cmp \<Rightarrow> bytes cmp" where
  "KeyComparator ucmp aptr bptr = InternalKeyCompare ucmp (entry_slice aptr) (entry_slice bptr)"

definition EncodeKey :: "bytes \<Rightarrow> bytes" where
  "EncodeKey target = PutVarint32 [] (of_nat (length target)) @ target"

section \<open>The memtable\<close>

type_synonym memtable = "bytes skiplist"

definition MemTable :: memtable where
  "MemTable = SkipList []"

text \<open>The size of the buffer of an entry.\<close>

definition encoded_len :: "bytes \<Rightarrow> bytes \<Rightarrow> nat" where
  "encoded_len key value =
     (let internal_key_size = length key + 8; val_size = length value
      in VarintLength (of_nat internal_key_size) + internal_key_size + VarintLength (of_nat val_size) + val_size)"

definition MemTable_Add :: "bytes cmp \<Rightarrow> memtable \<Rightarrow> u64 \<Rightarrow> value_type \<Rightarrow> bytes \<Rightarrow> bytes \<Rightarrow> memtable option" where
  "MemTable_Add ucmp mem s type key value =
     (let internal_key_size = length key + 8;
          buf = EncodeVarint32 (of_nat internal_key_size);
          buf = buf @ key;
          buf = buf @ EncodeFixed64 (push_bit 8 s OR type_byte type);
          buf = buf @ EncodeVarint32 (of_nat (length value));
          buf = buf @ value
      in Insert (KeyComparator ucmp) mem buf)"

text \<open>\<open>Get\<close> finds the value, or that the key is deleted, or returns false.\<close>

datatype get_result = Get_Found bytes | Get_NotFound | Get_False

definition MemTable_Get :: "bytes cmp \<Rightarrow> memtable \<Rightarrow> lookup_key \<Rightarrow> get_result option" where
  "MemTable_Get ucmp mem key = (case It_Seek (KeyComparator ucmp) mem (memtable_key key) of
     None \<Rightarrow> None
   | Some None \<Rightarrow> Some Get_False
   | Some (Some node) \<Rightarrow>
       let entry = key_of mem node
       in case entry_ptr entry of
            None \<Rightarrow> Some Get_False
          | Some (key_length, key_ptr) \<Rightarrow>
              if ucmp (take (unat (key_length - 8)) key_ptr) (lookup_user_key key) = 0 then
                let tag = DecodeFixed64 (drop (unat key_length - 8) key_ptr)
                in if tag AND 0xff = type_byte kTypeValue then Some (Get_Found (entry_slice (drop (unat key_length) key_ptr)))
                   else if tag AND 0xff = type_byte kTypeDeletion then Some Get_NotFound
                   else Some Get_False
              else Some Get_False)"

text \<open>The iterator: a position in the skip list.\<close>

definition MemIter_Seek :: "bytes cmp \<Rightarrow> memtable \<Rightarrow> bytes \<Rightarrow> nat option option" where
  "MemIter_Seek ucmp mem k = It_Seek (KeyComparator ucmp) mem (EncodeKey k)"

definition MemIter_key :: "memtable \<Rightarrow> nat \<Rightarrow> bytes" where
  "MemIter_key mem node = entry_slice (key_of mem node)"

definition MemIter_value :: "memtable \<Rightarrow> nat \<Rightarrow> bytes" where
  "MemIter_value mem node = (case entry_ptr (key_of mem node) of
     None \<Rightarrow> entry_slice []
   | Some (len, p) \<Rightarrow> entry_slice (drop (unat len) p))"

section \<open>Layout of an entry\<close>

text \<open>What was added: sequence number, type, user key, value.\<close>

record mem_op =
  op_seq :: u64
  op_type :: value_type
  op_key :: bytes
  op_value :: bytes

definition op_ikey :: "mem_op \<Rightarrow> bytes" where
  "op_ikey p = internal_key (op_key p) (op_seq p) (op_type p)"

definition op_entry :: "mem_op \<Rightarrow> bytes" where
  "op_entry p = prefixed (op_ikey p) @ prefixed (op_value p)"

definition op_fits :: "mem_op \<Rightarrow> bool" where
  "op_fits p \<longleftrightarrow> unat (op_seq p) < 2 ^ 56 \<and> length (op_key p) + 8 < 2 ^ 32 \<and> length (op_value p) < 2 ^ 32"

lemma length_internal_key [simp]: "length (internal_key u s t) = length u + 8"
  by (simp add: internal_key_def)

lemma length_op_ikey [simp]: "length (op_ikey p) = length (op_key p) + 8"
  by (simp add: op_ikey_def)

lemma entry_ptr_varint:
  assumes "n < 2 ^ 32"
  shows "entry_ptr (varint n @ y) = Some (of_nat n, y)"
proof -
  have u: "unat (of_nat n :: u32) = n" using assms by (simp add: unat_of_nat)
  have l: "length (varint n) \<le> 5" using length_varint_32 [of "of_nat n"] u by simp
  then have "take 5 (varint n @ y) = varint n @ take (5 - length (varint n)) y" by simp
  moreover have "GetVarint32Ptr (varint n @ take (5 - length (varint n)) y) = Some (of_nat n, take (5 - length (varint n)) y)"
    using GetVarint32_varint [of "of_nat n"] u by simp
  ultimately show ?thesis unfolding entry_ptr_def by simp
qed

lemma entry_slice_prefixed: "length x < 2 ^ 32 \<Longrightarrow> entry_slice (prefixed x @ y) = x"
  using entry_ptr_varint [of "length x" "x @ y"] by (simp add: entry_slice_def prefixed_def unat_of_nat)

lemma entry_ikey: "op_fits p \<Longrightarrow> entry_slice (op_entry p) = op_ikey p"
  by (simp add: op_entry_def entry_slice_prefixed op_fits_def)

lemma encode_size: "n < 2 ^ 32 \<Longrightarrow> EncodeVarint32 (of_nat n) = varint n"
  by (simp add: encode_varint32 unat_of_nat)

lemma encode_key_size: "n + 8 < 2 ^ 32 \<Longrightarrow> EncodeVarint32 (of_nat n + 8) = varint (n + 8)"
  using encode_size [of "n + 8"] by simp

lemma MemTable_Add_eq:
  assumes "op_fits p"
  shows "MemTable_Add ucmp mem (op_seq p) (op_type p) (op_key p) (op_value p) = Insert (KeyComparator ucmp) mem (op_entry p)"
  using assms
  by (simp add: MemTable_Add_def Let_def op_entry_def prefixed_def op_ikey_def op_fits_def encode_size encode_key_size internal_key_def fixed64_le
      PackSequenceAndType_def)

lemma length_op_entry:
  assumes "op_fits p"
  shows "length (op_entry p) = encoded_len (op_key p) (op_value p)"
proof -
  have "unat (of_nat (length (op_key p) + 8) :: u64) = length (op_key p) + 8" "unat (of_nat (length (op_value p)) :: u64) = length (op_value p)"
    using assms by (simp_all add: op_fits_def unat_of_nat del: of_nat_add)
  then show ?thesis by (simp only: encoded_len_def Let_def varint_length) (simp add: op_entry_def prefixed_def)
qed

lemma memtable_key_eq:
  assumes "length u + 8 < 2 ^ 32"
  shows "memtable_key (LookupKey u s) = prefixed (internal_key u s kTypeValue)" "lookup_user_key (LookupKey u s) = u"
  using assms
  by (simp_all add: memtable_key_def LookupKey_def Let_def lookup_user_key_def prefixed_def encode_key_size internal_key_def fixed64_le
      kValueTypeForSeek_def)

lemma EncodeKey_eq: "length k < 2 ^ 32 \<Longrightarrow> EncodeKey k = prefixed k"
  by (simp add: EncodeKey_def PutVarint32_def encode_size prefixed_def)

lemma KeyComparator_comparator: "comparator ucmp \<Longrightarrow> comparator (KeyComparator ucmp)"
  unfolding comparator_def KeyComparator_def
  using internal_comparator [of ucmp] unfolding comparator_def by blast

interpretation mem: comparator "KeyComparator Slice_compare"
  by (rule KeyComparator_comparator) (rule bytewise.comparator_axioms)

section \<open>What \<open>Get\<close> finds\<close>

text \<open>The memtable holds the operations, that were added with increasing sequence numbers.\<close>

definition mem_holds :: "bytes cmp \<Rightarrow> memtable \<Rightarrow> mem_op list \<Rightarrow> bool" where
  "mem_holds ucmp mem ops \<longleftrightarrow>
     sl_inv (KeyComparator ucmp) mem \<and> mset (sl_keys mem) = mset (map op_entry ops) \<and>
     (\<forall>p \<in> set ops. op_fits p) \<and> sorted_wrt (\<lambda>p q. op_seq p < op_seq q) ops"

text \<open>The newest operation on a key that is not newer than a snapshot.\<close>

definition latest :: "bytes cmp \<Rightarrow> mem_op list \<Rightarrow> bytes \<Rightarrow> u64 \<Rightarrow> mem_op option" where
  "latest ucmp ops u s = find (\<lambda>p. ucmp (op_key p) u = 0 \<and> op_seq p \<le> s) (rev ops)"

definition get_spec :: "mem_op option \<Rightarrow> get_result" where
  "get_spec r = (case r of
     None \<Rightarrow> Get_False
   | Some p \<Rightarrow> (case op_type p of kTypeValue \<Rightarrow> Get_Found (op_value p) | kTypeDeletion \<Rightarrow> Get_NotFound))"

lemma latest_Some:
  assumes "sorted_wrt (\<lambda>p q. op_seq p < op_seq q) ops" and "p \<in> set ops" and "ucmp (op_key p) u = 0" "op_seq p \<le> s"
    and "\<forall>q \<in> set ops. ucmp (op_key q) u = 0 \<and> op_seq q \<le> s \<longrightarrow> op_seq q \<le> op_seq p"
  shows "latest ucmp ops u s = Some p"
  using assms
proof (induction ops rule: rev_induct)
  case Nil
  then show ?case by simp
next
  case (snoc q ops)
  show ?case
  proof (cases "p = q")
    case True
    then show ?thesis using snoc.prems by (simp add: latest_def)
  next
    case False
    then have p: "p \<in> set ops" using snoc.prems(2) by simp
    then have "op_seq p < op_seq q" using snoc.prems(1) by (simp add: sorted_wrt_append)
    then have "\<not> (ucmp (op_key q) u = 0 \<and> op_seq q \<le> s)" using snoc.prems(5) by auto
    moreover have "latest ucmp ops u s = Some p" using snoc p by (auto simp: sorted_wrt_append)
    ultimately show ?thesis by (auto simp: latest_def)
  qed
qed

lemma latest_None: "latest ucmp ops u s = None \<longleftrightarrow> (\<forall>p \<in> set ops. \<not> (ucmp (op_key p) u = 0 \<and> op_seq p \<le> s))"
  by (auto simp: latest_def find_None_iff)

lemma entry_before:
  assumes "op_fits p" and "op_fits q"
  shows "KeyComparator ucmp (op_entry p) (op_entry q) < 0 \<longleftrightarrow>
    ucmp (op_key p) (op_key q) < 0 \<or>
    ucmp (op_key p) (op_key q) = 0 \<and> PackSequenceAndType (op_seq q) (op_type q) < PackSequenceAndType (op_seq p) (op_type p)"
  using assms by (simp add: KeyComparator_def entry_ikey InternalKeyCompare_cases op_ikey_def)

lemma entry_before_target:
  assumes "op_fits p" and "length u + 8 < 2 ^ 32" and "unat s < 2 ^ 56"
  shows "KeyComparator ucmp (op_entry p) (memtable_key (LookupKey u s)) < 0 \<longleftrightarrow>
    ucmp (op_key p) u < 0 \<or> ucmp (op_key p) u = 0 \<and> s < op_seq p"
proof -
  have "entry_slice (prefixed (internal_key u s kTypeValue)) = internal_key u s kTypeValue"
    using entry_slice_prefixed [of "internal_key u s kTypeValue" "[]"] assms(2) by simp
  moreover have "PackSequenceAndType s kTypeValue < PackSequenceAndType (op_seq p) (op_type p) \<longleftrightarrow> s < op_seq p"
    using assms type_byte_bits(2) [of "op_type p"] by (auto simp: word_less_nat_alt unat_pack op_fits_def)
  ultimately show ?thesis
    using assms by (simp add: KeyComparator_def entry_ikey InternalKeyCompare_cases op_ikey_def memtable_key_eq)
qed

lemma mem_holds_empty: "mem_holds ucmp MemTable []"
  using SkipList_empty by (simp add: mem_holds_def MemTable_def)

lemma entries_distinct:
  assumes "comparator ucmp" and "op_fits p" "op_fits q" and "op_seq p < op_seq q"
  shows "KeyComparator ucmp (op_entry p) (op_entry q) \<noteq> 0"
proof -
  have "PackSequenceAndType (op_seq p) (op_type p) < PackSequenceAndType (op_seq q) (op_type q)"
    using assms type_byte_bits(2) [of "op_type p"] by (simp add: word_less_nat_alt unat_pack op_fits_def)
  then have "PackSequenceAndType (op_seq p) (op_type p) \<noteq> PackSequenceAndType (op_seq q) (op_type q)" by simp
  then show ?thesis
    using assms(2,3) by (auto simp: KeyComparator_def entry_ikey InternalKeyCompare_eq number_cmp_def op_ikey_def Let_def split: if_splits)
qed

lemma mem_Add:
  assumes cmp: "comparator ucmp" and mem: "mem_holds ucmp mem ops" and p: "op_fits p" "\<forall>q \<in> set ops. op_seq q < op_seq p"
  shows "\<exists>mem'. MemTable_Add ucmp mem (op_seq p) (op_type p) (op_key p) (op_value p) = Some mem' \<and>
    mem_holds ucmp mem' (ops @ [p])"
proof -
  have inv: "sl_inv (KeyComparator ucmp) mem" and keys: "mset (sl_keys mem) = mset (map op_entry ops)"
    and fits: "\<forall>q \<in> set ops. op_fits q" and seqs: "sorted_wrt (\<lambda>p q. op_seq p < op_seq q) ops"
    using mem by (simp_all add: mem_holds_def)
  have set: "set (sl_keys mem) = op_entry ` set ops" using keys by (metis set_map set_mset_mset)
  have "\<forall>k \<in> set (sl_keys mem). KeyComparator ucmp k (op_entry p) \<noteq> 0"
    unfolding set using entries_distinct [OF cmp _ p(1)] fits p(2) by blast
  then obtain mem' where mem': "Insert (KeyComparator ucmp) mem (op_entry p) = Some mem'" "sl_inv (KeyComparator ucmp) mem'"
      "sl_keys mem' = insert_cmp (KeyComparator ucmp) (op_entry p) (sl_keys mem)"
    using Insert_refines [OF KeyComparator_comparator [OF cmp] inv] by blast
  then have "mem_holds ucmp mem' (ops @ [p])"
    using keys fits seqs p by (auto simp: mem_holds_def sorted_wrt_append)
  then show ?thesis using mem'(1) MemTable_Add_eq [OF p(1)] by simp
qed

text \<open>The node that \<open>Seek\<close> gives carries the entry that \<open>latest\<close> names, when there is one.\<close>

lemma seek_latest:
  assumes cmp: "comparator ucmp" and mem: "mem_holds ucmp mem ops"
    and u: "length u + 8 < 2 ^ 32" and s: "unat s < 2 ^ 56"
  obtains n p where "It_Seek (KeyComparator ucmp) mem (memtable_key (LookupKey u s)) = Some (Some n)" "key_of mem n = op_entry p"
      "op_fits p" "ucmp (op_key p) u = 0" "latest ucmp ops u s = Some p"
  | n p where "It_Seek (KeyComparator ucmp) mem (memtable_key (LookupKey u s)) = Some (Some n)" "key_of mem n = op_entry p"
      "op_fits p" "ucmp (op_key p) u \<noteq> 0" "latest ucmp ops u s = None"
  | "It_Seek (KeyComparator ucmp) mem (memtable_key (LookupKey u s)) = Some None" "latest ucmp ops u s = None"
proof -
  let ?c = "KeyComparator ucmp" and ?t = "memtable_key (LookupKey u s)"
  let ?A = "nodes_lt ?c mem ?t (sl_order mem)" and ?B = "nodes_ge ?c mem ?t (sl_order mem)"
  have ok: "sl_ok ?c mem (sl_order mem)" and keys: "mset (sl_keys mem) = mset (map op_entry ops)"
    and fits: "\<forall>q \<in> set ops. op_fits q" and seqs: "sorted_wrt (\<lambda>p q. op_seq p < op_seq q) ops"
    using mem by (simp_all add: mem_holds_def sl_inv_def)
  have sorted: "sorted_wrt (\<lambda>x y. ?c (key_of mem x) (key_of mem y) < 0) (?A @ ?B)"
    using ok unfolding nodes_split by (simp add: sl_ok_def)
  have set: "key_of mem ` (set ?A \<union> set ?B) = op_entry ` set ops"
    using keys unfolding set_append [symmetric] nodes_split by (metis set_map set_mset_mset sl_keys_def)
  have seek: "It_Seek ?c mem ?t = Some (first ?B)"
    using find_ge [OF KeyComparator_comparator [OF cmp] ok, of ?t] by (auto simp: It_Seek_def)
  have before: "?c (op_entry q) ?t < 0 \<longleftrightarrow> ucmp (op_key q) u < 0 \<or> ucmp (op_key q) u = 0 \<and> s < op_seq q" if "q \<in> set ops" for q
    using entry_before_target [OF _ u s] fits that by blast
  have cand: "op_entry q \<in> key_of mem ` set ?B" if "q \<in> set ops" "ucmp (op_key q) u = 0" "op_seq q \<le> s" for q
  proof -
    have "\<not> ?c (op_entry q) ?t < 0" using before [OF that(1)] that(2,3) by simp
    then have "op_entry q \<notin> key_of mem ` set ?A" by (metis imageE nodes_lt_less)
    moreover have "op_entry q \<in> key_of mem ` (set ?A \<union> set ?B)" unfolding set using that(1) by blast
    ultimately show ?thesis by blast
  qed
  show thesis
  proof (cases ?B)
    case Nil
    then have "latest ucmp ops u s = None" using cand unfolding latest_None by auto
    then show thesis using that(3) seek Nil by simp
  next
    case (Cons n rest)
    then have "key_of mem n \<in> op_entry ` set ops" using set by auto
    then obtain p where p: "p \<in> set ops" "key_of mem n = op_entry p" by auto
    have n: "It_Seek ?c mem ?t = Some (Some n)" using seek Cons by simp
    have "\<not> ?c (op_entry p) ?t < 0"
      using nodes_ge_ge [OF KeyComparator_comparator [OF cmp], of mem "sl_order mem" n ?t] ok Cons p(2) by (simp add: sl_ok_def)
    then have ge: "\<not> ucmp (op_key p) u < 0" "ucmp (op_key p) u = 0 \<Longrightarrow> op_seq p \<le> s" using before [OF p(1)] by auto
    have after: "op_entry q = op_entry p \<or> ?c (op_entry p) (op_entry q) < 0"
      if "q \<in> set ops" "ucmp (op_key q) u = 0" "op_seq q \<le> s" for q
      using cand [OF that] sorted Cons p(2) by (auto simp: sorted_wrt_append)
    have fp: "op_fits p" using fits p(1) by blast
    show thesis
    proof (cases "ucmp (op_key p) u = 0")
      case True
      have "op_seq q \<le> op_seq p" if q: "q \<in> set ops" "ucmp (op_key q) u = 0 \<and> op_seq q \<le> s" for q
      proof -
        have fq: "op_fits q" using fits q(1) by blast
        have "ucmp (op_key p) (op_key q) = 0"
          using comparator.cmp_zero_trans [OF cmp, of "op_key p" u "op_key q"] comparator.cmp_zero_sym [OF cmp, of "op_key q" u] True q(2)
          by simp
        then have "op_entry q = op_entry p \<or>
            PackSequenceAndType (op_seq q) (op_type q) < PackSequenceAndType (op_seq p) (op_type p)"
          using after [OF q(1)] q(2) entry_before [OF fp fq] by auto
        then show ?thesis
        proof
          assume "op_entry q = op_entry p"
          then have "op_ikey q = op_ikey p" using entry_ikey [OF fp] entry_ikey [OF fq] by simp
          then have "PackSequenceAndType (op_seq q) (op_type q) = PackSequenceAndType (op_seq p) (op_type p)"
            using internal_key_parts(2) unfolding op_ikey_def by metis
          then have "unat (op_seq q) * 256 + unat (type_byte (op_type q)) = unat (op_seq p) * 256 + unat (type_byte (op_type p))"
            using unat_pack fp fq unfolding op_fits_def by metis
          then show ?thesis using type_byte_bits(2) [of "op_type p"] type_byte_bits(2) [of "op_type q"] by (simp add: word_le_nat_alt)
        next
          assume "PackSequenceAndType (op_seq q) (op_type q) < PackSequenceAndType (op_seq p) (op_type p)"
          then show ?thesis using fp fq type_byte_bits(2) [of "op_type p"] type_byte_bits(2) [of "op_type q"]
            by (simp add: word_less_nat_alt word_le_nat_alt unat_pack op_fits_def)
        qed
      qed
      then have "latest ucmp ops u s = Some p" using latest_Some [of ops p ucmp u s] seqs p(1) True ge(2) [OF True] by blast
      then show thesis using that(1) n p(2) fp True by blast
    next
      case False
      have "\<not> (ucmp (op_key q) u = 0 \<and> op_seq q \<le> s)" if "q \<in> set ops" for q
      proof
        assume q: "ucmp (op_key q) u = 0 \<and> op_seq q \<le> s"
        have fq: "op_fits q" using fits that by blast
        have "op_key p = op_key q \<or> ucmp (op_key p) (op_key q) \<le> 0"
        proof -
          have "op_key p = op_key q" if "op_entry q = op_entry p"
            using entry_ikey [OF fp] entry_ikey [OF fq] that internal_key_parts(1) unfolding op_ikey_def by metis
          then show ?thesis using after [OF that] q entry_before [OF fp fq] by auto
        qed
        then have "ucmp (op_key p) (op_key q) \<le> 0" using comparator.cmp_refl [OF cmp] by auto
        then have "ucmp (op_key p) u \<le> 0" using comparator.cmp_trans [OF cmp, of "op_key p" "op_key q" u] q by simp
        then show False using False ge(1) by simp
      qed
      then have "latest ucmp ops u s = None" unfolding latest_None by blast
      then show thesis using that(2) n p(2) fp False by blast
    qed
  qed
qed

lemma mem_Get:
  assumes cmp: "comparator ucmp" and mem: "mem_holds ucmp mem ops"
    and u: "length u + 8 < 2 ^ 32" and s: "unat s < 2 ^ 56"
  shows "MemTable_Get ucmp mem (LookupKey u s) = Some (get_spec (latest ucmp ops u s))"
proof -
  have entry: "entry_ptr (op_entry p) = Some (of_nat (length (op_key p) + 8), op_ikey p @ prefixed (op_value p))" if "op_fits p" for p
    using entry_ptr_varint [of "length (op_ikey p)" "op_ikey p @ prefixed (op_value p)"] that
    by (simp add: op_entry_def prefixed_def op_fits_def del: of_nat_add)
  have len: "unat (of_nat (length (op_key p) + 8) :: u32) = length (op_key p) + 8"
    "unat (of_nat (length (op_key p) + 8) - 8 :: u32) = length (op_key p)" if "op_fits p" for p
    using that by (simp_all add: op_fits_def unat_of_nat del: of_nat_add) (simp add: unat_of_nat)
  have key: "take (length (op_key p)) (op_ikey p) = op_key p" for p by (simp add: op_ikey_def internal_key_def)
  have tag: "DecodeFixed64 (drop (length (op_key p)) (op_ikey p) @ r) = PackSequenceAndType (op_seq p) (op_type p)" for p r
    by (simp add: op_ikey_def internal_key_def)
  have val: "entry_slice (prefixed (op_value p)) = op_value p" if "op_fits p" for p
    using entry_slice_prefixed [of "op_value p" "[]"] that by (simp add: op_fits_def)
  show ?thesis
  proof (rule seek_latest [OF assms])
    fix n p
    assume "It_Seek (KeyComparator ucmp) mem (memtable_key (LookupKey u s)) = Some (Some n)" "key_of mem n = op_entry p"
      and p: "op_fits p" "ucmp (op_key p) u = 0" "latest ucmp ops u s = Some p"
    then show ?thesis
      by (cases "op_type p") (simp_all add: MemTable_Get_def pack_type entry len key tag val Let_def memtable_key_eq(2) [OF u] get_spec_def op_fits_def del: of_nat_add)
  next
    fix n p
    assume "It_Seek (KeyComparator ucmp) mem (memtable_key (LookupKey u s)) = Some (Some n)" "key_of mem n = op_entry p"
      and p: "op_fits p" "ucmp (op_key p) u \<noteq> 0" "latest ucmp ops u s = None"
    then show ?thesis
      by (simp add: MemTable_Get_def entry len key Let_def memtable_key_eq(2) [OF u] get_spec_def del: of_nat_add)
  next
    assume "It_Seek (KeyComparator ucmp) mem (memtable_key (LookupKey u s)) = Some None" "latest ucmp ops u s = None"
    then show ?thesis by (simp add: MemTable_Get_def get_spec_def)
  qed
qed

end
