(* ===== verification/Write_Batch.thy ===== *)
theory Write_Batch
  imports Memtable
begin

text \<open>
  \<open>db/write_batch.cc\<close> of LevelDB: a batch of updates as one string (a sequence number, a count, the records), its replay into a
  handler, and the handler that adds the records to a memtable.
\<close>

section \<open>Batches\<close>

definition kHeader :: nat where
  "kHeader = 12"

definition WriteBatch_Clear :: bytes where
  "WriteBatch_Clear = replicate kHeader 0"

definition Batch_Count :: "bytes \<Rightarrow> u32" where
  "Batch_Count rep = DecodeFixed32 (drop 8 rep)"

definition Batch_SetCount :: "bytes \<Rightarrow> u32 \<Rightarrow> bytes" where
  "Batch_SetCount rep n = mem_copy 8 (EncodeFixed32 n) rep"

definition Batch_Sequence :: "bytes \<Rightarrow> u64" where
  "Batch_Sequence rep = DecodeFixed64 rep"

definition Batch_SetSequence :: "bytes \<Rightarrow> u64 \<Rightarrow> bytes" where
  "Batch_SetSequence rep seq = mem_copy 0 (EncodeFixed64 seq) rep"

text \<open>The tags are the values of \<open>ValueType\<close>.\<close>

definition Batch_Put :: "bytes \<Rightarrow> bytes \<Rightarrow> bytes \<Rightarrow> bytes" where
  "Batch_Put rep key value =
     (let rep = Batch_SetCount rep (Batch_Count rep + 1);
          rep = rep @ [ucast (type_byte kTypeValue)];
          rep = PutLengthPrefixedSlice rep key
      in PutLengthPrefixedSlice rep value)"

definition Batch_Delete :: "bytes \<Rightarrow> bytes \<Rightarrow> bytes" where
  "Batch_Delete rep key =
     (let rep = Batch_SetCount rep (Batch_Count rep + 1);
          rep = rep @ [ucast (type_byte kTypeDeletion)]
      in PutLengthPrefixedSlice rep key)"

definition Batch_Append :: "bytes \<Rightarrow> bytes \<Rightarrow> bytes" where
  "Batch_Append dst src = Batch_SetCount dst (Batch_Count dst + Batch_Count src) @ drop kHeader src"

section \<open>Replay\<close>

datatype status = Status_OK | Corruption string

lemma GetVarint32_shorter: "GetVarint32 input = (r, rest) \<Longrightarrow> length rest \<le> length input"
  by (auto simp: GetVarint32_def GetVarint32Ptr_exact split: option.splits prod.splits if_splits dest!: group_SomeD)

lemma GetLengthPrefixedSlice_shorter: "GetLengthPrefixedSlice input = (r, rest) \<Longrightarrow> length rest \<le> length input"
  by (auto simp: GetLengthPrefixedSlice_def split: option.splits prod.splits if_splits dest!: GetVarint32_shorter)

text \<open>A handler is its two operations on a state; \<open>found\<close> is the \<open>int\<close> that counts the records.\<close>

function batch_loop ::
  "(bytes \<Rightarrow> bytes \<Rightarrow> 'h \<Rightarrow> 'h) \<Rightarrow> (bytes \<Rightarrow> 'h \<Rightarrow> 'h) \<Rightarrow> u32 \<Rightarrow> 'h \<Rightarrow> bytes \<Rightarrow> status \<times> u32 \<times> 'h" where
  "batch_loop put del found h [] = (Status_OK, found, h)"
| "batch_loop put del found h (tag # input) =
     (let found = found + 1
      in if tag = ucast (type_byte kTypeValue) then
           case GetLengthPrefixedSlice input of
             (Some key, input) \<Rightarrow>
               (case GetLengthPrefixedSlice input of
                  (Some value, input) \<Rightarrow> batch_loop put del found (put key value h) input
                | (None, _) \<Rightarrow> (Corruption ''bad WriteBatch Put'', found, h))
           | (None, _) \<Rightarrow> (Corruption ''bad WriteBatch Put'', found, h)
         else if tag = ucast (type_byte kTypeDeletion) then
           case GetLengthPrefixedSlice input of
             (Some key, input) \<Rightarrow> batch_loop put del found (del key h) input
           | (None, _) \<Rightarrow> (Corruption ''bad WriteBatch Delete'', found, h)
         else (Corruption ''unknown WriteBatch tag'', found, h))"
  by pat_completeness auto

termination
proof (relation "measure (\<lambda>(_, _, _, _, input). length input)", goal_cases)
  case (2 put del found h tag input f p r1 k p' r2 v)
  then show ?case
    using GetLengthPrefixedSlice_shorter [of input "Some k" r1] GetLengthPrefixedSlice_shorter [of r1 "Some v" r2] by simp
next
  case (3 put del found h tag input f p r1 k)
  then show ?case using GetLengthPrefixedSlice_shorter [of input "Some k" r1] by simp
qed simp

declare batch_loop.simps [simp del]

definition Batch_Iterate ::
  "(bytes \<Rightarrow> bytes \<Rightarrow> 'h \<Rightarrow> 'h) \<Rightarrow> (bytes \<Rightarrow> 'h \<Rightarrow> 'h) \<Rightarrow> bytes \<Rightarrow> 'h \<Rightarrow> status \<times> 'h" where
  "Batch_Iterate put del rep h =
     (if length rep < kHeader then (Corruption ''malformed WriteBatch (too small)'', h)
      else case batch_loop put del 0 h (drop kHeader rep) of
        (Corruption msg, _, h) \<Rightarrow> (Corruption msg, h)
      | (Status_OK, found, h) \<Rightarrow>
          if found \<noteq> Batch_Count rep then (Corruption ''WriteBatch has wrong count'', h) else (Status_OK, h))"

text \<open>\<open>MemTableInserter\<close>: the sequence number of the next record and the memtable.\<close>

type_synonym inserter = "u64 \<times> memtable option"

definition Inserter_Put :: "bytes cmp \<Rightarrow> bytes \<Rightarrow> bytes \<Rightarrow> inserter \<Rightarrow> inserter" where
  "Inserter_Put ucmp key value h = (case h of (seq, mem) \<Rightarrow>
     (seq + 1, Option.bind mem (\<lambda>mem. MemTable_Add ucmp mem seq kTypeValue key value)))"

definition Inserter_Delete :: "bytes cmp \<Rightarrow> bytes \<Rightarrow> inserter \<Rightarrow> inserter" where
  "Inserter_Delete ucmp key h = (case h of (seq, mem) \<Rightarrow>
     (seq + 1, Option.bind mem (\<lambda>mem. MemTable_Add ucmp mem seq kTypeDeletion key [])))"

definition InsertInto :: "bytes cmp \<Rightarrow> bytes \<Rightarrow> memtable \<Rightarrow> status \<times> memtable option" where
  "InsertInto ucmp rep mem =
     (case Batch_Iterate (Inserter_Put ucmp) (Inserter_Delete ucmp) rep (Batch_Sequence rep, Some mem) of
        (s, _, mem) \<Rightarrow> (s, mem))"

section \<open>A batch is a list of updates\<close>

datatype update = Upd_Put bytes bytes | Upd_Delete bytes

fun upd_bytes :: "update \<Rightarrow> bytes" where
  "upd_bytes (Upd_Put k v) = 1 # prefixed k @ prefixed v"
| "upd_bytes (Upd_Delete k) = 0 # prefixed k"

fun upd_fits :: "update \<Rightarrow> bool" where
  "upd_fits (Upd_Put k v) \<longleftrightarrow> length k + 8 < 2 ^ 32 \<and> length v < 2 ^ 32"
| "upd_fits (Upd_Delete k) \<longleftrightarrow> length k + 8 < 2 ^ 32"

definition batch_holds :: "bytes \<Rightarrow> u64 \<Rightarrow> update list \<Rightarrow> bool" where
  "batch_holds rep seq us \<longleftrightarrow>
     rep = le_bytes 8 (unat seq) @ le_bytes 4 (length us mod 4294967296) @ concat (map upd_bytes us) \<and> (\<forall>u \<in> set us. upd_fits u)"

text \<open>The calls that build a batch.\<close>

fun batch_apply :: "bytes \<Rightarrow> update \<Rightarrow> bytes" where
  "batch_apply rep (Upd_Put k v) = Batch_Put rep k v"
| "batch_apply rep (Upd_Delete k) = Batch_Delete rep k"

fun replay :: "(bytes \<Rightarrow> bytes \<Rightarrow> 'h \<Rightarrow> 'h) \<Rightarrow> (bytes \<Rightarrow> 'h \<Rightarrow> 'h) \<Rightarrow> 'h \<Rightarrow> update \<Rightarrow> 'h" where
  "replay put del h (Upd_Put k v) = put k v h"
| "replay put del h (Upd_Delete k) = del k h"

lemma unat_count: "unat (of_nat n :: u32) = n mod 4294967296"
  by (simp add: unat_of_nat)

lemma of_nat_mod_u32: "(of_nat (n mod 4294967296) :: u32) = of_nat n"
  by (simp add: word_unat_eq_iff unat_of_nat)

lemma holds_Count:
  assumes "batch_holds rep seq us"
  shows "Batch_Count rep = of_nat (length us)"
proof -
  let ?r = "concat (map upd_bytes us)"
  have "DecodeFixed32 (le_bytes 4 (unat (of_nat (length us) :: u32)) @ ?r) = of_nat (length us)" by (rule decode_fixed32)
  then show ?thesis using assms by (simp add: batch_holds_def Batch_Count_def unat_count)
qed

lemma holds_Sequence: "batch_holds rep seq us \<Longrightarrow> Batch_Sequence rep = seq"
  by (simp add: batch_holds_def Batch_Sequence_def)

lemma holds_SetCount:
  assumes "batch_holds rep seq us"
  shows "Batch_SetCount rep (of_nat n) = le_bytes 8 (unat seq) @ le_bytes 4 (n mod 4294967296) @ concat (map upd_bytes us)"
  using assms by (simp add: batch_holds_def Batch_SetCount_def mem_copy_def fixed32_le unat_count)

lemma holds_SetSequence: "batch_holds rep seq us \<Longrightarrow> batch_holds (Batch_SetSequence rep seq') seq' us"
  by (simp add: batch_holds_def Batch_SetSequence_def mem_copy_def fixed64_le)

lemma holds_Clear: "batch_holds WriteBatch_Clear 0 []"
proof -
  have zeros: "le_bytes n 0 = replicate n 0" for n by (induction n) (simp_all add: le_bytes_Suc)
  show ?thesis using replicate_add [of 8 4 "0 :: u8"] by (simp add: batch_holds_def WriteBatch_Clear_def kHeader_def zeros)
qed

lemma holds_apply:
  assumes "batch_holds rep seq us" and "upd_fits u"
  shows "batch_holds (batch_apply rep u) seq (us @ [u])"
proof -
  have "Batch_SetCount rep (Batch_Count rep + 1) =
      le_bytes 8 (unat seq) @ le_bytes 4 (Suc (length us) mod 4294967296) @ concat (map upd_bytes us)"
    using holds_SetCount [OF assms(1), of "Suc (length us)"] holds_Count [OF assms(1)] by (simp add: add.commute)
  then show ?thesis
    using assms by (cases u) (simp_all add: batch_holds_def Batch_Put_def Batch_Delete_def Let_def PutLengthPrefixedSlice_eq)
qed

lemma holds_Append:
  assumes "batch_holds dst seq us" and "batch_holds src seq' vs"
  shows "batch_holds (Batch_Append dst src) seq (us @ vs)"
proof -
  have "Batch_SetCount dst (Batch_Count dst + Batch_Count src) =
      le_bytes 8 (unat seq) @ le_bytes 4 ((length us + length vs) mod 4294967296) @ concat (map upd_bytes us)"
    using holds_SetCount [OF assms(1), of "length us + length vs"] holds_Count [OF assms(1)] holds_Count [OF assms(2)] by simp
  moreover have "drop kHeader src = concat (map upd_bytes vs)" using assms(2) by (simp add: batch_holds_def kHeader_def)
  ultimately show ?thesis using assms by (auto simp: batch_holds_def Batch_Append_def)
qed

lemma batch_loop_updates:
  assumes "\<forall>u \<in> set us. upd_fits u"
  shows "batch_loop put del found h (concat (map upd_bytes us)) = (Status_OK, found + of_nat (length us), foldl (replay put del) h us)"
  using assms
proof (induction us arbitrary: found h)
  case Nil
  then show ?case by (simp add: batch_loop.simps)
next
  case (Cons u us)
  then show ?case
    by (cases u) (simp_all add: batch_loop.simps GetLengthPrefixedSlice_prefixed Let_def add.assoc)
qed

lemma batch_replay:
  assumes "batch_holds rep seq us"
  shows "Batch_Iterate put del rep h = (Status_OK, foldl (replay put del) h us)"
proof -
  have d: "drop kHeader rep = concat (map upd_bytes us)" and l: "\<not> length rep < kHeader" and f: "\<forall>u \<in> set us. upd_fits u"
    using assms by (simp_all add: batch_holds_def kHeader_def)
  show ?thesis
    unfolding Batch_Iterate_def d batch_loop_updates [OF f] using l holds_Count [OF assms] by simp
qed

section \<open>Truncated batches\<close>

lemma group_extend: "varint_group xs = Some (g, r) \<Longrightarrow> varint_group (xs @ ys) = Some (g, r @ ys)"
  by (induction xs arbitrary: g r) (auto split: if_splits option.splits)

lemma group_cut: "m < length (varint n) \<Longrightarrow> varint_group (take m (varint n)) = None"
proof (rule ccontr)
  assume m: "m < length (varint n)" and "varint_group (take m (varint n)) \<noteq> None"
  then obtain g r where "varint_group (take m (varint n)) = Some (g, r)" by auto
  from group_extend [OF this, of "drop m (varint n)"] have "varint_group (varint n) = Some (g, r @ drop m (varint n))" by simp
  moreover have "varint_group (varint n) = Some (varint n, [])" using group_varint [of n "[]"] by simp
  ultimately show False using m by simp
qed

lemma prefixed_cut:
  assumes "length s < 2 ^ 32" and "m < length (prefixed s)"
  shows "\<exists>r. GetLengthPrefixedSlice (take m (prefixed s)) = (None, r)"
proof (cases "m < length (varint (length s))")
  case True
  then have "GetVarint32Ptr (take m (prefixed s)) = None"
    using group_cut [OF True] by (simp add: prefixed_def GetVarint32Ptr_exact)
  then show ?thesis by (simp add: GetLengthPrefixedSlice_def GetVarint32_def)
next
  case False
  have u: "unat (of_nat (length s) :: u32) = length s" using assms(1) by (simp add: unat_of_nat)
  let ?t = "take (m - length (varint (length s))) s"
  have t: "take m (prefixed s) = varint (length s) @ ?t" using False by (simp add: prefixed_def)
  have "GetVarint32Ptr (take m (prefixed s)) = Some (of_nat (length s), ?t)"
    unfolding t using GetVarint32_varint [of "of_nat (length s)" ?t] u by simp
  moreover have "length ?t < length s" using assms(2) False by (simp add: prefixed_def)
  ultimately show ?thesis using u by (simp add: GetLengthPrefixedSlice_def GetVarint32_def)
qed

lemma update_cut:
  assumes "upd_fits u" and "m < length (upd_bytes u)" "0 < m"
  shows "fst (batch_loop put del found h (take m (upd_bytes u))) \<noteq> Status_OK"
proof -
  obtain m' where m: "m = Suc m'" using assms(3) by (cases m) auto
  show ?thesis
  proof (cases u)
    case (Upd_Delete k)
    then have "\<exists>r. GetLengthPrefixedSlice (take m' (prefixed k)) = (None, r)" using assms m by (intro prefixed_cut) simp_all
    then show ?thesis using Upd_Delete m by (auto simp: batch_loop.simps Let_def)
  next
    case (Upd_Put k v)
    have f: "length k < 2 ^ 32" "length v < 2 ^ 32" using assms(1) Upd_Put by simp_all
    show ?thesis
    proof (cases "m' < length (prefixed k)")
      case True
      then have "\<exists>r. GetLengthPrefixedSlice (take m' (prefixed k)) = (None, r)" using f by (intro prefixed_cut) simp_all
      then show ?thesis using Upd_Put m True by (auto simp: batch_loop.simps Let_def)
    next
      case False
      let ?j = "m' - length (prefixed k)"
      have "take m' (prefixed k @ prefixed v) = prefixed k @ take ?j (prefixed v)" using False by simp
      moreover have "\<exists>r. GetLengthPrefixedSlice (take ?j (prefixed v)) = (None, r)"
        using f False assms(2) Upd_Put m by (intro prefixed_cut) simp_all
      ultimately show ?thesis
        using Upd_Put m GetLengthPrefixedSlice_prefixed(1) [OF f(1)] by (auto simp: batch_loop.simps Let_def)
    qed
  qed
qed

lemma batch_loop_step:
  assumes "upd_fits u"
  shows "batch_loop put del found h (upd_bytes u @ r) = batch_loop put del (found + 1) (replay put del h u) r"
  using assms by (cases u) (simp_all add: batch_loop.simps GetLengthPrefixedSlice_prefixed Let_def)

lemma updates_cut:
  assumes "\<forall>u \<in> set us. upd_fits u" and "m < length (concat (map upd_bytes us))"
    and "batch_loop put del found h (take m (concat (map upd_bytes us))) = (Status_OK, found', h')"
  shows "\<exists>j < length us. found' = found + of_nat j"
  using assms
proof (induction us arbitrary: m found h)
  case Nil
  then show ?case by simp
next
  case (Cons u us)
  show ?case
  proof (cases "m < length (upd_bytes u)")
    case True
    then have "m = 0" using update_cut [of u m put del found h] Cons.prems by fastforce
    then show ?thesis using Cons.prems(3) by (intro exI [of _ 0]) (simp add: batch_loop.simps)
  next
    case False
    let ?m = "m - length (upd_bytes u)"
    have "take m (concat (map upd_bytes (u # us))) = upd_bytes u @ take ?m (concat (map upd_bytes us))" using False by simp
    then have "batch_loop put del (found + 1) (replay put del h u) (take ?m (concat (map upd_bytes us))) = (Status_OK, found', h')"
      using Cons.prems(1,3) batch_loop_step [of u put del found h] by simp
    moreover have "?m < length (concat (map upd_bytes us))" using Cons.prems(2) False by simp
    ultimately obtain j where "j < length us" "found' = found + 1 + of_nat j"
      using Cons.IH [of ?m "found + 1" "replay put del h u"] Cons.prems(1) by auto
    then show ?thesis by (intro exI [of _ "Suc j"]) (simp add: add.assoc)
  qed
qed

section \<open>A batch in a memtable\<close>

text \<open>The operations that a batch stands for, numbered from its sequence number on.\<close>

fun upd_op :: "u64 \<Rightarrow> update \<Rightarrow> mem_op" where
  "upd_op seq (Upd_Put k v) = \<lparr>op_seq = seq, op_type = kTypeValue, op_key = k, op_value = v\<rparr>"
| "upd_op seq (Upd_Delete k) = \<lparr>op_seq = seq, op_type = kTypeDeletion, op_key = k, op_value = []\<rparr>"

primrec batch_ops :: "u64 \<Rightarrow> update list \<Rightarrow> mem_op list" where
  "batch_ops seq [] = []"
| "batch_ops seq (u # us) = upd_op seq u # batch_ops (seq + 1) us"

lemma upd_op_seq [simp]: "op_seq (upd_op seq u) = seq"
  by (cases u) simp_all

lemma upd_op_fits: "upd_fits u \<Longrightarrow> unat seq < 2 ^ 56 \<Longrightarrow> op_fits (upd_op seq u)"
  by (cases u) (simp_all add: op_fits_def)

lemma inserter_step:
  "replay (Inserter_Put ucmp) (Inserter_Delete ucmp) (seq, Some mem) u =
    (seq + 1, MemTable_Add ucmp mem (op_seq (upd_op seq u)) (op_type (upd_op seq u)) (op_key (upd_op seq u)) (op_value (upd_op seq u)))"
  by (cases u) (simp_all add: Inserter_Put_def Inserter_Delete_def)

lemma inserter_run:
  assumes "comparator ucmp" and "mem_holds ucmp mem ops" and "\<forall>u \<in> set us. upd_fits u"
    and "unat seq + length us \<le> 2 ^ 56" and "\<forall>p \<in> set ops. op_seq p < seq"
  shows "\<exists>mem'. snd (foldl (replay (Inserter_Put ucmp) (Inserter_Delete ucmp)) (seq, Some mem) us) = Some mem' \<and>
    mem_holds ucmp mem' (ops @ batch_ops seq us)"
  using assms(2-5)
proof (induction us arbitrary: seq mem ops)
  case Nil
  then show ?case by simp
next
  case (Cons u us)
  let ?p = "upd_op seq u"
  have fits: "op_fits ?p" using Cons.prems by (intro upd_op_fits) simp_all
  then obtain mem' where mem': "MemTable_Add ucmp mem (op_seq ?p) (op_type ?p) (op_key ?p) (op_value ?p) = Some mem'"
      "mem_holds ucmp mem' (ops @ [?p])"
    using mem_Add [OF assms(1) Cons.prems(1), of ?p] Cons.prems(4) by auto
  have suc: "unat (seq + 1) = unat seq + 1" using Cons.prems(3) by (simp add: unat_plus_small)
  then have "\<forall>p \<in> set (ops @ [?p]). op_seq p < seq + 1" using Cons.prems(4) by (auto simp: word_less_nat_alt)
  then show ?case
    using Cons.IH [OF mem'(2), of "seq + 1"] Cons.prems(2,3) suc mem'(1) by (simp add: inserter_step del: replay.simps)
qed

lemma InsertInto_exact:
  assumes "comparator ucmp" and "mem_holds ucmp mem ops" and "batch_holds rep seq us"
    and "unat seq + length us \<le> 2 ^ 56" and "\<forall>p \<in> set ops. op_seq p < seq"
  shows "\<exists>mem'. InsertInto ucmp rep mem = (Status_OK, Some mem') \<and> mem_holds ucmp mem' (ops @ batch_ops seq us)"
proof -
  have "\<forall>u \<in> set us. upd_fits u" using assms(3) by (simp add: batch_holds_def)
  from inserter_run [OF assms(1,2) this assms(4,5)] obtain mem'
    where "snd (foldl (replay (Inserter_Put ucmp) (Inserter_Delete ucmp)) (seq, Some mem) us) = Some mem'"
      "mem_holds ucmp mem' (ops @ batch_ops seq us)" by blast
  then show ?thesis
    unfolding InsertInto_def batch_replay [OF assms(3)] holds_Sequence [OF assms(3)] by (auto split: prod.splits)
qed

section \<open>Properties\<close>

text \<open>
  C32: batches.  The calls \<open>Put\<close> and \<open>Delete\<close> on a cleared batch followed by \<open>SetSequence\<close> produce a string that is replayed
  into any handler in order and with status OK; appending a second batch replays the one after the other.
\<close>

theorem batch_replays_updates:
  assumes "\<forall>u \<in> set us. upd_fits u" and "\<forall>u \<in> set vs. upd_fits u"
  shows "let a = Batch_SetSequence (foldl batch_apply WriteBatch_Clear us) seq; b = foldl batch_apply WriteBatch_Clear vs
    in Batch_Sequence a = seq \<and> Batch_Count a = of_nat (length us) \<and>
       Batch_Iterate put del a h = (Status_OK, foldl (replay put del) h us) \<and>
       Batch_Iterate put del (Batch_Append a b) h = (Status_OK, foldl (replay put del) h (us @ vs))"
proof -
  have run: "batch_holds (foldl batch_apply rep xs) q (ys @ xs)" if "batch_holds rep q ys" "\<forall>u \<in> set xs. upd_fits u" for rep xs ys q
    using that
  proof (induction xs arbitrary: rep ys)
    case (Cons x xs)
    then show ?case using holds_apply [of rep q ys x] Cons.IH [of "batch_apply rep x" "ys @ [x]"] by simp
  qed simp
  have a: "batch_holds (Batch_SetSequence (foldl batch_apply WriteBatch_Clear us) seq) seq us"
    using holds_SetSequence [OF run [OF holds_Clear assms(1)]] by simp
  have "batch_holds (foldl batch_apply WriteBatch_Clear vs) 0 vs" using run [OF holds_Clear assms(2)] by simp
  note ab = holds_Append [OF a this]
  show ?thesis
    unfolding Let_def using holds_Sequence [OF a] holds_Count [OF a] batch_replay [OF a, of put del h] batch_replay [OF ab, of put del h] by simp
qed

lemma batch_replays_updates_witness:
  "let a = Batch_SetSequence (Batch_Delete (Batch_Put WriteBatch_Clear [7] [8, 9]) [1]) 5
   in Batch_Count a = 2 \<and> Batch_Sequence a = 5 \<and>
      Batch_Iterate (\<lambda>k v h. h @ [(k, Some v)]) (\<lambda>k h. h @ [(k, None)]) a [] = (Status_OK, [([7], Some [8, 9]), ([1], None)])"
  using batch_replays_updates [of "[Upd_Put [7] [8, 9], Upd_Delete [1]]" "[]" 5 "\<lambda>k v h. h @ [(k, Some v)]" "\<lambda>k h. h @ [(k, None)]" "[]"]
  by (simp add: Let_def)

text \<open>
  C33: reads see the writes.  After batches have been inserted into a memtable with consecutive sequence numbers, a lookup of a user key
  at a snapshot returns the newest update of that key that is not newer than the snapshot: its value, or that the key is
  deleted, or that the memtable does not know the key.  This holds for every order of user keys.
\<close>

theorem memtable_reads_latest:
  assumes "comparator ucmp" and "mem_holds ucmp mem ops" and "batch_holds rep seq us"
    and "unat seq + length us \<le> 2 ^ 56" and "\<forall>p \<in> set ops. op_seq p < seq"
    and "length u + 8 < 2 ^ 32" and "unat s < 2 ^ 56"
  shows "\<exists>mem'. InsertInto ucmp rep mem = (Status_OK, Some mem') \<and> mem_holds ucmp mem' (ops @ batch_ops seq us) \<and>
    MemTable_Get ucmp mem' (LookupKey u s) = Some (get_spec (latest ucmp (ops @ batch_ops seq us) u s))"
  using InsertInto_exact [OF assms(1-5)] mem_Get [OF assms(1) _ assms(6,7)] by blast

lemma memtable_reads_latest_witness:
  "\<exists>rep mem. batch_holds rep 5 [Upd_Put [7] [1], Upd_Put [7] [2], Upd_Delete [7]] \<and>
     InsertInto Slice_compare rep MemTable = (Status_OK, Some mem) \<and>
     MemTable_Get Slice_compare mem (LookupKey [7] 6) = Some (Get_Found [2])"
proof -
  let ?us = "[Upd_Put [7] [1], Upd_Put [7] [2], Upd_Delete [7]] :: update list"
  have rep: "batch_holds (le_bytes 8 (unat (5 :: u64)) @ le_bytes 4 (length ?us mod 4294967296) @ concat (map upd_bytes ?us)) 5 ?us"
    unfolding batch_holds_def by simp
  have "unat (5 :: u64) + length ?us \<le> 2 ^ 56" "length [7 :: u8] + 8 < 2 ^ 32" "unat (6 :: u64) < 2 ^ 56" by simp_all
  from memtable_reads_latest [OF bytewise.comparator_axioms mem_holds_empty rep this(1) _ this(2,3)] obtain mem
    where "InsertInto Slice_compare (le_bytes 8 (unat (5 :: u64)) @ le_bytes 4 (length ?us mod 4294967296) @ concat (map upd_bytes ?us)) MemTable =
        (Status_OK, Some mem)"
      "MemTable_Get Slice_compare mem (LookupKey [7] 6) = Some (get_spec (latest Slice_compare (batch_ops 5 ?us) [7] 6))"
    by auto
  moreover have "get_spec (latest Slice_compare (batch_ops 5 ?us) [7] 6) = Get_Found [2]"
    by (simp add: latest_def get_spec_def)
  ultimately show ?thesis using rep by metis
qed

text \<open>
  C34: truncated batches.  A batch that has lost bytes at its end is never replayed with status OK, wherever it was cut: in the
  header, inside a record or between two records.
\<close>

theorem batch_truncation_reported:
  assumes "batch_holds rep seq us" and "length us < 2 ^ 32" and "n < length rep"
  shows "fst (Batch_Iterate put del (take n rep) h) \<noteq> Status_OK"
proof (cases "n < 12")
  case True
  then have "length (take n rep) < kHeader" by (simp add: kHeader_def)
  then show ?thesis by (simp add: Batch_Iterate_def)
next
  case False
  let ?recs = "concat (map upd_bytes us)"
  have f: "\<forall>u \<in> set us. upd_fits u" using assms(1) by (simp add: batch_holds_def)
  have rep: "rep = (le_bytes 8 (unat seq) @ le_bytes 4 (length us mod 4294967296)) @ ?recs"
    using assms(1) by (simp add: batch_holds_def)
  have d: "drop kHeader (take n rep) = take (n - 12) ?recs" unfolding rep kHeader_def using False by simp
  have "Batch_Count (take n rep) = Batch_Count (le_bytes 8 (unat seq) @ le_bytes 4 (length us mod 4294967296) @ take (n - 12) ?recs)"
    unfolding rep using False by simp
  also have "\<dots> = of_nat (length us)"
    using decode_fixed32 [of "of_nat (length us)" "take (n - 12) ?recs"] by (simp add: Batch_Count_def unat_count)
  finally have c: "Batch_Count (take n rep) = of_nat (length us)" .
  obtain st found h' where loop: "batch_loop put del 0 h (take (n - 12) ?recs) = (st, found, h')" by (metis prod_cases3)
  show ?thesis
  proof (cases st)
    case Status_OK
    have "n - 12 < length ?recs" using assms(3) False unfolding rep by simp
    then obtain j where "j < length us" "found = of_nat j" using updates_cut [OF f _ loop [unfolded Status_OK]] by auto
    then have "found \<noteq> of_nat (length us)" using assms(2) by (simp add: word_unat_eq_iff unat_of_nat)
    then show ?thesis using loop Status_OK False assms(3) unfolding Batch_Iterate_def d c by (simp add: kHeader_def)
  next
    case (Corruption m)
    then show ?thesis using loop False assms(3) unfolding Batch_Iterate_def d by (simp add: kHeader_def)
  qed
qed

lemma batch_truncation_reported_witness:
  "batch_holds (foldl batch_apply WriteBatch_Clear [Upd_Delete [1], Upd_Delete [2]]) 0 [Upd_Delete [1], Upd_Delete [2]] \<and>
   fst (Batch_Iterate (\<lambda>k v h. h) (\<lambda>k h. k # h) (take 15 (foldl batch_apply WriteBatch_Clear [Upd_Delete [1], Upd_Delete [2]])) [])
     \<noteq> Status_OK"
proof -
  let ?rep = "foldl batch_apply WriteBatch_Clear [Upd_Delete [1], Upd_Delete [2]]"
  have holds: "batch_holds ?rep 0 [Upd_Delete [1], Upd_Delete [2]]"
    using holds_apply [OF holds_apply [OF holds_Clear, of "Upd_Delete [1]"], of "Upd_Delete [2]"] by simp
  have "length ?rep = 18" using holds by (simp add: batch_holds_def prefixed_def varint_small)
  then show ?thesis
    using batch_truncation_reported [OF holds, of 15 "\<lambda>k v h. h" "\<lambda>k h. k # h" "[]"] holds by simp
qed

end
