(* ===== verification/Leveldb_Filter.thy ===== *)
theory Leveldb_Filter
  imports Leveldb_Format
begin

text \<open>
  Filters of LevelDB tables: \<open>util/bloom.cc\<close>, \<open>InternalFilterPolicy\<close> of \<open>db/dbformat.cc\<close> and \<open>table/filter_block.cc\<close>.  A filter
  policy is the pair of its two methods; the locale \<open>filter_policy\<close> is what the header \<open>leveldb/filter_policy.h\<close> asks of it.
\<close>

section \<open>Filter policies\<close>

text \<open>\<open>CreateFilter\<close> appends to the string, and a key that was put into a filter matches it.\<close>

locale filter_policy =
  fixes create :: "bytes list \<Rightarrow> bytes \<Rightarrow> bytes" and may_match :: "bytes \<Rightarrow> bytes \<Rightarrow> bool"
  assumes create_appends: "create ks dst = dst @ create ks []"
    and create_matches: "k \<in> set ks \<Longrightarrow> may_match k (create ks [])"

section \<open>The Bloom filter\<close>

definition BloomHash :: "bytes \<Rightarrow> u32" where
  "BloomHash key = Hash key 0xbc9f1d34"

text \<open>
  The number of probes.  The code multiplies by the double 0.69; below the cut at 30 the product is at least a hundredth away
  from an integer, so that rounding does not matter.
\<close>

definition bloom_probes :: "nat \<Rightarrow> nat" where
  "bloom_probes bits_per_key =
     (let k = bits_per_key * 69 div 100; k = (if k < 1 then 1 else k) in if k > 30 then 30 else k)"

definition bloom_delta :: "u32 \<Rightarrow> u32" where
  "bloom_delta h = drop_bit 17 h OR push_bit 15 h"

primrec bloom_set :: "nat \<Rightarrow> u32 \<Rightarrow> u32 \<Rightarrow> nat \<Rightarrow> bytes \<Rightarrow> bytes" where
  "bloom_set 0 h delta bits array = array"
| "bloom_set (Suc j) h delta bits array =
     (let bitpos = unat h mod bits;
          array = array[bitpos div 8 := array ! (bitpos div 8) OR push_bit (bitpos mod 8) 1]
      in bloom_set j (h + delta) delta bits array)"

primrec bloom_probe :: "nat \<Rightarrow> u32 \<Rightarrow> u32 \<Rightarrow> nat \<Rightarrow> bytes \<Rightarrow> bool" where
  "bloom_probe 0 h delta bits array = True"
| "bloom_probe (Suc j) h delta bits array =
     (let bitpos = unat h mod bits
      in if array ! (bitpos div 8) AND push_bit (bitpos mod 8) 1 = 0 then False
         else bloom_probe j (h + delta) delta bits array)"

text \<open>The number of keys and the bits per key are \<open>int\<close>s, so that their product fits \<open>size_t\<close>.\<close>

definition BloomCreateFilter :: "nat \<Rightarrow> bytes list \<Rightarrow> bytes \<Rightarrow> bytes" where
  "BloomCreateFilter bits_per_key keys dst =
     (let bits = length keys * bits_per_key;
          bits = (if bits < 64 then 64 else bits);
          bytes = (bits + 7) div 8;
          bits = bytes * 8;
          k = bloom_probes bits_per_key;
          array = foldl (\<lambda>array key. let h = BloomHash key in bloom_set k h (bloom_delta h) bits array) (replicate bytes 0) keys
      in dst @ array @ [of_nat k])"

definition BloomKeyMayMatch :: "bytes \<Rightarrow> bytes \<Rightarrow> bool" where
  "BloomKeyMayMatch key bloom_filter =
     (let len = length bloom_filter
      in if len < 2 then False
         else
           let bits = (len - 1) * 8; k = unat (bloom_filter ! (len - 1))
           in if k > 30 then True
              else let h = BloomHash key in bloom_probe k h (bloom_delta h) bits bloom_filter)"

definition bit_on :: "bytes \<Rightarrow> nat \<Rightarrow> bool" where
  "bit_on array p \<longleftrightarrow> bit (array ! (p div 8)) (p mod 8)"

lemma bit_test: "(b AND 2 ^ i = 0) = (\<not> bit b i)" for b :: u8
  using bit_iff_and_push_bit_not_eq_0 [of b i] by simp

lemma bloom_probe_iff:
  "bloom_probe k h d bits array \<longleftrightarrow> (\<forall>i < k. bit_on array (unat (h + of_nat i * d) mod bits))"
proof (induction k arbitrary: h)
  case 0
  then show ?case by simp
next
  case (Suc k)
  have "bloom_probe (Suc k) h d bits array \<longleftrightarrow> bit_on array (unat h mod bits) \<and> bloom_probe k (h + d) d bits array"
    by (simp add: Let_def bit_test bit_on_def del: push_bit_Suc)
  also have "\<dots> \<longleftrightarrow> (\<forall>i < Suc k. bit_on array (unat (h + of_nat i * d) mod bits))"
    unfolding Suc.IH by (auto simp: less_Suc_eq_0_disj algebra_simps)
  finally show ?case .
qed

lemma length_bloom_set [simp]: "length (bloom_set k h d bits array) = length array"
  by (induction k arbitrary: h array) (simp_all add: Let_def)

lemma bit_on_set:
  assumes "p div 8 < length array"
  shows "bit_on (array[p div 8 := array ! (p div 8) OR push_bit (p mod 8) 1]) q \<longleftrightarrow> q = p \<or> bit_on array q"
proof (cases "q div 8 = p div 8")
  case True
  have "bit (push_bit (p mod 8) (1 :: u8)) (q mod 8) \<longleftrightarrow> q mod 8 = p mod 8"
    by (auto simp: bit_exp_iff)
  moreover have "q mod 8 = p mod 8 \<longleftrightarrow> q = p" using True by (metis div_mult_mod_eq)
  ultimately show ?thesis using True assms by (auto simp: bit_on_def bit_or_iff)
next
  case False
  then show ?thesis by (auto simp: bit_on_def)
qed

lemma bloom_set_on:
  assumes "0 < bits" and "bits \<le> 8 * length array"
  shows "bit_on (bloom_set k h d bits array) q \<longleftrightarrow> bit_on array q \<or> (\<exists>i < k. q = unat (h + of_nat i * d) mod bits)"
  using assms(2)
proof (induction k arbitrary: h array)
  case 0
  then show ?case by simp
next
  case (Suc k)
  let ?p = "unat h mod bits"
  have "?p < 8 * length array" using assms(1) Suc.prems by (meson mod_less_divisor order_less_le_trans)
  then have "?p div 8 < length array" by (simp add: div_less_iff_less_mult mult.commute)
  note on = bit_on_set [OF this, of q]
  have "bit_on (bloom_set (Suc k) h d bits array) q \<longleftrightarrow>
      (q = ?p \<or> bit_on array q) \<or> (\<exists>i < k. q = unat (h + d + of_nat i * d) mod bits)"
    using Suc.IH [of "array[?p div 8 := array ! (?p div 8) OR push_bit (?p mod 8) 1]" "h + d"] Suc.prems on
    by (simp add: Let_def del: push_bit_Suc)
  also have "\<dots> \<longleftrightarrow> bit_on array q \<or> (\<exists>i < Suc k. q = unat (h + of_nat i * d) mod bits)"
    by (auto simp: less_Suc_eq_0_disj algebra_simps)
  finally show ?case .
qed

definition bloom_add :: "nat \<Rightarrow> nat \<Rightarrow> bytes \<Rightarrow> bytes \<Rightarrow> bytes" where
  "bloom_add k bits array key = (let h = BloomHash key in bloom_set k h (bloom_delta h) bits array)"

lemma bloom_fold:
  assumes "0 < bits" and "bits \<le> 8 * length array"
  shows "length (foldl (bloom_add k bits) array keys) = length array \<and>
    (\<forall>q. bit_on array q \<longrightarrow> bit_on (foldl (bloom_add k bits) array keys) q) \<and>
    (\<forall>key \<in> set keys. bloom_probe k (BloomHash key) (bloom_delta (BloomHash key)) bits (foldl (bloom_add k bits) array keys))"
  using assms(2)
proof (induction keys arbitrary: array)
  case Nil
  then show ?case by simp
next
  case (Cons key keys)
  let ?a = "bloom_add k bits array key"
  have l: "length ?a = length array" by (simp add: bloom_add_def Let_def)
  have on: "bit_on ?a q \<longleftrightarrow> bit_on array q \<or> (\<exists>i < k. q = unat (BloomHash key + of_nat i * bloom_delta (BloomHash key)) mod bits)" for q
    using bloom_set_on [OF assms(1) Cons.prems] by (simp add: bloom_add_def Let_def)
  note IH = Cons.IH [of ?a] Cons.prems
  have "bloom_probe k (BloomHash key) (bloom_delta (BloomHash key)) bits (foldl (bloom_add k bits) ?a keys)"
    unfolding bloom_probe_iff using IH l on by auto
  then show ?case using IH l on by auto
qed

lemma bloom_probes_bounds: "1 \<le> bloom_probes b \<and> bloom_probes b \<le> 30"
  by (simp add: bloom_probes_def Let_def)

lemma bloom_probe_prefix:
  assumes "0 < bits" and "bits = 8 * length array"
  shows "bloom_probe k h d bits (array @ r) = bloom_probe k h d bits array"
proof -
  have "bit_on (array @ r) (q mod bits) = bit_on array (q mod bits)" for q
  proof -
    have "q mod bits < 8 * length array" using assms by (metis mod_less_divisor)
    then have "q mod bits div 8 < length array" by (simp add: div_less_iff_less_mult mult.commute)
    then show ?thesis by (simp add: bit_on_def nth_append)
  qed
  then show ?thesis by (simp add: bloom_probe_iff)
qed

lemma bloom_matches:
  assumes "key \<in> set keys"
  shows "BloomKeyMayMatch key (BloomCreateFilter b keys [])"
proof -
  let ?n = "length keys * b"
  let ?bytes = "((if ?n < 64 then 64 else ?n) + 7) div 8"
  let ?k = "bloom_probes b"
  let ?a = "foldl (bloom_add ?k (?bytes * 8)) (replicate ?bytes 0) keys"
  have pos: "0 < ?bytes" by auto
  have fold: "length ?a = ?bytes" "bloom_probe ?k (BloomHash key) (bloom_delta (BloomHash key)) (?bytes * 8) ?a"
    using bloom_fold [of "?bytes * 8" "replicate ?bytes 0" ?k keys] pos assms by simp_all
  have f: "BloomCreateFilter b keys [] = ?a @ [of_nat ?k]"
    by (simp only: BloomCreateFilter_def Let_def bloom_add_def [abs_def] append_Nil)
  have k: "unat (of_nat ?k :: u8) = ?k" using bloom_probes_bounds [of b] by (simp add: unat_of_nat)
  have "bloom_probe ?k (BloomHash key) (bloom_delta (BloomHash key)) (?bytes * 8) (?a @ [of_nat ?k])"
    using bloom_probe_prefix [of "?bytes * 8" ?a] fold pos by simp
  then show ?thesis
    unfolding f BloomKeyMayMatch_def Let_def using fold(1) pos k bloom_probes_bounds [of b] by (simp add: nth_append)
qed

interpretation bloom: filter_policy "BloomCreateFilter b" BloomKeyMayMatch for b
  by unfold_locales (simp_all only: bloom_matches, simp only: BloomCreateFilter_def Let_def append_assoc append_Nil)

text \<open>The policy of a database works on user keys.\<close>

definition InternalCreateFilter :: "(bytes list \<Rightarrow> bytes \<Rightarrow> bytes) \<Rightarrow> bytes list \<Rightarrow> bytes \<Rightarrow> bytes" where
  "InternalCreateFilter user_create keys dst = user_create (map ExtractUserKey keys) dst"

definition InternalKeyMayMatch :: "(bytes \<Rightarrow> bytes \<Rightarrow> bool) \<Rightarrow> bytes \<Rightarrow> bytes \<Rightarrow> bool" where
  "InternalKeyMayMatch user_may_match key f = user_may_match (ExtractUserKey key) f"

lemma internal_filter_policy:
  assumes "filter_policy create may_match"
  shows "filter_policy (InternalCreateFilter create) (InternalKeyMayMatch may_match)"
proof
  show "InternalCreateFilter create ks dst = dst @ InternalCreateFilter create ks []" for ks dst
    unfolding InternalCreateFilter_def by (rule filter_policy.create_appends [OF assms])
  show "InternalKeyMayMatch may_match k (InternalCreateFilter create ks [])"
    if "k \<in> set ks" for ks k
    unfolding InternalCreateFilter_def InternalKeyMayMatch_def using that by (intro filter_policy.create_matches [OF assms]) auto
qed

interpretation internal_bloom: filter_policy "InternalCreateFilter (BloomCreateFilter b)" "InternalKeyMayMatch BloomKeyMayMatch" for b
  by (rule internal_filter_policy [OF bloom.filter_policy_axioms])

section \<open>Filter blocks\<close>

definition kFilterBaseLg :: nat where
  "kFilterBaseLg = 11"

definition kFilterBase :: nat where
  "kFilterBase = 2 ^ kFilterBaseLg"

text \<open>The keys of the current filter, flattened, with the index of each, and the filters so far with their offsets.\<close>

record filter_builder =
  fb_keys :: bytes
  fb_start :: "nat list"
  fb_result :: bytes
  fb_offsets :: "u32 list"

definition FilterBlockBuilder :: filter_builder where
  "FilterBlockBuilder = \<lparr>fb_keys = [], fb_start = [], fb_result = [], fb_offsets = []\<rparr>"

definition GenerateFilter :: "(bytes list \<Rightarrow> bytes \<Rightarrow> bytes) \<Rightarrow> filter_builder \<Rightarrow> filter_builder" where
  "GenerateFilter create fb =
     (let num_keys = length (fb_start fb)
      in if num_keys = 0 then fb\<lparr>fb_offsets := fb_offsets fb @ [of_nat (length (fb_result fb))]\<rparr>
         else
           let start = fb_start fb @ [length (fb_keys fb)];
               tmp_keys = map (\<lambda>i. take (start ! (i + 1) - start ! i) (drop (start ! i) (fb_keys fb))) [0..<num_keys]
           in \<lparr>fb_keys = [], fb_start = [], fb_result = create tmp_keys (fb_result fb),
               fb_offsets = fb_offsets fb @ [of_nat (length (fb_result fb))]\<rparr>)"

lemma length_GenerateFilter [simp]: "length (fb_offsets (GenerateFilter create fb)) = Suc (length (fb_offsets fb))"
  by (simp add: GenerateFilter_def Let_def)

function start_block_loop :: "(bytes list \<Rightarrow> bytes \<Rightarrow> bytes) \<Rightarrow> nat \<Rightarrow> filter_builder \<Rightarrow> filter_builder" where
  "start_block_loop create filter_index fb =
     (if filter_index > length (fb_offsets fb) then start_block_loop create filter_index (GenerateFilter create fb) else fb)"
  by pat_completeness auto
termination
  by (relation "measure (\<lambda>(_, i, fb). i - length (fb_offsets fb))") auto

declare start_block_loop.simps [simp del]

definition StartBlock :: "(bytes list \<Rightarrow> bytes \<Rightarrow> bytes) \<Rightarrow> u64 \<Rightarrow> filter_builder \<Rightarrow> filter_builder" where
  "StartBlock create block_offset fb = start_block_loop create (unat block_offset div kFilterBase) fb"

definition AddKey :: "bytes \<Rightarrow> filter_builder \<Rightarrow> filter_builder" where
  "AddKey key fb = fb\<lparr>fb_start := fb_start fb @ [length (fb_keys fb)], fb_keys := fb_keys fb @ key\<rparr>"

definition FilterBlock_Finish :: "(bytes list \<Rightarrow> bytes \<Rightarrow> bytes) \<Rightarrow> filter_builder \<Rightarrow> bytes" where
  "FilterBlock_Finish create fb =
     (let fb = (if fb_start fb \<noteq> [] then GenerateFilter create fb else fb);
          array_offset = of_nat (length (fb_result fb));
          result = foldl PutFixed32 (fb_result fb) (fb_offsets fb);
          result = PutFixed32 result array_offset
      in result @ [of_nat kFilterBaseLg])"

text \<open>\<open>offset_\<close> is kept as its distance from \<open>data_\<close>.\<close>

record filter_reader =
  fr_data :: bytes
  fr_offset :: nat
  fr_num :: nat
  fr_base_lg :: nat

definition FilterBlockReader :: "bytes \<Rightarrow> filter_reader" where
  "FilterBlockReader contents =
     (let n = length contents
      in if n < 5 then \<lparr>fr_data = [], fr_offset = 0, fr_num = 0, fr_base_lg = 0\<rparr>
         else
           let base_lg = unat (contents ! (n - 1)); last_word = unat (DecodeFixed32 (drop (n - 5) contents))
           in if last_word > n - 5 then \<lparr>fr_data = [], fr_offset = 0, fr_num = 0, fr_base_lg = base_lg\<rparr>
              else \<lparr>fr_data = contents, fr_offset = last_word, fr_num = (n - 5 - last_word) div 4, fr_base_lg = base_lg\<rparr>)"

definition FilterBlock_KeyMayMatch :: "(bytes \<Rightarrow> bytes \<Rightarrow> bool) \<Rightarrow> filter_reader \<Rightarrow> u64 \<Rightarrow> bytes \<Rightarrow> bool" where
  "FilterBlock_KeyMayMatch may_match fr block_offset key =
     (let index = unat (drop_bit (fr_base_lg fr) block_offset)
      in if index < fr_num fr then
           let start = unat (DecodeFixed32 (drop (fr_offset fr + index * 4) (fr_data fr)));
               limit = unat (DecodeFixed32 (drop (fr_offset fr + index * 4 + 4) (fr_data fr)))
           in if start \<le> limit \<and> limit \<le> fr_offset fr then may_match key (take (limit - start) (drop start (fr_data fr)))
              else if start = limit then False else True
         else True)"

subsection \<open>What a builder holds\<close>

text \<open>The keys of the finished filters and of the current one.\<close>

definition group_filter :: "(bytes list \<Rightarrow> bytes \<Rightarrow> bytes) \<Rightarrow> bytes list \<Rightarrow> bytes" where
  "group_filter create ks = (if ks = [] then [] else create ks [])"

definition fb_holds :: "(bytes list \<Rightarrow> bytes \<Rightarrow> bytes) \<Rightarrow> filter_builder \<Rightarrow> bytes list list \<Rightarrow> bytes list \<Rightarrow> bool" where
  "fb_holds create fb groups pending \<longleftrightarrow>
     fb_keys fb = concat pending \<and> fb_start fb = map (flat_offset pending) [0..<length pending] \<and>
     fb_result fb = concat (map (group_filter create) groups) \<and>
     fb_offsets fb = map (\<lambda>i. of_nat (flat_offset (map (group_filter create) groups) i)) [0..<length groups]"

lemma holds_new: "fb_holds create FilterBlockBuilder [] []"
  by (simp add: fb_holds_def FilterBlockBuilder_def)

lemma holds_AddKey: "fb_holds create fb groups pending \<Longrightarrow> fb_holds create (AddKey k fb) groups (pending @ [k])"
  by (auto simp: fb_holds_def AddKey_def flat_offset_snoc)

lemma holds_AddKeys: "fb_holds create fb groups pending \<Longrightarrow> fb_holds create (foldl (\<lambda>fb k. AddKey k fb) fb ks) groups (pending @ ks)"
proof (induction ks arbitrary: fb pending)
  case (Cons k ks)
  then show ?case using Cons.IH [OF holds_AddKey [OF Cons.prems, of k]] by simp
qed simp

lemma holds_Generate:
  assumes "filter_policy create may_match" and h: "fb_holds create fb groups pending"
  shows "fb_holds create (GenerateFilter create fb) (groups @ [pending]) []"
proof -
  let ?F = "map (group_filter create) groups"
  have offsets: "fb_offsets fb @ [of_nat (length (fb_result fb))] =
      map (\<lambda>i. of_nat (flat_offset (?F @ [group_filter create pending]) i)) [0..<Suc (length groups)]"
    using h flat_offset_all [of ?F] by (simp add: fb_holds_def flat_offset_snoc [of _ ?F])
  show ?thesis
  proof (cases "pending = []")
    case True
    then show ?thesis using h offsets by (simp add: fb_holds_def GenerateFilter_def group_filter_def)
  next
    case False
    have n: "length (fb_start fb) = length pending" using h by (simp add: fb_holds_def)
    have start: "fb_start fb @ [length (fb_keys fb)] = map (flat_offset pending) [0..<Suc (length pending)]"
      using h by (simp add: fb_holds_def)
    have "map (\<lambda>i. take (map (flat_offset pending) [0..<Suc (length pending)] ! (i + 1) - map (flat_offset pending) [0..<Suc (length pending)] ! i)
        (drop (map (flat_offset pending) [0..<Suc (length pending)] ! i) (fb_keys fb))) [0..<length pending] = map ((!) pending) [0..<length pending]"
    proof (rule map_cong [OF refl])
      fix i assume "i \<in> set [0..<length pending]"
      then have i: "i < length pending" by simp
      then have "map (flat_offset pending) [0..<Suc (length pending)] ! (i + 1) = flat_offset pending (Suc i)"
        "map (flat_offset pending) [0..<Suc (length pending)] ! i = flat_offset pending i"
        by (simp_all del: upt_Suc)
      then show "take (map (flat_offset pending) [0..<Suc (length pending)] ! (i + 1) - map (flat_offset pending) [0..<Suc (length pending)] ! i)
        (drop (map (flat_offset pending) [0..<Suc (length pending)] ! i) (fb_keys fb)) = pending ! i"
        using flat_piece [OF i, of "[]"] h by (simp add: fb_holds_def del: upt_Suc)
    qed
    then have "GenerateFilter create fb = \<lparr>fb_keys = [], fb_start = [], fb_result = create pending (fb_result fb),
        fb_offsets = fb_offsets fb @ [of_nat (length (fb_result fb))]\<rparr>"
      using False by (simp only: GenerateFilter_def n start Let_def map_nth) simp
    moreover have "create pending (fb_result fb) = concat ?F @ group_filter create pending"
      using filter_policy.create_appends [OF assms(1), of pending "fb_result fb"] False h by (simp add: fb_holds_def group_filter_def)
    ultimately show ?thesis unfolding fb_holds_def offsets by simp
  qed
qed

lemma holds_start_loop:
  assumes "filter_policy create may_match" and "fb_holds create fb groups pending"
  shows "\<exists>groups' pending'. fb_holds create (start_block_loop create idx fb) groups' pending' \<and>
    length groups' = max (length groups) idx \<and>
    (if idx \<le> length groups then groups' = groups \<and> pending' = pending
     else take (Suc (length groups)) groups' = groups @ [pending] \<and> pending' = [])"
  using assms(2)
proof (induction "idx - length groups" arbitrary: fb groups pending)
  case 0
  then have "length (fb_offsets fb) = length groups" by (simp add: fb_holds_def)
  then have "start_block_loop create idx fb = fb" using 0 by (subst start_block_loop.simps) simp
  then show ?case using 0 by auto
next
  case (Suc n)
  then have l: "length (fb_offsets fb) = length groups" "length groups < idx" by (auto simp: fb_holds_def)
  then have step: "start_block_loop create idx fb = start_block_loop create idx (GenerateFilter create fb)"
    by (subst start_block_loop.simps) simp
  have "n = idx - length (groups @ [pending])" using Suc.hyps(2) by simp
  from Suc.hyps(1) [OF this holds_Generate [OF assms(1) Suc.prems]] obtain groups' pending'
    where g: "fb_holds create (start_block_loop create idx fb) groups' pending'" "length groups' = max (length (groups @ [pending])) idx"
      and c: "if idx \<le> length (groups @ [pending]) then groups' = groups @ [pending] \<and> pending' = []
        else take (Suc (length (groups @ [pending]))) groups' = (groups @ [pending]) @ [[]] \<and> pending' = []"
    unfolding step by blast
  have "take (Suc (length groups)) groups' = groups @ [pending] \<and> pending' = []"
  proof (cases "idx \<le> Suc (length groups)")
    case True
    then show ?thesis using c by simp
  next
    case False
    then have "take (Suc (length groups)) (take (Suc (Suc (length groups))) groups') = groups @ [pending]" using c by simp
    then show ?thesis using c False by (simp add: min_def del: take_Suc)
  qed
  then show ?case using g l by auto
qed

definition filter_offsets :: "bytes list \<Rightarrow> u32 list" where
  "filter_offsets F = map (\<lambda>i. of_nat (flat_offset F i)) [0..<Suc (length F)]"

lemma Finish_layout:
  assumes "filter_policy create may_match" and h: "fb_holds create fb groups pending"
  shows "FilterBlock_Finish create fb = (let F = map (group_filter create) (if pending = [] then groups else groups @ [pending])
    in concat F @ concat (map EncodeFixed32 (filter_offsets F)) @ [11])"
proof -
  define groups' where "groups' = (if pending = [] then groups else groups @ [pending])"
  define fb' where "fb' = (if fb_start fb \<noteq> [] then GenerateFilter create fb else fb)"
  have "fb_holds create fb' groups' []"
    using h holds_Generate [OF assms(1) h] by (auto simp: fb'_def groups'_def fb_holds_def)
  then have "fb_result fb' = concat (map (group_filter create) groups')"
    "fb_offsets fb' = map (\<lambda>i. of_nat (flat_offset (map (group_filter create) groups') i)) [0..<length groups']"
    by (simp_all add: fb_holds_def)
  then show ?thesis
    using flat_offset_all [of "map (group_filter create) groups'"]
    by (simp add: FilterBlock_Finish_def fb'_def [symmetric] groups'_def [symmetric] Let_def foldl_PutFixed32 PutFixed32_def kFilterBaseLg_def
        filter_offsets_def)
qed

lemma reader_exact:
  fixes F :: "bytes list"
  defines "c \<equiv> concat F @ concat (map EncodeFixed32 (filter_offsets F)) @ [11]"
  assumes small: "length (concat F) < 2 ^ 32"
  shows "FilterBlock_KeyMayMatch may_match (FilterBlockReader c) off key \<longleftrightarrow>
    (unat off div 2048 < length F \<longrightarrow> may_match key (F ! (unat off div 2048)))"
proof -
  let ?m = "length (concat F)" and ?i = "unat off div 2048"
  have u: "unat (of_nat (flat_offset F i) :: u32) = flat_offset F i" if "i \<le> length F" for i
    using flat_offset_le [of F i] small by (simp add: unat_of_nat)
  have lo: "length (filter_offsets F) = Suc (length F)" by (simp add: filter_offsets_def)
  have n: "length c = ?m + 4 * Suc (length F) + 1" by (simp add: c_def lo)
  have at: "DecodeFixed32 (drop (?m + 4 * i) c) = of_nat (flat_offset F i)" if "i \<le> length F" for i
  proof -
    have "drop (?m + 4 * i) c = drop (4 * i) (concat (map EncodeFixed32 (filter_offsets F)) @ [11])" by (simp add: c_def)
    moreover have "i < length (filter_offsets F)" "filter_offsets F ! i = of_nat (flat_offset F i)"
      using that by (simp_all add: filter_offsets_def del: upt_Suc)
    ultimately show ?thesis using decode_fixed32s [of i "filter_offsets F" "[11]"] by simp
  qed
  have last: "unat (DecodeFixed32 (drop (length c - 5) c)) = ?m"
    using at [of "length F"] u [of "length F"] n by (simp add: add.commute)
  have "c ! (length c - 1) = 11" unfolding n by (simp add: c_def nth_append lo)
  then have r: "FilterBlockReader c = \<lparr>fr_data = c, fr_offset = ?m, fr_num = length F, fr_base_lg = 11\<rparr>"
    using last n by (simp add: FilterBlockReader_def Let_def)
  have idx: "unat (drop_bit 11 off) = ?i" by (simp only: unat_drop_bit_div) simp
  show ?thesis
  proof (cases "?i < length F")
    case False
    then show ?thesis unfolding FilterBlock_KeyMayMatch_def r by (simp add: idx)
  next
    case True
    have s: "unat (DecodeFixed32 (drop (?m + ?i * 4) c)) = flat_offset F ?i"
      "unat (DecodeFixed32 (drop (?m + ?i * 4 + 4) c)) = flat_offset F (Suc ?i)"
      using at [of ?i] at [of "Suc ?i"] u [of ?i] u [of "Suc ?i"] True by (simp_all add: algebra_simps)
    have le: "flat_offset F ?i \<le> flat_offset F (Suc ?i)" "flat_offset F (Suc ?i) \<le> ?m"
      using flat_offset_Suc [OF True] flat_offset_le [of F "Suc ?i"] by simp_all
    have "take (flat_offset F (Suc ?i) - flat_offset F ?i) (drop (flat_offset F ?i) c) = F ! ?i"
      unfolding c_def by (rule flat_piece [OF True])
    then show ?thesis unfolding FilterBlock_KeyMayMatch_def r using True le by (simp add: idx s Let_def)
  qed
qed

section \<open>Building a filter block\<close>

text \<open>The calls for one data block: its offset and its keys.\<close>

definition fb_block :: "(bytes list \<Rightarrow> bytes \<Rightarrow> bytes) \<Rightarrow> filter_builder \<Rightarrow> u64 \<times> bytes list \<Rightarrow> filter_builder" where
  "fb_block create fb b = foldl (\<lambda>fb k. AddKey k fb) (StartBlock create (fst b) fb) (snd b)"

definition key_placed :: "bytes list list \<Rightarrow> bytes list \<Rightarrow> nat \<Rightarrow> bytes \<Rightarrow> bool" where
  "key_placed groups pending i k \<longleftrightarrow>
     i < length groups \<and> k \<in> set (groups ! i) \<or> i = length groups \<and> k \<in> set pending"

lemma blocks_placed:
  assumes "filter_policy create may_match" and "sorted (map (unat \<circ> fst) blocks)"
  shows "\<exists>groups pending. fb_holds create (foldl (fb_block create) FilterBlockBuilder blocks) groups pending \<and>
    (\<forall>b \<in> set blocks. \<forall>k \<in> set (snd b). key_placed groups pending (unat (fst b) div 2048) k) \<and>
    length groups = (if blocks = [] then 0 else unat (fst (last blocks)) div 2048)"
  using assms(2)
proof (induction blocks rule: rev_induct)
  case Nil
  have "fb_holds create FilterBlockBuilder [] []" by (rule holds_new)
  then show ?case by auto
next
  case (snoc b blocks)
  then obtain groups pending where h: "fb_holds create (foldl (fb_block create) FilterBlockBuilder blocks) groups pending"
    and placed: "\<forall>b \<in> set blocks. \<forall>k \<in> set (snd b). key_placed groups pending (unat (fst b) div 2048) k"
    and l: "length groups = (if blocks = [] then 0 else unat (fst (last blocks)) div 2048)"
    by (auto simp: sorted_append)
  let ?idx = "unat (fst b) div 2048"
  have le: "length groups \<le> ?idx"
    using l snoc.prems by (cases blocks rule: rev_cases) (auto simp: sorted_append div_le_mono)
  obtain groups' pending' where h': "fb_holds create (start_block_loop create ?idx (foldl (fb_block create) FilterBlockBuilder blocks)) groups' pending'"
    and l': "length groups' = max (length groups) ?idx"
    and c: "if ?idx \<le> length groups then groups' = groups \<and> pending' = pending
     else take (Suc (length groups)) groups' = groups @ [pending] \<and> pending' = []"
    using holds_start_loop [OF assms(1) h] by blast
  have keep: "key_placed groups' (pending' @ ks) i k" if "key_placed groups pending i k" for i k ks
  proof (cases "?idx \<le> length groups")
    case True
    then show ?thesis using c that by (auto simp: key_placed_def)
  next
    case False
    have "groups' ! j = (groups @ [pending]) ! j" if "j \<le> length groups" for j
      using nth_take [of j "Suc (length groups)" groups'] that c False by simp
    then show ?thesis using that l' False by (auto simp: key_placed_def nth_append)
  qed
  have "fb_holds create (foldl (fb_block create) FilterBlockBuilder (blocks @ [b])) groups' (pending' @ snd b)"
    using holds_AddKeys [OF h', of "snd b"] by (simp add: fb_block_def StartBlock_def kFilterBase_def kFilterBaseLg_def)
  moreover have "\<forall>b' \<in> set (blocks @ [b]). \<forall>k \<in> set (snd b'). key_placed groups' (pending' @ snd b) (unat (fst b') div 2048) k"
  proof (intro ballI)
    fix b' k assume b': "b' \<in> set (blocks @ [b])" and k: "k \<in> set (snd b')"
    show "key_placed groups' (pending' @ snd b) (unat (fst b') div 2048) k"
    proof (cases "b' \<in> set blocks")
      case True
      then show ?thesis using keep placed k by blast
    next
      case False
      then show ?thesis using b' k l' le by (simp add: key_placed_def)
    qed
  qed
  moreover have "length groups' = (if blocks @ [b] = [] then 0 else unat (fst (last (blocks @ [b]))) div 2048)" using l' le by simp
  ultimately show ?case by blast
qed

lemma placed_filter:
  assumes "filter_policy create may_match" and "key_placed groups pending i k"
  defines "F \<equiv> map (group_filter create) (if pending = [] then groups else groups @ [pending])"
  shows "i < length F \<longrightarrow> may_match k (F ! i)"
proof
  assume i: "i < length F"
  let ?G = "if pending = [] then groups else groups @ [pending]"
  have "k \<in> set (?G ! i)" using assms(2) i by (auto simp: key_placed_def F_def nth_append split: if_splits)
  moreover from this have "?G ! i \<noteq> []" by auto
  ultimately show "may_match k (F ! i)"
    using i filter_policy.create_matches [OF assms(1)] unfolding F_def by (simp only: length_map nth_map group_filter_def if_False)
qed

section \<open>Properties\<close>

text \<open>
  C35: the Bloom filter.  Every key that was put into a filter matches it, for every number of bits per key, whatever string the
  filter is appended to; the same holds for the policy on internal keys, which looks at the user keys only.
\<close>

theorem bloom_no_false_negatives:
  assumes "key \<in> set keys"
  shows "(\<exists>f. BloomCreateFilter b keys dst = dst @ f \<and> BloomKeyMayMatch key f) \<and>
    (\<exists>f. InternalCreateFilter (BloomCreateFilter b) keys dst = dst @ f \<and> InternalKeyMayMatch BloomKeyMayMatch key f)"
  using bloom.create_appends [of b keys dst] bloom.create_matches [OF assms, of b]
    internal_bloom.create_appends [of b keys dst] internal_bloom.create_matches [OF assms, of b] by blast

lemma bloom_no_false_negatives_witness:
  "(\<exists>f. BloomCreateFilter 10 [[1, 2], [3]] [9] = [9] @ f \<and> BloomKeyMayMatch [3] f) \<and> \<not> BloomKeyMayMatch [3] []"
  using bloom_no_false_negatives [of "[3]" "[[1, 2], [3]]" 10 "[9]"] by (simp add: BloomKeyMayMatch_def)

text \<open>
  C36: filter blocks.  A filter block that is built for data blocks at increasing offsets answers true for every key of a data
  block and that block's offset, with any filter policy: no key of the table is lost.
\<close>

theorem filter_block_no_false_negatives:
  assumes "filter_policy create may_match" and "sorted (map (unat \<circ> fst) blocks)"
    and "length (FilterBlock_Finish create (foldl (fb_block create) FilterBlockBuilder blocks)) < 2 ^ 32"
    and "b \<in> set blocks" and "k \<in> set (snd b)"
  shows "FilterBlock_KeyMayMatch may_match
    (FilterBlockReader (FilterBlock_Finish create (foldl (fb_block create) FilterBlockBuilder blocks))) (fst b) k"
proof -
  obtain groups pending where h: "fb_holds create (foldl (fb_block create) FilterBlockBuilder blocks) groups pending"
    and "key_placed groups pending (unat (fst b) div 2048) k"
    using blocks_placed [OF assms(1,2)] assms(4,5) by blast
  note placed = placed_filter [OF assms(1) this(2)]
  define F where "F = map (group_filter create) (if pending = [] then groups else groups @ [pending])"
  have f: "FilterBlock_Finish create (foldl (fb_block create) FilterBlockBuilder blocks) =
      concat F @ concat (map EncodeFixed32 (filter_offsets F)) @ [11]"
    unfolding Finish_layout [OF assms(1) h] F_def Let_def ..
  have "length (concat F) < 2 ^ 32" using assms(3) unfolding f by simp
  from reader_exact [OF this] show ?thesis unfolding f using placed unfolding F_def by blast
qed

lemma length_BloomCreateFilter:
  "length (BloomCreateFilter b keys dst) = length dst + ((if length keys * b < 64 then 64 else length keys * b) + 7) div 8 + 1"
proof -
  let ?bytes = "((if length keys * b < 64 then 64 else length keys * b) + 7) div 8"
  have "0 < ?bytes" by auto
  then show ?thesis
    using bloom_fold [of "?bytes * 8" "replicate ?bytes 0" "bloom_probes b" keys]
    by (simp only: BloomCreateFilter_def Let_def bloom_add_def [abs_def]) simp
qed

lemma filter_block_no_false_negatives_witness:
  "FilterBlock_KeyMayMatch BloomKeyMayMatch (FilterBlockReader (FilterBlock_Finish (BloomCreateFilter 10)
     (foldl (fb_block (BloomCreateFilter 10)) FilterBlockBuilder [(0, [[1], [2]]), (5000, [[3]])]))) 5000 [3]"
proof -
  let ?blocks = "[(0, [[1], [2]]), (5000, [[3]])] :: (u64 \<times> bytes list) list"
  let ?c = "FilterBlock_Finish (BloomCreateFilter 10) (foldl (fb_block (BloomCreateFilter 10)) FilterBlockBuilder ?blocks)"
  have "length ?c < 2 ^ 32"
    by (simp add: FilterBlock_Finish_def fb_block_def StartBlock_def start_block_loop.simps FilterBlockBuilder_def GenerateFilter_def AddKey_def
        kFilterBase_def kFilterBaseLg_def Let_def PutFixed32_def EncodeFixed32_def length_BloomCreateFilter)
  from filter_block_no_false_negatives [OF bloom.filter_policy_axioms _ this, of "(5000, [[3]])" "[3]"] show ?thesis by simp
qed

end
