(* ===== verification/Leveldb_Block.thy ===== *)
theory Leveldb_Block
  imports Leveldb_Format
begin

text \<open>
  The blocks of a table: \<open>table/block_builder.cc\<close> writes entries with prefix-compressed keys and restart points,
  \<open>table/block.cc\<close> iterates over them.  Positions in a block are numbers; the 32-bit values of an entry are words.
\<close>

section \<open>Building\<close>

record block_builder =
  bb_buffer :: bytes
  bb_restarts :: "u32 list"
  bb_counter :: nat
  bb_finished :: bool
  bb_last_key :: bytes

definition BlockBuilder :: block_builder where
  "BlockBuilder = \<lparr>bb_buffer = [], bb_restarts = [0], bb_counter = 0, bb_finished = False, bb_last_key = []\<rparr>"

definition BlockBuilder_Reset :: "block_builder \<Rightarrow> block_builder" where
  "BlockBuilder_Reset bb = \<lparr>bb_buffer = [], bb_restarts = [0], bb_counter = 0, bb_finished = False, bb_last_key = []\<rparr>"

definition CurrentSizeEstimate :: "block_builder \<Rightarrow> nat" where
  "CurrentSizeEstimate bb = length (bb_buffer bb) + length (bb_restarts bb) * 4 + 4"

definition BlockBuilder_Finish :: "block_builder \<Rightarrow> block_builder" where
  "BlockBuilder_Finish bb =
     (let buffer = foldl PutFixed32 (bb_buffer bb) (bb_restarts bb);
          buffer = PutFixed32 buffer (of_nat (length (bb_restarts bb)))
      in bb\<lparr>bb_buffer := buffer, bb_finished := True\<rparr>)"

text \<open>\<open>interval\<close> is \<open>block_restart_interval\<close>.  The scan for the shared prefix is that of \<open>FindShortestSeparator\<close>.\<close>

definition BlockBuilder_Add :: "nat \<Rightarrow> bytes \<Rightarrow> bytes \<Rightarrow> block_builder \<Rightarrow> block_builder" where
  "BlockBuilder_Add interval key value bb =
     (let last_key_piece = bb_last_key bb;
          (shared, restarts, counter) =
            (if bb_counter bb < interval then (diff_scan last_key_piece key, bb_restarts bb, bb_counter bb)
             else (0, bb_restarts bb @ [of_nat (length (bb_buffer bb))], 0));
          non_shared = length key - shared;
          buffer = PutVarint32 (bb_buffer bb) (of_nat shared);
          buffer = PutVarint32 buffer (of_nat non_shared);
          buffer = PutVarint32 buffer (of_nat (length value));
          buffer = buffer @ drop shared key @ value
      in bb\<lparr>bb_buffer := buffer, bb_restarts := restarts, bb_counter := counter + 1,
           bb_last_key := take shared (bb_last_key bb) @ drop shared key\<rparr>)"

section \<open>Reading\<close>

text \<open>A block whose size is 0 is marked as bad.\<close>

record block =
  bl_data :: bytes
  bl_size :: nat
  bl_restart_offset :: nat

definition NumRestarts :: "bytes \<Rightarrow> u32" where
  "NumRestarts data = DecodeFixed32 (drop (length data - 4) data)"

definition Block :: "bytes \<Rightarrow> block" where
  "Block contents =
     (let size = length contents
      in if size < 4 then \<lparr>bl_data = contents, bl_size = 0, bl_restart_offset = 0\<rparr>
         else
           let max_restarts_allowed = (size - 4) div 4
           in if unat (NumRestarts contents) > max_restarts_allowed then \<lparr>bl_data = contents, bl_size = 0, bl_restart_offset = 0\<rparr>
              else \<lparr>bl_data = contents, bl_size = size, bl_restart_offset = size - unat (1 + NumRestarts contents) * 4\<rparr>)"

text \<open>
  \<open>p\<close> are the bytes up to \<open>limit\<close>; the result has the two key lengths, the length of the value and the rest, from the key delta
  on.  The sum of the last check is a 32-bit sum.
\<close>

definition DecodeEntry :: "bytes \<Rightarrow> (u32 \<times> u32 \<times> u32 \<times> bytes) option" where
  "DecodeEntry p =
     (if length p < 3 then None
      else
        let shared = ucast (p ! 0); non_shared = ucast (p ! 1); value_length = ucast (p ! 2);
            entry =
              (if shared OR non_shared OR value_length < (128 :: u32) then Some (shared, non_shared, value_length, drop 3 p)
               else case GetVarint32Ptr p of
                 None \<Rightarrow> None
               | Some (shared, p) \<Rightarrow> (case GetVarint32Ptr p of
                   None \<Rightarrow> None
                 | Some (non_shared, p) \<Rightarrow> (case GetVarint32Ptr p of
                     None \<Rightarrow> None
                   | Some (value_length, p) \<Rightarrow> Some (shared, non_shared, value_length, p))))
        in case entry of
             None \<Rightarrow> None
           | Some (shared, non_shared, value_length, p) \<Rightarrow>
               if of_nat (length p) < non_shared + value_length then None else Some (shared, non_shared, value_length, p))"

text \<open>What the iterators of a block share: the contents, the offset of the restart array and its length.\<close>

record iter_block =
  ib_data :: bytes
  ib_restarts :: nat
  ib_num :: nat

text \<open>The value is its offset and its length; \<open>bi_corrupt\<close> stands for the status.\<close>

record block_iter =
  bi_current :: nat
  bi_index :: nat
  bi_key :: bytes
  bi_value :: nat
  bi_length :: nat
  bi_corrupt :: bool

definition Iter_init :: "iter_block \<Rightarrow> block_iter" where
  "Iter_init b = \<lparr>bi_current = ib_restarts b, bi_index = ib_num b, bi_key = [], bi_value = 0, bi_length = 0, bi_corrupt = False\<rparr>"

text \<open>\<open>NewIterator\<close>: an error, an empty iterator, or an iterator over the block.\<close>

datatype new_iter = Iter_Corruption | Iter_Empty | Iter_Over iter_block

definition NewIterator :: "block \<Rightarrow> new_iter" where
  "NewIterator bl =
     (if bl_size bl < 4 then Iter_Corruption
      else
        let num_restarts = NumRestarts (bl_data bl)
        in if num_restarts = 0 then Iter_Empty
           else Iter_Over \<lparr>ib_data = bl_data bl, ib_restarts = bl_restart_offset bl, ib_num = unat num_restarts\<rparr>)"

definition Iter_Valid :: "iter_block \<Rightarrow> block_iter \<Rightarrow> bool" where
  "Iter_Valid b it \<longleftrightarrow> bi_current it < ib_restarts b"

definition Iter_value :: "iter_block \<Rightarrow> block_iter \<Rightarrow> bytes" where
  "Iter_value b it = take (bi_length it) (drop (bi_value it) (ib_data b))"

definition NextEntryOffset :: "block_iter \<Rightarrow> nat" where
  "NextEntryOffset it = (bi_value it + bi_length it) mod 4294967296"

definition GetRestartPoint :: "iter_block \<Rightarrow> nat \<Rightarrow> nat" where
  "GetRestartPoint b index = unat (DecodeFixed32 (drop (ib_restarts b + index * 4) (ib_data b)))"

definition SeekToRestartPoint :: "iter_block \<Rightarrow> nat \<Rightarrow> block_iter \<Rightarrow> block_iter" where
  "SeekToRestartPoint b index it = it\<lparr>bi_key := [], bi_index := index, bi_value := GetRestartPoint b index, bi_length := 0\<rparr>"

definition CorruptionError :: "iter_block \<Rightarrow> block_iter \<Rightarrow> block_iter" where
  "CorruptionError b it = it\<lparr>bi_current := ib_restarts b, bi_index := ib_num b, bi_corrupt := True, bi_key := [], bi_value := 0, bi_length := 0\<rparr>"

function restart_loop :: "iter_block \<Rightarrow> nat \<Rightarrow> nat \<Rightarrow> nat" where
  "restart_loop b current index =
     (if index + 1 < ib_num b \<and> GetRestartPoint b (index + 1) < current then restart_loop b current (index + 1) else index)"
  by pat_completeness auto
termination
  by (relation "measure (\<lambda>(b, _, index). ib_num b - index)") auto

declare restart_loop.simps [simp del]

definition ParseNextKey :: "iter_block \<Rightarrow> block_iter \<Rightarrow> bool \<times> block_iter" where
  "ParseNextKey b it =
     (let current = NextEntryOffset it
      in if current \<ge> ib_restarts b then (False, it\<lparr>bi_current := ib_restarts b, bi_index := ib_num b\<rparr>)
         else case DecodeEntry (take (ib_restarts b - current) (drop current (ib_data b))) of
             None \<Rightarrow> (False, CorruptionError b (it\<lparr>bi_current := current\<rparr>))
           | Some (shared, non_shared, value_length, q) \<Rightarrow>
               if length (bi_key it) < unat shared then (False, CorruptionError b (it\<lparr>bi_current := current\<rparr>))
               else
                 let p = ib_restarts b - length q
                 in (True, it\<lparr>bi_current := current,
                      bi_key := take (unat shared) (bi_key it) @ take (unat non_shared) (drop p (ib_data b)),
                      bi_value := p + unat non_shared, bi_length := unat value_length,
                      bi_index := restart_loop b current (bi_index it)\<rparr>))"

definition Iter_Next :: "iter_block \<Rightarrow> block_iter \<Rightarrow> block_iter" where
  "Iter_Next b it = snd (ParseNextKey b it)"

definition Iter_SeekToFirst :: "iter_block \<Rightarrow> block_iter \<Rightarrow> block_iter" where
  "Iter_SeekToFirst b it = snd (ParseNextKey b (SeekToRestartPoint b 0 it))"

text \<open>The loops of \<open>Prev\<close> and \<open>SeekToLast\<close>.\<close>

partial_function (option) skip_loop :: "iter_block \<Rightarrow> nat \<Rightarrow> block_iter \<Rightarrow> block_iter option" where
  "skip_loop b bound it =
     (case ParseNextKey b it of (ok, it) \<Rightarrow> if ok \<and> NextEntryOffset it < bound then skip_loop b bound it else Some it)"

declare skip_loop.simps [code]

definition Iter_SeekToLast :: "iter_block \<Rightarrow> block_iter \<Rightarrow> block_iter option" where
  "Iter_SeekToLast b it = skip_loop b (ib_restarts b) (SeekToRestartPoint b (ib_num b - 1) it)"

fun prev_restart :: "iter_block \<Rightarrow> nat \<Rightarrow> nat \<Rightarrow> nat option" where
  "prev_restart b original index =
     (if GetRestartPoint b index \<ge> original then (case index of 0 \<Rightarrow> None | Suc i \<Rightarrow> prev_restart b original i) else Some index)"

declare prev_restart.simps [simp del]

definition Iter_Prev :: "iter_block \<Rightarrow> block_iter \<Rightarrow> block_iter option" where
  "Iter_Prev b it =
     (let original = bi_current it
      in case prev_restart b original (bi_index it) of
           None \<Rightarrow> Some (it\<lparr>bi_current := ib_restarts b, bi_index := ib_num b\<rparr>)
         | Some index \<Rightarrow> skip_loop b original (SeekToRestartPoint b index it))"

text \<open>
  The binary search over the restart points; \<open>Some None\<close> is a corrupted entry.  The sum is a 32-bit sum; it can only wrap
  when there are more than \<open>2 ^ 31\<close> restart points, and the search might then not return.
\<close>

partial_function (option) seek_restart :: "bytes cmp \<Rightarrow> iter_block \<Rightarrow> bytes \<Rightarrow> nat \<Rightarrow> nat \<Rightarrow> nat option option" where
  "seek_restart cmp b target left right =
     (if left < right then
        let mid = (left + right + 1) mod 4294967296 div 2; region_offset = GetRestartPoint b mid
        in case DecodeEntry (take (ib_restarts b - region_offset) (drop region_offset (ib_data b))) of
             None \<Rightarrow> Some None
           | Some (shared, non_shared, value_length, q) \<Rightarrow>
               if shared \<noteq> 0 then Some None
               else if cmp (take (unat non_shared) (drop (ib_restarts b - length q) (ib_data b))) target < 0
               then seek_restart cmp b target mid right
               else seek_restart cmp b target left (mid - 1)
      else Some (Some left))"

declare seek_restart.simps [code]

partial_function (option) seek_loop :: "bytes cmp \<Rightarrow> iter_block \<Rightarrow> bytes \<Rightarrow> block_iter \<Rightarrow> block_iter option" where
  "seek_loop cmp b target it =
     (case ParseNextKey b it of (ok, it) \<Rightarrow>
        if \<not> ok then Some it else if cmp (bi_key it) target \<ge> 0 then Some it else seek_loop cmp b target it)"

declare seek_loop.simps [code]

definition Iter_Seek :: "bytes cmp \<Rightarrow> iter_block \<Rightarrow> bytes \<Rightarrow> block_iter \<Rightarrow> block_iter option" where
  "Iter_Seek cmp b target it =
     (case seek_restart cmp b target 0 (ib_num b - 1) of
        None \<Rightarrow> None
      | Some None \<Rightarrow> Some (CorruptionError b it)
      | Some (Some left) \<Rightarrow> seek_loop cmp b target (SeekToRestartPoint b left it))"

section \<open>The layout of a block\<close>

fun ent_bytes :: "nat \<Rightarrow> bytes \<times> bytes \<Rightarrow> bytes" where
  "ent_bytes s (k, v) = varint s @ varint (length k - s) @ varint (length v) @ drop s k @ v"

text \<open>\<open>ss\<close> are the lengths of the shared prefixes, \<open>rs\<close> the entries at the restart points.\<close>

definition block_parts :: "(bytes \<times> bytes) list \<Rightarrow> nat list \<Rightarrow> bytes list" where
  "block_parts es ss = map2 ent_bytes ss es"

definition block_ok :: "(bytes \<times> bytes) list \<Rightarrow> nat list \<Rightarrow> nat list \<Rightarrow> bool" where
  "block_ok es ss rs \<longleftrightarrow>
     length ss = length es \<and> rs \<noteq> [] \<and> rs ! 0 = 0 \<and> sorted_wrt (<) rs \<and>
     (\<forall>r \<in> set rs. (es = [] \<and> r = 0) \<or> (r < length es \<and> ss ! r = 0)) \<and>
     (\<forall>i < length es. ss ! i \<le> length (fst (es ! i))) \<and>
     (\<forall>i. Suc i < length es \<longrightarrow> ss ! Suc i \<le> length (fst (es ! i)) \<and> take (ss ! Suc i) (fst (es ! i)) = take (ss ! Suc i) (fst (es ! Suc i)))"

definition holds_block :: "iter_block \<Rightarrow> (bytes \<times> bytes) list \<Rightarrow> nat list \<Rightarrow> nat list \<Rightarrow> bool" where
  "holds_block b es ss rs \<longleftrightarrow>
     block_ok es ss rs \<and> ib_restarts b = length (concat (block_parts es ss)) \<and> ib_num b = length rs \<and>
     ib_data b = concat (block_parts es ss) @ concat (map EncodeFixed32 (map (\<lambda>r. of_nat (flat_offset (block_parts es ss) r)) rs)) @
       EncodeFixed32 (of_nat (length rs)) \<and>
     length (ib_data b) < 4294967296"

lemma length_ent_bytes: "3 \<le> length (ent_bytes s e)"
proof -
  have l: "1 \<le> length (varint n)" for n using varint_nonempty [of n] by (cases "varint n") simp_all
  obtain k v where e: "e = (k, v)" by force
  show ?thesis using l [of s] l [of "length k - s"] l [of "length v"] by (simp add: e)
qed

lemma get_size: "n < 4294967296 \<Longrightarrow> GetVarint32Ptr (varint n @ r) = Some (of_nat n, r)"
  using GetVarint32_varint [of "of_nat n" r] by (simp add: unat_of_nat)

lemma or_less_128: "(ucast a OR ucast b OR ucast c < (128 :: u32)) = (unat a < 128 \<and> unat b < 128 \<and> unat c < 128)" for a b c :: u8
proof -
  have lt: "x < 128 \<longleftrightarrow> drop_bit 7 x = 0" for x :: u32
    by (simp only: word_less_nat_alt unat_eq_0 [symmetric] unat_drop_bit_div) (simp add: div_eq_0_iff)
  have u: "drop_bit 7 (ucast d :: u32) = 0 \<longleftrightarrow> unat d < 128" for d :: u8
    by (simp only: unat_eq_0 [symmetric] unat_drop_bit_div) (simp add: div_eq_0_iff)
  have z: "x OR y = 0 \<longleftrightarrow> x = 0 \<and> y = 0" for x y :: u32
    by (auto simp: bit_eq_iff bit_simps)
  show ?thesis unfolding lt drop_bit_or z u ..
qed

lemma varint_first: "varint n ! 0 = (if n < 128 then of_nat n else of_nat (n mod 128 + 128))"
  by (subst varint.simps) simp

lemma varint_first_less: "unat (varint n ! 0) < 128 \<longleftrightarrow> n < 128"
  by (simp add: varint_first unat_of_nat del: of_nat_add)

lemma DecodeEntry_ent:
  assumes "s \<le> length k" and "length (ent_bytes s (k, v) @ r) < 4294967296" and "length k < 4294967296"
  shows "DecodeEntry (ent_bytes s (k, v) @ r) = Some (of_nat s, of_nat (length k - s), of_nat (length v), drop s k @ v @ r)"
proof -
  let ?ns = "length k - s" and ?vl = "length v"
  let ?p = "ent_bytes s (k, v) @ r"
  let ?q = "drop s k @ v @ r"
  let ?entry = "Some (of_nat s, of_nat ?ns, of_nat ?vl, ?q) :: (u32 \<times> u32 \<times> u32 \<times> bytes) option"
  have small: "s < 4294967296" "?ns < 4294967296" "?vl < 4294967296" "?ns + ?vl < 4294967296" "length ?q < 4294967296"
    using assms by simp_all
  have slow: "(case GetVarint32Ptr ?p of None \<Rightarrow> None
       | Some (shared, p) \<Rightarrow> (case GetVarint32Ptr p of None \<Rightarrow> None
           | Some (non_shared, p) \<Rightarrow> (case GetVarint32Ptr p of None \<Rightarrow> None
               | Some (value_length, p) \<Rightarrow> Some (shared, non_shared, value_length, p)))) = ?entry"
    using small by (simp add: get_size)
  have first: "?p ! 0 = varint s ! 0" using varint_nonempty [of s] by (cases "varint s") simp_all
  have entry: "(if ucast (?p ! 0) OR ucast (?p ! 1) OR ucast (?p ! 2) < (128 :: u32)
      then Some (ucast (?p ! 0), ucast (?p ! 1), ucast (?p ! 2), drop 3 ?p)
      else case GetVarint32Ptr ?p of None \<Rightarrow> None
       | Some (shared, p) \<Rightarrow> (case GetVarint32Ptr p of None \<Rightarrow> None
           | Some (non_shared, p) \<Rightarrow> (case GetVarint32Ptr p of None \<Rightarrow> None
               | Some (value_length, p) \<Rightarrow> Some (shared, non_shared, value_length, p)))) = ?entry"
  proof (cases "ucast (?p ! 0) OR ucast (?p ! 1) OR ucast (?p ! 2) < (128 :: u32)")
    case False
    then show ?thesis using slow by (simp only: if_False)
  next
    case True
    then have lt: "unat (?p ! 0) < 128" "unat (?p ! 1) < 128" "unat (?p ! 2) < 128" unfolding or_less_128 by blast+
    have s: "s < 128" using lt(1) first varint_first_less by simp
    then have p1: "?p = of_nat s # varint ?ns @ varint ?vl @ ?q" by (simp add: varint_small)
    then have "?p ! 1 = varint ?ns ! 0" using varint_nonempty [of ?ns] by (cases "varint ?ns") simp_all
    then have ns: "?ns < 128" using lt(2) varint_first_less by simp
    then have p2: "?p = of_nat s # of_nat ?ns # varint ?vl @ ?q" unfolding p1 by (simp add: varint_small)
    then have "?p ! 2 = varint ?vl ! 0" using varint_nonempty [of ?vl] by (cases "varint ?vl") (simp_all del: ent_bytes.simps)
    then have vl: "?vl < 128" using lt(3) varint_first_less by simp
    have p3: "?p = [of_nat s, of_nat ?ns, of_nat ?vl] @ ?q" unfolding p2 using vl by (simp add: varint_small)
    have cast: "(ucast (of_nat m :: u8) :: u32) = of_nat m" if "m < 128" for m
      using that by (intro word_of_nat_eqI) (simp add: unat_of_nat)
    have "?p ! 0 = of_nat s" "?p ! 1 = of_nat ?ns" "?p ! 2 = of_nat ?vl" "drop 3 ?p = ?q"
      unfolding p3 by (simp_all add: numeral_2_eq_2 numeral_3_eq_3)
    then show ?thesis using True cast [OF s] cast [OF ns] cast [OF vl] by (simp only: if_True)
  qed
  have "3 \<le> length ?p" using length_ent_bytes [of s "(k, v)"] by (simp only: length_append)
  moreover have w: "unat (of_nat m :: u32) = m" if "m < 4294967296" for m using that by (simp add: unat_of_nat)
  have "unat (of_nat ?ns + of_nat ?vl :: u32) = ?ns + ?vl" using w [OF small(4)] by (simp only: of_nat_add)
  then have "\<not> (of_nat (length ?q) :: u32) < of_nat ?ns + of_nat ?vl"
    unfolding word_less_nat_alt w [OF small(5)] by simp
  ultimately show ?thesis unfolding DecodeEntry_def Let_def entry by simp
qed

section \<open>Moving over a block\<close>

lemma nth_parts: "length ss = length es \<Longrightarrow> i < length es \<Longrightarrow> block_parts es ss ! i = ent_bytes (ss ! i) (es ! i)"
  by (simp add: block_parts_def)

lemma length_parts: "length ss = length es \<Longrightarrow> length (block_parts es ss) = length es"
  by (simp add: block_parts_def)

abbreviation entry_pos :: "(bytes \<times> bytes) list \<Rightarrow> nat list \<Rightarrow> nat \<Rightarrow> nat" where
  "entry_pos es ss i \<equiv> flat_offset (block_parts es ss) i"

lemma pos_step:
  assumes "length ss = length es" "i < length es"
  shows "entry_pos es ss i + 3 \<le> entry_pos es ss (Suc i)"
  using assms length_ent_bytes [of "ss ! i" "es ! i"] flat_offset_Suc [of i "block_parts es ss"] nth_parts [OF assms] length_parts [OF assms(1)] by simp

lemma pos_mono:
  assumes "length ss = length es" "i < j" "j \<le> length es"
  shows "entry_pos es ss i < entry_pos es ss j"
  using assms(2,3)
proof (induction j)
  case (Suc j)
  have "entry_pos es ss j < entry_pos es ss (Suc j)" using pos_step [OF assms(1), of j] Suc.prems by simp
  then show ?case using Suc by (cases "i = j") auto
qed simp

lemma pos_less_iff:
  assumes "length ss = length es" "i \<le> length es" "j \<le> length es"
  shows "entry_pos es ss i < entry_pos es ss j \<longleftrightarrow> i < j"
  using pos_mono [OF assms(1), of i j] pos_mono [OF assms(1), of j i] assms(2,3) by (cases i j rule: linorder_cases) auto

lemma pos_end: "length ss = length es \<Longrightarrow> entry_pos es ss (length es) = length (concat (block_parts es ss))"
  using flat_offset_all [of "block_parts es ss"] length_parts [of ss es] by simp

text \<open>The facts below are about an iterator over a block that holds \<open>es\<close>.\<close>

lemma block_shape:
  assumes "holds_block b es ss rs"
  shows "block_ok es ss rs" "length ss = length es" "ib_num b = length rs" "ib_restarts b = entry_pos es ss (length es)"
    "entry_pos es ss i < 4294967296"
proof -
  show ok: "block_ok es ss rs" "ib_num b = length rs" and l: "length ss = length es"
    using assms by (simp_all add: holds_block_def block_ok_def)
  show "ib_restarts b = entry_pos es ss (length es)" using assms pos_end [OF l] by (simp add: holds_block_def)
  have "length (concat (block_parts es ss)) \<le> length (ib_data b)" using assms by (simp add: holds_block_def)
  then show "entry_pos es ss i < 4294967296"
    using assms flat_offset_le [of "block_parts es ss" i] unfolding holds_block_def by linarith
qed

lemma restart_le:
  assumes "block_ok es ss rs" and "j < length rs"
  shows "rs ! j \<le> length es"
  using assms nth_mem [OF assms(2)] unfolding block_ok_def by fastforce

lemma restart_point:
  assumes b: "holds_block b es ss rs" and j: "j < length rs"
  shows "GetRestartPoint b j = entry_pos es ss (rs ! j)"
proof -
  let ?os = "map (\<lambda>r. of_nat (entry_pos es ss r)) rs :: u32 list"
  have "drop (ib_restarts b + j * 4) (ib_data b) = drop (4 * j) (concat (map EncodeFixed32 ?os) @ EncodeFixed32 (of_nat (length rs)))"
    using b by (simp add: holds_block_def mult.commute)
  then have "DecodeFixed32 (drop (ib_restarts b + j * 4) (ib_data b)) = of_nat (entry_pos es ss (rs ! j))"
    using decode_fixed32s [of j ?os "EncodeFixed32 (of_nat (length rs))"] j by simp
  then show ?thesis using block_shape(5) [OF b, of "rs ! j"] by (simp add: GetRestartPoint_def unat_of_nat)
qed

lemma restart_loop_bounds: "idx < ib_num b \<Longrightarrow> restart_loop b c idx < ib_num b"
proof (induction b c idx rule: restart_loop.induct)
  case (1 b c idx)
  then show ?case by (subst restart_loop.simps) auto
qed

text \<open>The iterator is at entry \<open>i\<close>; it is ready to parse entry \<open>i\<close>.\<close>

definition iter_at :: "iter_block \<Rightarrow> (bytes \<times> bytes) list \<Rightarrow> nat list \<Rightarrow> nat \<Rightarrow> block_iter \<Rightarrow> bool" where
  "iter_at b es ss i it \<longleftrightarrow>
     i < length es \<and> bi_current it = entry_pos es ss i \<and> bi_key it = fst (es ! i) \<and>
     bi_value it + length (snd (es ! i)) = entry_pos es ss (Suc i) \<and> bi_length it = length (snd (es ! i)) \<and> bi_index it < ib_num b"

definition iter_ready :: "iter_block \<Rightarrow> (bytes \<times> bytes) list \<Rightarrow> nat list \<Rightarrow> nat \<Rightarrow> block_iter \<Rightarrow> bool" where
  "iter_ready b es ss i it \<longleftrightarrow>
     i \<le> length es \<and> NextEntryOffset it = entry_pos es ss i \<and> bi_index it < ib_num b \<and>
     (i < length es \<longrightarrow> ss ! i \<le> length (bi_key it) \<and> take (ss ! i) (bi_key it) = take (ss ! i) (fst (es ! i)))"

definition iter_end :: "iter_block \<Rightarrow> block_iter \<Rightarrow> bool" where
  "iter_end b it \<longleftrightarrow> bi_current it = ib_restarts b"

lemma key_length:
  assumes "block_ok es ss rs" and "i < length es"
  shows "length (fst (es ! i)) \<le> entry_pos es ss (Suc i)"
  using assms(2)
proof (induction i)
  case 0
  have l: "length ss = length es" using assms(1) by (simp add: block_ok_def)
  have "ss ! 0 = 0" using assms(1) 0 unfolding block_ok_def by (metis length_greater_0_conv nth_mem)
  then show ?case
    using flat_offset_Suc [of 0 "block_parts es ss"] nth_parts [OF l 0] length_parts [OF l] 0 by (cases "es ! 0") simp
next
  case (Suc i)
  have l: "length ss = length es" using assms(1) by (simp add: block_ok_def)
  obtain k v where e: "es ! Suc i = (k, v)" by force
  have "ss ! Suc i \<le> length (fst (es ! i))" using assms(1) Suc.prems unfolding block_ok_def by blast
  also have "\<dots> \<le> entry_pos es ss (Suc i)" using Suc by simp
  finally show ?case
    using flat_offset_Suc [of "Suc i" "block_parts es ss"] nth_parts [OF l Suc.prems] length_parts [OF l] Suc.prems e by simp
qed

lemma entry_split:
  assumes b: "holds_block b es ss rs" and i: "i < length es"
  shows "\<exists>tail. ib_data b = concat (take i (block_parts es ss)) @ ent_bytes (ss ! i) (es ! i) @ concat (drop (Suc i) (block_parts es ss)) @ tail"
proof -
  note l = block_shape(2) [OF b]
  have "block_parts es ss = take i (block_parts es ss) @ block_parts es ss ! i # drop (Suc i) (block_parts es ss)"
    using i length_parts [OF l] by (intro id_take_nth_drop) simp
  then have "concat (block_parts es ss) =
      concat (take i (block_parts es ss)) @ ent_bytes (ss ! i) (es ! i) @ concat (drop (Suc i) (block_parts es ss))"
    using nth_parts [OF l i] by (metis concat.simps(2) concat_append)
  then show ?thesis using b by (simp add: holds_block_def)
qed

lemma entry_at:
  assumes b: "holds_block b es ss rs" and i: "i < length es" and e: "es ! i = (k, v)" and s: "s = ss ! i"
  defines "q \<equiv> drop s k @ v @ concat (drop (Suc i) (block_parts es ss))"
  shows "DecodeEntry (take (ib_restarts b - entry_pos es ss i) (drop (entry_pos es ss i) (ib_data b))) =
      Some (of_nat s, of_nat (length k - s), of_nat (length v), q)" (is ?decode)
    and "take (length k - s) (drop (ib_restarts b - length q) (ib_data b)) = drop s k" (is ?key)
    and "ib_restarts b - length q + (length k - s) + length v = entry_pos es ss (Suc i)" (is ?pos)
    and "take (length v) (drop (entry_pos es ss (Suc i) - length v) (ib_data b)) = v" (is ?val)
    and "s \<le> length k" "length k < 4294967296" "length v < 4294967296" "length v \<le> entry_pos es ss (Suc i)"
proof -
  let ?P = "block_parts es ss"
  note l = block_shape(2) [OF b]
  obtain tail where d: "ib_data b = concat (take i ?P) @ ent_bytes s (k, v) @ concat (drop (Suc i) ?P) @ tail"
    using entry_split [OF b i] e s by auto
  have pos: "entry_pos es ss i = length (concat (take i ?P))" by (simp add: flat_offset_def)
  have suc: "entry_pos es ss (Suc i) = entry_pos es ss i + length (ent_bytes s (k, v))"
    using flat_offset_Suc [of i ?P] nth_parts [OF l i] length_parts [OF l] i e s by simp
  have rest: "ib_restarts b = entry_pos es ss (Suc i) + length (concat (drop (Suc i) ?P))"
  proof -
    have "length (concat ?P) = length (concat (take (Suc i) ?P)) + length (concat (drop (Suc i) ?P))"
      by (metis append_take_drop_id concat_append length_append)
    then show ?thesis using block_shape(4) [OF b] pos_end [OF l] by (simp add: flat_offset_def)
  qed
  show sk: "s \<le> length k" using block_shape(1) [OF b] i e s unfolding block_ok_def by (metis fst_conv)
  have "length k \<le> entry_pos es ss (Suc i)" using key_length [OF block_shape(1) [OF b] i] e by simp
  then show k: "length k < 4294967296" using block_shape(5) [OF b, of "Suc i"] by simp
  have small: "length (ib_data b) < 4294967296" using b unfolding holds_block_def by blast
  then show v: "length v < 4294967296" unfolding d by simp
  show "length v \<le> entry_pos es ss (Suc i)" unfolding suc by simp
  have "take (ib_restarts b - entry_pos es ss i) (drop (entry_pos es ss i) (ib_data b)) = ent_bytes s (k, v) @ concat (drop (Suc i) ?P)"
    unfolding d pos using rest suc pos by (simp del: ent_bytes.simps)
  moreover have "length (ent_bytes s (k, v) @ concat (drop (Suc i) ?P)) < 4294967296" using small unfolding d by simp
  ultimately show ?decode unfolding q_def using DecodeEntry_ent [OF sk _ k] by simp
  have ptr: "ib_restarts b - length q = entry_pos es ss (Suc i) - (length k - s + length v)" unfolding q_def rest by simp
  have fits: "length k - s + length v \<le> entry_pos es ss (Suc i)" unfolding suc by simp
  show ?pos unfolding ptr using fits by simp
  define hdr where "hdr = concat (take i ?P) @ varint s @ varint (length k - s) @ varint (length v)"
  have d': "ib_data b = hdr @ drop s k @ v @ concat (drop (Suc i) ?P) @ tail" unfolding d hdr_def by simp
  have h: "entry_pos es ss (Suc i) = length hdr + (length k - s) + length v" unfolding suc pos hdr_def by simp
  show ?key unfolding ptr h d' by simp
  show ?val unfolding h d' by simp
qed

lemma parse_ready:
  assumes b: "holds_block b es ss rs" and r: "iter_ready b es ss i it" and i: "i < length es"
  shows "\<exists>it'. ParseNextKey b it = (True, it') \<and> iter_at b es ss i it' \<and> bi_corrupt it' = bi_corrupt it"
proof -
  obtain k v where e: "es ! i = (k, v)" by force
  define s where "s = ss ! i"
  note at = entry_at [OF b i e s_def]
  have cur: "NextEntryOffset it = entry_pos es ss i" and key: "s \<le> length (bi_key it)" "take s (bi_key it) = take s k"
    and idx: "bi_index it < ib_num b"
    using r i e s_def by (simp_all add: iter_ready_def)
  have lt: "\<not> ib_restarts b \<le> entry_pos es ss i"
    using pos_mono [OF block_shape(2) [OF b] i] block_shape(4) [OF b] by simp
  have u: "unat (of_nat s :: u32) = s" "unat (of_nat (length k - s) :: u32) = length k - s" "unat (of_nat (length v) :: u32) = length v"
    using at(5-7) by (simp_all add: unat_of_nat del: of_nat_diff)
  let ?q = "drop s k @ v @ concat (drop (Suc i) (block_parts es ss))"
  let ?p = "ib_restarts b - length ?q"
  let ?it = "it\<lparr>bi_current := entry_pos es ss i, bi_key := take s (bi_key it) @ take (length k - s) (drop ?p (ib_data b)),
     bi_value := ?p + (length k - s), bi_length := length v, bi_index := restart_loop b (entry_pos es ss i) (bi_index it)\<rparr>"
  have "ParseNextKey b it = (True, ?it)"
    unfolding ParseNextKey_def cur Let_def at(1) option.case prod.case u using lt key(1) by (simp only: if_False not_less [symmetric])
  moreover have "take s (bi_key it) @ take (length k - s) (drop ?p (ib_data b)) = k" unfolding key(2) at(2) by simp
  then have "iter_at b es ss i ?it"
    using i e at(3) restart_loop_bounds [OF idx] by (simp add: iter_at_def)
  ultimately show ?thesis by auto
qed

lemma parse_end:
  assumes b: "holds_block b es ss rs" and r: "iter_ready b es ss (length es) it"
  shows "\<exists>it'. ParseNextKey b it = (False, it') \<and> iter_end b it' \<and> bi_corrupt it' = bi_corrupt it"
  using r block_shape(4) [OF b] by (simp add: ParseNextKey_def iter_ready_def iter_end_def Let_def)

lemma at_next:
  assumes b: "holds_block b es ss rs" and at: "iter_at b es ss i it"
  shows "NextEntryOffset it = entry_pos es ss (Suc i)" and "iter_ready b es ss (Suc i) it"
proof -
  show n: "NextEntryOffset it = entry_pos es ss (Suc i)"
    using at block_shape(5) [OF b, of "Suc i"] by (auto simp: NextEntryOffset_def iter_at_def)
  show "iter_ready b es ss (Suc i) it"
    using at n block_shape(1) [OF b] unfolding iter_ready_def iter_at_def block_ok_def by auto
qed

lemma at_valid:
  assumes b: "holds_block b es ss rs" and at: "iter_at b es ss i it"
  shows "Iter_Valid b it" "bi_key it = fst (es ! i)" "Iter_value b it = snd (es ! i)"
proof -
  obtain k v where e: "es ! i = (k, v)" by force
  have i: "i < length es" using at by (simp add: iter_at_def)
  show "Iter_Valid b it" using at pos_mono [OF block_shape(2) [OF b] i] block_shape(4) [OF b] by (simp add: iter_at_def Iter_Valid_def)
  show "bi_key it = fst (es ! i)" using at by (simp add: iter_at_def)
  have "bi_value it + length v = entry_pos es ss (Suc i)" "bi_length it = length v" using at e by (simp_all add: iter_at_def)
  then have "bi_value it = entry_pos es ss (Suc i) - length v" "bi_length it = length v" by simp_all
  then show "Iter_value b it = snd (es ! i)" using entry_at(4) [OF b i e refl] e by (simp add: Iter_value_def)
qed

lemma end_invalid: "iter_end b it \<Longrightarrow> \<not> Iter_Valid b it"
  by (simp add: iter_end_def Iter_Valid_def)

lemma restart_ready:
  assumes b: "holds_block b es ss rs" and j: "j < length rs"
  shows "iter_ready b es ss (rs ! j) (SeekToRestartPoint b j it)"
proof -
  have "rs ! j < length es \<longrightarrow> ss ! (rs ! j) = 0"
    using block_shape(1) [OF b] nth_mem [OF j] unfolding block_ok_def by auto
  then show ?thesis
    using restart_le [OF block_shape(1) [OF b] j] restart_point [OF b j] block_shape(3) [OF b] block_shape(5) [OF b, of "rs ! j"] j
    by (simp add: iter_ready_def SeekToRestartPoint_def NextEntryOffset_def)
qed

lemma skip_until:
  assumes b: "holds_block b es ss rs" and r: "iter_ready b es ss i it" and m: "i < m" "m \<le> length es"
  shows "\<exists>it'. skip_loop b (entry_pos es ss m) it = Some it' \<and> iter_at b es ss (m - 1) it' \<and> bi_corrupt it' = bi_corrupt it"
  using r m(1)
proof (induction "m - i" arbitrary: i it)
  case (Suc n)
  from Suc.prems m(2) obtain it1 where it1: "ParseNextKey b it = (True, it1)" "iter_at b es ss i it1" "bi_corrupt it1 = bi_corrupt it"
    using parse_ready [OF b Suc.prems(1)] by auto
  note nxt = at_next [OF b it1(2)]
  have lt: "entry_pos es ss (Suc i) < entry_pos es ss m \<longleftrightarrow> Suc i < m"
    using pos_less_iff [OF block_shape(2) [OF b], of "Suc i" m] Suc.prems(2) m(2) by simp
  show ?case
  proof (cases "Suc i < m")
    case True
    then have "skip_loop b (entry_pos es ss m) it = skip_loop b (entry_pos es ss m) it1"
      using it1(1) nxt(1) lt by (subst skip_loop.simps) simp
    then show ?thesis using Suc.hyps(1) [of "Suc i" it1] Suc.hyps(2) nxt(2) True it1(3) by auto
  next
    case False
    then have "skip_loop b (entry_pos es ss m) it = Some it1" using it1(1) nxt(1) lt by (subst skip_loop.simps) simp
    moreover have "m - 1 = i" using False Suc.prems(2) by simp
    ultimately show ?thesis using it1 by simp
  qed
qed simp

lemma seek_to_first:
  assumes b: "holds_block b es ss rs"
  shows "(if es = [] then iter_end b (Iter_SeekToFirst b it) else iter_at b es ss 0 (Iter_SeekToFirst b it)) \<and>
    bi_corrupt (Iter_SeekToFirst b it) = bi_corrupt it"
proof -
  have "0 < length rs" "rs ! 0 = 0" using block_shape(1) [OF b] by (simp_all add: block_ok_def)
  then have r: "iter_ready b es ss 0 (SeekToRestartPoint b 0 it)" using restart_ready [OF b, of 0 it] by simp
  have c: "bi_corrupt (SeekToRestartPoint b 0 it) = bi_corrupt it" by (simp add: SeekToRestartPoint_def)
  show ?thesis
  proof (cases "es = []")
    case True
    then show ?thesis using parse_end [OF b, of "SeekToRestartPoint b 0 it"] r c by (auto simp: Iter_SeekToFirst_def)
  next
    case False
    then show ?thesis using parse_ready [OF b r] c by (auto simp: Iter_SeekToFirst_def)
  qed
qed

lemma iter_next:
  assumes b: "holds_block b es ss rs" and at: "iter_at b es ss i it"
  shows "(if Suc i < length es then iter_at b es ss (Suc i) (Iter_Next b it) else iter_end b (Iter_Next b it)) \<and>
    bi_corrupt (Iter_Next b it) = bi_corrupt it"
proof (cases "Suc i < length es")
  case True
  then show ?thesis using parse_ready [OF b at_next(2) [OF b at]] by (auto simp: Iter_Next_def)
next
  case False
  then have "Suc i = length es" using at by (simp add: iter_at_def)
  then show ?thesis using parse_end [OF b, of it] at_next(2) [OF b at] by (auto simp: Iter_Next_def)
qed

lemma seek_to_last:
  assumes b: "holds_block b es ss rs" and ne: "es \<noteq> []"
  shows "\<exists>it'. Iter_SeekToLast b it = Some it' \<and> iter_at b es ss (length es - 1) it' \<and> bi_corrupt it' = bi_corrupt it"
proof -
  let ?j = "length rs - 1"
  have j: "?j < length rs" using block_shape(1) [OF b] by (simp add: block_ok_def)
  then have "rs ! ?j < length es" using block_shape(1) [OF b] nth_mem [OF j] ne unfolding block_ok_def by blast
  moreover have "bi_corrupt (SeekToRestartPoint b ?j it) = bi_corrupt it" by (simp add: SeekToRestartPoint_def)
  ultimately show ?thesis
    using skip_until [OF b restart_ready [OF b j, of it], of "length es"] block_shape(3,4) [OF b] by (simp add: Iter_SeekToLast_def)
qed

lemma prev_restart_finds:
  assumes b: "holds_block b es ss rs" and i: "i \<le> length es" and "idx < length rs"
  shows "prev_restart b (entry_pos es ss i) idx = (if i = 0 then None else prev_restart b (entry_pos es ss i) idx) \<and>
    (0 < i \<longrightarrow> (\<exists>j < length rs. prev_restart b (entry_pos es ss i) idx = Some j \<and> rs ! j < i))"
  using assms(3)
proof (induction idx)
  case 0
  have r0: "rs ! 0 = 0" using block_shape(1) [OF b] by (simp add: block_ok_def)
  have "GetRestartPoint b 0 = entry_pos es ss 0" using restart_point [OF b 0] r0 by simp
  moreover have "entry_pos es ss 0 < entry_pos es ss i \<longleftrightarrow> 0 < i"
    using pos_less_iff [OF block_shape(2) [OF b], of 0 i] i by simp
  ultimately show ?case using 0 r0 by (subst prev_restart.simps, subst (2) prev_restart.simps) (auto simp: prev_restart.simps)
next
  case (Suc idx)
  have "GetRestartPoint b (Suc idx) < entry_pos es ss i \<longleftrightarrow> rs ! Suc idx < i"
    using restart_point [OF b Suc.prems] pos_less_iff [OF block_shape(2) [OF b] restart_le [OF block_shape(1) [OF b] Suc.prems] i] by simp
  moreover have "prev_restart b (entry_pos es ss i) (Suc idx) =
      (if GetRestartPoint b (Suc idx) \<ge> entry_pos es ss i then prev_restart b (entry_pos es ss i) idx else Some (Suc idx))"
    by (subst prev_restart.simps) simp
  ultimately show ?case using Suc by (auto simp: not_less)
qed

lemma iter_prev:
  assumes b: "holds_block b es ss rs" and at: "iter_at b es ss i it"
  shows "\<exists>it'. Iter_Prev b it = Some it' \<and> (if i = 0 then iter_end b it' else iter_at b es ss (i - 1) it') \<and> bi_corrupt it' = bi_corrupt it"
proof -
  have i: "i \<le> length es" "bi_current it = entry_pos es ss i" "bi_index it < length rs"
    using at block_shape(3) [OF b] by (simp_all add: iter_at_def)
  note prev = prev_restart_finds [OF b i(1,3)]
  show ?thesis
  proof (cases "i = 0")
    case True
    then show ?thesis using prev i(2) by (auto simp: Iter_Prev_def iter_end_def)
  next
    case False
    then obtain j where j: "j < length rs" "prev_restart b (entry_pos es ss i) (bi_index it) = Some j" "rs ! j < i" using prev by blast
    have "bi_corrupt (SeekToRestartPoint b j it) = bi_corrupt it" by (simp add: SeekToRestartPoint_def)
    then show ?thesis
      using skip_until [OF b restart_ready [OF b j(1), of it] j(3) i(1)] j(2) i(2) False by (auto simp: Iter_Prev_def)
  qed
qed

subsection \<open>Seek\<close>

definition sorted_entries :: "bytes cmp \<Rightarrow> (bytes \<times> bytes) list \<Rightarrow> bool" where
  "sorted_entries cmp es \<longleftrightarrow> sorted_wrt (\<lambda>x y. cmp (fst x) (fst y) < 0) es"

lemma seek_loop_finds:
  fixes cmp :: "bytes cmp" and target :: bytes
  assumes b: "holds_block b es ss rs" and r: "iter_ready b es ss i it"
  defines "j \<equiv> i + length (takeWhile (\<lambda>e. cmp (fst e) target < 0) (drop i es))"
  shows "\<exists>it'. seek_loop cmp b target it = Some it' \<and> (if j < length es then iter_at b es ss j it' else iter_end b it') \<and>
    bi_corrupt it' = bi_corrupt it"
  using r unfolding j_def
proof (induction "length es - i" arbitrary: i it)
  case 0
  then have i: "i = length es" by (simp add: iter_ready_def)
  then obtain it' where "ParseNextKey b it = (False, it')" "iter_end b it'" "bi_corrupt it' = bi_corrupt it"
    using parse_end [OF b, of it] 0 by blast
  then show ?case using i by (subst seek_loop.simps) simp
next
  case (Suc n)
  then have i: "i < length es" by simp
  obtain it1 where it1: "ParseNextKey b it = (True, it1)" "iter_at b es ss i it1" "bi_corrupt it1 = bi_corrupt it"
    using parse_ready [OF b Suc.prems i] by blast
  have key: "bi_key it1 = fst (es ! i)" using at_valid(2) [OF b it1(2)] .
  have d: "drop i es = es ! i # drop (Suc i) es" using i by (rule Cons_nth_drop_Suc [symmetric])
  show ?case
  proof (cases "cmp (fst (es ! i)) target < 0")
    case True
    then have "seek_loop cmp b target it = seek_loop cmp b target it1" using it1(1) key by (subst seek_loop.simps) simp
    moreover have "Suc i + length (takeWhile (\<lambda>e. cmp (fst e) target < 0) (drop (Suc i) es)) =
        i + length (takeWhile (\<lambda>e. cmp (fst e) target < 0) (drop i es))"
      using True d by simp
    moreover have "n = length es - Suc i" using Suc.hyps(2) by simp
    ultimately show ?thesis using Suc.hyps(1) [OF _ at_next(2) [OF b it1(2)]] it1(3) by (simp only: simp_thms)
  next
    case False
    then have "seek_loop cmp b target it = Some it1" using it1(1) key by (subst seek_loop.simps) simp
    then show ?thesis using it1 False d i by simp
  qed
qed

lemma restart_key:
  assumes b: "holds_block b es ss rs" and j: "j < length rs" and ne: "es \<noteq> []"
  defines "p \<equiv> GetRestartPoint b j"
  shows "\<exists>ns vl q. DecodeEntry (take (ib_restarts b - p) (drop p (ib_data b))) = Some (0, ns, vl, q) \<and>
    take (unat ns) (drop (ib_restarts b - length q) (ib_data b)) = fst (es ! (rs ! j))"
proof -
  have i: "rs ! j < length es" "ss ! (rs ! j) = 0"
    using block_shape(1) [OF b] nth_mem [OF j] ne unfolding block_ok_def by blast+
  obtain k v where e: "es ! (rs ! j) = (k, v)" by force
  note at = entry_at [OF b i(1) e i(2) [symmetric]]
  have "unat (of_nat (length k) :: u32) = length k" using at(6) by (simp add: unat_of_nat)
  then show ?thesis unfolding p_def restart_point [OF b j] using at(1,2) e by simp
qed

lemma restarts_few: "holds_block b es ss rs \<Longrightarrow> 4 * length rs < 4294967296"
  by (auto simp: holds_block_def EncodeFixed32_def length_concat comp_def sum_list_triv)

lemma seek_restart_finds:
  assumes cmp: "comparator cmp" and b: "holds_block b es ss rs" and ne: "es \<noteq> []" and sorted: "sorted_entries cmp es"
    and "left \<le> right" "right < length rs" and "\<forall>i < rs ! left. cmp (fst (es ! i)) target < 0"
  shows "\<exists>l < length rs. seek_restart cmp b target left right = Some (Some l) \<and> (\<forall>i < rs ! l. cmp (fst (es ! i)) target < 0)"
  using assms(5-7)
proof (induction "right - left" arbitrary: left right rule: less_induct)
  case less
  show ?case
  proof (cases "left < right")
    case False
    then have "seek_restart cmp b target left right = Some (Some left)" by (subst seek_restart.simps) simp
    then show ?thesis using less.prems by auto
  next
    case True
    define mid where "mid = (left + right + 1) mod 4294967296 div 2"
    have "left + right + 1 < 4294967296" using True less.prems(2) restarts_few [OF b] by simp
    then have mid: "left < mid" "mid \<le> right" using True by (simp_all add: mid_def)
    then have m: "mid < length rs" using less.prems(2) by simp
    obtain ns vl q where key: "DecodeEntry (take (ib_restarts b - GetRestartPoint b mid) (drop (GetRestartPoint b mid) (ib_data b))) = Some (0, ns, vl, q)"
      "take (unat ns) (drop (ib_restarts b - length q) (ib_data b)) = fst (es ! (rs ! mid))"
      using restart_key [OF b m ne] by blast
    have step: "seek_restart cmp b target left right =
        (if cmp (fst (es ! (rs ! mid))) target < 0 then seek_restart cmp b target mid right else seek_restart cmp b target left (mid - 1))"
      using True by (subst seek_restart.simps) (simp add: Let_def key mid_def [symmetric] del: One_nat_def add_Suc_right)
    show ?thesis
    proof (cases "cmp (fst (es ! (rs ! mid))) target < 0")
      case lt: True
      have r: "rs ! mid < length es" using block_shape(1) [OF b] nth_mem [OF m] ne unfolding block_ok_def by blast
      have "cmp (fst (es ! i)) target < 0" if "i < rs ! mid" for i
      proof -
        have "cmp (fst (es ! i)) (fst (es ! (rs ! mid))) < 0"
          using sorted that r unfolding sorted_entries_def sorted_wrt_iff_nth_less by blast
        then show ?thesis
          using lt comparator.cmp_trans_less(1) [OF cmp, of "fst (es ! i)" "fst (es ! (rs ! mid))" target] by simp
      qed
      then show ?thesis using less.hyps [of right mid] mid less.prems(2) step lt by simp
    next
      case ge: False
      have "mid - 1 - left < right - left" "left \<le> mid - 1" "mid - 1 < length rs" using mid m by simp_all
      then show ?thesis using less.hyps [of "mid - 1" left] less.prems(3) step ge by simp
    qed
  qed
qed

lemma iter_seek:
  fixes target :: bytes
  assumes cmp: "comparator cmp" and b: "holds_block b es ss rs" and sorted: "sorted_entries cmp es"
  defines "j \<equiv> length (takeWhile (\<lambda>e. cmp (fst e) target < 0) es)"
  shows "\<exists>it'. Iter_Seek cmp b target it = Some it' \<and> (if j < length es then iter_at b es ss j it' else iter_end b it') \<and>
    bi_corrupt it' = bi_corrupt it"
proof -
  have rs: "rs \<noteq> []" "rs ! 0 = 0" using block_shape(1) [OF b] by (simp_all add: block_ok_def)
  have "\<exists>l < length rs. seek_restart cmp b target 0 (length rs - 1) = Some (Some l) \<and> (\<forall>i < rs ! l. cmp (fst (es ! i)) target < 0)"
  proof (cases "es = []")
    case True
    then have "\<forall>r \<in> set rs. r = 0" "sorted_wrt (<) rs" using block_shape(1) [OF b] by (simp_all add: block_ok_def)
    then have "rs = [0]" using rs by (cases rs; cases "tl rs") auto
    then show ?thesis by (subst seek_restart.simps) simp
  next
    case False
    then show ?thesis using seek_restart_finds [OF cmp b False sorted, of 0 "length rs - 1" target] rs by simp
  qed
  then obtain l where l: "l < length rs" "seek_restart cmp b target 0 (length rs - 1) = Some (Some l)"
    "\<forall>i < rs ! l. cmp (fst (es ! i)) target < 0" by blast
  let ?P = "\<lambda>e. cmp (fst e) target < 0"
  have le: "rs ! l \<le> length es" by (rule restart_le [OF block_shape(1) [OF b] l(1)])
  have all: "\<forall>e \<in> set (take (rs ! l) es). ?P e"
  proof
    fix e assume "e \<in> set (take (rs ! l) es)"
    then obtain i where "i < rs ! l" "e = es ! i" by (auto simp: in_set_conv_nth)
    then show "?P e" using l(3) by simp
  qed
  have "takeWhile ?P (take (rs ! l) es @ drop (rs ! l) es) = take (rs ! l) es @ takeWhile ?P (drop (rs ! l) es)"
    by (rule takeWhile_append2) (use all in blast)
  then have "j = rs ! l + length (takeWhile ?P (drop (rs ! l) es))" using le by (simp add: j_def)
  moreover have "bi_corrupt (SeekToRestartPoint b l it) = bi_corrupt it" by (simp add: SeekToRestartPoint_def)
  ultimately show ?thesis
    using seek_loop_finds [OF b restart_ready [OF b l(1), of it], of cmp target] l(2) block_shape(3) [OF b]
    by (simp only: Iter_Seek_def option.case)
qed

section \<open>The builder produces such a block\<close>

definition bb_holds :: "block_builder \<Rightarrow> (bytes \<times> bytes) list \<Rightarrow> nat list \<Rightarrow> nat list \<Rightarrow> bool" where
  "bb_holds bb es ss rs \<longleftrightarrow>
     block_ok es ss rs \<and> bb_buffer bb = concat (block_parts es ss) \<and> bb_restarts bb = map (\<lambda>r. of_nat (entry_pos es ss r)) rs \<and>
     bb_last_key bb = (if es = [] then [] else fst (last es)) \<and> (es = [] \<longrightarrow> bb_counter bb = 0)"

lemma diff_scan_shared:
  "diff_scan a b \<le> length a" "diff_scan a b \<le> length b" "take (diff_scan a b) a = take (diff_scan a b) b"
  by (induction a b rule: diff_scan.induct) auto

lemma put_size: "n < 4294967296 \<Longrightarrow> PutVarint32 dst (of_nat n) = dst @ varint n"
  by (simp add: PutVarint32_def encode_varint32 unat_of_nat)

lemma put_zero: "PutVarint32 dst 0 = dst @ varint 0"
  using put_size [of 0] by simp

lemma parts_snoc: "length ss = length es \<Longrightarrow> block_parts (es @ [e]) (ss @ [s]) = block_parts es ss @ [ent_bytes s e]"
  by (simp add: block_parts_def)

lemma block_ok_snoc:
  assumes ok: "block_ok es ss rs" and "s \<le> length (fst e)"
    and "es \<noteq> [] \<Longrightarrow> s \<le> length (fst (last es)) \<and> take s (fst (last es)) = take s (fst e)"
    and rs': "rs' = rs \<and> (es = [] \<longrightarrow> s = 0) \<or> rs' = rs @ [length es] \<and> es \<noteq> [] \<and> s = 0"
  shows "block_ok (es @ [e]) (ss @ [s]) rs'"
  unfolding block_ok_def
proof (intro conjI)
  note ok' = ok [unfolded block_ok_def]
  show "length (ss @ [s]) = length (es @ [e])" "rs' \<noteq> []" using ok' rs' by auto
  have ne: "rs \<noteq> []" "rs ! 0 = 0" using ok' by simp_all
  then show "rs' ! 0 = 0" using rs' by (auto simp: nth_append)
  show "sorted_wrt (<) rs'" using ok' rs' by (auto simp: sorted_wrt_append)
  show "\<forall>r \<in> set rs'. es @ [e] = [] \<and> r = 0 \<or> r < length (es @ [e]) \<and> (ss @ [s]) ! r = 0"
  proof
    fix r assume "r \<in> set rs'"
    then consider "r \<in> set rs" "es = []" "s = 0" | "r \<in> set rs" "es \<noteq> []" | "r = length es" "s = 0" using rs' by auto
    then show "es @ [e] = [] \<and> r = 0 \<or> r < length (es @ [e]) \<and> (ss @ [s]) ! r = 0"
      using ok' by cases (auto simp: nth_append)
  qed
  show "\<forall>i < length (es @ [e]). (ss @ [s]) ! i \<le> length (fst ((es @ [e]) ! i))"
    using ok' assms(2) by (auto simp: nth_append less_Suc_eq)
  show "\<forall>i. Suc i < length (es @ [e]) \<longrightarrow> (ss @ [s]) ! Suc i \<le> length (fst ((es @ [e]) ! i)) \<and>
      take ((ss @ [s]) ! Suc i) (fst ((es @ [e]) ! i)) = take ((ss @ [s]) ! Suc i) (fst ((es @ [e]) ! Suc i))"
  proof (intro allI impI)
    fix i assume i: "Suc i < length (es @ [e])"
    show "(ss @ [s]) ! Suc i \<le> length (fst ((es @ [e]) ! i)) \<and>
        take ((ss @ [s]) ! Suc i) (fst ((es @ [e]) ! i)) = take ((ss @ [s]) ! Suc i) (fst ((es @ [e]) ! Suc i))"
    proof (cases "Suc i < length es")
      case True
      then show ?thesis using ok' by (simp add: nth_append)
    next
      case False
      then have len: "length es = Suc i" using i by simp
      moreover from this have ne: "es \<noteq> []" by auto
      ultimately have "es \<noteq> []" "last es = es ! i" using last_conv_nth [OF ne] by simp_all
      then show ?thesis using assms(3) ok' len by (simp add: nth_append)
    qed
  qed
qed

lemma Add_holds:
  assumes h: "bb_holds bb es ss rs" and "1 \<le> interval" and k: "length k < 4294967296" and v: "length v < 4294967296"
  shows "\<exists>ss' rs'. bb_holds (BlockBuilder_Add interval k v bb) (es @ [(k, v)]) ss' rs'"
proof -
  have ok: "block_ok es ss rs" and buf: "bb_buffer bb = concat (block_parts es ss)"
    and res: "bb_restarts bb = map (\<lambda>r. of_nat (entry_pos es ss r)) rs"
    and key: "bb_last_key bb = (if es = [] then [] else fst (last es))" and cnt: "es = [] \<longrightarrow> bb_counter bb = 0"
    using h by (simp_all add: bb_holds_def)
  have l: "length ss = length es" using ok by (simp add: block_ok_def)
  let ?cont = "bb_counter bb < interval"
  define s where "s = (if ?cont then diff_scan (bb_last_key bb) k else 0)"
  define rs' where "rs' = (if ?cont then rs else rs @ [length es])"
  have s: "s \<le> length k" "es \<noteq> [] \<Longrightarrow> s \<le> length (fst (last es)) \<and> take s (fst (last es)) = take s k" "es = [] \<Longrightarrow> s = 0"
    using diff_scan_shared [of "bb_last_key bb" k] key by (auto simp: s_def)
  have "rs' = rs \<and> (es = [] \<longrightarrow> s = 0) \<or> rs' = rs @ [length es] \<and> es \<noteq> [] \<and> s = 0"
    using s(3) cnt assms(2) by (auto simp: rs'_def s_def)
  from block_ok_snoc [OF ok _ _ this, of "(k, v)"] s(1,2) have ok': "block_ok (es @ [(k, v)]) (ss @ [s]) rs'" by simp
  have pos: "entry_pos (es @ [(k, v)]) (ss @ [s]) r = entry_pos es ss r" if "r \<le> length es" for r
    using that parts_snoc [OF l] length_parts [OF l] by (simp add: flat_offset_snoc)
  have rle: "r \<le> length es" if "r \<in> set rs" for r using restart_le [OF ok] that by (auto simp: in_set_conv_nth)
  have "bb_last_key (BlockBuilder_Add interval k v bb) = k"
    using s key by (auto simp: BlockBuilder_Add_def Let_def s_def)
  moreover have "bb_buffer (BlockBuilder_Add interval k v bb) = concat (block_parts (es @ [(k, v)]) (ss @ [s]))"
    using s(1) k v buf parts_snoc [OF l, of "(k, v)" s] by (auto simp: BlockBuilder_Add_def Let_def put_size put_zero s_def)
  moreover have "bb_restarts (BlockBuilder_Add interval k v bb) = map (\<lambda>r. of_nat (entry_pos (es @ [(k, v)]) (ss @ [s]) r)) rs'"
    using res pos rle pos_end [OF l] buf by (auto simp: BlockBuilder_Add_def Let_def rs'_def)
  ultimately show ?thesis using ok' unfolding bb_holds_def by auto
qed

definition block_build :: "nat \<Rightarrow> (bytes \<times> bytes) list \<Rightarrow> bytes" where
  "block_build interval es = bb_buffer (BlockBuilder_Finish (foldl (\<lambda>bb e. BlockBuilder_Add interval (fst e) (snd e) bb) BlockBuilder es))"

lemma build_holds:
  assumes "1 \<le> interval" and "\<forall>e \<in> set es. length (fst e) < 4294967296 \<and> length (snd e) < 4294967296"
  shows "\<exists>ss rs. bb_holds (foldl (\<lambda>bb e. BlockBuilder_Add interval (fst e) (snd e) bb) BlockBuilder es) es ss rs"
  using assms(2)
proof (induction es rule: rev_induct)
  case Nil
  have "bb_holds BlockBuilder [] [] [0]" by (simp add: bb_holds_def BlockBuilder_def block_ok_def flat_offset_def block_parts_def)
  then show ?case by auto
next
  case (snoc e es)
  then show ?case using Add_holds [OF _ assms(1), of _ es _ _ "fst e" "snd e"] by fastforce
qed

lemma built_block:
  assumes "bb_holds bb es ss rs" and small: "length (bb_buffer (BlockBuilder_Finish bb)) < 4294967296"
  shows "\<exists>b. NewIterator (Block (bb_buffer (BlockBuilder_Finish bb))) = Iter_Over b \<and> holds_block b es ss rs"
proof -
  let ?P = "concat (block_parts es ss)" and ?os = "map (\<lambda>r. of_nat (entry_pos es ss r)) rs :: u32 list" and ?n = "length rs"
  let ?c = "bb_buffer (BlockBuilder_Finish bb)"
  have ok: "block_ok es ss rs" using assms(1) by (simp add: bb_holds_def)
  have c: "?c = (?P @ concat (map EncodeFixed32 ?os)) @ EncodeFixed32 (of_nat ?n)"
    using assms(1) by (simp add: bb_holds_def BlockBuilder_Finish_def Let_def foldl_PutFixed32 PutFixed32_def)
  have l4: "length (EncodeFixed32 w) = 4" for w by (simp add: EncodeFixed32_def)
  have len: "length ?c = length ?P + 4 * ?n + 4" unfolding c by (simp add: l4 del: map_map)
  have n: "0 < ?n" "Suc ?n < 4294967296" using ok small len by (auto simp: block_ok_def)
  have "drop (length ?c - 4) ?c = EncodeFixed32 (of_nat ?n)" unfolding len unfolding c by (simp del: map_map)
  then have num: "NumRestarts ?c = of_nat ?n"
    using decode_fixed32 [of "of_nat ?n" "[]"] by (simp add: NumRestarts_def fixed32_le)
  have u: "unat (of_nat ?n :: u32) = ?n" "unat (1 + of_nat ?n :: u32) = Suc ?n"
    using n unat_of_nat [of ?n, where 'a = 32] unat_of_nat [of "Suc ?n", where 'a = 32] by simp_all
  have "Block ?c = \<lparr>bl_data = ?c, bl_size = length ?c, bl_restart_offset = length ?P\<rparr>"
    unfolding Block_def Let_def num u using len by simp
  moreover have "(of_nat ?n :: u32) \<noteq> 0" using u(1) n(1) by (metis unat_0 less_irrefl)
  ultimately have "NewIterator (Block ?c) = Iter_Over \<lparr>ib_data = ?c, ib_restarts = length ?P, ib_num = ?n\<rparr>"
    using len u(1) num by (simp add: NewIterator_def Let_def)
  moreover have "holds_block \<lparr>ib_data = ?c, ib_restarts = length ?P, ib_num = ?n\<rparr> es ss rs"
    unfolding holds_block_def using ok small c by simp
  ultimately show ?thesis by blast
qed

section \<open>Properties\<close>

text \<open>What an iterator gives from its position on, forwards and backwards.\<close>

primrec walk :: "nat \<Rightarrow> iter_block \<Rightarrow> block_iter \<Rightarrow> (bytes \<times> bytes) list" where
  "walk 0 b it = []"
| "walk (Suc n) b it = (if Iter_Valid b it then (bi_key it, Iter_value b it) # walk n b (Iter_Next b it) else [])"

primrec walk_back :: "nat \<Rightarrow> iter_block \<Rightarrow> block_iter \<Rightarrow> (bytes \<times> bytes) list option" where
  "walk_back 0 b it = Some []"
| "walk_back (Suc n) b it =
     (if Iter_Valid b it then
        (case Iter_Prev b it of None \<Rightarrow> None | Some it' \<Rightarrow> map_option (Cons (bi_key it, Iter_value b it)) (walk_back n b it'))
      else Some [])"

text \<open>Where the two walks stop, after \<open>n\<close> steps at the latest.\<close>

primrec walk_stop :: "nat \<Rightarrow> iter_block \<Rightarrow> block_iter \<Rightarrow> block_iter" where
  "walk_stop 0 b it = it"
| "walk_stop (Suc n) b it = (if Iter_Valid b it then walk_stop n b (Iter_Next b it) else it)"

primrec walk_back_stop :: "nat \<Rightarrow> iter_block \<Rightarrow> block_iter \<Rightarrow> block_iter option" where
  "walk_back_stop 0 b it = Some it"
| "walk_back_stop (Suc n) b it =
     (if Iter_Valid b it then (case Iter_Prev b it of None \<Rightarrow> None | Some it' \<Rightarrow> walk_back_stop n b it') else Some it)"

lemma stop_end: "iter_end b it \<Longrightarrow> walk_stop n b it = it" "iter_end b it \<Longrightarrow> walk_back_stop n b it = Some it"
  using end_invalid by (cases n; auto)+

lemma walk_stop_at:
  assumes b: "holds_block b es ss rs"
  shows "iter_at b es ss i it \<Longrightarrow> length es \<le> i + n \<Longrightarrow>
    iter_end b (walk_stop n b it) \<and> bi_corrupt (walk_stop n b it) = bi_corrupt it"
proof (induction n arbitrary: i it)
  case 0
  then show ?case by (simp add: iter_at_def)
next
  case (Suc n)
  then show ?case
    using iter_next [OF b Suc.prems(1)] Suc.IH [of "Suc i"] at_valid(1) [OF b Suc.prems(1)] stop_end(1) [of b "Iter_Next b it" n]
    by (cases "Suc i < length es") auto
qed

lemma walk_back_stop_at:
  assumes b: "holds_block b es ss rs"
  shows "iter_at b es ss i it \<Longrightarrow> i < n \<Longrightarrow>
    \<exists>stop. walk_back_stop n b it = Some stop \<and> iter_end b stop \<and> bi_corrupt stop = bi_corrupt it"
proof (induction n arbitrary: i it)
  case (Suc n)
  obtain it' where it': "Iter_Prev b it = Some it'" "if i = 0 then iter_end b it' else iter_at b es ss (i - 1) it'"
    "bi_corrupt it' = bi_corrupt it"
    using iter_prev [OF b Suc.prems(1)] by blast
  then show ?case
    using Suc.IH [of "i - 1" it'] Suc.prems(2) stop_end(2) [of b it' n] at_valid(1) [OF b Suc.prems(1)] by (cases i) auto
qed simp

lemma walk_end: "iter_end b it \<Longrightarrow> walk n b it = []" "iter_end b it \<Longrightarrow> walk_back n b it = Some []"
  using end_invalid by (cases n; auto)+

lemma walk_at:
  assumes b: "holds_block b es ss rs"
  shows "iter_at b es ss i it \<Longrightarrow> length es \<le> i + n \<Longrightarrow> walk n b it = drop i es"
proof (induction n arbitrary: i it)
  case 0
  then show ?case by (simp add: iter_at_def)
next
  case (Suc n)
  have i: "i < length es" using Suc.prems by (simp add: iter_at_def)
  have "drop i es = es ! i # drop (Suc i) es" using i by (rule Cons_nth_drop_Suc [symmetric])
  moreover have "walk n b (Iter_Next b it) = drop (Suc i) es"
    using iter_next [OF b Suc.prems(1)] Suc.IH [of "Suc i"] Suc.prems(2) walk_end(1) [of b "Iter_Next b it" n]
    by (cases "Suc i < length es") auto
  ultimately show ?case using at_valid [OF b Suc.prems(1)] by simp
qed

lemma walk_back_at:
  assumes b: "holds_block b es ss rs"
  shows "iter_at b es ss i it \<Longrightarrow> i < n \<Longrightarrow> walk_back n b it = Some (rev (take (Suc i) es))"
proof (induction n arbitrary: i it)
  case (Suc n)
  have i: "i < length es" using Suc.prems by (simp add: iter_at_def)
  obtain it' where it': "Iter_Prev b it = Some it'" "if i = 0 then iter_end b it' else iter_at b es ss (i - 1) it'"
    using iter_prev [OF b Suc.prems(1)] by blast
  have "walk_back n b it' = Some (rev (take i es))"
    using it'(2) Suc.IH [of "i - 1" it'] Suc.prems(2) walk_end(2) [of b it' n] by (cases i) auto
  then show ?case using it'(1) at_valid [OF b Suc.prems(1)] i by (simp add: take_Suc_conv_app_nth)
qed simp

text \<open>
  C37: blocks.  For every restart interval, an iterator over the block built from a list of entries goes through exactly these
  entries from \<open>SeekToFirst\<close> with \<open>Next\<close>, and through them in reverse from \<open>SeekToLast\<close> with \<open>Prev\<close>; with any number of
  further steps allowed it gives nothing more, because behind the last (before the first) entry it is invalid.  No loop
  fails to end and no corruption is reported to the end.
\<close>

theorem block_roundtrip:
  assumes "1 \<le> interval" and "\<forall>e \<in> set es. length (fst e) < 4294967296 \<and> length (snd e) < 4294967296"
    and "length (block_build interval es) < 4294967296"
  shows "\<exists>b last. NewIterator (Block (block_build interval es)) = Iter_Over b \<and>
    walk (length es + n) b (Iter_SeekToFirst b (Iter_init b)) = es \<and>
    (let stop = walk_stop (length es + n) b (Iter_SeekToFirst b (Iter_init b)) in \<not> Iter_Valid b stop \<and> \<not> bi_corrupt stop) \<and>
    Iter_SeekToLast b (Iter_init b) = Some last \<and> walk_back (length es + n) b last = Some (rev es) \<and>
    (\<exists>stop. walk_back_stop (length es + n) b last = Some stop \<and> \<not> Iter_Valid b stop \<and> \<not> bi_corrupt stop)"
proof -
  obtain ss rs b where new: "NewIterator (Block (block_build interval es)) = Iter_Over b" and b: "holds_block b es ss rs"
    using build_holds [OF assms(1,2)] built_block assms(3) unfolding block_build_def by blast
  have c: "\<not> bi_corrupt (Iter_init b)" by (simp add: Iter_init_def)
  note first = seek_to_first [OF b, of "Iter_init b"]
  show ?thesis
  proof (cases "es = []")
    case True
    have "0 < length rs" "rs = [0]"
    proof -
      have "\<forall>r \<in> set rs. r = 0" "sorted_wrt (<) rs" "rs \<noteq> []" using block_shape(1) [OF b] True by (simp_all add: block_ok_def)
      then show "rs = [0]" by (cases rs; cases "tl rs") auto
      then show "0 < length rs" by simp
    qed
    then have "iter_ready b es ss (length es) (SeekToRestartPoint b 0 (Iter_init b))"
      using restart_ready [OF b, of 0 "Iter_init b"] True by simp
    from parse_end [OF b this] obtain it' where "ParseNextKey b (SeekToRestartPoint b 0 (Iter_init b)) = (False, it')"
      "bi_corrupt it' = bi_corrupt (SeekToRestartPoint b 0 (Iter_init b))" "iter_end b it'" by blast
    then have "Iter_SeekToLast b (Iter_init b) = Some it'" "\<not> bi_corrupt it'" "iter_end b it'"
      using block_shape(3) [OF b] \<open>rs = [0]\<close> c by (simp_all add: Iter_SeekToLast_def skip_loop.simps SeekToRestartPoint_def)
    then show ?thesis using new True first c by (auto simp: walk_end stop_end end_invalid Let_def)
  next
    case False
    obtain last where last: "Iter_SeekToLast b (Iter_init b) = Some last" "iter_at b es ss (length es - 1) last"
      "bi_corrupt last = bi_corrupt (Iter_init b)"
      using seek_to_last [OF b False] by blast
    let ?first = "Iter_SeekToFirst b (Iter_init b)"
    have at: "iter_at b es ss 0 ?first" using first False by simp
    have "walk_back (length es + n) b last = Some (rev es)" using walk_back_at [OF b last(2), of "length es + n"] False by (cases es) auto
    moreover have "walk (length es + n) b ?first = es" using walk_at [OF b at] by simp
    moreover have "iter_end b (walk_stop (length es + n) b ?first) \<and> \<not> bi_corrupt (walk_stop (length es + n) b ?first)"
      using walk_stop_at [OF b at, of "length es + n"] first c by simp
    moreover have "\<exists>stop. walk_back_stop (length es + n) b last = Some stop \<and> iter_end b stop \<and> \<not> bi_corrupt stop"
      using walk_back_stop_at [OF b last(2), of "length es + n"] False last(3) c by (cases es) auto
    ultimately show ?thesis using new last(1) end_invalid by (auto simp: Let_def)
  qed
qed

definition demo_entries :: "(bytes \<times> bytes) list" where
  "demo_entries = [([1, 2], [7]), ([1, 3], [8]), ([2], [])]"

lemma demo_build: "block_build 2 demo_entries = [0, 2, 1, 1, 2, 7, 1, 1, 1, 3, 8, 0, 1, 0, 2, 0, 0, 0, 0, 11, 0, 0, 0, 2, 0, 0, 0]"
  by code_simp

lemma block_roundtrip_witness:
  "\<exists>b last. NewIterator (Block (block_build 2 demo_entries)) = Iter_Over b \<and>
     walk (3 + 7) b (Iter_SeekToFirst b (Iter_init b)) = demo_entries \<and> Iter_SeekToLast b (Iter_init b) = Some last \<and>
     walk_back (3 + 7) b last = Some (rev demo_entries)"
proof -
  have len: "length demo_entries = 3" and fits: "\<forall>e \<in> set demo_entries. length (fst e) < 4294967296 \<and> length (snd e) < 4294967296"
    by (simp_all add: demo_entries_def)
  have "length (block_build 2 demo_entries) < 4294967296" unfolding demo_build by simp
  from block_roundtrip [OF _ fits this, of 7] show ?thesis unfolding len by auto
qed

text \<open>
  C40: seeking in a block.  When the keys increase, \<open>Seek\<close> positions the iterator at the first entry whose key is not before the
  target: what it gives from there on are the entries from the target on, for any order of keys.
\<close>

theorem block_seek:
  assumes "comparator cmp" and "sorted_entries cmp es" and "1 \<le> interval"
    and "\<forall>e \<in> set es. length (fst e) < 4294967296 \<and> length (snd e) < 4294967296"
    and "length (block_build interval es) < 4294967296"
  shows "\<exists>b it. NewIterator (Block (block_build interval es)) = Iter_Over b \<and> Iter_Seek cmp b target (Iter_init b) = Some it \<and>
    walk (length es) b it = dropWhile (\<lambda>e. cmp (fst e) target < 0) es \<and> \<not> bi_corrupt it"
proof -
  obtain ss rs b where new: "NewIterator (Block (block_build interval es)) = Iter_Over b" and b: "holds_block b es ss rs"
    using build_holds [OF assms(3,4)] built_block assms(5) unfolding block_build_def by blast
  let ?j = "length (takeWhile (\<lambda>e. cmp (fst e) target < 0) es)"
  obtain it where it: "Iter_Seek cmp b target (Iter_init b) = Some it" "if ?j < length es then iter_at b es ss ?j it else iter_end b it"
    "bi_corrupt it = bi_corrupt (Iter_init b)"
    using iter_seek [OF assms(1) b assms(2)] by blast
  have "dropWhile (\<lambda>e. cmp (fst e) target < 0) es = drop ?j es" by (rule dropWhile_eq_drop)
  moreover have "walk (length es) b it = drop ?j es"
    using it(2) walk_at [OF b, of ?j it "length es"] walk_end(1) [of b it] by (cases "?j < length es") auto
  ultimately show ?thesis using new it by (auto simp: Iter_init_def)
qed

lemma block_seek_witness:
  "\<exists>b it. NewIterator (Block (block_build 2 demo_entries)) = Iter_Over b \<and>
     Iter_Seek Slice_compare b [1, 2, 5] (Iter_init b) = Some it \<and> walk 3 b it = [([1, 3], [8]), ([2], [])]"
proof -
  have len: "length demo_entries = 3" and fits: "\<forall>e \<in> set demo_entries. length (fst e) < 4294967296 \<and> length (snd e) < 4294967296"
    and sorted: "sorted_entries Slice_compare demo_entries"
    and drop: "dropWhile (\<lambda>e. Slice_compare (fst e) [1, 2, 5] < 0) demo_entries = [([1, 3], [8]), ([2], [])]"
    by (simp_all add: demo_entries_def sorted_entries_def)
  have "length (block_build 2 demo_entries) < 4294967296" unfolding demo_build by simp
  from block_seek [OF bytewise.comparator_axioms sorted _ fits this, of "[1, 2, 5]"] show ?thesis unfolding len drop by auto
qed

text \<open>
  The check of an entry adds two 32-bit numbers: an entry that claims a key delta of \<open>2 ^ 32 - 1\<close> bytes and a value of one byte
  passes it although nothing follows.
\<close>

lemma decode_entry_wraps: "DecodeEntry [0, 255, 255, 255, 255, 15, 1] = Some (0, 4294967295, 1, [])"
  by code_simp

end
