(* ===== verification/Spec2Isabelle.thy ===== *)
theory Spec2Isabelle
  imports Cbb_Vector Ber_To_Der Buf Stack Lhash Base64 Time_Support Messages Pb_Codec Write_Batch Leveldb_Filter Leveldb_Block Crc32c
begin

text \<open>
  Three of the libraries that the Movies application carries among its pods (\<open>src/Final Project/Pods\<close>): the
  utility layer of BoringSSL, the wire format of nanopb, and the write path and data formats of LevelDB.  The paths of
  BoringSSL are relative to \<open>BoringSSL-GRPC/src\<close> (the declarations of a \<open>.c\<close> file are in the header of the same
  name under \<open>include/openssl\<close>), those of the other two to \<open>nanopb\<close> and \<open>leveldb-library\<close>.

  \<^bold>\<open>BoringSSL.\<close>  \<open>CBS\<close> (\<open>crypto/bytestring/cbs.c\<close>) is a cursor that reads a byte
  string, \<open>CBB\<close> (\<open>cbb.c\<close>) a builder that writes one; the ASN.1 DER readers and writers, the BER converter
  (\<open>ber.c\<close>) and the text codecs (\<open>unicode.c\<close>, the OIDs of \<open>cbs.c\<close> and \<open>cbb.c\<close>) are written on top of the two.
  \<open>mem.c\<close> allocates for all of them.  \<open>STACK\<close> (\<open>stack/stack.c\<close>), \<open>LHASH\<close> (\<open>lhash/lhash.c\<close>) and
  \<open>BUF_MEM\<close> (\<open>buf/buf.c\<close>) are the containers.  A \<open>BIO\<close> (\<open>bio/bio.c\<close>) is a byte stream with a table of methods;
  \<open>bio_mem.c\<close> is the stream over a \<open>BUF_MEM\<close>, \<open>pair.c\<close> a pair of streams through two ring buffers; \<open>bio.c\<close>
  has a DER framer of its own, \<open>BIO_read_asn1\<close>.  \<open>base64.c\<close>, \<open>asn1/time_support.c\<close> and the constant-time
  helpers of \<open>internal.h\<close> stand on their own.

  \<^bold>\<open>nanopb.\<close>  \<open>pb_decode.c\<close> reads a message from a stream: a callback that delivers bytes, and a count of the bytes
  that are left; a length-delimited field is opened as a substream with a count of its own.  \<open>pb_encode.c\<close> writes to a
  stream with a callback and a limit.  On top of the two are the variable-length, zigzag and fixed-width integers, the tags,
  the strings and the skipping of unknown fields.

  \<^bold>\<open>LevelDB.\<close>  A write is put into a batch (\<open>db/write_batch.cc\<close>), whose bytes are the records of the log; replaying the
  batch adds its entries to a memtable (\<open>db/memtable.cc\<close>), a skip list (\<open>db/skiplist.h\<close>) of encoded entries in the
  order of internal keys (\<open>db/dbformat.cc\<close>): user keys by a comparator (\<open>util/comparator.cc\<close> has the bytewise one),
  newer entries first.  A table holds blocks of sorted entries with shared prefixes and restart points
  (\<open>table/block_builder.cc\<close>, \<open>table/block.cc\<close>) and a block of filters (\<open>table/filter_block.cc\<close>) made by a policy,
  for which \<open>util/bloom.cc\<close> is the library's own.  All formats are made of the integers and slices of
  \<open>util/coding.cc\<close>; \<open>util/crc32c.cc\<close> computes their checksums.

  \<^bold>\<open>Conventions.\<close>  Machine integers are words at their width; \<open>size_t\<close> is a natural number with the wrapping
  operations \<open>size_add\<close> and \<open>size_mul\<close> of \<open>Prelude\<close>, and an \<open>int\<close> that is only compared and added is an
  \<open>int\<close> passed through \<open>c_int\<close>.  A function that returns 0 or \<open>NULL\<close> on failure returns \<open>None\<close> or \<open>False\<close> together
  with the state that it leaves behind, so that partial effects of a failed call are part of the model.
  Pointers into a shared structure are indices (a \<open>CBB\<close> is its depth in its chain, a \<open>BIO\<close> its cell of the
  store, a heap block its number).  An allocator is a function that says which sizes it serves, so every
  failing allocation is a branch.

  \<^bold>\<open>Theories.\<close>
  \<^item> \<open>Prelude\<close>: integer types, big-endian numbers, the generic lemmas on lists.  \<open>Codec\<close>, \<open>Sink\<close>, \<open>Qsort\<close>: the
    interfaces below.
  \<^item> \<open>Cbs\<close>: every reader of \<open>cbs.c\<close>.  \<open>Der\<close>: DER as a specification, and the element readers against it.
    \<open>Der_Int\<close>: INTEGER and BOOLEAN.  \<open>Bit_String\<close>: BIT STRING.
  \<^item> \<open>Cbb\<close>: every operation of \<open>cbb.c\<close> (\<open>cbb_buffer\<close> is \<open>struct cbb_buffer_st\<close>, \<open>cbb_frame\<close> a child with its
    pending prefix).  \<open>Cbb_Spec\<close>: the reference layout \<open>flush_buf\<close> of nested prefixes and \<open>CBB_flush\<close> against
    it.  \<open>Cbb_Write\<close>, \<open>Cbb_Der\<close>: which bytes each writer appends.  \<open>Cbb_Codec\<close>: each writer against its
    reader.  \<open>Cbb_Inv\<close>: the step relation of a builder, its invariant, the stickiness of errors.
    \<open>Cbb_Vector\<close>: nested vectors and whole messages.
  \<^item> \<open>Oid\<close>, \<open>Unicode\<close>, \<open>Set_Of\<close>: text OIDs, code points, SET OF.  \<open>Ber\<close>: \<open>ber.c\<close> with a relation between BER
    and values; \<open>Ber_To_Der\<close>: soundness, termination, and two inputs on which the converter is wrong.
  \<^item> \<open>Mem\<close>: an explicit heap of blocks, \<open>mem.c\<close>.  \<open>Buf\<close>, \<open>Stack\<close>, \<open>Lhash\<close>: the containers, each refined to what
    it stands for (a byte string, a list, a map).
  \<^item> \<open>Base64\<close>: one-shot and streaming coders.  \<open>ConstTime\<close>: masks.  \<open>Time_Support\<close>: Julian days.
  \<^item> \<open>Bio\<close>: the store, the method tables, the generic operations and chains.  \<open>Bio_Asn1\<close>: \<open>BIO_read_asn1\<close> over
    any source.  \<open>Bio_Mem\<close>, \<open>Bio_Pair\<close>: the two kinds of \<open>BIO\<close>.  \<open>Messages\<close>: \<open>CBB\<close>, pair, \<open>BIO_read_asn1\<close>
    and \<open>CBS\<close> in one exchange.
  \<^item> \<open>Varint\<close>: variable-length integers as a specification, shared by nanopb and LevelDB.  \<open>Pb_Stream\<close>: streams,
    \<open>pb_read\<close> and \<open>pb_write\<close>.  \<open>Pb_Wire\<close>: the integer readers and writers against the specification, tags, strings,
    substreams.  \<open>Pb_Codec\<close>: each writer against its reader, skipping, the isolation of substreams.
  \<^item> \<open>Leveldb_Coding\<close>: \<open>coding.cc\<close> and the hash.  \<open>Leveldb_Format\<close>: slices, comparators, internal keys and
    separators.  \<open>Skiplist\<close>: the skip list as nodes with links at every level, its searches and its insertion.
    \<open>Memtable\<close>, \<open>Write_Batch\<close>: entries and batches, and what \<open>Get\<close> finds after a batch.
    \<open>Leveldb_Filter\<close>: the Bloom filter and filter blocks.  \<open>Leveldb_Block\<close>: blocks and their iterator.
    \<open>Crc32c\<close>: the CRC by tables against the division bit by bit.

  \<^bold>\<open>Interfaces.\<close>  \<open>codec\<close> (a reader and an encoding that determine each other), \<open>codec_seq\<close>, \<open>codec_map\<close> and
  \<open>cbb_codec\<close> are interpreted on every wire format of \<open>Cbs\<close> and \<open>Cbb\<close>; \<open>byte_sink\<close> on the builder;
  \<open>comparator\<close> and \<open>comparator_total\<close> on the order of SET OF; \<open>lhash_keys\<close>, \<open>lhash_client\<close> and through it
  \<open>dictionary\<close> on the string tables of \<open>lhash.c\<close>; \<open>bio_source\<close> and \<open>bio_sink\<close>, the contract of reads and writes that
  the loops of \<open>bio.c\<close> rely on, on memory BIOs (open and at their end) and on both ends of a pair.  \<open>pb_source\<close> and
  \<open>pb_sink\<close>, what the stream callbacks promise, are interpreted on buffers, \<open>pb_codec\<close> on every scalar of nanopb.
  \<open>comparator\<close> is also the contract of the comparators of LevelDB, interpreted on the bytewise one and on that of internal
  keys over any comparator; \<open>separating\<close> is what an index block needs of a separator; \<open>filter_policy\<close> is interpreted on
  the Bloom filter and on the policy for internal keys that wraps it.

  \<^bold>\<open>What the lemmas show.\<close>  Readers accept exactly the encodings of the specification and leave the cursor
  as the code leaves it; writers append exactly these encodings; builders keep their invariant under every
  sequence of calls; containers refine their abstract value under every sequence of calls; streams deliver
  every byte once, in order; conversions are inverse where the code means them to be.  For LevelDB the chain from a
  batch to \<open>Get\<close> is proved as a whole: a lookup finds the newest entry of its key at its sequence number.  Each property stands
  after a block that states it in words, and where it has a hypothesis a concrete witness follows it.

  \<^bold>\<open>Termination.\<close>  Most loops are structural.  \<open>cbs_convert_ber\<close> runs on fuel, one more than the number of
  input bytes: every recursive call is on a strict part of its input, and \<open>ber_conversion_terminates\<close> proves that
  it never runs out.  The ring loops of \<open>pair.c\<close> run at most twice (up to the end of the ring, then from its
  start).  \<open>bio_read_all\<close> and the walks along a chain of BIOs are partial functions, \<open>None\<close> for a loop that
  does not end; the lemmas prove that they return.  So are the searches of the skip list and the loops of the block
  iterator, which follow links and offsets in data; they are proved to return on lists that insertion has built and on
  blocks that the builder has written.  The readers of nanopb end because each byte read makes the count of the stream
  smaller.

  \<^bold>\<open>Not modelled.\<close>  The ciphers, big numbers, curves, X.509 and TLS; BIOs over descriptors, files and sockets
  (system calls); the error queue and asserts; locks; variadic printing; the timing that the constant-time
  helpers protect; what the free method of a BIO pair gives back, beyond the fields it clears.  Of nanopb, the messages
  themselves (fields at offsets of a C structure).  Of LevelDB, the table files, versions, compaction and the database with
  its threads and files; reference counts and the arena.  The Swift application and the other pods (gRPC, abseil, the
  Firebase SDKs) are outside this development.  The
  C library's \<open>qsort\<close> is an insertion sort over the same comparison and is used through its contract only (a
  sorted permutation).
\<close>

end
